(* ===== verification/TMS_Prelude.thy ===== *)
theory TMS_Prelude
  imports Main "HOL-Library.Word"
begin

text \<open>
  Shared material of the development: names for the fixed-width integers of the TMS9900 C
  ABI (16-bit \<open>int\<close>, 32-bit \<open>long\<close>, 64-bit \<open>long long\<close>), the compiler builtins the sources
  call for counting zeros, and generic facts on words read as natural numbers. The
  collection \<open>unat_simps\<close> moves shifts, masks and casts of words to \<open>nat\<close>.
\<close>

unbundle bit_operations_syntax

section \<open>Machine integers\<close>

type_synonym u8 = "8 word"
type_synonym u16 = "16 word"
type_synonym u32 = "32 word"
type_synonym u64 = "64 word"

text \<open>Shifts stay shifts: the library's rule would turn \<open>push_bit 1 w\<close> into \<open>w * 2\<close>.\<close>

declare push_bit_Suc [simp del]

named_theorems unat_simps \<open>words as natural numbers\<close>

section \<open>Shifts, masks and casts read as arithmetic\<close>

lemma unat_push_bit [unat_simps]:
  "unat (push_bit n w) = unat w * 2 ^ n mod 2 ^ LENGTH('a)" for w :: "'a::len word"
  by (simp only: unsigned_push_bit_eq) (simp add: take_bit_eq_mod push_bit_eq_mult)

lemma unat_drop_bit [unat_simps]:
  "unat (drop_bit n w) = unat w div 2 ^ n" for w :: "'a::len word"
  by (simp only: unat_drop_bit_eq) (simp add: drop_bit_eq_div)

lemma unat_ucast_mod [unat_simps]:
  "unat (ucast w :: 'b::len word) = unat w mod 2 ^ LENGTH('b)" for w :: "'a::len word"
  by (simp add: unsigned_ucast_eq take_bit_eq_mod)

lemma unat_take_bit_mod [unat_simps]:
  "unat (take_bit n w) = unat w mod 2 ^ n" for w :: "'a::len word"
  by (simp only: unsigned_take_bit_eq) (simp add: take_bit_eq_mod)

lemma unat_and_mask [unat_simps]:
  "unat (w AND mask n) = unat w mod 2 ^ n" for w :: "'a::len word"
  by (simp add: unat_take_bit_mod flip: take_bit_eq_mask)

lemma unat_lt2 [simp]: "unat w < 2 ^ LENGTH('a)" for w :: "'a::len word"
  by (rule unsigned_less)

lemma and_not_mask: "w AND NOT (mask n) = push_bit n (drop_bit n w)" for w :: "'a::len word"
  by (rule bit_eqI)
    (auto simp: bit_and_iff bit_not_iff bit_mask_iff bit_push_bit_iff bit_drop_bit_eq dest: bit_imp_le_length)

lemma pow2_split: "a \<le> b \<Longrightarrow> (2::nat) ^ b = 2 ^ a * 2 ^ (b - a)"
  by (simp only: power_add [symmetric] le_add_diff_inverse)

lemma unat_push_bit_low:
  fixes a :: "'a::len word"
  assumes "k \<le> LENGTH('a)"
  shows "unat (push_bit (LENGTH('a) - k) a) = unat a mod 2 ^ k * 2 ^ (LENGTH('a) - k)"
  unfolding unat_push_bit by (subst pow2_split [OF assms]) (rule mod_mult_mult2)

lemma even_unat [simp]: "even (unat x) \<longleftrightarrow> even x" for x :: "'a::len word"
  using bit_unsigned_iff [of x 0, where 'a = nat] by (simp add: bit_0)

lemma word_eq_of_nat: "unat w = n \<Longrightarrow> w = of_nat n" for w :: "'a::len word"
  by auto

text \<open>An \<open>OR\<close> of values with disjoint bits is their sum.\<close>

lemma or_eq_add_nat:
  fixes a b :: nat
  assumes "b < 2 ^ n"
  shows "(a * 2 ^ n) OR b = a * 2 ^ n + b"
proof -
  have "(a * 2 ^ n) AND b = 0"
  proof (rule bit_eqI)
    fix k
    have "\<not> (n \<le> k \<and> bit b k)"
    proof
      assume "n \<le> k \<and> bit b k"
      then have "n \<le> k" and "bit b k" by auto
      then have "2 ^ n \<le> (2::nat) ^ k" by simp
      with \<open>b < 2 ^ n\<close> have "b < 2 ^ k" by linarith
      with \<open>bit b k\<close> show False by (simp add: bit_iff_odd)
    qed
    then show "bit ((a * 2 ^ n) AND b) k = bit (0::nat) k"
      by (auto simp: bit_and_iff bit_push_bit_iff simp flip: push_bit_eq_mult)
  qed
  then show ?thesis by (simp add: disjunctive_add_eq_or)
qed

lemma unat_or_add:
  fixes x y :: "'a::len word"
  assumes "unat x = a * 2 ^ n" and "unat y < 2 ^ n"
  shows "unat (x OR y) = unat x + unat y"
  using assms by (simp add: unsigned_or_eq or_eq_add_nat)

lemma xor_self_minus: "(w XOR (- 1)) + 1 = - w" for w :: "'a::len word"
  by (simp add: minus_eq_not_plus_1 [of w])

text \<open>Bit by bit: the way to settle an equation between expressions on short words.\<close>

lemma u8_eqI:
  fixes a b :: u8
  assumes "bit a 0 = bit b 0" "bit a 1 = bit b 1" "bit a 2 = bit b 2" "bit a 3 = bit b 3"
    "bit a 4 = bit b 4" "bit a 5 = bit b 5" "bit a 6 = bit b 6" "bit a 7 = bit b 7"
  shows "a = b"
proof (rule bit_eqI)
  fix n assume "possible_bit TYPE(8 word) n"
  then have "n < 8" by simp
  then consider "n = 0" | "n = 1" | "n = 2" | "n = 3" | "n = 4" | "n = 5" | "n = 6" | "n = 7" by linarith
  then show "bit a n = bit b n" by cases (simp_all only: assms)
qed

section \<open>Counting zeros: the builtins \<open>__builtin_clzl\<close> and \<open>__builtin_ctzl\<close>\<close>

fun bitlen :: "nat \<Rightarrow> nat" where
  "bitlen n = (if n = 0 then 0 else Suc (bitlen (n div 2)))"

declare bitlen.simps [simp del]

lemma bitlen_0 [simp]: "bitlen 0 = 0"
  by (simp add: bitlen.simps)

lemma bitlen_pos: "n \<noteq> 0 \<Longrightarrow> bitlen n = Suc (bitlen (n div 2))"
  by (subst bitlen.simps) simp

lemma bitlen_le_iff: "bitlen n \<le> k \<longleftrightarrow> n < 2 ^ k"
proof (induction n arbitrary: k rule: bitlen.induct)
  case (1 n)
  show ?case
  proof (cases "n = 0")
    case True
    then show ?thesis by simp
  next
    case False
    show ?thesis
    proof (cases k)
      case 0
      with False show ?thesis by (simp add: bitlen_pos)
    next
      case (Suc j)
      have "bitlen n \<le> k \<longleftrightarrow> bitlen (n div 2) \<le> j"
        using False Suc by (simp add: bitlen_pos)
      also have "\<dots> \<longleftrightarrow> n div 2 < 2 ^ j"
        using "1.IH" False by simp
      also have "\<dots> \<longleftrightarrow> n < 2 ^ k"
        using Suc by (simp add: div_less_iff_less_mult mult.commute)
      finally show ?thesis .
    qed
  qed
qed

lemma less_bitlen_iff: "k < bitlen n \<longleftrightarrow> 2 ^ k \<le> n"
  using bitlen_le_iff [of n k] by linarith

lemma bitlen_lt: "n < 2 ^ bitlen n"
  using bitlen_le_iff [of n "bitlen n"] by simp

lemma bitlen_ge: "n \<noteq> 0 \<Longrightarrow> 2 ^ (bitlen n - 1) \<le> n"
  using less_bitlen_iff [of "bitlen n - 1" n] by (simp add: bitlen_pos)

lemma bitlen_unique: "2 ^ k \<le> n \<Longrightarrow> n < 2 ^ Suc k \<Longrightarrow> bitlen n = Suc k"
  using bitlen_le_iff [of n "Suc k"] less_bitlen_iff [of k n] by linarith

definition clzsi :: "u32 \<Rightarrow> nat" where
  "clzsi a = 32 - bitlen (unat a)"

lemma bitlen_u32_le: "bitlen (unat (a :: u32)) \<le> 32"
  using unat_lt2 [of a] by (simp add: bitlen_le_iff)

lemma clzsi_bounds:
  assumes "a \<noteq> 0"
  shows "clzsi a \<le> 31" and "2 ^ (31 - clzsi a) \<le> unat a" and "unat a < 2 ^ (32 - clzsi a)"
proof -
  let ?l = "bitlen (unat a)"
  from assms have nz: "unat a \<noteq> 0" by (simp add: unat_eq_zero)
  then have "?l \<ge> 1" by (simp add: bitlen_pos)
  moreover have "?l \<le> 32" by (rule bitlen_u32_le)
  ultimately have l: "32 - clzsi a = ?l" "31 - clzsi a = ?l - 1" "clzsi a \<le> 31"
    by (auto simp: clzsi_def)
  show "clzsi a \<le> 31" by (rule l)
  show "2 ^ (31 - clzsi a) \<le> unat a" using bitlen_ge [OF nz] l by simp
  show "unat a < 2 ^ (32 - clzsi a)" using bitlen_lt l by simp
qed

fun ctz_nat :: "nat \<Rightarrow> nat" where
  "ctz_nat n = (if n = 0 \<or> odd n then 0 else Suc (ctz_nat (n div 2)))"

declare ctz_nat.simps [simp del]

definition ctzsi :: "u32 \<Rightarrow> nat" where
  "ctzsi a = ctz_nat (unat a)"

lemma ctz_nat_power2 [simp]: "ctz_nat (2 ^ k) = k"
  by (induction k) (subst ctz_nat.simps, simp)+

text \<open>The test \<open>(x & (x - 1)) == 0\<close> recognises the powers of two.\<close>

lemma nat_and_pred_zero:
  fixes n :: nat
  assumes "n \<noteq> 0" and "n AND (n - 1) = 0"
  shows "n = 2 ^ (bitlen n - 1)"
proof (rule ccontr)
  let ?k = "bitlen n - 1"
  assume ne: "n \<noteq> 2 ^ ?k"
  have ge: "2 ^ ?k \<le> n" using assms(1) by (rule bitlen_ge)
  have lt: "n < 2 ^ Suc ?k" using bitlen_lt [of n] assms(1) by (simp add: bitlen_pos)
  from ge ne have ge': "2 ^ ?k \<le> n - 1" by linarith
  have top: "bit m ?k" if "2 ^ ?k \<le> m" "m < 2 ^ Suc ?k" for m :: nat
  proof -
    from that have "m div 2 ^ ?k = 1" by (intro div_nat_eqI) auto
    then show ?thesis by (simp add: bit_iff_odd)
  qed
  have "bit n ?k" using top [OF ge lt] .
  moreover have "bit (n - 1) ?k" using top [OF ge'] lt by simp
  ultimately have "bit (n AND (n - 1)) ?k" by (simp add: bit_and_iff)
  with assms(2) show False by simp
qed

lemma word_and_pred_zero:
  fixes d :: "'a::len word"
  assumes "d \<noteq> 0" and "d AND (d - 1) = 0"
  shows "unat d = 2 ^ (bitlen (unat d) - 1)"
proof -
  from assms(1) have nz: "unat d \<noteq> 0" by (simp add: unat_eq_zero)
  have "unat (d - 1) = unat d - 1"
    using assms(1) by (simp add: unat_minus_one)
  then have "unat d AND (unat d - 1) = 0"
    using assms(2) by (metis unsigned_and_eq unsigned_0)
  with nz show ?thesis by (rule nat_and_pred_zero)
qed

section \<open>Byte memories\<close>

text \<open>
  A C array of bytes is a function from offsets to bytes, read and written by bytes or, as the
  sources do through \<open>u16_alias\<close>, by 16-bit words. The TMS9900 is big-endian: the word at index
  \<open>i\<close> has its high byte at offset \<open>2 * i\<close>.
\<close>

type_synonym mem = "nat \<Rightarrow> u8"

definition rd16 :: "mem \<Rightarrow> nat \<Rightarrow> u16" where
  "rd16 m i = push_bit 8 (ucast (m (2 * i))) OR ucast (m (2 * i + 1))"

definition wr16 :: "mem \<Rightarrow> nat \<Rightarrow> u16 \<Rightarrow> mem" where
  "wr16 m i w = m(2 * i := ucast (drop_bit 8 w), 2 * i + 1 := ucast w)"

lemma bit_rd16:
  "bit (rd16 m i) k \<longleftrightarrow> k < 16 \<and> (if k < 8 then bit (m (2 * i + 1)) k else bit (m (2 * i)) (k - 8))"
  by (auto simp: rd16_def bit_simps dest: bit_imp_le_length)

lemma rd16_wr16 [simp]: "rd16 (wr16 m i w) j = (if i = j then w else rd16 m j)"
proof (cases "i = j")
  case True
  have "rd16 (wr16 m i w) i = w"
    by (rule bit_eqI) (auto simp: bit_rd16 wr16_def bit_simps)
  with True show ?thesis by simp
next
  case False
  then have "2 * j \<noteq> Suc (2 * i)" "Suc (2 * j) \<noteq> 2 * i" by presburger+
  with False show ?thesis by (simp add: rd16_def wr16_def)
qed

lemma rd16_eq_0_iff: "rd16 m i = 0 \<longleftrightarrow> m (2 * i) = 0 \<and> m (2 * i + 1) = 0"
proof
  assume z: "rd16 m i = 0"
  have "\<not> bit (m (2 * i)) k" for k
    using bit_rd16 [of m i "k + 8"] z by (auto dest: bit_imp_le_length)
  moreover have "\<not> bit (m (2 * i + 1)) k" for k
    using bit_rd16 [of m i k] z by (cases "k < 8") (auto dest: bit_imp_le_length)
  ultimately show "m (2 * i) = 0 \<and> m (2 * i + 1) = 0" by (auto intro!: bit_eqI)
qed (simp add: rd16_def)

section \<open>Loops that write\<close>

text \<open>
  A loop is a \<open>fold\<close> over the values of its counter. If every iteration leaves a view of the state
  alone except at the positions it selects, where it writes a value that only depends on the
  position, so does the loop.
\<close>

lemma fold_view_inv:
  assumes "\<And>i s. i \<in> set is \<Longrightarrow> P s \<Longrightarrow> P (F i s) \<and> view (F i s) k = (if sel i then g else view s k)"
    and "P s"
  shows "P (fold F is s) \<and> view (fold F is s) k = (if \<exists>i \<in> set is. sel i then g else view s k)"
  using assms by (induction "is" arbitrary: s) auto

lemma fold_view:
  assumes "\<And>i s. i \<in> set is \<Longrightarrow> view (F i s) k = (if sel i then g else view s k)"
  shows "view (fold F is s) k = (if \<exists>i \<in> set is. sel i then g else view s k)"
  using fold_view_inv [of "is" "\<lambda>_. True" F view k sel g s] assms by simp

lemma fold_inv: "(\<And>i s. i \<in> set is \<Longrightarrow> P s \<Longrightarrow> P (F i s)) \<Longrightarrow> P s \<Longrightarrow> P (fold F is s)"
  by (induction "is" arbitrary: s) auto

lemma fold_or_eq_0:
  fixes f :: "'i \<Rightarrow> 'a::len word"
  shows "fold (\<lambda>i acc. acc OR f i) is a = 0 \<longleftrightarrow> a = 0 \<and> (\<forall>i \<in> set is. f i = 0)"
  by (induction "is" arbitrary: a) (auto simp: or_eq_0_iff)

lemma bit_fold_or:
  fixes f :: "'i \<Rightarrow> 'a::len word"
  shows "bit (fold (\<lambda>i acc. acc OR f i) is a) k \<longleftrightarrow> bit a k \<or> (\<exists>i \<in> set is. bit (f i) k)"
  by (induction "is" arbitrary: a) (auto simp: bit_or_iff)

lemma unat_u16_lt: "unat (n :: u16) < 2 ^ 16"
  using unsigned_less [of n] by simp

section \<open>Sixteen-bit integers as integers\<close>

text \<open>
  The C type \<^verbatim>\<open>int\<close> has 16 bits on the TMS9900. Where a program computes with signed values its results are
  integers, converted to \<open>int16_t\<close> and \<open>uint16_t\<close> by these functions.
\<close>

definition s16 :: "int \<Rightarrow> int" where
  "s16 i = (i + 32768) mod 65536 - 32768"

definition to_u16 :: "int \<Rightarrow> int" where
  "to_u16 i = i mod 65536"

lemma s16_id: "- 32768 \<le> i \<Longrightarrow> i < 32768 \<Longrightarrow> s16 i = i"
  by (simp add: s16_def)

lemma s16_range: "- 32768 \<le> s16 i" "s16 i < 32768"
  by (simp_all add: s16_def)

lemma to_u16_id: "0 \<le> i \<Longrightarrow> i < 65536 \<Longrightarrow> to_u16 i = i"
  by (simp add: to_u16_def)

end
