(* ===== verification/I64_Builtins.thy ===== *)
theory I64_Builtins
  imports TMS_Prelude "HOL-Library.Signed_Division"
begin

text \<open>
  The 64-bit integer builtins of \<^verbatim>\<open>libtms9900/builtins/i64\<close>: multiplication from 16-bit
  partial products, the shift-and-subtract division of \<^verbatim>\<open>udivmoddi4.c\<close> on pairs of 32-bit
  words, and the signed wrappers. Division by zero is undefined in the source (it reaches a
  32-bit division by zero) and is the result \<open>None\<close> here. The remainder the source stores
  through \<open>rem\<close> when the pointer is not null is the second component of the result.
\<close>

section \<open>Splitting and joining 64-bit values\<close>

definition hi32 :: "u64 \<Rightarrow> u32" where
  "hi32 x = ucast (drop_bit 32 x)"

definition lo32 :: "u64 \<Rightarrow> u32" where
  "lo32 x = ucast x"

definition make64 :: "u32 \<Rightarrow> u32 \<Rightarrow> u64" where
  "make64 hi lo = push_bit 32 (ucast hi) OR ucast lo"

section \<open>Multiplication\<close>

definition muldsi3 :: "u32 \<Rightarrow> u32 \<Rightarrow> u64" where
  "muldsi3 a b =
    (let lower_mask = 0x0000FFFF;
         r_lo = (a AND lower_mask) * (b AND lower_mask);
         t = drop_bit 16 r_lo;
         r_lo = r_lo AND lower_mask;
         t = t + drop_bit 16 a * (b AND lower_mask);
         r_lo = r_lo + push_bit 16 (t AND lower_mask);
         r_hi = drop_bit 16 t;
         t = drop_bit 16 r_lo;
         r_lo = r_lo AND lower_mask;
         t = t + drop_bit 16 b * (a AND lower_mask);
         r_lo = r_lo + push_bit 16 (t AND lower_mask);
         r_hi = r_hi + drop_bit 16 t;
         r_hi = r_hi + drop_bit 16 a * drop_bit 16 b
     in push_bit 32 (ucast r_hi) OR ucast r_lo)"

definition muldi3 :: "u64 \<Rightarrow> u64 \<Rightarrow> u64" where
  "muldi3 a b =
    (let a_lo = (ucast a :: u32);
         a_hi = (ucast (drop_bit 32 a) :: u32);
         b_lo = (ucast b :: u32);
         b_hi = (ucast (drop_bit 32 b) :: u32);
         result = muldsi3 a_lo b_lo;
         result = result + push_bit 32 (ucast (a_hi * b_lo));
         result = result + push_bit 32 (ucast (a_lo * b_hi))
     in result)"

section \<open>Unsigned division\<close>

text \<open>
  The special cases of \<open>__udivmoddi4\<close> either return, divide by zero, or fall through to the
  loop with the shift count \<open>sr\<close> (a 16-bit \<open>unsigned\<close>, so a negative difference of zero
  counts is the ``large'' value the source tests for) and the initial quotient and remainder
  registers.
\<close>

datatype div_setup =
    DivZero
  | Return u64 u64
  | Loop u16 u32 u32 u32 u32  \<comment> \<open>\<open>sr q_hi q_lo r_hi r_lo\<close>\<close>

definition udivmoddi4_setup :: "u64 \<Rightarrow> u64 \<Rightarrow> div_setup" where
  "udivmoddi4_setup a b =
    (let n_hi = hi32 a; n_lo = lo32 a; d_hi = hi32 b; d_lo = lo32 b in
     if n_hi = 0 then
       if d_hi = 0 then
         (if d_lo = 0 then DivZero
          else Return (ucast (n_lo div d_lo)) (ucast (n_lo mod d_lo)))
       else Return 0 (ucast n_lo)
     else if d_lo = 0 then
       if d_hi = 0 then DivZero
       else if n_lo = 0 then
         Return (ucast (n_hi div d_hi)) (make64 (n_hi mod d_hi) 0)
       else if d_hi AND (d_hi - 1) = 0 then
         Return (ucast (drop_bit (ctzsi d_hi) n_hi)) (make64 (n_hi AND (d_hi - 1)) n_lo)
       else
         (let sr = (of_nat (clzsi d_hi) - of_nat (clzsi n_hi) :: u16) in
          if sr > 30 then Return 0 a
          else
            (let sr = sr + 1 in
             Loop sr (push_bit (unat (32 - sr)) n_lo) 0
               (drop_bit (unat sr) n_hi)
               (push_bit (unat (32 - sr)) n_hi OR drop_bit (unat sr) n_lo)))
     else if d_hi = 0 then
       if d_lo AND (d_lo - 1) = 0 then
         (if d_lo = 1 then Return a (ucast (n_lo AND (d_lo - 1)))
          else
            (let sr = ctzsi d_lo;
                 q_hi = drop_bit sr n_hi;
                 q_lo = push_bit (32 - sr) n_hi OR drop_bit sr n_lo
             in Return (make64 q_hi q_lo) (ucast (n_lo AND (d_lo - 1)))))
       else
         (let sr = (1 + 32 + of_nat (clzsi d_lo) - of_nat (clzsi n_hi) :: u16) in
          if sr = 32 then Loop sr n_lo 0 0 n_hi
          else if sr < 32 then
            Loop sr (push_bit (unat (32 - sr)) n_lo) 0
              (drop_bit (unat sr) n_hi)
              (push_bit (unat (32 - sr)) n_hi OR drop_bit (unat sr) n_lo)
          else
            Loop sr
              (push_bit (unat (64 - sr)) n_hi OR drop_bit (unat (sr - 32)) n_lo)
              (push_bit (unat (64 - sr)) n_lo)
              0 (drop_bit (unat (sr - 32)) n_hi))
     else
       (let sr = (of_nat (clzsi d_hi) - of_nat (clzsi n_hi) :: u16) in
        if sr > 31 then Return 0 a
        else
          (let sr = sr + 1 in
           if sr = 32 then Loop sr n_lo 0 0 n_hi
           else
             Loop sr (push_bit (unat (32 - sr)) n_lo) 0
               (drop_bit (unat sr) n_hi)
               (push_bit (unat (32 - sr)) n_hi OR drop_bit (unat sr) n_lo))))"

text \<open>One iteration of the loop, on \<open>(q_hi, q_lo, r_hi, r_lo, carry)\<close>.\<close>

definition udivmoddi4_step ::
    "u32 \<Rightarrow> u32 \<Rightarrow> u32 \<times> u32 \<times> u32 \<times> u32 \<times> u32 \<Rightarrow> u32 \<times> u32 \<times> u32 \<times> u32 \<times> u32" where
  "udivmoddi4_step d_hi d_lo = (\<lambda>(q_hi, q_lo, r_hi, r_lo, carry).
    (let r_hi = push_bit 1 r_hi OR drop_bit 31 r_lo;
         r_lo = push_bit 1 r_lo OR drop_bit 31 q_hi;
         q_hi = push_bit 1 q_hi OR drop_bit 31 q_lo;
         q_lo = push_bit 1 q_lo OR carry
     in if r_hi > d_hi \<or> (r_hi = d_hi \<and> r_lo \<ge> d_lo) then
          (let new_lo = r_lo - d_lo;
               borrow = (if new_lo > r_lo then 1 else 0)
           in (q_hi, q_lo, r_hi - d_hi - borrow, new_lo, 1))
        else (q_hi, q_lo, r_hi, r_lo, 0)))"

fun udivmoddi4_loop ::
    "nat \<Rightarrow> u32 \<Rightarrow> u32 \<Rightarrow> u32 \<times> u32 \<times> u32 \<times> u32 \<times> u32 \<Rightarrow> u32 \<times> u32 \<times> u32 \<times> u32 \<times> u32" where
  "udivmoddi4_loop 0 d_hi d_lo s = s"
| "udivmoddi4_loop (Suc sr) d_hi d_lo s =
     udivmoddi4_loop sr d_hi d_lo (udivmoddi4_step d_hi d_lo s)"

definition udivmoddi4 :: "u64 \<Rightarrow> u64 \<Rightarrow> (u64 \<times> u64) option" where
  "udivmoddi4 a b =
    (case udivmoddi4_setup a b of
       DivZero \<Rightarrow> None
     | Return q r \<Rightarrow> Some (q, r)
     | Loop sr q_hi q_lo r_hi r_lo \<Rightarrow>
         (case udivmoddi4_loop (unat sr) (hi32 b) (lo32 b) (q_hi, q_lo, r_hi, r_lo, 0) of
            (q_hi, q_lo, r_hi, r_lo, carry) \<Rightarrow>
              (let q_hi = push_bit 1 q_hi OR drop_bit 31 q_lo;
                   q_lo = push_bit 1 q_lo OR carry
               in Some (make64 q_hi q_lo, make64 r_hi r_lo))))"

definition udivdi3 :: "u64 \<Rightarrow> u64 \<Rightarrow> u64 option" where
  "udivdi3 a b = map_option fst (udivmoddi4 a b)"

definition umoddi3 :: "u64 \<Rightarrow> u64 \<Rightarrow> u64 option" where
  "umoddi3 a b = map_option snd (udivmoddi4 a b)"

section \<open>Signed division\<close>

definition divdi3 :: "u64 \<Rightarrow> u64 \<Rightarrow> u64 option" where
  "divdi3 a b =
    (let s_a = signed_drop_bit 63 a;
         s_b = signed_drop_bit 63 b;
         a_u = (a XOR s_a) + (- s_a);
         b_u = (b XOR s_b) + (- s_b);
         s_a = s_a XOR s_b
     in case udivmoddi4 a_u b_u of
          None \<Rightarrow> None
        | Some (q, _) \<Rightarrow> Some ((q XOR s_a) + (- s_a)))"

definition moddi3 :: "u64 \<Rightarrow> u64 \<Rightarrow> u64 option" where
  "moddi3 a b =
    (let s = signed_drop_bit 63 b;
         b_u = (b XOR s) + (- s);
         s = signed_drop_bit 63 a;
         a_u = (a XOR s) + (- s)
     in case udivmoddi4 a_u b_u of
          None \<Rightarrow> None
        | Some (_, res) \<Rightarrow> Some ((res XOR s) + (- s)))"

section \<open>Halves of a 64-bit value\<close>

lemma bit_make64 [bit_simps]:
  "bit (make64 h l) k \<longleftrightarrow> (if k < 32 then bit l k else bit h (k - 32))"
  by (auto simp: make64_def bit_simps dest: bit_imp_le_length)

lemma bit_hi32 [bit_simps]: "bit (hi32 x) k \<longleftrightarrow> k < 32 \<and> bit x (k + 32)"
  by (auto simp: hi32_def bit_simps add.commute)

lemma bit_lo32 [bit_simps]: "bit (lo32 x) k \<longleftrightarrow> k < 32 \<and> bit x k"
  by (auto simp: lo32_def bit_simps)

lemma make64_halves [simp]: "make64 (hi32 x) (lo32 x) = x"
  by (rule bit_eqI) (auto simp: bit_simps)

lemma unat_make64 [unat_simps]: "unat (make64 h l) = unat h * 2 ^ 32 + unat l"
proof -
  have h: "unat (push_bit 32 (ucast h) :: u64) = unat h * 2 ^ 32"
    using unat_lt2 [of h] by (simp add: unat_simps)
  have l: "unat (ucast l :: u64) = unat l"
    using unat_lt2 [of l] by (simp add: unat_simps)
  have "unat (ucast l :: u64) < 2 ^ 32" using unat_lt2 [of l] by (simp only: l) simp
  with h show ?thesis unfolding make64_def by (subst unat_or_add [OF h]) (simp_all add: h l)
qed

lemma unat_hi32 [unat_simps]: "unat (hi32 x) = unat x div 2 ^ 32"
  using unat_lt2 [of x] by (simp add: hi32_def unat_simps less_mult_imp_div_less)

lemma unat_lo32 [unat_simps]: "unat (lo32 x) = unat x mod 2 ^ 32"
  by (simp add: lo32_def unat_simps)

lemma make64_le_iff: "make64 h l \<le> make64 h' l' \<longleftrightarrow> h < h' \<or> (h = h' \<and> l \<le> l')"
proof -
  have "unat l < 2 ^ 32" "unat l' < 2 ^ 32" using unat_lt2 [of l] unat_lt2 [of l'] by auto
  then show ?thesis
    by (auto simp: word_le_nat_alt word_less_nat_alt unat_simps word_unat_eq_iff)
qed

lemma make64_diff:
  assumes "make64 dh dl \<le> make64 rh rl"
  shows "make64 (rh - dh - (if rl - dl > rl then 1 else 0)) (rl - dl) = make64 rh rl - make64 dh dl"
    (is "?L = ?R")
proof (rule word_unat_eq_iff [THEN iffD2])
  have b: "unat dl < 2 ^ 32" "unat rl < 2 ^ 32" "unat dh < 2 ^ 32" "unat rh < 2 ^ 32"
    using unat_lt2 [of dl] unat_lt2 [of rl] unat_lt2 [of dh] unat_lt2 [of rh] by auto
  have R: "unat ?R = (unat rh * 2 ^ 32 + unat rl) - (unat dh * 2 ^ 32 + unat dl)"
    using assms by (simp add: unat_sub unat_simps)
  from assms have le: "unat dh * 2 ^ 32 + unat dl \<le> unat rh * 2 ^ 32 + unat rl"
    by (simp add: word_le_nat_alt unat_simps)
  show "unat ?L = unat ?R"
  proof (cases "dl \<le> rl")
    case True
    then have "\<not> rl - dl > rl" by (simp add: word_le_sub1 word_sub_le not_less)
    moreover have "dh \<le> rh" using le b by (simp add: word_le_nat_alt)
    ultimately show ?thesis using True le
      by (simp add: R unat_simps unat_sub word_le_nat_alt algebra_simps)
  next
    case False
    then have lt: "unat rl < unat dl" by (simp add: word_less_nat_alt not_le)
    have ul: "unat (rl - dl) = 2 ^ 32 + unat rl - unat dl"
      using lt by (simp add: unat_sub_if' word_le_nat_alt)
    have "rl - dl > rl" using lt b by (simp add: word_less_nat_alt ul)
    moreover have "dh < rh" using le b lt by (simp add: word_less_nat_alt)
    then have "dh \<le> rh" and "1 \<le> rh - dh" by (auto simp: word_le_nat_alt unat_sub word_less_nat_alt)
    moreover have "unat (rh - dh - 1) = unat rh - unat dh - 1"
      using \<open>dh \<le> rh\<close> \<open>1 \<le> rh - dh\<close> by (simp add: unat_sub)
    ultimately show ?thesis using le lt b \<open>dh < rh\<close>
      by (simp add: R unat_simps ul word_less_nat_alt)
  qed
qed

section \<open>Multiplication from 16-bit digits\<close>

text \<open>The schoolbook product of two two-digit numbers in base \<open>m\<close>.\<close>

lemma schoolbook:
  fixes m :: nat
  defines "t1 \<equiv> \<lambda>ah al bl. al * bl div m + ah * bl"
  shows "(ah * m + al) * (bh * m + bl) =
    (t1 ah al bl div m + (t1 ah al bl mod m + bh * al) div m + ah * bh) * (m * m) +
    ((al * bl) mod m + ((t1 ah al bl mod m + bh * al) mod m) * m)"
proof -
  let ?t1 = "t1 ah al bl" and ?t2 = "t1 ah al bl mod m + bh * al"
  have "al * bl = (al * bl div m) * m + al * bl mod m"
    and "?t1 = (?t1 div m) * m + ?t1 mod m" and "?t2 = (?t2 div m) * m + ?t2 mod m"
    by simp_all
  moreover have "?t1 = al * bl div m + ah * bl" by (simp add: t1_def)
  ultimately show ?thesis by algebra
qed

lemma digit_products:
  fixes x y z :: nat
  assumes "x < 2 ^ 16" "y < 2 ^ 16" "z < 2 ^ 16"
  shows "z + x * y < 2 ^ 32"
proof -
  have "x * y \<le> (2 ^ 16 - 1) * (2 ^ 16 - 1)" using assms by (intro mult_le_mono) auto
  with assms(3) show ?thesis by simp
qed

lemma unat_low16: "unat (x AND 0x0000FFFF) = unat x mod 2 ^ 16" for x :: u32
  using unat_and_mask [of x 16] by (simp add: mask_eq_exp_minus_1)

lemma unat_mult_lt: "unat x * unat y < 2 ^ 32 \<Longrightarrow> unat (x * y) = unat x * unat y" for x y :: u32
  by (simp add: unat_mult_lem [THEN iffD1])

lemma unat_add_lt: "unat x + unat y < 2 ^ 32 \<Longrightarrow> unat (x + y) = unat x + unat y" for x y :: u32
  by (simp add: unat_add_lem [THEN iffD1])

lemma unat_low_high:
  fixes x y :: u32
  assumes "unat x mod 2 ^ 16 = l" "unat y mod 2 ^ 16 = h"
  shows "unat ((x AND 0xFFFF) + push_bit 16 (y AND 0xFFFF)) = l + h * 2 ^ 16"
proof -
  have lt: "l < 2 ^ 16" "h < 2 ^ 16" using assms by auto
  have "unat (push_bit 16 (y AND 0xFFFF)) = h * 2 ^ 16"
    using lt by (simp only: unat_push_bit unat_low16 assms) simp
  with assms lt unat_low16 [of x] show ?thesis by (subst unat_add_lt) simp_all
qed

lemma muldsi3_product: "unat (muldsi3 a b) = unat a * unat b"
proof -
  define ah al bh bl where "ah = unat a div 2 ^ 16" and "al = unat a mod 2 ^ 16"
    and "bh = unat b div 2 ^ 16" and "bl = unat b mod 2 ^ 16"
  have "unat a < 2 ^ 32" "unat b < 2 ^ 32" using unat_lt2 [of a] unat_lt2 [of b] by auto
  then have lt: "ah < 2 ^ 16" "al < 2 ^ 16" "bh < 2 ^ 16" "bl < 2 ^ 16"
    by (auto simp: ah_def al_def bh_def bl_def less_mult_imp_div_less)
  have ab: "unat a = ah * 2 ^ 16 + al" "unat b = bh * 2 ^ 16 + bl"
    by (simp_all add: ah_def al_def bh_def bl_def)
  let ?m = "2 ^ 16 :: nat"
  let ?t1 = "al * bl div ?m + ah * bl"
  let ?t2 = "?t1 mod ?m + bh * al"
  let ?hi = "?t1 div ?m + ?t2 div ?m + ah * bh" and ?lo = "al * bl mod ?m + (?t2 mod ?m) * ?m"
  have p: "unat a * unat b = ?hi * (?m * ?m) + ?lo" unfolding ab by (rule schoolbook)
  have dig: "unat (a AND 0xFFFF) = al" "unat (b AND 0xFFFF) = bl"
    "unat (drop_bit 16 a) = ah" "unat (drop_bit 16 b) = bh"
    using unat_low16 [of a] unat_low16 [of b]
    by (simp_all add: unat_drop_bit ah_def al_def bh_def bl_def)
  have t: "al * bl div ?m < ?m"
    using digit_products [of al bl 0] lt by (simp add: less_mult_imp_div_less)
  define r1 where "r1 = (a AND 0xFFFF) * (b AND 0xFFFF)"
  define t1 where "t1 = drop_bit 16 r1 + drop_bit 16 a * (b AND 0xFFFF)"
  define r2 where "r2 = (r1 AND 0xFFFF) + push_bit 16 (t1 AND 0xFFFF)"
  define t2 where "t2 = drop_bit 16 r2 + drop_bit 16 b * (a AND 0xFFFF)"
  define r3 where "r3 = (r2 AND 0xFFFF) + push_bit 16 (t2 AND 0xFFFF)"
  define hi where "hi = drop_bit 16 t1 + drop_bit 16 t2 + drop_bit 16 a * drop_bit 16 b"
  have r1: "unat r1 = al * bl"
    using digit_products [of al bl 0] lt dig by (simp add: r1_def unat_mult_lt)
  have t1: "unat t1 = ?t1"
    unfolding t1_def using digit_products [of ah bl "al * bl div ?m"] digit_products [of ah bl 0] lt t dig
    by (simp add: unat_add_lt unat_mult_lt unat_drop_bit r1)
  have r2: "unat r2 = al * bl mod ?m + (?t1 mod ?m) * ?m"
    unfolding r2_def by (rule unat_low_high) (simp_all add: r1 t1)
  have t2: "unat t2 = ?t2"
    unfolding t2_def using digit_products [of bh al "?t1 mod ?m"] digit_products [of bh al 0] lt dig
    by (simp add: unat_add_lt unat_mult_lt unat_drop_bit r2)
  have r3: "unat r3 = ?lo"
    unfolding r3_def by (rule unat_low_high) (simp_all add: r2 t2)
  have "unat a * unat b < 2 ^ 32 * 2 ^ 32"
    using unat_lt2 [of a] unat_lt2 [of b] by (intro mult_strict_mono) auto
  then have "?hi < 2 ^ 32" using p by simp
  then have hi: "unat hi = ?hi"
    unfolding hi_def using digit_products [of ah bh 0] lt
    by (simp add: unat_add_lt unat_mult_lt dig unat_drop_bit [of _ t1] unat_drop_bit [of _ t2] t1 t2)
  have "muldsi3 a b = make64 hi r3"
    by (simp add: muldsi3_def make64_def Let_def hi_def r3_def t2_def r2_def t1_def r1_def)
  then show ?thesis by (simp only: unat_make64 hi r3 p) simp
qed

lemma square_zero:
  fixes p :: "'a::comm_ring_1"
  assumes "p * p = 0"
  shows "(d * p + m) * p = m * p"
    and "(a1 * p + a0) * (b1 * p + b0) = a0 * b0 + a1 * b0 * p + a0 * b1 * p"
proof -
  show "(d * p + m) * p = m * p" by (simp add: distrib_right mult.assoc assms)
  have "(a1 * p + a0) * (b1 * p + b0) = a1 * b1 * (p * p) + (a0 * b0 + a1 * b0 * p + a0 * b1 * p)"
    by (simp add: algebra_simps)
  then show "(a1 * p + a0) * (b1 * p + b0) = a0 * b0 + a1 * b0 * p + a0 * b1 * p" by (simp add: assms)
qed

lemma muldi3_product: "muldi3 a b = a * b"
proof -
  let ?p = "2 ^ 32 :: u64"
  define A1 A0 B1 B0 :: u64
    where "A1 = ucast (hi32 a)" and "A0 = ucast (lo32 a)" and "B1 = ucast (hi32 b)" and "B0 = ucast (lo32 b)"
  have pp: "?p * ?p = 0" by simp
  have halves: "x = ucast (hi32 x) * ?p + ucast (lo32 x)" for x
    using arg_cong [OF unat_make64 [of "hi32 x" "lo32 x"], of "of_nat :: nat \<Rightarrow> u64"] by simp
  have low: "muldsi3 x y = ucast x * ucast y" for x y
    using arg_cong [OF muldsi3_product [of x y], of "of_nat :: nat \<Rightarrow> u64"] by simp
  have cross: "push_bit 32 (ucast (x * y)) = ucast x * ucast y * ?p" for x y :: u32
  proof -
    let ?n = "unat x * unat y"
    have "ucast (x * y) = (of_nat (?n mod 2 ^ 32) :: u64)"
      using arg_cong [OF unat_word_ariths(2) [of x y], of "of_nat :: nat \<Rightarrow> u64"] by simp
    moreover have "(of_nat ?n :: u64) = of_nat (?n div 2 ^ 32) * ?p + of_nat (?n mod 2 ^ 32)"
      using arg_cong [OF div_mult_mod_eq [of ?n "2 ^ 32"], of "of_nat :: nat \<Rightarrow> u64", symmetric]
      by (simp only: of_nat_add of_nat_mult of_nat_power of_nat_numeral)
    ultimately have "of_nat ?n * ?p = ucast (x * y) * ?p" using square_zero(1) [OF pp] by metis
    then show ?thesis by (simp add: push_bit_eq_mult)
  qed
  have "muldi3 a b = A0 * B0 + A1 * B0 * ?p + A0 * B1 * ?p"
    by (simp add: muldi3_def Let_def low cross A1_def A0_def B1_def B0_def hi32_def lo32_def)
  moreover have "a = A1 * ?p + A0" "b = B1 * ?p + B0"
    unfolding A1_def A0_def B1_def B0_def by (rule halves)+
  ultimately show ?thesis using square_zero(2) [OF pp, of A1 A0 B1 B0] by simp
qed

section \<open>The division loop\<close>

text \<open>
  The loop on 32-bit halves is a loop on 64-bit registers; that one divides. With \<open>s\<close>
  iterations left, the top \<open>s\<close> bits of \<open>q\<close> are the bits of the dividend still to come and the
  rest are quotient digits, the newest of them still in \<open>carry\<close>.
\<close>

definition step64 :: "u64 \<Rightarrow> u64 \<times> u64 \<times> u32 \<Rightarrow> u64 \<times> u64 \<times> u32" where
  "step64 d = (\<lambda>(q, r, c).
     (let r = push_bit 1 r OR drop_bit 63 q; q = push_bit 1 q OR ucast c
      in if d \<le> r then (q, r - d, 1) else (q, r, 0)))"

fun join_regs :: "u32 \<times> u32 \<times> u32 \<times> u32 \<times> u32 \<Rightarrow> u64 \<times> u64 \<times> u32" where
  "join_regs (q_hi, q_lo, r_hi, r_lo, c) = (make64 q_hi q_lo, make64 r_hi r_lo, c)"

lemma make64_shift:
  assumes x: "\<And>k. bit x k \<Longrightarrow> k = 0"
  shows "make64 (push_bit 1 h OR drop_bit 31 l) (push_bit 1 l OR x) = push_bit 1 (make64 h l) OR ucast x"
proof (rule bit_eqI)
  fix k assume "possible_bit TYPE(64 word) k"
  then have k64: "k < 64" by simp
  have nx: "\<not> bit x k" if "k \<noteq> 0" using x [of k] that by auto
  have nb: "bit l (31 + (k - 32)) \<longleftrightarrow> k = 32 \<and> bit l 31" if "32 \<le> k"
    using that by (cases "k = 32") (auto dest: bit_imp_le_length)
  consider "k = 0" | "0 < k" "k < 32" | "k = 32" | "32 < k" by linarith
  then show "bit (make64 (push_bit 1 h OR drop_bit 31 l) (push_bit 1 l OR x)) k =
      bit (push_bit 1 (make64 h l) OR ucast x) k"
  proof cases
    case 1 then show ?thesis
      by (simp only: bit_make64 bit_or_iff bit_push_bit_iff bit_ucast_iff) simp
  next
    case 2 then show ?thesis
      using nx by (simp only: bit_make64 bit_or_iff bit_push_bit_iff bit_ucast_iff) auto
  next
    case 3 then show ?thesis
      using nx by (simp only: bit_make64 bit_or_iff bit_push_bit_iff bit_ucast_iff bit_drop_bit_eq) auto
  next
    case 4 then have "k - 32 - 1 = k - 1 - 32" and "1 \<le> k - 32" by auto
    with 4 show ?thesis
      using nx nb k64
      by (simp only: bit_make64 bit_or_iff bit_push_bit_iff bit_ucast_iff bit_drop_bit_eq) auto
  qed
qed

lemma bit_drop_31: "bit (drop_bit 31 (x :: u32)) k \<Longrightarrow> k = 0"
  by (auto simp: bit_simps dest: bit_imp_le_length)

lemma ucast_drop_31: "ucast (drop_bit 31 q_hi) = drop_bit 63 (make64 q_hi q_lo)"
  by (rule bit_eqI) (auto simp: bit_simps dest: bit_imp_le_length)

lemma udivmoddi4_step_refines:
  assumes "\<And>k. bit c k \<Longrightarrow> k = 0"
  shows "join_regs (udivmoddi4_step (hi32 d) (lo32 d) (q_hi, q_lo, r_hi, r_lo, c)) =
    step64 d (join_regs (q_hi, q_lo, r_hi, r_lo, c))"
proof -
  have r: "make64 (push_bit 1 r_hi OR drop_bit 31 r_lo) (push_bit 1 r_lo OR drop_bit 31 q_hi) =
      push_bit 1 (make64 r_hi r_lo) OR drop_bit 63 (make64 q_hi q_lo)"
    by (simp only: make64_shift [OF bit_drop_31] ucast_drop_31 [of q_hi q_lo])
  have q: "make64 (push_bit 1 q_hi OR drop_bit 31 q_lo) (push_bit 1 q_lo OR c) =
      push_bit 1 (make64 q_hi q_lo) OR ucast c"
    by (rule make64_shift) (rule assms)
  have cmp: "(h > hi32 d \<or> (h = hi32 d \<and> l \<ge> lo32 d)) \<longleftrightarrow> d \<le> make64 h l" for h l
    using make64_le_iff [of "hi32 d" "lo32 d" h l] by auto
  have sub: "make64 (h - hi32 d - (if l - lo32 d > l then 1 else 0)) (l - lo32 d) = make64 h l - d"
    if "d \<le> make64 h l" for h l
    using make64_diff [of "hi32 d" "lo32 d" h l] that by simp
  let ?R = "push_bit 1 (make64 r_hi r_lo) OR drop_bit 63 (make64 q_hi q_lo)"
  show ?thesis
  proof (cases "d \<le> ?R")
    case True
    with sub [of "push_bit 1 r_hi OR drop_bit 31 r_lo" "push_bit 1 r_lo OR drop_bit 31 q_hi"]
    show ?thesis
      unfolding udivmoddi4_step_def step64_def Let_def split_conv join_regs.simps cmp r
      by (simp only: if_True join_regs.simps q)
  next
    case False
    then show ?thesis
      unfolding udivmoddi4_step_def step64_def Let_def split_conv join_regs.simps cmp r
      by (simp only: if_False join_regs.simps q r)
  qed
qed

lemma step64_carry: "step64 d s = (q, r, c) \<Longrightarrow> c = 0 \<or> c = 1"
  by (auto simp: step64_def Let_def split: prod.splits if_splits)

fun loop64 :: "nat \<Rightarrow> u64 \<Rightarrow> u64 \<times> u64 \<times> u32 \<Rightarrow> u64 \<times> u64 \<times> u32" where
  "loop64 0 d s = s"
| "loop64 (Suc n) d s = loop64 n d (step64 d s)"

lemma udivmoddi4_loop_refines:
  "snd (snd (join_regs s)) \<in> {0, 1} \<Longrightarrow>
   join_regs (udivmoddi4_loop n (hi32 d) (lo32 d) s) = loop64 n d (join_regs s)"
proof (induction n arbitrary: s)
  case 0
  then show ?case by simp
next
  case (Suc n)
  obtain qh ql rh rl c where s: "s = (qh, ql, rh, rl, c)" by (cases s) auto
  with Suc.prems have "c = 0 \<or> c = 1" by simp
  then have bc: "bit c k \<Longrightarrow> k = 0" for k by (auto simp: bit_1_iff)
  let ?s' = "udivmoddi4_step (hi32 d) (lo32 d) s"
  have st: "join_regs ?s' = step64 d (join_regs s)"
    unfolding s by (rule udivmoddi4_step_refines) (rule bc)
  obtain q r c' where j: "step64 d (join_regs s) = (q, r, c')" by (cases "step64 d (join_regs s)") auto
  have "c' \<in> {0, 1}" using step64_carry [OF j] by auto
  then have "snd (snd (join_regs ?s')) \<in> {0, 1}" by (simp add: st j)
  then have "join_regs (udivmoddi4_loop n (hi32 d) (lo32 d) ?s') = loop64 n d (join_regs ?s')"
    by (rule Suc.IH)
  then show ?case by (simp add: st)
qed

text \<open>The invariant, for the dividend \<open>a\<close> and the divisor \<open>d\<close>, with \<open>s\<close> iterations left.\<close>

definition div_inv :: "nat \<Rightarrow> nat \<Rightarrow> nat \<Rightarrow> u64 \<times> u64 \<times> u32 \<Rightarrow> bool" where
  "div_inv a d s = (\<lambda>(q, r, c).
     s \<le> 63 \<and> unat c \<le> 1 \<and> unat r < d \<and>
     (\<exists>k. unat q = (a mod 2 ^ s) * 2 ^ (64 - s) + k \<and> k < 2 ^ (63 - s) \<and>
          a div 2 ^ s = (2 * k + unat c) * d + unat r))"

text \<open>The two shifts of an iteration, on numbers: \<open>t\<close> is the dividend bit that moves over.\<close>

lemma step64_shifts:
  fixes q r :: u64 and c :: u32
  assumes q: "unat q = t * 2 ^ 63 + rest" and rest: "rest < 2 ^ 63" and t: "t \<le> 1"
    and r: "2 * unat r + t < 2 ^ 64" and c: "unat c \<le> 1"
  shows "unat (push_bit 1 r OR drop_bit 63 q) = 2 * unat r + t"
    and "unat (push_bit 1 q OR ucast c) = 2 * rest + unat c"
proof -
  have "unat (drop_bit 63 q) = t" using rest t by (simp only: unat_drop_bit q) auto
  moreover have sh: "unat (push_bit 1 r) = unat r * 2 ^ 1"
    using r by (simp only: unat_push_bit) simp
  ultimately show "unat (push_bit 1 r OR drop_bit 63 q) = 2 * unat r + t"
    using unat_or_add [OF sh, of "drop_bit 63 q"] t by simp
  have "(t * 2 ^ 63 + rest) * 2 ^ 1 = rest * 2 + 2 ^ 64 * t" by simp
  moreover have "(rest * 2 + 2 ^ 64 * t) mod 2 ^ 64 = rest * 2"
    using rest by (simp only: mod_mult_self2) simp
  ultimately have shq: "unat (push_bit 1 q) = rest * 2 ^ 1"
    by (simp only: unat_push_bit q len_num0 len_bit0 len_num1) simp
  have uc: "unat (ucast c :: u64) = unat c" using c by (simp add: unat_simps)
  have "unat (push_bit 1 q OR ucast c) = unat (push_bit 1 q) + unat (ucast c :: u64)"
    using c by (intro unat_or_add [OF shq]) (simp add: uc)
  then show "unat (push_bit 1 q OR ucast c) = 2 * rest + unat c" by (simp only: shq uc) simp
qed

lemma next_dividend_bit:
  fixes a s :: nat
  defines "nb \<equiv> (a div 2 ^ s) mod 2"
  shows "a mod 2 ^ Suc s = nb * 2 ^ s + a mod 2 ^ s" and "a div 2 ^ s = 2 * (a div 2 ^ Suc s) + nb"
    and "nb \<le> 1"
proof -
  show "a mod 2 ^ Suc s = nb * 2 ^ s + a mod 2 ^ s"
    using mod_mult2_eq [of a "2 ^ s" 2] by (simp add: nb_def mult.commute [of _ 2])
  show "a div 2 ^ s = 2 * (a div 2 ^ Suc s) + nb"
    unfolding nb_def power_Suc2 by (simp only: div_mult2_eq) simp
  show "nb \<le> 1" by (simp add: nb_def)
qed

lemma div_inv_step:
  assumes inv: "div_inv a (unat d) (Suc s) st" and a: "a < 2 ^ 64"
  shows "div_inv a (unat d) s (step64 d st)"
proof -
  obtain q r c where st: "st = (q, r, c)" by (cases st) auto
  from inv obtain k where s: "Suc s \<le> 63" and c: "unat c \<le> 1" and r: "unat r < unat d"
    and q: "unat q = (a mod 2 ^ Suc s) * 2 ^ (63 - s) + k" and k: "k < 2 ^ (62 - s)"
    and eq: "a div 2 ^ Suc s = (2 * k + unat c) * unat d + unat r"
    by (auto simp: div_inv_def st)
  define nb where "nb = (a div 2 ^ s) mod 2"
  note bit = next_dividend_bit [of a s, folded nb_def]
  let ?k = "2 * k + unat c" and ?rest = "(a mod 2 ^ s) * 2 ^ (63 - s) + k"
  have p63: "(2::nat) ^ s * 2 ^ (63 - s) = 2 ^ 63" using s by (simp flip: power_add)
  have p2: "(2::nat) ^ (63 - s) = 2 * 2 ^ (62 - s)" using s by (simp flip: power_Suc add: Suc_diff_le)
  have p64: "(2::nat) ^ (64 - s) = 2 * 2 ^ (63 - s)" using s by (simp flip: power_Suc add: Suc_diff_le)
  have "(a mod 2 ^ s + 1) * 2 ^ (63 - s) \<le> 2 ^ s * 2 ^ (63 - s)"
    by (intro mult_right_mono) (simp_all add: Suc_leI)
  then have rest: "?rest < 2 ^ 63" using k p2 p63 by simp
  have q': "unat q = nb * 2 ^ 63 + ?rest"
    unfolding q bit(1) p63 [symmetric] by (simp add: algebra_simps)
  have adiv: "a div 2 ^ s = 2 * ?k * unat d + (2 * unat r + nb)"
    using bit(2) eq by (simp add: algebra_simps)
  have "a div 2 ^ s < 2 ^ 64" using a by (meson div_le_dividend le_less_trans)
  with adiv have r64: "2 * unat r + nb < 2 ^ 64" by linarith
  let ?r = "push_bit 1 r OR drop_bit 63 q" and ?q = "push_bit 1 q OR ucast c"
  note sh = step64_shifts [OF q' rest bit(3) r64 c]
  have uq: "unat ?q = (a mod 2 ^ s) * 2 ^ (64 - s) + ?k" unfolding sh(2) p64 by simp
  have k': "?k < 2 ^ (63 - s)" "s \<le> 63" using k c p2 s by auto
  show ?thesis
  proof (cases "d \<le> ?r")
    case True
    with sh(1) have le: "unat d \<le> 2 * unat r + nb" by (simp add: word_le_nat_alt)
    have "unat (?r - d) = 2 * unat r + nb - unat d" using unat_sub [OF True] by (simp only: sh(1))
    moreover have "2 * unat r + nb - unat d < unat d" using r bit(3) by linarith
    moreover have "a div 2 ^ s = (2 * ?k + 1) * unat d + (2 * unat r + nb - unat d)"
      using adiv le by (simp add: algebra_simps)
    ultimately show ?thesis
      unfolding div_inv_def st step64_def Let_def split_conv
      using True k' uq by (simp only: if_True split_conv) auto
  next
    case False
    with sh(1) have "2 * unat r + nb < unat d" by (simp add: word_le_nat_alt)
    then show ?thesis
      unfolding div_inv_def st step64_def Let_def split_conv
      using False k' uq sh(1) adiv by (simp only: if_False split_conv) auto
  qed
qed

lemma div_inv_loop:
  "div_inv a (unat d) n s \<Longrightarrow> a < 2 ^ 64 \<Longrightarrow> div_inv a (unat d) 0 (loop64 n d s)"
proof (induction n arbitrary: s)
  case 0
  then show ?case by simp
next
  case (Suc n)
  then show ?case using div_inv_step [of a d n s] by simp
qed

section \<open>The special cases set up the loop\<close>

lemma setup_shift_low:
  assumes "1 \<le> s" "s < 32"
  shows "make64 (push_bit (32 - s) (lo32 a)) 0 = push_bit (64 - s) a"
    and "make64 (drop_bit s (hi32 a)) (push_bit (32 - s) (hi32 a) OR drop_bit s (lo32 a)) = drop_bit s a"
  by (rule bit_eqI; use assms in \<open>auto simp: bit_simps ac_simps dest: bit_imp_le_length\<close>)+

lemma setup_shift_high:
  assumes "32 < s" "s < 64"
  shows "make64 (push_bit (64 - s) (hi32 a) OR drop_bit (s - 32) (lo32 a)) (push_bit (64 - s) (lo32 a)) =
      push_bit (64 - s) a"
    and "make64 0 (drop_bit (s - 32) (hi32 a)) = drop_bit s a"
  by (rule bit_eqI; use assms in \<open>auto simp: bit_simps ac_simps dest: bit_imp_le_length\<close>)+

lemma setup_shift_32:
  shows "make64 (lo32 a) 0 = push_bit 32 a" and "make64 0 (hi32 a) = drop_bit 32 a"
  by (rule bit_eqI; auto simp: bit_simps ac_simps dest: bit_imp_le_length)+

definition setup_ok :: "u64 \<Rightarrow> u64 \<Rightarrow> div_setup \<Rightarrow> bool" where
  "setup_ok a b x = (case x of
      DivZero \<Rightarrow> False
    | Return q r \<Rightarrow> unat q = unat a div unat b \<and> unat r = unat a mod unat b
    | Loop sr q_hi q_lo r_hi r_lo \<Rightarrow>
        1 \<le> unat sr \<and> unat sr \<le> 63 \<and> make64 q_hi q_lo = push_bit (64 - unat sr) a \<and>
        make64 r_hi r_lo = drop_bit (unat sr) a \<and> unat a div 2 ^ unat sr < unat b)"

lemma unat_halves: "unat x = unat (hi32 x) * 2 ^ 32 + unat (lo32 x)" for x :: u64
  by (simp add: unat_simps)

lemma unat_diff_u16:
  "m < 100 \<Longrightarrow> n < 100 \<Longrightarrow>
   unat (of_nat m - of_nat n :: u16) = (if n \<le> m then m - n else 2 ^ 16 + m - n)"
  by (auto simp: unat_sub_if' unat_of_nat word_le_nat_alt)

lemma dividend_lt: "hi32 a \<noteq> 0 \<Longrightarrow> unat a < 2 ^ (64 - clzsi (hi32 a))"
proof -
  assume nz: "hi32 a \<noteq> 0"
  note c = clzsi_bounds [OF nz]
  have "unat a < (unat (hi32 a) + 1) * 2 ^ 32"
    using unat_lt2 [of "lo32 a"] by (subst unat_halves) simp
  also have "\<dots> \<le> 2 ^ (32 - clzsi (hi32 a)) * 2 ^ 32"
    using c(3) by (intro mult_right_mono) auto
  also have "\<dots> = 2 ^ (64 - clzsi (hi32 a))"
    by (subst power_add [symmetric]) (use c(1) in simp)
  finally show ?thesis .
qed

lemma shifted_dividend_lt:
  assumes "hi32 a \<noteq> 0" and "64 - clzsi (hi32 a) \<le> e + s"
  shows "unat a div 2 ^ s < 2 ^ e"
proof -
  have "unat a < 2 ^ (64 - clzsi (hi32 a))" by (rule dividend_lt [OF assms(1)])
  also have "\<dots> \<le> 2 ^ (e + s)" using assms(2) by (intro power_increasing) auto
  finally show ?thesis by (simp add: less_mult_imp_div_less power_add)
qed

lemma divisor_ge:
  "hi32 b \<noteq> 0 \<Longrightarrow> 2 ^ (63 - clzsi (hi32 b)) \<le> unat b"
proof -
  assume nz: "hi32 b \<noteq> 0"
  note c = clzsi_bounds [OF nz]
  have "(2::nat) ^ (63 - clzsi (hi32 b)) = 2 ^ (31 - clzsi (hi32 b)) * 2 ^ 32"
    by (subst power_add [symmetric]) (use c(1) in simp)
  also have "\<dots> \<le> unat (hi32 b) * 2 ^ 32" using c(2) by (intro mult_right_mono) auto
  also have "\<dots> \<le> unat b" using unat_halves [of b] by linarith
  finally show ?thesis .
qed

lemma hi32_clz_less:
  assumes "hi32 b \<noteq> 0" and "hi32 a \<noteq> 0" and "clzsi (hi32 b) < clzsi (hi32 a)"
  shows "unat a < unat b"
proof -
  have "unat a < 2 ^ (64 - clzsi (hi32 a))" by (rule dividend_lt [OF assms(2)])
  also have "\<dots> \<le> 2 ^ (63 - clzsi (hi32 b))" using assms(3) by (intro power_increasing) auto
  also have "\<dots> \<le> unat b" by (rule divisor_ge [OF assms(1)])
  finally show ?thesis .
qed

lemma unat_sub_32: "s \<le> 32 \<Longrightarrow> unat (32 - s) = 32 - unat s" for s :: u16
  by (simp add: unat_sub)

lemma setup_shift_sr:
  assumes sr: "sr = (of_nat (clzsi (hi32 b)) - of_nat (clzsi (hi32 a)) :: u16)"
    and nz: "hi32 b \<noteq> 0" "hi32 a \<noteq> 0" and le: "unat sr \<le> 31"
  shows "unat (sr + 1) = unat sr + 1" and "unat a div 2 ^ unat (sr + 1) < unat b"
proof -
  have c: "clzsi (hi32 a) \<le> 31" "clzsi (hi32 b) \<le> 31" using clzsi_bounds(1) nz by auto
  have u: "unat sr = clzsi (hi32 b) - clzsi (hi32 a) \<and> clzsi (hi32 a) \<le> clzsi (hi32 b)"
    using le c unfolding sr by (auto simp: unat_diff_u16 split: if_splits)
  show s1: "unat (sr + 1) = unat sr + 1"
    using le by (simp add: unat_plus_if' )
  have "unat a div 2 ^ unat (sr + 1) < 2 ^ (63 - clzsi (hi32 b))"
    by (rule shifted_dividend_lt [OF nz(2)]) (use u s1 c in simp)
  also have "\<dots> \<le> unat b" by (rule divisor_ge [OF nz(1)])
  finally show "unat a div 2 ^ unat (sr + 1) < unat b" .
qed

lemma setup_large_sr:
  assumes "unat (of_nat (clzsi (hi32 b)) - of_nat (clzsi (hi32 a)) :: u16) > 31"
    and nz: "hi32 b \<noteq> 0" "hi32 a \<noteq> 0"
  shows "unat a < unat b"
proof -
  have c: "clzsi (hi32 a) \<le> 31" "clzsi (hi32 b) \<le> 31" using clzsi_bounds(1) nz by auto
  with assms(1) have "clzsi (hi32 b) < clzsi (hi32 a)"
    by (auto simp: unat_diff_u16 split: if_splits)
  with nz show ?thesis by (intro hi32_clz_less)
qed

lemma unat_ucast_up [simp]: "unat (ucast x :: u64) = unat x" for x :: u32
  using unat_lt2 [of x] by (simp add: unat_simps)

lemma unat_lt_u32 [simp]: "unat x < 4294967296" for x :: u32
  using unat_lt2 [of x] by simp

lemma setup_ok_shift:
  assumes "1 \<le> unat sr" "unat sr < 32" "unat a div 2 ^ unat sr < unat b"
  shows "setup_ok a b (Loop sr (push_bit (unat (32 - sr)) (lo32 a)) 0 (drop_bit (unat sr) (hi32 a))
    (push_bit (unat (32 - sr)) (hi32 a) OR drop_bit (unat sr) (lo32 a)))"
  using assms setup_shift_low [of "unat sr" a]
  by (auto simp: setup_ok_def unat_sub_32 word_le_nat_alt)

lemma setup_ok_shift_32:
  "unat a div 2 ^ 32 < unat b \<Longrightarrow> setup_ok a b (Loop 32 (lo32 a) 0 0 (hi32 a))"
  by (simp add: setup_ok_def setup_shift_32)

lemma setup_ok_n_hi_0:
  assumes "hi32 a = 0" and "b \<noteq> 0"
  shows "setup_ok a b (udivmoddi4_setup a b)"
proof -
  have a: "unat a = unat (lo32 a)" using unat_halves [of a] assms by simp
  show ?thesis
  proof (cases "hi32 b = 0")
    case True
    then have "unat b = unat (lo32 b)" using unat_halves [of b] by simp
    with True assms a show ?thesis
      by (auto simp: udivmoddi4_setup_def setup_ok_def unat_div_distrib unat_mod_distrib Let_def
          unat_eq_zero)
  next
    case False
    then have "unat (hi32 b) \<ge> 1" by (simp add: Suc_leI unat_gt_0)
    then have "unat b \<ge> 2 ^ 32" using unat_halves [of b] by simp
    with a have "unat a < unat b" by (simp only:) (rule less_le_trans [OF unat_lt_u32], simp)
    with False assms a show ?thesis
      by (simp add: udivmoddi4_setup_def setup_ok_def)
  qed
qed

lemma clz_not_power2:
  assumes "d \<noteq> 0" and "d AND (d - 1) \<noteq> 0"
  shows "clzsi d \<le> 30"
proof (rule ccontr)
  assume "\<not> clzsi d \<le> 30"
  with clzsi_bounds [OF assms(1)] have "unat d = 1" by (auto simp: le_Suc_eq not_le numeral_eq_Suc)
  then have "d = 1" by (simp add: word_unat_eq_iff)
  with assms(2) show False by simp
qed

lemma power2_div_mod:
  assumes "d \<noteq> 0" and "d AND (d - 1) = 0"
  shows "unat (drop_bit (ctzsi d) n) = unat n div unat d"
    and "unat (n AND (d - 1)) = unat n mod unat d"
proof -
  obtain k where d: "unat d = 2 ^ k" using word_and_pred_zero [OF assms] by blast
  show "unat (drop_bit (ctzsi d) n) = unat n div unat d"
    by (simp add: ctzsi_def d unat_drop_bit)
  have "d = 2 ^ k" using arg_cong [OF d, of "of_nat :: nat \<Rightarrow> u32"] by simp
  then have "d - 1 = mask k" by (simp add: mask_eq_exp_minus_1)
  then show "unat (n AND (d - 1)) = unat n mod unat d"
    by (simp add: unat_and_mask d)
qed

lemma setup_ok_d_lo_0:
  assumes nh: "hi32 a \<noteq> 0" and dl: "lo32 b = 0" and b: "b \<noteq> 0"
  shows "setup_ok a b (udivmoddi4_setup a b)"
proof -
  have dh: "hi32 b \<noteq> 0" using b dl make64_halves [of b] by (auto simp: make64_def)
  have B: "unat b = 2 ^ 32 * unat (hi32 b)" using unat_halves [of b] dl by simp
  have dv: "unat a div unat b = unat (hi32 a) div unat (hi32 b)"
    unfolding B by (subst div_mult2_eq) (simp add: unat_halves [of a])
  have md: "unat a mod unat b = unat (hi32 a) mod unat (hi32 b) * 2 ^ 32 + unat (lo32 a)"
    unfolding B by (subst mod_mult2_eq) (simp add: unat_halves [of a])
  let ?sr = "of_nat (clzsi (hi32 b)) - of_nat (clzsi (hi32 a)) :: u16"
  consider (n0) "lo32 a = 0" | (p2) "lo32 a \<noteq> 0" "hi32 b AND (hi32 b - 1) = 0"
    | (big) "lo32 a \<noteq> 0" "hi32 b AND (hi32 b - 1) \<noteq> 0" "?sr > 30"
    | (loop) "lo32 a \<noteq> 0" "hi32 b AND (hi32 b - 1) \<noteq> 0" "\<not> ?sr > 30" by blast
  then show ?thesis
  proof cases
    case n0
    with nh dl dh dv md show ?thesis
      by (simp add: udivmoddi4_setup_def setup_ok_def unat_make64 unat_div_distrib unat_mod_distrib
          Let_def)
  next
    case p2
    with nh dl dh dv md power2_div_mod [OF dh p2(2), of "hi32 a"] show ?thesis
      by (simp add: udivmoddi4_setup_def setup_ok_def unat_make64 Let_def)
  next
    case big
    have "clzsi (hi32 b) \<le> 30" by (rule clz_not_power2 [OF dh big(2)])
    then have "unat ?sr > 31"
      using big(3) clzsi_bounds(1) [OF nh]
      by (auto simp: word_less_nat_alt unat_diff_u16 split: if_splits)
    then have "unat a < unat b" by (rule setup_large_sr [OF _ dh nh])
    with big nh dl dh show ?thesis by (simp add: udivmoddi4_setup_def setup_ok_def)
  next
    case loop
    then have le: "unat ?sr \<le> 30" by (simp add: word_less_nat_alt)
    show ?thesis
      using loop nh dl dh le setup_shift_sr [OF refl dh nh] setup_ok_shift [of "?sr + 1" a b]
      by (simp add: udivmoddi4_setup_def Let_def)
  qed
qed

lemma setup_ok_power2:
  assumes d: "lo32 b \<noteq> 0" "hi32 b = 0" "lo32 b AND (lo32 b - 1) = 0" "lo32 b \<noteq> 1"
  shows "setup_ok a b (Return
    (make64 (drop_bit (ctzsi (lo32 b)) (hi32 a))
      (push_bit (32 - ctzsi (lo32 b)) (hi32 a) OR drop_bit (ctzsi (lo32 b)) (lo32 a)))
    (ucast (lo32 a AND (lo32 b - 1))))"
proof -
  obtain k where k: "unat (lo32 b) = 2 ^ k" using word_and_pred_zero [OF d(1,3)] by blast
  have B: "unat b = 2 ^ k" using unat_halves [of b] d(2) k by simp
  have "(2::nat) ^ k < 2 ^ 32" using unat_lt2 [of "lo32 b"] by (simp add: k)
  then have "k < 32" by (rule power_less_imp_less_exp [rotated]) simp
  moreover have "k \<noteq> 0" using k d(4) by (cases k) (auto simp: word_unat_eq_iff)
  moreover have "unat (lo32 a) mod 2 ^ k = unat a mod 2 ^ k"
    unfolding unat_lo32 using \<open>k < 32\<close> by (intro mod_mod_cancel le_imp_power_dvd) simp
  ultimately show ?thesis
    using setup_shift_low(2) [of k a] power2_div_mod(2) [OF d(1,3), of "lo32 a"] k B
    by (simp add: setup_ok_def ctzsi_def unat_drop_bit)
qed

lemma setup_ok_any_shift:
  assumes "1 \<le> unat sr" "unat sr \<le> 63" "unat a div 2 ^ unat sr < unat b"
  shows "setup_ok a b
    (if sr = 32 then Loop sr (lo32 a) 0 0 (hi32 a)
     else if sr < 32 then
       Loop sr (push_bit (unat (32 - sr)) (lo32 a)) 0 (drop_bit (unat sr) (hi32 a))
         (push_bit (unat (32 - sr)) (hi32 a) OR drop_bit (unat sr) (lo32 a))
     else
       Loop sr (push_bit (unat (64 - sr)) (hi32 a) OR drop_bit (unat (sr - 32)) (lo32 a))
         (push_bit (unat (64 - sr)) (lo32 a)) 0 (drop_bit (unat (sr - 32)) (hi32 a)))"
proof -
  consider "sr = 32" | "sr \<noteq> 32" "sr < 32" | (hi) "sr \<noteq> 32" "\<not> sr < 32" by blast
  then show ?thesis
  proof cases
    case hi
    then have "32 < unat sr" by (auto simp: word_less_nat_alt word_unat_eq_iff)
    moreover have "unat (64 - sr) = 64 - unat sr" "unat (sr - 32) = unat sr - 32"
      using assms(2) calculation by (simp_all add: unat_sub word_le_nat_alt)
    ultimately show ?thesis
      using hi assms setup_shift_high [of "unat sr" a] by (simp add: setup_ok_def)
  qed (use assms setup_ok_shift [of sr a b] setup_ok_shift_32 [of a b]
        in \<open>simp_all add: word_less_nat_alt\<close>)
qed

lemma setup_ok_d_hi_0:
  assumes nh: "hi32 a \<noteq> 0" and dl: "lo32 b \<noteq> 0" and dh: "hi32 b = 0"
  shows "setup_ok a b (udivmoddi4_setup a b)"
proof -
  have B: "unat b = unat (lo32 b)" using unat_halves [of b] dh by simp
  let ?sr = "1 + 32 + of_nat (clzsi (lo32 b)) - of_nat (clzsi (hi32 a)) :: u16"
  note ca = clzsi_bounds [OF nh] and cb = clzsi_bounds [OF dl]
  show ?thesis
  proof (cases "lo32 b AND (lo32 b - 1) = 0")
    case True
    show ?thesis
    proof (cases "lo32 b = 1")
      case True
      with nh dh B show ?thesis by (simp add: udivmoddi4_setup_def setup_ok_def)
    next
      case False
      with nh dl dh setup_ok_power2 [OF dl dh True False, of a] True show ?thesis
        by (simp add: udivmoddi4_setup_def Let_def)
    qed
  next
    case False
    have cl: "clzsi (lo32 b) \<le> 30" by (rule clz_not_power2 [OF dl False])
    have sr: "unat ?sr = 33 + clzsi (lo32 b) - clzsi (hi32 a)"
      using unat_diff_u16 [of "33 + clzsi (lo32 b)" "clzsi (hi32 a)"] ca(1) cl by simp
    have "unat a div 2 ^ unat ?sr < 2 ^ (31 - clzsi (lo32 b))"
      by (rule shifted_dividend_lt [OF nh]) (use sr ca(1) cl in simp)
    also have "\<dots> \<le> unat b" using cb(2) B by simp
    finally have lt: "unat a div 2 ^ unat ?sr < unat b" .
    have rng: "2 \<le> unat ?sr" "unat ?sr \<le> 63" using sr ca(1) cl by auto
    from setup_ok_any_shift [OF _ _ lt] rng show ?thesis
      unfolding udivmoddi4_setup_def Let_def by (simp only: nh dl dh False if_False if_True simp_thms)
  qed
qed

lemma setup_ok_full:
  assumes nh: "hi32 a \<noteq> 0" and dl: "lo32 b \<noteq> 0" and dh: "hi32 b \<noteq> 0"
  shows "setup_ok a b (udivmoddi4_setup a b)"
proof -
  let ?sr = "of_nat (clzsi (hi32 b)) - of_nat (clzsi (hi32 a)) :: u16"
  show ?thesis
  proof (cases "?sr > 31")
    case True
    then have "unat a < unat b" by (intro setup_large_sr [OF _ dh nh]) (simp add: word_less_nat_alt)
    with True nh dl dh show ?thesis by (simp add: udivmoddi4_setup_def setup_ok_def)
  next
    case False
    then have le: "unat ?sr \<le> 31" by (simp add: word_less_nat_alt)
    note sr = setup_shift_sr [OF refl dh nh le]
    have "?sr + 1 \<noteq> 32 \<Longrightarrow> ?sr + 1 < 32"
      using sr(1) le by (auto simp: word_less_nat_alt word_unat_eq_iff)
    with setup_ok_any_shift [OF _ _ sr(2)] sr(1) le False nh dl dh show ?thesis
      by (simp add: udivmoddi4_setup_def Let_def split: if_splits)
  qed
qed

lemma udivmoddi4_setup_ok: "b \<noteq> 0 \<Longrightarrow> setup_ok a b (udivmoddi4_setup a b)"
  using setup_ok_n_hi_0 setup_ok_d_lo_0 setup_ok_d_hi_0 setup_ok_full by blast

section \<open>Correctness of unsigned division\<close>

lemma div_inv_init:
  assumes "1 \<le> s" "s \<le> 63" "unat a div 2 ^ s < unat d"
  shows "div_inv (unat a) (unat d) s (push_bit (64 - s) a, drop_bit s a, 0)"
proof -
  have "(2::nat) ^ 64 = 2 ^ s * 2 ^ (64 - s)" using assms by (simp flip: power_add)
  then have "unat a * 2 ^ (64 - s) mod 2 ^ 64 = unat a mod 2 ^ s * 2 ^ (64 - s)"
    by (simp only: mult_mod_left)
  then have "unat (push_bit (64 - s) a) = unat a mod 2 ^ s * 2 ^ (64 - s)"
    by (simp add: unat_push_bit)
  with assms show ?thesis by (simp add: div_inv_def unat_drop_bit)
qed

lemma div_inv_final:
  assumes inv: "div_inv a (unat d) 0 (q, r, c)"
  shows "unat (push_bit 1 q OR ucast c :: u64) = a div unat d" and "unat r = a mod unat d"
proof -
  from inv have c: "unat c \<le> 1" and r: "unat r < unat d" and q: "unat q < 2 ^ 63"
    and eq: "a = (2 * unat q + unat c) * unat d + unat r"
    by (auto simp: div_inv_def)
  have sh: "unat (push_bit 1 q) = unat q * 2 ^ 1"
    using q by (simp only: unat_push_bit) simp
  have "unat (push_bit 1 q OR ucast c :: u64) = unat (push_bit 1 q) + unat (ucast c :: u64)"
    using c by (intro unat_or_add [OF sh]) simp
  also have "\<dots> = 2 * unat q + unat c" by (simp only: sh unat_ucast_up) simp
  finally show "unat (push_bit 1 q OR ucast c :: u64) = a div unat d"
    using r by (subst eq) simp
  show "unat r = a mod unat d" using r by (subst eq) simp
qed

lemma udivmoddi4_unat:
  assumes "b \<noteq> 0"
  obtains q r where "udivmoddi4 a b = Some (q, r)"
    and "unat q = unat a div unat b" and "unat r = unat a mod unat b"
proof -
  have ok: "setup_ok a b (udivmoddi4_setup a b)" by (rule udivmoddi4_setup_ok [OF assms])
  show thesis
  proof (cases "udivmoddi4_setup a b")
    case DivZero
    with ok show ?thesis by (simp add: setup_ok_def)
  next
    case (Return q r)
    with ok show ?thesis by (intro that [of q r]) (simp_all add: setup_ok_def udivmoddi4_def)
  next
    case (Loop sr qh ql rh rl)
    with ok have s: "1 \<le> unat sr" "unat sr \<le> 63" "unat a div 2 ^ unat sr < unat b"
      and q: "make64 qh ql = push_bit (64 - unat sr) a" and r: "make64 rh rl = drop_bit (unat sr) a"
      by (auto simp: setup_ok_def)
    obtain qh' ql' rh' rl' c
      where l: "udivmoddi4_loop (unat sr) (hi32 b) (lo32 b) (qh, ql, rh, rl, 0) = (qh', ql', rh', rl', c)"
      by (cases "udivmoddi4_loop (unat sr) (hi32 b) (lo32 b) (qh, ql, rh, rl, 0)") auto
    have "div_inv (unat a) (unat b) 0 (loop64 (unat sr) b (join_regs (qh, ql, rh, rl, 0)))"
      using div_inv_init [OF s] unat_lt2 [of a] by (intro div_inv_loop) (simp_all add: q r)
    then have inv: "div_inv (unat a) (unat b) 0 (make64 qh' ql', make64 rh' rl', c)"
      using udivmoddi4_loop_refines [of "(qh, ql, rh, rl, 0)" "unat sr" b] l by simp
    then have "unat c \<le> 1" by (simp add: div_inv_def)
    then have "c = 0 \<or> c = 1" by (auto simp: word_unat_eq_iff le_Suc_eq)
    then have "bit c k \<Longrightarrow> k = 0" for k by (auto simp: bit_1_iff)
    then have "make64 (push_bit 1 qh' OR drop_bit 31 ql') (push_bit 1 ql' OR c) =
        push_bit 1 (make64 qh' ql') OR ucast c" by (rule make64_shift)
    with Loop l div_inv_final [OF inv] show ?thesis
      by (intro that) (simp_all only: udivmoddi4_def div_setup.case prod.case Let_def)
  qed
qed

lemma udivmoddi4_div_mod:
  "b \<noteq> 0 \<Longrightarrow> udivmoddi4 a b = Some (a div b, a mod b)"
  by (erule udivmoddi4_unat [of b a])
    (simp add: word_unat_eq_iff unat_div_distrib unat_mod_distrib)

lemma udivmoddi4_zero: "udivmoddi4 a 0 = None"
  by (simp add: udivmoddi4_def udivmoddi4_setup_def hi32_def lo32_def Let_def)

section \<open>Signs\<close>

lemma sint_neg_iff: "sint a < 0 \<longleftrightarrow> bit a 63" for a :: u64
  by (simp add: sint_uint signed_take_bit_negative_iff bit_uint_iff)

lemma sign_mask: "signed_drop_bit 63 a = (if sint a < 0 then - 1 else 0)" for a :: u64
proof (rule bit_eqI)
  fix n assume "possible_bit TYPE(64 word) n"
  then have n: "n < 64" by simp
  have "bit (signed_drop_bit 63 a) n \<longleftrightarrow> bit a 63"
    using n by (cases "n = 0") (auto simp: bit_signed_drop_bit_iff)
  with n show "bit (signed_drop_bit 63 a) n = bit (if sint a < 0 then - 1 else 0 :: u64) n"
    by (simp add: sint_neg_iff)
qed

lemma sign_fold: "(w XOR (if c then - 1 else 0)) + (- (if c then - 1 else 0)) = (if c then - w else w)"
  for w :: "'a::len word"
  by (cases c) (use xor_self_minus [of w] in
    \<open>simp_all only: if_True if_False minus_minus xor.right_neutral minus_zero add_0_right\<close>)

lemma sign_xor: "(if c then - 1 else 0) XOR (if d then - 1 else 0) = (if c \<noteq> d then - 1 else 0 :: u64)"
  by simp

lemma unat_abs: "int (unat (if sint a < 0 then - a else a)) = \<bar>sint a\<bar>" for a :: u64
proof -
  have rng: "- (2 ^ 63) \<le> sint a" "sint a < 2 ^ 63"
    using sint_ge [of a] sint_lt [of a] by auto
  have "uint (- a) = (- sint a) mod 2 ^ 64"
    using uint_word_of_int [of "- sint a", where 'a = 64] by simp
  moreover have "uint a = sint a mod 2 ^ 64"
    using uint_word_of_int [of "sint a", where 'a = 64] by simp
  ultimately show ?thesis using rng by (simp add: mod_pos_pos_trivial)
qed

lemma abs_eq_0_iff: "(if sint b < 0 then - b else b) = 0 \<longleftrightarrow> b = 0" for b :: u64
  by auto

lemma sdiv_word:
  "(if (sint a < 0) \<noteq> (sint b < 0) then - q else q) = word_of_int (sint a sdiv sint b)"
  if "int (unat q) = \<bar>sint a\<bar> div \<bar>sint b\<bar>" for a b q :: u64
proof -
  have "q = word_of_int (\<bar>sint a\<bar> div \<bar>sint b\<bar>)" by (simp flip: that)
  then show ?thesis by (auto simp: signed_divide_int_def sgn_if)
qed

lemma smod_word:
  "(if sint a < 0 then - r else r) = word_of_int (sint a smod sint b)"
  if "int (unat r) = \<bar>sint a\<bar> mod \<bar>sint b\<bar>" for a b r :: u64
proof -
  have "r = word_of_int (\<bar>sint a\<bar> mod \<bar>sint b\<bar>)" by (simp flip: that)
  then show ?thesis by (auto simp: signed_modulo_int_def signed_divide_int_def sgn_if minus_div_mult_eq_mod)
qed

section \<open>The interface of the unsigned division\<close>

text \<open>
  The signed wrappers rely on their callee only through its contract: quotient and remainder of
  unsigned words, and no result for a zero divisor.
\<close>

locale udivmod =
  fixes divmod :: "u64 \<Rightarrow> u64 \<Rightarrow> (u64 \<times> u64) option"
  assumes divides: "b \<noteq> 0 \<Longrightarrow> divmod a b = Some (a div b, a mod b)"
    and by_zero: "divmod a 0 = None"
begin

lemma signed_quotient:
  "(case divmod (if sint a < 0 then - a else a) (if sint b < 0 then - b else b) of
      None \<Rightarrow> None
    | Some (q, _) \<Rightarrow> Some (if (sint a < 0) \<noteq> (sint b < 0) then - q else q)) =
   (if b = 0 then None else Some (word_of_int (sint a sdiv sint b)))"
  (is "(case divmod ?a ?b of None \<Rightarrow> None | Some (q, _) \<Rightarrow> Some (?f q)) = _")
proof (cases "b = 0")
  case True
  then show ?thesis by (simp add: by_zero)
next
  case False
  then have b: "?b \<noteq> 0" by (simp only: abs_eq_0_iff not_False_eq_True)
  have "int (unat (?a div ?b)) = \<bar>sint a\<bar> div \<bar>sint b\<bar>"
    by (simp only: unat_div_distrib zdiv_int unat_abs)
  from sdiv_word [OF this] False show ?thesis by (simp only: divides [OF b] option.case prod.case if_False)
qed

lemma signed_remainder:
  "(case divmod (if sint a < 0 then - a else a) (if sint b < 0 then - b else b) of
      None \<Rightarrow> None
    | Some (_, r) \<Rightarrow> Some (if sint a < 0 then - r else r)) =
   (if b = 0 then None else Some (word_of_int (sint a smod sint b)))"
  (is "(case divmod ?a ?b of None \<Rightarrow> None | Some (_, r) \<Rightarrow> Some (?f r)) = _")
proof (cases "b = 0")
  case True
  then show ?thesis by (simp add: by_zero)
next
  case False
  then have b: "?b \<noteq> 0" by (simp only: abs_eq_0_iff not_False_eq_True)
  have "int (unat (?a mod ?b)) = \<bar>sint a\<bar> mod \<bar>sint b\<bar>"
    by (simp only: unat_mod_distrib zmod_int unat_abs)
  from smod_word [OF this] False show ?thesis by (simp only: divides [OF b] option.case prod.case if_False)
qed

end

interpretation divmod64: udivmod udivmoddi4
  by unfold_locales (simp_all add: udivmoddi4_div_mod udivmoddi4_zero)

section \<open>The builtins compute the C operators\<close>

text \<open>
  C37. \<open>__muldi3\<close> computes the product modulo \<open>2 ^ 64\<close>, and its helper the full 64-bit product of
  two 32-bit words.
\<close>

theorem muldi3_correct:
  "muldi3 a b = a * b \<and> unat (muldsi3 x y) = unat x * unat y"
  by (simp add: muldi3_product muldsi3_product)

text \<open>
  C8. \<open>__udivmoddi4\<close> terminates with the quotient and the remainder of unsigned 64-bit division
  for every pair of operands with a nonzero divisor, and \<open>__udivdi3\<close> and \<open>__umoddi3\<close> return its
  two results.
\<close>

theorem udivmoddi4_correct:
  "udivmoddi4 a b = (if b = 0 then None else Some (a div b, a mod b)) \<and>
   udivdi3 a b = (if b = 0 then None else Some (a div b)) \<and>
   umoddi3 a b = (if b = 0 then None else Some (a mod b))"
  by (simp add: udivmoddi4_div_mod udivmoddi4_zero udivdi3_def umoddi3_def)

text \<open>
  C36. \<open>__divdi3\<close> computes C's signed quotient, truncated towards zero and reduced to 64 bits
  (so that the most negative value divided by \<open>-1\<close> wraps to itself), and \<open>__moddi3\<close> the matching
  remainder with the sign of the dividend.
\<close>

theorem signed_division_correct:
  "divdi3 a b = (if b = 0 then None else Some (word_of_int (sint a sdiv sint b))) \<and>
   moddi3 a b = (if b = 0 then None else Some (word_of_int (sint a smod sint b)))"
  unfolding divdi3_def moddi3_def Let_def sign_mask sign_xor sign_fold
  using divmod64.signed_quotient [of a b] divmod64.signed_remainder [of a b] by (rule conjI)

end
