(* ===== verification/Life_Rule.thy ===== *)
theory Life_Rule
  imports TMS_Prelude
begin

text \<open>
  The rule of the Game of Life on a torus, and the bit-parallel word function of the three Life
  programs (\<^verbatim>\<open>cart_example/life2_2x.c\<close>, \<^verbatim>\<open>life2.c\<close> and \<^verbatim>\<open>life.c\<close>), which counts the neighbours of 16
  cells at a time with a tree of carry-save adders. The programs keep a board as rows of bytes,
  the leftmost cell in the highest bit.
\<close>

section \<open>The rule\<close>

definition life_rule :: "bool \<Rightarrow> nat \<Rightarrow> bool" where
  "life_rule alive n \<longleftrightarrow> n = 3 \<or> (alive \<and> n = 2)"

definition neighbours :: "nat \<Rightarrow> nat \<Rightarrow> (nat \<Rightarrow> nat \<Rightarrow> bool) \<Rightarrow> nat \<Rightarrow> nat \<Rightarrow> nat" where
  "neighbours w h c x y =
    (let l = (x + w - 1) mod w; r = (x + 1) mod w; u = (y + h - 1) mod h; d = (y + 1) mod h in
     of_bool (c l u) + of_bool (c x u) + of_bool (c r u) +
     of_bool (c l y) + of_bool (c r y) +
     of_bool (c l d) + of_bool (c x d) + of_bool (c r d))"

text \<open>One generation on a torus of \<open>w\<close> by \<open>h\<close> cells.\<close>

definition life_step :: "nat \<Rightarrow> nat \<Rightarrow> (nat \<Rightarrow> nat \<Rightarrow> bool) \<Rightarrow> nat \<Rightarrow> nat \<Rightarrow> bool" where
  "life_step w h c x y = life_rule (c x y) (neighbours w h c x y)"

section \<open>Sixteen cells at a time\<close>

text \<open>\<open>life_next_word\<close> of \<^verbatim>\<open>life2_2x.c\<close> and \<^verbatim>\<open>life2.c\<close>.\<close>

definition life_next_word ::
    "u16 \<Rightarrow> u16 \<Rightarrow> u16 \<Rightarrow> u16 \<Rightarrow> u16 \<Rightarrow> u16 \<Rightarrow> u16 \<Rightarrow> u16 \<Rightarrow> u16 \<Rightarrow> u16" where
  "life_next_word u_left uC u_right m_left mC m_right d_left dC d_right =
    (let sum1 = u_left XOR uC XOR u_right;
         carry1 = (u_left AND uC) OR (u_left AND u_right) OR (uC AND u_right);
         sum2 = m_left XOR m_right XOR d_left;
         carry2 = (m_left AND m_right) OR (m_left AND d_left) OR (m_right AND d_left);
         sum3 = dC XOR d_right;
         carry3 = dC AND d_right;
         sum4 = sum1 XOR sum2 XOR sum3;
         carry4 = (sum1 AND sum2) OR (sum1 AND sum3) OR (sum2 AND sum3);
         t_sum = carry1 XOR carry2 XOR carry3;
         t_carry = (carry1 AND carry2) OR (carry1 AND carry3) OR (carry2 AND carry3);
         c0 = t_sum XOR carry4;
         c1 = t_sum AND carry4;
         c1_sum = t_carry XOR c1;
         c2 = t_carry AND c1;
         bit0 = sum4; bit1 = c0; bit2 = c1_sum; bit3 = c2
     in bit1 AND NOT bit2 AND NOT bit3 AND (bit0 OR mC))"

text \<open>\<open>life_next_word\<close> of \<^verbatim>\<open>life.c\<close>, with the two counts decoded separately.\<close>

definition life_next_word_n2n3 ::
    "u16 \<Rightarrow> u16 \<Rightarrow> u16 \<Rightarrow> u16 \<Rightarrow> u16 \<Rightarrow> u16 \<Rightarrow> u16 \<Rightarrow> u16 \<Rightarrow> u16 \<Rightarrow> u16" where
  "life_next_word_n2n3 u_left uC u_right m_left mC m_right d_left dC d_right =
    (let sum1 = u_left XOR uC XOR u_right;
         carry1 = (u_left AND uC) OR (u_left AND u_right) OR (uC AND u_right);
         sum2 = m_left XOR m_right XOR d_left;
         carry2 = (m_left AND m_right) OR (m_left AND d_left) OR (m_right AND d_left);
         sum3 = dC XOR d_right;
         carry3 = dC AND d_right;
         sum4 = sum1 XOR sum2 XOR sum3;
         carry4 = (sum1 AND sum2) OR (sum1 AND sum3) OR (sum2 AND sum3);
         t_sum = carry1 XOR carry2 XOR carry3;
         t_carry = (carry1 AND carry2) OR (carry1 AND carry3) OR (carry2 AND carry3);
         c0 = t_sum XOR carry4;
         c1 = t_sum AND carry4;
         c1_sum = t_carry XOR c1;
         c2 = t_carry AND c1;
         bit0 = sum4; bit1 = c0; bit2 = c1_sum; bit3 = c2;
         n2 = NOT bit0 AND bit1 AND NOT bit2 AND NOT bit3;
         n3 = bit0 AND bit1 AND NOT bit2 AND NOT bit3
     in n3 OR (n2 AND mC))"

section \<open>The adder tree counts\<close>

lemma full_adder:
  "of_bool a + of_bool b + of_bool c =
   of_bool (a \<noteq> (b \<noteq> c)) + 2 * (of_bool (a \<and> b \<or> a \<and> c \<or> b \<and> c) :: nat)"
  by (cases a; cases b; cases c) simp_all

lemma half_adder: "of_bool a + of_bool b = of_bool (a \<noteq> b) + 2 * (of_bool (a \<and> b) :: nat)"
  by (cases a; cases b) simp_all

text \<open>The binary digits of the count that the tree computes, one lane.\<close>

lemma adder_tree:
  fixes a1 a2 a3 a4 a5 a6 a7 a8 :: bool
  defines "s1 \<equiv> a1 \<noteq> (a2 \<noteq> a3)" and "k1 \<equiv> a1 \<and> a2 \<or> a1 \<and> a3 \<or> a2 \<and> a3"
    and "s2 \<equiv> a4 \<noteq> (a5 \<noteq> a6)" and "k2 \<equiv> a4 \<and> a5 \<or> a4 \<and> a6 \<or> a5 \<and> a6"
    and "s3 \<equiv> a7 \<noteq> a8" and "k3 \<equiv> a7 \<and> a8"
  defines "s4 \<equiv> s1 \<noteq> (s2 \<noteq> s3)" and "k4 \<equiv> s1 \<and> s2 \<or> s1 \<and> s3 \<or> s2 \<and> s3"
    and "ts \<equiv> k1 \<noteq> (k2 \<noteq> k3)" and "tc \<equiv> k1 \<and> k2 \<or> k1 \<and> k3 \<or> k2 \<and> k3"
  shows "of_bool a1 + of_bool a2 + of_bool a3 + of_bool a4 + of_bool a5 + of_bool a6 +
      of_bool a7 + of_bool a8 =
    of_bool s4 + 2 * of_bool (ts \<noteq> k4) + 4 * of_bool (tc \<noteq> (ts \<and> k4)) +
      8 * (of_bool (tc \<and> (ts \<and> k4)) :: nat)"
  using full_adder [of a1 a2 a3] full_adder [of a4 a5 a6] half_adder [of a7 a8]
    full_adder [of s1 s2 s3] full_adder [of k1 k2 k3] half_adder [of ts k4]
    half_adder [of tc "ts \<and> k4"]
  by (simp only: s1_def [symmetric] k1_def [symmetric] s2_def [symmetric] k2_def [symmetric]
      s3_def [symmetric] k3_def [symmetric] s4_def [symmetric] k4_def [symmetric]
      ts_def [symmetric] tc_def [symmetric])

text \<open>The rule, decoded from the digits of the count.\<close>

lemma rule_digits:
  "life_rule alive (of_bool b0 + 2 * of_bool b1 + 4 * of_bool b2 + 8 * of_bool b3) \<longleftrightarrow>
   b1 \<and> \<not> b2 \<and> \<not> b3 \<and> (b0 \<or> alive)"
  by (cases b0; cases b1; cases b2; cases b3) (auto simp: life_rule_def)

lemma life_next_word_lane:
  "bit (life_next_word ul uc ur ml mc mr dl dc dr) k \<longleftrightarrow> k < 16 \<and>
   life_rule (bit mc k)
     (of_bool (bit ul k) + of_bool (bit uc k) + of_bool (bit ur k) + of_bool (bit ml k) +
      of_bool (bit mr k) + of_bool (bit dl k) + of_bool (bit dc k) + of_bool (bit dr k))"
proof (cases "k < 16")
  case True
  then have "bit (NOT w) k = (\<not> bit w k)" for w :: u16 by (simp add: bit_not_iff)
  with True show ?thesis
    unfolding life_next_word_def Let_def adder_tree rule_digits
    by (simp only: bit_and_iff bit_or_iff bit_xor_iff simp_thms)
next
  case False
  then show ?thesis by (auto dest: bit_imp_le_length)
qed

lemma decode_eq:
  "(b0 AND b1 AND NOT b2 AND NOT b3) OR ((NOT b0 AND b1 AND NOT b2 AND NOT b3) AND m) =
   b1 AND NOT b2 AND NOT b3 AND (b0 OR m)" for m :: u16
  by (rule bit_eqI) (auto simp: bit_simps)

lemma life_next_word_n2n3_eq: "life_next_word_n2n3 = life_next_word"
  unfolding life_next_word_n2n3_def life_next_word_def Let_def decode_eq by (rule refl)

section \<open>Boards in memory\<close>

text \<open>
  The cell in column \<open>x\<close> of row \<open>y\<close>, for rows of \<open>rb\<close> bytes; \<open>nw\<close> is the number of words of a row.
\<close>

definition cell :: "nat \<Rightarrow> mem \<Rightarrow> nat \<Rightarrow> nat \<Rightarrow> bool" where
  "cell rb b x y \<longleftrightarrow> bit (b (y * rb + x div 8)) (7 - x mod 8)"

lemma cell_word: "cell (2 * nw) b x y \<longleftrightarrow> bit (rd16 b (y * nw + x div 16)) (15 - x mod 16)"
proof -
  define q r where "q = x div 8" and "r = x mod 8"
  have d: "x div 16 = q div 2" using div_mult2_eq [of x 8 2] by (simp add: q_def)
  have m: "x mod 16 = 8 * (q mod 2) + r" using mod_mult2_eq [of x 8 2] by (simp add: q_def r_def)
  have "r < 8" by (simp add: r_def)
  have o: "y * (2 * nw) + q = 2 * (y * nw + q div 2) + q mod 2" by simp
  have "\<not> 15 - r < 8" "15 - r < 16" "7 - r < 8" using \<open>r < 8\<close> by auto
  then show ?thesis
    unfolding cell_def d m q_def [symmetric] r_def [symmetric] o
    by (cases "even q") (simp_all add: bit_rd16 odd_iff_mod_2_eq_one)
qed

text \<open>
  The window of nine words around a word, shifted so that the lanes of the neighbours line up.
\<close>

definition left_lanes :: "u16 \<Rightarrow> u16 \<Rightarrow> u16" where
  "left_lanes C L = drop_bit 1 C OR push_bit 15 L"

definition right_lanes :: "u16 \<Rightarrow> u16 \<Rightarrow> u16" where
  "right_lanes C R = push_bit 1 C OR drop_bit 15 R"

definition next_lanes ::
    "u16 \<Rightarrow> u16 \<Rightarrow> u16 \<Rightarrow> u16 \<Rightarrow> u16 \<Rightarrow> u16 \<Rightarrow> u16 \<Rightarrow> u16 \<Rightarrow> u16 \<Rightarrow> u16" where
  "next_lanes uL uC uR mL mC mR dL dC dR =
    life_next_word (left_lanes uC uL) uC (right_lanes uC uR) (left_lanes mC mL) mC (right_lanes mC mR)
      (left_lanes dC dL) dC (right_lanes dC dR)"

lemma bit_left_lanes:
  "k < 16 \<Longrightarrow> bit (left_lanes C L) k \<longleftrightarrow> (if k = 15 then bit L 0 else bit C (Suc k))"
  by (cases "k = 15") (auto simp: left_lanes_def bit_simps dest: bit_imp_le_length)

lemma bit_right_lanes:
  "k < 16 \<Longrightarrow> bit (right_lanes C R) k \<longleftrightarrow> (if k = 0 then bit R 15 else bit C (k - 1))"
  unfolding right_lanes_def bit_or_iff bit_push_bit_iff bit_drop_bit_eq
  by (cases "k = 0") (auto dest: bit_imp_le_length)

lemma lane_lt [simp]: "15 - x mod 16 < (16::nat)"
  by simp

text \<open>
  A torus is read through a function from rows and words of the row; \<open>lane\<close> is one of its cells.
\<close>

definition lane :: "(nat \<Rightarrow> nat \<Rightarrow> u16) \<Rightarrow> nat \<Rightarrow> nat \<Rightarrow> bool" where
  "lane w x y \<longleftrightarrow> bit (w y (x div 16)) (15 - x mod 16)"

definition torus_at :: "nat \<Rightarrow> nat \<Rightarrow> (nat \<Rightarrow> nat \<Rightarrow> u16) \<Rightarrow> nat \<Rightarrow> nat \<Rightarrow> u16" where
  "torus_at nw h w y wx =
    (let l = (wx + nw - 1) mod nw; r = (wx + 1) mod nw; u = (y + h - 1) mod h; d = (y + 1) mod h
     in next_lanes (w u l) (w u wx) (w u r) (w y l) (w y wx) (w y r) (w d l) (w d wx) (w d r))"

lemma lane_left:
  assumes x: "x < 16 * nw"
  shows "lane w ((x + 16 * nw - 1) mod (16 * nw)) y \<longleftrightarrow>
    bit (left_lanes (w y (x div 16)) (w y ((x div 16 + nw - 1) mod nw))) (15 - x mod 16)"
proof (cases "x mod 16 = 0")
  case True
  define i where "i = x div 16"
  have xi: "x = 16 * i" using True by (auto simp: i_def)
  have "i < nw" using x xi by simp
  then have "x + 16 * nw - 1 = 16 * (i + nw - 1) + 15" using xi by simp
  moreover have "(16 * k + 15) mod (16 * nw) = 16 * (k mod nw) + 15" for k
    using mod_mult2_eq [of "16 * k + 15" 16 nw] by simp
  ultimately have e: "(x + 16 * nw - 1) mod (16 * nw) = 16 * ((i + nw - 1) mod nw) + 15"
    by (simp only:)
  have "((x + 16 * nw - 1) mod (16 * nw)) div 16 = (i + nw - 1) mod nw"
    and "((x + 16 * nw - 1) mod (16 * nw)) mod 16 = 15"
    unfolding e by simp_all
  with True show ?thesis by (simp add: lane_def bit_left_lanes i_def)
next
  case False
  then have "(x + 16 * nw - 1) mod (16 * nw) = x - 1" using x by (cases x) (simp_all add: mod_if)
  moreover have "(x - 1) div 16 = x div 16" "15 - (x - 1) mod 16 = Suc (15 - x mod 16)" "15 - x mod 16 \<noteq> 15"
  proof -
    obtain z where z: "x = Suc z" using False by (cases x) auto
    then have "Suc (z mod 16) \<noteq> 16" using False by (auto simp: mod_Suc)
    moreover have "z mod 16 < 16" by simp
    ultimately show "(x - 1) div 16 = x div 16" "15 - (x - 1) mod 16 = Suc (15 - x mod 16)" "15 - x mod 16 \<noteq> 15"
      using z by (simp_all add: div_Suc mod_Suc)
  qed
  ultimately show ?thesis by (simp add: lane_def bit_left_lanes)
qed

lemma lane_right:
  assumes x: "x < 16 * nw"
  shows "lane w ((x + 1) mod (16 * nw)) y \<longleftrightarrow>
    bit (right_lanes (w y (x div 16)) (w y ((x div 16 + 1) mod nw))) (15 - x mod 16)"
proof (cases "x mod 16 = 15")
  case True
  define i where "i = x div 16"
  have xi: "x = 16 * i + 15" using True i_def by presburger
  have "i < nw" using x xi by simp
  have "(x + 1) mod (16 * nw) = 16 * ((i + 1) mod nw)" using xi mult_mod_right [of 16 "i + 1" nw] by simp
  then have "((x + 1) mod (16 * nw)) div 16 = (i + 1) mod nw" and "((x + 1) mod (16 * nw)) mod 16 = 0"
    by simp_all
  with True show ?thesis by (simp add: lane_def bit_right_lanes i_def)
next
  case False
  then have lt: "x mod 16 < 15" using mod_less_divisor [of 16 x] by linarith
  then have "x + 1 < 16 * nw" using x by presburger
  then have "(x + 1) mod (16 * nw) = x + 1" by simp
  moreover have "(x + 1) div 16 = x div 16" "15 - (x + 1) mod 16 = 15 - x mod 16 - 1" "15 - x mod 16 \<noteq> 0"
    using lt by (simp_all add: div_Suc mod_Suc)
  ultimately show ?thesis by (simp add: lane_def bit_right_lanes)
qed

text \<open>The word computed from the window holds the next generation of its sixteen cells.\<close>

lemma torus_at_lane:
  assumes x: "x < 16 * nw"
  shows "bit (torus_at nw h w y (x div 16)) (15 - x mod 16) \<longleftrightarrow> life_step (16 * nw) h (lane w) x y"
proof -
  have "15 - x mod 16 < 16" by simp
  then show ?thesis
    unfolding torus_at_def Let_def next_lanes_def life_next_word_lane life_step_def neighbours_def
      lane_left [OF x, symmetric] lane_right [OF x, symmetric] lane_def [symmetric]
    by (simp only: simp_thms)
qed

text \<open>A word whose cells all die is zero.\<close>

lemma torus_at_eq_0:
  assumes "wx < nw" and "\<And>j. j < 16 \<Longrightarrow> \<not> life_step (16 * nw) h (lane w) (16 * wx + j) y"
  shows "torus_at nw h w y wx = 0"
proof (rule bit_eqI)
  fix k assume "possible_bit TYPE(16 word) k"
  then obtain j where j: "j < 16" "k = 15 - j" by (intro that [of "15 - k"]) auto
  then have x: "(16 * wx + j) div 16 = wx" "15 - (16 * wx + j) mod 16 = k" "16 * wx + j < 16 * nw"
    using assms(1) by auto
  show "bit (torus_at nw h w y wx) k = bit (0 :: u16) k"
    using torus_at_lane [OF x(3), of h w y] assms(2) [OF j(1)] x by simp
qed

text \<open>The boards whose rows fill the torus exactly.\<close>

definition torus_word :: "nat \<Rightarrow> nat \<Rightarrow> mem \<Rightarrow> nat \<Rightarrow> nat \<Rightarrow> u16" where
  "torus_word nw h b y wx = torus_at nw h (\<lambda>yy i. rd16 b (yy * nw + i)) y wx"

lemma cell_lane: "cell (2 * nw) b = lane (\<lambda>y i. rd16 b (y * nw + i))"
  by (intro ext) (simp add: cell_word lane_def)

lemma torus_word_cell:
  assumes "x < 16 * nw"
  shows "bit (torus_word nw h b y (x div 16)) (15 - x mod 16) \<longleftrightarrow>
    life_step (16 * nw) h (cell (2 * nw) b) x y"
  unfolding torus_word_def cell_lane by (rule torus_at_lane [OF assms])

text \<open>
  Lane by lane, the adder tree of \<open>life_next_word\<close> applies the rule of the Game of Life to the
  number of the eight neighbour bits that are set, and the two versions of the function, with the
  simplified and with the full decoding of the count, agree.
\<close>

theorem life_next_word_correct:
  "bit (life_next_word ul uc ur ml mc mr dl dc dr) k = (k < 16 \<and>
    life_rule (bit mc k)
      (of_bool (bit ul k) + of_bool (bit uc k) + of_bool (bit ur k) + of_bool (bit ml k) +
       of_bool (bit mr k) + of_bool (bit dl k) + of_bool (bit dc k) + of_bool (bit dr k))) \<and>
   life_next_word_n2n3 ul uc ur ml mc mr dl dc dr = life_next_word ul uc ur ml mc mr dl dc dr"
  unfolding life_next_word_n2n3_eq life_next_word_lane by (rule conjI) (rule refl)+

end
