(* ===== verification/Life_Tiles.thy ===== *)
theory Life_Tiles
  imports Life_Rule
begin

text \<open>
  Tiles of a torus. The Life programs only recompute tiles near a live cell; this theory has what all
  of them need: neighbours around a ring, the offsets of a grid of bytes, and the reason why a tile
  with no live cell around it stays dead.
\<close>

text \<open>A board pointer names one of the two arrays the programs swap.\<close>

datatype board_ref = Board_A | Board_B

section \<open>Neighbours around a ring\<close>

lemma wrap_prev: "y < n \<Longrightarrow> (if y = 0 then n - 1 else y - 1) = (y + n - 1) mod n" for n y :: nat
  by (cases y) simp_all

lemma wrap_next: "y < n \<Longrightarrow> (if y + 1 = n then 0 else y + 1) = (y + 1) mod n" for n y :: nat
  by auto

definition near :: "nat \<Rightarrow> nat \<Rightarrow> nat set" where
  "near n i = {(i + n - 1) mod n, i, (i + 1) mod n}"

lemma near_sym: "i < n \<Longrightarrow> j < n \<Longrightarrow> j \<in> near n i \<longleftrightarrow> i \<in> near n j"
proof -
  have "j = (i + 1) mod n \<longleftrightarrow> i = (j + n - 1) mod n" if "i < n" "j < n" for i j
    using that wrap_prev [of j n] wrap_next [of i n] by (auto split: if_splits)
  then show "i < n \<Longrightarrow> j < n \<Longrightarrow> j \<in> near n i \<longleftrightarrow> i \<in> near n j" by (auto simp: near_def)
qed

lemma near_lt: "i < n \<Longrightarrow> j \<in> near n i \<Longrightarrow> j < n"
  by (auto simp: near_def)

text \<open>Near cells lie in near tiles, for tiles of \<open>t\<close> cells.\<close>

lemma near_div:
  fixes n t :: nat
  assumes y: "y < n * t" and near: "y' \<in> near (n * t) y"
  shows "y' div t \<in> near n (y div t)"
proof -
  have t: "0 < t" using y by (cases t) auto
  have up: "(i + 1) mod (n * t) div t \<in> near n (i div t)" if "i < n * t" for i
  proof (cases "i + 1 = n * t")
    case True
    then have "i div t = n - 1" using t by (metis Suc_eq_plus1 diff_Suc_1 div_less_iff_less_mult div_mult_self_is_m
          div_Suc less_Suc_eq_le mod_mult_self2_is_0 n_not_Suc_n diff_add_inverse2 mod_mult_self1_is_0)
    with True that show ?thesis by (cases n) (simp_all add: near_def)
  next
    case False
    with that have lt: "i + 1 < n * t" by simp
    then have "(i + 1) div t < n" by (simp add: less_mult_imp_div_less)
    moreover have "(i + 1) div t = i div t \<or> (i + 1) div t = i div t + 1" by (simp add: div_Suc)
    ultimately have "(i + 1) div t = i div t \<or> (i + 1) div t = (i div t + 1) mod n" by auto
    with lt show ?thesis by (auto simp: near_def)
  qed
  have lt: "y' < n * t" using near_lt y near by blast
  consider "y' = y" | "y' = (y + 1) mod (n * t)" | "y = (y' + 1) mod (n * t)"
    using near near_sym [OF lt y] wrap_prev [OF y] wrap_next [OF lt] y
    by (auto simp: near_def split: if_splits)
  then show ?thesis
  proof cases
    case 3
    have "y div t < n" "y' div t < n" using lt y by (simp_all add: less_mult_imp_div_less)
    with 3 up [OF lt] near_sym [of "y' div t" n "y div t"] show ?thesis by simp
  qed (use up [OF y] in \<open>auto simp: near_def\<close>)
qed

text \<open>
  If every live cell has the tiles around its own marked, a cell of a tile that is not marked is dead
  in the next generation.
\<close>

lemma quiet_cell:
  fixes nx ny tw th :: nat and c :: "nat \<Rightarrow> nat \<Rightarrow> bool"
  assumes marked: "\<And>x' y' ty tx. x' < nx * tw \<Longrightarrow> y' < ny * th \<Longrightarrow> c x' y' \<Longrightarrow>
      ty \<in> near ny (y' div th) \<Longrightarrow> tx \<in> near nx (x' div tw) \<Longrightarrow> act ty tx"
    and x: "x < nx * tw" and y: "y < ny * th" and quiet: "\<not> act (y div th) (x div tw)"
  shows "\<not> life_step (nx * tw) (ny * th) c x y"
proof -
  have dead: "\<not> c x' y'" if "x' \<in> near (nx * tw) x" "y' \<in> near (ny * th) y" for x' y'
  proof
    assume live: "c x' y'"
    have lt: "x' < nx * tw" "y' < ny * th" using near_lt x y that by blast+
    then have div: "x' div tw < nx" "y' div th < ny" "x div tw < nx" "y div th < ny"
      using x y by (simp_all add: less_mult_imp_div_less)
    have "y div th \<in> near ny (y' div th)" "x div tw \<in> near nx (x' div tw)"
      using near_div [OF x that(1)] near_div [OF y that(2)] near_sym div by blast+
    with marked [OF lt live] quiet show False by blast
  qed
  have "(x + nx * tw - 1) mod (nx * tw) \<in> near (nx * tw) x" "x \<in> near (nx * tw) x"
    "(x + 1) mod (nx * tw) \<in> near (nx * tw) x"
    "(y + ny * th - 1) mod (ny * th) \<in> near (ny * th) y" "y \<in> near (ny * th) y"
    "(y + 1) mod (ny * th) \<in> near (ny * th) y"
    by (simp_all add: near_def)
  then show ?thesis
    unfolding life_step_def neighbours_def Let_def by (simp add: dead life_rule_def)
qed

section \<open>Grids of bytes\<close>

lemma grid_index:
  fixes w :: nat
  assumes "0 < w"
  shows "(\<exists>y \<in> set [0..<h]. \<exists>x \<in> set [0..<w]. k = y * w + x) \<longleftrightarrow> k < h * w"
proof
  assume "\<exists>y \<in> set [0..<h]. \<exists>x \<in> set [0..<w]. k = y * w + x"
  then obtain y x where "y < h" "x < w" "k = y * w + x" by auto
  moreover have "(y + 1) * w \<le> h * w" using \<open>y < h\<close> by (intro mult_right_mono) auto
  ultimately show "k < h * w" by simp
next
  assume "k < h * w"
  then have "k div w < h" by (simp add: less_mult_imp_div_less)
  with assms show "\<exists>y \<in> set [0..<h]. \<exists>x \<in> set [0..<w]. k = y * w + x"
    by (intro bexI [of _ "k div w"] bexI [of _ "k mod w"]) auto
qed

lemma grid_inj:
  fixes w :: nat
  assumes "x < w" "x' < w"
  shows "y * w + x = y' * w + x' \<longleftrightarrow> y = y' \<and> x = x'"
proof
  assume e: "y * w + x = y' * w + x'"
  have "(y * w + x) div w = y" "(y' * w + x') div w = y'" using assms by simp_all
  with e show "y = y' \<and> x = x'" by simp
qed simp

lemma grid_fill:
  assumes "0 < w"
  shows "fold (\<lambda>y. fold (\<lambda>x m. m(y * w + x := v)) [0..<w]) [0..<h] m k = (if k < h * w then v else m k)"
  unfolding grid_index [OF assms, symmetric]
  by (rule fold_view [where view = "\<lambda>m. m"], rule fold_view [where view = "\<lambda>m. m"]) simp

section \<open>Tile maps\<close>

text \<open>
  A map of \<open>h\<close> rows of \<open>w\<close> tiles is a byte memory. The programs build the active map by clearing it
  and marking the neighbourhood of every tile that has a live cell.
\<close>

definition clear_tiles :: "nat \<Rightarrow> nat \<Rightarrow> mem \<Rightarrow> mem" where
  "clear_tiles h w t = fold (\<lambda>ty. fold (\<lambda>tx t. t(ty * w + tx := 0)) [0..<w]) [0..<h] t"

definition mark_neighbourhood :: "nat \<Rightarrow> nat \<Rightarrow> nat \<Rightarrow> nat \<Rightarrow> mem \<Rightarrow> mem" where
  "mark_neighbourhood h w ty tx t =
    (let ty_prev = (if ty = 0 then h - 1 else ty - 1);
         ty_next = (if ty + 1 = h then 0 else ty + 1);
         tx_prev = (if tx = 0 then w - 1 else tx - 1);
         tx_next = (if tx + 1 = w then 0 else tx + 1)
     in t(ty_prev * w + tx_prev := 1,
          ty_prev * w + tx := 1,
          ty_prev * w + tx_next := 1,
          ty * w + tx_prev := 1,
          ty * w + tx := 1,
          ty * w + tx_next := 1,
          ty_next * w + tx_prev := 1,
          ty_next * w + tx := 1,
          ty_next * w + tx_next := 1))"

lemma clear_tiles_byte: "0 < w \<Longrightarrow> clear_tiles h w t k = (if k < h * w then 0 else t k)"
  unfolding clear_tiles_def by (rule grid_fill)

lemma fun_upd_marks:
  "t k = (if P then v else x) \<Longrightarrow> (t(a := v)) k = (if k = a \<or> P then v else x)"
  by simp

lemma mark_neighbourhood_byte:
  assumes "ty < h" and "tx < w"
  shows "mark_neighbourhood h w ty tx t k =
    (if \<exists>ty' \<in> near h ty. \<exists>tx' \<in> near w tx. k = ty' * w + tx' then 1 else t k)"
proof -
  let ?p = "(ty + h - 1) mod h" and ?n = "(ty + 1) mod h"
  let ?l = "(tx + w - 1) mod w" and ?r = "(tx + 1) mod w"
  have "mark_neighbourhood h w ty tx t =
      t(?p * w + ?l := 1, ?p * w + tx := 1, ?p * w + ?r := 1, ty * w + ?l := 1, ty * w + tx := 1,
        ty * w + ?r := 1, ?n * w + ?l := 1, ?n * w + tx := 1, ?n * w + ?r := 1)"
    unfolding mark_neighbourhood_def Let_def wrap_prev [OF assms(1)] wrap_next [OF assms(1)]
      wrap_prev [OF assms(2)] wrap_next [OF assms(2)] by (rule refl)
  moreover have "(\<exists>ty' \<in> near h ty. \<exists>tx' \<in> near w tx. k = ty' * w + tx') \<longleftrightarrow>
      k = ?n * w + ?r \<or> k = ?n * w + tx \<or> k = ?n * w + ?l \<or> k = ty * w + ?r \<or> k = ty * w + tx \<or>
      k = ty * w + ?l \<or> k = ?p * w + ?r \<or> k = ?p * w + tx \<or> k = ?p * w + ?l \<or> False"
    unfolding near_def by blast
  ultimately show ?thesis by (simp only:) (intro fun_upd_marks, simp)
qed

text \<open>The map built by marking the neighbourhoods of the tiles that a test selects.\<close>

lemma mark_selected_byte:
  assumes "k < h * w" and "0 < w" and "\<And>ty tx t. ty < h \<Longrightarrow> tx < w \<Longrightarrow>
    F ty tx t = (if sel ty tx then mark_neighbourhood h w ty tx t else t)"
  shows "fold (\<lambda>ty. fold (F ty) [0..<w]) [0..<h] (clear_tiles h w t) k =
    (if \<exists>ty \<in> set [0..<h]. \<exists>tx \<in> set [0..<w]. sel ty tx \<and>
        (\<exists>ty' \<in> near h ty. \<exists>tx' \<in> near w tx. k = ty' * w + tx') then 1 else 0)"
proof -
  let ?sel = "\<lambda>ty tx. sel ty tx \<and> (\<exists>ty' \<in> near h ty. \<exists>tx' \<in> near w tx. k = ty' * w + tx')"
  have row: "fold (F ty) [0..<w] t k = (if \<exists>tx \<in> set [0..<w]. ?sel ty tx then 1 else t k)"
    if "ty \<in> set [0..<h]" for ty t
    by (rule fold_view [where view = "\<lambda>m. m"]) (use that assms(3) mark_neighbourhood_byte in auto)
  have "fold (\<lambda>ty. fold (F ty) [0..<w]) [0..<h] (clear_tiles h w t) k =
      (if \<exists>ty \<in> set [0..<h]. \<exists>tx \<in> set [0..<w]. ?sel ty tx then 1 else clear_tiles h w t k)"
    by (rule fold_view [where view = "\<lambda>m. m"]) (rule row)
  with assms(1,2) show ?thesis by (simp add: clear_tiles_byte)
qed

text \<open>Every selected tile has all nine tiles around it marked.\<close>

definition marks_around :: "nat \<Rightarrow> nat \<Rightarrow> (nat \<Rightarrow> nat \<Rightarrow> bool) \<Rightarrow> mem \<Rightarrow> bool" where
  "marks_around h w sel active \<longleftrightarrow>
    (\<forall>ty < h. \<forall>tx < w. sel ty tx \<longrightarrow>
      (\<forall>ty' \<in> near h ty. \<forall>tx' \<in> near w tx. active (ty' * w + tx') \<noteq> 0))"

lemma marks_around_intro:
  assumes F: "\<And>ty tx t. ty < h \<Longrightarrow> tx < w \<Longrightarrow>
      F ty tx t = (if sel ty tx then mark_neighbourhood h w ty tx t else t)"
  shows "marks_around h w sel (fold (\<lambda>ty. fold (F ty) [0..<w]) [0..<h] (clear_tiles h w t))"
  unfolding marks_around_def
proof (intro allI impI ballI)
  fix ty tx ty' tx'
  assume a: "ty < h" "tx < w" "sel ty tx" "ty' \<in> near h ty" "tx' \<in> near w tx"
  have "ty' < h" "tx' < w" using near_lt [OF a(1,4)] near_lt [OF a(2,5)] .
  moreover have "0 < w" using a(2) by simp
  moreover have "\<exists>y \<in> set [0..<h]. \<exists>x \<in> set [0..<w]. ty' * w + tx' = y * w + x"
    by (rule bexI [where x = ty'], rule bexI [where x = tx']) (use \<open>ty' < h\<close> \<open>tx' < w\<close> in auto)
  ultimately have k: "ty' * w + tx' < h * w" using grid_index [of w h "ty' * w + tx'"] by blast
  have "fold (\<lambda>ty. fold (F ty) [0..<w]) [0..<h] (clear_tiles h w t) (ty' * w + tx') =
      (if \<exists>ty \<in> set [0..<h]. \<exists>tx \<in> set [0..<w]. sel ty tx \<and>
        (\<exists>p \<in> near h ty. \<exists>q \<in> near w tx. ty' * w + tx' = p * w + q) then 1 else 0)"
    by (rule mark_selected_byte [OF k \<open>0 < w\<close> F])
  moreover have "\<exists>ty \<in> set [0..<h]. \<exists>tx \<in> set [0..<w]. sel ty tx \<and>
        (\<exists>p \<in> near h ty. \<exists>q \<in> near w tx. ty' * w + tx' = p * w + q)"
    by (rule bexI [where x = ty], rule bexI [where x = tx]) (use a in auto)
  ultimately show "fold (\<lambda>ty. fold (F ty) [0..<w]) [0..<h] (clear_tiles h w t) (ty' * w + tx') \<noteq> 0"
    by simp
qed

end
