(* ===== verification/Vdp.thy ===== *)
theory Vdp
  imports TMS_Prelude
begin

text \<open>
  The video display processor seen from the cartridge programs. A program only writes bytes to the
  command and data ports, so an operation is the list of its port writes. The device is not part
  of the repository: \<open>vdp_device\<close> states the documented behaviour the programs rely on (an address
  or a register is set by two command bytes, a data byte is stored and the 14-bit address advances),
  and is interpreted on a model of the TMS9918. The last section reads the screen of Graphics II mode
  from the registers and the video memory.
\<close>

section \<open>Port writes\<close>

datatype io = Cmd u8 | Data u8

definition vdp_cmd :: "u8 \<Rightarrow> io list" where
  "vdp_cmd val = [Cmd val]"

definition vdp_data :: "u8 \<Rightarrow> io list" where
  "vdp_data val = [Data val]"

definition vdp_set_register :: "u8 \<Rightarrow> u8 \<Rightarrow> io list" where
  "vdp_set_register reg val = vdp_cmd val @ vdp_cmd (reg OR 0x80)"

definition vdp_set_write_addr :: "u16 \<Rightarrow> io list" where
  "vdp_set_write_addr addr =
    vdp_cmd (ucast (addr AND 0xFF)) @ vdp_cmd (ucast ((drop_bit 8 addr AND 0x3F) OR 0x40))"

text \<open>A counted loop of port writes.\<close>

definition for_io :: "nat \<Rightarrow> (nat \<Rightarrow> io list) \<Rightarrow> io list" where
  "for_io n f = concat (map f [0..<n])"

section \<open>The device\<close>

fun run_io :: "(u8 \<Rightarrow> 'v \<Rightarrow> 'v) \<Rightarrow> (u8 \<Rightarrow> 'v \<Rightarrow> 'v) \<Rightarrow> io list \<Rightarrow> 'v \<Rightarrow> 'v" where
  "run_io cmd data [] v = v"
| "run_io cmd data (Cmd b # tr) v = run_io cmd data tr (cmd b v)"
| "run_io cmd data (Data b # tr) v = run_io cmd data tr (data b v)"

lemma run_io_append [simp]: "run_io cmd data (t @ u) v = run_io cmd data u (run_io cmd data t v)"
proof (induction t arbitrary: v)
  case (Cons e t)
  then show ?case by (cases e) simp_all
qed simp

lemma run_io_for: "run_io cmd data (for_io n f) v = fold (\<lambda>i. run_io cmd data (f i)) [0..<n] v"
proof -
  have "run_io cmd data (concat (map f is)) v = fold (\<lambda>i. run_io cmd data (f i)) is v" for "is"
    by (induction "is" arbitrary: v) simp_all
  then show ?thesis by (simp add: for_io_def)
qed

lemma addr_bytes:
  fixes a :: u16
  defines "lo \<equiv> ucast (a AND 0xFF) :: u8" and "hi \<equiv> ucast ((drop_bit 8 a AND 0x3F) OR 0x40) :: u8"
  shows "hi AND 0xC0 = 0x40" and "unat (hi AND 0x3F) * 256 + unat lo = unat a mod 2 ^ 14"
proof -
  show "hi AND 0xC0 = 0x40"
    unfolding hi_def by (rule u8_eqI) (simp_all add: bit_simps)
  have "hi AND 0x3F = ucast (drop_bit 8 a AND mask 6)"
    unfolding hi_def by (rule u8_eqI) (simp_all add: bit_simps)
  moreover have "lo = ucast (a AND mask 8)" by (simp add: lo_def mask_eq_exp_minus_1)
  moreover have "unat a mod 2 ^ 14 = (unat a div 2 ^ 8 mod 2 ^ 6) * 2 ^ 8 + unat a mod 2 ^ 8"
    using mod_mult2_eq [of "unat a" "2 ^ 8" "2 ^ 6"] by simp
  ultimately show "unat (hi AND 0x3F) * 256 + unat lo = unat a mod 2 ^ 14"
    by (simp add: unat_simps)
qed

locale vdp_device =
  fixes cmd data :: "u8 \<Rightarrow> 'v \<Rightarrow> 'v"
    and vram :: "'v \<Rightarrow> nat \<Rightarrow> u8" and addr :: "'v \<Rightarrow> nat" and reg :: "'v \<Rightarrow> nat \<Rightarrow> u8"
    and idle :: "'v \<Rightarrow> bool"
  assumes set_addr: "idle v \<Longrightarrow> hi AND 0xC0 = 0x40 \<Longrightarrow>
      idle (cmd hi (cmd lo v)) \<and> vram (cmd hi (cmd lo v)) = vram v \<and> reg (cmd hi (cmd lo v)) = reg v \<and>
      addr (cmd hi (cmd lo v)) = unat (hi AND 0x3F) * 256 + unat lo"
    and set_reg: "idle v \<Longrightarrow> hi AND 0xF8 = 0x80 \<Longrightarrow>
      idle (cmd hi (cmd lo v)) \<and> vram (cmd hi (cmd lo v)) = vram v \<and>
      reg (cmd hi (cmd lo v)) = (reg v)(unat (hi AND 7) := lo)"
    and store: "idle v \<Longrightarrow>
      idle (data b v) \<and> reg (data b v) = reg v \<and> vram (data b v) = (vram v)(addr v := b) \<and>
      addr (data b v) = (addr v + 1) mod 2 ^ 14"
begin

lemma run_set_write_addr:
  assumes "idle v"
  shows "idle (run_io cmd data (vdp_set_write_addr a) v)"
    and "vram (run_io cmd data (vdp_set_write_addr a) v) = vram v"
    and "reg (run_io cmd data (vdp_set_write_addr a) v) = reg v"
    and "addr (run_io cmd data (vdp_set_write_addr a) v) = unat a mod 2 ^ 14"
  using set_addr [OF assms addr_bytes(1), of a "ucast (a AND 0xFF)"] addr_bytes(2) [of a]
  by (simp_all add: vdp_set_write_addr_def vdp_cmd_def)

lemma run_stream:
  assumes "idle v" and "addr v + length bs \<le> 2 ^ 14"
  shows "idle (run_io cmd data (map Data bs) v) \<and> reg (run_io cmd data (map Data bs) v) = reg v \<and>
    vram (run_io cmd data (map Data bs) v) =
      (\<lambda>a. if addr v \<le> a \<and> a < addr v + length bs then bs ! (a - addr v) else vram v a)"
  using assms
proof (induction bs arbitrary: v)
  case Nil
  then show ?case by (auto simp: fun_eq_iff)
next
  case (Cons b bs)
  note w = store [OF Cons.prems(1), of b]
  show ?case
  proof (cases bs)
    case Nil
    with w show ?thesis by (auto simp: fun_eq_iff)
  next
    case (Cons c cs)
    then have "addr (data b v) = addr v + 1" using w Cons.prems by simp
    with w Cons.IH [of "data b v"] Cons.prems show ?thesis
      by (auto simp: fun_eq_iff nth_Cons' Suc_le_eq)
  qed
qed

text \<open>The effect of a block: an address and the bytes streamed from it.\<close>

lemma run_block:
  assumes "idle v" and "unat a + length bs \<le> 2 ^ 14" and "bs \<noteq> []"
  shows "idle (run_io cmd data (vdp_set_write_addr a @ map Data bs) v)"
    and "reg (run_io cmd data (vdp_set_write_addr a @ map Data bs) v) = reg v"
    and "vram (run_io cmd data (vdp_set_write_addr a @ map Data bs) v) k =
      (if unat a \<le> k \<and> k < unat a + length bs then bs ! (k - unat a) else vram v k)"
proof -
  have "unat a < 2 ^ 14" using assms(2,3) by (cases bs) auto
  then have "unat a mod 2 ^ 14 = unat a" by simp
  with run_set_write_addr [OF assms(1), of a]
    run_stream [of "run_io cmd data (vdp_set_write_addr a) v" bs] assms(2)
  show "idle (run_io cmd data (vdp_set_write_addr a @ map Data bs) v)"
    and "reg (run_io cmd data (vdp_set_write_addr a @ map Data bs) v) = reg v"
    and "vram (run_io cmd data (vdp_set_write_addr a @ map Data bs) v) k =
      (if unat a \<le> k \<and> k < unat a + length bs then bs ! (k - unat a) else vram v k)"
    by simp_all
qed

lemma run_fill:
  fixes g :: "nat \<Rightarrow> u8"
  assumes "idle v" and "unat a + n \<le> 2 ^ 14" and "0 < n"
  defines "w \<equiv> run_io cmd data (vdp_set_write_addr a @ for_io n (\<lambda>i. vdp_data (g i))) v"
  shows "idle w" and "reg w = reg v"
    and "vram w k = (if unat a \<le> k \<and> k < unat a + n then g (k - unat a) else vram v k)"
proof -
  have io: "for_io n (\<lambda>i. vdp_data (g i)) = map Data (map g [0..<n])"
    by (simp add: for_io_def vdp_data_def)
  have le: "unat a + length (map g [0..<n]) \<le> 2 ^ 14" and ne: "map g [0..<n] \<noteq> []"
    using assms(2,3) by auto
  note rb = run_block [OF assms(1) le ne]
  show "idle w" "reg w = reg v" unfolding w_def io by (rule rb)+
  show "vram w k = (if unat a \<le> k \<and> k < unat a + n then g (k - unat a) else vram v k)"
    unfolding w_def io rb(3) by auto
qed

lemma run_set_register:
  assumes "idle v" and "r AND 0xF8 = 0"
  shows "idle (run_io cmd data (vdp_set_register r b) v)"
    and "vram (run_io cmd data (vdp_set_register r b) v) = vram v"
    and "reg (run_io cmd data (vdp_set_register r b) v) = (reg v)(unat r := b)"
proof -
  have "(r OR 0x80) AND 0xF8 = (r AND 0xF8) OR 0x80" by (simp add: bit.conj_disj_distrib2)
  then have hi: "(r OR 0x80) AND 0xF8 = 0x80" using assms(2) by simp
  have "(r OR 0x80) AND 7 = (r AND 0xF8) OR (r AND 7)" using assms(2) by (simp add: bit.conj_disj_distrib2)
  also have "\<dots> = r" by (rule u8_eqI) (simp_all add: bit_simps)
  finally have "(r OR 0x80) AND 7 = r" .
  with set_reg [OF assms(1) hi, of b]
  show "idle (run_io cmd data (vdp_set_register r b) v)"
    and "vram (run_io cmd data (vdp_set_register r b) v) = vram v"
    and "reg (run_io cmd data (vdp_set_register r b) v) = (reg v)(unat r := b)"
    by (simp_all add: vdp_set_register_def vdp_cmd_def)
qed

end

section \<open>A model of the TMS9918 write interface\<close>

record tms9918 =
  latch :: "u8 option"
  pointer :: nat
  video_ram :: "nat \<Rightarrow> u8"
  registers :: "nat \<Rightarrow> u8"

definition tms9918_cmd :: "u8 \<Rightarrow> tms9918 \<Rightarrow> tms9918" where
  "tms9918_cmd b v = (case latch v of
     None \<Rightarrow> v\<lparr>latch := Some b\<rparr>
   | Some lo \<Rightarrow>
       if bit b 7 then v\<lparr>latch := None, registers := (registers v)(unat (b AND 7) := lo)\<rparr>
       else v\<lparr>latch := None, pointer := unat (b AND 0x3F) * 256 + unat lo\<rparr>)"

definition tms9918_data :: "u8 \<Rightarrow> tms9918 \<Rightarrow> tms9918" where
  "tms9918_data b v = v\<lparr>latch := None, video_ram := (video_ram v)(pointer v := b),
     pointer := (pointer v + 1) mod 2 ^ 14\<rparr>"

definition tms9918_idle :: "tms9918 \<Rightarrow> bool" where
  "tms9918_idle v \<longleftrightarrow> latch v = None"

definition power_up :: tms9918 where
  "power_up = \<lparr>latch = None, pointer = 0, video_ram = (\<lambda>_. 0), registers = (\<lambda>_. 0)\<rparr>"

lemma bit7_masks:
  fixes b :: u8
  shows "b AND 0xC0 = 0x40 \<Longrightarrow> \<not> bit b 7" and "b AND 0xF8 = 0x80 \<Longrightarrow> bit b 7"
proof -
  assume "b AND 0xC0 = 0x40"
  then have "bit (b AND 0xC0) 7 = bit (0x40 :: u8) 7" by simp
  then show "\<not> bit b 7" by (simp add: bit_and_iff)
next
  assume "b AND 0xF8 = 0x80"
  then have "bit (b AND 0xF8) 7 = bit (0x80 :: u8) 7" by simp
  then show "bit b 7" by (simp add: bit_and_iff)
qed

interpretation tms9918: vdp_device tms9918_cmd tms9918_data video_ram pointer registers tms9918_idle
  by unfold_locales
    (auto simp: tms9918_cmd_def tms9918_data_def tms9918_idle_def dest: bit7_masks)

section \<open>The Graphics II screen\<close>

text \<open>
  In Graphics II mode the name table entry of a character position selects one of 256 patterns of
  the third of the screen the position lies in; a pattern byte holds one line of eight pixels, and the
  colour byte at the same position of the colour table the two colours of that line. Registers 3 and 4
  hold the table bases in their top bit and an address mask in the lower ones.
\<close>

definition name_entry :: "(nat \<Rightarrow> u8) \<Rightarrow> (nat \<Rightarrow> u8) \<Rightarrow> nat \<Rightarrow> nat \<Rightarrow> nat" where
  "name_entry reg vram px py =
    unat (vram (unat (reg 2 AND 0x0F) * 0x400 + (py div 8) * 32 + px div 8))"

definition pattern_index :: "(nat \<Rightarrow> u8) \<Rightarrow> (nat \<Rightarrow> u8) \<Rightarrow> nat \<Rightarrow> nat \<Rightarrow> nat" where
  "pattern_index reg vram px py = (py div 64) * 256 + name_entry reg vram px py"

definition pattern_bit :: "(nat \<Rightarrow> u8) \<Rightarrow> (nat \<Rightarrow> u8) \<Rightarrow> nat \<Rightarrow> nat \<Rightarrow> bool" where
  "pattern_bit reg vram px py \<longleftrightarrow>
    bit (vram (unat (reg 4 AND 0x04) div 4 * 0x2000 +
        (pattern_index reg vram px py AND (unat (reg 4 AND 0x03) * 256 + 255)) * 8 + py mod 8))
      (7 - px mod 8)"

definition color_byte :: "(nat \<Rightarrow> u8) \<Rightarrow> (nat \<Rightarrow> u8) \<Rightarrow> nat \<Rightarrow> nat \<Rightarrow> u8" where
  "color_byte reg vram px py =
    vram (unat (reg 3 AND 0x80) div 128 * 0x2000 +
        (pattern_index reg vram px py AND (unat (reg 3 AND 0x7F) * 8 + 7)) * 8 + py mod 8)"

definition pixel_color :: "(nat \<Rightarrow> u8) \<Rightarrow> (nat \<Rightarrow> u8) \<Rightarrow> nat \<Rightarrow> nat \<Rightarrow> u8" where
  "pixel_color reg vram px py =
    (if pattern_bit reg vram px py then drop_bit 4 (color_byte reg vram px py)
     else color_byte reg vram px py AND 0x0F)"

text \<open>
  The register values all the bitmap programs choose, and the identity name table they write: then
  line \<open>py\<close> of a character row \<open>r\<close>, column \<open>c\<close> is at offset \<open>r * 256 + c * 8 + py mod 8\<close>.
\<close>

definition gfx2_setup :: "(nat \<Rightarrow> u8) \<Rightarrow> (nat \<Rightarrow> u8) \<Rightarrow> bool" where
  "gfx2_setup reg vram \<longleftrightarrow> reg 0 = 0x02 \<and> reg 2 = 0x06 \<and> reg 3 = 0xFF \<and> reg 4 = 0x03 \<and>
    (\<forall>i < 768. vram (0x1800 + i) = of_nat (i mod 256))"

lemma gfx2_offset:
  assumes "gfx2_setup reg vram" and "px < 256" and "py < 192"
  shows "pattern_index reg vram px py * 8 + py mod 8 = (py div 8) * 256 + (px div 8) * 8 + py mod 8"
    and "pattern_index reg vram px py < 768"
proof -
  let ?i = "(py div 8) * 32 + px div 8"
  have "px div 8 < 32" "py div 8 < 24" using assms(2,3) by (simp_all add: less_mult_imp_div_less)
  then have "?i < 768" by simp
  then have "vram (0x1800 + ?i) = of_nat (?i mod 256)" using assms(1) by (simp add: gfx2_setup_def)
  then have "name_entry reg vram px py = ?i mod 256"
    using assms(1) by (simp add: name_entry_def gfx2_setup_def unat_of_nat add.assoc)
  moreover have "py div 64 = ?i div 256"
    using assms(2) div_mult2_eq [of py 8 8] by simp
  ultimately have "pattern_index reg vram px py = ?i" by (simp add: pattern_index_def)
  with \<open>?i < 768\<close> show "pattern_index reg vram px py < 768"
    and "pattern_index reg vram px py * 8 + py mod 8 = (py div 8) * 256 + (px div 8) * 8 + py mod 8"
    by simp_all
qed

lemma gfx2_pixel:
  assumes "gfx2_setup reg vram" and "px < 256" and "py < 192"
  shows "pattern_bit reg vram px py \<longleftrightarrow>
      bit (vram ((py div 8) * 256 + (px div 8) * 8 + py mod 8)) (7 - px mod 8)"
    and "color_byte reg vram px py = vram (0x2000 + (py div 8) * 256 + (px div 8) * 8 + py mod 8)"
proof -
  note o = gfx2_offset [OF assms]
  have m: "pattern_index reg vram px py AND 1023 = pattern_index reg vram px py"
    using o(2) take_bit_nat_eq_self [of "pattern_index reg vram px py" 10]
    by (simp add: take_bit_eq_mask mask_eq_exp_minus_1)
  show "pattern_bit reg vram px py \<longleftrightarrow>
      bit (vram ((py div 8) * 256 + (px div 8) * 8 + py mod 8)) (7 - px mod 8)"
    using assms(1) by (simp add: pattern_bit_def gfx2_setup_def m o(1))
  show "color_byte reg vram px py = vram (0x2000 + (py div 8) * 256 + (px div 8) * 8 + py mod 8)"
    using assms(1) by (simp add: color_byte_def gfx2_setup_def m o(1) add.assoc)
qed

end
