(* ===== verification/Vdp_Gfx2.thy ===== *)
theory Vdp_Gfx2
  imports Vdp
begin

text \<open>
  The bitmap set-up that the three Life programs share, word for word: register values, the identity
  name table, the colour table, the colours and patterns of a character position, and the 16-bit shift
  register they draw random numbers from.
\<close>

section \<open>Display set-up\<close>

definition vdp_init_gfx2 :: "io list" where
  "vdp_init_gfx2 =
    vdp_set_register 0 0x02 @ vdp_set_register 1 0x80 @ vdp_set_register 2 0x06 @
    vdp_set_register 3 0xFF @ vdp_set_register 4 0x03 @ vdp_set_register 5 0x36 @
    vdp_set_register 6 0x07 @ vdp_set_register 7 0x01"

definition vdp_display_on :: "io list" where
  "vdp_display_on = vdp_set_register 1 0xE0"

definition vdp_init_name_table :: "io list" where
  "vdp_init_name_table =
    vdp_set_write_addr 0x1800 @
    for_io (24 * 32) (\<lambda>i. vdp_data (ucast ((of_nat i :: u16) AND 0xFF)))"

definition color_pair :: "u8 \<Rightarrow> u8" where
  "color_pair fg = push_bit 4 fg OR (0x01 AND 0x0F)"

definition vdp_init_color_table :: "io list" where
  "vdp_init_color_table =
    vdp_set_write_addr 0x2000 @ for_io (192 * 32) (\<lambda>i. vdp_data (color_pair 0x07))"

definition vdp_set_tile_color :: "u16 \<Rightarrow> u16 \<Rightarrow> u8 \<Rightarrow> io list" where
  "vdp_set_tile_color tile_row tile_col color =
    (let group = drop_bit 3 tile_row;
         pattern = push_bit 5 (tile_row AND 7) OR tile_col;
         addr = 0x2000 + group * 0x0800 + push_bit 3 pattern
     in vdp_set_write_addr addr @ for_io 8 (\<lambda>i. vdp_data color))"

definition vdp_clear_pattern_table :: "io list" where
  "vdp_clear_pattern_table = vdp_set_write_addr 0x0000 @ for_io 0x1800 (\<lambda>i. vdp_data 0)"

definition vdp_disable_sprites :: "io list" where
  "vdp_disable_sprites = vdp_set_write_addr 0x1B00 @ vdp_data 0xD0"

section \<open>Random numbers\<close>

definition rng_next :: "u16 \<Rightarrow> u16" where
  "rng_next state =
    (let lsb = state AND 1; state = drop_bit 1 state
     in if lsb \<noteq> 0 then state XOR 0xB400 else state)"

definition pattern_addr :: "u16 \<Rightarrow> u16 \<Rightarrow> u16" where
  "pattern_addr tile_row tile_col =
    (let group = drop_bit 3 tile_row;
         pattern_base = push_bit 5 (tile_row AND 7);
         pattern = pattern_base OR tile_col
     in 0x0000 + group * 0x0800 + push_bit 3 pattern)"

section \<open>Facts\<close>

lemma rng_next_nonzero: "r \<noteq> 0 \<Longrightarrow> rng_next r \<noteq> 0"
proof (cases "r AND 1 = 0")
  case True
  assume nz: "r \<noteq> 0"
  have "drop_bit 1 r \<noteq> 0"
  proof
    assume "drop_bit 1 r = 0"
    moreover have "bit r (1 + n) = bit (drop_bit 1 r) n" for n by (simp add: bit_drop_bit_eq)
    ultimately have "\<not> bit r (1 + n)" for n by simp
    moreover have "\<not> bit r 0" using True by (simp add: and_one_eq bit_0 even_iff_mod_2_eq_zero)
    ultimately have "\<not> bit r n" for n by (cases n) simp_all
    with nz show False by (auto intro: bit_eqI)
  qed
  with True show ?thesis by (simp add: rng_next_def)
next
  case False
  have "bit (drop_bit 1 r XOR 0xB400) 15"
    by (simp only: bit_xor_iff bit_drop_bit_eq o_apply) (auto dest: bit_imp_le_length)
  then have "drop_bit 1 r XOR 0xB400 \<noteq> 0" by auto
  with False show ?thesis by (simp add: rng_next_def)
qed

lemma tile_address:
  assumes "r < 24" and "c < 32"
  shows "unat (of_nat base + drop_bit 3 (of_nat r) * 0x0800 + push_bit 3 (push_bit 5 (of_nat r AND 7) OR of_nat c) :: u16) =
    (base + r * 256 + c * 8) mod 2 ^ 16"
proof -
  have r7: "(of_nat r AND 7 :: u16) = of_nat (r mod 8)"
  proof -
    have "(of_nat r AND 7 :: u16) = take_bit 3 (of_nat r)" by (simp add: take_bit_eq_mask mask_eq_exp_minus_1)
    also have "\<dots> = of_nat (take_bit 3 r)" by (simp add: take_bit_of_nat)
    finally show ?thesis by (simp add: take_bit_eq_mod)
  qed
  have "unat (push_bit 5 (of_nat (r mod 8)) :: u16) = (r mod 8) * 2 ^ 5"
    by (subst unat_push_bit) (simp add: unat_of_nat)
  moreover have "unat (of_nat c :: u16) = c" using assms(2) by (simp add: unat_of_nat)
  ultimately have u: "unat (push_bit 5 (of_nat (r mod 8)) OR of_nat c :: u16) = (r mod 8) * 32 + c"
    using unat_or_add [of "push_bit 5 (of_nat (r mod 8)) :: u16" "r mod 8" 5 "of_nat c"] assms(2) by simp
  have p: "push_bit 5 (of_nat (r mod 8)) OR of_nat c = (of_nat ((r mod 8) * 32 + c) :: u16)"
    using u by (rule word_eq_of_nat)
  have d: "drop_bit 3 (of_nat r) = (of_nat (r div 8) :: u16)"
    using assms(1) by (simp add: word_unat_eq_iff unat_drop_bit unat_of_nat)
  have "base + r div 8 * 2048 + ((r mod 8) * 32 + c) * 8 = base + r * 256 + c * 8"
  proof -
    have "q * 8 + m = r \<Longrightarrow> base + q * 2048 + (m * 32 + c) * 8 = base + r * 256 + c * 8" for q m
      by auto
    from this [OF div_mult_mod_eq [of r 8]] show ?thesis .
  qed
  moreover have "of_nat base + of_nat (r div 8) * 0x0800 + push_bit 3 (of_nat ((r mod 8) * 32 + c)) =
      (of_nat (base + r div 8 * 2048 + ((r mod 8) * 32 + c) * 8) :: u16)"
    by (simp add: push_bit_eq_mult algebra_simps)
  ultimately show ?thesis unfolding r7 p d by (simp only: unat_of_nat) simp
qed

context vdp_device
begin

lemma run_gfx2:
  assumes "idle v"
  shows "idle (run_io cmd data vdp_init_gfx2 v)" and "vram (run_io cmd data vdp_init_gfx2 v) = vram v"
    and "reg (run_io cmd data vdp_init_gfx2 v) =
      (reg v)(0 := 0x02, 1 := 0x80, 2 := 0x06, 3 := 0xFF, 4 := 0x03, 5 := 0x36, 6 := 0x07, 7 := 0x01)"
  using assms by (simp_all add: vdp_init_gfx2_def run_set_register)

lemma run_display_on:
  assumes "idle v"
  shows "idle (run_io cmd data vdp_display_on v)" and "vram (run_io cmd data vdp_display_on v) = vram v"
    and "reg (run_io cmd data vdp_display_on v) = (reg v)(1 := 0xE0)"
  using assms by (simp_all add: vdp_display_on_def run_set_register)

text \<open>Hiding the sprites stores one byte between the name and the colour table.\<close>

lemma run_sprites:
  assumes "idle v"
  defines "w \<equiv> run_io cmd data vdp_disable_sprites v"
  shows "idle w" and "reg w = reg v" and "vram w k = (if k = 0x1B00 then 0xD0 else vram v k)"
proof -
  have sp: "vdp_disable_sprites = vdp_set_write_addr 0x1B00 @ for_io 1 (\<lambda>i. vdp_data 0xD0)"
    by (simp add: vdp_disable_sprites_def for_io_def)
  show "idle w" "reg w = reg v" unfolding w_def sp by (rule run_fill [OF assms(1)]; simp)+
  show "vram w k = (if k = 0x1B00 then 0xD0 else vram v k)"
    unfolding w_def sp by (subst run_fill [OF assms(1)]) auto
qed

text \<open>The display after the tables are written: cleared patterns, identity names, normal colours.\<close>

lemma run_tables:
  assumes "idle v"
  defines "w \<equiv> run_io cmd data (vdp_init_gfx2 @ vdp_clear_pattern_table @ vdp_init_name_table @
    vdp_init_color_table) v"
  shows "idle w" and "gfx2_setup (reg w) (vram w)"
    and "0x2000 \<le> k \<Longrightarrow> k < 0x3800 \<Longrightarrow> vram w k = color_pair 7" and "k < 0x1800 \<Longrightarrow> vram w k = 0"
proof -
  define w1 where "w1 = run_io cmd data vdp_init_gfx2 v"
  define w2 where "w2 = run_io cmd data vdp_clear_pattern_table w1"
  define w3 where "w3 = run_io cmd data vdp_init_name_table w2"
  have w: "w = run_io cmd data vdp_init_color_table w3" by (simp add: w_def w3_def w2_def w1_def)
  have i1: "idle w1" using run_gfx2 assms by (simp add: w1_def)
  have i2: "idle w2" "reg w2 = reg w1" unfolding w2_def vdp_clear_pattern_table_def by (rule run_fill [OF i1]; simp)+
  have i3: "idle w3" "reg w3 = reg w2" unfolding w3_def vdp_init_name_table_def by (rule run_fill [OF i2(1)]; simp)+
  have v3: "vram w3 (0x1800 + i) = of_nat (i mod 256)" if "i < 768" for i
  proof -
    have "vram w3 (0x1800 + i) = ucast ((of_nat i :: u16) AND 0xFF)"
      unfolding w3_def vdp_init_name_table_def using that by (subst run_fill [OF i2(1)]) simp_all
    also have "(of_nat i :: u16) AND 0xFF = of_nat (i mod 256)"
      using that by (simp add: word_unat_eq_iff unat_of_nat unat_and_mask [of _ 8, unfolded mask_eq_exp_minus_1, simplified])
    finally show ?thesis by (simp add: unsigned_of_nat take_bit_eq_mod)
  qed
  have i4: "idle w" "reg w = reg w3" unfolding w vdp_init_color_table_def by (rule run_fill [OF i3(1)]; simp)+
  have v4: "vram w k = (if 0x2000 \<le> k \<and> k < 0x3800 then color_pair 7 else vram w3 k)" for k
    unfolding w vdp_init_color_table_def by (subst run_fill [OF i3(1)]) simp_all
  show "idle w" by (rule i4)
  show "gfx2_setup (reg w) (vram w)"
    unfolding gfx2_setup_def i4(2) i3(2) i2(2) w1_def run_gfx2(3) [OF assms(1)]
    by (simp add: v4 v3)
  show "vram w k = color_pair 7" if "0x2000 \<le> k" "k < 0x3800" using that by (simp add: v4)
  show "vram w k = 0" if "k < 0x1800"
  proof -
    have "vram w k = vram w3 k" using that by (simp add: v4)
    also have "\<dots> = vram w2 k"
      unfolding w3_def vdp_init_name_table_def using that by (subst run_fill [OF i2(1)]) simp_all
    also have "\<dots> = 0"
      unfolding w2_def vdp_clear_pattern_table_def using that by (subst run_fill [OF i1]) simp_all
    finally show ?thesis .
  qed
qed

end

end
