(* ===== verification/Life2x.thy ===== *)
theory Life2x
  imports Life_Tiles Vdp_Gfx2
begin

text \<open>
  The Game of Life cartridge \<^verbatim>\<open>cart_example/life2_2x.c\<close>: a torus of 128 by 96 cells shown at twice its
  size in Graphics II mode. Boards and tile maps are byte memories indexed by their flat offset
  (a row of a board has 16 bytes, a row of tiles 32), the global variables are a record, and an
  operation that drives the display returns its port writes. The board pointers \<open>cur\<close> and \<open>next\<close> name
  one of the two arrays. The keyboard and the frame counter are inputs of a frame.

  \<open>set_cell\<close> does not check its coordinates, and the seeding does store past the end of a board. What
  lies there is decided by the linker, so that the layout is an argument of the operations that seed: it
  says which byte of which variable is at an offset past the end of each of the two arrays.
\<close>

section \<open>Constants and data\<close>

abbreviation (input) CELL_W :: nat where "CELL_W \<equiv> 128"
abbreviation (input) CELL_H :: nat where "CELL_H \<equiv> 96"
abbreviation (input) CELL_ROW_BYTES :: nat where "CELL_ROW_BYTES \<equiv> 16"
abbreviation (input) CELL_WORDS :: nat where "CELL_WORDS \<equiv> 8"
abbreviation (input) CHAR_COLS :: nat where "CHAR_COLS \<equiv> 32"
abbreviation (input) CHAR_ROWS :: nat where "CHAR_ROWS \<equiv> 24"
abbreviation (input) SCREEN_H :: nat where "SCREEN_H \<equiv> 192"
abbreviation (input) LIFE_TILES_W :: nat where "LIFE_TILES_W \<equiv> 32"
abbreviation (input) LIFE_TILES_H :: nat where "LIFE_TILES_H \<equiv> 24"

definition cart_header :: "u8 list" where
  "cart_header =
    [0xAA, 0x01,
     0x00, 0x00,
     0x00, 0x00,
     0x60, 0x10,
     0x00, 0x00, 0x00, 0x00, 0x00, 0x00, 0x00, 0x00,
     0x00, 0x00,
     0x60, 0x24,
     12, 0x47, 0x41, 0x4D, 0x45, 0x20, 0x4F, 0x46, 0x20, 0x4C, 0x49, 0x46, 0x45,
     0x00]"

definition LIFE_REGION_X0 :: int where
  "LIFE_REGION_X0 = ((256 - int CELL_W * 2) div 2) AND NOT 15"

definition LIFE_REGION_Y0 :: int where
  "LIFE_REGION_Y0 = ((192 - int CELL_H * 2) div 2) AND NOT 7"

definition LIFE_REGION_X1 :: int where
  "LIFE_REGION_X1 = LIFE_REGION_X0 + int CELL_W * 2 - 1"

definition LIFE_REGION_Y1 :: int where
  "LIFE_REGION_Y1 = LIFE_REGION_Y0 + int CELL_H * 2 - 1"

definition LIFE_BORDER_X :: bool where
  "LIFE_BORDER_X \<longleftrightarrow> int CELL_W * 2 < (256 :: int)"

definition LIFE_BORDER_Y :: bool where
  "LIFE_BORDER_Y \<longleftrightarrow> int CELL_H * 2 < (192 :: int)"

definition LIFE_DRAW_BORDER :: bool where
  "LIFE_DRAW_BORDER \<longleftrightarrow> LIFE_BORDER_X \<or> LIFE_BORDER_Y"

definition LIFE_SEED_DROPOUT_THRESHOLD :: u8 where
  "LIFE_SEED_DROPOUT_THRESHOLD = 51"

definition bit_mask :: "u8 list" where
  "bit_mask = [0x80, 0x40, 0x20, 0x10, 0x08, 0x04, 0x02, 0x01]"

definition expand4 :: "u8 list" where
  "expand4 = [0x00, 0x03, 0x0C, 0x0F, 0x30, 0x33, 0x3C, 0x3F,
    0xC0, 0xC3, 0xCC, 0xCF, 0xF0, 0xF3, 0xFC, 0xFF]"

record life =
  rng_state :: u16
  board_a :: mem
  board_b :: mem
  cur :: board_ref
  "next" :: board_ref
  active_tiles :: mem
  live_tiles :: mem
  dirty_tiles :: mem
  dirty_prev :: mem
  debug_dirty_enabled :: u8
  debug_snapshot_pending :: u8
  debug_key_prev :: u8
  entropy :: u16
  seed_density :: u8
  frame_prev :: u8
  spare :: mem
  lost :: bool

definition board :: "board_ref \<Rightarrow> life \<Rightarrow> mem" where
  "board r s = (case r of Board_A \<Rightarrow> board_a s | Board_B \<Rightarrow> board_b s)"

definition set_board :: "board_ref \<Rightarrow> mem \<Rightarrow> life \<Rightarrow> life" where
  "set_board r b s = (case r of Board_A \<Rightarrow> s\<lparr>board_a := b\<rparr> | Board_B \<Rightarrow> s\<lparr>board_b := b\<rparr>)"

section \<open>Memory behind the boards\<close>

text \<open>
  The byte at an address: of an array, of a 16-bit variable (the first byte is the upper one), an 8-bit
  variable, one of the pointers \<open>cur\<close> and \<open>next\<close>, or memory that the program does not use (\<open>spare\<close>). The value of
  a pointer is an address, which the model does not have: after a store into one, recorded in \<open>lost\<close>, the
  model says nothing about the program.
\<close>

datatype place =
    Board_Byte board_ref nat | Active_Byte nat | Live_Byte nat | Dirty_Byte nat | Prev_Byte nat
  | Rng_Byte nat | Entropy_Byte nat | Enabled_Byte | Pending_Byte | Key_Byte | Density_Byte | Frame_Byte
  | Pointer_Byte | Spare_Byte nat

type_synonym layout = "board_ref \<Rightarrow> nat \<Rightarrow> place"

definition get_byte16 :: "u16 \<Rightarrow> nat \<Rightarrow> u8" where
  "get_byte16 w i = (if i = 0 then ucast (drop_bit 8 w) else ucast w)"

definition set_byte16 :: "u16 \<Rightarrow> nat \<Rightarrow> u8 \<Rightarrow> u16" where
  "set_byte16 w i v = (if i = 0 then push_bit 8 (ucast v) OR (w AND 0x00FF) else (w AND 0xFF00) OR ucast v)"

fun load_byte :: "place \<Rightarrow> life \<Rightarrow> u8" where
  "load_byte (Board_Byte r i) s = board r s i"
| "load_byte (Active_Byte i) s = active_tiles s i"
| "load_byte (Live_Byte i) s = live_tiles s i"
| "load_byte (Dirty_Byte i) s = dirty_tiles s i"
| "load_byte (Prev_Byte i) s = dirty_prev s i"
| "load_byte (Rng_Byte i) s = get_byte16 (rng_state s) i"
| "load_byte (Entropy_Byte i) s = get_byte16 (entropy s) i"
| "load_byte Enabled_Byte s = debug_dirty_enabled s"
| "load_byte Pending_Byte s = debug_snapshot_pending s"
| "load_byte Key_Byte s = debug_key_prev s"
| "load_byte Density_Byte s = seed_density s"
| "load_byte Frame_Byte s = frame_prev s"
| "load_byte Pointer_Byte s = 0"
| "load_byte (Spare_Byte i) s = spare s i"

fun store_byte :: "place \<Rightarrow> u8 \<Rightarrow> life \<Rightarrow> life" where
  "store_byte (Board_Byte r i) v s = set_board r ((board r s)(i := v)) s"
| "store_byte (Active_Byte i) v s = s\<lparr>active_tiles := (active_tiles s)(i := v)\<rparr>"
| "store_byte (Live_Byte i) v s = s\<lparr>live_tiles := (live_tiles s)(i := v)\<rparr>"
| "store_byte (Dirty_Byte i) v s = s\<lparr>dirty_tiles := (dirty_tiles s)(i := v)\<rparr>"
| "store_byte (Prev_Byte i) v s = s\<lparr>dirty_prev := (dirty_prev s)(i := v)\<rparr>"
| "store_byte (Rng_Byte i) v s = s\<lparr>rng_state := set_byte16 (rng_state s) i v\<rparr>"
| "store_byte (Entropy_Byte i) v s = s\<lparr>entropy := set_byte16 (entropy s) i v\<rparr>"
| "store_byte Enabled_Byte v s = s\<lparr>debug_dirty_enabled := v\<rparr>"
| "store_byte Pending_Byte v s = s\<lparr>debug_snapshot_pending := v\<rparr>"
| "store_byte Key_Byte v s = s\<lparr>debug_key_prev := v\<rparr>"
| "store_byte Density_Byte v s = s\<lparr>seed_density := v\<rparr>"
| "store_byte Frame_Byte v s = s\<lparr>frame_prev := v\<rparr>"
| "store_byte Pointer_Byte v s = s\<lparr>lost := True\<rparr>"
| "store_byte (Spare_Byte i) v s = s\<lparr>spare := (spare s)(i := v)\<rparr>"

text \<open>The place of the byte at an offset from the start of a board.\<close>

definition board_place :: "layout \<Rightarrow> board_ref \<Rightarrow> nat \<Rightarrow> place" where
  "board_place lay r off = (if off < CELL_H * CELL_ROW_BYTES then Board_Byte r off else lay r off)"

section \<open>Border colours\<close>

definition vdp_apply_border_colors :: "io list" where
  "vdp_apply_border_colors =
    (if \<not> LIFE_DRAW_BORDER then []
     else
       (let color = color_pair 0x0B;
            tile_x_left = (if LIFE_BORDER_X then word_of_int ((LIFE_REGION_X0 - 1) div 8) else 0 :: u16);
            tile_x_right = (if LIFE_BORDER_X then word_of_int ((LIFE_REGION_X1 + 1) div 8)
                            else of_nat (CHAR_COLS - 1) :: u16);
            tile_y_top = (if LIFE_BORDER_Y then word_of_int ((LIFE_REGION_Y0 - 1) div 8) else 0 :: u16);
            tile_y_bottom = (if LIFE_BORDER_Y then word_of_int ((LIFE_REGION_Y1 + 1) div 8)
                             else of_nat (CHAR_ROWS - 1) :: u16)
        in (if LIFE_BORDER_Y then
              concat (map (\<lambda>tile_x. vdp_set_tile_color tile_y_top (of_nat tile_x) color @
                                    vdp_set_tile_color tile_y_bottom (of_nat tile_x) color)
                [unat tile_x_left..<unat tile_x_right + 1])
            else []) @
           (if LIFE_BORDER_X then
              concat (map (\<lambda>tile_y. vdp_set_tile_color (of_nat tile_y) tile_x_left color @
                                    vdp_set_tile_color (of_nat tile_y) tile_x_right color)
                [unat tile_y_top..<unat tile_y_bottom + 1])
            else [])))"

section \<open>Tiles\<close>

text \<open>The part of a board byte that belongs to the tile column \<open>tx\<close>.\<close>

definition tile_nibble :: "mem \<Rightarrow> nat \<Rightarrow> nat \<Rightarrow> u8" where
  "tile_nibble b y tx =
    (let cell_x = 4 * tx; v = b (y * CELL_ROW_BYTES + cell_x div 8)
     in if cell_x AND 4 \<noteq> 0 then v AND 0x0F else drop_bit 4 v)"

definition build_active_tiles :: "mem \<Rightarrow> mem \<Rightarrow> mem" where
  "build_active_tiles src active =
    fold (\<lambda>ty. fold (\<lambda>tx active.
        (let any = fold (\<lambda>row any. any OR tile_nibble src (4 * ty + row) tx) [0..<4] 0
         in if any \<noteq> 0 then mark_neighbourhood LIFE_TILES_H LIFE_TILES_W ty tx active else active))
      [0..<LIFE_TILES_W]) [0..<LIFE_TILES_H] (clear_tiles LIFE_TILES_H LIFE_TILES_W active)"

definition build_active_from_live :: "mem \<Rightarrow> mem \<Rightarrow> mem" where
  "build_active_from_live live active =
    fold (\<lambda>ty. fold (\<lambda>tx active.
        if live (ty * LIFE_TILES_W + tx) = 0 then active else mark_neighbourhood LIFE_TILES_H LIFE_TILES_W ty tx active)
      [0..<LIFE_TILES_W]) [0..<LIFE_TILES_H] (clear_tiles LIFE_TILES_H LIFE_TILES_W active)"

section \<open>Boards\<close>

definition clear_board :: "mem \<Rightarrow> mem" where
  "clear_board b =
    fold (\<lambda>y. fold (\<lambda>x b. b(y * CELL_ROW_BYTES + x := 0)) [0..<CELL_ROW_BYTES]) [0..<CELL_H] b"

definition set_cell :: "layout \<Rightarrow> board_ref \<Rightarrow> u16 \<Rightarrow> u16 \<Rightarrow> life \<Rightarrow> life" where
  "set_cell lay b x y s =
    (let p = board_place lay b (unat y * CELL_ROW_BYTES + unat (drop_bit 3 x))
     in store_byte p (load_byte p s OR bit_mask ! unat (x AND 7)) s)"

text \<open>A call of \<open>rng_next\<close>; the number it returns is the new state.\<close>

definition next_random :: "life \<Rightarrow> life" where
  "next_random s = s\<lparr>rng_state := rng_next (rng_state s)\<rparr>"

definition seed_block :: "layout \<Rightarrow> board_ref \<Rightarrow> u16 \<Rightarrow> u16 \<Rightarrow> u8 \<Rightarrow> life \<Rightarrow> life" where
  "seed_block lay b x0 y0 dropout_threshold =
    fold (\<lambda>y. fold (\<lambda>x s.
        (let s = (if dropout_threshold \<noteq> 0 then next_random s else s)
         in if dropout_threshold \<noteq> 0 \<and> (ucast (rng_state s) :: u8) < dropout_threshold then s
            else set_cell lay b (x0 + of_nat x) (y0 + of_nat y) s))
      [0..<4]) [0..<4]"

definition seed_grid :: "layout \<Rightarrow> board_ref \<Rightarrow> u16 \<Rightarrow> u16 \<Rightarrow> u8 \<Rightarrow> life \<Rightarrow> life" where
  "seed_grid lay b x_offset y_offset density =
    fold (\<lambda>i.
      (let y_pos = of_nat (4 * i) + y_offset;
           y_pos = (if y_pos \<ge> of_nat CELL_H then y_pos - of_nat CELL_H else y_pos)
       in fold (\<lambda>j s.
            (let x_pos = of_nat (4 * j) + x_offset;
                 x_pos = (if x_pos \<ge> of_nat CELL_W then x_pos - of_nat CELL_W else x_pos);
                 s = next_random s
             in if (ucast (rng_state s) :: u8) < density
                then seed_block lay b x_pos y_pos LIFE_SEED_DROPOUT_THRESHOLD s
                else s))
          [0..<CELL_W div 4])) [0..<CELL_H div 4]"

definition seed_board :: "layout \<Rightarrow> board_ref \<Rightarrow> u8 \<Rightarrow> life \<Rightarrow> life" where
  "seed_board lay b density s =
    (let s = next_random s; x_offset = rng_state s AND 3;
         s = next_random s; y_offset = rng_state s AND 3;
         s = set_board b (clear_board (board b s)) s;
         s = seed_grid lay b x_offset y_offset density s;
         mask = NOT 3;
         s = next_random s; edge_x = (rng_state s AND of_nat (CELL_W - 1)) AND mask;
         s = next_random s; edge_y = (rng_state s AND of_nat (CELL_H - 1)) AND mask;
         s = seed_block lay b 0 edge_y LIFE_SEED_DROPOUT_THRESHOLD s;
         s = seed_block lay b (of_nat (CELL_W - 4)) edge_y LIFE_SEED_DROPOUT_THRESHOLD s;
         s = seed_block lay b edge_x 0 LIFE_SEED_DROPOUT_THRESHOLD s
     in seed_block lay b edge_x (of_nat (CELL_H - 4)) LIFE_SEED_DROPOUT_THRESHOLD s)"

section \<open>One generation\<close>

text \<open>
  The rows above, at and below \<open>y\<close> slide through the registers \<open>uC uR mC mR dC dR\<close>; a row of
  pointers is the index of its first word.
\<close>

type_synonym window = "u16 \<times> u16 \<times> u16 \<times> u16 \<times> u16 \<times> u16"

definition slide_word :: "mem \<Rightarrow> nat \<Rightarrow> nat \<Rightarrow> nat \<Rightarrow> nat \<Rightarrow> nat \<Rightarrow> window \<times> mem \<Rightarrow> window \<times> mem" where
  "slide_word src row_prev row row_next wx right = (\<lambda>((uC, uR, mC, mR, dC, dR), dst).
    (let uL = uC; uC = uR; uR = rd16 src (row_prev + right);
         mL = mC; mC = mR; mR = rd16 src (row + right);
         dL = dC; dC = dR; dR = rd16 src (row_next + right)
     in ((uC, uR, mC, mR, dC, dR),
         wr16 dst (row + wx)
          (life_next_word (left_lanes uC uL) uC (right_lanes uC uR)
             (left_lanes mC mL) mC (right_lanes mC mR)
             (left_lanes dC dL) dC (right_lanes dC dR)))))"

definition step_row :: "mem \<Rightarrow> nat \<Rightarrow> mem \<Rightarrow> mem" where
  "step_row src y dst =
    (let y_prev = (if y = 0 then CELL_H - 1 else y - 1);
         y_next = (if y + 1 = CELL_H then 0 else y + 1);
         row_prev = y_prev * CELL_WORDS; row = y * CELL_WORDS; row_next = y_next * CELL_WORDS;
         uL = rd16 src (row_prev + (CELL_WORDS - 1));
         mL = rd16 src (row + (CELL_WORDS - 1));
         dL = rd16 src (row_next + (CELL_WORDS - 1));
         uC = rd16 src (row_prev + 0); mC = rd16 src (row + 0); dC = rd16 src (row_next + 0);
         uR = rd16 src (row_prev + 1); mR = rd16 src (row + 1); dR = rd16 src (row_next + 1);
         dst = wr16 dst (row + 0)
          (life_next_word (left_lanes uC uL) uC (right_lanes uC uR)
             (left_lanes mC mL) mC (right_lanes mC mR)
             (left_lanes dC dL) dC (right_lanes dC dR));
         st = fold (\<lambda>wx. slide_word src row_prev row row_next wx (wx + 1)) [1..<CELL_WORDS - 1]
                ((uC, uR, mC, mR, dC, dR), dst)
     in snd (slide_word src row_prev row row_next (CELL_WORDS - 1) 0 st))"

definition row_or :: "mem \<Rightarrow> nat \<Rightarrow> u16" where
  "row_or tiles ty =
    fold (\<lambda>i acc. acc OR rd16 tiles (ty * (LIFE_TILES_W div 2) + i)) [0..<LIFE_TILES_W div 2] 0"

definition step_rows :: "mem \<Rightarrow> mem \<Rightarrow> mem \<Rightarrow> mem" where
  "step_rows active src dst =
    fold (\<lambda>ty dst.
        if row_or active ty = 0 then dst
        else fold (\<lambda>dy. step_row src (4 * ty + dy)) [0..<4] dst)
      [0..<LIFE_TILES_H] dst"

definition clear_tile_words :: "mem \<Rightarrow> mem" where
  "clear_tile_words t = fold (\<lambda>i t. wr16 t i 0) [0..<LIFE_TILES_H * LIFE_TILES_W div 2] t"

definition mark_nibbles :: "nat \<Rightarrow> nat \<Rightarrow> u16 \<Rightarrow> mem \<Rightarrow> mem" where
  "mark_nibbles ty tile_x acc t =
    (let t = (if acc AND 0xF000 \<noteq> 0 then t(ty * LIFE_TILES_W + tile_x := 1) else t);
         t = (if acc AND 0x0F00 \<noteq> 0 then t(ty * LIFE_TILES_W + (tile_x + 1) := 1) else t);
         t = (if acc AND 0x00F0 \<noteq> 0 then t(ty * LIFE_TILES_W + (tile_x + 2) := 1) else t)
     in if acc AND 0x000F \<noteq> 0 then t(ty * LIFE_TILES_W + (tile_x + 3) := 1) else t)"

definition live_acc :: "mem \<Rightarrow> nat \<Rightarrow> nat \<Rightarrow> u16" where
  "live_acc dst ty wx = fold (\<lambda>row acc. acc OR rd16 dst ((4 * ty + row) * CELL_WORDS + wx)) [0..<4] 0"

definition dirty_acc :: "mem \<Rightarrow> mem \<Rightarrow> nat \<Rightarrow> nat \<Rightarrow> u16" where
  "dirty_acc src dst ty wx =
    fold (\<lambda>row acc. acc OR (rd16 dst ((4 * ty + row) * CELL_WORDS + wx) XOR
                             rd16 src ((4 * ty + row) * CELL_WORDS + wx))) [0..<4] 0"

definition scan_tiles :: "mem \<Rightarrow> mem \<Rightarrow> mem \<times> mem \<Rightarrow> mem \<times> mem" where
  "scan_tiles src dst =
    fold (\<lambda>ty. fold (\<lambda>wx (live, dirty).
        (mark_nibbles ty (4 * wx) (live_acc dst ty wx) live,
         mark_nibbles ty (4 * wx) (dirty_acc src dst ty wx) dirty))
      [0..<CELL_WORDS]) [0..<LIFE_TILES_H]"

definition step_board :: "board_ref \<Rightarrow> board_ref \<Rightarrow> life \<Rightarrow> life" where
  "step_board src dst s =
    (let s = set_board dst (clear_board (board dst s)) s;
         s = s\<lparr>live_tiles := clear_tile_words (live_tiles s), dirty_tiles := clear_tile_words (dirty_tiles s)\<rparr>;
         s = set_board dst (step_rows (active_tiles s) (board src s) (board dst s)) s;
         (live, dirty) = scan_tiles (board src s) (board dst s) (live_tiles s, dirty_tiles s)
     in s\<lparr>live_tiles := live, dirty_tiles := dirty,
          active_tiles := build_active_from_live live (active_tiles s)\<rparr>)"

section \<open>Drawing\<close>

definition vdp_write_tile_scaled :: "u16 \<Rightarrow> u16 \<Rightarrow> u16 \<Rightarrow> u16 \<Rightarrow> mem \<Rightarrow> io list" where
  "vdp_write_tile_scaled ty tx tile_row_start tile_col_start b =
    vdp_set_write_addr (pattern_addr (tile_row_start + ty) (tile_col_start + tx)) @
    for_io 4 (\<lambda>row.
      (let expanded = expand4 ! unat (tile_nibble b (4 * unat ty + row) (unat tx))
       in vdp_data expanded @ vdp_data expanded))"

definition vdp_write_border_tile :: "u16 \<Rightarrow> u16 \<Rightarrow> u8 \<Rightarrow> u8 \<Rightarrow> u8 \<Rightarrow> u8 \<Rightarrow> u8 \<Rightarrow> io list" where
  "vdp_write_border_tile tile_row tile_col row_start row_end col_mask horiz_full vert_full =
    vdp_set_write_addr (pattern_addr tile_row tile_col) @
    for_io 8 (\<lambda>row.
      (let val = (if unat row_start \<le> row \<and> row \<le> unat row_end
                  then (if horiz_full \<noteq> 0 then 0xFF else col_mask) else 0x00);
           val = (if vert_full \<noteq> 0 then val OR col_mask else val)
       in vdp_data val))"

definition mark_all_dirty :: "mem \<Rightarrow> mem" where
  "mark_all_dirty t =
    fold (\<lambda>ty. fold (\<lambda>tx t. t(ty * LIFE_TILES_W + tx := 1)) [0..<LIFE_TILES_W]) [0..<LIFE_TILES_H] t"

text \<open>The sixteen bytes streamed for the two tiles of one board byte.\<close>

definition tile_pair_bytes :: "mem \<Rightarrow> nat \<Rightarrow> nat \<Rightarrow> io list" where
  "tile_pair_bytes b cell_y byte_idx =
    (let v0 = b (cell_y * CELL_ROW_BYTES + byte_idx);
         v1 = b ((cell_y + 1) * CELL_ROW_BYTES + byte_idx);
         v2 = b ((cell_y + 2) * CELL_ROW_BYTES + byte_idx);
         v3 = b ((cell_y + 3) * CELL_ROW_BYTES + byte_idx);
         twice = (\<lambda>n. vdp_data (expand4 ! unat n) @ vdp_data (expand4 ! unat n))
     in twice (drop_bit 4 v0) @ twice (drop_bit 4 v1) @ twice (drop_bit 4 v2) @ twice (drop_bit 4 v3) @
        twice (v0 AND 0x0F) @ twice (v1 AND 0x0F) @ twice (v2 AND 0x0F) @ twice (v3 AND 0x0F))"

definition vdp_write_dirty_patterns :: "mem \<Rightarrow> mem \<Rightarrow> io list" where
  "vdp_write_dirty_patterns dirty b =
    snd (fold (\<lambda>ty (vdp_addr, out).
        if row_or dirty ty = 0 then (vdp_addr + 256, out)
        else (vdp_addr + 256,
              out @ vdp_set_write_addr vdp_addr @
              for_io CELL_ROW_BYTES (\<lambda>byte_idx. tile_pair_bytes b (4 * ty) byte_idx)))
      [0..<LIFE_TILES_H] (0x0000, []))"

definition vdp_write_border_tiles :: "io list" where
  "vdp_write_border_tiles =
    (if \<not> LIFE_DRAW_BORDER then []
     else
       (let tile_row_start = word_of_int (LIFE_REGION_Y0 div 8) :: u16;
            tile_row_end = word_of_int (LIFE_REGION_Y1 div 8) :: u16;
            tile_col_start = word_of_int (LIFE_REGION_X0 div 8) :: u16;
            tile_col_end = word_of_int (LIFE_REGION_X1 div 8) :: u16;
            tile_y_top = tile_row_start - 1; tile_y_bottom = tile_row_end + 1;
            tile_x_left = tile_col_start - 1; tile_x_right = tile_col_end + 1
        in (if LIFE_BORDER_Y then
              concat (map (\<lambda>tile_x. vdp_write_border_tile tile_y_top (of_nat tile_x) 6 7 0 1 0 @
                                    vdp_write_border_tile tile_y_bottom (of_nat tile_x) 0 1 0 1 0)
                [unat tile_col_start..<unat tile_col_end + 1]) @
              (if LIFE_BORDER_X then
                 vdp_write_border_tile tile_y_top tile_x_left 6 7 0x03 0 0 @
                 vdp_write_border_tile tile_y_top tile_x_right 6 7 0xC0 0 0 @
                 vdp_write_border_tile tile_y_bottom tile_x_left 0 1 0x03 0 0 @
                 vdp_write_border_tile tile_y_bottom tile_x_right 0 1 0xC0 0 0
               else [])
            else []) @
           (if LIFE_BORDER_X then
              concat (map (\<lambda>tile_y. vdp_write_border_tile (of_nat tile_y) tile_x_left 8 7 0x03 0 1 @
                                    vdp_write_border_tile (of_nat tile_y) tile_x_right 8 7 0xC0 0 1)
                [unat tile_row_start..<unat tile_row_end + 1])
            else [])))"

section \<open>Debug colours\<close>

definition region_tile_color :: "nat \<Rightarrow> nat \<Rightarrow> u8 \<Rightarrow> io list" where
  "region_tile_color ty tx color =
    vdp_set_tile_color (word_of_int (LIFE_REGION_Y0 div 8) + of_nat ty)
      (word_of_int (LIFE_REGION_X0 div 8) + of_nat tx) color"

definition vdp_debug_dirty_update :: "mem \<Rightarrow> mem \<Rightarrow> mem \<times> io list" where
  "vdp_debug_dirty_update dirty prev =
    fold (\<lambda>ty. fold (\<lambda>tx (prev, out).
        (let i = ty * LIFE_TILES_W + tx; was_dirty = prev i; is_dirty = dirty i
         in (prev(i := is_dirty),
             out @ (if is_dirty \<noteq> 0 \<and> was_dirty = 0 then region_tile_color ty tx (color_pair 0x09)
                    else if is_dirty = 0 \<and> was_dirty \<noteq> 0 then region_tile_color ty tx (color_pair 0x07)
                    else []))))
      [0..<LIFE_TILES_W]) [0..<LIFE_TILES_H] (prev, [])"

definition vdp_debug_dirty_clear :: "mem \<Rightarrow> mem \<times> io list" where
  "vdp_debug_dirty_clear prev =
    fold (\<lambda>ty. fold (\<lambda>tx (prev, out).
        (let i = ty * LIFE_TILES_W + tx
         in if prev i \<noteq> 0 then (prev(i := 0), out @ region_tile_color ty tx (color_pair 0x07))
            else (prev, out)))
      [0..<LIFE_TILES_W]) [0..<LIFE_TILES_H] (prev, [])"

definition vdp_debug_clean_snapshot :: "life \<Rightarrow> life \<times> io list" where
  "vdp_debug_clean_snapshot s =
    (s\<lparr>debug_snapshot_pending := 1\<rparr>,
     for_io LIFE_TILES_H (\<lambda>ty. for_io LIFE_TILES_W (\<lambda>tx.
       if dirty_tiles s (ty * LIFE_TILES_W + tx) \<noteq> 0 then []
       else region_tile_color ty tx (color_pair 0x0D))))"

definition vdp_debug_clean_snapshot_clear :: "life \<Rightarrow> life \<times> io list" where
  "vdp_debug_clean_snapshot_clear s =
    (s\<lparr>debug_snapshot_pending := 0\<rparr>,
     for_io LIFE_TILES_H (\<lambda>ty. for_io LIFE_TILES_W (\<lambda>tx. region_tile_color ty tx (color_pair 0x07))))"

section \<open>The main program\<close>

definition reseed_board :: "layout \<Rightarrow> board_ref \<Rightarrow> life \<Rightarrow> life" where
  "reseed_board lay r s =
    (let s = (if entropy s \<noteq> 0 then
                (let rng = rng_state s XOR entropy s
                 in s\<lparr>rng_state := (if rng = 0 then 0x1D2B else rng)\<rparr>)
              else s);
         s = seed_board lay r (seed_density s) s;
         s = s\<lparr>active_tiles := build_active_tiles (board r s) (active_tiles s)\<rparr>
     in s\<lparr>dirty_tiles := mark_all_dirty (dirty_tiles s)\<rparr>)"

text \<open>The initial values of the globals; variables without an initialiser are zero.\<close>

definition life_globals :: life where
  "life_globals = \<lparr>rng_state = 0x1D2B, board_a = (\<lambda>_. 0), board_b = (\<lambda>_. 0), cur = Board_A, next = Board_B,
     active_tiles = (\<lambda>_. 0), live_tiles = (\<lambda>_. 0), dirty_tiles = (\<lambda>_. 0), dirty_prev = (\<lambda>_. 0),
     debug_dirty_enabled = 0, debug_snapshot_pending = 0, debug_key_prev = 0, entropy = 0,
     seed_density = 70, frame_prev = 0, spare = (\<lambda>_. 0), lost = False\<rparr>"

text \<open>\<open>main\<close> up to the loop.\<close>

definition life_init :: "layout \<Rightarrow> life \<Rightarrow> life \<times> io list" where
  "life_init lay s =
    (let s1 = seed_board lay (cur s) 70 s;
         s1 = s1\<lparr>active_tiles := build_active_tiles (board (cur s1) s1) (active_tiles s1)\<rparr>;
         s1 = s1\<lparr>dirty_tiles := mark_all_dirty (dirty_tiles s1)\<rparr>
     in (s1,
         vdp_init_gfx2 @ vdp_clear_pattern_table @ vdp_init_name_table @ vdp_init_color_table @
         (if LIFE_DRAW_BORDER then vdp_apply_border_colors else []) @ vdp_disable_sprites @
         (if LIFE_DRAW_BORDER then vdp_write_border_tiles else []) @
         vdp_write_dirty_patterns (dirty_tiles s1) (board (cur s1) s1) @ vdp_display_on))"

definition frame_entropy :: "u8 \<Rightarrow> life \<Rightarrow> life" where
  "frame_entropy frame s =
    (if frame \<noteq> frame_prev s
     then s\<lparr>entropy := entropy s XOR (push_bit 8 (ucast frame) OR ucast (frame_prev s)), frame_prev := frame\<rparr>
     else s)"

definition is_key :: "u8 \<Rightarrow> char \<Rightarrow> char \<Rightarrow> bool" where
  "is_key key c d \<longleftrightarrow> key = of_char c \<or> key = of_char d"

definition handle_key :: "layout \<Rightarrow> u8 \<Rightarrow> life \<Rightarrow> life \<times> io list" where
  "handle_key lay key s =
    (if is_key key (CHR ''D'') (CHR ''d'') then
       (let s = s\<lparr>debug_dirty_enabled := (if debug_dirty_enabled s = 0 then 1 else 0)\<rparr>
        in if debug_dirty_enabled s = 0
           then (case vdp_debug_dirty_clear (dirty_prev s) of (prev, out) \<Rightarrow> (s\<lparr>dirty_prev := prev\<rparr>, out))
           else (s, []))
     else if is_key key (CHR ''F'') (CHR ''f'') then vdp_debug_clean_snapshot s
     else if of_char (CHR ''1'') \<le> key \<and> key \<le> of_char (CHR ''9'') then
       (let add = (ucast (key - of_char (CHR ''0'')) :: u16);
            e = entropy s + add * 0x1111;
            e = e XOR (push_bit 5 e OR drop_bit 11 e)
        in (s\<lparr>entropy := e\<rparr>, []))
     else if is_key key (CHR ''Z'') (CHR ''z'') then (reseed_board lay (cur s) (s\<lparr>seed_density := 70\<rparr>), [])
     else if is_key key (CHR ''X'') (CHR ''x'') then (reseed_board lay (cur s) (s\<lparr>seed_density := 60\<rparr>), [])
     else if is_key key (CHR ''C'') (CHR ''c'') then (reseed_board lay (cur s) (s\<lparr>seed_density := 50\<rparr>), [])
     else if is_key key (CHR ''V'') (CHR ''v'') then (reseed_board lay (cur s) (s\<lparr>seed_density := 40\<rparr>), [])
     else if is_key key (CHR ''B'') (CHR ''b'') then (reseed_board lay (cur s) (s\<lparr>seed_density := 30\<rparr>), [])
     else if is_key key (CHR ''R'') (CHR ''r'') then (reseed_board lay (cur s) s, [])
     else (s, []))"

definition scan_keyboard :: "layout \<Rightarrow> u16 \<Rightarrow> life \<Rightarrow> life \<times> io list" where
  "scan_keyboard lay scan s =
    (let key = ucast scan :: u8;
         key_pressed = (key \<noteq> 0 \<and> key \<noteq> debug_key_prev s);
         s = s\<lparr>debug_key_prev := key\<rparr>
     in if key_pressed then handle_key lay key s else (s, []))"

text \<open>One iteration of the loop of \<open>main\<close>, with the frame counter and the scanned key as inputs.\<close>

definition life_frame :: "layout \<Rightarrow> u8 \<Rightarrow> u16 \<Rightarrow> life \<Rightarrow> life \<times> io list" where
  "life_frame lay frame scan s =
    (let s = s\<lparr>cur := next s, next := cur s\<rparr>;
         s = step_board (next s) (cur s) s;
         s = frame_entropy frame s;
         (s, out1) = scan_keyboard lay scan s;
         (s, out2) = (if debug_dirty_enabled s \<noteq> 0
            then (case vdp_debug_dirty_update (dirty_tiles s) (dirty_prev s) of
                    (prev, out) \<Rightarrow> (s\<lparr>dirty_prev := prev\<rparr>, out))
            else (s, []));
         (s, out3) = (if debug_snapshot_pending s \<noteq> 0 then vdp_debug_clean_snapshot_clear s else (s, []))
     in (s, out1 @ out2 @ out3 @ vdp_write_dirty_patterns (dirty_tiles s) (board (cur s) s)))"

end
