(* ===== verification/Life2x_Step.thy ===== *)
theory Life2x_Step
  imports Life2x
begin

text \<open>
  One generation of \<^verbatim>\<open>life2_2x.c\<close>: the sliding window over the rows computes the word of the torus,
  rows of inactive tiles would stay dead, and the tile maps built for the next frame are exact.
\<close>

section \<open>Clearing\<close>

lemma clear_board_byte: "clear_board b k = (if k < 1536 then 0 else b k)"
  unfolding clear_board_def by (subst grid_fill) simp_all

lemma mark_all_dirty_byte: "mark_all_dirty t k = (if k < 768 then 1 else t k)"
  unfolding mark_all_dirty_def by (subst grid_fill) simp_all

lemma clear_board_word: "k < 768 \<Longrightarrow> rd16 (clear_board b) k = 0"
  by (simp add: rd16_eq_0_iff clear_board_byte)

lemma clear_tile_words_byte: "k < 768 \<Longrightarrow> clear_tile_words t k = 0"
proof -
  assume k: "k < 768"
  have "rd16 (clear_tile_words t) (k div 2) = (if \<exists>i \<in> set [0..<24 * 32 div 2]. i = k div 2 then 0 else rd16 t (k div 2))"
    unfolding clear_tile_words_def by (rule fold_view [where view = rd16]) simp
  then have "rd16 (clear_tile_words t) (k div 2) = 0" using k by auto
  then have "clear_tile_words t (2 * (k div 2)) = 0" "clear_tile_words t (2 * (k div 2) + 1) = 0"
    by (simp_all add: rd16_eq_0_iff)
  then show ?thesis by (cases "even k") simp_all
qed

lemma row_or_zero_iff: "row_or t ty = 0 \<longleftrightarrow> (\<forall>tx < 32. t (ty * 32 + tx) = 0)"
proof -
  have "row_or t ty = 0 \<longleftrightarrow> (\<forall>i < 16. t (ty * 32 + 2 * i) = 0 \<and> t (ty * 32 + 2 * i + 1) = 0)"
    unfolding row_or_def fold_or_eq_0 rd16_eq_0_iff by (auto simp: algebra_simps)
  also have "\<dots> \<longleftrightarrow> (\<forall>tx < 32. t (ty * 32 + tx) = 0)"
  proof safe
    fix tx :: nat assume a: "\<forall>i < 16. t (ty * 32 + 2 * i) = 0 \<and> t (ty * 32 + 2 * i + 1) = 0" and "tx < 32"
    then have "tx div 2 < 16" by auto
    with a have "t (ty * 32 + 2 * (tx div 2)) = 0" "t (ty * 32 + 2 * (tx div 2) + 1) = 0" by auto
    moreover have "tx = 2 * (tx div 2) \<or> tx = 2 * (tx div 2) + 1" by linarith
    ultimately show "t (ty * 32 + tx) = 0" by (metis add.assoc)
  next
    fix i :: nat assume a: "\<forall>tx < 32. t (ty * 32 + tx) = 0" and "i < 16"
    with a [rule_format, of "2 * i"] a [rule_format, of "2 * i + 1"]
    show "t (ty * 32 + 2 * i) = 0" "t (ty * 32 + 2 * i + 1) = 0" by (simp_all add: add.assoc)
  qed
  finally show ?thesis .
qed

section \<open>The sliding window\<close>

text \<open>After the words below \<open>n\<close>, the registers hold the columns \<open>n - 1\<close> and \<open>n\<close>.\<close>

definition slide_inv :: "mem \<Rightarrow> nat \<Rightarrow> mem \<Rightarrow> nat \<Rightarrow> window \<times> mem \<Rightarrow> bool" where
  "slide_inv src y dst n = (\<lambda>((uC, uR, mC, mR, dC, dR), dst').
    (let u = (95 + y) mod 96 * 8; m = y * 8; d = (y + 1) mod 96 * 8 in
     uC = rd16 src (u + (n - 1)) \<and> uR = rd16 src (u + n mod 8) \<and>
     mC = rd16 src (m + (n - 1)) \<and> mR = rd16 src (m + n mod 8) \<and>
     dC = rd16 src (d + (n - 1)) \<and> dR = rd16 src (d + n mod 8) \<and>
     (\<forall>k. rd16 dst' k = (if y * 8 \<le> k \<and> k < y * 8 + n then torus_word 8 96 src y (k - y * 8) else rd16 dst k))))"

lemma slide_inv_step:
  assumes inv: "slide_inv src y dst n st" and n: "1 \<le> n" "n < 8" and r: "right = (n + 1) mod 8"
  shows "slide_inv src y dst (Suc n)
    (slide_word src ((95 + y) mod 96 * 8) (y * 8) ((y + 1) mod 96 * 8) n right st)"
proof -
  obtain uC uR mC mR dC dR dst' where st: "st = ((uC, uR, mC, mR, dC, dR), dst')" by (cases st) auto
  have p: "(7 + n) mod 8 = n - 1" using n by (cases n) auto
  have k: "(\<forall>k. (if y * 8 + n = k then torus_word 8 96 src y n
        else if y * 8 \<le> k \<and> k < y * 8 + n then torus_word 8 96 src y (k - y * 8) else rd16 dst k) =
      (if y * 8 \<le> k \<and> k < y * 8 + Suc n then torus_word 8 96 src y (k - y * 8) else rd16 dst k))"
    by auto
  from inv n k show ?thesis
    unfolding st slide_inv_def slide_word_def Let_def r split_conv
    by (simp add: torus_word_def torus_at_def next_lanes_def p Let_def)
qed

lemma step_row_word:
  assumes "y < 96"
  shows "rd16 (step_row src y dst) k = (if k div 8 = y then torus_word 8 96 src y (k mod 8) else rd16 dst k)"
proof -
  let ?u = "(95 + y) mod 96 * 8" and ?m = "y * 8" and ?d = "(y + 1) mod 96 * 8"
  let ?F = "\<lambda>wx. slide_word src ?u ?m ?d wx (wx + 1)"
  let ?st = "((rd16 src ?u, rd16 src (?u + 1), rd16 src ?m, rd16 src (?m + 1), rd16 src ?d, rd16 src (?d + 1)),
     wr16 dst ?m (torus_word 8 96 src y 0))"
  have init: "slide_inv src y dst 1 ?st"
    by (auto simp: slide_inv_def Let_def)
  have loop: "slide_inv src y dst (Suc n) (fold ?F [1..<Suc n] ?st)" if "n < 7" for n
    using that
  proof (induction n)
    case 0
    with init show ?case by simp
  next
    case (Suc n)
    then show ?case using slide_inv_step [of src y dst "Suc n" "fold ?F [1..<Suc n] ?st" "Suc n + 1"] by simp
  qed
  let ?fin = "slide_word src ?u ?m ?d 7 0 (fold ?F [1..<7] ?st)"
  have "slide_inv src y dst 8 ?fin"
    using slide_inv_step [OF loop [of 6], of 0] by simp
  then have "rd16 (snd ?fin) k =
      (if y * 8 \<le> k \<and> k < y * 8 + 8 then torus_word 8 96 src y (k - y * 8) else rd16 dst k)"
    by (simp add: slide_inv_def Let_def split: prod.splits)
  moreover have "step_row src y dst = snd ?fin"
    using wrap_prev [OF assms] wrap_next [OF assms]
    by (simp add: step_row_def torus_word_def torus_at_def next_lanes_def Let_def)
  moreover have "(y * 8 \<le> k \<and> k < y * 8 + 8) \<longleftrightarrow> k div 8 = y"
    using div_nat_eqI [of 8 y k] by (auto simp: algebra_simps)
  moreover have "k - y * 8 = k mod 8" if "k div 8 = y" using that by (auto simp: minus_div_mult_eq_mod)
  ultimately show ?thesis by simp
qed

section \<open>Tiles\<close>

definition tile_live :: "mem \<Rightarrow> nat \<Rightarrow> nat \<Rightarrow> bool" where
  "tile_live b ty tx \<longleftrightarrow> (\<exists>i < 4. \<exists>j < 4. cell 16 b (4 * tx + j) (4 * ty + i))"

definition tile_differs :: "mem \<Rightarrow> mem \<Rightarrow> nat \<Rightarrow> nat \<Rightarrow> bool" where
  "tile_differs b c ty tx \<longleftrightarrow>
    (\<exists>i < 4. \<exists>j < 4. cell 16 b (4 * tx + j) (4 * ty + i) \<noteq> cell 16 c (4 * tx + j) (4 * ty + i))"

text \<open>A tile with a live cell has all nine tiles around it marked.\<close>

definition active_ok :: "mem \<Rightarrow> mem \<Rightarrow> bool" where
  "active_ok active b \<longleftrightarrow> marks_around 24 32 (tile_live b) active"

section \<open>Nibbles and tiles\<close>

lemma nat_and_4: "4 * tx AND 4 \<noteq> 0 \<longleftrightarrow> odd tx" for tx :: nat
proof -
  have "4 * tx AND 4 = push_bit 2 tx AND push_bit 2 1" by (simp add: push_bit_eq_mult mult.commute)
  also have "\<dots> = push_bit 2 (tx AND 1)" by (rule push_bit_and [symmetric])
  finally show ?thesis by (simp add: and_one_eq odd_iff_mod_2_eq_one push_bit_eq_mult)
qed

lemma tile_nibble_bit:
  assumes "j < 4"
  shows "bit (tile_nibble b y tx) (3 - j) \<longleftrightarrow> cell 16 b (4 * tx + j) y"
proof -
  have d: "(4 * tx + j) div 8 = 4 * tx div 8" and m: "(4 * tx + j) mod 8 = 4 * (tx mod 2) + j"
    using assms mod_mult2_eq [of "4 * tx + j" 4 2] div_mult2_eq [of "4 * tx + j" 4 2]
      div_mult2_eq [of "4 * tx" 4 2] by simp_all
  have j: "j = 0 \<or> j = 1 \<or> j = 2 \<or> j = 3" using assms by linarith
  show ?thesis
    unfolding cell_def tile_nibble_def Let_def nat_and_4 d m
    using j by (cases "odd tx") (auto simp: bit_simps even_iff_mod_2_eq_zero odd_iff_mod_2_eq_one)
qed

lemma tile_nibble_lt: "\<not> bit (tile_nibble b y tx) (i + 4)"
proof -
  have m: "0x0F = (mask 4 :: u8)" by (simp add: mask_eq_exp_minus_1)
  show ?thesis
    unfolding tile_nibble_def Let_def m
    by (auto simp only: bit_and_iff bit_drop_bit_eq bit_mask_iff o_apply split: if_splits dest: bit_imp_le_length)
      (auto dest: bit_imp_le_length)
qed

lemma tile_nibble_eq_0_iff: "tile_nibble b y tx = 0 \<longleftrightarrow> (\<forall>j < 4. \<not> cell 16 b (4 * tx + j) y)"
proof
  assume "tile_nibble b y tx = 0"
  then show "\<forall>j < 4. \<not> cell 16 b (4 * tx + j) y" by (simp flip: tile_nibble_bit)
next
  assume a: "\<forall>j < 4. \<not> cell 16 b (4 * tx + j) y"
  show "tile_nibble b y tx = 0"
  proof (rule bit_eqI)
    fix n
    show "bit (tile_nibble b y tx) n = bit (0 :: u8) n"
    proof (cases "n < 4")
      case True
      then have "3 - (3 - n) = n" "3 - n < 4" by auto
      then have "bit (tile_nibble b y tx) n \<longleftrightarrow> cell 16 b (4 * tx + (3 - n)) y"
        using tile_nibble_bit [of "3 - n" b y tx] by (simp only:)
      moreover have "\<not> cell 16 b (4 * tx + (3 - n)) y" using a \<open>3 - n < 4\<close> by blast
      ultimately show ?thesis by (simp only: bit_0_eq bot_apply) simp
    next
      case False
      then show ?thesis using tile_nibble_lt [of b y tx "n - 4"] by simp
    qed
  qed
qed

lemma nibble_any: "fold (\<lambda>row any. any OR tile_nibble b (4 * ty + row) tx) [0..<4] 0 \<noteq> 0 \<longleftrightarrow> tile_live b ty tx"
proof -
  have "fold (\<lambda>row any. any OR tile_nibble b (4 * ty + row) tx) [0..<4] 0 = 0 \<longleftrightarrow>
      (\<forall>row \<in> set [0..<4]. tile_nibble b (4 * ty + row) tx = 0)"
    using fold_or_eq_0 [of "\<lambda>row. tile_nibble b (4 * ty + row) tx" "[0..<4]" 0] by (simp only: simp_thms)
  also have "\<dots> \<longleftrightarrow> (\<forall>row < 4. \<forall>j < 4. \<not> cell 16 b (4 * tx + j) (4 * ty + row))"
    unfolding tile_nibble_eq_0_iff by (simp only: set_upt atLeast0LessThan lessThan_iff Ball_def)
  finally show ?thesis unfolding tile_live_def by blast
qed

lemma build_active_tiles_ok: "active_ok (build_active_tiles b t) b"
  unfolding build_active_tiles_def Let_def active_ok_def by (rule marks_around_intro) (simp add: nibble_any)

section \<open>The rows\<close>

lemma step_rows_word:
  assumes k: "k < 768"
  shows "rd16 (step_rows active src dst) k =
    (if row_or active (k div 32) \<noteq> 0 then torus_word 8 96 src (k div 8) (k mod 8) else rd16 dst k)"
proof -
  let ?g = "torus_word 8 96 src (k div 8) (k mod 8)"
  have rows: "rd16 (fold (\<lambda>dy. step_row src (4 * ty + dy)) [0..<4] d) k = (if k div 32 = ty then ?g else rd16 d k)"
    if "ty < 24" for ty d
  proof -
    have "rd16 (fold (\<lambda>dy. step_row src (4 * ty + dy)) [0..<4] d) k =
        (if \<exists>dy \<in> set [0..<4]. k div 8 = 4 * ty + dy then ?g else rd16 d k)"
      by (rule fold_view [where view = rd16]) (use that in \<open>auto simp: step_row_word\<close>)
    moreover have "(\<exists>dy \<in> set [0..<4]. k div 8 = 4 * ty + dy) \<longleftrightarrow> k div 32 = ty"
    proof
      assume "\<exists>dy \<in> set [0..<4]. k div 8 = 4 * ty + dy"
      then have "k div 8 div 4 = ty" by auto
      then show "k div 32 = ty" by (simp flip: div_mult2_eq)
    next
      assume "k div 32 = ty"
      then have "k div 8 div 4 = ty" by (simp flip: div_mult2_eq)
      then have "k div 8 = 4 * ty + k div 8 mod 4" by auto
      then show "\<exists>dy \<in> set [0..<4]. k div 8 = 4 * ty + dy" by (intro bexI) auto
    qed
    ultimately show ?thesis by (simp only:)
  qed
  have "rd16 (step_rows active src dst) k =
      (if \<exists>ty \<in> set [0..<24]. k div 32 = ty \<and> row_or active ty \<noteq> 0 then ?g else rd16 dst k)"
    unfolding step_rows_def
    by (rule fold_view [where view = rd16]) (use rows in auto)
  moreover have "k div 32 < 24" using k by simp
  ultimately show ?thesis by auto
qed

lemma inactive_word:
  assumes ok: "active_ok active src" and z: "row_or active (y div 4) = 0" and y: "y < 96" and wx: "wx < 8"
  shows "torus_word 8 96 src y wx = 0"
  unfolding torus_word_def
proof (rule torus_at_eq_0 [OF wx])
  fix j :: nat assume "j < 16"
  let ?w = "\<lambda>y i. rd16 src (y * 8 + i)"
  have x: "16 * wx + j < 32 * 4" and yy: "y < 24 * 4" using \<open>j < 16\<close> wx y by auto
  have "\<not> life_step (32 * 4) (24 * 4) (lane ?w) (16 * wx + j) y"
  proof (rule quiet_cell [where act = "\<lambda>ty tx. active (ty * 32 + tx) \<noteq> 0", OF _ x yy])
    fix x' y' ty tx
    assume lt: "x' < 32 * 4" "y' < 24 * 4" and live: "lane ?w x' y'"
      and near: "ty \<in> near 24 (y' div 4)" "tx \<in> near 32 (x' div 4)"
    have "cell 16 src (4 * (x' div 4) + x' mod 4) (4 * (y' div 4) + y' mod 4)" "x' mod 4 < 4" "y' mod 4 < 4"
      using live cell_lane [of 8 src] by simp_all
    then have "tile_live src (y' div 4) (x' div 4)" unfolding tile_live_def by blast
    moreover have "y' div 4 < 24" "x' div 4 < 32" using lt by auto
    ultimately show "active (ty * 32 + tx) \<noteq> 0"
      using ok near unfolding active_ok_def marks_around_def by blast
  next
    have "(16 * wx + j) div 4 < 32" using x by simp
    with z show "\<not> active (y div 4 * 32 + (16 * wx + j) div 4) \<noteq> 0" by (simp add: row_or_zero_iff)
  qed
  then show "\<not> life_step (16 * 8) 96 (lane ?w) (16 * wx + j) y" by simp
qed

lemma step_rows_torus:
  assumes "active_ok active src" and "k < 768"
  shows "rd16 (step_rows active src (clear_board b)) k = torus_word 8 96 src (k div 8) (k mod 8)"
proof -
  have "k div 8 div 4 = k div 32" by (simp flip: div_mult2_eq)
  moreover have "k div 8 < 96" using assms(2) by auto
  ultimately show ?thesis
    using assms inactive_word [OF assms(1), of "k div 8" "k mod 8"]
    by (auto simp: step_rows_word clear_board_word)
qed

lemma step_rows_cell:
  assumes "active_ok active src" and x: "x < 128" and y: "y < 96"
  shows "cell 16 (step_rows active src (clear_board b)) x y \<longleftrightarrow> life_step 128 96 (cell 16 src) x y"
proof -
  have "x div 16 < 8" using x by simp
  then have k: "y * 8 + x div 16 < 768" "(y * 8 + x div 16) div 8 = y" "(y * 8 + x div 16) mod 8 = x div 16"
    using y by auto
  show ?thesis
    using cell_word [of 8 "step_rows active src (clear_board b)" x y] step_rows_torus [OF assms(1) k(1), of b]
      torus_word_cell [of x 8 96 src y] x k
    by simp
qed

section \<open>The tile maps\<close>

lemma and_nibble_mask: "(acc AND push_bit s 0xF \<noteq> 0) \<longleftrightarrow> (\<exists>i < 4. bit acc (s + i))" if "s \<le> 12" for acc :: u16
proof -
  have m: "(0xF :: u16) = mask 4" by (simp add: mask_eq_exp_minus_1)
  have lt: "n < 16" if "bit acc n" for n using that by (auto dest: bit_imp_le_length)
  have "acc AND push_bit s 0xF = 0 \<longleftrightarrow> (\<forall>n. \<not> (bit acc n \<and> s \<le> n \<and> n - s < 4))"
    unfolding m using that lt
    by (simp only: bit_eq_iff bit_and_iff bit_push_bit_iff bit_mask_iff) force
  also have "\<dots> \<longleftrightarrow> (\<forall>i < 4. \<not> bit acc (s + i))"
  proof safe
    fix n assume "\<forall>i < 4. \<not> bit acc (s + i)" "bit acc n" "s \<le> n" "n - s < 4"
    moreover from this have "n = s + (n - s)" by simp
    ultimately show False by metis
  next
    fix i assume "\<forall>n. \<not> (bit acc n \<and> s \<le> n \<and> n - s < 4)" "i < 4" "bit acc (s + i)"
    moreover have "s \<le> s + i" "s + i - s = i" by simp_all
    ultimately show False by metis
  qed
  finally show ?thesis by blast
qed

definition tile_lanes :: "u16 \<Rightarrow> nat \<Rightarrow> bool" where
  "tile_lanes acc j \<longleftrightarrow> (\<exists>i < 4. bit acc (12 - 4 * j + i))"

lemma mark_nibbles_byte:
  "mark_nibbles ty X acc t k = (if \<exists>j < 4. k = ty * 32 + (X + j) \<and> tile_lanes acc j then 1 else t k)"
proof -
  have masks: "(acc AND 0xF000 \<noteq> 0) \<longleftrightarrow> tile_lanes acc 0" "(acc AND 0x0F00 \<noteq> 0) \<longleftrightarrow> tile_lanes acc 1"
    "(acc AND 0x00F0 \<noteq> 0) \<longleftrightarrow> tile_lanes acc 2" "(acc AND 0x000F \<noteq> 0) \<longleftrightarrow> tile_lanes acc 3"
    using and_nibble_mask [of 12 acc] and_nibble_mask [of 8 acc] and_nibble_mask [of 4 acc]
      and_nibble_mask [of 0 acc]
    by (simp_all add: tile_lanes_def)
  have "(\<exists>j < 4. k = ty * 32 + (X + j) \<and> tile_lanes acc j) \<longleftrightarrow>
      k = ty * 32 + X \<and> tile_lanes acc 0 \<or> k = ty * 32 + (X + 1) \<and> tile_lanes acc 1 \<or>
      k = ty * 32 + (X + 2) \<and> tile_lanes acc 2 \<or> k = ty * 32 + (X + 3) \<and> tile_lanes acc 3"
    (is "?L \<longleftrightarrow> ?R")
  proof
    assume ?L
    then obtain j where "j < 4" "k = ty * 32 + (X + j)" "tile_lanes acc j" by blast
    moreover from this have "j = 0 \<or> j = 1 \<or> j = 2 \<or> j = 3" by linarith
    ultimately show ?R by auto
  next
    assume ?R
    moreover have "(0::nat) < 4" "(1::nat) < 4" "(2::nat) < 4" "(3::nat) < 4" by simp_all
    ultimately show ?L by (metis add.right_neutral)
  qed
  then show ?thesis unfolding mark_nibbles_def Let_def masks by simp
qed

lemma lane_cell:
  assumes "wx < 8" "j < 4" "i < 4"
  shows "bit (rd16 b (y * 8 + wx)) (12 - 4 * j + i) \<longleftrightarrow> cell 16 b (4 * (4 * wx + j) + (3 - i)) y"
proof -
  have "4 * (4 * wx + j) + (3 - i) = 16 * wx + (4 * j + (3 - i))" and "4 * j + (3 - i) < 16"
    using assms by auto
  then have "(4 * (4 * wx + j) + (3 - i)) div 16 = wx"
    and "15 - (4 * (4 * wx + j) + (3 - i)) mod 16 = 15 - (4 * j + (3 - i))"
    by (simp_all only: div_mult_self4 mod_mult_self4) auto
  moreover have "15 - (4 * j + (3 - i)) = 12 - 4 * j + i" using assms by auto
  ultimately show ?thesis using cell_word [of 8 b "4 * (4 * wx + j) + (3 - i)" y] by simp
qed

lemma tile_lanes_acc:
  assumes "wx < 8" "j < 4"
  shows "tile_lanes (live_acc dst ty wx) j \<longleftrightarrow> tile_live dst ty (4 * wx + j)"
    and "tile_lanes (dirty_acc src dst ty wx) j \<longleftrightarrow> tile_differs dst src ty (4 * wx + j)"
proof -
  have rev: "(\<exists>i < 4. P (3 - i)) \<longleftrightarrow> (\<exists>c < 4. P c)" for P :: "nat \<Rightarrow> bool"
  proof safe
    fix c :: nat assume "c < 4" "P c"
    then show "\<exists>i < 4. P (3 - i)" by (intro exI [of _ "3 - c"]) auto
  next
    fix i :: nat assume "i < 4" "P (3 - i)"
    then show "\<exists>c < 4. P c" by (intro exI [of _ "3 - i"]) auto
  qed
  have "tile_lanes (live_acc dst ty wx) j \<longleftrightarrow>
      (\<exists>i < 4. \<exists>row < 4. cell 16 dst (4 * (4 * wx + j) + (3 - i)) (4 * ty + row))"
    unfolding tile_lanes_def live_acc_def bit_fold_or
    by (simp only: bit_0_eq bot_apply bot_bool_def simp_thms set_upt atLeast0LessThan lessThan_iff Bex_def
        lane_cell [OF assms] cong: conj_cong)
  also have "\<dots> \<longleftrightarrow> (\<exists>c < 4. \<exists>row < 4. cell 16 dst (4 * (4 * wx + j) + c) (4 * ty + row))"
    by (rule rev)
  finally show "tile_lanes (live_acc dst ty wx) j \<longleftrightarrow> tile_live dst ty (4 * wx + j)"
    unfolding tile_live_def by blast
  have "tile_lanes (dirty_acc src dst ty wx) j \<longleftrightarrow>
      (\<exists>i < 4. \<exists>row < 4. cell 16 dst (4 * (4 * wx + j) + (3 - i)) (4 * ty + row) \<noteq>
                         cell 16 src (4 * (4 * wx + j) + (3 - i)) (4 * ty + row))"
    unfolding tile_lanes_def dirty_acc_def bit_fold_or bit_xor_iff
    by (simp only: bit_0_eq bot_apply bot_bool_def simp_thms set_upt atLeast0LessThan lessThan_iff Bex_def
        lane_cell [OF assms] cong: conj_cong)
  also have "\<dots> \<longleftrightarrow> (\<exists>c < 4. \<exists>row < 4. cell 16 dst (4 * (4 * wx + j) + c) (4 * ty + row) \<noteq>
                         cell 16 src (4 * (4 * wx + j) + c) (4 * ty + row))"
    by (rule rev)
  finally show "tile_lanes (dirty_acc src dst ty wx) j \<longleftrightarrow> tile_differs dst src ty (4 * wx + j)"
    unfolding tile_differs_def by blast
qed

lemma tile_split: "(\<exists>ty' \<in> set [0..<24]. \<exists>wx \<in> set [0..<8]. \<exists>j < 4.
    ty * 32 + tx = ty' * 32 + (4 * wx + j) \<and> P ty' (4 * wx + j)) \<longleftrightarrow> P ty tx"
  if "ty < 24" "tx < 32" for ty tx :: nat
proof
  assume "\<exists>ty' \<in> set [0..<24]. \<exists>wx \<in> set [0..<8]. \<exists>j < 4.
    ty * 32 + tx = ty' * 32 + (4 * wx + j) \<and> P ty' (4 * wx + j)"
  then obtain ty' wx j where w: "wx < 8" "j < 4" and e: "ty * 32 + tx = ty' * 32 + (4 * wx + j)"
    and P: "P ty' (4 * wx + j)" by auto
  have "4 * wx + j < 32" using w by simp
  then have "ty' = ty" using e that by linarith
  then have "4 * wx + j = tx" using e by simp
  with P \<open>ty' = ty\<close> show "P ty tx" by simp
next
  assume "P ty tx"
  moreover have "4 * (tx div 4) + tx mod 4 = tx" "tx div 4 < 8" "tx mod 4 < 4" using that by auto
  moreover from calculation have "ty * 32 + tx = ty * 32 + (4 * (tx div 4) + tx mod 4) \<and>
      P ty (4 * (tx div 4) + tx mod 4)" by (simp only:)
  ultimately show "\<exists>ty' \<in> set [0..<24]. \<exists>wx \<in> set [0..<8]. \<exists>j < 4.
      ty * 32 + tx = ty' * 32 + (4 * wx + j) \<and> P ty' (4 * wx + j)"
    using that(1) by (intro bexI [where x = ty] bexI [where x = "tx div 4"] exI [where x = "tx mod 4"] conjI)
      simp_all
qed

lemma scan_tiles_byte:
  assumes "ty < 24" and "tx < 32"
  shows "fst (scan_tiles src dst (live, dirty)) (ty * 32 + tx) =
      (if tile_live dst ty tx then 1 else live (ty * 32 + tx))"
    and "snd (scan_tiles src dst (live, dirty)) (ty * 32 + tx) =
      (if tile_differs dst src ty tx then 1 else dirty (ty * 32 + tx))"
proof -
  let ?k = "ty * 32 + tx"
  have "fst (scan_tiles src dst (live, dirty)) ?k =
      (if \<exists>ty' \<in> set [0..<24]. \<exists>wx \<in> set [0..<8]. \<exists>j < 4. ?k = ty' * 32 + (4 * wx + j) \<and>
         tile_live dst ty' (4 * wx + j) then 1 else fst (live, dirty) ?k)"
    unfolding scan_tiles_def
    by (rule fold_view [where view = fst], rule fold_view [where view = fst])
      (auto simp: mark_nibbles_byte tile_lanes_acc split: prod.splits cong: conj_cong)
  then show "fst (scan_tiles src dst (live, dirty)) ?k = (if tile_live dst ty tx then 1 else live ?k)"
    unfolding tile_split [OF assms] by simp
  have "snd (scan_tiles src dst (live, dirty)) ?k =
      (if \<exists>ty' \<in> set [0..<24]. \<exists>wx \<in> set [0..<8]. \<exists>j < 4. ?k = ty' * 32 + (4 * wx + j) \<and>
         tile_differs dst src ty' (4 * wx + j) then 1 else snd (live, dirty) ?k)"
    unfolding scan_tiles_def
    by (rule fold_view [where view = snd], rule fold_view [where view = snd])
      (auto simp: mark_nibbles_byte tile_lanes_acc split: prod.splits cong: conj_cong)
  then show "snd (scan_tiles src dst (live, dirty)) ?k = (if tile_differs dst src ty tx then 1 else dirty ?k)"
    unfolding tile_split [OF assms] by simp
qed

section \<open>One generation\<close>

lemma build_active_from_live_ok:
  assumes "\<And>ty tx. ty < 24 \<Longrightarrow> tx < 32 \<Longrightarrow> live (ty * 32 + tx) \<noteq> 0 \<longleftrightarrow> tile_live b ty tx"
  shows "active_ok (build_active_from_live live t) b"
  unfolding build_active_from_live_def active_ok_def by (rule marks_around_intro) (use assms in auto)

lemma board_set_board [simp]: "board r (set_board r' b s) = (if r = r' then b else board r s)"
  by (cases r; cases r') (simp_all add: board_def set_board_def)

lemma set_board_fields [simp]:
  "rng_state (set_board r b s) = rng_state s" "cur (set_board r b s) = cur s"
  "next (set_board r b s) = next s" "active_tiles (set_board r b s) = active_tiles s"
  "live_tiles (set_board r b s) = live_tiles s" "dirty_tiles (set_board r b s) = dirty_tiles s"
  "dirty_prev (set_board r b s) = dirty_prev s" "debug_dirty_enabled (set_board r b s) = debug_dirty_enabled s"
  "debug_snapshot_pending (set_board r b s) = debug_snapshot_pending s" "entropy (set_board r b s) = entropy s"
  "debug_key_prev (set_board r b s) = debug_key_prev s" "seed_density (set_board r b s) = seed_density s"
  "frame_prev (set_board r b s) = frame_prev s" "spare (set_board r b s) = spare s"
  "lost (set_board r b s) = lost s"
  by (cases r; simp add: set_board_def)+

lemma board_updates [simp]:
  "board r (s\<lparr>live_tiles := v\<rparr>) = board r s" "board r (s\<lparr>dirty_tiles := v\<rparr>) = board r s"
  "board r (s\<lparr>active_tiles := v\<rparr>) = board r s" "board r (s\<lparr>rng_state := w\<rparr>) = board r s"
  "board r (s\<lparr>spare := v\<rparr>) = board r s" "board r (s\<lparr>lost := l\<rparr>) = board r s" "board r (s\<lparr>dirty_prev := v\<rparr>) = board r s"
  "board r (s\<lparr>entropy := w\<rparr>) = board r s" "board r (s\<lparr>seed_density := c\<rparr>) = board r s"
  "board r (s\<lparr>debug_dirty_enabled := c\<rparr>) = board r s" "board r (s\<lparr>debug_snapshot_pending := c\<rparr>) = board r s"
  "board r (s\<lparr>debug_key_prev := c\<rparr>) = board r s" "board r (s\<lparr>frame_prev := c\<rparr>) = board r s"
  "board r (s\<lparr>cur := p\<rparr>) = board r s" "board r (s\<lparr>next := p\<rparr>) = board r s"
  by (cases r; simp add: board_def)+

text \<open>The values of the globals after a generation, in terms of the values before.\<close>

lemma step_board_values:
  fixes src dst s
  assumes "src \<noteq> dst"
  defines "s' \<equiv> step_board src dst s" and "b \<equiv> step_rows (active_tiles s) (board src s) (clear_board (board dst s))"
  shows "board dst s' = b" and "board src s' = board src s"
    and "live_tiles s' = fst (scan_tiles (board src s) b (clear_tile_words (live_tiles s), clear_tile_words (dirty_tiles s)))"
    and "dirty_tiles s' = snd (scan_tiles (board src s) b (clear_tile_words (live_tiles s), clear_tile_words (dirty_tiles s)))"
    and "active_tiles s' = build_active_from_live (live_tiles s') (active_tiles s)"
    and "rng_state s' = rng_state s" and "cur s' = cur s" and "next s' = next s"
    and "dirty_prev s' = dirty_prev s" and "debug_dirty_enabled s' = debug_dirty_enabled s"
    and "debug_snapshot_pending s' = debug_snapshot_pending s" and "entropy s' = entropy s"
    and "lost s' = lost s" and "debug_key_prev s' = debug_key_prev s" and "frame_prev s' = frame_prev s"
    and "seed_density s' = seed_density s"
  using assms(1) by (simp_all add: s'_def b_def step_board_def Let_def split_beta)

lemma step_board_tiles:
  assumes "src \<noteq> dst" and "ty < 24" and "tx < 32"
  shows "live_tiles (step_board src dst s) (ty * 32 + tx) =
      of_bool (tile_live (board dst (step_board src dst s)) ty tx)"
    and "dirty_tiles (step_board src dst s) (ty * 32 + tx) =
      of_bool (tile_differs (board dst (step_board src dst s)) (board src s) ty tx)"
  using assms(2,3) by (simp_all add: step_board_values [OF assms(1)] scan_tiles_byte clear_tile_words_byte)

lemma step_board_cells:
  assumes "src \<noteq> dst" and "active_ok (active_tiles s) (board src s)" and "x < 128" and "y < 96"
  shows "cell 16 (board dst (step_board src dst s)) x y \<longleftrightarrow> life_step 128 96 (cell 16 (board src s)) x y"
  using assms(2-) by (simp add: step_board_values [OF assms(1)] step_rows_cell)

lemma step_board_active:
  assumes "src \<noteq> dst"
  shows "active_ok (active_tiles (step_board src dst s)) (board dst (step_board src dst s))"
  unfolding step_board_values(5) [OF assms]
  by (rule build_active_from_live_ok) (simp add: step_board_tiles [OF assms])

text \<open>
  \<open>step_board\<close> between two different boards, with every tile around a live cell of the source marked
  active, writes the next generation of the whole torus although it skips the rows of tiles that are not
  active; it leaves the source alone, its live and dirty maps are exact, and the active map it builds
  is right for the next frame.
\<close>

theorem step_board_correct:
  assumes ne: "src \<noteq> dst" and ok: "active_ok (active_tiles s) (board src s)" and x: "x < 128" and y: "y < 96"
    and ty: "ty < 24" and tx: "tx < 32"
  shows "(cell 16 (board dst (step_board src dst s)) x y \<longleftrightarrow> life_step 128 96 (cell 16 (board src s)) x y) \<and>
    board src (step_board src dst s) = board src s \<and>
    live_tiles (step_board src dst s) (ty * 32 + tx) =
      of_bool (tile_live (board dst (step_board src dst s)) ty tx) \<and>
    dirty_tiles (step_board src dst s) (ty * 32 + tx) =
      of_bool (tile_differs (board dst (step_board src dst s)) (board src s) ty tx) \<and>
    active_ok (active_tiles (step_board src dst s)) (board dst (step_board src dst s))"
  by (intro conjI step_board_cells [OF ne ok x y] step_board_values(2) [OF ne]
      step_board_tiles [OF ne ty tx] step_board_active [OF ne])

theorem step_board_correct_witness:
  "cell 16 (board Board_B (step_board Board_A Board_B life_globals)) 3 4 =
     life_step 128 96 (cell 16 (board Board_A life_globals)) 3 4"
proof -
  have "active_ok (active_tiles life_globals) (board Board_A life_globals)"
    by (simp add: active_ok_def marks_around_def tile_live_def cell_def life_globals_def board_def)
  from step_board_correct [OF _ this, of Board_B 3 4 0 0] show ?thesis by simp
qed

end
