(* ===== verification/Life2x_Draw.thy ===== *)
theory Life2x_Draw
  imports Life2x_Step
begin

text \<open>
  What \<^verbatim>\<open>life2_2x.c\<close> puts on the screen. The drawing and colouring operations are blocks of bytes at
  known addresses of the video memory; on a device that satisfies \<open>vdp_device\<close>, drawing the dirty rows
  brings the pattern table up to date with the board, cell by cell as blocks of two by two pixels.
\<close>

section \<open>Streams of bytes\<close>

lemma length_concat_uniform:
  "(\<And>i. i < n \<Longrightarrow> length (f i) = l) \<Longrightarrow> length (concat (map f [0..<n])) = n * l"
  by (induction n) simp_all

lemma nth_concat_uniform:
  assumes "\<And>i. i < n \<Longrightarrow> length (f i) = l" and "k < n * l"
  shows "concat (map f [0..<n]) ! k = f (k div l) ! (k mod l)"
  using assms
proof (induction n)
  case (Suc n)
  have len: "length (concat (map f [0..<n])) = n * l"
    by (rule length_concat_uniform) (use Suc.prems in simp)
  show ?case
  proof (cases "k < n * l")
    case True
    with Suc len show ?thesis by (simp add: nth_append)
  next
    case False
    with Suc.prems have d: "k div l = n" by (auto intro: div_nat_eqI simp: algebra_simps)
    then have "k mod l = k - n * l" by (simp add: modulo_nat_def)
    with d False len show ?thesis by (simp add: nth_append)
  qed
qed simp

lemma for_io_data: "(\<And>i. i < n \<Longrightarrow> f i = map Data (g i)) \<Longrightarrow> for_io n f = map Data (concat (map g [0..<n]))"
  unfolding for_io_def by (induction n) simp_all

text \<open>A row of patterns: eight bytes per tile, every second one a repetition.\<close>

definition pair_list :: "mem \<Rightarrow> nat \<Rightarrow> nat \<Rightarrow> u8 list" where
  "pair_list b ty idx =
    concat (map (\<lambda>tx. concat (map (\<lambda>i. replicate 2 (expand4 ! unat (tile_nibble b (4 * ty + i) tx))) [0..<4]))
      [2 * idx, 2 * idx + 1])"

lemma replicate_2: "replicate 2 x = [x, x]"
  by (simp add: numeral_2_eq_2)

lemma tile_pair_bytes_eq: "tile_pair_bytes b (4 * ty) idx = map Data (pair_list b ty idx)"
proof -
  have e: "\<not> 4 * (2 * idx) AND 4 \<noteq> 0" and o: "4 * (2 * idx + 1) AND 4 \<noteq> 0"
    by (simp_all only: nat_and_4) simp_all
  have d: "4 * (2 * idx) div 8 = idx" "4 * (2 * idx + 1) div 8 = idx" by simp_all
  have up: "[0..<4] = [0, 1, 2, 3::nat]" by (simp add: upt_rec)
  show ?thesis
    unfolding pair_list_def tile_pair_bytes_def tile_nibble_def Let_def d vdp_data_def
    using e o by (simp add: up replicate_2)
qed

definition row_bytes :: "mem \<Rightarrow> nat \<Rightarrow> u8 list" where
  "row_bytes b ty = concat (map (pair_list b ty) [0..<16])"

lemma length_pair_list [simp]: "length (pair_list b ty idx) = 16"
  by (simp add: pair_list_def upt_rec)

lemma length_row_bytes [simp]: "length (row_bytes b ty) = 256"
  unfolding row_bytes_def by (subst length_concat_uniform [where l = 16]) simp_all

lemma pair_list_nth:
  assumes "k < 16"
  shows "pair_list b ty idx ! k =
    expand4 ! unat (tile_nibble b (4 * ty + k mod 8 div 2) (2 * idx + k div 8))"
proof -
  have up: "[0..<4] = [0, 1, 2, 3::nat]" by (simp add: upt_rec)
  have "k = 0 \<or> k = 1 \<or> k = 2 \<or> k = 3 \<or> k = 4 \<or> k = 5 \<or> k = 6 \<or> k = 7 \<or> k = 8 \<or> k = 9 \<or> k = 10 \<or>
      k = 11 \<or> k = 12 \<or> k = 13 \<or> k = 14 \<or> k = 15"
    using assms by presburger
  then show ?thesis
    unfolding pair_list_def up by (elim disjE) (simp_all add: replicate_2)
qed

lemma row_bytes_nth:
  assumes "tx < 32" and "i < 8"
  shows "row_bytes b ty ! (tx * 8 + i) = expand4 ! unat (tile_nibble b (4 * ty + i div 2) tx)"
proof -
  let ?k = "tx * 8 + i"
  have "?k < 16 * 16" using assms by simp
  then have "row_bytes b ty ! ?k = pair_list b ty (?k div 16) ! (?k mod 16)"
    unfolding row_bytes_def by (intro nth_concat_uniform) simp_all
  moreover have "?k mod 16 = 8 * (tx mod 2) + i" "?k div 16 = tx div 2"
    using assms mod_mult2_eq [of ?k 8 2] div_mult2_eq [of ?k 8 2] by simp_all
  ultimately show ?thesis
    using assms(2) by (simp add: pair_list_nth)
qed

lemma write_dirty_patterns_eq:
  "vdp_write_dirty_patterns dirty b =
    for_io 24 (\<lambda>ty. if row_or dirty ty = 0 then []
      else vdp_set_write_addr (of_nat (256 * ty)) @ map Data (row_bytes b ty))"
proof -
  let ?B = "\<lambda>ty. if row_or dirty ty = 0 then []
      else vdp_set_write_addr (of_nat (256 * ty)) @ map Data (row_bytes b ty)"
  let ?F = "\<lambda>ty (vdp_addr, out). if row_or dirty ty = 0 then (vdp_addr + 256, out)
        else (vdp_addr + 256, out @ vdp_set_write_addr vdp_addr @
              for_io 16 (\<lambda>byte_idx. tile_pair_bytes b (4 * ty) byte_idx))"
  have row: "for_io 16 (\<lambda>byte_idx. tile_pair_bytes b (4 * ty) byte_idx) = map Data (row_bytes b ty)" for ty
    unfolding row_bytes_def by (rule for_io_data) (simp add: tile_pair_bytes_eq)
  have "fold ?F [0..<n] (0, []) = (of_nat (256 * n), concat (map ?B [0..<n]))" for n
    by (induction n) (simp_all add: row distrib_left add.commute)
  then show ?thesis by (simp add: vdp_write_dirty_patterns_def for_io_def)
qed

section \<open>Colours of a tile\<close>

lemma region_tile_color_eq:
  assumes "ty < 24" and "tx < 32"
  shows "region_tile_color ty tx color =
    vdp_set_write_addr (of_nat (0x2000 + ty * 256 + tx * 8)) @ map Data (replicate 8 color)"
proof -
  have a: "0x2000 + drop_bit 3 (of_nat ty) * 0x0800 + push_bit 3 (push_bit 5 (of_nat ty AND 7) OR of_nat tx) =
      (of_nat (0x2000 + ty * 256 + tx * 8) :: u16)"
    using tile_address [OF assms, of "0x2000"] assms by (intro word_eq_of_nat) simp
  have "for_io 8 (\<lambda>i. vdp_data color) = map Data (replicate 8 color)"
    by (simp add: for_io_def vdp_data_def upt_rec numeral_eq_Suc)
  moreover have "word_of_int (LIFE_REGION_Y0 div 8) + of_nat ty = (of_nat ty :: u16)"
    "word_of_int (LIFE_REGION_X0 div 8) + of_nat tx = (of_nat tx :: u16)"
    by (simp_all add: LIFE_REGION_Y0_def LIFE_REGION_X0_def)
  ultimately show ?thesis
    by (simp only: region_tile_color_def vdp_set_tile_color_def Let_def a)
qed

section \<open>The video memory\<close>

text \<open>The pattern table shows the board.\<close>

definition shows_board :: "(nat \<Rightarrow> u8) \<Rightarrow> mem \<Rightarrow> bool" where
  "shows_board vram b \<longleftrightarrow>
    (\<forall>ty < 24. \<forall>tx < 32. \<forall>i < 8.
      vram (ty * 256 + tx * 8 + i) = expand4 ! unat (tile_nibble b (4 * ty + i div 2) tx))"

text \<open>A tile has the normal colours, or the dirty ones and then \<open>dirty_prev\<close> remembers it.\<close>

definition tile_colored :: "(nat \<Rightarrow> u8) \<Rightarrow> nat \<Rightarrow> nat \<Rightarrow> u8 \<Rightarrow> bool" where
  "tile_colored vram ty tx c \<longleftrightarrow> (\<forall>i < 8. vram (0x2000 + ty * 256 + tx * 8 + i) = c)"

definition colors_ok :: "(nat \<Rightarrow> u8) \<Rightarrow> mem \<Rightarrow> bool" where
  "colors_ok vram prev \<longleftrightarrow>
    (\<forall>ty < 24. \<forall>tx < 32. tile_colored vram ty tx (color_pair 0x07) \<or>
      prev (ty * 32 + tx) \<noteq> 0 \<and> tile_colored vram ty tx (color_pair 0x09))"

lemma tile_nibble_eqI:
  assumes "\<And>j. j < 4 \<Longrightarrow> cell 16 b (4 * tx + j) y = cell 16 c (4 * tx + j) y"
  shows "tile_nibble b y tx = tile_nibble c y tx"
proof (rule bit_eqI)
  fix n
  show "bit (tile_nibble b y tx) n = bit (tile_nibble c y tx) n"
  proof (cases "n < 4")
    case True
    then have e: "3 - (3 - n) = n" and lt: "3 - n < 4" by auto
    show ?thesis
      using tile_nibble_bit [OF lt, of b y tx] tile_nibble_bit [OF lt, of c y tx] assms [OF lt] unfolding e
      by simp
  next
    case False
    then show ?thesis using tile_nibble_lt [of _ y tx "n - 4"] by simp
  qed
qed

lemma not_tile_differs:
  "\<not> tile_differs b c ty tx \<Longrightarrow> i < 4 \<Longrightarrow> tile_nibble b (4 * ty + i) tx = tile_nibble c (4 * ty + i) tx"
  by (rule tile_nibble_eqI) (auto simp: tile_differs_def)

lemma dirty_clear_prev: "k < 768 \<Longrightarrow> fst (vdp_debug_dirty_clear prev) k = 0"
proof -
  assume "k < 768"
  have "fst (vdp_debug_dirty_clear prev) k =
      (if \<exists>ty \<in> set [0..<24]. \<exists>tx \<in> set [0..<32]. k = ty * 32 + tx then 0 else fst (prev, [] :: io list) k)"
    unfolding vdp_debug_dirty_clear_def
    by (rule fold_view [where view = fst], rule fold_view [where view = fst])
      (auto simp: Let_def split: prod.splits)
  with \<open>k < 768\<close> show ?thesis using grid_index [of 32 24 k] by simp
qed

context vdp_device
begin

text \<open>Operations that only touch the colour table.\<close>

definition recolors :: "'v \<Rightarrow> 'v \<Rightarrow> bool" where
  "recolors v w \<longleftrightarrow> idle w \<and> reg w = reg v \<and> (\<forall>k. \<not> (0x2000 \<le> k \<and> k < 0x3800) \<longrightarrow> vram w k = vram v k)"

lemma recolors_refl: "idle v \<Longrightarrow> recolors v v"
  by (simp add: recolors_def)

lemma recolors_trans: "recolors u v \<Longrightarrow> recolors v w \<Longrightarrow> recolors u w"
  by (simp add: recolors_def)

lemma recolors_idle: "recolors v w \<Longrightarrow> idle w"
  by (simp add: recolors_def)

lemma run_tile_color:
  assumes "idle v" and lt: "ty < 24" "tx < 32"
  shows "recolors v (run_io cmd data (region_tile_color ty tx c) v)"
    and "vram (run_io cmd data (region_tile_color ty tx c) v) k =
      (if 0x2000 + ty * 256 + tx * 8 \<le> k \<and> k < 0x2000 + ty * 256 + tx * 8 + 8 then c else vram v k)"
proof -
  let ?a = "0x2000 + ty * 256 + tx * 8"
  have u: "unat (of_nat ?a :: u16) = ?a" using lt by (simp only: unat_of_nat) simp
  have le: "unat (of_nat ?a :: u16) + length (replicate 8 c) \<le> 2 ^ 14" using lt unfolding u by simp
  have ne: "replicate 8 c \<noteq> []" by simp
  note rb = run_block [OF assms(1) le ne, folded region_tile_color_eq [OF lt]]
  show v: "vram (run_io cmd data (region_tile_color ty tx c) v) k =
      (if ?a \<le> k \<and> k < ?a + 8 then c else vram v k)" for k
    using rb(3) [of k] unfolding u by auto
  show "recolors v (run_io cmd data (region_tile_color ty tx c) v)"
    unfolding recolors_def using rb(1,2) v lt by auto
qed

lemma run_tile_colored:
  assumes "idle v" and "ty < 24" "tx < 32" and "ty' < 24" "tx' < 32"
  shows "tile_colored (vram (run_io cmd data (region_tile_color ty tx c) v)) ty' tx' d \<longleftrightarrow>
    (if ty' = ty \<and> tx' = tx then c = d else tile_colored (vram v) ty' tx' d)"
proof (cases "ty' = ty \<and> tx' = tx")
  case True
  moreover have "\<exists>i::nat. i < 8" by (rule exI [of _ 0]) simp
  ultimately show ?thesis unfolding tile_colored_def run_tile_color(2) [OF assms(1-3)] by auto
next
  case False
  then have "ty' * 32 + tx' \<noteq> ty * 32 + tx" using grid_inj [of tx' 32 tx ty' ty] assms by simp
  then have "\<not> (0x2000 + ty * 256 + tx * 8 \<le> 0x2000 + ty' * 256 + tx' * 8 + i \<and>
      0x2000 + ty' * 256 + tx' * 8 + i < 0x2000 + ty * 256 + tx * 8 + 8)" if "i < 8" for i
    using that by linarith
  then have "vram (run_io cmd data (region_tile_color ty tx c) v) (0x2000 + ty' * 256 + tx' * 8 + i) =
      vram v (0x2000 + ty' * 256 + tx' * 8 + i)" if "i < 8" for i
    using that unfolding run_tile_color(2) [OF assms(1-3)] by (metis (full_types))
  with False show ?thesis unfolding tile_colored_def by auto
qed

lemma run_recolor_grid:
  assumes "idle v"
  shows "recolors v (run_io cmd data (for_io 24 (\<lambda>ty. for_io 32 (\<lambda>tx.
    if sel ty tx then [] else region_tile_color ty tx c))) v)"
  unfolding run_io_for
  by (rule fold_inv [where P = "recolors v"], rule fold_inv [where P = "recolors v"])
    (auto simp: recolors_refl [OF assms] intro: recolors_trans run_tile_color(1) dest: recolors_idle)

lemma run_recolor_all:
  assumes "idle v" and lt: "ty' < 24" "tx' < 32"
  shows "tile_colored (vram (run_io cmd data (for_io 24 (\<lambda>ty. for_io 32 (\<lambda>tx.
    region_tile_color ty tx c))) v)) ty' tx' c"
proof -
  let ?view = "\<lambda>w (_ :: unit). tile_colored (vram w) ty' tx' c"
  have tile: "recolors v (run_io cmd data (region_tile_color ty tx c) w) \<and>
      ?view (run_io cmd data (region_tile_color ty tx c) w) () = (if ty' = ty \<and> tx' = tx then True else ?view w ())"
    if "ty \<in> set [0..<24]" "tx \<in> set [0..<32]" "recolors v w" for ty tx w
    using that lt run_tile_color(1) [of w ty tx c] run_tile_colored [of w ty tx ty' tx' c c]
    by (auto intro: recolors_trans dest: recolors_idle)
  have row: "recolors v (run_io cmd data (for_io 32 (\<lambda>tx. region_tile_color ty tx c)) w) \<and>
      ?view (run_io cmd data (for_io 32 (\<lambda>tx. region_tile_color ty tx c)) w) () =
        (if \<exists>tx \<in> set [0..<32]. ty' = ty \<and> tx' = tx then True else ?view w ())"
    if "ty \<in> set [0..<24]" "recolors v w" for ty w
    unfolding run_io_for by (rule fold_view_inv [where P = "recolors v" and view = ?view]) (use that tile in auto)
  have "recolors v (run_io cmd data (for_io 24 (\<lambda>ty. for_io 32 (\<lambda>tx. region_tile_color ty tx c))) v) \<and>
      ?view (run_io cmd data (for_io 24 (\<lambda>ty. for_io 32 (\<lambda>tx. region_tile_color ty tx c))) v) () =
        (if \<exists>ty \<in> set [0..<24]. \<exists>tx \<in> set [0..<32]. ty' = ty \<and> tx' = tx then True else ?view v ())"
    unfolding run_io_for [of _ _ 24]
    by (rule fold_view_inv [where P = "recolors v" and view = ?view]) (use row recolors_refl [OF assms(1)] in auto)
  with lt show ?thesis by simp
qed

lemma colors_ok_all:
  "idle v \<Longrightarrow> colors_ok (vram (run_io cmd data (for_io 24 (\<lambda>ty. for_io 32 (\<lambda>tx.
    region_tile_color ty tx (color_pair 0x07)))) v)) prev"
  by (simp add: colors_ok_def run_recolor_all)

lemma colors_ok_tile:
  assumes "idle w" and "ty < 24" "tx < 32" and "colors_ok (vram w) prev"
    and "c = color_pair 0x07 \<or> c = color_pair 0x09 \<and> d \<noteq> 0"
  shows "colors_ok (vram (run_io cmd data (region_tile_color ty tx c) w)) (prev(ty * 32 + tx := d))"
  unfolding colors_ok_def
proof (intro allI impI)
  fix ty' tx' :: nat assume lt: "ty' < 24" "tx' < 32"
  have "ty' * 32 + tx' = ty * 32 + tx \<longleftrightarrow> ty' = ty \<and> tx' = tx"
    using lt assms(2,3) by (intro grid_inj)
  with lt assms show "tile_colored (vram (run_io cmd data (region_tile_color ty tx c) w)) ty' tx' (color_pair 0x07) \<or>
      (prev(ty * 32 + tx := d)) (ty' * 32 + tx') \<noteq> 0 \<and>
      tile_colored (vram (run_io cmd data (region_tile_color ty tx c) w)) ty' tx' (color_pair 0x09)"
    by (auto simp: run_tile_colored colors_ok_def)
qed

lemma colors_ok_prev:
  "colors_ok vm prev \<Longrightarrow> (d = 0 \<Longrightarrow> prev i = 0) \<Longrightarrow> colors_ok vm (prev(i := d))"
  unfolding colors_ok_def by (auto split: if_splits)

lemma run_dirty_update:
  assumes "idle v"
  shows "recolors v (run_io cmd data (snd (vdp_debug_dirty_update dirty prev)) v)"
    and "colors_ok (vram v) prev \<Longrightarrow>
      colors_ok (vram (run_io cmd data (snd (vdp_debug_dirty_update dirty prev)) v)) (fst (vdp_debug_dirty_update dirty prev))"
proof -
  let ?Q = "\<lambda>s. recolors v (run_io cmd data (snd s) v)"
  let ?P = "\<lambda>s. ?Q s \<and> colors_ok (vram (run_io cmd data (snd s) v)) (fst s)"
  have tile: "recolors v (run_io cmd data (region_tile_color ty tx c) w)"
    if "recolors v w" "ty < 24" "tx < 32" for w ty tx c
    using that run_tile_color(1) [of w ty tx c] recolors_trans recolors_idle by blast
  show "?Q (vdp_debug_dirty_update dirty prev)"
    unfolding vdp_debug_dirty_update_def
    by (rule fold_inv [where P = ?Q], rule fold_inv [where P = ?Q])
      (auto simp: Let_def recolors_refl [OF assms] tile split: prod.splits)
  assume ok: "colors_ok (vram v) prev"
  have "?P (vdp_debug_dirty_update dirty prev)"
    unfolding vdp_debug_dirty_update_def
  proof (rule fold_inv [where P = ?P], rule fold_inv [where P = ?P], goal_cases)
    case (1 ty s tx t)
    obtain p out where t: "t = (p, out)" by (cases t)
    have id: "idle (run_io cmd data out v)" using 1 recolors_idle t by fastforce
    let ?i = "ty * 32 + tx" and ?vm = "vram (run_io cmd data out v)"
    have lt: "ty < 24" "tx < 32" and p: "recolors v (run_io cmd data out v)" "colors_ok ?vm p"
      using 1 t by auto
    note col = colors_ok_tile [OF id lt p(2), of _ "dirty ?i"] colors_ok_prev [OF p(2), of "dirty ?i" ?i]
    show ?case unfolding t
      using col(1) [of "color_pair 7"] col(1) [of "color_pair 9"] col(2) p lt
      by (cases "dirty ?i = 0"; cases "p ?i = 0") (simp_all add: Let_def tile)
  qed (use ok recolors_refl [OF assms] in auto)
  then show "colors_ok (vram (run_io cmd data (snd (vdp_debug_dirty_update dirty prev)) v))
      (fst (vdp_debug_dirty_update dirty prev))" by simp
qed

lemma run_dirty_clear:
  assumes "idle v"
  shows "recolors v (run_io cmd data (snd (vdp_debug_dirty_clear prev)) v)"
    and "colors_ok (vram v) prev \<Longrightarrow>
      colors_ok (vram (run_io cmd data (snd (vdp_debug_dirty_clear prev)) v)) (fst (vdp_debug_dirty_clear prev))"
proof -
  let ?Q = "\<lambda>s. recolors v (run_io cmd data (snd s) v)"
  let ?P = "\<lambda>s. ?Q s \<and> colors_ok (vram (run_io cmd data (snd s) v)) (fst s)"
  have tile: "recolors v (run_io cmd data (region_tile_color ty tx c) w)"
    if "recolors v w" "ty < 24" "tx < 32" for w ty tx c
    using that run_tile_color(1) [of w ty tx c] recolors_trans recolors_idle by blast
  show "?Q (vdp_debug_dirty_clear prev)"
    unfolding vdp_debug_dirty_clear_def
    by (rule fold_inv [where P = ?Q], rule fold_inv [where P = ?Q])
      (auto simp: Let_def recolors_refl [OF assms] tile split: prod.splits)
  assume ok: "colors_ok (vram v) prev"
  have "?P (vdp_debug_dirty_clear prev)"
    unfolding vdp_debug_dirty_clear_def
  proof (rule fold_inv [where P = ?P], rule fold_inv [where P = ?P], goal_cases)
    case (1 ty s tx t)
    obtain p out where t: "t = (p, out)" by (cases t)
    have id: "idle (run_io cmd data out v)" using 1 recolors_idle t by fastforce
    have lt: "ty < 24" "tx < 32" and p: "recolors v (run_io cmd data out v)"
      "colors_ok (vram (run_io cmd data out v)) p"
      using 1 t by auto
    show ?case unfolding t
      using colors_ok_tile [OF id lt p(2), of "color_pair 7" 0] p lt by (simp add: Let_def tile)
  qed (use ok recolors_refl [OF assms] in auto)
  then show "colors_ok (vram (run_io cmd data (snd (vdp_debug_dirty_clear prev)) v))
      (fst (vdp_debug_dirty_clear prev))" by simp
qed

lemma run_dirty_patterns:
  assumes "idle v"
  shows "idle (run_io cmd data (vdp_write_dirty_patterns dirty b) v)"
    and "reg (run_io cmd data (vdp_write_dirty_patterns dirty b) v) = reg v"
    and "vram (run_io cmd data (vdp_write_dirty_patterns dirty b) v) k =
      (if k < 6144 \<and> row_or dirty (k div 256) \<noteq> 0 then row_bytes b (k div 256) ! (k mod 256) else vram v k)"
proof -
  let ?B = "\<lambda>ty. if row_or dirty ty = 0 then []
      else vdp_set_write_addr (of_nat (256 * ty)) @ map Data (row_bytes b ty)"
  let ?P = "\<lambda>w. idle w \<and> reg w = reg v"
  let ?sel = "\<lambda>ty. row_or dirty ty \<noteq> 0 \<and> k div 256 = ty"
  let ?g = "row_bytes b (k div 256) ! (k mod 256)"
  have step: "?P (run_io cmd data (?B ty) w) \<and>
      vram (run_io cmd data (?B ty) w) k = (if ?sel ty then ?g else vram w k)"
    if "ty \<in> set [0..<24]" "?P w" for ty w
  proof (cases "row_or dirty ty = 0")
    case True
    with that show ?thesis by simp
  next
    case False
    have u: "unat (of_nat (256 * ty) :: u16) = 256 * ty" using that(1) by (simp only: unat_of_nat) simp
    have iff: "(256 * ty \<le> k \<and> k < 256 * ty + 256) \<longleftrightarrow> k div 256 = ty"
      using div_nat_eqI [of 256 ty k] by (auto simp: algebra_simps)
    have ne: "row_bytes b ty \<noteq> []" by (simp flip: length_greater_0_conv)
    have le: "unat (of_nat (256 * ty) :: u16) + length (row_bytes b ty) \<le> 2 ^ 14"
      using that(1) unfolding u by simp
    have idx: "k - 256 * ty = k mod 256" if "k div 256 = ty" using that by (auto simp: minus_mult_div_eq_mod)
    have "idle w" using that(2) by simp
    note rb = run_block [OF \<open>idle w\<close> le ne]
    have "vram (run_io cmd data (?B ty) w) k = (if k div 256 = ty then ?g else vram w k)"
      using rb(3) [of k] iff False idx unfolding u length_row_bytes by (cases "k div 256 = ty") simp_all
    then show ?thesis using False that(2) rb(1,2) by simp
  qed
  have all: "?P (run_io cmd data (vdp_write_dirty_patterns dirty b) v) \<and>
      vram (run_io cmd data (vdp_write_dirty_patterns dirty b) v) k =
        (if \<exists>ty \<in> set [0..<24]. ?sel ty then ?g else vram v k)"
    unfolding write_dirty_patterns_eq run_io_for
    by (rule fold_view_inv [where P = ?P and view = vram]) (use step assms in simp_all)
  then show "idle (run_io cmd data (vdp_write_dirty_patterns dirty b) v)"
    and "reg (run_io cmd data (vdp_write_dirty_patterns dirty b) v) = reg v" by simp_all
  have "(\<exists>ty \<in> set [0..<24]. ?sel ty) \<longleftrightarrow> k < 6144 \<and> row_or dirty (k div 256) \<noteq> 0" by auto
  with all show "vram (run_io cmd data (vdp_write_dirty_patterns dirty b) v) k =
      (if k < 6144 \<and> row_or dirty (k div 256) \<noteq> 0 then ?g else vram v k)" by simp
qed

text \<open>Drawing the dirty rows brings the screen from one board to the next.\<close>

lemma run_dirty_shows:
  assumes "idle v"
    and rows: "\<And>ty tx. ty < 24 \<Longrightarrow> tx < 32 \<Longrightarrow> row_or dirty ty = 0 \<Longrightarrow>
      shows_board (vram v) c \<and> \<not> tile_differs b c ty tx"
  shows "shows_board (vram (run_io cmd data (vdp_write_dirty_patterns dirty b) v)) b"
  unfolding shows_board_def
proof (intro allI impI)
  fix ty tx i :: nat assume lt: "ty < 24" "tx < 32" "i < 8"
  let ?k = "ty * 256 + tx * 8 + i"
  have "tx * 8 + i < 256" using lt by simp
  then have k: "?k div 256 = ty" "?k mod 256 = tx * 8 + i" "?k < 6144"
    using lt(1) by (simp_all add: add.assoc)
  show "vram (run_io cmd data (vdp_write_dirty_patterns dirty b) v) ?k =
      expand4 ! unat (tile_nibble b (4 * ty + i div 2) tx)"
  proof (cases "row_or dirty ty = 0")
    case True
    have "i div 2 < 4" using lt by simp
    with rows [OF lt(1,2) True] not_tile_differs [of b c ty tx "i div 2"] lt
    have "vram v ?k = expand4 ! unat (tile_nibble b (4 * ty + i div 2) tx)"
      by (simp add: shows_board_def)
    with True k show ?thesis by (simp add: run_dirty_patterns(3) [OF assms(1)])
  next
    case False
    with k lt show ?thesis by (simp add: run_dirty_patterns(3) [OF assms(1)] row_bytes_nth)
  qed
qed

end

end
