(* ===== verification/Life2x_Seed.thy ===== *)
theory Life2x_Seed
  imports Life2x_Step
begin

text \<open>
  Where the seeding of \<^verbatim>\<open>life2_2x.c\<close> writes. Blocks of four by four cells stay inside the board when
  their corner is at least four cells away from the lower right edge; \<open>seed_board\<close> shifts its grid of
  blocks by a random offset of up to three cells without wrapping the cells of the last blocks, and then
  stores up to 49 bytes past the end of the board. These stores do no harm when what lies there is
  overwritten before it is read, or may have any value.
\<close>

section \<open>Layouts that do no harm\<close>

text \<open>
  Behind a board may lie the other board, which is cleared before its next use, the maps of active,
  live and dirty tiles, which are rebuilt before theirs, and the variables that may have any value; but not
  the board pointers, the remembered dirty tiles or the switches of the debug colours.
\<close>

fun harmless_place :: "board_ref \<Rightarrow> place \<Rightarrow> bool" where
  "harmless_place r (Board_Byte r' i) \<longleftrightarrow> r' \<noteq> r"
| "harmless_place r (Prev_Byte i) \<longleftrightarrow> False"
| "harmless_place r Enabled_Byte \<longleftrightarrow> False"
| "harmless_place r Pending_Byte \<longleftrightarrow> False"
| "harmless_place r Pointer_Byte \<longleftrightarrow> False"
| "harmless_place r p \<longleftrightarrow> True"

definition harmless :: "layout \<Rightarrow> bool" where
  "harmless lay \<longleftrightarrow> (\<forall>off \<in> {1536..<1585}. harmless_place Board_A (lay Board_A off) \<and> harmless_place Board_B (lay Board_B off))"

lemma harmlessD: "harmless lay \<Longrightarrow> 1536 \<le> off \<Longrightarrow> off < 1585 \<Longrightarrow> harmless_place r (lay r off)"
  by (cases r) (simp_all add: harmless_def)

text \<open>
  The layout in the order in which the program declares its variables without an initial value, as far as
  the seeding reaches: the board \<open>board_b\<close> behind \<open>board_a\<close>, and \<open>active_tiles\<close> behind \<open>board_b\<close>.
\<close>

definition source_layout :: layout where
  "source_layout r off = (case r of Board_A \<Rightarrow> Board_Byte Board_B (off - 1536) | Board_B \<Rightarrow> Active_Byte (off - 1536))"

lemma source_layout_harmless: "harmless source_layout"
  by (simp add: harmless_def source_layout_def)

section \<open>What the seeding keeps\<close>

definition seeding_keeps :: "life \<Rightarrow> life \<Rightarrow> bool" where
  "seeding_keeps s s' \<longleftrightarrow> cur s' = cur s \<and> next s' = next s \<and> dirty_prev s' = dirty_prev s \<and> lost s' = lost s \<and>
    debug_dirty_enabled s' = debug_dirty_enabled s \<and> debug_snapshot_pending s' = debug_snapshot_pending s \<and>
    (rng_state s \<noteq> 0 \<longrightarrow> rng_state s' \<noteq> 0)"

lemma seeding_keeps_refl [simp]: "seeding_keeps s s"
  by (simp add: seeding_keeps_def)

lemma seeding_keeps_trans [trans]: "seeding_keeps s t \<Longrightarrow> seeding_keeps t u \<Longrightarrow> seeding_keeps s u"
  by (simp add: seeding_keeps_def)

lemma seeding_keeps_random: "seeding_keeps s (next_random s)"
  by (simp add: seeding_keeps_def next_random_def rng_next_nonzero)

lemma seeding_keeps_board: "seeding_keeps s (set_board r b s)"
  by (simp add: seeding_keeps_def)

text \<open>Setting bits in a byte of the generator's state does not make it zero.\<close>

lemma set_byte16_or: "bit w n \<Longrightarrow> bit (set_byte16 w i (get_byte16 w i OR m)) n"
proof -
  assume b: "bit w n"
  then have "n < 16" using bit_imp_le_length [of w n] by simp
  moreover have "bit (0x00FF :: u16) n \<longleftrightarrow> n < 8" if "n < 16"
    using bit_mask_iff [of 8 n, where 'a = "16 word"] that by (simp add: mask_eq_exp_minus_1)
  moreover have "(0xFF00 :: u16) = push_bit 8 (mask 8)" by (simp add: mask_eq_exp_minus_1)
  then have "bit (0xFF00 :: u16) n \<longleftrightarrow> 8 \<le> n" if "n < 16"
    unfolding \<open>(0xFF00 :: u16) = push_bit 8 (mask 8)\<close> bit_push_bit_iff bit_mask_iff using that by auto
  ultimately show ?thesis using b
    by (cases "n < 8") (auto simp: set_byte16_def get_byte16_def bit_or_iff bit_and_iff bit_push_bit_iff bit_unsigned_iff bit_drop_bit_eq)
qed

lemma set_byte16_nonzero: "w \<noteq> 0 \<Longrightarrow> set_byte16 w i (get_byte16 w i OR m) \<noteq> 0"
proof -
  assume "w \<noteq> 0"
  then obtain n where "bit w n" by (auto simp: bit_eq_iff)
  then show ?thesis using set_byte16_or [of w n i m] by auto
qed

lemma store_harmless: "harmless_place r p \<Longrightarrow> seeding_keeps s (store_byte p (load_byte p s OR m) s)"
  by (cases p) (simp_all add: seeding_keeps_def set_byte16_nonzero)

lemma set_cell_keeps:
  assumes "harmless lay" and "unat x \<le> 130" and "unat y \<le> 98"
  shows "seeding_keeps s (set_cell lay r x y s)"
proof -
  have "unat (drop_bit 3 x) \<le> 16" using assms(2) by (simp add: unat_drop_bit)
  then have off: "unat y * 16 + unat (drop_bit 3 x) < 1585" using assms(3) by linarith
  show ?thesis
  proof (cases "unat y * 16 + unat (drop_bit 3 x) < 1536")
    case True
    then show ?thesis by (simp add: set_cell_def board_place_def Let_def seeding_keeps_board)
  next
    case False
    then have "harmless_place r (lay r (unat y * 16 + unat (drop_bit 3 x)))" using harmlessD [OF assms(1)] off by simp
    from store_harmless [OF this] False show ?thesis by (simp add: set_cell_def board_place_def Let_def)
  qed
qed

lemma unat_add_small: "unat (x :: u16) \<le> n \<Longrightarrow> i < 4 \<Longrightarrow> n < 1000 \<Longrightarrow> unat (x + of_nat i) \<le> n + 3"
  by (simp add: unat_word_ariths unat_of_nat)

lemma seed_block_keeps:
  assumes "harmless lay" and "unat x0 \<le> 127" and "unat y0 \<le> 95"
  shows "seeding_keeps s (seed_block lay r x0 y0 t s)"
proof -
  have cell: "seeding_keeps u (set_cell lay r (x0 + of_nat x) (y0 + of_nat y) u)" if "x < 4" "y < 4" for x y u
    using unat_add_small [OF assms(2) that(1)] unat_add_small [OF assms(3) that(2)]
    by (intro set_cell_keeps [OF assms(1)]) simp_all
  show ?thesis
    unfolding seed_block_def
    by (rule fold_inv [where P = "seeding_keeps s"], rule fold_inv [where P = "seeding_keeps s"])
      (auto simp: Let_def intro: seeding_keeps_trans [OF _ cell] seeding_keeps_trans [OF _ seeding_keeps_random]
        seeding_keeps_trans [OF seeding_keeps_trans [OF _ seeding_keeps_random] cell])
qed

text \<open>The corner of a shifted block is wrapped into the board.\<close>

lemma wrapped_corner:
  fixes off :: u16
  assumes "unat off \<le> 3" and "i < m div 4" and "m = 128 \<or> m = 96"
  shows "unat (if of_nat (4 * i) + off \<ge> of_nat m then of_nat (4 * i) + off - of_nat m else of_nat (4 * i) + off :: u16) \<le> m - 1"
proof -
  have i: "4 * i \<le> m - 4" "4 * i < 128" using assms(2,3) by auto
  have "unat (of_nat (4 * i) :: u16) = 4 * i" using i by (simp only: unat_of_nat) simp
  then have u: "unat (of_nat (4 * i) + off) = 4 * i + unat off" using i assms(1) by (simp only: unat_word_ariths) simp
  have "4 * i + unat off \<le> m - 1" using i assms by auto
  moreover have "unat (of_nat m :: u16) = m" using assms(3) by auto
  ultimately show ?thesis using u assms(3) by (auto simp: word_le_nat_alt simp del: of_nat_mult)
qed

lemma seed_grid_keeps:
  assumes "harmless lay" and "unat x \<le> 3" and "unat y \<le> 3"
  shows "seeding_keeps s (seed_grid lay r x y d s)"
proof -
  have blk: "seeding_keeps u (seed_block lay r
      (if of_nat (4 * j) + x \<ge> of_nat 128 then of_nat (4 * j) + x - of_nat 128 else of_nat (4 * j) + x)
      (if of_nat (4 * i) + y \<ge> of_nat 96 then of_nat (4 * i) + y - of_nat 96 else of_nat (4 * i) + y)
      LIFE_SEED_DROPOUT_THRESHOLD u)" if "j < 128 div 4" "i < 96 div 4" for i j u
    using wrapped_corner [OF assms(2) that(1)] wrapped_corner [OF assms(3) that(2)]
    by (intro seed_block_keeps [OF assms(1)]) (simp_all only: simp_thms, simp_all)
  show ?thesis
    unfolding seed_grid_def Let_def
  proof (rule fold_inv [where P = "seeding_keeps s"], rule fold_inv [where P = "seeding_keeps s"], goal_cases)
    case (1 i u j w)
    have "j < 128 div 4" "i < 96 div 4" using 1 by auto
    note b = blk [OF this, of "next_random w"]
    have "seeding_keeps s (next_random w)" using 1 by (blast intro: seeding_keeps_trans seeding_keeps_random)
    with b show ?case by (cases "(ucast (rng_state (next_random w)) :: u8) < d") (simp_all only: if_True if_False seeding_keeps_trans)
  qed auto
qed

lemma low_bits_le: "unat (w AND 3 :: u16) \<le> 3"
  using word_and_le1 [of w 3] by (simp add: word_le_nat_alt)

lemma edge_le:
  assumes "m = 127 \<or> m = 95"
  shows "unat ((w AND of_nat m) AND NOT 3 :: u16) \<le> m - 3"
proof -
  define z where "z = (w AND of_nat m :: u16)"
  have "z \<le> of_nat m" unfolding z_def by (rule word_and_le1)
  then have le: "unat z \<le> m" using assms by (auto simp: word_le_nat_alt unat_of_nat)
  have "z AND NOT 3 = push_bit 2 (drop_bit 2 z)"
    using and_not_mask [of z 2] by (simp add: mask_eq_exp_minus_1)
  then have "unat (z AND NOT 3) \<le> unat z div 4 * 4" by (simp only: unat_push_bit unat_drop_bit) simp
  also have "\<dots> \<le> m - 3" using le assms by auto
  finally show ?thesis unfolding z_def .
qed

lemma seed_board_keeps:
  assumes "harmless lay"
  shows "seeding_keeps s (seed_board lay r d s)"
proof -
  have x: "unat ((w AND 127) AND NOT 3 :: u16) \<le> 124" for w using edge_le [of 127 w] by simp
  have y: "unat ((w AND 95) AND NOT 3 :: u16) \<le> 92" for w using edge_le [of 95 w] by simp
  have b: "seeding_keeps u t \<Longrightarrow> unat x0 \<le> 127 \<Longrightarrow> unat y0 \<le> 95 \<Longrightarrow> seeding_keeps u (seed_block lay r x0 y0 th t)" for u t x0 y0 th
    using seed_block_keeps [OF assms] by (blast intro: seeding_keeps_trans)
  have n: "seeding_keeps u t \<Longrightarrow> seeding_keeps u (next_random t)" for u t using seeding_keeps_trans seeding_keeps_random by blast
  have g: "seeding_keeps u t \<Longrightarrow> seeding_keeps u (seed_grid lay r (v AND 3) (w AND 3) d t)" for u t v w
    using seed_grid_keeps [OF assms low_bits_le low_bits_le] by (blast intro: seeding_keeps_trans)
  have c: "seeding_keeps u t \<Longrightarrow> seeding_keeps u (set_board r v t)" for u t v using seeding_keeps_trans seeding_keeps_board by blast
  have le: "unat ((w AND 127) AND NOT 3 :: u16) \<le> 127" "unat ((w AND 95) AND NOT 3 :: u16) \<le> 95" for w
    using x [of w] y [of w] by simp_all
  show ?thesis
    unfolding seed_board_def Let_def
    by (intro b n g c seeding_keeps_refl) (use le in simp_all)
qed

section \<open>Seeding inside the board\<close>

lemma set_cell_layout:
  assumes "unat x \<le> 127" and "unat y \<le> 95"
  shows "set_cell lay r x y s = set_cell lay' r x y s"
proof -
  have "unat (drop_bit 3 x) \<le> 15" using assms(1) by (simp add: unat_drop_bit)
  then have "unat y * 16 + unat (drop_bit 3 x) < 1536" using assms(2) by linarith
  then show ?thesis by (simp add: set_cell_def board_place_def)
qed

lemma seed_block_layout:
  assumes "unat x0 \<le> 124" and "unat y0 \<le> 92"
  shows "seed_block lay r x0 y0 t = seed_block lay' r x0 y0 t"
proof -
  have "set_cell lay r (x0 + of_nat x) (y0 + of_nat y) s = set_cell lay' r (x0 + of_nat x) (y0 + of_nat y) s"
    if "x < 4" "y < 4" for x y s
    using unat_add_small [OF assms(1) that(1)] unat_add_small [OF assms(2) that(2)] by (intro set_cell_layout) simp_all
  then show ?thesis unfolding seed_block_def by (intro ext fold_cong refl) (auto intro!: fold_cong simp: Let_def)
qed

lemma seed_grid_layout: "seed_grid lay r 0 0 d = seed_grid lay' r 0 0 d"
proof -
  have c: "unat (if (of_nat (4 * i) :: u16) + 0 \<ge> of_nat m then of_nat (4 * i) + 0 - of_nat m else of_nat (4 * i) + 0 :: u16) \<le> m - 4"
    if "i < m div 4" "m = 128 \<or> m = 96" for i m
  proof -
    have i: "4 * i < m" "4 * i \<le> m - 4" "4 * i < 128" using that by auto
    have "unat (of_nat (4 * i) :: u16) = 4 * i" using i(3) by (simp only: unat_of_nat) simp
    moreover have "unat (of_nat m :: u16) = m" using that(2) by auto
    ultimately have "\<not> of_nat m \<le> (of_nat (4 * i) :: u16)" using i(1) by (simp add: word_le_nat_alt del: of_nat_mult)
    with \<open>unat (of_nat (4 * i) :: u16) = 4 * i\<close> i(2) show ?thesis by (simp only: add_0_right if_False)
  qed
  have "seed_block lay r
      (if (of_nat (4 * j) :: u16) + 0 \<ge> of_nat 128 then of_nat (4 * j) + 0 - of_nat 128 else of_nat (4 * j) + 0)
      (if (of_nat (4 * i) :: u16) + 0 \<ge> of_nat 96 then of_nat (4 * i) + 0 - of_nat 96 else of_nat (4 * i) + 0) t =
    seed_block lay' r
      (if (of_nat (4 * j) :: u16) + 0 \<ge> of_nat 128 then of_nat (4 * j) + 0 - of_nat 128 else of_nat (4 * j) + 0)
      (if (of_nat (4 * i) :: u16) + 0 \<ge> of_nat 96 then of_nat (4 * i) + 0 - of_nat 96 else of_nat (4 * i) + 0) t"
    if "j < 128 div 4" "i < 96 div 4" for i j t
    using c [OF that(1)] c [OF that(2)] by (intro seed_block_layout) (simp_all only: simp_thms, simp_all)
  then show ?thesis unfolding seed_grid_def Let_def by (intro ext fold_cong refl) (simp only: atLeastLessThan_upt [symmetric] atLeastLessThan_iff)
qed

text \<open>
  When both offsets drawn by \<open>seed_board\<close> are zero, it writes no cell outside the board, whatever
  the density and the generator state: its effect does not depend on the layout.
\<close>

theorem seed_board_in_bounds:
  assumes "rng_next (rng_state s) AND 3 = 0" and "rng_next (rng_next (rng_state s)) AND 3 = 0"
  shows "seed_board lay r d s = seed_board lay' r d s"
proof -
  have x: "unat ((w AND 127) AND NOT 3 :: u16) \<le> 124" for w using edge_le [of 127 w] by simp
  have y: "unat ((w AND 95) AND NOT 3 :: u16) \<le> 92" for w using edge_le [of 95 w] by simp
  have z: "rng_state (next_random s) AND 3 = 0" "rng_state (next_random (next_random s)) AND 3 = 0"
    using assms by (simp_all add: next_random_def)
  have b: "seed_block lay r x0 y0 t = seed_block lay' r x0 y0 t" if "unat x0 \<le> 124" "unat y0 \<le> 92" for x0 y0 t
    using that by (rule seed_block_layout)
  show ?thesis
    by (simp add: seed_board_def Let_def z seed_grid_layout [of lay r d lay'] b x [simplified] y [simplified])
qed

text \<open>
  A block of the grid shifted by two rows leaves the board: seeding the block in the last row of
  blocks, from a generator state that occurs during the seeding at power-up, stores past the end of
  \<open>board_a\<close>. In the order of the declarations the cells appear in \<open>board_b\<close>.
\<close>

theorem seed_block_stray:
  "map (board_b (seed_block source_layout Board_A 5 94 LIFE_SEED_DROPOUT_THRESHOLD (life_globals\<lparr>rng_state := 0xAF2A\<rparr>))) [0, 1, 16, 17] =
    [1, 128, 7, 128]"
  by code_simp

end
