(* ===== verification/Life2x_Main.thy ===== *)
theory Life2x_Main
  imports Life2x_Draw Life2x_Seed
begin

text \<open>
  The main program of \<^verbatim>\<open>life2_2x.c\<close> on a display: the states it reaches from power-up, for every
  sequence of frame counters and keys, and the invariant that ties the board, the tile maps and the
  video memory together.
\<close>

section \<open>The parts of a frame that leave the display alone\<close>

text \<open>The rows drawn this frame cover every tile that differs from the board on the screen.\<close>

definition draws :: "life \<Rightarrow> mem \<Rightarrow> bool" where
  "draws s shown \<longleftrightarrow> (\<forall>ty < 24. \<forall>tx < 32. row_or (dirty_tiles s) ty = 0 \<longrightarrow>
     \<not> tile_differs (board (cur s) s) shown ty tx)"

definition frame_ok :: "life \<Rightarrow> mem \<Rightarrow> bool" where
  "frame_ok s shown \<longleftrightarrow> cur s \<noteq> next s \<and> \<not> lost s \<and> rng_state s \<noteq> 0 \<and>
     active_ok (active_tiles s) (board (cur s) s) \<and> draws s shown"

lemma draws_all_dirty: "draws (s\<lparr>dirty_tiles := mark_all_dirty t\<rparr>) shown"
proof -
  have "row_or (mark_all_dirty t) ty \<noteq> 0" if "ty < 24" for ty
  proof -
    have "mark_all_dirty t (ty * 32 + 0) \<noteq> 0" using that by (simp add: mark_all_dirty_byte)
    then show ?thesis unfolding row_or_zero_iff by (meson zero_less_numeral)
  qed
  then show ?thesis by (simp add: draws_def)
qed

lemma reseed_frame_ok:
  assumes lay: "harmless lay" and "cur s \<noteq> next s" and "\<not> lost s" and "rng_state s \<noteq> 0"
  shows "frame_ok (reseed_board lay (cur s) s) shown"
    and "dirty_prev (reseed_board lay (cur s) s) = dirty_prev s"
    and "debug_dirty_enabled (reseed_board lay (cur s) s) = debug_dirty_enabled s"
    and "debug_snapshot_pending (reseed_board lay (cur s) s) = debug_snapshot_pending s"
    and "cur (reseed_board lay (cur s) s) = cur s"
proof -
  define t where "t = (if entropy s \<noteq> 0 then
      (let rng = rng_state s XOR entropy s in s\<lparr>rng_state := (if rng = 0 then 0x1D2B else rng)\<rparr>) else s)"
  have t: "seeding_keeps s t" using assms(4) by (simp add: t_def Let_def seeding_keeps_def)
  define u where "u = seed_board lay (cur s) (seed_density t) t"
  have "seeding_keeps s u" using t seed_board_keeps [OF lay] seeding_keeps_trans unfolding u_def by blast
  moreover have "reseed_board lay (cur s) s =
      u\<lparr>active_tiles := build_active_tiles (board (cur s) u) (active_tiles u), dirty_tiles := mark_all_dirty (dirty_tiles u)\<rparr>"
    by (simp add: reseed_board_def Let_def t_def u_def)
  ultimately show "frame_ok (reseed_board lay (cur s) s) shown"
    and "dirty_prev (reseed_board lay (cur s) s) = dirty_prev s"
    and "debug_dirty_enabled (reseed_board lay (cur s) s) = debug_dirty_enabled s"
    and "debug_snapshot_pending (reseed_board lay (cur s) s) = debug_snapshot_pending s"
    and "cur (reseed_board lay (cur s) s) = cur s"
    using assms draws_all_dirty by (simp_all add: frame_ok_def seeding_keeps_def build_active_tiles_ok)
qed

lemma step_frame_ok:
  assumes "cur s \<noteq> next s" and "rng_state s \<noteq> 0" and "\<not> lost s"
  shows "frame_ok (step_board (next s) (cur s) s) (board (next s) s)"
proof -
  have ne: "next s \<noteq> cur s" using assms(1) by simp
  let ?s = "step_board (next s) (cur s) s"
  have "draws ?s (board (next s) s)"
    unfolding draws_def step_board_values(7) [OF ne] row_or_zero_iff
    using step_board_tiles(2) [OF ne, of _ _ s] by auto
  then show ?thesis
    using assms step_board_active [OF ne, of s]
    by (simp add: frame_ok_def step_board_values [OF ne])
qed

lemma frame_ok_updates [simp]:
  "frame_ok (s\<lparr>entropy := e\<rparr>) c = frame_ok s c" "frame_ok (s\<lparr>dirty_prev := p\<rparr>) c = frame_ok s c"
  "frame_ok (s\<lparr>debug_dirty_enabled := d\<rparr>) c = frame_ok s c" "frame_ok (s\<lparr>frame_prev := f\<rparr>) c = frame_ok s c"
  "frame_ok (s\<lparr>debug_snapshot_pending := d\<rparr>) c = frame_ok s c" "frame_ok (s\<lparr>debug_key_prev := d\<rparr>) c = frame_ok s c"
  by (simp_all add: frame_ok_def draws_def)

definition debug_ok :: "life \<Rightarrow> bool" where
  "debug_ok s \<longleftrightarrow> (debug_dirty_enabled s = 0 \<longrightarrow> (\<forall>k < 768. dirty_prev s k = 0))"

lemma debug_ok_updates [simp]:
  "debug_ok (s\<lparr>entropy := e\<rparr>) = debug_ok s" "debug_ok (s\<lparr>frame_prev := f\<rparr>) = debug_ok s"
  "debug_ok (s\<lparr>debug_snapshot_pending := d\<rparr>) = debug_ok s" "debug_ok (s\<lparr>debug_key_prev := d\<rparr>) = debug_ok s"
  "debug_ok (s\<lparr>seed_density := d\<rparr>) = debug_ok s"
  by (simp_all add: debug_ok_def)

lemma reseed_key:
  assumes "frame_ok s c" and "debug_ok s" and lay: "harmless lay"
  shows "frame_ok (reseed_board lay (cur s) (s\<lparr>seed_density := d\<rparr>)) shown"
    and "debug_ok (reseed_board lay (cur s) (s\<lparr>seed_density := d\<rparr>))"
    and "dirty_prev (reseed_board lay (cur s) (s\<lparr>seed_density := d\<rparr>)) = dirty_prev s"
    and "frame_ok (reseed_board lay (cur s) s) shown" and "debug_ok (reseed_board lay (cur s) s)"
    and "dirty_prev (reseed_board lay (cur s) s) = dirty_prev s"
proof -
  have a: "cur (s\<lparr>seed_density := d\<rparr>) \<noteq> next (s\<lparr>seed_density := d\<rparr>)" "\<not> lost (s\<lparr>seed_density := d\<rparr>)"
      "rng_state (s\<lparr>seed_density := d\<rparr>) \<noteq> 0"
    and b: "cur s \<noteq> next s" "\<not> lost s" "rng_state s \<noteq> 0"
    using assms(1) by (simp_all add: frame_ok_def)
  show "frame_ok (reseed_board lay (cur s) (s\<lparr>seed_density := d\<rparr>)) shown"
    and "debug_ok (reseed_board lay (cur s) (s\<lparr>seed_density := d\<rparr>))"
    and "dirty_prev (reseed_board lay (cur s) (s\<lparr>seed_density := d\<rparr>)) = dirty_prev s"
    using reseed_frame_ok [OF lay a] assms(2) by (simp_all add: debug_ok_def)
  show "frame_ok (reseed_board lay (cur s) s) shown" and "debug_ok (reseed_board lay (cur s) s)"
    and "dirty_prev (reseed_board lay (cur s) s) = dirty_prev s"
    using reseed_frame_ok [OF lay b] assms(2) by (simp_all add: debug_ok_def)
qed

section \<open>The states the program reaches\<close>

inductive life_reach :: "layout \<Rightarrow> (u8 \<Rightarrow> 'v \<Rightarrow> 'v) \<Rightarrow> (u8 \<Rightarrow> 'v \<Rightarrow> 'v) \<Rightarrow> 'v \<Rightarrow> life \<Rightarrow> 'v \<Rightarrow> bool"
  for lay cmd data v0 where
  start: "life_init lay life_globals = (s, out) \<Longrightarrow> life_reach lay cmd data v0 s (run_io cmd data out v0)"
| frame: "life_reach lay cmd data v0 s v \<Longrightarrow> life_frame lay f k s = (s', out) \<Longrightarrow>
    life_reach lay cmd data v0 s' (run_io cmd data out v)"

inductive_simps life_reach_iff: "life_reach lay cmd data v0 s v"

definition life_inv :: "life \<Rightarrow> (nat \<Rightarrow> u8) \<Rightarrow> (nat \<Rightarrow> u8) \<Rightarrow> bool" where
  "life_inv s reg vram \<longleftrightarrow>
    cur s \<noteq> next s \<and> \<not> lost s \<and> rng_state s \<noteq> 0 \<and> active_ok (active_tiles s) (board (cur s) s) \<and>
    debug_ok s \<and> debug_snapshot_pending s = 0 \<and> reg 1 = 0xE0 \<and> gfx2_setup reg vram \<and>
    shows_board vram (board (cur s) s) \<and> colors_ok vram (dirty_prev s)"

context vdp_device
begin

text \<open>What a key press may do: \<open>s\<close> and \<open>v\<close> before, the new state and the port writes.\<close>

definition key_ok :: "life \<Rightarrow> mem \<Rightarrow> 'v \<Rightarrow> life \<times> io list \<Rightarrow> bool" where
  "key_ok s c v r \<longleftrightarrow>
    frame_ok (fst r) c \<and> debug_ok (fst r) \<and> recolors v (run_io cmd data (snd r) v) \<and>
    (colors_ok (vram v) (dirty_prev s) \<longrightarrow>
      colors_ok (vram (run_io cmd data (snd r) v)) (dirty_prev (fst r)) \<or> debug_snapshot_pending (fst r) \<noteq> 0)"

lemma key_ok_if: "(P \<Longrightarrow> key_ok s c v a) \<Longrightarrow> (\<not> P \<Longrightarrow> key_ok s c v b) \<Longrightarrow> key_ok s c v (if P then a else b)"
  by simp

lemma key_frame:
  assumes f: "frame_ok s c" and d: "debug_ok s" and i: "idle v" and lay: "harmless lay"
  shows "key_ok s c v (handle_key lay key s)"
proof -
  have silent: "key_ok s c v (t, [])" if "frame_ok t c" "debug_ok t" "dirty_prev t = dirty_prev s" for t
    using that recolors_refl [OF i] by (simp add: key_ok_def)
  have toggle: "key_ok s c v
      (let s = s\<lparr>debug_dirty_enabled := (if debug_dirty_enabled s = 0 then 1 else 0)\<rparr>
       in if debug_dirty_enabled s = 0
          then (case vdp_debug_dirty_clear (dirty_prev s) of (prev, out) \<Rightarrow> (s\<lparr>dirty_prev := prev\<rparr>, out))
          else (s, []))"
  proof (cases "debug_dirty_enabled s = 0")
    case True
    with f show ?thesis by (auto simp: Let_def debug_ok_def intro!: silent)
  next
    case False
    with f run_dirty_clear [OF i, of "dirty_prev s"] show ?thesis
      by (simp add: Let_def key_ok_def split_beta debug_ok_def dirty_clear_prev)
  qed
  have snap: "key_ok s c v (vdp_debug_clean_snapshot s)"
    using f d run_recolor_grid [OF i] by (simp add: key_ok_def vdp_debug_clean_snapshot_def)
  note rs = reseed_key [OF f d lay]
  have digit: "key_ok s c v (let add = a; e = g add; e = h e in (s\<lparr>entropy := e\<rparr>, []))"
    for a :: u16 and g h :: "u16 \<Rightarrow> u16"
    using f d by (simp add: Let_def silent)
  show ?thesis
    unfolding handle_key_def
    by (intro key_ok_if toggle snap digit silent rs f d refl)
qed

lemma scan_frame:
  assumes "frame_ok s c" and "debug_ok s" and "idle v" and "debug_snapshot_pending s = 0" and "harmless lay"
  shows "key_ok s c v (scan_keyboard lay k s)"
proof -
  let ?s = "s\<lparr>debug_key_prev := ucast k\<rparr>"
  have "key_ok ?s c v (handle_key lay (ucast k) ?s)" using assms by (intro key_frame) simp_all
  then have "key_ok s c v (handle_key lay (ucast k) ?s)" by (simp add: key_ok_def)
  moreover have "key_ok s c v (?s, [])" using assms recolors_refl by (simp add: key_ok_def)
  ultimately show ?thesis by (simp add: scan_keyboard_def Let_def)
qed

text \<open>The two colour passes after the keys.\<close>

definition dirty_pass :: "life \<Rightarrow> life \<times> io list" where
  "dirty_pass s = (if debug_dirty_enabled s \<noteq> 0
     then (case vdp_debug_dirty_update (dirty_tiles s) (dirty_prev s) of
             (prev, out) \<Rightarrow> (s\<lparr>dirty_prev := prev\<rparr>, out))
     else (s, []))"

definition snapshot_pass :: "life \<Rightarrow> life \<times> io list" where
  "snapshot_pass s = (if debug_snapshot_pending s \<noteq> 0 then vdp_debug_clean_snapshot_clear s else (s, []))"

lemma dirty_pass_ok:
  assumes "frame_ok s c" and "debug_ok s" and i: "idle v"
  shows "key_ok s c v (dirty_pass s)"
    and "debug_snapshot_pending (fst (dirty_pass s)) = debug_snapshot_pending s"
  using assms run_dirty_update [OF i, where dirty = "dirty_tiles s" and prev = "dirty_prev s"] recolors_refl [OF i]
  by (auto simp: key_ok_def dirty_pass_def split_beta debug_ok_def)

lemma snapshot_pass_ok:
  assumes "frame_ok s c" and "debug_ok s" and i: "idle v"
    and "debug_snapshot_pending s = 0 \<Longrightarrow> colors_ok (vram v) (dirty_prev s)"
  shows "frame_ok (fst (snapshot_pass s)) c" and "debug_ok (fst (snapshot_pass s))"
    and "debug_snapshot_pending (fst (snapshot_pass s)) = 0"
    and "recolors v (run_io cmd data (snd (snapshot_pass s)) v)"
    and "colors_ok (vram (run_io cmd data (snd (snapshot_pass s)) v)) (dirty_prev (fst (snapshot_pass s)))"
  using assms run_recolor_grid [OF i, of "\<lambda>_ _. False" "color_pair 7"] recolors_refl [OF i] colors_ok_all [OF i]
  by (auto simp: snapshot_pass_def vdp_debug_clean_snapshot_clear_def)

lemma recolors_screen:
  assumes "recolors v w"
  shows "gfx2_setup (reg w) (vram w) = gfx2_setup (reg v) (vram v)" and "reg w = reg v"
    and "shows_board (vram w) b = shows_board (vram v) b"
proof -
  have eq: "vram w k = vram v k" if "k < 0x2000" for k using assms that by (simp add: recolors_def)
  show r: "reg w = reg v" using assms by (simp add: recolors_def)
  show "gfx2_setup (reg w) (vram w) = gfx2_setup (reg v) (vram v)"
    unfolding gfx2_setup_def r using eq by auto
  show "shows_board (vram w) b = shows_board (vram v) b"
    unfolding shows_board_def using eq by auto
qed

lemma draw_screen:
  assumes "idle v" and "gfx2_setup (reg v) (vram v)" and "draws s c" and "shows_board (vram v) c"
    and "colors_ok (vram v) p"
  defines "w \<equiv> run_io cmd data (vdp_write_dirty_patterns (dirty_tiles s) (board (cur s) s)) v"
  shows "idle w" and "reg w = reg v" and "gfx2_setup (reg w) (vram w)"
    and "shows_board (vram w) (board (cur s) s)" and "colors_ok (vram w) p"
proof -
  note d = run_dirty_patterns [OF assms(1)]
  show "idle w" and r: "reg w = reg v" unfolding w_def by (simp_all add: d)
  show "gfx2_setup (reg w) (vram w)" using assms(2) unfolding r by (simp add: gfx2_setup_def w_def d)
  show "shows_board (vram w) (board (cur s) s)"
    unfolding w_def by (rule run_dirty_shows [OF assms(1)]) (use assms(3,4) in \<open>auto simp: draws_def\<close>)
  show "colors_ok (vram w) p" using assms(5) by (simp add: colors_ok_def tile_colored_def w_def d)
qed

lemma frame_inv:
  assumes inv: "life_inv s (reg v) (vram v)" and i: "idle v" and lay: "harmless lay" and fr: "life_frame lay f k s = (s', out)"
  shows "idle (run_io cmd data out v) \<and> life_inv s' (reg (run_io cmd data out v)) (vram (run_io cmd data out v))"
proof -
  define c where "c = board (cur s) s"
  define s0 where "s0 = s\<lparr>cur := next s, next := cur s\<rparr>"
  define s2 where "s2 = frame_entropy f (step_board (next s0) (cur s0) s0)"
  define k3 where "k3 = scan_keyboard lay k s2"
  define k4 where "k4 = dirty_pass (fst k3)"
  define k5 where "k5 = snapshot_pass (fst k4)"
  have ne: "cur s0 \<noteq> next s0" "rng_state s0 \<noteq> 0" "next s0 \<noteq> cur s0" "\<not> lost s0"
    using inv by (auto simp: life_inv_def s0_def)
  have "frame_ok (step_board (next s0) (cur s0) s0) c"
    using step_frame_ok [OF ne(1,2,4)] by (simp add: c_def s0_def)
  then have f2: "frame_ok s2 c" by (simp add: s2_def frame_entropy_def)
  have "dirty_prev s0 = dirty_prev s" "debug_dirty_enabled s0 = debug_dirty_enabled s"
    "debug_snapshot_pending s0 = debug_snapshot_pending s" by (simp_all add: s0_def)
  then have d2: "debug_ok s2" "dirty_prev s2 = dirty_prev s" "debug_snapshot_pending s2 = 0"
    using inv by (simp_all add: s2_def frame_entropy_def life_inv_def debug_ok_def step_board_values [OF ne(3)])
  define v3 where "v3 = run_io cmd data (snd k3) v"
  have k3: "key_ok s2 c v k3" unfolding k3_def by (rule scan_frame [OF f2 d2(1) i d2(3) lay])
  then have r3: "recolors v v3" "idle v3" using recolors_idle by (auto simp: key_ok_def v3_def)
  define v4 where "v4 = run_io cmd data (snd k4) v3"
  have k4: "key_ok (fst k3) c v3 k4" "debug_snapshot_pending (fst k4) = debug_snapshot_pending (fst k3)"
    using dirty_pass_ok [OF _ _ r3(2), of "fst k3" c] k3 by (auto simp: k4_def key_ok_def)
  then have r4: "recolors v3 v4" "idle v4" using recolors_idle by (auto simp: key_ok_def v4_def)
  have col: "colors_ok (vram v4) (dirty_prev (fst k4))" if "debug_snapshot_pending (fst k4) = 0"
    using that k3 k4 inv d2 by (simp add: key_ok_def life_inv_def v3_def v4_def)
  define v5 where "v5 = run_io cmd data (snd k5) v4"
  have f4: "frame_ok (fst k4) c" "debug_ok (fst k4)" using k4(1) by (simp_all add: key_ok_def)
  note p5 = snapshot_pass_ok [OF f4 r4(2) col, folded k5_def, folded v5_def]
  have r5: "recolors v v5" "idle v5"
    using recolors_trans [OF recolors_trans [OF r3(1) r4(1)]] p5(4) recolors_idle by blast+
  have sh: "gfx2_setup (reg v5) (vram v5)" "shows_board (vram v5) c" "reg v5 = reg v"
    using recolors_screen [OF r5(1)] inv by (simp_all add: life_inv_def c_def)
  have dr: "draws (fst k5) c" using p5(1) by (simp add: frame_ok_def)
  note w = draw_screen [OF r5(2) sh(1) dr sh(2) p5(5)]
  have "life_frame lay f k s =
      (fst k5, snd k3 @ snd k4 @ snd k5 @ vdp_write_dirty_patterns (dirty_tiles (fst k5)) (board (cur (fst k5)) (fst k5)))"
    unfolding life_frame_def Let_def k5_def k4_def k3_def s2_def s0_def dirty_pass_def snapshot_pass_def
    by (simp add: split_beta)
  with fr have "s' = fst k5" "run_io cmd data out v =
      run_io cmd data (vdp_write_dirty_patterns (dirty_tiles (fst k5)) (board (cur (fst k5)) (fst k5))) v5"
    by (auto simp: v5_def v4_def v3_def)
  with w p5 sh(3) inv show ?thesis by (simp add: life_inv_def frame_ok_def)
qed

section \<open>Start-up\<close>

lemma init_inv:
  assumes lay: "harmless lay" and i: "idle v" and st: "life_init lay life_globals = (s, out)"
  shows "idle (run_io cmd data out v) \<and> life_inv s (reg (run_io cmd data out v)) (vram (run_io cmd data out v))"
proof -
  define s1 where "s1 = seed_board lay (cur life_globals) 70 life_globals"
  define s2 where "s2 = s1\<lparr>active_tiles := build_active_tiles (board (cur s1) s1) (active_tiles s1)\<rparr>"
  define s3 where "s3 = s2\<lparr>dirty_tiles := mark_all_dirty (dirty_tiles s2)\<rparr>"
  define u where "u = run_io cmd data (vdp_init_gfx2 @ vdp_clear_pattern_table @ vdp_init_name_table @
    vdp_init_color_table) v"
  define w where "w = run_io cmd data vdp_disable_sprites u"
  have iu: "idle u" and "gfx2_setup (reg u) (vram u)" unfolding u_def by (rule run_tables [OF i])+
  have cu: "vram u k = color_pair 7" if "0x2000 \<le> k" "k < 0x3800" for k
    unfolding u_def using that by (rule run_tables [OF i])
  note sp = run_sprites [OF iu, folded w_def]
  have tabs: "idle w" "gfx2_setup (reg w) (vram w)"
    using sp \<open>gfx2_setup (reg u) (vram u)\<close> by (simp_all add: gfx2_setup_def)
  have "vram w k = color_pair 7" if "0x2000 \<le> k" "k < 0x3800" for k
    using that cu sp(3) [of k] by simp
  then have col: "colors_ok (vram w) (dirty_prev s3)" by (simp add: colors_ok_def tile_colored_def)
  have nb: "\<not> LIFE_DRAW_BORDER" by (simp add: LIFE_DRAW_BORDER_def LIFE_BORDER_X_def LIFE_BORDER_Y_def)
  have s: "s = s3" and out: "run_io cmd data out v =
      run_io cmd data vdp_display_on (run_io cmd data (vdp_write_dirty_patterns (dirty_tiles s3) (board (cur s3) s3)) w)"
    using st nb by (auto simp: life_init_def Let_def s3_def s2_def s1_def w_def u_def)
  define w2 where "w2 = run_io cmd data (vdp_write_dirty_patterns (dirty_tiles s3) (board (cur s3) s3)) w"
  have dr: "draws s3 c" for c unfolding s3_def by (rule draws_all_dirty)
  note d = run_dirty_patterns [OF tabs(1)]
  have rows: "row_or (dirty_tiles s3) ty \<noteq> 0" if "ty < 24" for ty
    using that mark_all_dirty_byte [of _ "ty * 32 + 0"] unfolding row_or_zero_iff s3_def
    by (auto intro!: exI [of _ 0])
  have "shows_board (vram w2) (board (cur s3) s3)"
    unfolding w2_def by (rule run_dirty_shows [OF tabs(1)]) (use rows in auto)
  moreover have "idle w2" "reg w2 = reg w" by (simp_all add: w2_def d)
  moreover have "gfx2_setup (reg w2) (vram w2)"
    using tabs(2) by (simp add: gfx2_setup_def w2_def d)
  moreover have "colors_ok (vram w2) (dirty_prev s3)"
    using col by (simp add: colors_ok_def tile_colored_def w2_def d)
  moreover have "cur s3 \<noteq> next s3" "\<not> lost s3" "rng_state s3 \<noteq> 0" "debug_ok s3" "debug_snapshot_pending s3 = 0"
    using seed_board_keeps [OF lay, of life_globals "cur life_globals" 70, folded s1_def]
    by (simp_all add: s3_def s2_def debug_ok_def) (simp_all add: seeding_keeps_def life_globals_def)
  moreover have "active_ok (active_tiles s3) (board (cur s3) s3)"
    by (simp add: s3_def s2_def build_active_tiles_ok)
  ultimately show ?thesis
    unfolding out s w2_def [symmetric] by (simp add: life_inv_def run_display_on gfx2_setup_def)
qed

lemma reach_inv:
  assumes "harmless lay" and "idle v0" and "life_reach lay cmd data v0 s v"
  shows "idle v \<and> life_inv s (reg v) (vram v)"
  using assms(3) by induction (use init_inv [OF assms(1,2)] frame_inv [OF _ _ assms(1)] in auto)

end

section \<open>Frames without reseeding\<close>

definition reseed_keys :: "u8 list" where
  "reseed_keys = map of_char ''ZzXxCcVvBbRr''"

lemma handle_key_boards:
  assumes "key \<notin> set reseed_keys"
  shows "cur (fst (handle_key lay key s)) = cur s" and "board r (fst (handle_key lay key s)) = board r s"
  using assms
  by (simp_all add: handle_key_def is_key_def reseed_keys_def Let_def vdp_debug_clean_snapshot_def split_beta)

lemma life_frame_board:
  assumes "ucast k \<notin> set reseed_keys" and "cur s \<noteq> next s" and "x < 128" and "y < 96"
    and "active_ok (active_tiles s) (board (cur s) s)"
  shows "cell 16 (board (cur (fst (life_frame lay f k s))) (fst (life_frame lay f k s))) x y \<longleftrightarrow>
    life_step 128 96 (cell 16 (board (cur s) s)) x y"
proof -
  define s0 where "s0 = s\<lparr>cur := next s, next := cur s\<rparr>"
  define s1 where "s1 = step_board (next s0) (cur s0) s0"
  have n: "next s0 = cur s" "cur s0 = next s" by (simp_all add: s0_def)
  have c1: "cur s1 = next s" using assms(2) by (simp add: s1_def n step_board_values(7))
  have e: "cur (frame_entropy f t) = cur t" "board r (frame_entropy f t) = board r t" for r t
    by (simp_all add: frame_entropy_def)
  have k: "cur (fst (scan_keyboard lay k t)) = cur t" "board r (fst (scan_keyboard lay k t)) = board r t" for r t
    using handle_key_boards [OF assms(1)] by (simp_all add: scan_keyboard_def Let_def)
  have "cur (fst (life_frame lay f k s)) = next s" "board r (fst (life_frame lay f k s)) = board r s1" for r
    by (simp_all add: life_frame_def Let_def split_beta vdp_debug_clean_snapshot_clear_def e k c1
        flip: s0_def s1_def)
  moreover have "active_ok (active_tiles s0) (board (cur s) s0)" using assms(5) by (simp add: s0_def)
  ultimately show ?thesis
    using step_board_cells [OF assms(2), of s0 x y] assms(3,4) by (simp add: s1_def n) (simp add: s0_def)
qed

lemma expand4_bit:
  assumes "n < 16" and "i < 8"
  shows "bit (expand4 ! n) i \<longleftrightarrow> bit n (i div 2)"
proof -
  have n: "n \<in> set [0..<16]" and i: "i \<in> set [0..<8]" using assms by auto
  have "\<forall>n \<in> set [0..<16]. \<forall>i \<in> set [0..<8]. bit (expand4 ! n) i = bit n (i div 2)"
    by code_simp
  with n i show ?thesis by blast
qed

lemma shows_board_pixel:
  assumes sh: "shows_board vram b" and gfx: "gfx2_setup reg vram" and px: "px < 256" and py: "py < 192"
  shows "pattern_bit reg vram px py \<longleftrightarrow> cell 16 b (px div 2) (py div 2)"
proof -
  define tx ty i j where "tx = px div 8" and "ty = py div 8" and "i = py mod 8" and "j = px mod 8"
  have lt: "tx < 32" "ty < 24" "i < 8" "j < 8" using px py by (auto simp: tx_def ty_def i_def j_def)
  let ?n = "tile_nibble b (4 * ty + i div 2) tx"
  have n16: "unat ?n < 16"
  proof -
    have "take_bit 4 ?n = ?n"
    proof (rule bit_eqI)
      fix m
      show "bit (take_bit 4 ?n) m = bit ?n m"
        using tile_nibble_lt [of b "4 * ty + i div 2" tx "m - 4"]
        by (cases "m < 4") (simp_all add: bit_take_bit_iff)
    qed
    then have "unat ?n = unat ?n mod 2 ^ 4" by (metis unat_take_bit_mod)
    then show ?thesis by simp
  qed
  have "pattern_bit reg vram px py \<longleftrightarrow> bit (vram (ty * 256 + tx * 8 + i)) (7 - j)"
    using gfx2_pixel(1) [OF gfx px py] by (simp add: tx_def ty_def i_def j_def)
  also have "\<dots> \<longleftrightarrow> bit (unat ?n) ((7 - j) div 2)"
    using sh lt n16 by (simp add: shows_board_def expand4_bit)
  also have "(7 - j) div 2 = 3 - j div 2" using lt(4) by linarith
  also have "bit (unat ?n) (3 - j div 2) \<longleftrightarrow> bit ?n (3 - j div 2)" by (simp add: bit_unsigned_iff)
  also have "\<dots> \<longleftrightarrow> cell 16 b (4 * tx + j div 2) (4 * ty + i div 2)"
    using lt(4) by (intro tile_nibble_bit) simp
  also have "4 * tx + j div 2 = px div 2" unfolding tx_def j_def by presburger
  also have "4 * ty + i div 2 = py div 2" unfolding ty_def i_def by presburger
  finally show ?thesis .
qed

lemma colors_ok_pixel:
  assumes col: "colors_ok vram p" and gfx: "gfx2_setup reg vram" and px: "px < 256" and py: "py < 192"
  shows "color_byte reg vram px py = color_pair 0x07 \<or>
    p (py div 8 * 32 + px div 8) \<noteq> 0 \<and> color_byte reg vram px py = color_pair 0x09"
proof -
  have "px div 8 < 32" "py div 8 < 24" "py mod 8 < 8" using px py by auto
  with col show ?thesis
    unfolding gfx2_pixel(2) [OF gfx px py] colors_ok_def tile_colored_def by blast
qed

section \<open>Correctness of the program\<close>

text \<open>
  C1. On a device that behaves as documented, and for a memory layout in which the 49 bytes behind each
  board, where the seeding stores at power-up and on reseeding, hold none of the board pointers, debug switches and
  remembered dirty tiles: in every state the program reaches the display is on and each pixel of the
  screen is set exactly when the cell at half its coordinates is alive; with the debug colours off, live
  cells are cyan and dead ones black. The order of the declarations is such a layout.
\<close>

theorem life_screen:
  assumes lay: "harmless lay" and dev: "vdp_device cmd data vram addr reg idle" and i: "idle v0"
    and reach: "life_reach lay cmd data v0 s v" and px: "px < 256" and py: "py < 192"
  shows "reg v 1 = 0xE0 \<and>
    (pattern_bit (reg v) (vram v) px py \<longleftrightarrow> cell 16 (board (cur s) s) (px div 2) (py div 2)) \<and>
    (debug_dirty_enabled s = 0 \<longrightarrow>
      pixel_color (reg v) (vram v) px py = (if cell 16 (board (cur s) s) (px div 2) (py div 2) then 7 else 1))"
proof -
  have inv: "life_inv s (reg v) (vram v)" using vdp_device.reach_inv [OF dev lay i reach] by blast
  then have gfx: "gfx2_setup (reg v) (vram v)" by (simp add: life_inv_def)
  have "px div 8 < 32" "py div 8 < 24" using px py by auto
  then have "py div 8 * 32 + px div 8 < 768" by linarith
  then have "color_byte (reg v) (vram v) px py = color_pair 7" if "debug_dirty_enabled s = 0"
    using colors_ok_pixel [OF _ gfx px py, of "dirty_prev s"] inv that by (auto simp: life_inv_def debug_ok_def)
  moreover have "drop_bit 4 (color_pair 7) = 7" "color_pair 7 AND 0x0F = 1" by (simp_all add: color_pair_def)
  moreover have "pattern_bit (reg v) (vram v) px py \<longleftrightarrow> cell 16 (board (cur s) s) (px div 2) (py div 2)"
    using shows_board_pixel [OF _ gfx px py] inv by (simp add: life_inv_def)
  ultimately show ?thesis using inv by (auto simp: life_inv_def pixel_color_def)
qed

theorem life_screen_witness:
  "\<exists>s v. life_reach source_layout tms9918_cmd tms9918_data power_up s v \<and> registers v 1 = 0xE0 \<and>
    (pattern_bit (registers v) (video_ram v) 17 33 \<longleftrightarrow> cell 16 (board (cur s) s) 8 16)"
proof -
  obtain s out where st: "life_init source_layout life_globals = (s, out)" by fastforce
  have "tms9918_idle power_up" by (simp add: tms9918_idle_def power_up_def)
  from life_screen [OF source_layout_harmless tms9918.vdp_device_axioms this life_reach.start [OF st], of 17 33]
  show ?thesis using life_reach.start [OF st] by (intro exI conjI) auto
qed

text \<open>
  C2. For a memory layout in which the stores of the seeding past the end of a board do no harm, a frame in
  which no reseeding key is seen computes, from every reachable state, one generation of the Game of Life on
  the torus of 128 by 96 cells.
\<close>

theorem life_generation:
  assumes lay: "harmless lay" and dev: "vdp_device cmd data vram addr reg idle" and i: "idle v0"
    and reach: "life_reach lay cmd data v0 s v" and key: "ucast k \<notin> set reseed_keys"
    and x: "x < 128" and y: "y < 96"
  shows "cell 16 (board (cur (fst (life_frame lay f k s))) (fst (life_frame lay f k s))) x y \<longleftrightarrow>
    life_step 128 96 (cell 16 (board (cur s) s)) x y"
  using vdp_device.reach_inv [OF dev lay i reach] life_frame_board [OF key _ x y] by (simp add: life_inv_def)

theorem life_generation_witness:
  "\<exists>s v. life_reach source_layout tms9918_cmd tms9918_data power_up s v \<and>
    cell 16 (board (cur (fst (life_frame source_layout 1 0 s))) (fst (life_frame source_layout 1 0 s))) 5 7 =
    life_step 128 96 (cell 16 (board (cur s) s)) 5 7"
proof -
  obtain s out where st: "life_init source_layout life_globals = (s, out)" by fastforce
  have i: "tms9918_idle power_up" by (simp add: tms9918_idle_def power_up_def)
  have "ucast (0 :: u16) \<notin> set reseed_keys" by (simp add: reseed_keys_def)
  from life_generation [OF source_layout_harmless tms9918.vdp_device_axioms i life_reach.start [OF st] this, of 5 7 1]
  show ?thesis using life_reach.start [OF st] by (intro exI conjI) auto
qed

text \<open>
  C17. For a memory layout in which the stores of the seeding past the end of a board do no harm, in every
  reachable state the two board pointers differ and no store has hit them, the random number generator is not stuck
  at zero, every tile around a live cell is marked active, and the colours of every pixel are the normal
  ones or, for a tile remembered in \<open>dirty_prev\<close>, the dirty ones: the purple of the clean-tile snapshot
  never outlives the frame that painted it.
\<close>

theorem life_invariants:
  assumes lay: "harmless lay" and dev: "vdp_device cmd data vram addr reg idle" and i: "idle v0"
    and reach: "life_reach lay cmd data v0 s v" and px: "px < 256" and py: "py < 192"
  shows "cur s \<noteq> next s \<and> \<not> lost s \<and> rng_state s \<noteq> 0 \<and> active_ok (active_tiles s) (board (cur s) s) \<and>
    debug_snapshot_pending s = 0 \<and>
    (color_byte (reg v) (vram v) px py = 0x71 \<or>
     dirty_prev s (py div 8 * 32 + px div 8) \<noteq> 0 \<and> color_byte (reg v) (vram v) px py = 0x91)"
proof -
  have inv: "life_inv s (reg v) (vram v)" using vdp_device.reach_inv [OF dev lay i reach] by blast
  then have col: "colors_ok (vram v) (dirty_prev s)" "gfx2_setup (reg v) (vram v)" by (simp_all add: life_inv_def)
  have "color_pair 7 = 0x71" "color_pair 9 = 0x91" by (simp_all add: color_pair_def)
  then show ?thesis using colors_ok_pixel [OF col px py] inv by (simp add: life_inv_def)
qed

theorem life_invariants_witness:
  "\<exists>s v. life_reach source_layout tms9918_cmd tms9918_data power_up s v \<and> cur s \<noteq> next s \<and> rng_state s \<noteq> 0 \<and>
    active_ok (active_tiles s) (board (cur s) s)"
proof -
  obtain s out where st: "life_init source_layout life_globals = (s, out)" by fastforce
  have "tms9918_idle power_up" by (simp add: tms9918_idle_def power_up_def)
  from life_invariants [OF source_layout_harmless tms9918.vdp_device_axioms this life_reach.start [OF st], of 0 0]
  show ?thesis using life_reach.start [OF st] by (intro exI conjI) auto
qed

end
