(* ===== verification/Life_Full.thy ===== *)
theory Life_Full
  imports Life_Tiles Vdp_Gfx2
begin

text \<open>
  The full-resolution Game of Life cartridges \<^verbatim>\<open>cart_example/life.c\<close> and \<^verbatim>\<open>cart_example/life2.c\<close>. The
  board is the bitmap of the screen, 192 rows of 32 bytes; the torus is the region of 224 by 160
  cells at (16, 16), divided into 28 by 20 tiles of eight by eight cells, one byte wide. The two
  programs only differ in \<open>step_board\<close>: \<^verbatim>\<open>life2.c\<close> slides a window of words along a row where \<^verbatim>\<open>life.c\<close>
  loads nine words at every step. A store of \<open>set_cell\<close> outside the board is logged in \<open>stray\<close>, and the theorems
  show that there is none. The two arguments of \<open>step_board\<close> are always the two different boards.
\<close>

section \<open>Constants and data\<close>

abbreviation (input) LIFE_REGION_X0 :: nat where "LIFE_REGION_X0 \<equiv> 16"
abbreviation (input) LIFE_REGION_Y0 :: nat where "LIFE_REGION_Y0 \<equiv> 16"
abbreviation (input) LIFE_REGION_X1 :: nat where "LIFE_REGION_X1 \<equiv> 239"
abbreviation (input) LIFE_REGION_Y1 :: nat where "LIFE_REGION_Y1 \<equiv> 175"
abbreviation (input) LIFE_REGION_BYTE_X0 :: nat where "LIFE_REGION_BYTE_X0 \<equiv> 2"
abbreviation (input) LIFE_REGION_ROW_BYTES :: nat where "LIFE_REGION_ROW_BYTES \<equiv> 28"
abbreviation (input) LIFE_REGION_WORDS :: nat where "LIFE_REGION_WORDS \<equiv> 14"
abbreviation (input) ROW_BYTES :: nat where "ROW_BYTES \<equiv> 32"
abbreviation (input) SCREEN_H :: nat where "SCREEN_H \<equiv> 192"
abbreviation (input) LIFE_TILES_W :: nat where "LIFE_TILES_W \<equiv> 28"
abbreviation (input) LIFE_TILES_H :: nat where "LIFE_TILES_H \<equiv> 20"

definition bit_mask :: "u8 list" where
  "bit_mask = [0x80, 0x40, 0x20, 0x10, 0x08, 0x04, 0x02, 0x01]"

record life_full =
  rng_state :: u16
  board_a :: mem
  board_b :: mem
  cur :: board_ref
  "next" :: board_ref
  active_tiles :: mem
  live_tiles :: mem
  dirty_tiles :: mem
  stray :: "nat list"

definition board :: "board_ref \<Rightarrow> life_full \<Rightarrow> mem" where
  "board r s = (case r of Board_A \<Rightarrow> board_a s | Board_B \<Rightarrow> board_b s)"

definition set_board :: "board_ref \<Rightarrow> mem \<Rightarrow> life_full \<Rightarrow> life_full" where
  "set_board r b s = (case r of Board_A \<Rightarrow> s\<lparr>board_a := b\<rparr> | Board_B \<Rightarrow> s\<lparr>board_b := b\<rparr>)"

section \<open>Border colours\<close>

definition vdp_apply_border_colors :: "io list" where
  "vdp_apply_border_colors =
    (let tile_x_left = (LIFE_REGION_X0 - 1) div 8; tile_x_right = (LIFE_REGION_X1 + 1) div 8;
         tile_y_top = (LIFE_REGION_Y0 - 1) div 8; tile_y_bottom = (LIFE_REGION_Y1 + 1) div 8;
         color = color_pair 0x0B
     in concat (map (\<lambda>tile_x. vdp_set_tile_color (of_nat tile_y_top) (of_nat tile_x) color @
                              vdp_set_tile_color (of_nat tile_y_bottom) (of_nat tile_x) color)
          [tile_x_left..<tile_x_right + 1]) @
        concat (map (\<lambda>tile_y. vdp_set_tile_color (of_nat tile_y) (of_nat tile_x_left) color @
                              vdp_set_tile_color (of_nat tile_y) (of_nat tile_x_right) color)
          [tile_y_top..<tile_y_bottom + 1]))"

section \<open>Tiles\<close>

definition build_active_tiles :: "mem \<Rightarrow> mem \<Rightarrow> mem" where
  "build_active_tiles src active =
    fold (\<lambda>ty. fold (\<lambda>tx active.
        (let y_base = LIFE_REGION_Y0 + 8 * ty; xbyte = LIFE_REGION_BYTE_X0 + tx;
             any = fold (\<lambda>row any. any OR src ((y_base + row) * ROW_BYTES + xbyte)) [0..<8] 0
         in if any \<noteq> 0 then mark_neighbourhood LIFE_TILES_H LIFE_TILES_W ty tx active else active))
      [0..<LIFE_TILES_W]) [0..<LIFE_TILES_H] (clear_tiles LIFE_TILES_H LIFE_TILES_W active)"

definition build_active_from_live :: "mem \<Rightarrow> mem \<Rightarrow> mem" where
  "build_active_from_live live active =
    fold (\<lambda>ty. fold (\<lambda>tx active.
        if live (ty * LIFE_TILES_W + tx) = 0 then active
        else mark_neighbourhood LIFE_TILES_H LIFE_TILES_W ty tx active)
      [0..<LIFE_TILES_W]) [0..<LIFE_TILES_H] (clear_tiles LIFE_TILES_H LIFE_TILES_W active)"

section \<open>Boards\<close>

definition clear_board :: "mem \<Rightarrow> mem" where
  "clear_board b =
    fold (\<lambda>y. fold (\<lambda>x b. b(y * ROW_BYTES + x := 0)) [0..<ROW_BYTES]) [0..<SCREEN_H] b"

definition clear_board_region :: "mem \<Rightarrow> mem" where
  "clear_board_region b =
    fold (\<lambda>y. fold (\<lambda>x b. b(y * ROW_BYTES + x := 0))
        [LIFE_REGION_BYTE_X0..<LIFE_REGION_BYTE_X0 + LIFE_REGION_ROW_BYTES])
      [LIFE_REGION_Y0..<LIFE_REGION_Y1 + 1] b"

definition get_cell :: "mem \<Rightarrow> u16 \<Rightarrow> u16 \<Rightarrow> u8" where
  "get_cell b x y =
    (if b (unat y * ROW_BYTES + unat (drop_bit 3 x)) AND bit_mask ! unat (x AND 7) \<noteq> 0 then 1 else 0)"

type_synonym logged = "mem \<times> nat list"  \<comment> \<open>board, stray stores\<close>

definition set_cell :: "u16 \<Rightarrow> u16 \<Rightarrow> logged \<Rightarrow> logged" where
  "set_cell x y = (\<lambda>(b, log).
    (let off = unat y * ROW_BYTES + unat (drop_bit 3 x)
     in if off < SCREEN_H * ROW_BYTES
        then (b(off := b off OR bit_mask ! unat (x AND 7)), log)
        else (b, log @ [off])))"

definition draw_border :: "logged \<Rightarrow> logged" where
  "draw_border bl =
    (let x_left = LIFE_REGION_X0 - 1; x_right = LIFE_REGION_X1 + 1;
         y_top = LIFE_REGION_Y0 - 1; y_bottom = LIFE_REGION_Y1 + 1;
         bl = fold (\<lambda>x bl. set_cell (of_nat x) (of_nat y_bottom) (set_cell (of_nat x) (of_nat y_top) bl))
                [x_left..<x_right + 1] bl
     in fold (\<lambda>y bl. set_cell (of_nat x_right) (of_nat y) (set_cell (of_nat x_left) (of_nat y) bl))
          [y_top..<y_bottom + 1] bl)"

definition seed_block :: "u16 \<Rightarrow> u16 \<Rightarrow> logged \<Rightarrow> logged" where
  "seed_block x0 y0 = fold (\<lambda>y. fold (\<lambda>x. set_cell (x0 + of_nat x) (y0 + of_nat y)) [0..<4]) [0..<4]"

definition seed_grid :: "u16 \<times> logged \<Rightarrow> u16 \<times> logged" where
  "seed_grid =
    fold (\<lambda>i. fold (\<lambda>j (rng, bl).
        (let rng = rng_next rng
         in if (ucast rng :: u8) < 40
            then (rng, seed_block (of_nat (LIFE_REGION_X0 + 4 * j)) (of_nat (LIFE_REGION_Y0 + 4 * i)) bl)
            else (rng, bl)))
      [0..<(LIFE_REGION_X1 + 1 - LIFE_REGION_X0) div 4]) [0..<(LIFE_REGION_Y1 + 1 - LIFE_REGION_Y0) div 4]"

definition seed_board :: "u16 \<times> logged \<Rightarrow> u16 \<times> logged" where
  "seed_board = (\<lambda>(rng, b, log).
    (let (rng, bl) = seed_grid (rng, clear_board_region b, log);
         mask = NOT 3;
         rng = rng_next rng; edge_x = of_nat LIFE_REGION_X0 + ((rng AND 223) AND mask);
         rng = rng_next rng; edge_y = of_nat LIFE_REGION_Y0 + ((rng AND 159) AND mask);
         bl = seed_block (of_nat LIFE_REGION_X0) edge_y bl;
         bl = seed_block (of_nat (LIFE_REGION_X1 - 3)) edge_y bl;
         bl = seed_block edge_x (of_nat LIFE_REGION_Y0) bl;
         bl = seed_block edge_x (of_nat (LIFE_REGION_Y1 - 3)) bl
     in (rng, draw_border bl)))"

section \<open>One generation, \<^verbatim>\<open>life.c\<close>\<close>

definition mark_halves :: "nat \<Rightarrow> nat \<Rightarrow> u16 \<Rightarrow> mem \<Rightarrow> mem" where
  "mark_halves ty tile_x v t =
    (let t = (if v AND 0xFF00 \<noteq> 0 then t(ty * LIFE_TILES_W + tile_x := 1) else t)
     in if v AND 0x00FF \<noteq> 0 then t(ty * LIFE_TILES_W + (tile_x + 1) := 1) else t)"

type_synonym step_state = "mem \<times> mem \<times> mem"  \<comment> \<open>destination, live tiles, dirty tiles\<close>

text \<open>The index of word \<open>wx\<close> of the region in row \<open>y\<close> of the board.\<close>

definition region_word :: "nat \<Rightarrow> nat \<Rightarrow> nat" where
  "region_word y wx = y * (ROW_BYTES div 2) + LIFE_REGION_BYTE_X0 div 2 + wx"

definition store_word :: "nat \<Rightarrow> nat \<Rightarrow> u16 \<Rightarrow> u16 \<Rightarrow> step_state \<Rightarrow> step_state" where
  "store_word y wx out mC = (\<lambda>(dst, live, dirty).
    (let ty = (y - LIFE_REGION_Y0) div 8; tile_x = 2 * wx
     in (wr16 dst (region_word y wx) out, mark_halves ty tile_x out live,
         mark_halves ty tile_x (out XOR mC) dirty)))"

definition row_prev :: "nat \<Rightarrow> nat" where
  "row_prev y = (if y = LIFE_REGION_Y0 then LIFE_REGION_Y1 else y - 1)"

definition row_next :: "nat \<Rightarrow> nat" where
  "row_next y = (if y = LIFE_REGION_Y1 then LIFE_REGION_Y0 else y + 1)"

definition step_word :: "mem \<Rightarrow> mem \<Rightarrow> nat \<Rightarrow> nat \<Rightarrow> step_state \<Rightarrow> step_state" where
  "step_word active src y wx st =
    (let ty = (y - LIFE_REGION_Y0) div 8; tile_x = 2 * wx
     in if active (ty * LIFE_TILES_W + tile_x) = 0 \<and> active (ty * LIFE_TILES_W + (tile_x + 1)) = 0 then st
        else
          (let wx_left = (if wx = 0 then LIFE_REGION_WORDS - 1 else wx - 1);
               wx_right = (if wx + 1 = LIFE_REGION_WORDS then 0 else wx + 1);
               uL = rd16 src (region_word (row_prev y) wx_left);
               uC = rd16 src (region_word (row_prev y) wx);
               uR = rd16 src (region_word (row_prev y) wx_right);
               mL = rd16 src (region_word y wx_left);
               mC = rd16 src (region_word y wx);
               mR = rd16 src (region_word y wx_right);
               dL = rd16 src (region_word (row_next y) wx_left);
               dC = rd16 src (region_word (row_next y) wx);
               dR = rd16 src (region_word (row_next y) wx_right);
               out = life_next_word_n2n3 (left_lanes uC uL) uC (right_lanes uC uR)
                       (left_lanes mC mL) mC (right_lanes mC mR)
                       (left_lanes dC dL) dC (right_lanes dC dR)
           in store_word y wx out mC st))"

definition step_words :: "mem \<Rightarrow> mem \<Rightarrow> step_state \<Rightarrow> step_state" where
  "step_words active src =
    fold (\<lambda>y. fold (step_word active src y) [0..<LIFE_REGION_WORDS]) [LIFE_REGION_Y0..<LIFE_REGION_Y1 + 1]"

definition step_board :: "board_ref \<Rightarrow> board_ref \<Rightarrow> life_full \<Rightarrow> life_full" where
  "step_board src dst s =
    (let (d, live, dirty) = step_words (active_tiles s) (board src s)
           (clear_board_region (board dst s), clear_tiles LIFE_TILES_H LIFE_TILES_W (live_tiles s),
            clear_tiles LIFE_TILES_H LIFE_TILES_W (dirty_tiles s));
         s = set_board dst d s
     in s\<lparr>live_tiles := live, dirty_tiles := dirty,
          active_tiles := build_active_from_live live (active_tiles s)\<rparr>)"

section \<open>One generation, \<^verbatim>\<open>life2.c\<close>\<close>

text \<open>The cached words are \<open>sw_uC sw_uR sw_mC sw_mR sw_dC sw_dR\<close>; they are only read when \<open>need_reload\<close> is off.\<close>

type_synonym sliding = "bool \<times> (u16 \<times> u16 \<times> u16 \<times> u16 \<times> u16 \<times> u16) \<times> step_state"

definition slide_step :: "mem \<Rightarrow> mem \<Rightarrow> nat \<Rightarrow> nat \<Rightarrow> sliding \<Rightarrow> sliding" where
  "slide_step active src y wx = (\<lambda>(need_reload, sw, st).
    (let ty = (y - LIFE_REGION_Y0) div 8; tile_x = 2 * wx
     in if rd16 active (ty * (LIFE_TILES_W div 2) + tile_x div 2) = 0 then (True, sw, st)
        else
          (let wx_left = (if wx = 0 then LIFE_REGION_WORDS - 1 else wx - 1);
               (uL, uC, mL, mC, dL, dC) =
                 (if need_reload then
                    (rd16 src (region_word (row_prev y) wx_left), rd16 src (region_word (row_prev y) wx),
                     rd16 src (region_word y wx_left), rd16 src (region_word y wx),
                     rd16 src (region_word (row_next y) wx_left), rd16 src (region_word (row_next y) wx))
                  else sw);
               wx_right = (if wx + 1 = LIFE_REGION_WORDS then 0 else wx + 1);
               uR = rd16 src (region_word (row_prev y) wx_right);
               mR = rd16 src (region_word y wx_right);
               dR = rd16 src (region_word (row_next y) wx_right);
               out = life_next_word (left_lanes uC uL) uC (right_lanes uC uR)
                       (left_lanes mC mL) mC (right_lanes mC mR)
                       (left_lanes dC dL) dC (right_lanes dC dR)
           in (False, (uC, uR, mC, mR, dC, dR), store_word y wx out mC st))))"

definition slide_row :: "mem \<Rightarrow> mem \<Rightarrow> nat \<Rightarrow> step_state \<Rightarrow> step_state" where
  "slide_row active src y st =
    snd (snd (fold (slide_step active src y) [0..<LIFE_REGION_WORDS] (True, (0, 0, 0, 0, 0, 0), st)))"

definition clear_tile_words :: "mem \<Rightarrow> mem" where
  "clear_tile_words t = fold (\<lambda>i t. wr16 t i 0) [0..<LIFE_TILES_H * LIFE_TILES_W div 2] t"

definition step_board_sliding :: "board_ref \<Rightarrow> board_ref \<Rightarrow> life_full \<Rightarrow> life_full" where
  "step_board_sliding src dst s =
    (let (d, live, dirty) =
           fold (slide_row (active_tiles s) (board src s)) [LIFE_REGION_Y0..<LIFE_REGION_Y1 + 1]
             (clear_board_region (board dst s), clear_tile_words (live_tiles s), clear_tile_words (dirty_tiles s));
         s = set_board dst d s
     in s\<lparr>live_tiles := live, dirty_tiles := dirty,
          active_tiles := build_active_from_live live (active_tiles s)\<rparr>)"

section \<open>Drawing\<close>

definition vdp_write_tile :: "nat \<Rightarrow> nat \<Rightarrow> mem \<Rightarrow> io list" where
  "vdp_write_tile tile_row tile_col b =
    vdp_set_write_addr (pattern_addr (of_nat tile_row) (of_nat tile_col)) @
    for_io 8 (\<lambda>row_in_char. vdp_data (b ((8 * tile_row + row_in_char) * ROW_BYTES + tile_col)))"

definition vdp_write_border_patterns :: "mem \<Rightarrow> io list" where
  "vdp_write_border_patterns b =
    (let tile_row_top = (LIFE_REGION_Y0 - 1) div 8; tile_row_bottom = (LIFE_REGION_Y1 + 1) div 8;
         tile_col_left = (LIFE_REGION_X0 - 1) div 8; tile_col_right = (LIFE_REGION_X1 + 1) div 8;
         tile_row_top = (if tile_row_top > 23 then 0 else tile_row_top);
         tile_row_bottom = (if tile_row_bottom > 23 then 23 else tile_row_bottom);
         tile_col_left = (if tile_col_left > 31 then 0 else tile_col_left);
         tile_col_right = (if tile_col_right > 31 then 31 else tile_col_right)
     in concat (map (\<lambda>tile_col. vdp_write_tile tile_row_top tile_col b @ vdp_write_tile tile_row_bottom tile_col b)
          [tile_col_left..<tile_col_right + 1]) @
        concat (map (\<lambda>tile_row. vdp_write_tile tile_row tile_col_left b @ vdp_write_tile tile_row tile_col_right b)
          [tile_row_top..<tile_row_bottom + 1]))"

definition vdp_write_patterns :: "mem \<Rightarrow> io list" where
  "vdp_write_patterns b =
    concat (map (\<lambda>tile_row. concat (map (\<lambda>tile_col. vdp_write_tile tile_row tile_col b)
        [LIFE_REGION_X0 div 8..<LIFE_REGION_X1 div 8 + 1])) [LIFE_REGION_Y0 div 8..<LIFE_REGION_Y1 div 8 + 1])"

definition vdp_write_dirty_patterns :: "mem \<Rightarrow> mem \<Rightarrow> io list" where
  "vdp_write_dirty_patterns dirty b =
    for_io LIFE_TILES_H (\<lambda>ty. for_io LIFE_TILES_W (\<lambda>tx.
      if dirty (ty * LIFE_TILES_W + tx) = 0 then []
      else vdp_write_tile (LIFE_REGION_Y0 div 8 + ty) (LIFE_REGION_X0 div 8 + tx) b))"

section \<open>The main programs\<close>

definition life_globals :: life_full where
  "life_globals = \<lparr>rng_state = 0xACE1, board_a = (\<lambda>_. 0), board_b = (\<lambda>_. 0), cur = Board_A, next = Board_B,
     active_tiles = (\<lambda>_. 0), live_tiles = (\<lambda>_. 0), dirty_tiles = (\<lambda>_. 0), stray = []\<rparr>"

definition life_init :: "life_full \<Rightarrow> life_full \<times> io list" where
  "life_init s =
    (let (rng, b, log) = seed_board (rng_state s, board (cur s) s, stray s);
         s1 = set_board (cur s) b (s\<lparr>rng_state := rng, stray := log\<rparr>);
         s1 = s1\<lparr>active_tiles := build_active_tiles (board (cur s1) s1) (active_tiles s1)\<rparr>;
         b = board (cur s1) s1
     in (s1, vdp_init_gfx2 @ vdp_clear_pattern_table @ vdp_init_name_table @ vdp_init_color_table @
             vdp_apply_border_colors @ vdp_disable_sprites @
             vdp_write_border_patterns b @ vdp_write_patterns b @ vdp_display_on))"

text \<open>
  One iteration of the loop of \<open>main\<close>; the argument is the \<open>step_board\<close> of the program.
\<close>

definition life_frame ::
    "(board_ref \<Rightarrow> board_ref \<Rightarrow> life_full \<Rightarrow> life_full) \<Rightarrow> life_full \<Rightarrow> life_full \<times> io list" where
  "life_frame step s =
    (let s = s\<lparr>cur := next s, next := cur s\<rparr>;
         s = step (next s) (cur s) s
     in (s, vdp_write_dirty_patterns (dirty_tiles s) (board (cur s) s)))"

end
