(* ===== verification/Life_Full_Step.thy ===== *)
theory Life_Full_Step
  imports Life_Full
begin

text \<open>
  One generation of \<^verbatim>\<open>life.c\<close> and \<^verbatim>\<open>life2.c\<close>: the sliding window of the second computes what the first
  computes, and that is the next generation of the torus of 224 by 160 cells.
\<close>

section \<open>The sliding window agrees with the plain loads\<close>

lemma word_inactive_iff:
  "rd16 active (ty * (28 div 2) + 2 * wx div 2) = 0 \<longleftrightarrow>
   active (ty * 28 + 2 * wx) = 0 \<and> active (ty * 28 + (2 * wx + 1)) = 0"
proof -
  have "2 * (ty * (28 div 2) + 2 * wx div 2) = ty * 28 + 2 * wx" by simp
  then show ?thesis by (simp only: rd16_eq_0_iff) (simp add: add.assoc)
qed

definition window_at :: "mem \<Rightarrow> nat \<Rightarrow> nat \<Rightarrow> u16 \<times> u16 \<times> u16 \<times> u16 \<times> u16 \<times> u16" where
  "window_at src y n =
    (rd16 src (region_word (row_prev y) (n - 1)), rd16 src (region_word (row_prev y) n),
     rd16 src (region_word y (n - 1)), rd16 src (region_word y n),
     rd16 src (region_word (row_next y) (n - 1)), rd16 src (region_word (row_next y) n))"

definition slide_inv :: "mem \<Rightarrow> mem \<Rightarrow> nat \<Rightarrow> step_state \<Rightarrow> nat \<Rightarrow> sliding \<Rightarrow> bool" where
  "slide_inv active src y st n = (\<lambda>(need_reload, sw, st').
    st' = fold (step_word active src y) [0..<n] st \<and>
    (\<not> need_reload \<and> n < 14 \<longrightarrow> 0 < n \<and> sw = window_at src y n))"

lemma full_slide_inv_step:
  assumes inv: "slide_inv active src y st n t" and n: "n < 14"
  shows "slide_inv active src y st (Suc n) (slide_step active src y n t)"
proof -
  obtain nr sw st' where t: "t = (nr, sw, st')" by (cases t) auto
  let ?ty = "(y - 16) div 8"
  have st': "st' = fold (step_word active src y) [0..<n] st" and sw: "\<not> nr \<Longrightarrow> 0 < n \<and> sw = window_at src y n"
    using inv n by (auto simp: slide_inv_def t)
  show ?thesis
  proof (cases "active (?ty * 28 + 2 * n) = 0 \<and> active (?ty * 28 + (2 * n + 1)) = 0")
    case True
    then show ?thesis
      unfolding slide_inv_def t slide_step_def split_conv Let_def word_inactive_iff
      by (simp add: st' step_word_def Let_def)
  next
    case False
    let ?l = "if n = 0 then 14 - 1 else n - 1" and ?r = "if n + 1 = 14 then 0 else n + 1"
    have win: "(if nr then
          (rd16 src (region_word (row_prev y) ?l), rd16 src (region_word (row_prev y) n),
           rd16 src (region_word y ?l), rd16 src (region_word y n),
           rd16 src (region_word (row_next y) ?l), rd16 src (region_word (row_next y) n)) else sw) =
        (rd16 src (region_word (row_prev y) ?l), rd16 src (region_word (row_prev y) n),
         rd16 src (region_word y ?l), rd16 src (region_word y n),
         rd16 src (region_word (row_next y) ?l), rd16 src (region_word (row_next y) n))"
      using sw by (auto simp: window_at_def)
    have run: "step_word active src y n st' = store_word y n
        (life_next_word (left_lanes (rd16 src (region_word (row_prev y) n)) (rd16 src (region_word (row_prev y) ?l)))
          (rd16 src (region_word (row_prev y) n))
          (right_lanes (rd16 src (region_word (row_prev y) n)) (rd16 src (region_word (row_prev y) ?r)))
          (left_lanes (rd16 src (region_word y n)) (rd16 src (region_word y ?l)))
          (rd16 src (region_word y n))
          (right_lanes (rd16 src (region_word y n)) (rd16 src (region_word y ?r)))
          (left_lanes (rd16 src (region_word (row_next y) n)) (rd16 src (region_word (row_next y) ?l)))
          (rd16 src (region_word (row_next y) n))
          (right_lanes (rd16 src (region_word (row_next y) n)) (rd16 src (region_word (row_next y) ?r))))
        (rd16 src (region_word y n)) st'"
      unfolding step_word_def Let_def life_next_word_n2n3_eq by (simp only: if_not_P [OF False])
    show ?thesis
      unfolding slide_inv_def t slide_step_def split_conv Let_def word_inactive_iff win if_not_P [OF False] run [symmetric]
      by (simp add: st' window_at_def)
  qed
qed

lemma slide_row_eq: "slide_row active src y = fold (step_word active src y) [0..<14]"
proof
  fix st
  have "slide_inv active src y st n (fold (slide_step active src y) [0..<n] (True, (0, 0, 0, 0, 0, 0), st))"
    if "n \<le> 14" for n
    using that
  proof (induction n)
    case 0
    show ?case by (simp add: slide_inv_def)
  next
    case (Suc n)
    then show ?case using full_slide_inv_step [of active src y st n] by simp
  qed
  from this [of 14] show "slide_row active src y st = fold (step_word active src y) [0..<14] st"
    by (simp add: slide_inv_def slide_row_def split_beta)
qed

lemma clear_tile_words_eq: "clear_tile_words t = clear_tiles 20 28 t"
proof
  fix k
  have "clear_tile_words t k = (if \<exists>i \<in> set [0..<20 * 28 div 2]. k = 2 * i \<or> k = 2 * i + 1 then 0 else t k)"
    unfolding clear_tile_words_def by (rule fold_view [where view = "\<lambda>m. m"]) (auto simp: wr16_def)
  moreover have "(\<exists>i \<in> set [0..<20 * 28 div 2]. k = 2 * i \<or> k = 2 * i + 1) \<longleftrightarrow> k < 560"
  proof
    assume "k < 560"
    moreover have "k = 2 * (k div 2) \<or> k = 2 * (k div 2) + 1" by linarith
    ultimately show "\<exists>i \<in> set [0..<20 * 28 div 2]. k = 2 * i \<or> k = 2 * i + 1"
      by (intro bexI [where x = "k div 2"]) auto
  qed auto
  ultimately show "clear_tile_words t k = clear_tiles 20 28 t k" by (simp add: clear_tiles_byte)
qed

lemma step_board_sliding_same: "step_board_sliding = step_board"
  unfolding step_board_sliding_def step_board_def step_words_def slide_row_eq clear_tile_words_eq by (rule refl)

text \<open>
  C38. The optimised \<open>step_board\<close> of \<^verbatim>\<open>life2.c\<close>, with its sliding window, its word-wide activity test and
  clears and its simplified rule, changes every state exactly as the one of \<^verbatim>\<open>life.c\<close> does.
\<close>

theorem step_board_sliding_eq: "step_board_sliding src dst s = step_board src dst s"
  by (simp add: step_board_sliding_same)

section \<open>The region as a torus\<close>

text \<open>Word \<open>i\<close> of row \<open>y\<close> of the region, and the cell at (\<open>x\<close>, \<open>y\<close>) of the region.\<close>

definition rw :: "mem \<Rightarrow> nat \<Rightarrow> nat \<Rightarrow> u16" where
  "rw b y i = rd16 b (region_word (16 + y) i)"

definition region_cell :: "mem \<Rightarrow> nat \<Rightarrow> nat \<Rightarrow> bool" where
  "region_cell b x y \<longleftrightarrow> cell 32 b (16 + x) (16 + y)"

lemma region_cell_lane: "region_cell b = lane (rw b)"
proof (intro ext)
  fix x y :: nat
  have "(16 + x) div 16 = 1 + x div 16" by simp
  then show "region_cell b x y = lane (rw b) x y"
    using cell_word [of 16 b "16 + x" "16 + y"] by (simp add: region_cell_def lane_def rw_def region_word_def add.assoc)
qed

lemma region_word_inj:
  assumes "i < 14" "j < 14"
  shows "region_word y i = region_word y' j \<longleftrightarrow> y = y' \<and> i = j"
  using grid_inj [of "1 + i" 16 "1 + j" y y'] assms by (simp add: region_word_def)

definition tile_live :: "mem \<Rightarrow> nat \<Rightarrow> nat \<Rightarrow> bool" where
  "tile_live b ty tx \<longleftrightarrow> (\<exists>i < 8. \<exists>j < 8. region_cell b (8 * tx + j) (8 * ty + i))"

definition tile_differs :: "mem \<Rightarrow> mem \<Rightarrow> nat \<Rightarrow> nat \<Rightarrow> bool" where
  "tile_differs b c ty tx \<longleftrightarrow>
    (\<exists>i < 8. \<exists>j < 8. region_cell b (8 * tx + j) (8 * ty + i) \<noteq> region_cell c (8 * tx + j) (8 * ty + i))"

definition active_ok :: "mem \<Rightarrow> mem \<Rightarrow> bool" where
  "active_ok active b \<longleftrightarrow> marks_around 20 28 (tile_live b) active"

text \<open>A tile is a column of eight bytes.\<close>

definition tile_byte :: "mem \<Rightarrow> nat \<Rightarrow> nat \<Rightarrow> nat \<Rightarrow> u8" where
  "tile_byte b ty tx i = b ((16 + 8 * ty + i) * 32 + (2 + tx))"

lemma region_cell_tile: "j < 8 \<Longrightarrow> region_cell b (8 * tx + j) (8 * ty + i) = bit (tile_byte b ty tx i) (7 - j)"
proof -
  assume "j < 8"
  then have "(16 + (8 * tx + j)) div 8 = 2 + tx" "(16 + (8 * tx + j)) mod 8 = j" by presburger+
  then show ?thesis by (simp only: region_cell_def cell_def tile_byte_def add.assoc)
qed

lemma byte_cells: "(\<exists>j < 8. bit (v :: u8) (7 - j) \<noteq> bit w (7 - j)) \<longleftrightarrow> v \<noteq> w"
proof
  assume "v \<noteq> w"
  then obtain k where k: "bit v k \<noteq> bit w k" by (auto simp: bit_eq_iff)
  then have "k < 8" by (auto dest: bit_imp_le_length)
  then have "7 - k < 8" "7 - (7 - k) = k" by auto
  with k show "\<exists>j < 8. bit v (7 - j) \<noteq> bit w (7 - j)" by metis
qed auto

lemma tile_differs_bytes: "tile_differs b c ty tx \<longleftrightarrow> (\<exists>i < 8. tile_byte b ty tx i \<noteq> tile_byte c ty tx i)"
  unfolding tile_differs_def byte_cells [symmetric] by (simp add: region_cell_tile cong: conj_cong)

lemma tile_live_bytes: "tile_live b ty tx \<longleftrightarrow> (\<exists>i < 8. tile_byte b ty tx i \<noteq> 0)"
proof -
  have "tile_live b ty tx \<longleftrightarrow> (\<exists>i < 8. \<exists>j < 8. bit (tile_byte b ty tx i) (7 - j))"
    unfolding tile_live_def by (simp add: region_cell_tile cong: conj_cong)
  with byte_cells [of _ 0] show ?thesis by simp
qed

text \<open>The halves of a word are the bytes of two tiles.\<close>

definition half :: "u16 \<Rightarrow> nat \<Rightarrow> bool" where
  "half v p \<longleftrightarrow> v AND (if p = 0 then 0xFF00 else 0x00FF) \<noteq> 0"

lemma half_0 [simp]: "\<not> half 0 p"
  by (simp add: half_def)

lemma half_bits:
  assumes "p < 2"
  shows "half v p \<longleftrightarrow> (\<exists>k < 8. bit v (8 - 8 * p + k))"
proof -
  have hi: "(0xFF00 :: u16) = push_bit 8 (mask 8)" and lo: "(0x00FF :: u16) = mask 8"
    by (simp_all add: mask_eq_exp_minus_1)
  have lt: "n < 16" if "bit v n" for n using that by (auto dest: bit_imp_le_length)
  have "v AND 0xFF00 \<noteq> 0 \<longleftrightarrow> (\<exists>n. bit v n \<and> 8 \<le> n)"
    unfolding hi bit_eq_iff [of "v AND push_bit 8 (mask 8)"] bit_and_iff bit_push_bit_iff bit_mask_iff using lt by force
  also have "\<dots> \<longleftrightarrow> (\<exists>k < 8. bit v (8 + k))"
    by (metis add.commute le_Suc_ex lt nat_add_left_cancel_less le_add2 numeral_Bit0)
  finally have 1: "v AND 0xFF00 \<noteq> 0 \<longleftrightarrow> (\<exists>k < 8. bit v (8 + k))" .
  have 2: "v AND 0x00FF \<noteq> 0 \<longleftrightarrow> (\<exists>k < 8. bit v k)"
    unfolding lo bit_eq_iff [of "v AND mask 8"] bit_and_iff bit_mask_iff using lt by force
  have "p = 0 \<or> p = 1" using assms by auto
  with 1 2 show ?thesis unfolding half_def by (elim disjE) simp_all
qed

lemma half_xor_rd16:
  assumes "p < 2"
  shows "half (rd16 m i XOR rd16 m' i') p \<longleftrightarrow> m (2 * i + p) \<noteq> m' (2 * i' + p)"
proof -
  have "p = 0 \<or> p = 1" using assms by auto
  then have "bit (rd16 m i) (8 - 8 * p + k) \<longleftrightarrow> bit (m (2 * i + p)) k" if "k < 8" for m i k
    using that by (auto simp: bit_rd16)
  then have "half (rd16 m i XOR rd16 m' i') p \<longleftrightarrow> (\<exists>k < 8. bit (m (2 * i + p)) k \<noteq> bit (m' (2 * i' + p)) k)"
    unfolding half_bits [OF assms] bit_xor_iff by auto
  also have "\<dots> \<longleftrightarrow> m (2 * i + p) \<noteq> m' (2 * i' + p)"
    by (auto simp: bit_eq_iff)
  finally show ?thesis .
qed

lemma half_rd16: "p < 2 \<Longrightarrow> half (rd16 m i) p \<longleftrightarrow> m (2 * i + p) \<noteq> 0"
  using half_xor_rd16 [of p m i "\<lambda>_. 0" 0] by (simp add: rd16_eq_0_iff [THEN iffD2])

lemma tile_byte_half:
  shows "half (rw b (8 * ty + i) (tx div 2)) (tx mod 2) \<longleftrightarrow> tile_byte b ty tx i \<noteq> 0"
    and "half (rw b (8 * ty + i) (tx div 2) XOR rw c (8 * ty + i) (tx div 2)) (tx mod 2) \<longleftrightarrow>
      tile_byte b ty tx i \<noteq> tile_byte c ty tx i"
proof -
  have "2 * region_word (16 + (8 * ty + i)) (tx div 2) + tx mod 2 = (16 + 8 * ty + i) * 32 + (2 + tx)"
    unfolding region_word_def by simp
  then show "half (rw b (8 * ty + i) (tx div 2)) (tx mod 2) \<longleftrightarrow> tile_byte b ty tx i \<noteq> 0"
    and "half (rw b (8 * ty + i) (tx div 2) XOR rw c (8 * ty + i) (tx div 2)) (tx mod 2) \<longleftrightarrow>
      tile_byte b ty tx i \<noteq> tile_byte c ty tx i"
    by (simp_all add: rw_def half_rd16 half_xor_rd16 tile_byte_def)
qed

section \<open>The words of a generation\<close>

text \<open>A word is skipped when both of its tiles are inactive.\<close>

definition word_active :: "mem \<Rightarrow> nat \<Rightarrow> nat \<Rightarrow> bool" where
  "word_active active ty wx \<longleftrightarrow> \<not> (active (ty * 28 + 2 * wx) = 0 \<and> active (ty * 28 + (2 * wx + 1)) = 0)"

lemma step_word_torus:
  assumes "y < 160" and "wx < 14"
  shows "step_word active src (16 + y) wx st =
    (if word_active active (y div 8) wx
     then store_word (16 + y) wx (torus_at 14 160 (rw src) y wx) (rw src y wx) st else st)"
proof -
  have r: "row_prev (16 + y) = 16 + (y + 160 - 1) mod 160" "row_next (16 + y) = 16 + (y + 1) mod 160"
    using wrap_prev [OF assms(1)] wrap_next [OF assms(1)] assms(1) by (auto simp: row_prev_def row_next_def)
  show ?thesis
    unfolding step_word_def Let_def word_active_def life_next_word_n2n3_eq torus_at_def next_lanes_def rw_def r
      wrap_prev [OF assms(2)] wrap_next [OF assms(2)]
    by (cases "active (y div 8 * 28 + 2 * wx) = 0 \<and> active (y div 8 * 28 + (2 * wx + 1)) = 0")
      (simp_all only: diff_add_inverse if_True if_False simp_thms)
qed

lemma mark_halves_byte:
  "mark_halves ty (2 * wx) v t k = (if \<exists>p < 2. k = ty * 28 + (2 * wx + p) \<and> half v p then 1 else t k)"
proof -
  have "(\<exists>p < 2. P p) \<longleftrightarrow> P 0 \<or> P (1::nat)" for P by (auto simp: less_2_cases_iff)
  then show ?thesis by (simp add: mark_halves_def half_def)
qed

lemma store_word_parts:
  "fst (store_word y wx out mC st) = wr16 (fst st) (region_word y wx) out"
  "fst (snd (store_word y wx out mC st)) = mark_halves ((y - 16) div 8) (2 * wx) out (fst (snd st))"
  "snd (snd (store_word y wx out mC st)) = mark_halves ((y - 16) div 8) (2 * wx) (out XOR mC) (snd (snd st))"
  by (simp_all add: store_word_def Let_def split_beta)

lemma rows_16: "[16..<175 + 1] = map (\<lambda>y. 16 + y) [0..<160]"
  using map_add_upt [of 16 160] by (simp add: add.commute)

lemma step_words_torus:
  "step_words active src = fold (\<lambda>y. fold (step_word active src (16 + y)) [0..<14]) [0..<160]"
  unfolding step_words_def rows_16 fold_map by (simp add: o_def)

lemma step_words_word:
  assumes "y < 160" and "wx < 14"
  shows "rw (fst (step_words active src st)) y wx =
    (if word_active active (y div 8) wx then torus_at 14 160 (rw src) y wx else rw (fst st) y wx)"
proof -
  let ?sel = "\<lambda>y' wx'. y' = y \<and> wx' = wx \<and> word_active active (y div 8) wx"
  let ?view = "\<lambda>st (_ :: unit). rw (fst st) y wx"
  have "?view (step_words active src st) () =
      (if \<exists>y' \<in> set [0..<160]. \<exists>wx' \<in> set [0..<14]. ?sel y' wx' then torus_at 14 160 (rw src) y wx
       else ?view st ())"
    unfolding step_words_torus
    by (rule fold_view [where view = ?view], rule fold_view [where view = ?view])
      (use assms in \<open>auto simp: step_word_torus store_word_parts rw_def region_word_inj\<close>)
  with assms show ?thesis by auto
qed

lemma tile_index:
  assumes "ty < 20" "tx < 28"
  shows "(\<exists>y \<in> set [0..<160]. \<exists>wx \<in> set [0..<14]. \<exists>p < 2.
      ty * 28 + tx = y div 8 * 28 + (2 * wx + p) \<and> P y wx p) \<longleftrightarrow>
    (\<exists>i < 8. P (8 * ty + i) (tx div 2) (tx mod 2))"
proof
  assume "\<exists>y \<in> set [0..<160]. \<exists>wx \<in> set [0..<14]. \<exists>p < 2.
      ty * 28 + tx = y div 8 * 28 + (2 * wx + p) \<and> P y wx p"
  then obtain y wx p where a: "y < 160" "wx < 14" "p < 2" "P y wx p"
    and e: "ty * 28 + tx = y div 8 * 28 + (2 * wx + p)" by auto
  then have "ty = y div 8 \<and> tx = 2 * wx + p"
    using grid_inj [of tx 28 "2 * wx + p" ty "y div 8"] assms by simp
  then have "tx div 2 = wx" "tx mod 2 = p" "8 * ty + y mod 8 = y" using a by auto
  with a(4) show "\<exists>i < 8. P (8 * ty + i) (tx div 2) (tx mod 2)"
    by (intro exI [of _ "y mod 8"]) simp
next
  assume "\<exists>i < 8. P (8 * ty + i) (tx div 2) (tx mod 2)"
  then obtain i where i: "i < 8" "P (8 * ty + i) (tx div 2) (tx mod 2)" by blast
  then have "(8 * ty + i) div 8 = ty" by simp
  with i assms show "\<exists>y \<in> set [0..<160]. \<exists>wx \<in> set [0..<14]. \<exists>p < 2.
      ty * 28 + tx = y div 8 * 28 + (2 * wx + p) \<and> P y wx p"
    by (intro bexI [of _ "8 * ty + i"] bexI [of _ "tx div 2"] exI [of _ "tx mod 2"]) auto
qed

lemma step_words_tiles:
  assumes "ty < 20" "tx < 28"
  shows "fst (snd (step_words active src st)) (ty * 28 + tx) =
      (if \<exists>i < 8. word_active active ty (tx div 2) \<and>
          half (torus_at 14 160 (rw src) (8 * ty + i) (tx div 2)) (tx mod 2)
       then 1 else fst (snd st) (ty * 28 + tx))"
    and "snd (snd (step_words active src st)) (ty * 28 + tx) =
      (if \<exists>i < 8. word_active active ty (tx div 2) \<and>
          half (torus_at 14 160 (rw src) (8 * ty + i) (tx div 2) XOR rw src (8 * ty + i) (tx div 2)) (tx mod 2)
       then 1 else snd (snd st) (ty * 28 + tx))"
proof -
  let ?T = "torus_at 14 160 (rw src)" and ?k = "ty * 28 + tx"
  let ?P = "\<lambda>f y wx p. word_active active (y div 8) wx \<and> half (f y wx) p"
  have eq: "word_active active ((8 * ty + i) div 8) (tx div 2) = word_active active ty (tx div 2)" if "i < 8" for i
    using that by simp
  have "fst (snd (step_words active src st)) ?k =
      (if \<exists>y \<in> set [0..<160]. \<exists>wx \<in> set [0..<14]. \<exists>p < 2. ?k = y div 8 * 28 + (2 * wx + p) \<and> ?P ?T y wx p
       then 1 else fst (snd st) ?k)"
    unfolding step_words_torus
    by (rule fold_view [where view = "\<lambda>st. fst (snd st)"], rule fold_view [where view = "\<lambda>st. fst (snd st)"])
      (auto simp: step_word_torus store_word_parts mark_halves_byte)
  then show "fst (snd (step_words active src st)) ?k = (if \<exists>i < 8. word_active active ty (tx div 2) \<and>
      half (?T (8 * ty + i) (tx div 2)) (tx mod 2) then 1 else fst (snd st) ?k)"
    unfolding tile_index [OF assms] by (simp cong: conj_cong)
  have "snd (snd (step_words active src st)) ?k =
      (if \<exists>y \<in> set [0..<160]. \<exists>wx \<in> set [0..<14]. \<exists>p < 2. ?k = y div 8 * 28 + (2 * wx + p) \<and>
          ?P (\<lambda>y wx. ?T y wx XOR rw src y wx) y wx p
       then 1 else snd (snd st) ?k)"
    unfolding step_words_torus
    by (rule fold_view [where view = "\<lambda>st. snd (snd st)"], rule fold_view [where view = "\<lambda>st. snd (snd st)"])
      (auto simp: step_word_torus store_word_parts mark_halves_byte)
  then show "snd (snd (step_words active src st)) ?k = (if \<exists>i < 8. word_active active ty (tx div 2) \<and>
      half (?T (8 * ty + i) (tx div 2) XOR rw src (8 * ty + i) (tx div 2)) (tx mod 2) then 1 else snd (snd st) ?k)"
    unfolding tile_index [OF assms] by (simp cong: conj_cong)
qed

section \<open>One generation\<close>

lemma clear_board_region_word: "y < 160 \<Longrightarrow> wx < 14 \<Longrightarrow> rw (clear_board_region b) y wx = 0"
proof -
  assume a: "y < 160" "wx < 14"
  have "clear_board_region b k = 0" if "k = (16 + y) * 32 + (2 + c)" "c < 28" for k c
  proof -
    have "clear_board_region b k =
        (if \<exists>y \<in> set [16..<175 + 1]. \<exists>x \<in> set [2..<2 + 28]. k = y * 32 + x then 0 else b k)"
      unfolding clear_board_region_def
      by (rule fold_view [where view = "\<lambda>m. m"], rule fold_view [where view = "\<lambda>m. m"]) simp
    moreover have "\<exists>y \<in> set [16..<175 + 1]. \<exists>x \<in> set [2..<2 + 28]. k = y * 32 + x"
    proof (rule bexI [of _ "16 + y"], rule bexI [of _ "2 + c"])
      show "16 + y \<in> set [16..<175 + 1]" unfolding set_upt atLeastLessThan_iff using a by linarith
      show "2 + c \<in> set [2..<2 + 28]" unfolding set_upt atLeastLessThan_iff using that by linarith
    qed (rule that)
    ultimately show ?thesis by (simp only: if_True)
  qed
  from this [of _ "2 * wx"] this [of _ "2 * wx + 1"] show ?thesis
    using a by (simp add: rw_def rd16_eq_0_iff region_word_def algebra_simps)
qed

lemma active_ok_marked:
  assumes ok: "active_ok active b" and lt: "x < 28 * 8" "y < 20 * 8" and live: "region_cell b x y"
    and near: "ty \<in> near 20 (y div 8)" "tx \<in> near 28 (x div 8)"
  shows "active (ty * 28 + tx) \<noteq> 0"
proof -
  have "tile_live b (y div 8) (x div 8)"
    unfolding tile_live_def
    by (intro exI [of _ "y mod 8"] conjI exI [of _ "x mod 8"]) (use live in simp_all)
  moreover have "y div 8 < 20" "x div 8 < 28" using lt by auto
  ultimately show ?thesis using ok near unfolding active_ok_def marks_around_def by blast
qed

text \<open>A word of two inactive tiles has no cell in the next generation.\<close>

lemma quiet_word:
  assumes ok: "active_ok active b" and lt: "y < 160" "wx < 14" and off: "\<not> word_active active (y div 8) wx"
  shows "torus_at 14 160 (rw b) y wx = 0"
proof (rule torus_at_eq_0 [OF lt(2)])
  fix j :: nat assume j: "j < 16"
  have d: "(16 * wx + j) div 8 = 2 * wx \<or> (16 * wx + j) div 8 = 2 * wx + 1" using j by linarith
  have "\<not> life_step (28 * 8) (20 * 8) (region_cell b) (16 * wx + j) y"
    by (rule quiet_cell [where act = "\<lambda>ty tx. active (ty * 28 + tx) \<noteq> 0"])
      (use active_ok_marked [OF ok] lt j d off in \<open>auto simp: word_active_def\<close>)
  then show "\<not> life_step (16 * 14) 160 (lane (rw b)) (16 * wx + j) y" by (simp add: region_cell_lane)
qed

lemma quiet_tile:
  assumes ok: "active_ok active b" and lt: "ty < 20" "tx < 28" and off: "\<not> word_active active ty (tx div 2)"
  shows "\<not> tile_live b ty tx"
proof
  assume live: "tile_live b ty tx"
  then have "active (ty * 28 + tx) \<noteq> 0"
    using ok lt unfolding active_ok_def marks_around_def near_def by blast
  moreover have "tx = 2 * (tx div 2) \<or> tx = 2 * (tx div 2) + 1" by linarith
  ultimately show False using off unfolding word_active_def by metis
qed

lemma full_build_active_from_live_ok:
  assumes "\<And>ty tx. ty < 20 \<Longrightarrow> tx < 28 \<Longrightarrow> live (ty * 28 + tx) \<noteq> 0 \<longleftrightarrow> tile_live b ty tx"
  shows "active_ok (build_active_from_live live t) b"
  unfolding build_active_from_live_def active_ok_def by (rule marks_around_intro) (use assms in auto)

lemma full_build_active_tiles_ok: "active_ok (build_active_tiles b t) b"
  unfolding build_active_tiles_def Let_def active_ok_def
proof (rule marks_around_intro)
  fix ty tx t
  have "fold (\<lambda>row any. any OR b ((16 + 8 * ty + row) * 32 + (2 + tx))) [0..<8] 0 \<noteq> 0 \<longleftrightarrow> tile_live b ty tx"
    using fold_or_eq_0 [of "\<lambda>row. b ((16 + 8 * ty + row) * 32 + (2 + tx))" "[0..<8]" 0]
    by (auto simp: tile_live_bytes tile_byte_def)
  then show "(if fold (\<lambda>row any. any OR b ((16 + 8 * ty + row) * 32 + (2 + tx))) [0..<8] 0 \<noteq> 0
      then mark_neighbourhood 20 28 ty tx t else t) =
    (if tile_live b ty tx then mark_neighbourhood 20 28 ty tx t else t)" by simp
qed

lemma full_board_set_board [simp]: "board r (set_board r' b s) = (if r = r' then b else board r s)"
  by (cases r; cases r') (simp_all add: board_def set_board_def)

lemma full_set_board_fields [simp]:
  "rng_state (set_board r b s) = rng_state s" "cur (set_board r b s) = cur s"
  "next (set_board r b s) = next s" "active_tiles (set_board r b s) = active_tiles s"
  "live_tiles (set_board r b s) = live_tiles s" "dirty_tiles (set_board r b s) = dirty_tiles s"
  "stray (set_board r b s) = stray s"
  by (cases r; simp add: set_board_def)+

lemma full_board_updates [simp]:
  "board r (s\<lparr>live_tiles := v\<rparr>) = board r s" "board r (s\<lparr>dirty_tiles := v\<rparr>) = board r s"
  "board r (s\<lparr>active_tiles := v\<rparr>) = board r s" "board r (s\<lparr>rng_state := w\<rparr>) = board r s"
  "board r (s\<lparr>stray := l\<rparr>) = board r s"
  "board r (s\<lparr>cur := p\<rparr>) = board r s" "board r (s\<lparr>next := p\<rparr>) = board r s"
  by (cases r; simp add: board_def)+

lemma full_step_board_values:
  fixes src dst s
  assumes "src \<noteq> dst"
  defines "s' \<equiv> step_board src dst s"
    and "st \<equiv> step_words (active_tiles s) (board src s) (clear_board_region (board dst s),
       clear_tiles 20 28 (live_tiles s), clear_tiles 20 28 (dirty_tiles s))"
  shows "board dst s' = fst st" and "board src s' = board src s"
    and "live_tiles s' = fst (snd st)" and "dirty_tiles s' = snd (snd st)"
    and "active_tiles s' = build_active_from_live (live_tiles s') (active_tiles s)"
    and "rng_state s' = rng_state s" and "cur s' = cur s" and "next s' = next s" and "stray s' = stray s"
  using assms(1) by (simp_all add: s'_def st_def step_board_def Let_def split_beta)

lemma step_board_word:
  assumes ne: "src \<noteq> dst" and lt: "y < 160" "wx < 14"
  shows "rw (board dst (step_board src dst s)) y wx =
    (if word_active (active_tiles s) (y div 8) wx then torus_at 14 160 (rw (board src s)) y wx else 0)"
  by (simp add: full_step_board_values(1) [OF ne] step_words_word [OF lt] clear_board_region_word [OF lt])

lemma full_step_board_cells:
  assumes ne: "src \<noteq> dst" and ok: "active_ok (active_tiles s) (board src s)" and lt: "x < 224" "y < 160"
  shows "region_cell (board dst (step_board src dst s)) x y \<longleftrightarrow> life_step 224 160 (region_cell (board src s)) x y"
proof -
  have x: "x < 16 * 14" "x div 16 < 14" using lt by auto
  have "rw (board dst (step_board src dst s)) y (x div 16) = torus_at 14 160 (rw (board src s)) y (x div 16)"
    using step_board_word [OF ne lt(2) x(2), of s] quiet_word [OF ok lt(2) x(2)] by auto
  then show ?thesis
    using torus_at_lane [OF x(1), of 160 "rw (board src s)" y] by (simp add: region_cell_lane lane_def)
qed

lemma step_board_live:
  assumes ne: "src \<noteq> dst" and lt: "ty < 20" "tx < 28"
  shows "live_tiles (step_board src dst s) (ty * 28 + tx) =
      of_bool (tile_live (board dst (step_board src dst s)) ty tx)"
proof -
  let ?d = "board dst (step_board src dst s)"
  have "tx div 2 < 14" "ty * 28 + tx < 20 * 28" using lt by auto
  moreover have "8 * ty + i < 160" "(8 * ty + i) div 8 = ty" if "i < 8" for i using that lt by auto
  ultimately have w: "rw ?d (8 * ty + i) (tx div 2) = (if word_active (active_tiles s) ty (tx div 2)
      then torus_at 14 160 (rw (board src s)) (8 * ty + i) (tx div 2) else 0)" if "i < 8" for i
    using step_board_word [OF ne] that by metis
  have "tile_live ?d ty tx \<longleftrightarrow> (\<exists>i < 8. word_active (active_tiles s) ty (tx div 2) \<and>
      half (torus_at 14 160 (rw (board src s)) (8 * ty + i) (tx div 2)) (tx mod 2))"
    unfolding tile_live_bytes tile_byte_half(1) [symmetric]
    using w by (cases "word_active (active_tiles s) ty (tx div 2)") auto
  then show ?thesis
    using \<open>ty * 28 + tx < 20 * 28\<close>
    by (simp add: full_step_board_values(3) [OF ne] step_words_tiles [OF lt] clear_tiles_byte)
qed

lemma step_board_dirty:
  assumes ne: "src \<noteq> dst" and ok: "active_ok (active_tiles s) (board src s)" and lt: "ty < 20" "tx < 28"
  shows "dirty_tiles (step_board src dst s) (ty * 28 + tx) =
      of_bool (tile_differs (board dst (step_board src dst s)) (board src s) ty tx)"
proof -
  let ?d = "board dst (step_board src dst s)" and ?c = "board src s" and ?X = "tx div 2"
  have "?X < 14" "ty * 28 + tx < 20 * 28" using lt by auto
  moreover have "8 * ty + i < 160" "(8 * ty + i) div 8 = ty" if "i < 8" for i using that lt by auto
  ultimately have w: "rw ?d (8 * ty + i) ?X = (if word_active (active_tiles s) ty ?X
      then torus_at 14 160 (rw ?c) (8 * ty + i) ?X else 0)" if "i < 8" for i
    using step_board_word [OF ne] that by metis
  have "tile_byte ?c ty tx i = 0" if "\<not> word_active (active_tiles s) ty ?X" "i < 8" for i
    using quiet_tile [OF ok lt that(1)] that(2) by (simp add: tile_live_bytes)
  then have "tile_differs ?d ?c ty tx \<longleftrightarrow> (\<exists>i < 8. word_active (active_tiles s) ty ?X \<and>
      half (torus_at 14 160 (rw ?c) (8 * ty + i) ?X XOR rw ?c (8 * ty + i) ?X) (tx mod 2))"
    unfolding tile_differs_bytes tile_byte_half(2) [symmetric]
    using w tile_byte_half(1) [of ?c ty _ tx] by (cases "word_active (active_tiles s) ty ?X") auto
  then show ?thesis
    using \<open>ty * 28 + tx < 20 * 28\<close>
    by (simp add: full_step_board_values(4) [OF ne] step_words_tiles [OF lt] clear_tiles_byte)
qed

lemma full_step_board_active:
  "src \<noteq> dst \<Longrightarrow> active_ok (active_tiles (step_board src dst s)) (board dst (step_board src dst s))"
  by (subst full_step_board_values(5), assumption, rule full_build_active_from_live_ok) (simp add: step_board_live)

text \<open>
  With every tile around a live cell marked, \<open>step_board\<close> of \<^verbatim>\<open>life.c\<close> writes the next generation of
  the torus of 224 by 160 cells although it skips pairs of inactive tiles; the source is left alone, the
  live and dirty maps are exact, and the active map it builds is right for the next frame.
\<close>

theorem full_step_board_correct:
  assumes ne: "src \<noteq> dst" and ok: "active_ok (active_tiles s) (board src s)" and x: "x < 224" and y: "y < 160"
    and ty: "ty < 20" and tx: "tx < 28"
  shows "(region_cell (board dst (step_board src dst s)) x y \<longleftrightarrow>
      life_step 224 160 (region_cell (board src s)) x y) \<and>
    board src (step_board src dst s) = board src s \<and>
    live_tiles (step_board src dst s) (ty * 28 + tx) =
      of_bool (tile_live (board dst (step_board src dst s)) ty tx) \<and>
    dirty_tiles (step_board src dst s) (ty * 28 + tx) =
      of_bool (tile_differs (board dst (step_board src dst s)) (board src s) ty tx) \<and>
    active_ok (active_tiles (step_board src dst s)) (board dst (step_board src dst s))"
  by (intro conjI full_step_board_cells [OF ne ok x y] full_step_board_values(2) [OF ne] step_board_live [OF ne ty tx]
      step_board_dirty [OF ne ok ty tx] full_step_board_active [OF ne])

theorem full_step_board_correct_witness:
  "region_cell (board Board_B (step_board Board_A Board_B life_globals)) 3 4 =
     life_step 224 160 (region_cell (board Board_A life_globals)) 3 4"
proof -
  have "active_ok (active_tiles life_globals) (board Board_A life_globals)"
    by (simp add: active_ok_def marks_around_def tile_live_bytes tile_byte_def life_globals_def board_def)
  from full_step_board_correct [OF _ this, of Board_B 3 4 0 0] show ?thesis by simp
qed

end
