(* ===== verification/Life_Full_Seed.thy ===== *)
theory Life_Full_Seed
  imports Life_Full_Step
begin

text \<open>
  Where the seeding of \<^verbatim>\<open>life.c\<close> and \<^verbatim>\<open>life2.c\<close> writes: random blocks and the blocks on the edges stay inside
  the region, and the frame is the line of pixels around it.
\<close>

section \<open>Seeding\<close>

definition in_region :: "nat \<Rightarrow> nat \<Rightarrow> bool" where
  "in_region px py \<longleftrightarrow> 16 \<le> px \<and> px < 240 \<and> 16 \<le> py \<and> py < 176"

definition border_pixel :: "nat \<Rightarrow> nat \<Rightarrow> bool" where
  "border_pixel px py \<longleftrightarrow>
    (px = 15 \<or> px = 240) \<and> 15 \<le> py \<and> py \<le> 176 \<or> (py = 15 \<or> py = 176) \<and> 15 \<le> px \<and> px \<le> 240"

lemma bit_mask_nth: "j < 8 \<Longrightarrow> bit (bit_mask ! j) k \<longleftrightarrow> k = 7 - j"
proof -
  assume "j < 8"
  then have "j \<in> set [0..<8]" by simp
  moreover have "\<forall>j \<in> set [0..<8]. bit_mask ! j = push_bit (7 - j) 1" by code_simp
  ultimately have "bit_mask ! j = push_bit (7 - j) 1" by blast
  then show ?thesis using \<open>j < 8\<close> by (auto simp: bit_simps)
qed

lemma set_cell_cells:
  assumes "x < 256" and "y < 192"
  shows "snd (set_cell (of_nat x) (of_nat y) bl) = snd bl"
    and "px < 256 \<Longrightarrow> cell 32 (fst (set_cell (of_nat x) (of_nat y) bl)) px py \<longleftrightarrow>
      px = x \<and> py = y \<or> cell 32 (fst bl) px py"
proof -
  obtain b l where bl: "bl = (b, l)" by (cases bl)
  have u: "unat (of_nat y :: u16) = y" "unat (drop_bit 3 (of_nat x :: u16)) = x div 8"
    "unat (of_nat x AND 7 :: u16) = x mod 8"
    using assms unat_and_mask [of "of_nat x :: u16" 3]
    by (simp_all add: unat_of_nat unat_drop_bit mask_eq_exp_minus_1)
  have off: "y * 32 + x div 8 < 192 * 32" using assms by linarith
  have e: "set_cell (of_nat x) (of_nat y) bl =
      (b(y * 32 + x div 8 := b (y * 32 + x div 8) OR bit_mask ! (x mod 8)), l)"
    unfolding set_cell_def bl split_conv Let_def u using off by simp
  show "snd (set_cell (of_nat x) (of_nat y) bl) = snd bl" unfolding e by (simp add: bl)
  assume px: "px < 256"
  then have "px div 8 < 32" "x div 8 < 32" using assms by auto
  then have i: "py * 32 + px div 8 = y * 32 + x div 8 \<longleftrightarrow> py = y \<and> px div 8 = x div 8" by (intro grid_inj)
  have "7 - px mod 8 = 7 - x mod 8 \<longleftrightarrow> px mod 8 = x mod 8"
    using mod_less_divisor [of 8 px] mod_less_divisor [of 8 x] by linarith
  moreover have "px = x \<longleftrightarrow> px div 8 = x div 8 \<and> px mod 8 = x mod 8" by (metis div_mult_mod_eq)
  ultimately show "cell 32 (fst (set_cell (of_nat x) (of_nat y) bl)) px py \<longleftrightarrow> px = x \<and> py = y \<or> cell 32 (fst bl) px py"
    unfolding e unfolding cell_def bl fst_conv by (auto simp: i bit_or_iff bit_mask_nth)
qed

text \<open>The seeds change cells of the region only.\<close>

definition outside_same :: "logged \<Rightarrow> logged \<Rightarrow> bool" where
  "outside_same bl bl' \<longleftrightarrow> snd bl' = snd bl \<and>
    (\<forall>px py. px < 256 \<and> py < 192 \<and> \<not> in_region px py \<longrightarrow> cell 32 (fst bl') px py = cell 32 (fst bl) px py)"

lemma seed_block_outside:
  assumes "16 \<le> x0" "x0 \<le> 236" "16 \<le> y0" "y0 \<le> 172" and "outside_same bl bl'"
  shows "outside_same bl (seed_block (of_nat x0) (of_nat y0) bl')"
  unfolding seed_block_def
proof (rule fold_inv [where P = "outside_same bl"], rule fold_inv [where P = "outside_same bl"], goal_cases)
  case (1 y t x u)
  then have "x0 + x < 256" "y0 + y < 192" "in_region (x0 + x) (y0 + y)"
    using assms by (auto simp: in_region_def)
  with set_cell_cells [where x = "x0 + x" and y = "y0 + y" and bl = u] 1 show ?case
    by (auto simp: outside_same_def)
qed (simp_all add: assms(5))

lemma seed_grid_outside:
  "outside_same bl (snd s) \<Longrightarrow> outside_same bl (snd (seed_grid s))"
  unfolding seed_grid_def
proof (rule fold_inv [where P = "\<lambda>s. outside_same bl (snd s)"], rule fold_inv [where P = "\<lambda>s. outside_same bl (snd s)"], goal_cases)
  case (1 i t j u)
  obtain rng c where u: "u = (rng, c)" by (cases u)
  have "outside_same bl (seed_block (of_nat (16 + 4 * j)) (of_nat (16 + 4 * i)) c)"
    by (rule seed_block_outside) (use 1 u in auto)
  with 1(5) u show ?case by (simp add: Let_def)
qed simp_all

lemma edge_word:
  fixes r m :: u16
  assumes "unat m < 2 ^ 15" and "4 dvd unat m + 1"
  obtains e where "16 + ((r AND m) AND NOT 3) = (of_nat (16 + e) :: u16)" "e + 3 \<le> unat m"
proof -
  have three: "(3 :: u16) = mask 2" by (simp add: mask_eq_exp_minus_1)
  define e where "e = 4 * (unat (r AND m) div 4)"
  have le: "unat (r AND m) \<le> unat m" by (simp flip: word_le_nat_alt add: word_and_le1)
  have "unat ((r AND m) AND NOT 3) = e"
    unfolding three and_not_mask e_def by (subst unat_push_bit) (use le assms(1) in \<open>simp_all only: unat_drop_bit, simp\<close>)
  then have "16 + ((r AND m) AND NOT 3) = (of_nat (16 + e) :: u16)"
    by (simp add: word_eq_of_nat)
  moreover have "e + 3 \<le> unat m" using le assms(2) unfolding e_def by presburger
  ultimately show thesis by (rule that)
qed

lemma draw_border_cells:
  shows "snd (draw_border bl) = snd bl"
    and "px < 256 \<Longrightarrow> cell 32 (fst (draw_border bl)) px py \<longleftrightarrow> border_pixel px py \<or> cell 32 (fst bl) px py"
proof -
  let ?H = "\<lambda>x bl. set_cell (of_nat x) (of_nat (175 + 1)) (set_cell (of_nat x) (of_nat (16 - 1)) bl)"
  let ?V = "\<lambda>y bl. set_cell (of_nat (239 + 1)) (of_nat y) (set_cell (of_nat (16 - 1)) (of_nat y) bl)"
  let ?v = "\<lambda>bl (_ :: unit). cell 32 (fst bl) px py"
  let ?xs = "[16 - 1..<239 + 1 + 1]" and ?ys = "[16 - 1..<175 + 1 + 1]"
  have d: "draw_border bl = fold ?V ?ys (fold ?H ?xs bl)" by (simp only: draw_border_def Let_def)
  have H: "snd (?H x c) = snd c" "px < 256 \<Longrightarrow> ?v (?H x c) () = (if px = x \<and> (py = 15 \<or> py = 176) then True else ?v c ())"
    if "x \<in> set ?xs" for x c
  proof -
    have "x < 256" using that unfolding set_upt atLeastLessThan_iff by linarith
    then show "snd (?H x c) = snd c" "px < 256 \<Longrightarrow> ?v (?H x c) () = (if px = x \<and> (py = 15 \<or> py = 176) then True else ?v c ())"
      using set_cell_cells [where x = x and y = "16 - 1"] set_cell_cells [where x = x and y = "175 + 1"] by auto
  qed
  have V: "snd (?V y c) = snd c" "px < 256 \<Longrightarrow> ?v (?V y c) () = (if py = y \<and> (px = 15 \<or> px = 240) then True else ?v c ())"
    if "y \<in> set ?ys" for y c
  proof -
    have "y < 192" using that unfolding set_upt atLeastLessThan_iff by linarith
    then show "snd (?V y c) = snd c" "px < 256 \<Longrightarrow> ?v (?V y c) () = (if py = y \<and> (px = 15 \<or> px = 240) then True else ?v c ())"
      using set_cell_cells [where y = y and x = "16 - 1"] set_cell_cells [where y = y and x = "239 + 1"] by auto
  qed
  have h: "snd (fold ?H ?xs bl) = snd bl" by (rule fold_inv [where P = "\<lambda>s. snd s = snd bl"]) (simp_all only: H)
  show "snd (draw_border bl) = snd bl"
    unfolding d by (rule fold_inv [where P = "\<lambda>s. snd s = snd bl"]) (simp_all only: V h)
  assume px: "px < 256"
  have 1: "?v (fold ?H ?xs bl) () = (if \<exists>x \<in> set ?xs. px = x \<and> (py = 15 \<or> py = 176) then True else ?v bl ())"
    by (rule fold_view [where view = ?v]) (rule H(2) [OF _ px])
  have 2: "?v (fold ?V ?ys c) () = (if \<exists>y \<in> set ?ys. py = y \<and> (px = 15 \<or> px = 240) then True else ?v c ())" for c
    by (rule fold_view [where view = ?v]) (rule V(2) [OF _ px])
  have "(\<exists>x \<in> set ?xs. px = x \<and> (py = 15 \<or> py = 176)) \<longleftrightarrow> 15 \<le> px \<and> px \<le> 240 \<and> (py = 15 \<or> py = 176)"
    "(\<exists>y \<in> set ?ys. py = y \<and> (px = 15 \<or> px = 240)) \<longleftrightarrow> 15 \<le> py \<and> py \<le> 176 \<and> (px = 15 \<or> px = 240)"
    unfolding set_upt Bex_def atLeastLessThan_iff by auto
  with 1 2 show "cell 32 (fst (draw_border bl)) px py \<longleftrightarrow> border_pixel px py \<or> cell 32 (fst bl) px py"
    unfolding d border_pixel_def by (simp only:) argo
qed

lemma clear_board_region_outside: "outside_same (b, l) (clear_board_region b, l)"
proof -
  have "clear_board_region b (py * 32 + px div 8) = b (py * 32 + px div 8)"
    if "px < 256" "py < 192" "\<not> in_region px py" for px py
  proof -
    have "clear_board_region b (py * 32 + px div 8) = (if \<exists>y \<in> set [16..<175 + 1]. \<exists>x \<in> set [2..<2 + 28].
        py * 32 + px div 8 = y * 32 + x then 0 else b (py * 32 + px div 8))"
      unfolding clear_board_region_def
      by (rule fold_view [where view = "\<lambda>m. m"], rule fold_view [where view = "\<lambda>m. m"]) simp
    moreover have "\<not> (\<exists>y \<in> set [16..<175 + 1]. \<exists>x \<in> set [2..<2 + 28]. py * 32 + px div 8 = y * 32 + x)"
    proof
      assume "\<exists>y \<in> set [16..<175 + 1]. \<exists>x \<in> set [2..<2 + 28]. py * 32 + px div 8 = y * 32 + x"
      then obtain y x where yx: "16 \<le> y" "y < 176" "2 \<le> x" "x < 30" "py * 32 + px div 8 = y * 32 + x"
        unfolding set_upt by auto
      moreover have "px div 8 < 32" using that by auto
      ultimately have "py = y" "px div 8 = x" using grid_inj [of "px div 8" 32 x py y] by auto
      with yx that show False by (auto simp: in_region_def)
    qed
    ultimately show ?thesis by (simp only: if_False)
  qed
  then show ?thesis by (simp add: outside_same_def cell_def)
qed

lemma seed_board_frame:
  shows "snd (snd (seed_board (rng, b, log))) = log"
    and "px < 256 \<Longrightarrow> py < 192 \<Longrightarrow> \<not> in_region px py \<Longrightarrow>
      cell 32 (fst (snd (seed_board (rng, b, log)))) px py \<longleftrightarrow> border_pixel px py \<or> cell 32 b px py"
proof -
  define g where "g = seed_grid (rng, clear_board_region b, log)"
  define r1 r2 where "r1 = rng_next (fst g)" and "r2 = rng_next r1"
  obtain ex where ex: "16 + ((r1 AND 223) AND NOT 3) = (of_nat (16 + ex) :: u16)" "ex + 3 \<le> unat (223 :: u16)"
    by (rule edge_word [of 223 r1]) simp_all
  obtain ey where ey: "16 + ((r2 AND 159) AND NOT 3) = (of_nat (16 + ey) :: u16)" "ey + 3 \<le> unat (159 :: u16)"
    by (rule edge_word [of 159 r2]) simp_all
  have lt: "ex \<le> 220" "ey \<le> 156" using ex(2) ey(2) by simp_all
  define bl where "bl = seed_block (of_nat (16 + ex)) (of_nat (239 - 3 - 64)) (seed_block (of_nat (16 + ex)) (of_nat 16)
    (seed_block (of_nat (239 - 3)) (of_nat (16 + ey)) (seed_block (of_nat 16) (of_nat (16 + ey)) (snd g))))"
  have "outside_same (b, log) (snd g)"
    unfolding g_def by (rule seed_grid_outside) (simp add: clear_board_region_outside)
  then have out: "outside_same (b, log) bl"
    unfolding bl_def by (intro seed_block_outside) (use lt in simp_all)
  have sb: "seed_board (rng, b, log) = (r2, draw_border bl)"
    using ex(1) ey(1) unfolding seed_board_def bl_def r2_def r1_def g_def
    by (simp add: Let_def split_beta)
  show "snd (snd (seed_board (rng, b, log))) = log"
    and "px < 256 \<Longrightarrow> py < 192 \<Longrightarrow> \<not> in_region px py \<Longrightarrow>
      cell 32 (fst (snd (seed_board (rng, b, log)))) px py \<longleftrightarrow> border_pixel px py \<or> cell 32 b px py"
    unfolding sb using out draw_border_cells [where bl = bl] by (simp_all add: outside_same_def)
qed

text \<open>
  Whatever the random numbers are, \<open>seed_board\<close> of \<^verbatim>\<open>life.c\<close> and \<^verbatim>\<open>life2.c\<close> stores inside the board only,
  and outside the region it sets exactly the pixels of the frame.
\<close>

theorem full_seed_board_in_bounds:
  assumes px: "px < 256" and py: "py < 192" and outside: "\<not> in_region px py"
  shows "snd (snd (seed_board (rng, b, log))) = log \<and>
    cell 32 (fst (snd (seed_board (rng, b, log)))) px py = (border_pixel px py \<or> cell 32 b px py)"
  by (intro conjI seed_board_frame(2) [OF px py outside] seed_board_frame(1))

theorem full_seed_board_in_bounds_witness:
  "snd (snd (seed_board (0xACE1, (\<lambda>_. 0), []))) = [] \<and>
   cell 32 (fst (snd (seed_board (0xACE1, (\<lambda>_. 0), [])))) 15 20"
  using full_seed_board_in_bounds [of 15 20 "0xACE1" "\<lambda>_. 0" "[]"] by (simp add: in_region_def border_pixel_def)

end
