(* ===== verification/Life_Full_Main.thy ===== *)
theory Life_Full_Main
  imports Life_Full_Seed
begin

text \<open>
  The programs \<^verbatim>\<open>life.c\<close> and \<^verbatim>\<open>life2.c\<close> on a display. Every drawing operation is a series of tile writes; on a
  device that satisfies \<open>vdp_device\<close> the frame around the region is drawn once and each frame brings the
  tiles that changed up to date, so that the screen always shows the current board.
\<close>

section \<open>Series of tile writes\<close>

text \<open>The port writes are those of \<open>g\<close> on the tiles of a set, in some order and possibly repeated.\<close>

definition series :: "(nat \<times> nat \<Rightarrow> io list) \<Rightarrow> (nat \<times> nat) set \<Rightarrow> io list \<Rightarrow> bool" where
  "series g T out \<longleftrightarrow> (\<exists>ts. out = concat (map g ts) \<and> set ts = T)"

lemma series_nil: "series g {} []"
  by (simp add: series_def)

lemma series_one: "series g {t} (g t)"
  unfolding series_def by (rule exI [of _ "[t]"]) simp

lemma series_append: "series g T a \<Longrightarrow> series g U b \<Longrightarrow> series g (T \<union> U) (a @ b)"
  unfolding series_def by (metis concat_append map_append set_append)

lemma series_concat:
  "(\<And>i. i \<in> set is \<Longrightarrow> series g (T i) (f i)) \<Longrightarrow> series g (\<Union>i \<in> set is. T i) (concat (map f is))"
  by (induction "is") (auto simp: series_nil intro: series_append)

abbreviation (input) tile_write :: "mem \<Rightarrow> nat \<times> nat \<Rightarrow> io list" where
  "tile_write b \<equiv> (\<lambda>(r, c). vdp_write_tile r c b)"

abbreviation (input) tile_paint :: "u8 \<Rightarrow> nat \<times> nat \<Rightarrow> io list" where
  "tile_paint color \<equiv> (\<lambda>(r, c). vdp_set_tile_color (of_nat r) (of_nat c) color)"

definition border_tiles :: "(nat \<times> nat) set" where
  "border_tiles = {(r, c). (r = 1 \<or> r = 22) \<and> 1 \<le> c \<and> c \<le> 30 \<or> (c = 1 \<or> c = 30) \<and> 1 \<le> r \<and> r \<le> 22}"

definition region_tiles :: "(nat \<times> nat) set" where
  "region_tiles = {2..21} \<times> {2..29}"

definition dirty_set :: "mem \<Rightarrow> (nat \<times> nat) set" where
  "dirty_set dirty = {(2 + ty, 2 + tx) | ty tx. ty < 20 \<and> tx < 28 \<and> dirty (ty * 28 + tx) \<noteq> 0}"

lemma series_pairs:
  assumes "\<And>x y. g (p x y) = out x y"
  shows "series g {p x y | x y. x \<in> set xs \<and> y \<in> set ys} (concat (map (\<lambda>x. concat (map (out x) ys)) xs))"
proof -
  have "series g (\<Union>x \<in> set xs. \<Union>y \<in> set ys. {p x y}) (concat (map (\<lambda>x. concat (map (out x) ys)) xs))"
    by (intro series_concat) (metis assms series_one)
  moreover have "(\<Union>x \<in> set xs. \<Union>y \<in> set ys. {p x y}) = {p x y | x y. x \<in> set xs \<and> y \<in> set ys}" by auto
  ultimately show ?thesis by simp
qed

lemma series_frame:
  assumes "\<And>r c. g (r, c) = out r c"
  shows "series g border_tiles
    (concat (map (\<lambda>c. out 1 c @ out 22 c) [1..<31]) @ concat (map (\<lambda>r. out r 1 @ out r 30) [1..<23]))"
proof -
  have "series g ((\<Union>c \<in> set [1..<31]. {(1, c)} \<union> {(22, c)}) \<union> (\<Union>r \<in> set [1..<23]. {(r, 1)} \<union> {(r, 30)}))
    (concat (map (\<lambda>c. out 1 c @ out 22 c) [1..<31]) @ concat (map (\<lambda>r. out r 1 @ out r 30) [1..<23]))"
    by (intro series_append series_concat) (metis assms series_one)+
  moreover have "(\<Union>c \<in> set [1..<31]. {(1, c)} \<union> {(22, c)}) \<union> (\<Union>r \<in> set [1..<23]. {(r, 1)} \<union> {(r, 30)}) =
      (border_tiles :: (nat \<times> nat) set)"
    unfolding border_tiles_def set_upt by auto
  ultimately show ?thesis by simp
qed

lemma border_patterns_series: "series (tile_write b) border_tiles (vdp_write_border_patterns b)"
  unfolding vdp_write_border_patterns_def Let_def using series_frame [of "tile_write b" "\<lambda>r c. vdp_write_tile r c b"] by simp

lemma border_colors_series: "series (tile_paint (color_pair 0x0B)) border_tiles vdp_apply_border_colors"
  unfolding vdp_apply_border_colors_def Let_def using series_frame [of "tile_paint (color_pair 0x0B)" "\<lambda>r c. vdp_set_tile_color (of_nat r) (of_nat c) (color_pair 0x0B)"] by simp

lemma patterns_series: "series (tile_write b) region_tiles (vdp_write_patterns b)"
proof -
  have "{(x, y) | x y. x \<in> set [2..<22] \<and> y \<in> set [2..<30]} = region_tiles"
    unfolding region_tiles_def set_upt by auto
  then show ?thesis
    unfolding vdp_write_patterns_def using series_pairs [of "tile_write b" "\<lambda>x y. (x, y)" "\<lambda>r c. vdp_write_tile r c b" "[2..<22]" "[2..<30]"] by simp
qed

lemma dirty_patterns_series: "series (tile_write b) (dirty_set dirty) (vdp_write_dirty_patterns dirty b)"
proof -
  have "series (tile_write b) (\<Union>ty \<in> set [0..<20]. \<Union>tx \<in> set [0..<28].
      if dirty (ty * 28 + tx) = 0 then {} else {(2 + ty, 2 + tx)}) (vdp_write_dirty_patterns dirty b)"
    unfolding vdp_write_dirty_patterns_def for_io_def
    by (intro series_concat) (use series_one [of "tile_write b"] series_nil in auto)
  moreover have "(\<Union>ty \<in> set [0..<20]. \<Union>tx \<in> set [0..<28].
      if dirty (ty * 28 + tx) = 0 then {} else {(2 + ty, 2 + tx)}) = dirty_set dirty"
    unfolding dirty_set_def set_upt by (auto split: if_splits)
  ultimately show ?thesis by simp
qed

section \<open>Tiles in the video memory\<close>

text \<open>The tile and the byte of a board that offset \<open>k\<close> of the pattern table shows.\<close>

definition tile_of :: "nat \<Rightarrow> nat \<times> nat" where
  "tile_of k = (k div 256, k mod 256 div 8)"

definition board_byte :: "mem \<Rightarrow> nat \<Rightarrow> u8" where
  "board_byte b k = b ((8 * (k div 256) + k mod 8) * 32 + k mod 256 div 8)"

lemma tile_of_iff:
  assumes "c < 32"
  shows "r * 256 + c * 8 \<le> k \<and> k < r * 256 + c * 8 + 8 \<longleftrightarrow> tile_of k = (r, c)"
proof
  assume a: "r * 256 + c * 8 \<le> k \<and> k < r * 256 + c * 8 + 8"
  define i where "i = k - (r * 256 + c * 8)"
  have k: "k = r * 256 + (c * 8 + i)" and i: "i < 8" using a by (auto simp: i_def)
  moreover have "c * 8 + i < 256" using assms i by linarith
  ultimately have "k div 256 = r" "k mod 256 = c * 8 + i" by simp_all
  with i show "tile_of k = (r, c)" by (simp add: tile_of_def)
next
  assume "tile_of k = (r, c)"
  then have "k div 256 = r" "k mod 256 div 8 = c" by (simp_all add: tile_of_def)
  moreover have "k = k div 256 * 256 + k mod 256" by simp
  moreover have "k mod 256 = k mod 256 div 8 * 8 + k mod 256 mod 8" "k mod 256 mod 8 < 8" by simp_all
  ultimately show "r * 256 + c * 8 \<le> k \<and> k < r * 256 + c * 8 + 8" by linarith
qed

lemma tile_of_offset: "tile_of k = (r, c) \<Longrightarrow> k - (r * 256 + c * 8) = k mod 8"
proof -
  assume "tile_of k = (r, c)"
  then have "k div 256 = r" "k mod 256 div 8 = c" by (simp_all add: tile_of_def)
  then have "k = r * 256 + (c * 8 + k mod 256 mod 8)" by (metis div_mult_mod_eq)
  moreover have "k mod 256 mod 8 = k mod 8" by (rule mod_mod_cancel) simp
  ultimately show ?thesis by linarith
qed

definition pix :: "nat \<Rightarrow> nat \<Rightarrow> nat" where
  "pix px py = py div 8 * 256 + px div 8 * 8 + py mod 8"

lemma pix_lt: "px < 256 \<Longrightarrow> py < 192 \<Longrightarrow> pix px py < 6144"
proof -
  assume "px < 256" "py < 192"
  then have "px div 8 \<le> 31" "py div 8 \<le> 23" "py mod 8 \<le> 7" by auto
  then show ?thesis unfolding pix_def by linarith
qed

lemma tile_of_pix:
  assumes "px < 256"
  shows "tile_of (pix px py) = (py div 8, px div 8)" and "pix px py mod 8 = py mod 8"
proof -
  have c: "px div 8 < 32" using assms by auto
  then show "tile_of (pix px py) = (py div 8, px div 8)" by (simp flip: tile_of_iff add: pix_def)
  have "pix px py = (py div 8 * 32 + px div 8) * 8 + py mod 8" by (simp add: pix_def)
  then show "pix px py mod 8 = py mod 8" by (simp only: mod_mult_self3 mod_mod_trivial)
qed

lemma board_byte_pix: "px < 256 \<Longrightarrow> bit (board_byte b (pix px py)) (7 - px mod 8) \<longleftrightarrow> cell 32 b px py"
  using tile_of_pix [of px py] by (simp add: board_byte_def tile_of_def cell_def)

lemma region_tile_iff: "(py div 8, px div 8) \<in> region_tiles \<longleftrightarrow> in_region px py"
  by (auto simp: region_tiles_def in_region_def)

lemma border_tile: "border_pixel px py \<Longrightarrow> (py div 8, px div 8) \<in> border_tiles"
  by (auto simp: border_tiles_def border_pixel_def)

context vdp_device
begin

definition keeps :: "'v \<Rightarrow> 'v \<Rightarrow> bool" where
  "keeps v w \<longleftrightarrow> idle w \<and> reg w = reg v"

lemma run_tile:
  assumes "idle v" and "r < 24" "c < 32"
  shows "keeps v (run_io cmd data (vdp_write_tile r c b) v)"
    and "vram (run_io cmd data (vdp_write_tile r c b) v) k = (if tile_of k = (r, c) then board_byte b k else vram v k)"
    and "keeps v (run_io cmd data (vdp_set_tile_color (of_nat r) (of_nat c) col) v)"
    and "vram (run_io cmd data (vdp_set_tile_color (of_nat r) (of_nat c) col) v) k =
      (if 0x2000 \<le> k \<and> tile_of (k - 0x2000) = (r, c) then col else vram v k)"
proof -
  have u: "unat (of_nat (base + r * 256 + c * 8) :: u16) = base + r * 256 + c * 8" if "base \<le> 0x2000" for base
    using that assms(2,3) by (simp only: unat_of_nat) simp
  have a: "pattern_addr (of_nat r) (of_nat c) = of_nat (0 + r * 256 + c * 8)"
    unfolding pattern_addr_def Let_def using tile_address [OF assms(2,3), of 0] assms(2,3)
    by (intro word_eq_of_nat) simp
  have t: "vdp_write_tile r c b = vdp_set_write_addr (of_nat (0 + r * 256 + c * 8)) @
      for_io 8 (\<lambda>i. vdp_data (b ((8 * r + i) * 32 + c)))"
    unfolding vdp_write_tile_def a by (rule refl)
  have 1: "unat (of_nat (0 + r * 256 + c * 8) :: u16) + 8 \<le> 2 ^ 14"
    unfolding u [of 0, OF le0] using assms(2,3) by simp
  note f = run_fill [OF assms(1) 1, where g = "\<lambda>i. b ((8 * r + i) * 32 + c)", folded t]
  show "keeps v (run_io cmd data (vdp_write_tile r c b) v)" using f(1,2) by (simp add: keeps_def)
  show "vram (run_io cmd data (vdp_write_tile r c b) v) k = (if tile_of k = (r, c) then board_byte b k else vram v k)"
    using f(3) [of k] tile_of_iff [OF assms(3), of r k] tile_of_offset [of k r c]
    unfolding u [of 0, OF le0] by (auto simp: board_byte_def tile_of_def)
  have a2: "0x2000 + drop_bit 3 (of_nat r) * 0x0800 + push_bit 3 (push_bit 5 (of_nat r AND 7) OR of_nat c) =
      (of_nat (0x2000 + r * 256 + c * 8) :: u16)"
    using tile_address [OF assms(2,3), of "0x2000"] assms(2,3) by (intro word_eq_of_nat) simp
  have t2: "vdp_set_tile_color (of_nat r) (of_nat c) col = vdp_set_write_addr (of_nat (0x2000 + r * 256 + c * 8)) @
      for_io 8 (\<lambda>i. vdp_data col)"
    unfolding vdp_set_tile_color_def Let_def a2 by (rule refl)
  have 2: "unat (of_nat (0x2000 + r * 256 + c * 8) :: u16) + 8 \<le> 2 ^ 14"
    unfolding u [of "0x2000", OF order_refl] using assms(2,3) by simp
  note f2 = run_fill [OF assms(1) 2, where g = "\<lambda>i. col", folded t2]
  show "keeps v (run_io cmd data (vdp_set_tile_color (of_nat r) (of_nat c) col) v)" using f2(1,2) by (simp add: keeps_def)
  have "0x2000 + r * 256 + c * 8 \<le> k \<and> k < 0x2000 + r * 256 + c * 8 + 8 \<longleftrightarrow>
      0x2000 \<le> k \<and> tile_of (k - 0x2000) = (r, c)"
    unfolding tile_of_iff [OF assms(3), symmetric] by auto
  then show "vram (run_io cmd data (vdp_set_tile_color (of_nat r) (of_nat c) col) v) k =
      (if 0x2000 \<le> k \<and> tile_of (k - 0x2000) = (r, c) then col else vram v k)"
    using f2(3) [of k] unfolding u [of "0x2000", OF order_refl] by simp
qed

lemma run_series:
  assumes "series g T out" and "idle v"
    and tile: "\<And>t w. t \<in> T \<Longrightarrow> idle w \<Longrightarrow> keeps w (run_io cmd data (g t) w) \<and>
      vram (run_io cmd data (g t) w) k = (if P t then val else vram w k)"
  shows "keeps v (run_io cmd data out v) \<and>
    vram (run_io cmd data out v) k = (if \<exists>t \<in> T. P t then val else vram v k)"
proof -
  obtain ts where out: "out = concat (map g ts)" and T: "T = set ts" using assms(1) by (auto simp: series_def)
  have "run_io cmd data (concat (map g ts)) v = fold (\<lambda>t. run_io cmd data (g t)) ts v"
    by (induction ts arbitrary: v) simp_all
  moreover have "keeps v (fold (\<lambda>t. run_io cmd data (g t)) ts v) \<and>
      vram (fold (\<lambda>t. run_io cmd data (g t)) ts v) k = (if \<exists>t \<in> set ts. P t then val else vram v k)"
    by (rule fold_view_inv [where P = "keeps v" and view = vram]) (use tile T assms(2) in \<open>auto simp: keeps_def\<close>)
  ultimately show ?thesis by (simp add: out T)
qed

lemma run_writes:
  assumes "series (tile_write b) T out" and "idle v" and "T \<subseteq> {..<24} \<times> {..<32}"
  shows "keeps v (run_io cmd data out v)"
    and "vram (run_io cmd data out v) k = (if tile_of k \<in> T then board_byte b k else vram v k)"
proof -
  have "keeps v (run_io cmd data out v) \<and>
      vram (run_io cmd data out v) k = (if \<exists>t \<in> T. tile_of k = t then board_byte b k else vram v k)" for k
    by (rule run_series [OF assms(1,2)]) (use assms(3) run_tile(1,2) in auto)
  then show "keeps v (run_io cmd data out v)"
    and "vram (run_io cmd data out v) k = (if tile_of k \<in> T then board_byte b k else vram v k)" by auto
qed

lemma run_paints:
  assumes "series (tile_paint col) T out" and "idle v" and "T \<subseteq> {..<24} \<times> {..<32}"
  shows "keeps v (run_io cmd data out v)"
    and "vram (run_io cmd data out v) k = (if 0x2000 \<le> k \<and> tile_of (k - 0x2000) \<in> T then col else vram v k)"
proof -
  have "keeps v (run_io cmd data out v) \<and> vram (run_io cmd data out v) k =
      (if \<exists>t \<in> T. 0x2000 \<le> k \<and> tile_of (k - 0x2000) = t then col else vram v k)" for k
    by (rule run_series [OF assms(1,2)]) (use assms(3) run_tile(3,4) in auto)
  then show "keeps v (run_io cmd data out v)"
    and "vram (run_io cmd data out v) k = (if 0x2000 \<le> k \<and> tile_of (k - 0x2000) \<in> T then col else vram v k)" by auto
qed

end

section \<open>The states the programs reach\<close>

text \<open>The parameter is the \<open>step_board\<close> of the program.\<close>

inductive full_reach ::
    "(board_ref \<Rightarrow> board_ref \<Rightarrow> life_full \<Rightarrow> life_full) \<Rightarrow> (u8 \<Rightarrow> 'v \<Rightarrow> 'v) \<Rightarrow> (u8 \<Rightarrow> 'v \<Rightarrow> 'v) \<Rightarrow> 'v \<Rightarrow>
      life_full \<Rightarrow> 'v \<Rightarrow> bool"
  for step cmd data v0 where
  start: "life_init life_globals = (s, out) \<Longrightarrow> full_reach step cmd data v0 s (run_io cmd data out v0)"
| frame: "full_reach step cmd data v0 s v \<Longrightarrow> life_frame step s = (s', out) \<Longrightarrow>
    full_reach step cmd data v0 s' (run_io cmd data out v)"

text \<open>What the tables show: the cells of the region, the frame around it, and the colours of both.\<close>

definition shows_screen :: "(nat \<Rightarrow> u8) \<Rightarrow> mem \<Rightarrow> bool" where
  "shows_screen vram b \<longleftrightarrow> (\<forall>px py. px < 256 \<longrightarrow> py < 192 \<longrightarrow>
    (bit (vram (pix px py)) (7 - px mod 8) \<longleftrightarrow> (if in_region px py then cell 32 b px py else border_pixel px py)))"

definition frame_colors :: "(nat \<Rightarrow> u8) \<Rightarrow> bool" where
  "frame_colors vram \<longleftrightarrow>
    (\<forall>k < 6144. vram (0x2000 + k) = color_pair (if tile_of k \<in> border_tiles then 0x0B else 0x07))"

definition full_inv :: "life_full \<Rightarrow> (nat \<Rightarrow> u8) \<Rightarrow> (nat \<Rightarrow> u8) \<Rightarrow> bool" where
  "full_inv s reg vram \<longleftrightarrow>
    cur s \<noteq> next s \<and> stray s = [] \<and> active_ok (active_tiles s) (board (cur s) s) \<and>
    reg 1 = 0xE0 \<and> gfx2_setup reg vram \<and> shows_screen vram (board (cur s) s) \<and> frame_colors vram"

lemma border_range: "border_tiles \<subseteq> {..<24} \<times> {..<32}" "region_tiles \<subseteq> {..<24} \<times> {..<32}"
  "dirty_set d \<subseteq> region_tiles"
  by (auto simp: border_tiles_def region_tiles_def dirty_set_def)

lemma tile_of_lt: "tile_of k \<in> {..<24} \<times> {..<32} \<Longrightarrow> k < 6144"
  by (auto simp: tile_of_def)

text \<open>A cell of a tile that does not differ is the same on both boards.\<close>

lemma full_not_tile_differs:
  assumes "\<not> tile_differs b c (py div 8 - 2) (px div 8 - 2)" and "in_region px py"
  shows "cell 32 b px py \<longleftrightarrow> cell 32 c px py"
proof -
  have "16 + (8 * (px div 8 - 2) + px mod 8) = px" "16 + (8 * (py div 8 - 2) + py mod 8) = py"
    using assms(2) unfolding in_region_def by presburger+
  moreover have "px mod 8 < 8" "py mod 8 < 8" by simp_all
  ultimately show ?thesis using assms(1) unfolding tile_differs_def region_cell_def by metis
qed

lemma full_frame_values:
  assumes "cur s \<noteq> next s"
  defines "s0 \<equiv> s\<lparr>cur := next s, next := cur s\<rparr>"
  shows "life_frame step_board s = (step_board (cur s) (next s) s0,
      vdp_write_dirty_patterns (dirty_tiles (step_board (cur s) (next s) s0))
        (board (next s) (step_board (cur s) (next s) s0)))"
    and "cur (step_board (cur s) (next s) s0) = next s" and "next (step_board (cur s) (next s) s0) = cur s"
    and "stray (step_board (cur s) (next s) s0) = stray s"
    and "board r s0 = board r s" and "active_tiles s0 = active_tiles s"
  using assms(1) by (simp_all add: life_frame_def Let_def s0_def full_step_board_values)

lemma full_frame_board:
  assumes "cur s \<noteq> next s" and "active_ok (active_tiles s) (board (cur s) s)" and "x < 224" "y < 160"
  shows "region_cell (board (cur (fst (life_frame step_board s))) (fst (life_frame step_board s))) x y \<longleftrightarrow>
    life_step 224 160 (region_cell (board (cur s) s)) x y"
proof -
  note f = full_frame_values [OF assms(1)]
  show ?thesis
    unfolding f(1) fst_conv f(2) using full_step_board_cells [OF assms(1), where x = x and y = y] assms(2-) f(5,6) by simp
qed

context vdp_device
begin

lemma full_frame_inv:
  assumes inv: "full_inv s (reg v) (vram v)" and i: "idle v" and fr: "life_frame step_board s = (s', out)"
  shows "idle (run_io cmd data out v) \<and> full_inv s' (reg (run_io cmd data out v)) (vram (run_io cmd data out v))"
proof -
  have ne: "cur s \<noteq> next s" using inv by (simp add: full_inv_def)
  note f = full_frame_values [OF ne]
  define w where "w = run_io cmd data out v"
  let ?c = "board (cur s) s" and ?b = "board (cur s') s'"
  have s': "s' = step_board (cur s) (next s) (s\<lparr>cur := next s, next := cur s\<rparr>)"
    and out: "out = vdp_write_dirty_patterns (dirty_tiles s') ?b" using fr f(1,2) by auto
  have ok: "active_ok (active_tiles (s\<lparr>cur := next s, next := cur s\<rparr>)) (board (cur s) (s\<lparr>cur := next s, next := cur s\<rparr>))"
    using inv by (simp add: full_inv_def)
  have cs: "cur s' = next s" "next s' = cur s" "stray s' = stray s" unfolding s' by (rule f)+
  have dirty: "dirty_tiles s' (ty * 28 + tx) = of_bool (tile_differs ?b ?c ty tx)" if "ty < 20" "tx < 28" for ty tx
    unfolding cs(1) using step_board_dirty [OF ne ok that] unfolding s' by simp
  have "active_ok (active_tiles s') ?b" unfolding cs(1) using full_step_board_active [OF ne] by (simp add: s')
  note r = run_writes [OF dirty_patterns_series [of ?b "dirty_tiles s'"] i, folded out, folded w_def]
  have T: "dirty_set (dirty_tiles s') \<subseteq> {..<24} \<times> {..<32}" using border_range by blast
  have w: "idle w" "reg w = reg v" using r(1) [OF T] by (simp_all add: keeps_def)
  have vw: "vram w k = (if tile_of k \<in> dirty_set (dirty_tiles s') then board_byte ?b k else vram v k)" for k by (rule r(2) [OF T])
  have hi: "vram w k = vram v k" if "6144 \<le> k" for k using vw [of k] tile_of_lt T that by (meson in_mono not_less)
  have "shows_screen (vram w) ?b"
    unfolding shows_screen_def
  proof (intro allI impI)
    fix px py :: nat assume lt: "px < 256" "py < 192"
    have old: "bit (vram v (pix px py)) (7 - px mod 8) \<longleftrightarrow> (if in_region px py then cell 32 ?c px py else border_pixel px py)"
      using inv lt by (simp add: full_inv_def shows_screen_def)
    show "bit (vram w (pix px py)) (7 - px mod 8) \<longleftrightarrow> (if in_region px py then cell 32 ?b px py else border_pixel px py)"
    proof (cases "tile_of (pix px py) \<in> dirty_set (dirty_tiles s')")
      case True
      then have "in_region px py" using border_range(3) region_tile_iff tile_of_pix(1) [OF lt(1)] by auto
      with True show ?thesis by (simp add: vw board_byte_pix lt)
    next
      case False
      have "cell 32 ?b px py = cell 32 ?c px py" if reg: "in_region px py"
      proof -
        have ty: "py div 8 - 2 < 20" "px div 8 - 2 < 28" "2 + (py div 8 - 2) = py div 8" "2 + (px div 8 - 2) = px div 8"
          using reg unfolding in_region_def by auto
        then have "(py div 8, px div 8) \<in> dirty_set (dirty_tiles s')" if "tile_differs ?b ?c (py div 8 - 2) (px div 8 - 2)"
          unfolding dirty_set_def using that dirty [OF ty(1,2)] by force
        then show ?thesis using False tile_of_pix(1) [OF lt(1)] full_not_tile_differs [OF _ reg] by auto
      qed
      with False old show ?thesis by (simp add: vw)
    qed
  qed
  moreover have "gfx2_setup (reg w) (vram w)" using inv w by (simp add: full_inv_def gfx2_setup_def hi)
  moreover have "frame_colors (vram w)" using inv by (simp add: full_inv_def frame_colors_def hi)
  ultimately show ?thesis
    using inv w cs ne [symmetric] \<open>active_ok (active_tiles s') ?b\<close> unfolding w_def [symmetric] by (simp add: full_inv_def)
qed

lemma full_init_inv:
  assumes i: "idle v" and st: "life_init life_globals = (s, out)"
  shows "idle (run_io cmd data out v) \<and> full_inv s (reg (run_io cmd data out v)) (vram (run_io cmd data out v))"
proof -
  define sb where "sb = seed_board (0xACE1, (\<lambda>_. 0), [])"
  define b where "b = fst (snd sb)"
  define v1 where "v1 = run_io cmd data (vdp_init_gfx2 @ vdp_clear_pattern_table @ vdp_init_name_table @ vdp_init_color_table) v"
  define v2 where "v2 = run_io cmd data vdp_apply_border_colors v1"
  define v3 where "v3 = run_io cmd data vdp_disable_sprites v2"
  define v4 where "v4 = run_io cmd data (vdp_write_border_patterns b) v3"
  define v5 where "v5 = run_io cmd data (vdp_write_patterns b) v4"
  have s: "s = set_board Board_A b (life_globals\<lparr>rng_state := fst sb, stray := snd (snd sb)\<rparr>)
      \<lparr>active_tiles := build_active_tiles b (active_tiles life_globals)\<rparr>"
    and out: "run_io cmd data out v = run_io cmd data vdp_display_on v5"
    using st by (auto simp: life_init_def Let_def split_beta sb_def b_def v5_def v4_def v3_def v2_def v1_def
        life_globals_def board_def set_board_def)
  have cs: "cur s = Board_A" "next s = Board_B" "stray s = []" "board Board_A s = b"
    "active_tiles s = build_active_tiles b (active_tiles life_globals)"
    using seed_board_frame(1) [of "0xACE1" "\<lambda>_. 0" "[]"] by (simp_all add: s sb_def life_globals_def)
  have i1: "idle v1" "gfx2_setup (reg v1) (vram v1)" unfolding v1_def by (rule run_tables [OF i])+
  have col1: "vram v1 k = color_pair 7" if "0x2000 \<le> k" "k < 0x3800" for k
    unfolding v1_def using that by (rule run_tables [OF i])
  have pat1: "vram v1 k = 0" if "k < 0x1800" for k unfolding v1_def using that by (rule run_tables [OF i])
  note r2 = run_paints [OF border_colors_series i1(1) border_range(1), folded v2_def]
  have i2: "idle v2" "reg v2 = reg v1" using r2(1) by (simp_all add: keeps_def)
  note r3 = run_sprites [OF i2(1), folded v3_def]
  note r4 = run_writes [OF border_patterns_series r3(1) border_range(1), of b, folded v4_def]
  have i4: "idle v4" "reg v4 = reg v3" using r4(1) by (simp_all add: keeps_def)
  note r5 = run_writes [OF patterns_series i4(1) border_range(2), of b, folded v5_def]
  have i5: "idle v5" "reg v5 = reg v4" using r5(1) by (simp_all add: keeps_def)
  have hi: "vram v5 k = vram v3 k" if "6144 \<le> k" for k
  proof -
    have "tile_of k \<notin> {..<24} \<times> {..<32}" using that tile_of_lt [of k] by linarith
    then have "tile_of k \<notin> region_tiles" "tile_of k \<notin> border_tiles" using border_range(1,2) by blast+
    then show ?thesis by (simp add: r5(2) r4(2))
  qed
  have "frame_colors (vram v5)"
    unfolding frame_colors_def by (auto simp: hi r3(3) r2(2) col1)
  moreover have "gfx2_setup (reg v5) (vram v5)"
    using i1(2) by (simp add: gfx2_setup_def i5 i4 r3(2) i2 hi r3(3) r2(2))
  moreover have "shows_screen (vram v5) b"
    unfolding shows_screen_def
  proof (intro allI impI)
    fix px py :: nat assume lt: "px < 256" "py < 192"
    have t: "tile_of (pix px py) = (py div 8, px div 8)" by (rule tile_of_pix(1) [OF lt(1)])
    have "pix px py < 6144" by (rule pix_lt [OF lt])
    then have low: "vram v3 (pix px py) = 0" by (simp add: r3(3) r2(2) pat1)
    have "cell 32 b px py \<longleftrightarrow> border_pixel px py" if "\<not> in_region px py"
      using seed_board_frame(2) [OF lt that, of "0xACE1" "\<lambda>_. 0" "[]"] by (simp add: b_def sb_def cell_def)
    then show "bit (vram v5 (pix px py)) (7 - px mod 8) \<longleftrightarrow>
        (if in_region px py then cell 32 b px py else border_pixel px py)"
      using border_tile [of px py]
      by (auto simp: r5(2) r4(2) t region_tile_iff board_byte_pix lt low)
  qed
  moreover have "active_ok (active_tiles s) b" unfolding cs by (rule full_build_active_tiles_ok)
  ultimately show ?thesis
    unfolding out using run_display_on [OF i5(1)] cs by (simp add: full_inv_def gfx2_setup_def)
qed

lemma full_reach_inv:
  assumes i: "idle v0" and reach: "full_reach step cmd data v0 s v"
    and prog: "step = step_board \<or> step = step_board_sliding"
  shows "idle v \<and> full_inv s (reg v) (vram v)"
proof -
  have "step = step_board" using prog step_board_sliding_same by blast
  with reach show ?thesis by induction (use full_init_inv [OF i] full_frame_inv in auto)
qed

end

section \<open>Correctness of the programs\<close>

text \<open>
  C3. On a device that behaves as documented, in every state that \<^verbatim>\<open>life.c\<close> or \<^verbatim>\<open>life2.c\<close> reaches the display is
  on, no store has missed the boards, and every pixel has the right colour: cyan for a live cell of the region,
  yellow for the frame around it, black for the rest.
\<close>

theorem full_screen:
  assumes dev: "vdp_device cmd data vram addr reg idle" and i: "idle v0"
    and prog: "step = step_board \<or> step = step_board_sliding"
    and reach: "full_reach step cmd data v0 s v" and px: "px < 256" and py: "py < 192"
  shows "reg v 1 = 0xE0 \<and> stray s = [] \<and>
    pixel_color (reg v) (vram v) px py =
      (if border_pixel px py then 11
       else if in_region px py \<and> cell 32 (board (cur s) s) px py then 7 else 1)"
proof -
  have inv: "full_inv s (reg v) (vram v)" using vdp_device.full_reach_inv [OF dev i reach prog] by blast
  then have gfx: "gfx2_setup (reg v) (vram v)" by (simp add: full_inv_def)
  have t: "tile_of (pix px py) = (py div 8, px div 8)" by (rule tile_of_pix(1) [OF px])
  have "pix px py < 6144" by (rule pix_lt [OF px py])
  then have col: "color_byte (reg v) (vram v) px py = color_pair (if (py div 8, px div 8) \<in> border_tiles then 11 else 7)"
    using inv t unfolding gfx2_pixel(2) [OF gfx px py]
    by (simp add: full_inv_def frame_colors_def add.assoc pix_def)
  have pat: "pattern_bit (reg v) (vram v) px py \<longleftrightarrow>
      (if in_region px py then cell 32 (board (cur s) s) px py else border_pixel px py)"
    using inv px py unfolding gfx2_pixel(1) [OF gfx px py] by (simp add: full_inv_def shows_screen_def pix_def)
  have "\<not> border_pixel px py" if "in_region px py" using that by (auto simp: in_region_def border_pixel_def)
  moreover have "(py div 8, px div 8) \<notin> border_tiles" if "in_region px py"
    using that unfolding region_tile_iff [symmetric] by (auto simp: region_tiles_def border_tiles_def)
  moreover have "drop_bit 4 (color_pair 7) = 7" "color_pair 7 AND 0x0F = 1" "drop_bit 4 (color_pair 11) = 11"
    "color_pair 11 AND 0x0F = 1" by (simp_all add: color_pair_def)
  ultimately show ?thesis
    using inv border_tile [of px py] by (auto simp: pixel_color_def pat col full_inv_def)
qed

theorem full_screen_witness:
  "\<exists>s v. full_reach step_board_sliding tms9918_cmd tms9918_data power_up s v \<and>
    pixel_color (registers v) (video_ram v) 15 20 = 11"
proof -
  obtain s out where st: "life_init life_globals = (s, out)" by fastforce
  have "tms9918_idle power_up" by (simp add: tms9918_idle_def power_up_def)
  from full_screen [OF tms9918.vdp_device_axioms this disjI2 [OF refl] full_reach.start [OF st], of 15 20]
  show ?thesis using full_reach.start [OF st] by (intro exI conjI) (auto simp: border_pixel_def)
qed

text \<open>
  C4. From every reachable state, one iteration of the main loop of \<^verbatim>\<open>life.c\<close> or \<^verbatim>\<open>life2.c\<close> computes one
  generation of the Game of Life on the torus of 224 by 160 cells.
\<close>

theorem full_generation:
  assumes dev: "vdp_device cmd data vram addr reg idle" and i: "idle v0"
    and prog: "step = step_board \<or> step = step_board_sliding"
    and reach: "full_reach step cmd data v0 s v" and x: "x < 224" and y: "y < 160"
  shows "region_cell (board (cur (fst (life_frame step s))) (fst (life_frame step s))) x y \<longleftrightarrow>
    life_step 224 160 (region_cell (board (cur s) s)) x y"
proof -
  have "step = step_board" using prog step_board_sliding_same by blast
  with full_frame_board [OF _ _ x y, of s] vdp_device.full_reach_inv [OF dev i reach prog] show ?thesis
    by (simp add: full_inv_def)
qed

theorem full_generation_witness:
  "\<exists>s v. full_reach step_board tms9918_cmd tms9918_data power_up s v \<and>
    region_cell (board (cur (fst (life_frame step_board s))) (fst (life_frame step_board s))) 5 7 =
    life_step 224 160 (region_cell (board (cur s) s)) 5 7"
proof -
  obtain s out where st: "life_init life_globals = (s, out)" by fastforce
  have i: "tms9918_idle power_up" by (simp add: tms9918_idle_def power_up_def)
  from full_generation [OF tms9918.vdp_device_axioms i disjI1 [OF refl] full_reach.start [OF st], of 5 7]
  show ?thesis using full_reach.start [OF st] by (intro exI conjI) auto
qed

end
