(* ===== verification/Vdp_Text.thy ===== *)
theory Vdp_Text
  imports Vdp
begin

text \<open>
  Character screens: the name table at address 0 holds one byte for each of 24 rows of 32 columns.
  The demos \<^verbatim>\<open>ball.c\<close>, \<^verbatim>\<open>ball2.c\<close> and \<^verbatim>\<open>banner.c\<close> clear it, store single characters and write strings.
\<close>

section \<open>Characters\<close>

abbreviation (input) chr :: "char \<Rightarrow> u8" where "chr c \<equiv> of_char c"

text \<open>
  The sixteen-bit operations of the demos; their results are the byte values that go to the ports.
\<close>

definition vdp_clear_screen :: "io list" where
  "vdp_clear_screen = vdp_set_write_addr 0x0000 @ for_io (24 * 32) (\<lambda>i. vdp_data (chr CHR '' ''))"

definition put_char :: "u16 \<Rightarrow> u16 \<Rightarrow> u8 \<Rightarrow> io list" where
  "put_char row col c = vdp_set_write_addr (row * 32 + col) @ vdp_data c"

section \<open>Busy waits\<close>

text \<open>The counter of the busy wait, after the loop.\<close>

function delay_from :: "u16 \<Rightarrow> u16 \<Rightarrow> u16" where
  "delay_from delay_counter count =
    (if delay_counter < count then delay_from (delay_counter + 1) count else delay_counter)"
  by pat_completeness auto

termination
proof (relation "measure (\<lambda>(c :: u16, n :: u16). unat n - unat c)")
  fix c n :: u16 assume "c < n"
  then have "unat c < unat n" by (simp add: word_less_nat_alt)
  moreover have "unat n < 2 ^ 16" using unsigned_less [of n] by simp
  moreover from calculation have "unat (c + 1) = unat c + 1" by (simp add: unat_word_ariths)
  ultimately show "((c + 1, n), c, n) \<in> measure (\<lambda>(c :: u16, n :: u16). unat n - unat c)" by simp
qed simp

lemma delay_from_value: "c \<le> n \<Longrightarrow> delay_from c n = n"
proof (induction c n rule: delay_from.induct)
  case (1 c n)
  show ?case
  proof (cases "c < n")
    case True
    then have "c + 1 \<le> n" by (simp add: inc_le)
    with 1 True show ?thesis by (subst delay_from.simps) simp
  next
    case False
    with 1 show ?thesis by (subst delay_from.simps) simp
  qed
qed

section \<open>The name table\<close>

text \<open>The byte of the screen at a row and a column.\<close>

definition screen :: "(nat \<Rightarrow> u8) \<Rightarrow> nat \<Rightarrow> nat \<Rightarrow> u8" where
  "screen vram row col = vram (row * 32 + col)"

lemma screen_address:
  assumes "row < 24" and "col < 32"
  shows "unat (of_nat row * 32 + of_nat col :: u16) = row * 32 + col"
proof -
  have "(of_nat row * 32 + of_nat col :: u16) = of_nat (row * 32 + col)" by simp
  then show ?thesis using assms by (simp only: unat_of_nat) simp
qed

lemma screen_upd:
  assumes "col < 32" and "col' < 32"
  shows "screen (vram(row * 32 + col := c)) row' col' = (if row' = row \<and> col' = col then c else screen vram row' col')"
proof -
  have "row' * 32 + col' = row * 32 + col \<longleftrightarrow> row' = row \<and> col' = col"
  proof
    assume e: "row' * 32 + col' = row * 32 + col"
    have "(row' * 32 + col') div 32 = row'" "(row * 32 + col) div 32 = row" using assms by simp_all
    with e show "row' = row \<and> col' = col" by simp
  qed simp
  then show ?thesis by (simp add: screen_def)
qed

context vdp_device
begin

text \<open>A block of bytes at an address, as an update of the memory.\<close>

lemma run_put_char:
  fixes c :: u8
  assumes "idle v" and "row < 24" and "col < 32"
  defines "w \<equiv> run_io cmd data (put_char (of_nat row) (of_nat col) c) v"
  shows "idle w" and "reg w = reg v" and "vram w = (vram v)(row * 32 + col := c)"
proof -
  let ?a = "of_nat row * 32 + of_nat col :: u16"
  have u: "unat ?a = row * 32 + col" by (rule screen_address [OF assms(2,3)])
  have le: "unat ?a + length [c] \<le> 2 ^ 14" using assms(2,3) unfolding u by simp
  note rb = run_block [OF assms(1) le]
  have w: "w = run_io cmd data (vdp_set_write_addr ?a @ map Data [c]) v"
    by (simp add: w_def put_char_def vdp_data_def)
  show "idle w" "reg w = reg v" unfolding w by (rule rb; simp)+
  show "vram w = (vram v)(row * 32 + col := c)"
  proof
    fix k
    show "vram w k = ((vram v)(row * 32 + col := c)) k" using rb(3) [of k] unfolding w u by auto
  qed
qed

lemma run_clear_screen:
  assumes "idle v"
  defines "w \<equiv> run_io cmd data vdp_clear_screen v"
  shows "idle w" and "reg w = reg v" and "vram w k = (if k < 768 then 0x20 else vram v k)"
proof -
  show "idle w" "reg w = reg v" unfolding w_def vdp_clear_screen_def by (rule run_fill [OF assms(1)]; simp)+
  show "vram w k = (if k < 768 then 0x20 else vram v k)"
    unfolding w_def vdp_clear_screen_def by (subst run_fill [OF assms(1)]) simp_all
qed

end

end
