(* ===== verification/Ball.thy ===== *)
theory Ball
  imports Vdp_Text
begin

text \<open>
  The bouncing ball demo \<^verbatim>\<open>cart_example/ball.c\<close>: the motion of the ball is a triangle wave on each axis, and
  the character screen shows the ball and nothing else.
\<close>

section \<open>The program\<close>

definition cart_header :: "u8 list" where
  "cart_header =
    [0xAA, 0x01, 0x00, 0x00, 0x00, 0x00, 0x60, 0x10,
     0x00, 0x00, 0x00, 0x00, 0x00, 0x00, 0x00, 0x00,
     0x00, 0x00, 0x60, 0x24,
     12] @ map of_char ''BOUNCINGBALL'' @ [0x00]"

text \<open>The ports take the high byte of a shifted word.\<close>

definition vdp_write_addr :: "u16 \<Rightarrow> io list" where
  "vdp_write_addr val_shifted = [Cmd (ucast (drop_bit 8 val_shifted))]"

definition vdp_write_data :: "u16 \<Rightarrow> io list" where
  "vdp_write_data val_shifted = [Data (ucast (drop_bit 8 val_shifted))]"

definition ball_set_register :: "u8 \<Rightarrow> u8 \<Rightarrow> io list" where
  "ball_set_register reg val = vdp_write_addr (push_bit 8 (ucast val)) @ vdp_write_addr (push_bit 8 (ucast (reg OR 0x80)))"

definition ball_set_write_addr :: "u16 \<Rightarrow> io list" where
  "ball_set_write_addr addr =
    vdp_write_addr (push_bit 8 (addr AND 0xFF)) @
    vdp_write_addr (push_bit 8 ((drop_bit 8 addr AND 0x3F) OR 0x40))"

definition delay :: "u16 \<Rightarrow> u16" where
  "delay count = delay_from 0 count"

definition clear_screen :: "io list" where
  "clear_screen = ball_set_write_addr 0x0000 @ for_io 768 (\<lambda>screen_counter. vdp_write_data (push_bit 8 0x20))"

definition ball_put_char :: "u16 \<Rightarrow> u16 \<Rightarrow> u16 \<Rightarrow> io list" where
  "ball_put_char row col c =
    (let addr = row * 32 + col in ball_set_write_addr addr @ vdp_write_data (push_bit 8 c))"

definition ball_pattern :: "u8 list" where
  "ball_pattern = [0x3C, 0x7E, 0xFF, 0xFF, 0xFF, 0xFF, 0x7E, 0x3C]"

definition define_ball_char :: "io list" where
  "define_ball_char =
    ball_set_write_addr 0x0C00 @
    for_io 8 (\<lambda>pattern_counter. vdp_write_data (push_bit 8 (ucast (ball_pattern ! pattern_counter))))"

record ball =
  ball_x :: int
  ball_y :: int
  ball_dx :: int
  ball_dy :: int
  delay_counter :: u16

definition ball_init :: "ball \<Rightarrow> ball \<times> io list" where
  "ball_init s =
    (s\<lparr>ball_x := 15, ball_y := 11, ball_dx := 1, ball_dy := 1\<rparr>,
     ball_set_register 7 0xF4 @ clear_screen @ define_ball_char)"

text \<open>One iteration of the animation loop.\<close>

definition ball_frame :: "ball \<Rightarrow> ball \<times> io list" where
  "ball_frame s =
    (let out = ball_put_char (word_of_int (ball_y s)) (word_of_int (ball_x s)) 0x20;
         s = s\<lparr>ball_x := s16 (ball_x s + ball_dx s)\<rparr>;
         s = s\<lparr>ball_y := s16 (ball_y s + ball_dy s)\<rparr>;
         s = (if ball_x s \<le> 0 \<or> ball_x s \<ge> 31 then s\<lparr>ball_dx := s16 (- ball_dx s)\<rparr> else s);
         s = (if ball_y s \<le> 0 \<or> ball_y s \<ge> 23 then s\<lparr>ball_dy := s16 (- ball_dy s)\<rparr> else s);
         out = out @ ball_put_char (word_of_int (ball_y s)) (word_of_int (ball_x s)) 0x4F
     in (s\<lparr>delay_counter := delay 2000\<rparr>, out))"

text \<open>The first \<open>n\<close> iterations of the loop, with all port writes since power-up.\<close>

fun ball_loop :: "nat \<Rightarrow> ball \<Rightarrow> ball \<times> io list" where
  "ball_loop 0 s = ball_init s"
| "ball_loop (Suc n) s =
    (let (s', out) = ball_loop n s; (s'', out') = ball_frame s' in (s'', out @ out'))"

section \<open>Shifted port writes\<close>

lemma high_byte: "(ucast (drop_bit 8 (push_bit 8 w)) :: u8) = ucast (w :: u16)"
  by (rule u8_eqI) (simp_all add: bit_simps)

lemma ball_io_simps:
  "ball_set_register reg val = vdp_set_register reg val"
  "ball_set_write_addr addr = vdp_set_write_addr addr"
  "vdp_write_data (push_bit 8 c) = vdp_data (ucast c)"
  "ball_put_char row col c = put_char row col (ucast c)"
  "clear_screen = vdp_clear_screen"
proof -
  have uu: "ucast (ucast b :: u16) = b" for b :: u8 by (rule u8_eqI) (simp_all add: bit_simps)
  show 1: "ball_set_register reg val = vdp_set_register reg val"
    unfolding ball_set_register_def vdp_set_register_def vdp_write_addr_def vdp_cmd_def high_byte uu by (rule refl)
  show 2: "ball_set_write_addr addr = vdp_set_write_addr addr" for addr
    unfolding ball_set_write_addr_def vdp_set_write_addr_def vdp_write_addr_def vdp_cmd_def high_byte by (rule refl)
  show 3: "vdp_write_data (push_bit 8 c) = vdp_data (ucast c)" for c
    unfolding vdp_write_data_def vdp_data_def high_byte by (rule refl)
  show "ball_put_char row col c = put_char row col (ucast c)"
    unfolding ball_put_char_def put_char_def Let_def 2 3 by (rule refl)
  show "clear_screen = vdp_clear_screen"
    unfolding clear_screen_def vdp_clear_screen_def 2 3 by simp
qed

section \<open>The motion\<close>

text \<open>A point that runs to and fro between 0 and \<open>m\<close>, at time \<open>t\<close>.\<close>

definition triangle :: "nat \<Rightarrow> nat \<Rightarrow> nat" where
  "triangle m t = (let r = t mod (2 * m) in if r \<le> m then r else 2 * m - r)"

definition heading :: "nat \<Rightarrow> nat \<Rightarrow> int" where
  "heading m t = (if t mod (2 * m) < m then 1 else - 1)"

lemma triangle_le: "triangle m t \<le> m"
  by (auto simp: triangle_def Let_def)

lemma triangle_step:
  assumes "2 \<le> m"
  shows "int (triangle m t) + heading m t = int (triangle m (Suc t))"
    and "heading m (Suc t) =
      (if int (triangle m (Suc t)) \<le> 0 \<or> int (triangle m (Suc t)) \<ge> int m then - heading m t else heading m t)"
proof -
  define r where "r = t mod (2 * m)"
  have r: "r < 2 * m" using assms by (simp add: r_def)
  have s: "Suc t mod (2 * m) = (if Suc r = 2 * m then 0 else Suc r)" by (simp add: r_def mod_Suc)
  show "int (triangle m t) + heading m t = int (triangle m (Suc t))"
    using r assms unfolding triangle_def heading_def Let_def s r_def [symmetric] by auto
  show "heading m (Suc t) =
      (if int (triangle m (Suc t)) \<le> 0 \<or> int (triangle m (Suc t)) \<ge> int m then - heading m t else heading m t)"
    using r assms unfolding triangle_def heading_def Let_def s r_def [symmetric] by auto
qed

definition ball_at :: "nat \<Rightarrow> ball \<Rightarrow> bool" where
  "ball_at n s \<longleftrightarrow> ball_x s = int (triangle 31 (15 + n)) \<and> ball_y s = int (triangle 23 (11 + n)) \<and>
    ball_dx s = heading 31 (15 + n) \<and> ball_dy s = heading 23 (11 + n)"

lemma heading_cases: "heading m t = 1 \<or> heading m t = - 1"
  by (simp add: heading_def)

lemma ball_frame_at:
  assumes "ball_at n s"
  shows "ball_at (Suc n) (fst (ball_frame s))"
    and "snd (ball_frame s) =
      put_char (of_nat (triangle 23 (11 + n))) (of_nat (triangle 31 (15 + n))) 0x20 @
      put_char (of_nat (triangle 23 (11 + Suc n))) (of_nat (triangle 31 (15 + Suc n))) 0x4F"
proof -
  have sx: "s16 (ball_x s + ball_dx s) = int (triangle 31 (Suc (15 + n)))"
    using assms triangle_step(1) [of 31 "15 + n"] triangle_le [of 31 "Suc (15 + n)"]
    by (simp add: ball_at_def s16_id)
  have sy: "s16 (ball_y s + ball_dy s) = int (triangle 23 (Suc (11 + n)))"
    using assms triangle_step(1) [of 23 "11 + n"] triangle_le [of 23 "Suc (11 + n)"]
    by (simp add: ball_at_def s16_id)
  have neg: "s16 (- heading m t) = - heading m t" for m t
    using heading_cases [of m t] by (auto simp: s16_id)
  show "ball_at (Suc n) (fst (ball_frame s))"
    using assms triangle_step(2) [of 31 "15 + n"] triangle_step(2) [of 23 "11 + n"] sx sy neg
    by (simp add: ball_frame_def Let_def ball_at_def)
  show "snd (ball_frame s) =
      put_char (of_nat (triangle 23 (11 + n))) (of_nat (triangle 31 (15 + n))) 0x20 @
      put_char (of_nat (triangle 23 (11 + Suc n))) (of_nat (triangle 31 (15 + Suc n))) 0x4F"
    using assms sx sy by (simp add: ball_frame_def Let_def ball_at_def ball_io_simps)
qed

section \<open>The screen\<close>

context vdp_device
begin

lemma run_ball_init:
  fixes s :: ball
  assumes "idle v"
  defines "w \<equiv> run_io cmd data (snd (ball_init s)) v"
  shows "idle w" and "row < 24 \<Longrightarrow> col < 32 \<Longrightarrow> screen (vram w) row col = 0x20" and "reg w 7 = 0xF4"
proof -
  define v1 where "v1 = run_io cmd data (vdp_set_register 7 0xF4) v"
  define v2 where "v2 = run_io cmd data vdp_clear_screen v1"
  have v1: "idle v1" "reg v1 7 = 0xF4" unfolding v1_def by (simp_all add: run_set_register [OF assms(1)])
  note c = run_clear_screen [OF v1(1), folded v2_def]
  have w: "w = run_io cmd data (vdp_set_write_addr 0x0C00 @ for_io 8 (\<lambda>i. vdp_data (ucast (ucast (ball_pattern ! i) :: u16)))) v2"
    by (simp add: w_def v1_def v2_def ball_init_def define_ball_char_def ball_io_simps)
  show "idle w" unfolding w by (rule run_fill [OF c(1)]) simp_all
  have "reg w = reg v2" unfolding w by (rule run_fill [OF c(1)]) simp_all
  with c(2) v1(2) show "reg w 7 = 0xF4" by simp
  show "screen (vram w) row col = 0x20" if "row < 24" "col < 32"
  proof -
    have k: "row * 32 + col < 768" using that by linarith
    have "vram w (row * 32 + col) = vram v2 (row * 32 + col)"
      unfolding w by (subst run_fill [OF c(1)]) (use k in simp_all)
    with c(3) k show ?thesis by (simp add: screen_def)
  qed
qed

text \<open>What is on the screen after \<open>n\<close> iterations.\<close>

definition ball_shown :: "nat \<Rightarrow> 'v \<Rightarrow> bool" where
  "ball_shown n v \<longleftrightarrow> (\<forall>row < 24. \<forall>col < 32. screen (vram v) row col =
    (if 0 < n \<and> row = triangle 23 (11 + n) \<and> col = triangle 31 (15 + n) then 0x4F else 0x20))"

lemma run_ball_frame:
  assumes "idle v" and "ball_at n s" and shown: "ball_shown n v"
  defines "w \<equiv> run_io cmd data (snd (ball_frame s)) v"
  shows "idle w" and "reg w = reg v" and "ball_shown (Suc n) w"
proof -
  have x: "triangle 31 t < 32" for t using triangle_le [of 31 t] by simp
  have y: "triangle 23 t < 24" for t using triangle_le [of 23 t] by simp
  define v1 where "v1 = run_io cmd data (put_char (of_nat (triangle 23 (11 + n))) (of_nat (triangle 31 (15 + n))) 0x20) v"
  note p1 = run_put_char [OF assms(1) y x, of "11 + n" "15 + n" "0x20", folded v1_def]
  have w: "w = run_io cmd data (put_char (of_nat (triangle 23 (11 + Suc n))) (of_nat (triangle 31 (15 + Suc n))) 0x4F) v1"
    by (simp only: w_def v1_def ball_frame_at(2) [OF assms(2)] run_io_append)
  note p2 = run_put_char [OF p1(1) y x, of "11 + Suc n" "15 + Suc n" "0x4F", folded w]
  show "idle w" "reg w = reg v" using p1 p2 by simp_all
  show "ball_shown (Suc n) w"
    unfolding ball_shown_def p2(3) p1(3) using shown x by (auto simp: ball_shown_def screen_upd)
qed

lemma run_ball_loop:
  assumes "idle v"
  shows "ball_at n (fst (ball_loop n s)) \<and> idle (run_io cmd data (snd (ball_loop n s)) v) \<and>
    ball_shown n (run_io cmd data (snd (ball_loop n s)) v) \<and>
    reg (run_io cmd data (snd (ball_loop n s)) v) 7 = 0xF4"
proof (induction n)
  case 0
  have "ball_at 0 (fst (ball_init s))" by (simp add: ball_init_def ball_at_def triangle_def heading_def)
  with run_ball_init [OF assms] show ?case by (simp add: ball_shown_def)
next
  case (Suc n)
  let ?s = "fst (ball_loop n s)" and ?v = "run_io cmd data (snd (ball_loop n s)) v"
  have "ball_loop (Suc n) s = (fst (ball_frame ?s), snd (ball_loop n s) @ snd (ball_frame ?s))"
    by (simp add: split_beta)
  with run_ball_frame [of ?v n ?s] ball_frame_at(1) [of n ?s] Suc show ?case by simp
qed

end

text \<open>
  C20. After \<open>n\<close> iterations of the animation loop of \<^verbatim>\<open>ball.c\<close>, from any initial values of its variables, the ball
  is where two triangle waves put it, always inside the screen, and on a device that behaves as documented
  the screen shows the letter O there (from the first iteration on) and blanks everywhere else.
\<close>

theorem ball_motion:
  assumes dev: "vdp_device cmd data vram addr reg idle" and i: "idle v0" and row: "row < 24" and col: "col < 32"
  shows "ball_x (fst (ball_loop n s)) = int (triangle 31 (15 + n)) \<and>
    ball_y (fst (ball_loop n s)) = int (triangle 23 (11 + n)) \<and>
    triangle 31 (15 + n) \<le> 31 \<and> triangle 23 (11 + n) \<le> 23 \<and>
    screen (vram (run_io cmd data (snd (ball_loop n s)) v0)) row col =
      (if 0 < n \<and> row = triangle 23 (11 + n) \<and> col = triangle 31 (15 + n) then 0x4F else 0x20) \<and>
    reg (run_io cmd data (snd (ball_loop n s)) v0) 7 = 0xF4"
proof -
  note r = vdp_device.run_ball_loop [OF dev i, of n s]
  have "screen (vram (run_io cmd data (snd (ball_loop n s)) v0)) row col =
      (if 0 < n \<and> row = triangle 23 (11 + n) \<and> col = triangle 31 (15 + n) then 0x4F else 0x20)"
    using r row col unfolding vdp_device.ball_shown_def [OF dev] by blast
  with r show ?thesis unfolding ball_at_def by (intro conjI triangle_le) simp_all
qed

theorem ball_motion_witness:
  "ball_x (fst (ball_loop 17 \<lparr>ball_x = 3, ball_y = 4, ball_dx = 5, ball_dy = 6, delay_counter = 0\<rparr>)) = 30"
proof -
  have "tms9918_idle power_up" by (simp add: tms9918_idle_def power_up_def)
  from ball_motion [OF tms9918.vdp_device_axioms this, of 0 0 17] show ?thesis by (simp add: triangle_def)
qed

text \<open>
  The busy wait of \<^verbatim>\<open>ball.c\<close> ends for every count, with the counter at the count.
\<close>

theorem delay_ends: "delay count = count"
  unfolding delay_def by (rule delay_from_value) simp

end
