(* ===== verification/Banner.thy ===== *)
theory Banner
  imports Vdp_Text
begin

text \<open>
  The text demo \<^verbatim>\<open>cart_example/banner.c\<close>: strings written to a cleared character screen, and the picture they make.
\<close>

section \<open>The program\<close>

definition cart_header :: "u8 list" where
  "cart_header =
    [0xAA, 0x01, 0x00, 0x00, 0x00, 0x00, 0x60, 0x10,
     0x00, 0x00, 0x00, 0x00, 0x00, 0x00, 0x00, 0x00,
     0x00, 0x00, 0x60, 0x24,
     12] @ map of_char ''LLVM TMS9900'' @ [0x00]"

text \<open>A string literal in memory, with the zero byte that ends it.\<close>

definition c_string :: "string \<Rightarrow> u8 list" where
  "c_string s = map of_char s @ [0]"

fun vdp_write_string :: "u8 list \<Rightarrow> io list" where
  "vdp_write_string [] = []"
| "vdp_write_string (c # s) = (if c = 0 then [] else vdp_data c @ vdp_write_string s)"

definition vdp_write_at :: "u16 \<Rightarrow> u16 \<Rightarrow> string \<Rightarrow> io list" where
  "vdp_write_at row col s = vdp_set_write_addr (row * 32 + col) @ vdp_write_string (c_string s)"

definition banner_main :: "io list" where
  "banner_main =
    vdp_set_register 7 0xF4 @
    vdp_clear_screen @
    vdp_write_at 0 0 ''********************************'' @
    vdp_write_at 2 4 ''L     L     V   V  M   M'' @
    vdp_write_at 3 4 ''L     L     V   V  MM MM'' @
    vdp_write_at 4 4 ''L     L     V   V  M M M'' @
    vdp_write_at 5 4 ''L     L      V V   M   M'' @
    vdp_write_at 6 4 ''LLLLL LLLLL   V    M   M'' @
    vdp_write_at 8 11 ''* TMS9900 *'' @
    vdp_write_at 10 0 ''--------------------------------'' @
    vdp_write_at 12 6 ''HELLO FROM C CODE!'' @
    vdp_write_at 15 8 ''COMPILED USING'' @
    vdp_write_at 17 6 ''LLVM-TMS9900 BACKEND'' @
    vdp_write_at 21 15 '':)'' @
    vdp_write_at 23 0 ''********************************''"

section \<open>The picture\<close>

definition banner_picture :: "string list" where
  "banner_picture =
    [''********************************'',
     ''                                '',
     ''    L     L     V   V  M   M    '',
     ''    L     L     V   V  MM MM    '',
     ''    L     L     V   V  M M M    '',
     ''    L     L      V V   M   M    '',
     ''    LLLLL LLLLL   V    M   M    '',
     ''                                '',
     ''           * TMS9900 *          '',
     ''                                '',
     ''--------------------------------'',
     ''                                '',
     ''      HELLO FROM C CODE!        '',
     ''                                '',
     ''                                '',
     ''        COMPILED USING          '',
     ''                                '',
     ''      LLVM-TMS9900 BACKEND      '',
     ''                                '',
     ''                                '',
     ''                                '',
     ''               :)               '',
     ''                                '',
     ''********************************'']"

lemma of_char_eq_0_iff: "0 = (of_char c :: u8) \<longleftrightarrow> c = CHR 0x00"
proof
  assume "0 = (of_char c :: u8)"
  then have "(of_nat (of_char c) :: u8) = 0" by (metis of_nat_of_char)
  then have "unat (of_nat (of_char c) :: u8) = 0" by (simp only: unsigned_0)
  moreover have "of_char c < (256 :: nat)" by (rule nat_of_char_less_256)
  ultimately have "of_char c = (0 :: nat)" by (simp only: unat_of_nat) simp
  also have "\<dots> = of_char (CHR 0x00)" by simp
  finally show "c = CHR 0x00" by (simp only: of_char_eq_iff)
qed simp

lemma write_string_data: "0 \<notin> set bs \<Longrightarrow> vdp_write_string (bs @ [0]) = map Data bs"
  by (induction bs) (auto simp: vdp_data_def)

text \<open>A row of the screen, and a string written into a row.\<close>

definition row_shows :: "(nat \<Rightarrow> u8) \<Rightarrow> nat \<Rightarrow> string \<Rightarrow> bool" where
  "row_shows vram row t \<longleftrightarrow> (\<forall>c < 32. screen vram row c = of_char (t ! c))"

definition pad :: "nat \<Rightarrow> string \<Rightarrow> string" where
  "pad col s = replicate col CHR '' '' @ s @ replicate (32 - col - length s) CHR '' ''"

lemma row_shows_upd:
  assumes "row_shows vram row' t"
    and upd: "\<And>k. vram' k = (if row * 32 + col \<le> k \<and> k < row * 32 + col + length s
      then of_char (s ! (k - (row * 32 + col))) else vram k)"
    and fits: "col + length s \<le> 32" and blank: "row' = row \<Longrightarrow> t = pad 0 []"
  shows "row_shows vram' row' (if row' = row then pad col s else t)"
  unfolding row_shows_def screen_def
proof (intro allI impI)
  fix c :: nat assume c: "c < 32"
  show "vram' (row' * 32 + c) = of_char ((if row' = row then pad col s else t) ! c)"
  proof (cases "row' = row")
    case True
    have "vram (row * 32 + c) = of_char (CHR '' '')"
      using assms(1) c blank True by (simp add: row_shows_def screen_def pad_def)
    then show ?thesis
      using True c fits by (auto simp: upd pad_def nth_append)
  next
    case False
    then have "\<not> (row * 32 + col \<le> row' * 32 + c \<and> row' * 32 + c < row * 32 + col + length s)"
      using c fits by linarith
    then have "vram' (row' * 32 + c) = vram (row' * 32 + c)" unfolding upd by (rule if_not_P)
    with False assms(1) c show ?thesis by (simp add: row_shows_def screen_def)
  qed
qed

context vdp_device
begin

lemma run_write_at:
  assumes "idle v" and "row < 24" and "col < 32" and "s \<noteq> []" and "col + length s \<le> 32" and "CHR 0x00 \<notin> set s"
  defines "w \<equiv> run_io cmd data (vdp_write_at (of_nat row) (of_nat col) s) v"
  shows "idle w" and "reg w = reg v"
    and "vram w k = (if row * 32 + col \<le> k \<and> k < row * 32 + col + length s
      then of_char (s ! (k - (row * 32 + col))) else vram v k)"
proof -
  let ?a = "of_nat row * 32 + of_nat col :: u16"
  have u: "unat ?a = row * 32 + col" by (rule screen_address [OF assms(2,3)])
  have "(0 :: u8) \<notin> set (map of_char s)" using assms(6) by (auto simp: of_char_eq_0_iff)
  then have w: "w = run_io cmd data (vdp_set_write_addr ?a @ map Data (map of_char s)) v"
    unfolding w_def vdp_write_at_def c_string_def by (subst write_string_data) simp_all
  have le: "unat ?a + length (map of_char s :: u8 list) \<le> 2 ^ 14" using assms(2,5) unfolding u by simp
  note rb = run_block [OF assms(1) le]
  show "idle w" "reg w = reg v" unfolding w by (rule rb; use assms(4) in simp)+
  show "vram w k = (if row * 32 + col \<le> k \<and> k < row * 32 + col + length s
      then of_char (s ! (k - (row * 32 + col))) else vram v k)"
    unfolding w using rb(3) [of k] assms(4) unfolding u by auto
qed

text \<open>
  One write on a screen that shows the rows \<open>ts\<close>, into a row that is still blank.
\<close>

definition shows_rows :: "'v \<Rightarrow> string list \<Rightarrow> bool" where
  "shows_rows v ts \<longleftrightarrow> idle v \<and> length ts = 24 \<and> (\<forall>row < 24. row_shows (vram v) row (ts ! row))"

lemma run_write_rows:
  assumes v: "shows_rows v ts" and "row < 24" "col < 32" "s \<noteq> []" "col + length s \<le> 32" "CHR 0x00 \<notin> set s"
    and blank: "ts ! row = pad 0 []"
  shows "shows_rows (run_io cmd data (vdp_write_at (of_nat row) (of_nat col) s) v) (ts[row := pad col s])"
    and "reg (run_io cmd data (vdp_write_at (of_nat row) (of_nat col) s) v) = reg v"
proof -
  have i: "idle v" using v by (simp add: shows_rows_def)
  note w = run_write_at [OF i assms(2-6)]
  show "reg (run_io cmd data (vdp_write_at (of_nat row) (of_nat col) s) v) = reg v" by (rule w)
  show "shows_rows (run_io cmd data (vdp_write_at (of_nat row) (of_nat col) s) v) (ts[row := pad col s])"
    unfolding shows_rows_def
  proof (intro conjI allI impI)
    fix row' :: nat assume "row' < 24"
    then have "row_shows (vram v) row' (ts ! row')" using v by (simp add: shows_rows_def)
    then have "row_shows (vram (run_io cmd data (vdp_write_at (of_nat row) (of_nat col) s) v)) row'
        (if row' = row then pad col s else ts ! row')"
      by (rule row_shows_upd [OF _ w(3) assms(5)]) (simp add: blank)
    then show "row_shows (vram (run_io cmd data (vdp_write_at (of_nat row) (of_nat col) s) v)) row'
        (ts[row := pad col s] ! row')" using v \<open>row' < 24\<close> by (cases "row' = row") (simp_all add: shows_rows_def)
  qed (use v w(1) in \<open>simp_all add: shows_rows_def\<close>)
qed

lemma run_items:
  assumes "shows_rows v ts" and "distinct (map fst items)"
    and "\<forall>(r, c, s) \<in> set items. r < 24 \<and> c < 32 \<and> s \<noteq> [] \<and> c + length s \<le> 32 \<and> CHR 0x00 \<notin> set s \<and> ts ! r = pad 0 []"
  defines "w \<equiv> run_io cmd data (concat (map (\<lambda>(r, c, s). vdp_write_at (of_nat r) (of_nat c) s) items)) v"
  shows "shows_rows w (fold (\<lambda>(r, c, s) ts. ts[r := pad c s]) items ts) \<and> reg w = reg v"
  using assms(1-3) unfolding w_def
proof (induction items arbitrary: v ts)
  case (Cons item items)
  obtain r c s where item: "item = (r, c, s)" by (cases item)
  let ?u = "run_io cmd data (vdp_write_at (of_nat r) (of_nat c) s) v"
  have u: "shows_rows ?u (ts[r := pad c s])" "reg ?u = reg v"
    using run_write_rows [OF Cons.prems(1), of r c s] Cons.prems(3) by (simp_all add: item)
  have "\<forall>(r', c', s') \<in> set items. r' < 24 \<and> c' < 32 \<and> s' \<noteq> [] \<and> c' + length s' \<le> 32 \<and> CHR 0x00 \<notin> set s' \<and>
      ts[r := pad c s] ! r' = pad 0 []"
  proof (clarify)
    fix r' c' s' assume t: "(r', c', s') \<in> set items"
    then have "r' \<in> set (map fst items)" by force
    then have "r' \<noteq> r" using Cons.prems(2) by (auto simp: item)
    moreover have "r' < 24 \<and> c' < 32 \<and> s' \<noteq> [] \<and> c' + length s' \<le> 32 \<and> CHR 0x00 \<notin> set s' \<and> ts ! r' = pad 0 []"
      using bspec [OF Cons.prems(3), of "(r', c', s')"] t by simp
    ultimately show "r' < 24 \<and> c' < 32 \<and> s' \<noteq> [] \<and> c' + length s' \<le> 32 \<and> CHR 0x00 \<notin> set s' \<and>
      ts[r := pad c s] ! r' = pad 0 []" by simp
  qed
  with Cons.IH [OF u(1)] Cons.prems(2) u(2) show ?case by (simp add: item)
qed simp

end

definition banner_items :: "(nat \<times> nat \<times> string) list" where
  "banner_items =
    [(0, 0, ''********************************''),
     (2, 4, ''L     L     V   V  M   M''),
     (3, 4, ''L     L     V   V  MM MM''),
     (4, 4, ''L     L     V   V  M M M''),
     (5, 4, ''L     L      V V   M   M''),
     (6, 4, ''LLLLL LLLLL   V    M   M''),
     (8, 11, ''* TMS9900 *''),
     (10, 0, ''--------------------------------''),
     (12, 6, ''HELLO FROM C CODE!''),
     (15, 8, ''COMPILED USING''),
     (17, 6, ''LLVM-TMS9900 BACKEND''),
     (21, 15, '':)''),
     (23, 0, ''********************************'')]"

lemma banner_main_items:
  "banner_main = vdp_set_register 7 0xF4 @ vdp_clear_screen @
    concat (map (\<lambda>(r, c, s). vdp_write_at (of_nat r) (of_nat c) s) banner_items)"
  unfolding banner_main_def banner_items_def by simp

lemma banner_items_ok:
  "distinct (map fst banner_items)"
  "\<forall>(r, c, s) \<in> set banner_items. r < 24 \<and> c < 32 \<and> s \<noteq> [] \<and> c + length s \<le> 32 \<and> CHR 0x00 \<notin> set s \<and>
    replicate 24 (pad 0 []) ! r = pad 0 []"
  "fold (\<lambda>(r, c, s) ts. ts[r := pad c s]) banner_items (replicate 24 (pad 0 [])) = banner_picture"
  by code_simp+

text \<open>
  C21. On a device that behaves as documented, \<^verbatim>\<open>banner.c\<close> leaves the picture on the screen, row by row and
  column by column, in white on dark blue.
\<close>

theorem banner_screen:
  assumes dev: "vdp_device cmd data vram addr reg idle" and i: "idle v0" and row: "row < 24" and col: "col < 32"
  shows "screen (vram (run_io cmd data banner_main v0)) row col = of_char (banner_picture ! row ! col) \<and>
    reg (run_io cmd data banner_main v0) 7 = 0xF4"
proof -
  define v1 where "v1 = run_io cmd data (vdp_set_register 7 0xF4) v0"
  define v2 where "v2 = run_io cmd data vdp_clear_screen v1"
  have v1: "idle v1" "reg v1 7 = 0xF4" unfolding v1_def by (simp_all add: vdp_device.run_set_register [OF dev i])
  note c = vdp_device.run_clear_screen [OF dev v1(1), folded v2_def]
  have "r * 32 + k < 768" if "r < 24" "k < 32" for r k :: nat using that by linarith
  then have "vdp_device.shows_rows vram idle v2 (replicate 24 (pad 0 []))"
    using c(1,3) by (simp add: vdp_device.shows_rows_def [OF dev] row_shows_def screen_def pad_def)
  from vdp_device.run_items [OF dev this banner_items_ok(1,2), unfolded banner_items_ok(3)] c(2) v1(2)
  show ?thesis
    using row col
    by (simp add: banner_main_items v1_def v2_def vdp_device.shows_rows_def [OF dev] row_shows_def)
qed

theorem banner_screen_witness:
  "screen (video_ram (run_io tms9918_cmd tms9918_data banner_main power_up)) 12 6 = of_char (CHR ''H'')"
proof -
  have "tms9918_idle power_up" by (simp add: tms9918_idle_def power_up_def)
  from banner_screen [OF tms9918.vdp_device_axioms this, of 12 6] show ?thesis by (simp add: banner_picture_def)
qed

end
