(* ===== verification/Ball2.thy ===== *)
theory Ball2
  imports Vdp_Text Vdp_Gfx2
begin

text \<open>
  The second ball demo, \<^verbatim>\<open>cart_example/ball2.c\<close>: a ball in fixed-point arithmetic that counts up the characters of
  the border it hits and now and then changes its direction at constant energy. The integers of the
  program have 16 bits; they are modelled as integers with every conversion written out.
\<close>

section \<open>Constants\<close>

definition cart_header :: "u8 list" where
  "cart_header =
    [0xAA, 0x01, 0x00, 0x00, 0x00, 0x00, 0x60, 0x10,
     0x00, 0x00, 0x00, 0x00, 0x00, 0x00, 0x00, 0x00,
     0x00, 0x00, 0x60, 0x24,
     9] @ map of_char ''BOUNCEHIT'' @ [0x00, 0x00]"

abbreviation (input) SCREEN_COLS :: int where "SCREEN_COLS \<equiv> 32"
abbreviation (input) SCREEN_ROWS :: int where "SCREEN_ROWS \<equiv> 24"
abbreviation (input) BORDER_TOP_LEN :: int where "BORDER_TOP_LEN \<equiv> 32"
abbreviation (input) BORDER_SIDE_LEN :: int where "BORDER_SIDE_LEN \<equiv> 22"
abbreviation (input) BORDER_TOTAL :: nat where "BORDER_TOTAL \<equiv> 108"
abbreviation (input) FP_ONE :: int where "FP_ONE \<equiv> 256"
abbreviation (input) min_axis_s :: int where "min_axis_s \<equiv> 0"

definition FP_FROM_INT :: "int \<Rightarrow> int" where
  "FP_FROM_INT x = s16 (x * 2 ^ 8)"

definition BALL2_JITTER_DELTA_Q8 :: int where
  "BALL2_JITTER_DELTA_Q8 = (FP_ONE + 5) div 10"

definition BALL2_JITTER_THRESHOLD :: int where
  "BALL2_JITTER_THRESHOLD = to_u16 ((10 * 32767) div 100)"

definition BALL2_DELTA_S :: int where
  "BALL2_DELTA_S = to_u16 ((BALL2_JITTER_DELTA_Q8 + 2 ^ (2 - 1)) div 2 ^ 2)"

section \<open>Display set-up\<close>

definition vdp_set_text_mode_defaults :: "io list" where
  "vdp_set_text_mode_defaults =
    vdp_set_register 0 0x00 @ vdp_set_register 1 0xE0 @ vdp_set_register 2 0x00 @ vdp_set_register 3 0x0E @
    vdp_set_register 4 0x01 @ vdp_set_register 5 0x06 @ vdp_set_register 6 0x00"

text \<open>
  The console's GROM is a device of its own: \<open>gaddr\<close> takes a byte at its address port, \<open>gdata\<close> reads its data
  port. Only the byte patterns of the characters come from there.
\<close>

definition grom_set_addr :: "(u8 \<Rightarrow> 'g \<Rightarrow> 'g) \<Rightarrow> u16 \<Rightarrow> 'g \<Rightarrow> 'g" where
  "grom_set_addr gaddr addr g = gaddr (ucast (addr AND 0xFF)) (gaddr (ucast (drop_bit 8 addr AND 0xFF)) g)"

definition grom_read :: "('g \<Rightarrow> u16 \<times> 'g) \<Rightarrow> 'g \<Rightarrow> u8 \<times> 'g" where
  "grom_read gdata g = (let (out, g) = gdata g in (ucast (drop_bit 8 out), g))"

definition stdchr_row :: "('g \<Rightarrow> u16 \<times> 'g) \<Rightarrow> u8 list \<times> 'g \<Rightarrow> u8 list \<times> 'g" where
  "stdchr_row gdata = (\<lambda>(bs, g).
    fold (\<lambda>j (bs, g). let (b, g) = grom_read gdata g in (bs @ [b], g)) [0..<7] (bs @ [0], g))"

definition vdp_load_stdchr :: "(u8 \<Rightarrow> 'g \<Rightarrow> 'g) \<Rightarrow> ('g \<Rightarrow> u16 \<times> 'g) \<Rightarrow> 'g \<Rightarrow> io list" where
  "vdp_load_stdchr gaddr gdata g =
    vdp_set_write_addr 0x0800 @ for_io (32 * 8) (\<lambda>i. vdp_data 0) @
    vdp_set_write_addr 0x0900 @
    map Data (fst (fold (\<lambda>i. stdchr_row gdata) [0..<96] ([], grom_set_addr gaddr 0x06B4 g)))"

section \<open>Arithmetic\<close>

definition abs_u16 :: "int \<Rightarrow> int" where
  "abs_u16 v = to_u16 (if v < 0 then s16 (- v) else v)"

text \<open>The two loops of \<open>isqrt16\<close>, on the values of its 16-bit variables.\<close>

function isqrt_shrink :: "nat \<Rightarrow> nat \<Rightarrow> nat" where
  "isqrt_shrink v b = (if b > v then isqrt_shrink v (b div 4) else b)"
  by pat_completeness auto

termination
  by (relation "measure snd") auto

function isqrt_loop :: "nat \<Rightarrow> nat \<Rightarrow> nat \<Rightarrow> nat" where
  "isqrt_loop v res b =
    (if b \<noteq> 0 then
       (let trial = (res + b) mod 65536
        in if v \<ge> trial then isqrt_loop (v - trial) ((res div 2 + b) mod 65536) (b div 4)
           else isqrt_loop v (res div 2) (b div 4))
     else res)"
  by pat_completeness auto

termination
  by (relation "measure (\<lambda>(v, res, b). b)") auto

declare isqrt_shrink.simps [simp del] isqrt_loop.simps [simp del]

definition isqrt16 :: "int \<Rightarrow> int" where
  "isqrt16 v = int (isqrt_loop (nat v) 0 (isqrt_shrink (nat v) (2 ^ 14)))"

section \<open>Delay\<close>

definition delay_1ms :: u16 where
  "delay_1ms = delay_from 0 8"

text \<open>The counter after \<open>delay_ms\<close>: each round of the loop ends with the value \<open>delay_1ms\<close> leaves.\<close>

fun delay_ms :: "nat \<Rightarrow> u16 \<Rightarrow> u16" where
  "delay_ms 0 counter = counter"
| "delay_ms (Suc ms) counter = delay_ms ms delay_1ms"

section \<open>The border\<close>

definition border_index :: "int \<Rightarrow> int \<Rightarrow> int" where
  "border_index row col =
    (if row = 0 then s16 col
     else if row = SCREEN_ROWS - 1 then s16 (BORDER_TOP_LEN + BORDER_SIDE_LEN + col)
     else if col = SCREEN_COLS - 1 \<and> row > 0 \<and> row < SCREEN_ROWS - 1 then s16 (BORDER_TOP_LEN + (row - 1))
     else if col = 0 \<and> row > 0 \<and> row < SCREEN_ROWS - 1
       then s16 (BORDER_TOP_LEN + BORDER_SIDE_LEN + BORDER_TOP_LEN + (row - 1))
     else - 1)"

definition border_next :: "u8 \<Rightarrow> u8" where
  "border_next v =
    (if 0x30 \<le> v \<and> v \<le> 0x38 then v + 1
     else if v = 0x39 then 0x41
     else if 0x41 \<le> v \<and> v \<le> 0x59 then v + 1
     else 0x30)"

text \<open>The state of the program: the globals and the variables of \<open>run_ball\<close> that live across iterations.\<close>

record ball2 =
  rng_state :: u16
  border :: "nat \<Rightarrow> u8"
  pos_x :: int
  pos_y :: int
  vel_x :: int
  vel_y :: int
  sign_x :: int
  sign_y :: int
  speed2_s :: int
  max_axis_s :: int
  delta_s :: int
  ball_x :: int
  ball_y :: int
  delay_counter :: u16

text \<open>The static variables at power-up; the locals of \<open>run_ball\<close> are set before they are read.\<close>

definition ball2_globals :: ball2 where
  "ball2_globals = \<lparr>rng_state = 0xACE1, border = (\<lambda>_. 0), pos_x = 0, pos_y = 0, vel_x = 0, vel_y = 0,
     sign_x = 0, sign_y = 0, speed2_s = 0, max_axis_s = 0, delta_s = 0, ball_x = 0, ball_y = 0, delay_counter = 0\<rparr>"

definition init_border :: "ball2 \<Rightarrow> ball2 \<times> io list" where
  "init_border s =
    (s\<lparr>border := fold (\<lambda>i b. b(i := 0x30)) [0..<BORDER_TOTAL] (border s)\<rparr>,
     vdp_set_write_addr 0 @ for_io 32 (\<lambda>i. vdp_data 0x30) @
     vdp_set_write_addr ((24 - 1) * 32) @ for_io 32 (\<lambda>i. vdp_data 0x30) @
     concat (map (\<lambda>i. put_char (of_nat i) 0 0x30 @ put_char (of_nat i) (32 - 1) 0x30) [1..<24 - 1]))"

section \<open>The ball\<close>

definition scaled_speed :: "int \<Rightarrow> int" where
  "scaled_speed vel = (let v_s = to_u16 (abs_u16 vel div 2 ^ 2) in if v_s < min_axis_s then min_axis_s else v_s)"

definition signed_speed :: "int \<Rightarrow> int \<Rightarrow> int" where
  "signed_speed sign v_s = (if sign < 0 then s16 (- to_u16 (v_s * 2 ^ 2)) else s16 (to_u16 (v_s * 2 ^ 2)))"

definition put_ball :: "int \<Rightarrow> int \<Rightarrow> u8 \<Rightarrow> io list" where
  "put_ball y x c = put_char (word_of_int y) (word_of_int x) c"

definition ball2_start :: "ball2 \<Rightarrow> ball2 \<times> io list" where
  "ball2_start s =
    (let px = FP_FROM_INT 16; py = FP_FROM_INT 12; vx = FP_ONE; vy = FP_ONE;
         sx = (if vx < 0 then - 1 else 1); sy = (if vy < 0 then - 1 else 1);
         d = (if BALL2_DELTA_S = 0 then 1 else BALL2_DELTA_S);
         vx_s = scaled_speed vx; vy_s = scaled_speed vy;
         (vx_s, vy_s) = (if vx_s = 0 \<and> vy_s = 0 then (1, 1) else (vx_s, vy_s));
         speed2 = to_u16 (vx_s * vx_s + vy_s * vy_s);
         min_sq = to_u16 (min_axis_s * min_axis_s);
         speed2 = (if speed2 < min_sq then min_sq else speed2);
         max_axis = isqrt16 (to_u16 (speed2 - min_sq));
         bx = to_u16 (px div 2 ^ 8); byy = to_u16 (py div 2 ^ 8)
     in (s\<lparr>pos_x := px, pos_y := py, vel_x := signed_speed sx vx_s, vel_y := signed_speed sy vy_s,
           sign_x := sx, sign_y := sy, speed2_s := speed2, max_axis_s := max_axis, delta_s := d,
           ball_x := bx, ball_y := byy\<rparr>,
         put_ball byy bx 0x2B))"

text \<open>Leaving a cell: the border counts up, the rest is blanked.\<close>

definition leave_cell :: "ball2 \<Rightarrow> ball2 \<times> io list" where
  "leave_cell s =
    (let idx = border_index (ball_y s) (ball_x s)
     in if idx \<ge> 0 then
          (let nxt = border_next (border s (nat idx))
           in (s\<lparr>border := (border s)(nat idx := nxt)\<rparr>, put_ball (ball_y s) (ball_x s) nxt))
        else (s, put_ball (ball_y s) (ball_x s) 0x20))"

text \<open>One axis at the walls: the next position, the sign of the velocity, and whether it bounced.\<close>

definition wall :: "int \<Rightarrow> int \<Rightarrow> int \<Rightarrow> int \<times> int \<times> bool" where
  "wall m nxt sign = (if nxt < 0 then (0, 1, True) else if nxt > m then (m, - 1, True) else (nxt, sign, False))"

text \<open>A speed moved by \<open>delta\<close> within the limits, and the speed of the other axis at the same energy.\<close>

definition adjust :: "int \<Rightarrow> int \<Rightarrow> int \<Rightarrow> int \<Rightarrow> int \<times> int" where
  "adjust max_axis speed2 v_s delta =
    (let tmp = s16 (s16 v_s + delta);
         tmp = (if tmp < s16 min_axis_s then s16 min_axis_s
                else if to_u16 tmp > max_axis then s16 max_axis else tmp);
         v_s = to_u16 tmp
     in (v_s, isqrt16 (to_u16 (speed2 - to_u16 (v_s * v_s)))))"

definition jitter :: "bool \<Rightarrow> bool \<Rightarrow> ball2 \<Rightarrow> int \<Rightarrow> int \<Rightarrow> u16 \<times> int \<times> int" where
  "jitter adjust_x adjust_y s vx_s vy_s =
    (let rng = rng_next (rng_state s)
     in if uint (drop_bit 1 rng) < BALL2_JITTER_THRESHOLD then
          (let rng = rng_next rng;
               delta = (if rng AND 0x8000 \<noteq> 0 then s16 (delta_s s) else s16 (- delta_s s));
               (rng, adjust_x, adjust_y) =
                 (if adjust_x \<and> adjust_y then
                    (let rng = rng_next rng
                     in if rng AND 0x8000 \<noteq> 0 then (rng, False, adjust_y) else (rng, adjust_x, False))
                  else (rng, adjust_x, adjust_y))
           in if adjust_x then
                (let (v, w) = adjust (max_axis_s s) (speed2_s s) vx_s delta in (rng, v, w))
              else if adjust_y then
                (let (v, w) = adjust (max_axis_s s) (speed2_s s) vy_s delta in (rng, w, v))
              else (rng, vx_s, vy_s))
        else (rng, vx_s, vy_s))"

definition ball2_frame :: "ball2 \<Rightarrow> ball2 \<times> io list" where
  "ball2_frame s =
    (let (s, out) = leave_cell s;
         (next_x, sx, bounced_x) = wall (FP_FROM_INT (SCREEN_COLS - 1)) (s16 (pos_x s + vel_x s)) (sign_x s);
         (next_y, sy, bounced_y) = wall (FP_FROM_INT (SCREEN_ROWS - 1)) (s16 (pos_y s + vel_y s)) (sign_y s);
         s = s\<lparr>sign_x := sx, sign_y := sy\<rparr>;
         s = (if bounced_x \<or> bounced_y then
                (let (rng, vx_s, vy_s) = jitter bounced_x bounced_y s (scaled_speed (vel_x s)) (scaled_speed (vel_y s))
                 in s\<lparr>rng_state := rng, vel_x := signed_speed (sign_x s) vx_s, vel_y := signed_speed (sign_y s) vy_s\<rparr>)
              else s);
         s = s\<lparr>pos_x := next_x, pos_y := next_y, ball_x := to_u16 (next_x div 2 ^ 8), ball_y := to_u16 (next_y div 2 ^ 8)\<rparr>
     in (s\<lparr>delay_counter := delay_ms 40 (delay_counter s)\<rparr>, out @ put_ball (ball_y s) (ball_x s) 0x2B))"

definition ball2_init :: "(u8 \<Rightarrow> 'g \<Rightarrow> 'g) \<Rightarrow> ('g \<Rightarrow> u16 \<times> 'g) \<Rightarrow> 'g \<Rightarrow> ball2 \<Rightarrow> ball2 \<times> io list" where
  "ball2_init gaddr gdata g s =
    (let (s, out1) = init_border s; (s, out2) = ball2_start s
     in (s, vdp_set_register 7 0xF4 @ vdp_set_text_mode_defaults @ vdp_load_stdchr gaddr gdata g @
            vdp_clear_screen @ out1 @ out2))"

text \<open>The first \<open>n\<close> iterations of the loop of \<open>run_ball\<close>, with all port writes since power-up.\<close>

fun ball2_loop :: "(u8 \<Rightarrow> 'g \<Rightarrow> 'g) \<Rightarrow> ('g \<Rightarrow> u16 \<times> 'g) \<Rightarrow> 'g \<Rightarrow> nat \<Rightarrow> ball2 \<Rightarrow> ball2 \<times> io list" where
  "ball2_loop gaddr gdata g 0 s = ball2_init gaddr gdata g s"
| "ball2_loop gaddr gdata g (Suc n) s =
    (let (s', out) = ball2_loop gaddr gdata g n s; (s'', out') = ball2_frame s' in (s'', out @ out'))"

end
