(* ===== verification/Ball2_Motion.thy ===== *)
theory Ball2_Motion
  imports Ball2
begin

text \<open>
  The integer square root of \<^verbatim>\<open>ball2.c\<close>, the invariant of the motion (position, speed and energy), and that the
  ball keeps hitting the border.
\<close>

section \<open>The integer square root\<close>

text \<open>
  With \<open>k + 1\<close> binary digits to go, \<open>r\<close> is the root found so far, \<open>value\<close> what is left of the argument and
  \<open>res\<close> twice the root, scaled to the current digit.
\<close>

lemma isqrt_step:
  fixes V r k :: nat
  assumes "r ^ 2 \<le> V" and "r + 2 ^ Suc k \<le> 256"
  shows "(r * 2 ^ Suc k + 4 ^ k) mod 65536 = r * 2 ^ Suc k + 4 ^ k"
    and "V - r ^ 2 \<ge> r * 2 ^ Suc k + 4 ^ k \<longleftrightarrow> V \<ge> (r + 2 ^ k) ^ 2"
    and "V - r ^ 2 - (r * 2 ^ Suc k + 4 ^ k) = V - (r + 2 ^ k) ^ 2"
    and "(r * 2 ^ k + 4 ^ k) mod 65536 = (r + 2 ^ k) * 2 ^ k"
    and "r * 2 ^ Suc k div 2 = r * 2 ^ k"
proof -
  have p4: "(4 :: nat) ^ k = 2 ^ k * 2 ^ k" by (simp flip: power_mult_distrib)
  have sq: "(r + 2 ^ k) ^ 2 = r ^ 2 + (r * 2 ^ Suc k + 4 ^ k)"
    by (simp add: power2_eq_square algebra_simps p4)
  have "(0 :: nat) < 2 ^ k" by simp
  then have "r + 2 ^ k < 256" using assms(2) unfolding power_Suc by linarith
  then have "(r + 2 ^ k) ^ 2 < 256 ^ 2" by (rule power_strict_mono) simp_all
  then have lt: "r * 2 ^ Suc k + 4 ^ k < 65536" using sq by simp
  then show "(r * 2 ^ Suc k + 4 ^ k) mod 65536 = r * 2 ^ Suc k + 4 ^ k" by simp
  show "V - r ^ 2 \<ge> r * 2 ^ Suc k + 4 ^ k \<longleftrightarrow> V \<ge> (r + 2 ^ k) ^ 2" using assms(1) unfolding sq by linarith
  show "V - r ^ 2 - (r * 2 ^ Suc k + 4 ^ k) = V - (r + 2 ^ k) ^ 2" unfolding sq by simp
  show half: "r * 2 ^ Suc k div 2 = r * 2 ^ k" by simp
  have "r * 2 ^ k + 4 ^ k < 65536" using lt by simp
  moreover have "r * 2 ^ k + 4 ^ k = (r + 2 ^ k) * 2 ^ k" by (simp add: p4 algebra_simps)
  ultimately show "(r * 2 ^ k + 4 ^ k) mod 65536 = (r + 2 ^ k) * 2 ^ k" by simp
qed

lemma isqrt_loop_root:
  assumes "r ^ 2 \<le> V" and "V < (r + 2 ^ Suc k) ^ 2" and "r + 2 ^ Suc k \<le> 256"
  shows "isqrt_loop (V - r ^ 2) (r * 2 ^ Suc k) (4 ^ k) ^ 2 \<le> V \<and>
    V < (isqrt_loop (V - r ^ 2) (r * 2 ^ Suc k) (4 ^ k) + 1) ^ 2"
  using assms
proof (induction k arbitrary: r)
  case 0
  note s = isqrt_step [of r V 0, OF 0(1,3)]
  have "isqrt_loop v x 0 = x" for v x by (simp add: isqrt_loop.simps)
  then have "isqrt_loop (V - r ^ 2) (r * 2 ^ Suc 0) (4 ^ 0) = (if V \<ge> (r + 1) ^ 2 then r + 1 else r)"
    using s by (subst isqrt_loop.simps) simp
  with 0 show ?case by (auto simp: power2_eq_square)
next
  case (Suc k)
  note s = isqrt_step [of r V "Suc k", OF Suc.prems(1,3)]
  have q: "(4 :: nat) ^ Suc k div 4 = 4 ^ k" by simp
  have unf: "isqrt_loop (V - r ^ 2) (r * 2 ^ Suc (Suc k)) (4 ^ Suc k) =
      (if V \<ge> (r + 2 ^ Suc k) ^ 2 then isqrt_loop (V - (r + 2 ^ Suc k) ^ 2) ((r + 2 ^ Suc k) * 2 ^ Suc k) (4 ^ k)
       else isqrt_loop (V - r ^ 2) (r * 2 ^ Suc k) (4 ^ k))"
    by (subst isqrt_loop.simps) (simp only: s Let_def q power_not_zero if_True simp_thms zero_neq_numeral)
  show ?case
  proof (cases "V \<ge> (r + 2 ^ Suc k) ^ 2")
    case True
    then show ?thesis unfolding unf if_P [OF True]
      by (intro Suc.IH) (use Suc.prems in \<open>simp_all add: add.assoc mult_2\<close>)
  next
    case False
    then show ?thesis unfolding unf if_not_P [OF False]
      by (intro Suc.IH) (use Suc.prems in \<open>simp_all add: add.assoc mult_2\<close>)
  qed
qed

lemma isqrt_shrink_cases:
  assumes "v < 4 ^ Suc k"
  shows "isqrt_shrink v (4 ^ k) = 0 \<and> v = 0 \<or> (\<exists>j \<le> k. isqrt_shrink v (4 ^ k) = 4 ^ j \<and> 4 ^ j \<le> v \<and> v < 4 ^ Suc j)"
  using assms
proof (induction k)
  case 0
  then show ?case by (cases "v = 0") (auto simp: isqrt_shrink.simps)
next
  case (Suc k)
  show ?case
  proof (cases "4 ^ Suc k > v")
    case True
    then have "isqrt_shrink v (4 ^ Suc k) = isqrt_shrink v (4 ^ k)" by (subst isqrt_shrink.simps) simp
    with Suc.IH [OF True] show ?thesis by (metis le_SucI)
  next
    case False
    then have "isqrt_shrink v (4 ^ Suc k) = 4 ^ Suc k" by (subst isqrt_shrink.simps) simp
    with Suc.prems False show ?thesis by (meson leI order_refl)
  qed
qed

lemma isqrt16_root:
  assumes "0 \<le> v" and "v < 65536"
  shows "0 \<le> isqrt16 v" and "isqrt16 v ^ 2 \<le> v" and "v < (isqrt16 v + 1) ^ 2"
proof -
  define n where "n = nat v"
  have n: "n < 4 ^ Suc 7" "v = int n" using assms by (simp_all add: n_def)
  define R where "R = isqrt_loop n 0 (isqrt_shrink n (4 ^ 7))"
  have "R ^ 2 \<le> n \<and> n < (R + 1) ^ 2"
  proof (cases "n = 0")
    case True
    then have "isqrt_shrink n (4 ^ 7) = 0" using isqrt_shrink_cases [OF n(1)] by fastforce
    with True show ?thesis by (simp add: R_def isqrt_loop.simps)
  next
    case False
    then obtain j where j: "j \<le> 7" "isqrt_shrink n (4 ^ 7) = 4 ^ j" "n < 4 ^ Suc j"
      using isqrt_shrink_cases [OF n(1)] by blast
    have "(2 :: nat) ^ Suc j \<le> 2 ^ 8" using j(1) by (intro power_increasing) simp_all
    moreover have "n < (2 ^ Suc j) ^ 2" using j(3) by (simp add: power_even_eq [symmetric] power2_eq_square flip: power_mult_distrib)
    ultimately show ?thesis using isqrt_loop_root [of 0 n j] unfolding R_def j(2) by simp
  qed
  moreover have "isqrt16 v = int R" by (simp add: isqrt16_def R_def n_def)
  ultimately show "0 \<le> isqrt16 v" and "isqrt16 v ^ 2 \<le> v" and "v < (isqrt16 v + 1) ^ 2"
    unfolding n(2) by (simp_all flip: of_nat_power of_nat_Suc add: add.commute)
qed

text \<open>
  The digit-by-digit \<open>isqrt16\<close> of \<^verbatim>\<open>ball2.c\<close> returns the integer square root of every 16-bit value.
\<close>

theorem isqrt16_correct:
  assumes "0 \<le> v" and "v < 65536"
  shows "0 \<le> isqrt16 v \<and> isqrt16 v ^ 2 \<le> v \<and> v < (isqrt16 v + 1) ^ 2"
  using isqrt16_root [OF assms] by simp

theorem isqrt16_correct_witness: "isqrt16 8192 ^ 2 \<le> 8192 \<and> 8192 < (isqrt16 8192 + 1) ^ 2"
  using isqrt16_correct [of 8192] by simp

lemma isqrt16_le: "0 \<le> v \<Longrightarrow> v \<le> 8192 \<Longrightarrow> isqrt16 v \<le> 90"
proof (rule ccontr)
  assume v: "0 \<le> v" "v \<le> 8192" and "\<not> isqrt16 v \<le> 90"
  then have "91 ^ 2 \<le> isqrt16 v ^ 2" by (intro power_mono) auto
  with isqrt16_root(2) [of v] v show False by simp
qed

lemma isqrt16_8192: "isqrt16 8192 = 90"
proof -
  note r = isqrt16_root [of 8192, simplified]
  have "\<not> isqrt16 8192 < 90"
  proof
    assume "isqrt16 8192 < 90"
    then have "(isqrt16 8192 + 1) ^ 2 \<le> 90 ^ 2" using r(1) by (intro power_mono) auto
    with r(3) show False by simp
  qed
  with isqrt16_le [of 8192] show ?thesis by simp
qed

section \<open>The motion\<close>

text \<open>
  The two speeds of the ball, in units of four: they hold the energy of the start up to rounding.
\<close>

definition energy_ok :: "int \<Rightarrow> int \<Rightarrow> bool" where
  "energy_ok a b \<longleftrightarrow> 0 \<le> a \<and> a \<le> 90 \<and> 0 \<le> b \<and> b \<le> 90 \<and> 8192 - 181 < a ^ 2 + b ^ 2 \<and> a ^ 2 + b ^ 2 \<le> 8192"

definition border_char :: "u8 \<Rightarrow> bool" where
  "border_char c \<longleftrightarrow> 0x30 \<le> c \<and> c \<le> 0x39 \<or> 0x41 \<le> c \<and> c \<le> 0x5A"

definition ball2_inv :: "ball2 \<Rightarrow> bool" where
  "ball2_inv s \<longleftrightarrow> 0 \<le> pos_x s \<and> pos_x s \<le> 7936 \<and> 0 \<le> pos_y s \<and> pos_y s \<le> 5888 \<and>
    ball_x s = pos_x s div 256 \<and> ball_y s = pos_y s div 256 \<and>
    speed2_s s = 8192 \<and> max_axis_s s = 90 \<and> delta_s s = 7 \<and>
    (\<exists>a b. energy_ok a b \<and> vel_x s = sign_x s * (4 * a) \<and> vel_y s = sign_y s * (4 * b)) \<and>
    sign_x s \<in> {1, - 1} \<and> sign_y s \<in> {1, - 1} \<and> (\<forall>i < 108. border_char (border s i))"

lemma scaled_speed_eq: "sg \<in> {1, - 1} \<Longrightarrow> 0 \<le> a \<Longrightarrow> a \<le> 90 \<Longrightarrow> scaled_speed (sg * (4 * a)) = a"
  by (auto simp: scaled_speed_def abs_u16_def s16_id to_u16_id Let_def)

lemma signed_speed_eq: "sg \<in> {1, - 1} \<Longrightarrow> 0 \<le> a \<Longrightarrow> a \<le> 90 \<Longrightarrow> signed_speed sg a = sg * (4 * a)"
  by (auto simp: signed_speed_def s16_id to_u16_id)

lemma energy_sym: "energy_ok a b \<Longrightarrow> energy_ok b a"
  by (auto simp: energy_ok_def)

lemma energy_adjusted:
  assumes "0 \<le> a" and "a \<le> 90"
  shows "energy_ok a (isqrt16 (to_u16 (8192 - to_u16 (a * a))))"
proof -
  have sq: "a ^ 2 \<le> 90 ^ 2" using assms by (intro power_mono)
  moreover have "0 \<le> a * a" by simp
  ultimately have "to_u16 (a * a) = a * a" "to_u16 (8192 - a * a) = 8192 - a * a"
    by (auto simp only: power2_eq_square intro!: to_u16_id)
  then have u: "to_u16 (8192 - to_u16 (a * a)) = 8192 - a ^ 2" by (simp add: power2_eq_square)
  define v where "v = 8192 - a ^ 2"
  have v: "0 \<le> v" "v \<le> 8192" using sq by (simp_all add: v_def)
  then have r: "0 \<le> isqrt16 v" "isqrt16 v ^ 2 \<le> v" "v < (isqrt16 v + 1) ^ 2" "isqrt16 v \<le> 90"
    using isqrt16_root [of v] isqrt16_le [of v] by auto
  have "(isqrt16 v + 1) ^ 2 = isqrt16 v ^ 2 + 2 * isqrt16 v + 1" by (simp add: power2_eq_square algebra_simps)
  then have "v - 181 < isqrt16 v ^ 2" using r by linarith
  with r assms show ?thesis unfolding u v_def [symmetric] energy_ok_def by (simp add: v_def)
qed

lemma adjust_ok:
  assumes "0 \<le> a" and "a \<le> 90" and "d \<in> {7, - 7}"
  shows "energy_ok (fst (adjust 90 8192 a d)) (snd (adjust 90 8192 a d))"
proof -
  define t where "t = s16 (s16 a + d)"
  have t: "- 7 \<le> t" "t \<le> 97" using assms by (auto simp: t_def s16_id)
  define t' where "t' = (if t < s16 0 then s16 0 else if to_u16 t > 90 then s16 90 else t)"
  have "0 \<le> t'" "t' \<le> 90" using t by (auto simp: t'_def s16_id to_u16_id)
  then have "energy_ok (to_u16 t') (isqrt16 (to_u16 (8192 - to_u16 (to_u16 t' * to_u16 t'))))"
    using energy_adjusted [of t'] by (simp add: to_u16_id)
  then show ?thesis by (simp only: adjust_def Let_def t_def t'_def fst_conv snd_conv)
qed

lemma jitter_ok:
  assumes "energy_ok a b" and "speed2_s s = 8192" "max_axis_s s = 90" "delta_s s = 7"
    and "jitter bx by1 s a b = (rng, a', b')"
  shows "energy_ok a' b'"
proof -
  have ab: "0 \<le> a" "a \<le> 90" "0 \<le> b" "b \<le> 90" using assms(1) by (simp_all add: energy_ok_def)
  have d: "s16 7 \<in> {7, - 7}" "s16 (- 7) \<in> {7, - 7}" by (simp_all add: s16_id)
  have "energy_ok (fst (adjust 90 8192 a (s16 7))) (snd (adjust 90 8192 a (s16 7)))"
    "energy_ok (fst (adjust 90 8192 a (s16 (- 7)))) (snd (adjust 90 8192 a (s16 (- 7))))"
    "energy_ok (snd (adjust 90 8192 b (s16 7))) (fst (adjust 90 8192 b (s16 7)))"
    "energy_ok (snd (adjust 90 8192 b (s16 (- 7)))) (fst (adjust 90 8192 b (s16 (- 7))))"
    using adjust_ok [OF ab(1,2) d(1)] adjust_ok [OF ab(1,2) d(2)]
      energy_sym [OF adjust_ok [OF ab(3,4) d(1)]] energy_sym [OF adjust_ok [OF ab(3,4) d(2)]] by blast+
  then show ?thesis
    using assms unfolding jitter_def Let_def split_beta by (auto split: if_splits)
qed

lemma border_next_char: "border_char (border_next c)"
proof -
  have "unat c < 256" using unsigned_less [of c] by simp
  then have s: "unat (c + 1) = (if unat c = 255 then 0 else unat c + 1)" by (simp add: unat_word_ariths)
  show ?thesis
    unfolding border_char_def border_next_def word_le_nat_alt by (auto simp: s)
qed

lemma border_index_range:
  assumes "0 \<le> row" "row \<le> 23" "0 \<le> col" "col \<le> 31"
  shows "border_index row col < 108"
    and "border_index row col \<ge> 0 \<longleftrightarrow> row = 0 \<or> row = 23 \<or> col = 0 \<or> col = 31"
  using assms by (auto simp: border_index_def s16_id)

lemma leave_cell_inv:
  assumes "ball2_inv s"
  shows "ball2_inv (fst (leave_cell s))"
proof -
  have "0 \<le> ball_y s" "ball_y s \<le> 23" "0 \<le> ball_x s" "ball_x s \<le> 31" using assms by (auto simp: ball2_inv_def)
  then have "nat (border_index (ball_y s) (ball_x s)) < 108" using border_index_range(1) [of "ball_y s" "ball_x s"] by linarith
  with assms show ?thesis by (auto simp: leave_cell_def Let_def ball2_inv_def border_next_char)
qed

lemma wall_ok:
  assumes "0 \<le> p" "p \<le> m" "m \<le> 7936" "sg \<in> {1, - 1}" "0 \<le> a" "a \<le> 90"
    and "wall m (s16 (p + sg * (4 * a))) sg = (nxt, sg', bounced)"
  shows "0 \<le> nxt" and "nxt \<le> m" and "sg' \<in> {1, - 1}" and "\<not> bounced \<Longrightarrow> sg' = sg \<and> nxt = p + sg * (4 * a)"
    and "bounced \<Longrightarrow> nxt = 0 \<or> nxt = m"
proof -
  have "s16 (p + sg * (4 * a)) = p + sg * (4 * a)" using assms by (auto intro!: s16_id)
  with assms show "0 \<le> nxt" and "nxt \<le> m" and "sg' \<in> {1, - 1}" and "\<not> bounced \<Longrightarrow> sg' = sg \<and> nxt = p + sg * (4 * a)"
    and "bounced \<Longrightarrow> nxt = 0 \<or> nxt = m"
    by (auto simp: wall_def split: if_splits)
qed

text \<open>The values after a frame, in terms of the walls and the speeds.\<close>

definition frame_motion :: "ball2 \<Rightarrow> ball2 \<Rightarrow> bool \<Rightarrow> bool" where
  "frame_motion s s' bounced \<longleftrightarrow> (\<exists>nx sx bx ny sy byy.
    wall 7936 (s16 (pos_x s + vel_x s)) (sign_x s) = (nx, sx, bx) \<and>
    wall 5888 (s16 (pos_y s + vel_y s)) (sign_y s) = (ny, sy, byy) \<and>
    pos_x s' = nx \<and> pos_y s' = ny \<and> sign_x s' = sx \<and> sign_y s' = sy \<and> (bounced \<longleftrightarrow> bx \<or> byy) \<and>
    ball_x s' = to_u16 (nx div 256) \<and> ball_y s' = to_u16 (ny div 256) \<and>
    (if bounced then \<exists>rng a b. jitter bx byy (s\<lparr>sign_x := sx, sign_y := sy\<rparr>) (scaled_speed (vel_x s)) (scaled_speed (vel_y s)) = (rng, a, b) \<and>
        rng_state s' = rng \<and> vel_x s' = signed_speed sx a \<and> vel_y s' = signed_speed sy b
     else rng_state s' = rng_state s \<and> vel_x s' = vel_x s \<and> vel_y s' = vel_y s) \<and>
    speed2_s s' = speed2_s s \<and> max_axis_s s' = max_axis_s s \<and> delta_s s' = delta_s s \<and> border s' = border s)"

lemma ball2_frame_motion: "\<exists>bounced. frame_motion (fst (leave_cell s)) (fst (ball2_frame s)) bounced"
proof -
  obtain t out where lc: "leave_cell s = (t, out)" by (cases "leave_cell s")
  obtain nx sx bx where x: "wall 7936 (s16 (pos_x t + vel_x t)) (sign_x t) = (nx, sx, bx)" by (metis prod_cases3)
  obtain ny sy byy where y: "wall 5888 (s16 (pos_y t + vel_y t)) (sign_y t) = (ny, sy, byy)" by (metis prod_cases3)
  obtain rng a b where j: "jitter bx byy (t\<lparr>sign_x := sx, sign_y := sy\<rparr>) (scaled_speed (vel_x t)) (scaled_speed (vel_y t)) = (rng, a, b)"
    by (metis prod_cases3)
  have fp: "FP_FROM_INT 31 = 7936" "FP_FROM_INT 23 = 5888" by (simp_all add: FP_FROM_INT_def s16_id)
  have "frame_motion t (fst (ball2_frame s)) (bx \<or> byy)"
    unfolding frame_motion_def
    by (rule exI [of _ nx], rule exI [of _ sx], rule exI [of _ bx], rule exI [of _ ny], rule exI [of _ sy], rule exI [of _ byy])
      (simp add: ball2_frame_def lc fp x y j Let_def)
  then show ?thesis unfolding lc by auto
qed

lemma frame_motion_inv:
  assumes inv: "ball2_inv s" and m: "frame_motion s s' bounced"
  shows "ball2_inv s'"
    and "\<not> bounced \<Longrightarrow> pos_x s' = pos_x s + vel_x s \<and> pos_y s' = pos_y s + vel_y s \<and> vel_x s' = vel_x s \<and> vel_y s' = vel_y s"
    and "bounced \<Longrightarrow> pos_x s' = 0 \<or> pos_x s' = 7936 \<or> pos_y s' = 0 \<or> pos_y s' = 5888"
proof -
  obtain a b where e: "energy_ok a b" and v: "vel_x s = sign_x s * (4 * a)" "vel_y s = sign_y s * (4 * b)"
    and sg: "sign_x s \<in> {1, - 1}" "sign_y s \<in> {1, - 1}"
    using inv by (auto simp: ball2_inv_def)
  have ab: "0 \<le> a" "a \<le> 90" "0 \<le> b" "b \<le> 90" using e by (simp_all add: energy_ok_def)
  have p: "0 \<le> pos_x s" "pos_x s \<le> 7936" "0 \<le> pos_y s" "pos_y s \<le> 5888" using inv by (simp_all add: ball2_inv_def)
  obtain nx sx bx ny sy byy where
    x: "wall 7936 (s16 (pos_x s + vel_x s)) (sign_x s) = (nx, sx, bx)" and
    y: "wall 5888 (s16 (pos_y s + vel_y s)) (sign_y s) = (ny, sy, byy)" and
    new: "pos_x s' = nx" "pos_y s' = ny" "sign_x s' = sx" "sign_y s' = sy" "bounced \<longleftrightarrow> bx \<or> byy"
      "ball_x s' = to_u16 (nx div 256)" "ball_y s' = to_u16 (ny div 256)" and
    jit: "if bounced then \<exists>rng a b. jitter bx byy (s\<lparr>sign_x := sx, sign_y := sy\<rparr>) (scaled_speed (vel_x s)) (scaled_speed (vel_y s)) = (rng, a, b) \<and>
        rng_state s' = rng \<and> vel_x s' = signed_speed sx a \<and> vel_y s' = signed_speed sy b
     else rng_state s' = rng_state s \<and> vel_x s' = vel_x s \<and> vel_y s' = vel_y s" and
    rest: "speed2_s s' = speed2_s s" "max_axis_s s' = max_axis_s s" "delta_s s' = delta_s s" "border s' = border s"
    using m unfolding frame_motion_def by blast
  note wx = wall_ok [OF p(1,2) _ sg(1) ab(1,2), folded v(1), OF _ x, simplified]
  note wy = wall_ok [OF p(3,4) _ sg(2) ab(3,4), folded v(2), OF _ y, simplified]
  have cells: "ball_x s' = pos_x s' div 256" "ball_y s' = pos_y s' div 256"
    using wx(1,2) wy(1,2) by (simp_all add: new to_u16_id)
  have speeds: "\<exists>a b. energy_ok a b \<and> vel_x s' = sign_x s' * (4 * a) \<and> vel_y s' = sign_y s' * (4 * b)"
  proof (cases bounced)
    case True
    then obtain rng a' b' where j: "jitter bx byy (s\<lparr>sign_x := sx, sign_y := sy\<rparr>) a b = (rng, a', b')"
      and vel: "vel_x s' = signed_speed sx a'" "vel_y s' = signed_speed sy b'"
      using jit by (auto simp: v scaled_speed_eq [OF sg(1) ab(1,2)] scaled_speed_eq [OF sg(2) ab(3,4)])
    have "energy_ok a' b'" by (rule jitter_ok [OF e _ _ _ j]) (use inv in \<open>simp_all add: ball2_inv_def\<close>)
    moreover from this have "0 \<le> a'" "a' \<le> 90" "0 \<le> b'" "b' \<le> 90" by (simp_all add: energy_ok_def)
    ultimately show ?thesis
      using vel signed_speed_eq [of sx a'] signed_speed_eq [of sy b'] wx(3) wy(3) by (auto simp: new)
  next
    case False
    with jit e wx(4) wy(4) new v show ?thesis by auto
  qed
  show "ball2_inv s'"
    using inv cells speeds wx(1-3) wy(1-3) by (simp add: ball2_inv_def new rest)
  show "pos_x s' = pos_x s + vel_x s \<and> pos_y s' = pos_y s + vel_y s \<and> vel_x s' = vel_x s \<and> vel_y s' = vel_y s" if "\<not> bounced"
    using that jit wx(4) wy(4) new v by auto
  show "pos_x s' = 0 \<or> pos_x s' = 7936 \<or> pos_y s' = 0 \<or> pos_y s' = 5888" if bounced
    using that wx(5) wy(5) new by auto
qed

lemma ball2_frame_inv: "ball2_inv s \<Longrightarrow> ball2_inv (fst (ball2_frame s))"
  using ball2_frame_motion [of s] frame_motion_inv(1) leave_cell_inv by blast

lemma ball2_start_values:
  "ball2_start s =
    (s\<lparr>pos_x := 4096, pos_y := 3072, vel_x := 256, vel_y := 256, sign_x := 1, sign_y := 1, speed2_s := 8192,
       max_axis_s := 90, delta_s := 7, ball_x := 16, ball_y := 12\<rparr>, put_ball 12 16 0x2B)"
proof -
  have c: "FP_FROM_INT 16 = 4096" "FP_FROM_INT 12 = 3072" "scaled_speed 256 = 64" "BALL2_DELTA_S = 7"
    "signed_speed 1 64 = 256"
    by (simp_all add: FP_FROM_INT_def s16_id to_u16_id scaled_speed_def abs_u16_def BALL2_DELTA_S_def
        BALL2_JITTER_DELTA_Q8_def signed_speed_def)
  have u: "to_u16 16 = 16" "to_u16 12 = 12" "to_u16 8192 = 8192" "to_u16 0 = 0" by (simp_all add: to_u16_id)
  show ?thesis unfolding ball2_start_def Let_def by (simp add: c u isqrt16_8192)
qed

lemma init_border_values: "i < 108 \<Longrightarrow> border (fst (init_border s)) i = 0x30"
proof -
  assume "i < 108"
  have "fold (\<lambda>i b. b(i := 0x30)) [0..<108] (border s) i = (if \<exists>j \<in> set [0..<108]. i = j then 0x30 else border s i)"
    by (rule fold_view [where view = "\<lambda>m. m"]) simp
  with \<open>i < 108\<close> show ?thesis by (simp add: init_border_def)
qed

lemma ball2_init_inv: "ball2_inv (fst (ball2_init gaddr gdata g s))"
proof -
  have "energy_ok 64 64" by (simp add: energy_ok_def)
  then have "\<exists>a b. energy_ok a b \<and> 256 = 4 * a \<and> 256 = 4 * b" by (intro exI [of _ 64]) simp
  then show ?thesis
    by (simp add: ball2_init_def split_beta ball2_start_values ball2_inv_def init_border_values border_char_def)
qed

lemma ball2_loop_Suc:
  "ball2_loop gaddr gdata g (Suc n) s =
    (fst (ball2_frame (fst (ball2_loop gaddr gdata g n s))),
     snd (ball2_loop gaddr gdata g n s) @ snd (ball2_frame (fst (ball2_loop gaddr gdata g n s))))"
  by (simp add: split_beta)

lemma ball2_loop_inv: "ball2_inv (fst (ball2_loop gaddr gdata g n s))"
  by (induction n) (simp_all add: ball2_init_inv ball2_loop_Suc ball2_frame_inv del: ball2_loop.simps(2))

text \<open>
  C18. At every iteration of the loop of \<^verbatim>\<open>ball2.c\<close>, whatever the state of the random number generator, the ball
  is inside the screen, its speeds hold the energy of the start up to the rounding of the square root, no
  16-bit computation has overflowed, and every border character is a digit or an upper-case letter.
\<close>

theorem ball2_invariant:
  fixes gaddr :: "u8 \<Rightarrow> 'g \<Rightarrow> 'g" and gdata :: "'g \<Rightarrow> u16 \<times> 'g" and g :: 'g and n i :: nat and s :: ball2
  assumes "i < 108"
  defines "s' \<equiv> fst (ball2_loop gaddr gdata g n s)"
  shows "0 \<le> pos_x s' \<and> pos_x s' \<le> 31 * 256 \<and> 0 \<le> pos_y s' \<and> pos_y s' \<le> 23 * 256 \<and>
    ball_x s' = pos_x s' div 256 \<and> ball_y s' = pos_y s' div 256 \<and>
    8192 - 181 < (vel_x s' div 4) ^ 2 + (vel_y s' div 4) ^ 2 \<and> (vel_x s' div 4) ^ 2 + (vel_y s' div 4) ^ 2 \<le> 8192 \<and>
    border_char (border s' i)"
proof -
  have inv: "ball2_inv s'" unfolding s'_def by (rule ball2_loop_inv)
  then obtain a b where e: "energy_ok a b" and v: "vel_x s' = sign_x s' * (4 * a)" "vel_y s' = sign_y s' * (4 * b)"
    and sg: "sign_x s' \<in> {1, - 1}" "sign_y s' \<in> {1, - 1}"
    by (auto simp: ball2_inv_def)
  have "(vel_x s' div 4) ^ 2 = a ^ 2" "(vel_y s' div 4) ^ 2 = b ^ 2"
    using sg by (auto simp: v minus_mult_right simp del: mult_minus_right)
  with e inv assms(1) show ?thesis by (simp add: ball2_inv_def energy_ok_def)
qed

theorem ball2_invariant_witness:
  "border_char (border (fst (ball2_loop (\<lambda>_ g. g) (\<lambda>g. (0, g)) () 9 ball2_globals)) 107)"
proof -
  have "(107 :: nat) < 108" by simp
  from ball2_invariant [OF this, of "\<lambda>_ g. g" "\<lambda>g. (0, g)" "()" 9 ball2_globals] show ?thesis by blast
qed

section \<open>The ball keeps hitting the border\<close>

definition on_border :: "ball2 \<Rightarrow> bool" where
  "on_border s \<longleftrightarrow> ball_x s = 0 \<or> ball_x s = 31 \<or> ball_y s = 0 \<or> ball_y s = 23"

definition straight :: "ball2 \<Rightarrow> nat \<Rightarrow> ball2 \<Rightarrow> bool" where
  "straight s k s' \<longleftrightarrow> pos_x s' = pos_x s + int k * vel_x s \<and> pos_y s' = pos_y s + int k * vel_y s \<and>
    vel_x s' = vel_x s \<and> vel_y s' = vel_y s"

lemma leave_cell_same:
  "pos_x (fst (leave_cell s)) = pos_x s" "pos_y (fst (leave_cell s)) = pos_y s"
  "vel_x (fst (leave_cell s)) = vel_x s" "vel_y (fst (leave_cell s)) = vel_y s"
  "ball_x (fst (leave_cell s)) = ball_x s" "ball_y (fst (leave_cell s)) = ball_y s"
  by (simp_all add: leave_cell_def Let_def)

lemma frame_border_or_straight:
  assumes "ball2_inv s"
  shows "on_border (fst (ball2_frame s)) \<or> straight s 1 (fst (ball2_frame s))"
proof -
  obtain bounced where m: "frame_motion (fst (leave_cell s)) (fst (ball2_frame s)) bounced"
    using ball2_frame_motion by blast
  note f = frame_motion_inv [OF leave_cell_inv [OF assms] m]
  show ?thesis
  proof (cases bounced)
    case True
    with f(3) f(1) show ?thesis by (auto simp: on_border_def ball2_inv_def)
  next
    case False
    with f(2) show ?thesis by (simp add: straight_def leave_cell_same)
  qed
qed

lemma loop_border_or_straight:
  fixes gaddr :: "u8 \<Rightarrow> 'g \<Rightarrow> 'g" and gdata :: "'g \<Rightarrow> u16 \<times> 'g" and g :: 'g and n m :: nat and s :: ball2
  defines "st \<equiv> \<lambda>n. fst (ball2_loop gaddr gdata g n s)"
  shows "(\<exists>k. 1 \<le> k \<and> k \<le> m \<and> on_border (st (n + k))) \<or> straight (st n) m (st (n + m))"
proof (induction m)
  case 0
  show ?case by (simp add: straight_def)
next
  case (Suc m)
  have f: "on_border (st (n + Suc m)) \<or> straight (st (n + m)) 1 (st (n + Suc m))"
    using frame_border_or_straight [OF ball2_loop_inv, of gaddr gdata g "n + m" s]
    by (simp add: st_def ball2_loop_Suc del: ball2_loop.simps(2))
  from Suc show ?case
  proof
    assume "\<exists>k. 1 \<le> k \<and> k \<le> m \<and> on_border (st (n + k))"
    then show ?thesis using le_SucI by blast
  next
    assume s: "straight (st n) m (st (n + m))"
    from f show ?thesis
    proof
      assume "on_border (st (n + Suc m))"
      then show ?thesis by (intro disjI1 exI [of _ "Suc m"]) simp
    next
      assume "straight (st (n + m)) 1 (st (n + Suc m))"
      with s show ?thesis by (simp add: straight_def algebra_simps)
    qed
  qed
qed

text \<open>
  C19. The ball never stops: from every iteration on, within 32 more iterations it is on the border again.
\<close>

theorem ball2_hits_border:
  "\<exists>k. 1 \<le> k \<and> k \<le> 32 \<and> on_border (fst (ball2_loop gaddr gdata g (n + k) s))"
proof (rule ccontr)
  define st where "st = (\<lambda>n. fst (ball2_loop gaddr gdata g n s))"
  assume "\<not> (\<exists>k. 1 \<le> k \<and> k \<le> 32 \<and> on_border (fst (ball2_loop gaddr gdata g (n + k) s)))"
  then have far: "straight (st n) 32 (st (n + 32))"
    using loop_border_or_straight [where gaddr = gaddr and gdata = gdata and g = g and n = n and m = 32 and s = s]
    unfolding st_def by blast
  have inv: "ball2_inv (st n)" "ball2_inv (st (n + 32))" unfolding st_def by (rule ball2_loop_inv)+
  then obtain a b where e: "energy_ok a b"
    and v: "vel_x (st n) = sign_x (st n) * (4 * a)" "vel_y (st n) = sign_y (st n) * (4 * b)"
    and sg: "sign_x (st n) \<in> {1, - 1}" "sign_y (st n) \<in> {1, - 1}"
    by (auto simp: ball2_inv_def)
  have "a \<ge> 64 \<or> b \<ge> 64"
  proof (rule ccontr)
    assume "\<not> (a \<ge> 64 \<or> b \<ge> 64)"
    then have "0 \<le> a" "a \<le> 63" "0 \<le> b" "b \<le> 63" using e by (auto simp: energy_ok_def)
    then have "a ^ 2 \<le> 63 ^ 2" "b ^ 2 \<le> 63 ^ 2" using power_mono [of a 63 2] power_mono [of b 63 2] by blast+
    then show False using e by (simp add: energy_ok_def)
  qed
  have out: False if "64 \<le> c" "sg \<in> {1, - 1}" "0 \<le> p" "p \<le> 7936" "0 \<le> p + 32 * (sg * (4 * c))" "p + 32 * (sg * (4 * c)) \<le> 7936"
    for c sg p :: int using that by auto
  have p: "pos_x (st (n + 32)) = pos_x (st n) + 32 * (sign_x (st n) * (4 * a))"
    "pos_y (st (n + 32)) = pos_y (st n) + 32 * (sign_y (st n) * (4 * b))"
    using far by (simp_all add: straight_def v)
  have x: "0 \<le> pos_x (st n)" "pos_x (st n) \<le> 7936" "0 \<le> pos_x (st (n + 32))" "pos_x (st (n + 32)) \<le> 7936"
    and y: "0 \<le> pos_y (st n)" "pos_y (st n) \<le> 7936" "0 \<le> pos_y (st (n + 32))" "pos_y (st (n + 32)) \<le> 7936"
    using inv by (auto simp: ball2_inv_def)
  from \<open>a \<ge> 64 \<or> b \<ge> 64\<close> show False
    using out [OF _ sg(1) x(1,2) x(3,4) [unfolded p]] out [OF _ sg(2) y(1,2) y(3,4) [unfolded p]] by blast
qed

end
