(* ===== verification/Ball2_Screen.thy ===== *)
theory Ball2_Screen
  imports Ball2_Motion
begin

text \<open>
  What \<^verbatim>\<open>ball2.c\<close> shows: the ball, the border characters it has counted up, and blanks inside.
\<close>

section \<open>The border on the screen\<close>

lemma border_index_inj:
  assumes "0 \<le> r" "r \<le> 23" "0 \<le> c" "c \<le> 31" "0 \<le> r'" "r' \<le> 23" "0 \<le> c'" "c' \<le> 31"
    and "border_index r c = border_index r' c'" and "border_index r c \<ge> 0"
  shows "r = r'" and "c = c'"
  using assms unfolding border_index_def by (auto simp: s16_id split: if_splits)

text \<open>The character a cell shows when the ball is elsewhere.\<close>

definition resting :: "(nat \<Rightarrow> u8) \<Rightarrow> nat \<Rightarrow> nat \<Rightarrow> u8" where
  "resting brd row col =
    (if border_index (int row) (int col) \<ge> 0 then brd (nat (border_index (int row) (int col))) else 0x20)"

definition ball2_shown :: "ball2 \<Rightarrow> (nat \<Rightarrow> u8) \<Rightarrow> bool" where
  "ball2_shown s vram \<longleftrightarrow> (\<forall>row < 24. \<forall>col < 32. screen vram row col =
    (if int row = ball_y s \<and> int col = ball_x s then 0x2B else resting (border s) row col))"

lemma resting_update:
  assumes "row < 24" "col < 32" "row' < 24" "col' < 32" and "border_index (int row) (int col) \<ge> 0"
    and "row' \<noteq> row \<or> col' \<noteq> col"
  shows "resting (brd(nat (border_index (int row) (int col)) := c)) row' col' = resting brd row' col'"
proof -
  have "border_index (int row') (int col') \<noteq> border_index (int row) (int col)"
  proof
    assume e: "border_index (int row') (int col') = border_index (int row) (int col)"
    have "int row' = int row" "int col' = int col"
      by (rule border_index_inj [OF _ _ _ _ _ _ _ _ e]; use assms e in simp)+
    with assms(6) show False by simp
  qed
  with assms(5) show ?thesis by (auto simp: resting_def nat_eq_iff)
qed

context vdp_device
begin

lemma run_put_ball:
  assumes "idle v" and "0 \<le> y" "y \<le> 23" "0 \<le> x" "x \<le> 31"
  shows "idle (run_io cmd data (put_ball y x c) v)" and "reg (run_io cmd data (put_ball y x c) v) = reg v"
    and "vram (run_io cmd data (put_ball y x c) v) = (vram v)(nat y * 32 + nat x := c)"
proof -
  have b: "nat y < 24" "nat x < 32" using assms by auto
  have e: "put_ball y x c = put_char (of_nat (nat y)) (of_nat (nat x)) c"
    using assms by (simp add: put_ball_def)
  note p = run_put_char [OF assms(1) b, where c = c, folded e]
  show "idle (run_io cmd data (put_ball y x c) v)" and "reg (run_io cmd data (put_ball y x c) v) = reg v"
    and "vram (run_io cmd data (put_ball y x c) v) = (vram v)(nat y * 32 + nat x := c)" by (rule p)+
qed

text \<open>After the ball has left its cell the whole screen is at rest.\<close>

lemma run_leave_cell:
  assumes i: "idle v" and inv: "ball2_inv s" and sh: "ball2_shown s (vram v)"
  defines "w \<equiv> run_io cmd data (snd (leave_cell s)) v"
  shows "idle w" and "reg w = reg v"
    and "row < 24 \<Longrightarrow> col < 32 \<Longrightarrow> screen (vram w) row col = resting (border (fst (leave_cell s))) row col"
proof -
  have b: "0 \<le> ball_y s" "ball_y s \<le> 23" "0 \<le> ball_x s" "ball_x s \<le> 31" using inv by (auto simp: ball2_inv_def)
  define r c where "r = nat (ball_y s)" and "c = nat (ball_x s)"
  have rc: "r < 24" "c < 32" "ball_y s = int r" "ball_x s = int c" using b by (auto simp: r_def c_def)
  define ch where "ch = (if border_index (int r) (int c) \<ge> 0 then border_next (border s (nat (border_index (int r) (int c)))) else 0x20)"
  have out: "snd (leave_cell s) = put_ball (ball_y s) (ball_x s) ch"
    and brd: "border (fst (leave_cell s)) = (if border_index (int r) (int c) \<ge> 0
      then (border s)(nat (border_index (int r) (int c)) := ch) else border s)"
    by (simp_all add: leave_cell_def Let_def ch_def rc)
  note p = run_put_ball [OF i b, where c = ch, folded out, folded w_def, folded r_def, folded c_def]
  show "idle w" "reg w = reg v" by (rule p)+
  assume lt: "row < 24" "col < 32"
  show "screen (vram w) row col = resting (border (fst (leave_cell s))) row col"
  proof (cases "row = r \<and> col = c")
    case True
    then show ?thesis unfolding p(3) brd using rc by (simp add: screen_upd resting_def ch_def)
  next
    case False
    then have "screen (vram w) row col = resting (border s) row col"
      unfolding p(3) using sh lt rc by (auto simp: screen_upd ball2_shown_def)
    also have "\<dots> = resting (border (fst (leave_cell s))) row col"
      unfolding brd using resting_update [OF rc(1,2) lt] False by auto
    finally show ?thesis .
  qed
qed

lemma ball2_frame_out:
  "snd (ball2_frame s) = snd (leave_cell s) @ put_ball (ball_y (fst (ball2_frame s))) (ball_x (fst (ball2_frame s))) 0x2B"
  by (simp add: ball2_frame_def Let_def split_beta)

lemma run_ball2_frame:
  assumes i: "idle v" and inv: "ball2_inv s" and sh: "ball2_shown s (vram v)"
  defines "w \<equiv> run_io cmd data (snd (ball2_frame s)) v"
  shows "idle w" and "reg w = reg v" and "ball2_shown (fst (ball2_frame s)) (vram w)"
proof -
  define v1 where "v1 = run_io cmd data (snd (leave_cell s)) v"
  note l = run_leave_cell [OF i inv sh, folded v1_def]
  have inv': "ball2_inv (fst (ball2_frame s))" by (rule ball2_frame_inv [OF inv])
  then have b: "0 \<le> ball_y (fst (ball2_frame s))" "ball_y (fst (ball2_frame s)) \<le> 23"
    "0 \<le> ball_x (fst (ball2_frame s))" "ball_x (fst (ball2_frame s)) \<le> 31"
    by (auto simp: ball2_inv_def)
  have w: "w = run_io cmd data (put_ball (ball_y (fst (ball2_frame s))) (ball_x (fst (ball2_frame s))) 0x2B) v1"
    by (simp add: w_def v1_def ball2_frame_out)
  note p = run_put_ball [OF l(1) b, of "0x2B", folded w]
  show "idle w" "reg w = reg v" using p(1,2) l(2) by simp_all
  have brd: "border (fst (ball2_frame s)) = border (fst (leave_cell s))"
    using ball2_frame_motion [of s] by (auto simp: frame_motion_def)
  show "ball2_shown (fst (ball2_frame s)) (vram w)"
    unfolding ball2_shown_def p(3) brd using b l(3) by (auto simp: screen_upd)
qed

end

section \<open>Start-up\<close>

lemma stdchr_length: "length (fst (fold (\<lambda>i. stdchr_row gdata) [0..<n] ([], g))) = 8 * n"
proof -
  have len: "length (fst (fold (\<lambda>j (bs, g). let (b, g) = grom_read gdata g in (bs @ [b], g)) js p)) = length (fst p) + length js" for p js
    by (induction js arbitrary: p) (auto simp: split_beta)
  have row: "length (fst (stdchr_row gdata p)) = length (fst p) + 8" for p
    by (cases p) (simp only: stdchr_row_def split_conv len, simp)
  show ?thesis by (induction n) (simp_all add: row)
qed

context vdp_device
begin

lemma run_load_stdchr:
  fixes gaddr :: "u8 \<Rightarrow> 'g \<Rightarrow> 'g" and gdata :: "'g \<Rightarrow> u16 \<times> 'g" and g :: 'g
  assumes "idle v"
  defines "w \<equiv> run_io cmd data (vdp_load_stdchr gaddr gdata g) v"
  shows "idle w" and "reg w = reg v"
proof -
  define v1 where "v1 = run_io cmd data (vdp_set_write_addr 0x0800 @ for_io (32 * 8) (\<lambda>i. vdp_data 0)) v"
  define bs where "bs = fst (fold (\<lambda>i. stdchr_row gdata) [0..<96] ([], grom_set_addr gaddr 0x06B4 g))"
  have v1: "idle v1" "reg v1 = reg v" unfolding v1_def by (rule run_fill [OF assms(1)]; simp)+
  have bs: "length bs = 768" unfolding bs_def stdchr_length by simp
  then have "unat (0x0900 :: u16) + length bs \<le> 2 ^ 14" "bs \<noteq> []" by auto
  note rb = run_block [OF v1(1) this]
  have "w = run_io cmd data (vdp_set_write_addr 0x0900 @ map Data bs) v1"
    by (simp add: w_def v1_def bs_def vdp_load_stdchr_def)
  with rb(1,2) v1(2) show "idle w" "reg w = reg v" by simp_all
qed

lemma run_init_border:
  fixes s :: ball2
  assumes "idle v" and blank: "\<And>k. k < 768 \<Longrightarrow> vram v k = 0x20"
  defines "w \<equiv> run_io cmd data (snd (init_border s)) v"
  shows "idle w" and "reg w = reg v"
    and "row < 24 \<Longrightarrow> col < 32 \<Longrightarrow> screen (vram w) row col = (if row = 0 \<or> row = 23 \<or> col = 0 \<or> col = 31 then 0x30 else 0x20)"
proof -
  define v1 where "v1 = run_io cmd data (vdp_set_write_addr 0 @ for_io 32 (\<lambda>i. vdp_data 0x30)) v"
  define v2 where "v2 = run_io cmd data (vdp_set_write_addr 736 @ for_io 32 (\<lambda>i. vdp_data 0x30)) v1"
  let ?F = "\<lambda>i. run_io cmd data (put_char (of_nat i) 0 0x30 @ put_char (of_nat i) 31 0x30)"
  have i1: "idle v1" "reg v1 = reg v" unfolding v1_def by (rule run_fill [OF assms(1)]; simp)+
  have m1: "vram v1 k = (if k < 32 then 0x30 else vram v k)" for k
    unfolding v1_def by (subst run_fill [OF assms(1)]) simp_all
  have i2: "idle v2" "reg v2 = reg v1" unfolding v2_def by (rule run_fill [OF i1(1)]; simp)+
  have m2: "vram v2 k = (if 736 \<le> k \<and> k < 768 then 0x30 else vram v1 k)" for k
    unfolding v2_def by (subst run_fill [OF i1(1)]) simp_all
  have "run_io cmd data (concat (map g is)) u = fold (\<lambda>i. run_io cmd data (g i)) is u" for g u and "is" :: "nat list"
    by (induction "is" arbitrary: u) simp_all
  then have w: "w = fold ?F [1..<23] v2"
    by (simp add: w_def init_border_def v2_def v1_def)
  let ?P = "\<lambda>u. idle u \<and> reg u = reg v"
  have step: "?P (?F j u) \<and> screen (vram (?F j u)) row col =
      (if row = j \<and> (col = 0 \<or> col = 31) then 0x30 else screen (vram u) row col)"
    if "j \<in> set [1..<23]" "?P u" "col < 32" for j u row col
  proof -
    have j: "j < 24" using that(1) by auto
    have a: "idle u" using that(2) by simp
    note p1 = run_put_char [OF a j, of 0 "0x30"]
    note p2 = run_put_char [OF p1(1) j, of 31 "0x30"]
    have "screen ((vram u)(j * 32 := 0x30)) row col = (if row = j \<and> col = 0 then 0x30 else screen (vram u) row col)"
      using screen_upd [of 0 col "vram u" j "0x30" row] that(3) by simp
    then show ?thesis using p1 p2 that by (auto simp: screen_upd)
  qed
  have all: "?P (fold ?F [1..<23] v2) \<and> screen (vram (fold ?F [1..<23] v2)) row col =
      (if \<exists>j \<in> set [1..<23]. row = j \<and> (col = 0 \<or> col = 31) then 0x30 else screen (vram v2) row col)"
    if "col < 32" for row col
    by (rule fold_view_inv [where P = ?P and view = "\<lambda>u (_ :: unit). screen (vram u) row col" and k = "()"])
      (use step that i1 i2 in auto)
  from all [of 0] show "idle w" "reg w = reg v" unfolding w by simp_all
  assume lt: "row < 24" "col < 32"
  have k: "row * 32 + col < 768" "row * 32 + col < 32 \<longleftrightarrow> row = 0" "736 \<le> row * 32 + col \<longleftrightarrow> row = 23"
    using lt by auto
  show "screen (vram w) row col = (if row = 0 \<or> row = 23 \<or> col = 0 \<or> col = 31 then 0x30 else 0x20)"
    using all [OF lt(2), of row] lt k blank unfolding w screen_def m2 m1 by auto
qed

lemma run_ball2_init:
  fixes gaddr :: "u8 \<Rightarrow> 'g \<Rightarrow> 'g" and gdata :: "'g \<Rightarrow> u16 \<times> 'g" and g :: 'g and s :: ball2
  assumes i: "idle v"
  defines "w \<equiv> run_io cmd data (snd (ball2_init gaddr gdata g s)) v"
  shows "idle w" and "ball2_shown (fst (ball2_init gaddr gdata g s)) (vram w)"
proof -
  define v1 where "v1 = run_io cmd data (vdp_set_register 7 0xF4 @ vdp_set_text_mode_defaults) v"
  define v2 where "v2 = run_io cmd data (vdp_load_stdchr gaddr gdata g) v1"
  define v3 where "v3 = run_io cmd data vdp_clear_screen v2"
  define v4 where "v4 = run_io cmd data (snd (init_border s)) v3"
  have i1: "idle v1" unfolding v1_def by (simp add: vdp_set_text_mode_defaults_def run_set_register i)
  have i2: "idle v2" unfolding v2_def by (rule run_load_stdchr [OF i1])
  note c = run_clear_screen [OF i2, folded v3_def]
  note b = run_init_border [OF c(1), where s = s, folded v4_def]
  have i4: "idle v4" by (rule b(1)) (simp add: c(3))
  have w: "w = run_io cmd data (put_ball 12 16 0x2B) v4"
    by (simp add: w_def v4_def v3_def v2_def v1_def ball2_init_def split_beta ball2_start_values)
  note p = run_put_ball [OF i4, of 12 16 "0x2B", folded w]
  show "idle w" by (rule p) simp_all
  have st: "ball_y (fst (ball2_init gaddr gdata g s)) = 12" "ball_x (fst (ball2_init gaddr gdata g s)) = 16"
    "border (fst (ball2_init gaddr gdata g s)) = border (fst (init_border s))"
    by (simp_all add: ball2_init_def split_beta ball2_start_values)
  have rest: "resting (border (fst (init_border s))) row col = (if row = 0 \<or> row = 23 \<or> col = 0 \<or> col = 31 then 0x30 else 0x20)"
    if "row < 24" "col < 32" for row col
    using border_index_range [of "int row" "int col"] that by (auto simp: resting_def init_border_values nat_less_iff)
  have "vram w = (vram v4)(12 * 32 + 16 := 0x2B)" using p(3) by simp
  then have "screen (vram w) row col = (if row = 12 \<and> col = 16 then 0x2B else screen (vram v4) row col)" if "col < 32" for row col
    using that screen_upd [of 16 col "vram v4" 12 "0x2B" row] by simp
  then show "ball2_shown (fst (ball2_init gaddr gdata g s)) (vram w)"
    unfolding ball2_shown_def st using b(3) c(3) rest by simp
qed

lemma run_ball2_loop:
  fixes gaddr :: "u8 \<Rightarrow> 'g \<Rightarrow> 'g" and gdata :: "'g \<Rightarrow> u16 \<times> 'g" and g :: 'g and s :: ball2
  assumes "idle v"
  defines "w \<equiv> \<lambda>n. run_io cmd data (snd (ball2_loop gaddr gdata g n s)) v"
  shows "idle (w n) \<and> ball2_shown (fst (ball2_loop gaddr gdata g n s)) (vram (w n))"
proof (induction n)
  case 0
  show ?case using run_ball2_init [OF assms(1), where gaddr = gaddr and gdata = gdata and g = g and s = s] by (simp add: w_def)
next
  case (Suc n)
  then show ?case
    using run_ball2_frame [OF _ ball2_loop_inv, of "w n" gaddr gdata g n s] by (simp add: w_def ball2_loop_Suc del: ball2_loop.simps(2))
qed

end

text \<open>
  C16. On a device that behaves as documented, after any number of iterations of \<^verbatim>\<open>ball2.c\<close> the screen shows
  the plus sign in the cell of the ball, the counters of \<open>border\<close> in the other cells of the edge and blanks inside.
\<close>

theorem ball2_screen:
  fixes gaddr :: "u8 \<Rightarrow> 'g \<Rightarrow> 'g" and gdata :: "'g \<Rightarrow> u16 \<times> 'g" and g :: 'g and s :: ball2 and n :: nat
  assumes dev: "vdp_device cmd data vram addr reg idle" and i: "idle v0" and row: "row < 24" and col: "col < 32"
  defines "s' \<equiv> fst (ball2_loop gaddr gdata g n s)" and "w \<equiv> run_io cmd data (snd (ball2_loop gaddr gdata g n s)) v0"
  shows "screen (vram w) row col =
    (if int row = ball_y s' \<and> int col = ball_x s' then 0x2B
     else if row = 0 \<or> row = 23 \<or> col = 0 \<or> col = 31 then border s' (nat (border_index (int row) (int col)))
     else 0x20)"
proof -
  have "ball2_shown s' (vram w)" unfolding s'_def w_def by (rule conjunct2 [OF vdp_device.run_ball2_loop [OF dev i]])
  then have "screen (vram w) row col = (if int row = ball_y s' \<and> int col = ball_x s' then 0x2B else resting (border s') row col)"
    using row col unfolding ball2_shown_def by blast
  moreover have "border_index (int row) (int col) \<ge> 0 \<longleftrightarrow> row = 0 \<or> row = 23 \<or> col = 0 \<or> col = 31"
    using row col by (subst border_index_range(2)) auto
  ultimately show ?thesis unfolding resting_def by (simp only:)
qed

theorem ball2_screen_witness:
  "screen (video_ram (run_io tms9918_cmd tms9918_data (snd (ball2_loop (\<lambda>_ g. g) (\<lambda>g. (0, g)) () 0 ball2_globals)) power_up)) 12 16 = 0x2B"
proof -
  have "tms9918_idle power_up" by (simp add: tms9918_idle_def power_up_def)
  moreover have "ball_y (fst (ball2_loop (\<lambda>_ g. g) (\<lambda>g. (0, g)) () 0 ball2_globals)) = 12"
    "ball_x (fst (ball2_loop (\<lambda>_ g. g) (\<lambda>g. (0, g)) () 0 ball2_globals)) = 16"
    by (simp_all add: ball2_init_def split_beta ball2_start_values)
  ultimately show ?thesis
    using ball2_screen [OF tms9918.vdp_device_axioms, of power_up 12 16 "\<lambda>_ g. g" "\<lambda>g. (0, g)" "()" 0 ball2_globals] by simp
qed

end
