(* ===== verification/C_Memory.thy ===== *)
theory C_Memory
  imports TMS_Prelude
begin

text \<open>
  The address space seen from C: 64 kilobytes, with pointers that wrap around, and the byte strings in it. A
  loop that runs until it finds a byte need not end, so its result is an option.
\<close>

type_synonym cmem = "u16 \<Rightarrow> u8"

section \<open>Byte strings in memory\<close>

text \<open>The \<open>n\<close> bytes from a pointer on.\<close>

fun bytes_at :: "cmem \<Rightarrow> u16 \<Rightarrow> nat \<Rightarrow> u8 list" where
  "bytes_at m p 0 = []"
| "bytes_at m p (Suc n) = m p # bytes_at m (p + 1) n"

text \<open>A string that ends with a zero byte.\<close>

fun c_str :: "cmem \<Rightarrow> u16 \<Rightarrow> u8 list \<Rightarrow> bool" where
  "c_str m p [] \<longleftrightarrow> m p = 0"
| "c_str m p (x # xs) \<longleftrightarrow> x \<noteq> 0 \<and> m p = x \<and> c_str m (p + 1) xs"

text \<open>Memory after the bytes \<open>xs\<close> are stored from \<open>p\<close> on, in ascending order.\<close>

fun store_bytes :: "u16 \<Rightarrow> u8 list \<Rightarrow> cmem \<Rightarrow> cmem" where
  "store_bytes p [] m = m"
| "store_bytes p (x # xs) m = store_bytes (p + 1) xs (m(p := x))"

lemma length_bytes_at [simp]: "length (bytes_at m p n) = n"
  by (induction n arbitrary: p) simp_all

lemma bytes_at_nth: "i < n \<Longrightarrow> bytes_at m p n ! i = m (p + of_nat i)"
proof (induction n arbitrary: p i)
  case (Suc n)
  then show ?case by (cases i) (simp_all add: add.assoc)
qed simp

lemma bytes_at_eqI: "(\<And>i. i < n \<Longrightarrow> m (p + of_nat i) = m' (p' + of_nat i)) \<Longrightarrow> bytes_at m p n = bytes_at m' p' n"
  by (rule nth_equalityI) (simp_all add: bytes_at_nth)

lemma bytes_at_append: "bytes_at m p (k + n) = bytes_at m p k @ bytes_at m (p + of_nat k) n"
  by (induction k arbitrary: p) (simp_all add: add.assoc)

lemma c_str_iff: "c_str m p xs \<longleftrightarrow> bytes_at m p (length xs) = xs \<and> 0 \<notin> set xs \<and> m (p + of_nat (length xs)) = 0"
  by (induction xs arbitrary: p) (auto simp: add.assoc)

lemma c_str_unique: "c_str m p xs \<Longrightarrow> c_str m p ys \<Longrightarrow> xs = ys"
proof (induction xs arbitrary: p ys)
  case Nil
  then show ?case by (cases ys) auto
next
  case (Cons x xs)
  then show ?case by (cases ys) auto
qed

text \<open>A string in an address space fits into it.\<close>

lemma c_str_length: "c_str m p xs \<Longrightarrow> length xs < 2 ^ 16"
proof (rule ccontr)
  assume s: "c_str m p xs" and "\<not> length xs < 2 ^ 16"
  then have le: "2 ^ 16 \<le> length xs" by simp
  define z where "z = length xs - 2 ^ 16"
  have z: "z < length xs" using le by (simp add: z_def)
  have "(of_nat (length xs) :: u16) = of_nat (z + 2 ^ 16)" using le by (simp only: z_def le_add_diff_inverse2)
  also have "\<dots> = of_nat z" by simp
  finally have "m (p + of_nat z) = 0" using s by (simp add: c_str_iff)
  moreover have "xs ! z = m (p + of_nat z)" using s z bytes_at_nth [OF z, of m p] by (simp add: c_str_iff)
  ultimately show False using s z by (metis c_str_iff nth_mem)
qed

text \<open>Stores within a span of less than the address space do not run into each other.\<close>

lemma offset_eq_iff:
  fixes p :: u16
  assumes "i < 2 ^ 16" "j < 2 ^ 16"
  shows "p + of_nat i = p + of_nat j \<longleftrightarrow> i = j"
proof
  assume "p + of_nat i = p + of_nat j"
  then have "unat (of_nat i :: u16) = unat (of_nat j :: u16)" by simp
  with assms show "i = j" by (simp only: unat_of_nat) simp
qed simp

lemma store_bytes_at:
  assumes "length xs \<le> 2 ^ 16"
  shows "store_bytes p xs m q = (if unat (q - p) < length xs then xs ! unat (q - p) else m q)"
  using assms
proof (induction xs arbitrary: p m)
  case (Cons x xs)
  have IH: "store_bytes (p + 1) xs (m(p := x)) q =
      (if unat (q - (p + 1)) < length xs then xs ! unat (q - (p + 1)) else (m(p := x)) q)"
    by (rule Cons.IH) (use Cons.prems in simp)
  show ?case
  proof (cases "q = p")
    case True
    then have "q - (p + 1) = - 1" by simp
    then have "unat (q - (p + 1)) = 2 ^ 16 - 1" by (simp add: unsigned_minus_1_eq_mask mask_eq_exp_minus_1)
    then have "\<not> unat (q - (p + 1)) < length xs" using Cons.prems by simp
    with True show ?thesis unfolding store_bytes.simps IH by simp
  next
    case False
    then have "unat (q - p) \<noteq> 0" by (simp add: unat_eq_zero)
    moreover have "q - (p + 1) = (q - p) - 1" by simp
    ultimately have "unat (q - p) = Suc (unat (q - (p + 1)))" by (metis Suc_pred' gr0I unat_minus_one unat_eq_zero)
    with False show ?thesis unfolding store_bytes.simps IH by simp
  qed
qed simp

lemma bytes_at_store: "length xs \<le> 2 ^ 16 \<Longrightarrow> bytes_at (store_bytes p xs m) p (length xs) = xs"
proof (rule nth_equalityI)
  fix i assume l: "length xs \<le> 2 ^ 16" and "i < length (bytes_at (store_bytes p xs m) p (length xs))"
  then have i: "i < length xs" by simp
  then have "unat (of_nat i :: u16) = i" using l by (simp only: unat_of_nat) simp
  with i l show "bytes_at (store_bytes p xs m) p (length xs) ! i = xs ! i"
    by (simp add: bytes_at_nth store_bytes_at)
qed simp

lemma store_bytes_append: "store_bytes p (xs @ ys) m = store_bytes (p + of_nat (length xs)) ys (store_bytes p xs m)"
  by (induction xs arbitrary: p m) (simp_all add: add.assoc add.commute)

section \<open>Comparison of byte strings\<close>

text \<open>The sign of a comparison: zero for equal strings, negative when the first is smaller.\<close>

definition compares :: "int \<Rightarrow> u8 list \<Rightarrow> u8 list \<Rightarrow> bool" where
  "compares r xs ys \<longleftrightarrow> (r = 0 \<longleftrightarrow> xs = ys) \<and> (r < 0 \<longleftrightarrow> ord_class.lexordp xs ys)"

lemma compares_Nil [simp]: "compares 0 [] []"
  by (simp add: compares_def)

lemma compares_Cons_eq [simp]: "compares r (x # xs) (x # ys) \<longleftrightarrow> compares r xs ys"
  by (simp add: compares_def)

lemma uint_neq: "x \<noteq> y \<Longrightarrow> uint x < uint y \<or> uint y < uint x" for x y :: u8
  by (metis linorder_neqE_linordered_idom unsigned_word_eqI)

lemma compares_Cons_neq: "x \<noteq> y \<Longrightarrow> compares (uint x - uint y) (x # xs) (y # ys)"
  using uint_neq [of x y] by (auto simp: compares_def word_less_def)

lemma compares_Nil_Cons: "y \<noteq> 0 \<Longrightarrow> compares (- uint y) [] (y # ys)"
  using uint_neq [of y 0] by (auto simp: compares_def)

lemma compares_Cons_Nil: "x \<noteq> 0 \<Longrightarrow> compares (uint x) (x # xs) []"
  using uint_neq [of x 0] by (auto simp: compares_def)

end
