(* ===== verification/Runtime_Lib.thy ===== *)
theory Runtime_Lib
  imports C_Memory
begin

text \<open>
  The freestanding run-time library: \<^verbatim>\<open>builtins/string_utils.c\<close>, \<^verbatim>\<open>FreeRTOS/minilib.c\<close> and the bump allocator
  \<^verbatim>\<open>builtins/malloc.c\<close>. Pointers and sizes have 16 bits.
\<close>

section \<open>String functions\<close>

text \<open>\<open>strlen\<close> of \<^verbatim>\<open>string_utils.c\<close> and \<^verbatim>\<open>minilib.c\<close>: the loop on the moving pointer.\<close>

partial_function (option) strlen_loop :: "cmem \<Rightarrow> u16 \<Rightarrow> u16 option" where
  "strlen_loop m p = (if m p \<noteq> 0 then strlen_loop m (p + 1) else Some p)"

definition strlen :: "cmem \<Rightarrow> u16 \<Rightarrow> u16 option" where
  "strlen m s = map_option (\<lambda>p. p - s) (strlen_loop m s)"

partial_function (option) strcmp :: "cmem \<Rightarrow> u16 \<Rightarrow> u16 \<Rightarrow> int option" where
  "strcmp m s1 s2 =
    (if m s1 \<noteq> 0 \<and> m s1 = m s2 then strcmp m (s1 + 1) (s2 + 1) else Some (uint (m s1) - uint (m s2)))"

text \<open>The counter bounds the loop of \<open>strncmp\<close>.\<close>

fun strncmp_loop :: "cmem \<Rightarrow> u16 \<Rightarrow> u16 \<Rightarrow> nat \<Rightarrow> u16 \<times> u16 \<times> nat" where
  "strncmp_loop m s1 s2 n =
    (if n \<noteq> 0 \<and> m s1 \<noteq> 0 \<and> m s1 = m s2 then strncmp_loop m (s1 + 1) (s2 + 1) (n - 1) else (s1, s2, n))"

declare strncmp_loop.simps [simp del]

definition strncmp :: "cmem \<Rightarrow> u16 \<Rightarrow> u16 \<Rightarrow> u16 \<Rightarrow> int" where
  "strncmp m s1 s2 n =
    (let (s1, s2, n) = strncmp_loop m s1 s2 (unat n) in if n = 0 then 0 else uint (m s1) - uint (m s2))"

fun memchr_loop :: "cmem \<Rightarrow> u16 \<Rightarrow> u8 \<Rightarrow> nat \<Rightarrow> u16 option" where
  "memchr_loop m p uc 0 = None"
| "memchr_loop m p uc (Suc n) = (if m p = uc then Some p else memchr_loop m (p + 1) uc n)"

definition memchr :: "cmem \<Rightarrow> u16 \<Rightarrow> int \<Rightarrow> u16 \<Rightarrow> u16 option" where
  "memchr m s c n = memchr_loop m s (word_of_int c) (unat n)"

text \<open>\<open>memcmp\<close> of \<^verbatim>\<open>string_utils.c\<close> and \<^verbatim>\<open>minilib.c\<close>.\<close>

fun memcmp_loop :: "cmem \<Rightarrow> u16 \<Rightarrow> u16 \<Rightarrow> nat \<Rightarrow> int" where
  "memcmp_loop m p1 p2 0 = 0"
| "memcmp_loop m p1 p2 (Suc n) =
    (if m p1 \<noteq> m p2 then uint (m p1) - uint (m p2) else memcmp_loop m (p1 + 1) (p2 + 1) n)"

definition memcmp :: "cmem \<Rightarrow> u16 \<Rightarrow> u16 \<Rightarrow> u16 \<Rightarrow> int" where
  "memcmp m s1 s2 n = memcmp_loop m s1 s2 (unat n)"

text \<open>\<open>memset\<close> and \<open>memcpy\<close> of \<^verbatim>\<open>minilib.c\<close> return the destination and the memory.\<close>

fun memset_loop :: "u16 \<Rightarrow> u8 \<Rightarrow> nat \<Rightarrow> cmem \<Rightarrow> cmem" where
  "memset_loop p c 0 m = m"
| "memset_loop p c (Suc n) m = memset_loop (p + 1) c n (m(p := c))"

definition memset :: "cmem \<Rightarrow> u16 \<Rightarrow> int \<Rightarrow> u16 \<Rightarrow> u16 \<times> cmem" where
  "memset m s c n = (s, memset_loop s (word_of_int c) (unat n) m)"

fun memcpy_loop :: "u16 \<Rightarrow> u16 \<Rightarrow> nat \<Rightarrow> cmem \<Rightarrow> cmem" where
  "memcpy_loop d s 0 m = m"
| "memcpy_loop d s (Suc n) m = memcpy_loop (d + 1) (s + 1) n (m(d := m s))"

definition memcpy :: "cmem \<Rightarrow> u16 \<Rightarrow> u16 \<Rightarrow> u16 \<Rightarrow> u16 \<times> cmem" where
  "memcpy m dest src n = (dest, memcpy_loop dest src (unat n) m)"

section \<open>Correctness of the string functions\<close>

lemma strlen_loop_str: "c_str m p xs \<Longrightarrow> strlen_loop m p = Some (p + of_nat (length xs))"
  by (induction xs arbitrary: p) (subst strlen_loop.simps, simp add: add.assoc)+

lemma strcmp_str:
  "c_str m p xs \<Longrightarrow> c_str m q ys \<Longrightarrow> \<exists>r. strcmp m p q = Some r \<and> compares r xs ys"
proof (induction xs arbitrary: p q ys)
  case Nil
  then show ?case
    by (subst strcmp.simps) (cases ys; simp add: compares_Nil_Cons)
next
  case (Cons x xs)
  show ?case
  proof (cases ys)
    case Nil
    with Cons.prems show ?thesis by (subst strcmp.simps) (simp add: compares_Cons_Nil)
  next
    case (Cons y ys')
    show ?thesis
    proof (cases "x = y")
      case True
      with Cons Cons.prems Cons.IH [of "p + 1" "q + 1" ys'] show ?thesis by (subst strcmp.simps) simp
    next
      case False
      with Cons Cons.prems show ?thesis by (subst strcmp.simps) (simp add: compares_Cons_neq)
    qed
  qed
qed

lemma strncmp_str:
  assumes "c_str m p xs" and "c_str m q ys"
  shows "compares (case strncmp_loop m p q n of (s1, s2, k) \<Rightarrow> if k = 0 then 0 else uint (m s1) - uint (m s2))
    (take n xs) (take n ys)"
  using assms
proof (induction n arbitrary: p q xs ys)
  case 0
  show ?case by (simp add: strncmp_loop.simps)
next
  case (Suc n)
  show ?case
  proof (cases xs)
    case Nil
    with Suc.prems show ?thesis by (subst strncmp_loop.simps) (cases ys; simp add: compares_Nil_Cons)
  next
    case (Cons x xs')
    show ?thesis
    proof (cases ys)
      case Nil
      with Cons Suc.prems show ?thesis by (subst strncmp_loop.simps) (simp add: compares_Cons_Nil)
    next
      case (Cons y ys')
      with \<open>xs = x # xs'\<close> Suc show ?thesis
        by (subst strncmp_loop.simps) (cases "x = y"; simp add: compares_Cons_neq)
    qed
  qed
qed

text \<open>
  C39. On strings in memory, \<open>strlen\<close> returns and gives the length, \<open>strcmp\<close> returns and gives zero exactly for
  equal strings and a negative value exactly when the first is lexicographically smaller by unsigned
  bytes, and \<open>strncmp\<close> does so for the prefixes of at most \<open>n\<close> characters.
\<close>

theorem string_utils_correct:
  assumes "c_str m p xs" and "c_str m q ys"
  shows "strlen m p = Some (of_nat (length xs)) \<and> length xs < 2 ^ 16 \<and>
    (\<exists>r. strcmp m p q = Some r \<and> compares r xs ys) \<and>
    compares (strncmp m p q n) (take (unat n) xs) (take (unat n) ys)"
  using assms strlen_loop_str [OF assms(1)] strcmp_str [OF assms] c_str_length [OF assms(1)]
    strncmp_str [OF assms, of "unat n"]
  by (simp add: strlen_def strncmp_def split_beta)

theorem string_utils_correct_witness:
  "strlen ((\<lambda>_. 0)(10 := 65, 11 := 66, 20 := 65)) 10 = Some 2 \<and>
   compares (strncmp ((\<lambda>_. 0)(10 := 65, 11 := 66, 20 := 65)) 10 20 1) [65] [65]"
  using string_utils_correct [of "(\<lambda>_. 0)(10 := 65, 11 := 66, 20 := 65)" 10 "[65, 66]" 20 "[65]" 1] by simp

lemma memcmp_bytes: "compares (memcmp_loop m p q n) (bytes_at m p n) (bytes_at m q n)"
  by (induction n arbitrary: p q) (simp_all add: compares_Cons_neq)

lemma memchr_first:
  "memchr_loop m p c n = (if c \<in> set (bytes_at m p n)
    then Some (p + of_nat (length (takeWhile (\<lambda>b. b \<noteq> c) (bytes_at m p n)))) else None)"
  by (induction n arbitrary: p) (simp_all add: add.assoc)

text \<open>
  \<open>memcmp\<close> compares the two blocks of \<open>n\<close> bytes and \<open>memchr\<close> finds the first byte equal to its argument
  converted to \<open>unsigned char\<close>, or none.
\<close>

theorem memory_search_correct:
  "compares (memcmp m p q n) (bytes_at m p (unat n)) (bytes_at m q (unat n)) \<and>
   memchr m p c n = (if word_of_int c \<in> set (bytes_at m p (unat n))
     then Some (p + of_nat (length (takeWhile (\<lambda>b. b \<noteq> word_of_int c) (bytes_at m p (unat n))))) else None)"
  by (simp add: memcmp_def memcmp_bytes memchr_def memchr_first)

lemma memset_loop_store: "memset_loop p c n m = store_bytes p (replicate n c) m"
  by (induction n arbitrary: p m) simp_all

text \<open>Copying forward is right when the destination does not start inside the source.\<close>

lemma memcpy_loop_store:
  assumes "n \<le> 2 ^ 16" and "\<And>i j. i < j \<Longrightarrow> j < n \<Longrightarrow> d + of_nat i \<noteq> s + of_nat j"
  shows "memcpy_loop d s n m = store_bytes d (bytes_at m s n) m"
  using assms
proof (induction n arbitrary: d s m)
  case (Suc n)
  have "bytes_at (m(d := m s)) (s + 1) n = bytes_at m (s + 1) n"
  proof (rule bytes_at_eqI)
    fix i assume "i < n"
    with Suc.prems(2) [of 0 "Suc i"] have "d \<noteq> s + 1 + of_nat i" by (simp add: add.assoc)
    then show "(m(d := m s)) (s + 1 + of_nat i) = m (s + 1 + of_nat i)" by simp
  qed
  moreover have "memcpy_loop (d + 1) (s + 1) n (m(d := m s)) =
      store_bytes (d + 1) (bytes_at (m(d := m s)) (s + 1) n) (m(d := m s))"
  proof (rule Suc.IH)
    fix i j assume "i < j" "j < n"
    with Suc.prems(2) [of "Suc i" "Suc j"] show "d + 1 + of_nat i \<noteq> s + 1 + of_nat j" by (simp add: add.assoc)
  qed (use Suc.prems(1) in simp)
  ultimately show ?case by simp
qed simp

lemma no_overlap:
  fixes d s :: u16
  assumes "unat (d - s) \<ge> n \<or> d = s" and "i < j" "j < n" "n \<le> 2 ^ 16"
  shows "d + of_nat i \<noteq> s + of_nat j"
proof
  assume e: "d + of_nat i = s + of_nat j"
  then have "d - s = of_nat j - of_nat i" by (simp add: algebra_simps)
  also have "\<dots> = of_nat (j - i)" using assms(2) by (simp add: of_nat_diff)
  finally have "unat (d - s) = j - i" using assms by (simp only: unat_of_nat) simp
  with assms show False by auto
qed

text \<open>
  \<open>memset\<close> fills exactly the \<open>n\<close> bytes from its pointer on; \<open>memcpy\<close>, when the destination does not start
  inside the source, stores the old bytes of the source there; both return their first argument and change
  no other byte.
\<close>

theorem minilib_copy_correct:
  assumes "unat (d - s) \<ge> unat n \<or> d = s"
  shows "memset m d c n = (d, store_bytes d (replicate (unat n) (word_of_int c)) m) \<and>
    memcpy m d s n = (d, store_bytes d (bytes_at m s (unat n)) m) \<and>
    bytes_at (snd (memcpy m d s n)) d (unat n) = bytes_at m s (unat n) \<and>
    (unat (q - d) \<ge> unat n \<longrightarrow> snd (memcpy m d s n) q = m q \<and> snd (memset m d c n) q = m q)"
proof -
  have n: "unat n \<le> 2 ^ 16" using unat_u16_lt [of n] by simp
  have cp: "memcpy m d s n = (d, store_bytes d (bytes_at m s (unat n)) m)"
    unfolding memcpy_def using no_overlap [OF assms _ _ n] by (subst memcpy_loop_store [OF n]) simp_all
  have st: "memset m d c n = (d, store_bytes d (replicate (unat n) (word_of_int c)) m)"
    by (simp add: memset_def memset_loop_store)
  have "bytes_at (store_bytes d (bytes_at m s (unat n)) m) d (unat n) = bytes_at m s (unat n)"
    using bytes_at_store [of "bytes_at m s (unat n)" d m] n by simp
  then show ?thesis unfolding cp st using n by (simp add: store_bytes_at)
qed

theorem minilib_copy_correct_witness:
  "bytes_at (snd (memcpy ((\<lambda>_. 0)(10 := 7)) 50 10 1)) 50 1 = [7]"
proof -
  have "unat ((50 :: u16) - 10) \<ge> unat (1 :: u16) \<or> (50 :: u16) = 10" by simp
  from minilib_copy_correct [OF this, of "(\<lambda>_. 0)(10 := 7)"] show ?thesis by simp
qed

section \<open>The bump allocator\<close>

text \<open>
  The heap between the two symbols of the linker script, and the pointer that moves through it. An allocation
  that does not fit returns the null pointer, which is modelled as \<open>None\<close>.
\<close>

record heap =
  heap_start :: u16
  heap_end :: u16
  heap_ptr :: u16

definition malloc :: "u16 \<Rightarrow> heap \<Rightarrow> u16 option \<times> heap" where
  "malloc sz h =
    (let sz = (sz + 1) AND NOT 1;
         p = heap_ptr h;
         nxt = p + sz
     in if nxt > heap_end h then (None, h) else (Some p, h\<lparr>heap_ptr := nxt\<rparr>))"

definition free :: "u16 \<Rightarrow> heap \<Rightarrow> heap" where
  "free p h = h"

text \<open>The pointer stays inside the heap and even.\<close>

definition heap_ok :: "heap \<Rightarrow> bool" where
  "heap_ok h \<longleftrightarrow> heap_start h \<le> heap_ptr h \<and> heap_ptr h \<le> heap_end h \<and> even (unat (heap_start h)) \<and> even (unat (heap_ptr h))"

text \<open>The size an allocation takes: rounded up to an even number.\<close>

definition rounded :: "nat \<Rightarrow> nat" where
  "rounded n = 2 * ((n + 1) div 2)"

lemma rounded_even: "even (rounded n)"
  by (simp add: rounded_def)

lemma rounded_ge: "n \<le> rounded n"
  by (simp add: rounded_def)

lemma round_up:
  assumes "unat sz \<le> 0xFFFE"
  shows "unat ((sz + 1) AND NOT 1 :: u16) = rounded (unat sz)"
proof -
  have one: "(1 :: u16) = mask 1" by (simp add: mask_eq_exp_minus_1)
  have u: "unat (sz + 1) = unat sz + 1" using assms by (simp add: unat_word_ariths)
  have "unat ((sz + 1) AND NOT (mask 1) :: u16) = (unat sz + 1) div 2 * 2"
    unfolding and_not_mask by (subst unat_push_bit) (use assms in \<open>simp_all only: unat_drop_bit u, simp\<close>)
  then show ?thesis unfolding one [symmetric] by (simp add: rounded_def)
qed

text \<open>
  The allocator works as intended as long as the end of the block does not wrap around the address space.
\<close>

lemma malloc_fits:
  assumes ok: "heap_ok h" and small: "unat sz \<le> 0xFFFE" and wrap: "unat (heap_ptr h) + rounded (unat sz) < 2 ^ 16"
  shows "malloc sz h =
    (if unat (heap_ptr h) + rounded (unat sz) \<le> unat (heap_end h)
     then (Some (heap_ptr h), h\<lparr>heap_ptr := heap_ptr h + of_nat (rounded (unat sz))\<rparr>) else (None, h))"
proof -
  have s: "(sz + 1) AND NOT 1 = (of_nat (rounded (unat sz)) :: u16)"
    using round_up [OF small] by (rule word_eq_of_nat)
  have "unat (heap_ptr h + of_nat (rounded (unat sz))) = unat (heap_ptr h) + rounded (unat sz)"
    using wrap by (simp add: unat_word_ariths unat_of_nat)
  then show ?thesis
    unfolding malloc_def Let_def s word_less_nat_alt by auto
qed

lemma malloc_fits_inv:
  assumes "heap_ok h" and "unat sz \<le> 0xFFFE" and "unat (heap_ptr h) + rounded (unat sz) < 2 ^ 16"
  shows "heap_ok (snd (malloc sz h))" and "heap_start (snd (malloc sz h)) = heap_start h"
    and "heap_end (snd (malloc sz h)) = heap_end h"
    and "fst (malloc sz h) = Some p \<Longrightarrow> p = heap_ptr h \<and> unat p + rounded (unat sz) \<le> unat (heap_end h) \<and>
      unat (heap_ptr (snd (malloc sz h))) = unat p + rounded (unat sz)"
proof -
  have u: "unat (heap_ptr h + of_nat (rounded (unat sz))) = unat (heap_ptr h) + rounded (unat sz)"
    using assms(3) by (simp add: unat_word_ariths unat_of_nat)
  show "heap_ok (snd (malloc sz h))" "heap_start (snd (malloc sz h)) = heap_start h"
    "heap_end (snd (malloc sz h)) = heap_end h"
    using assms(1) unfolding malloc_fits [OF assms] heap_ok_def word_le_nat_alt by (auto simp: u rounded_even)
  assume "fst (malloc sz h) = Some p"
  then show "p = heap_ptr h \<and> unat p + rounded (unat sz) \<le> unat (heap_end h) \<and>
      unat (heap_ptr (snd (malloc sz h))) = unat p + rounded (unat sz)"
    unfolding malloc_fits [OF assms] by (auto simp: u split: if_splits)
qed

text \<open>A series of allocations, with the blocks that were granted.\<close>

fun malloc_all :: "u16 list \<Rightarrow> heap \<Rightarrow> (u16 \<times> nat) list \<times> heap" where
  "malloc_all [] h = ([], h)"
| "malloc_all (sz # szs) h =
    (let (r, h) = malloc sz h; (bs, h) = malloc_all szs h
     in (case r of None \<Rightarrow> bs | Some p \<Rightarrow> (p, unat sz) # bs, h))"

lemma malloc_all_blocks:
  assumes "heap_ok h" and "\<forall>sz \<in> set szs. unat (heap_end h) + rounded (unat sz) < 2 ^ 16"
  shows "heap_ok (snd (malloc_all szs h)) \<and>
    (\<forall>(p, n) \<in> set (fst (malloc_all szs h)). unat (heap_ptr h) \<le> unat p \<and> even (unat p) \<and> unat p + n \<le> unat (heap_end h)) \<and>
    sorted_wrt (\<lambda>a b. unat (fst a) + snd a \<le> unat (fst b)) (fst (malloc_all szs h))"
  using assms
proof (induction szs arbitrary: h)
  case (Cons sz szs)
  obtain r h' where m: "malloc sz h = (r, h')" by (cases "malloc sz h")
  have le: "unat (heap_ptr h) \<le> unat (heap_end h)" using Cons.prems(1) by (simp add: heap_ok_def word_le_nat_alt)
  have w: "unat (heap_ptr h) + rounded (unat sz) < 2 ^ 16"
    using Cons.prems(2) le by (simp add: order_le_less_trans [OF add_right_mono])
  then have "unat sz \<le> 0xFFFE" using rounded_ge [of "unat sz"] rounded_even [of "unat sz"]
    by (cases "rounded (unat sz) = 65535") auto
  note f = malloc_fits_inv [OF Cons.prems(1) this w, unfolded m, simplified]
  have IH: "heap_ok (snd (malloc_all szs h')) \<and>
    (\<forall>(p, n) \<in> set (fst (malloc_all szs h')). unat (heap_ptr h') \<le> unat p \<and> even (unat p) \<and> unat p + n \<le> unat (heap_end h')) \<and>
    sorted_wrt (\<lambda>a b. unat (fst a) + snd a \<le> unat (fst b)) (fst (malloc_all szs h'))"
    by (rule Cons.IH [OF f(1)]) (use Cons.prems(2) f(3) in simp)
  have sz: "unat sz \<le> rounded (unat sz)" by (rule rounded_ge)
  show ?case
  proof (cases r)
    case None
    then have "heap_ptr h' = heap_ptr h" using m by (auto simp: malloc_def Let_def split: if_splits)
    with IH None f(3) show ?thesis by (simp add: m split_beta)
  next
    case (Some p)
    from f(4) [OF this] have p: "p = heap_ptr h" "unat p + rounded (unat sz) \<le> unat (heap_end h)"
      "unat (heap_ptr h') = unat p + rounded (unat sz)" by blast+
    with IH Some f(3) Cons.prems(1) sz show ?thesis
      by (force simp: m split_beta heap_ok_def)
  qed
qed simp

lemma malloc_each:
  assumes "heap_ok h" and "\<forall>sz \<in> set szs. unat (heap_end h) + rounded (unat sz) < 2 ^ 16" and "i < length szs"
  defines "g \<equiv> snd (malloc_all (take i szs) h)"
  shows "malloc (szs ! i) g =
    (if unat (heap_ptr g) + rounded (unat (szs ! i)) \<le> unat (heap_end h)
     then (Some (heap_ptr g), g\<lparr>heap_ptr := heap_ptr g + of_nat (rounded (unat (szs ! i)))\<rparr>) else (None, g))"
proof -
  have end_eq: "heap_end (snd (malloc_all xs h)) = heap_end h" for xs
    by (induction xs arbitrary: h) (auto simp: malloc_def Let_def split_beta)
  have ok: "heap_ok g" unfolding g_def using assms(1,2) by (intro malloc_all_blocks [THEN conjunct1]) (auto dest: in_set_takeD)
  have e: "heap_end g = heap_end h" by (simp add: g_def end_eq)
  have b: "unat (heap_end h) + rounded (unat (szs ! i)) < 2 ^ 16" using assms(2,3) by simp
  have le: "unat (heap_ptr g) \<le> unat (heap_end h)" using ok e by (simp add: heap_ok_def word_le_nat_alt)
  have "unat (szs ! i) \<le> 0xFFFE" using b rounded_ge [of "unat (szs ! i)"] rounded_even [of "unat (szs ! i)"]
    by (cases "rounded (unat (szs ! i)) = 65535") auto
  from malloc_fits [OF ok this] show ?thesis using b le e by simp
qed

text \<open>
  C40. As long as no block would reach past the end of the address space, every call of a series of calls to
  \<open>malloc\<close> succeeds exactly when the size, rounded up to an even number, fits below the end of the heap; it then
  returns the allocator's pointer and moves it past the block, and otherwise fails and changes nothing. The
  blocks granted lie inside the heap, start at even addresses, hold the sizes asked for and do not overlap, and
  the allocator's pointer stays inside the heap.
\<close>

theorem malloc_disjoint:
  assumes "heap_ok h" and "\<forall>sz \<in> set szs. unat (heap_end h) + rounded (unat sz) < 2 ^ 16"
  shows "(\<forall>i < length szs. let g = snd (malloc_all (take i szs) h); n = rounded (unat (szs ! i))
      in malloc (szs ! i) g =
        (if unat (heap_ptr g) + n \<le> unat (heap_end h) then (Some (heap_ptr g), g\<lparr>heap_ptr := heap_ptr g + of_nat n\<rparr>) else (None, g))) \<and>
    heap_ok (snd (malloc_all szs h)) \<and>
    (\<forall>(p, n) \<in> set (fst (malloc_all szs h)). unat (heap_ptr h) \<le> unat p \<and> even (unat p) \<and> unat p + n \<le> unat (heap_end h)) \<and>
    sorted_wrt (\<lambda>a b. unat (fst a) + snd a \<le> unat (fst b)) (fst (malloc_all szs h))"
  using malloc_each [OF assms] malloc_all_blocks [OF assms] by (simp add: Let_def)

theorem malloc_disjoint_witness:
  "malloc 10 (snd (malloc_all [3, 4] \<lparr>heap_start = 0xA000, heap_end = 0xA010, heap_ptr = 0xA000\<rparr>)) =
    (None, \<lparr>heap_start = 0xA000, heap_end = 0xA010, heap_ptr = 0xA008\<rparr>) \<and>
   heap_ok (snd (malloc_all [3, 4, 10] \<lparr>heap_start = 0xA000, heap_end = 0xA010, heap_ptr = 0xA000\<rparr>))"
proof -
  define h where "h = \<lparr>heap_start = 0xA000, heap_end = 0xA010, heap_ptr = 0xA000\<rparr>"
  have g: "snd (malloc_all [3, 4] h) = \<lparr>heap_start = 0xA000, heap_end = 0xA010, heap_ptr = 0xA008\<rparr>"
    by (simp add: malloc_def h_def Let_def split_beta)
  have "heap_ok h" "\<forall>sz \<in> set [3, 4, 10 :: u16]. unat (heap_end h) + rounded (unat sz) < 2 ^ 16"
    by (simp_all add: h_def heap_ok_def rounded_def)
  note m = malloc_disjoint [OF this]
  have "malloc 10 (snd (malloc_all [3, 4] h)) = (None, snd (malloc_all [3, 4] h))"
    using m [THEN conjunct1, rule_format, of 2] by (simp add: Let_def g rounded_def h_def [THEN arg_cong [of _ _ heap_end]] del: malloc_all.simps)
  then have "malloc 10 (snd (malloc_all [3, 4] h)) = (None, \<lparr>heap_start = 0xA000, heap_end = 0xA010, heap_ptr = 0xA008\<rparr>)"
    by (simp only: g)
  then show ?thesis using m [THEN conjunct2, THEN conjunct1] unfolding h_def by (rule conjI)
qed

text \<open>
  A size that makes the end of the block wrap around is granted: the pointer of the allocator then leaves the
  heap and points below its start; and \<open>malloc\<close> of the largest size returns a block of no bytes.
\<close>

theorem malloc_wraps:
  "malloc 0x7000 \<lparr>heap_start = 0xA000, heap_end = 0xF000, heap_ptr = 0xA000\<rparr> =
    (Some 0xA000, \<lparr>heap_start = 0xA000, heap_end = 0xF000, heap_ptr = 0x1000\<rparr>) \<and>
   \<not> heap_ok (snd (malloc 0x7000 \<lparr>heap_start = 0xA000, heap_end = 0xF000, heap_ptr = 0xA000\<rparr>)) \<and>
   malloc 0xFFFF \<lparr>heap_start = 0xA000, heap_end = 0xF000, heap_ptr = 0xA000\<rparr> =
    (Some 0xA000, \<lparr>heap_start = 0xA000, heap_end = 0xF000, heap_ptr = 0xA000\<rparr>)"
  by (simp add: malloc_def heap_ok_def)

end
