(* ===== verification/Queue_Demo.thy ===== *)
theory Queue_Demo
  imports TMS_Prelude
begin

text \<open>
  The FreeRTOS demonstration \<^verbatim>\<open>src/FreeRTOS/main_queue.c\<close>: a manager task hands three work items to three
  worker tasks through a queue, and the four tasks meet at an event group after each round. The FreeRTOS
  kernel is not part of the repository: it is the parameter \<open>k\<close>, a record of operations on a kernel state, and
  the locale \<open>freertos\<close> states what the kernel documents of them.

  A task is a machine whose steps are the entry into a kernel call, the return from it and the accesses to shared
  variables in between. The relation \<open>step\<close> interleaves them: any task that can go on may go on next, whatever
  the priorities, and the clock may tick between any two steps. A call gives up after \<^verbatim>\<open>portMAX_DELAY\<close> ticks:
  \<^verbatim>\<open>FreeRTOSConfig.h\<close> sets \<^verbatim>\<open>INCLUDE_vTaskSuspend\<close> to 0, so that the 16-bit \<^verbatim>\<open>portMAX_DELAY\<close> is a time-out of
  65535 ticks and not an unbounded wait. A processor that never gets to run the tasks would let every call
  time out; the number \<open>L\<close> bounds how many ticks may come, between two increments of \<^verbatim>\<open>MARKER_ROUNDS\<close>, at moments when some
  task can go on. Ticks that find every task blocked are not counted.
\<close>

section \<open>The kernel\<close>

datatype worker = A | B | C
datatype demo_task = Worker worker | Manager

text \<open>The calls of the program, with their time-out last, and the ways in which a call returns.\<close>

datatype request = xQueueReceive u16 | xQueueSend u16 u16 | vTaskDelay u16 | xEventGroupSync u16 u16 u16
datatype reply = Received u16 | Returned | Expired

text \<open>
  The kernel is entered with \<open>invoke\<close>; \<open>answer\<close> lets a task return from its call, if the kernel does so in this state, and
  \<open>tick\<close> is the clock interrupt. The argument of \<open>create\<close> is the length of the queue.
\<close>

record 'k kernel =
  create :: "nat \<Rightarrow> 'k"
  invoke :: "demo_task \<Rightarrow> request \<Rightarrow> 'k \<Rightarrow> 'k"
  answer :: "demo_task \<Rightarrow> 'k \<Rightarrow> (reply \<times> 'k) option"
  tick :: "'k \<Rightarrow> 'k"

definition portMAX_DELAY :: u16 where
  "portMAX_DELAY = 0xFFFF"

section \<open>The program\<close>

fun xMyBit :: "worker \<Rightarrow> u16" where
  "xMyBit A = push_bit 0 1"
| "xMyBit B = push_bit 1 1"
| "xMyBit C = push_bit 2 1"

definition MANAGER_BIT :: u16 where
  "MANAGER_BIT = push_bit 3 1"

definition ALL_SYNC_BITS :: u16 where
  "ALL_SYNC_BITS = xMyBit A OR xMyBit B OR xMyBit C OR MANAGER_BIT"

definition lfsr_next :: "u16 \<Rightarrow> u16" where
  "lfsr_next lfsr_state =
    (let lsb = lfsr_state AND 1; lfsr_state = drop_bit 1 lfsr_state
     in if lsb \<noteq> 0 then lfsr_state XOR 0xB400 else lfsr_state)"

definition random_ticks :: "u16 \<Rightarrow> u16 \<times> u16" where
  "random_ticks lfsr_state = (let x = lfsr_next lfsr_state in (1 + x mod 6, x))"

text \<open>Where a task stands: at a statement, or in the call that the statement makes.\<close>

datatype worker_pc = At_Receive | In_Receive | At_Delay u16 | In_Delay | At_Count | At_Sync | In_Sync
datatype manager_pc = At_Item nat | At_Send nat u16 | In_Send nat | M_In_Sync | At_Round

record 'k demo =
  rounds :: u16
  marker :: "worker \<Rightarrow> u16"
  lfsr :: u16
  kern :: 'k
  wpc :: "worker \<Rightarrow> worker_pc"
  mpc :: manager_pc

definition demo_main :: "'k kernel \<Rightarrow> 'k demo" where
  "demo_main k = \<lparr>rounds = 0, marker = \<lambda>_. 0, lfsr = 0xACE1, kern = create k 8, wpc = \<lambda>_. At_Receive, mpc = At_Item 0\<rparr>"

definition vWorkerTask :: "'k kernel \<Rightarrow> worker \<Rightarrow> 'k demo \<Rightarrow> 'k demo option" where
  "vWorkerTask k w s =
    (let call = (\<lambda>r p. Some (s\<lparr>kern := invoke k (Worker w) r (kern s), wpc := (wpc s)(w := p)\<rparr>));
         return = (\<lambda>p. map_option (\<lambda>(r, q). s\<lparr>kern := q, wpc := (wpc s)(w := p r)\<rparr>) (answer k (Worker w) (kern s)))
     in case wpc s w of
          At_Receive \<Rightarrow> call (xQueueReceive portMAX_DELAY) In_Receive
        | In_Receive \<Rightarrow> return (\<lambda>r. case r of Received usTicks \<Rightarrow> At_Delay usTicks | _ \<Rightarrow> At_Sync)
        | At_Delay usTicks \<Rightarrow> call (vTaskDelay usTicks) In_Delay
        | In_Delay \<Rightarrow> return (\<lambda>_. At_Count)
        | At_Count \<Rightarrow> Some (s\<lparr>marker := (marker s)(w := marker s w + 1), wpc := (wpc s)(w := At_Sync)\<rparr>)
        | At_Sync \<Rightarrow> call (xEventGroupSync (xMyBit w) ALL_SYNC_BITS portMAX_DELAY) In_Sync
        | In_Sync \<Rightarrow> return (\<lambda>_. At_Receive))"

definition vManagerTask :: "'k kernel \<Rightarrow> 'k demo \<Rightarrow> 'k demo option" where
  "vManagerTask k s =
    (let call = (\<lambda>r p. Some (s\<lparr>kern := invoke k Manager r (kern s), mpc := p\<rparr>));
         return = (\<lambda>p. map_option (\<lambda>(r, q). s\<lparr>kern := q, mpc := p\<rparr>) (answer k Manager (kern s)))
     in case mpc s of
          At_Item i \<Rightarrow>
            if i < 3 then (let (usTicks, x) = random_ticks (lfsr s) in Some (s\<lparr>lfsr := x, mpc := At_Send i usTicks\<rparr>))
            else call (xEventGroupSync MANAGER_BIT ALL_SYNC_BITS portMAX_DELAY) M_In_Sync
        | At_Send i usTicks \<Rightarrow> call (xQueueSend usTicks portMAX_DELAY) (In_Send i)
        | In_Send i \<Rightarrow> return (At_Item (Suc i))
        | M_In_Sync \<Rightarrow> return At_Round
        | At_Round \<Rightarrow> Some (s\<lparr>rounds := rounds s + 1, mpc := At_Item 0\<rparr>))"

section \<open>Interleaving\<close>

definition go :: "'k kernel \<Rightarrow> demo_task \<Rightarrow> 'k demo \<Rightarrow> 'k demo option" where
  "go k t s = (case t of Worker w \<Rightarrow> vWorkerTask k w s | Manager \<Rightarrow> vManagerTask k s)"

definition clock :: "'k kernel \<Rightarrow> 'k demo \<Rightarrow> 'k demo" where
  "clock k s = s\<lparr>kern := tick k (kern s)\<rparr>"

definition blocked :: "'k kernel \<Rightarrow> 'k demo \<Rightarrow> bool" where
  "blocked k s \<longleftrightarrow> list_all (\<lambda>t. go k t s = None) [Worker A, Worker B, Worker C, Manager]"

text \<open>The number beside the state counts the late ticks since the last increment of \<^verbatim>\<open>MARKER_ROUNDS\<close>.\<close>

inductive step :: "'k kernel \<Rightarrow> nat \<Rightarrow> nat \<times> 'k demo \<Rightarrow> nat \<times> 'k demo \<Rightarrow> bool" for k L where
  task: "go k t s = Some s' \<Longrightarrow> step k L (l, s) (if rounds s' = rounds s then l else 0, s')"
| idle_tick: "blocked k s \<Longrightarrow> step k L (l, s) (l, clock k s)"
| late_tick: "\<not> blocked k s \<Longrightarrow> l < L \<Longrightarrow> step k L (l, s) (Suc l, clock k s)"

inductive reach :: "'k kernel \<Rightarrow> nat \<Rightarrow> nat \<times> 'k demo \<Rightarrow> bool" for k L where
  start: "reach k L (0, demo_main k)"
| run: "reach k L x \<Longrightarrow> step k L x y \<Longrightarrow> reach k L y"

inductive_simps step_iff: "step k L (l, s) y"

section \<open>What the kernel promises\<close>

text \<open>
  The documented state of the kernel: the items of the queue and its length, the bits of the event group, and for each task
  whether it runs, waits in a call (and for how many ticks it has done so), or has been released from the event group.
\<close>

datatype status = Running | Waiting request nat | Released

record kernel_view =
  items :: "u16 list"
  capacity :: nat
  bits :: u16
  status :: "demo_task \<Rightarrow> status"

fun is_sync :: "request \<Rightarrow> bool" where
  "is_sync (xEventGroupSync _ _ _) = True"
| "is_sync _ = False"

fun at_sync :: "status \<Rightarrow> bool" where
  "at_sync (Waiting r n) = is_sync r"
| "at_sync _ = False"

fun ticked :: "status \<Rightarrow> status" where
  "ticked (Waiting r n) = Waiting r (Suc n)"
| "ticked st = st"

definition set_status :: "demo_task \<Rightarrow> status \<Rightarrow> kernel_view \<Rightarrow> kernel_view" where
  "set_status t st v = v\<lparr>status := (status v)(t := st)\<rparr>"

text \<open>
  A call enters the kernel and waits there. A receive returns the first item of the queue; when several tasks wait for an item,
  the kernel chooses which of them returns. A send returns when there is room and no other task waits to send, a delay
  after its number of ticks; receive and send give up at their time-out. A synchronisation sets the bits of its caller; when
  all bits it waits for are set, it clears them and releases its caller and the tasks that wait for them, and it gives up
  at its time-out otherwise. A tick makes every waiting task older.
\<close>

locale freertos =
  fixes k :: "'k kernel" and view :: "'k \<Rightarrow> kernel_view"
  assumes created: "view (create k n) = \<lparr>items = [], capacity = n, bits = 0, status = \<lambda>_. Running\<rparr>"
    and entered: "status (view s) t = Running \<Longrightarrow> \<not> is_sync r \<Longrightarrow> view (invoke k t r s) = set_status t (Waiting r 0) (view s)"
    and arrives: "status (view s) t = Running \<Longrightarrow> (bits (view s) OR b) AND m \<noteq> m \<Longrightarrow>
      view (invoke k t (xEventGroupSync b m d) s) =
        set_status t (Waiting (xEventGroupSync b m d) 0) (view s\<lparr>bits := bits (view s) OR b\<rparr>)"
    and completes: "status (view s) t = Running \<Longrightarrow> (bits (view s) OR b) AND m = m \<Longrightarrow>
      (\<And>u b' m' d' n. status (view s) u = Waiting (xEventGroupSync b' m' d') n \<Longrightarrow> m' = m) \<Longrightarrow>
      view (invoke k t (xEventGroupSync b m d) s) =
        view s\<lparr>bits := (bits (view s) OR b) AND NOT m,
               status := \<lambda>u. if u = t \<or> at_sync (status (view s) u) then Released else status (view s) u\<rparr>"
    and received: "status (view s) t = Waiting (xQueueReceive d) n \<Longrightarrow> items (view s) = x # xs \<Longrightarrow> n < unat d \<Longrightarrow>
      answer k t s = Some (a, s') \<Longrightarrow> a = Received x \<and> view s' = set_status t Running (view s\<lparr>items := xs\<rparr>)"
    and receive_ready: "status (view s) t = Waiting (xQueueReceive d) n \<Longrightarrow> items (view s) \<noteq> [] \<Longrightarrow>
      \<exists>u d' n'. status (view s) u = Waiting (xQueueReceive d') n' \<and> answer k u s \<noteq> None"
    and receive_waits: "status (view s) t = Waiting (xQueueReceive d) n \<Longrightarrow> items (view s) = [] \<Longrightarrow> n < unat d \<Longrightarrow> answer k t s = None"
    and receive_expires: "status (view s) t = Waiting (xQueueReceive d) n \<Longrightarrow> items (view s) = [] \<Longrightarrow> unat d \<le> n \<Longrightarrow>
      \<exists>s'. answer k t s = Some (Expired, s') \<and> view s' = set_status t Running (view s)"
    and sent_item: "status (view s) t = Waiting (xQueueSend x d) n \<Longrightarrow> length (items (view s)) < capacity (view s) \<Longrightarrow>
      (\<And>u y d' n'. status (view s) u = Waiting (xQueueSend y d') n' \<Longrightarrow> u = t) \<Longrightarrow>
      \<exists>s'. answer k t s = Some (Returned, s') \<and> view s' = set_status t Running (view s\<lparr>items := items (view s) @ [x]\<rparr>)"
    and send_waits: "status (view s) t = Waiting (xQueueSend x d) n \<Longrightarrow> capacity (view s) \<le> length (items (view s)) \<Longrightarrow> n < unat d \<Longrightarrow>
      answer k t s = None"
    and send_expires: "status (view s) t = Waiting (xQueueSend x d) n \<Longrightarrow> capacity (view s) \<le> length (items (view s)) \<Longrightarrow> unat d \<le> n \<Longrightarrow>
      \<exists>s'. answer k t s = Some (Expired, s') \<and> view s' = set_status t Running (view s)"
    and delayed: "status (view s) t = Waiting (vTaskDelay u) n \<Longrightarrow> unat u \<le> n \<Longrightarrow>
      \<exists>s'. answer k t s = Some (Returned, s') \<and> view s' = set_status t Running (view s)"
    and delay_waits: "status (view s) t = Waiting (vTaskDelay u) n \<Longrightarrow> n < unat u \<Longrightarrow> answer k t s = None"
    and synced: "status (view s) t = Released \<Longrightarrow> \<exists>s'. answer k t s = Some (Returned, s') \<and> view s' = set_status t Running (view s)"
    and sync_waits: "status (view s) t = Waiting (xEventGroupSync b m d) n \<Longrightarrow> n < unat d \<Longrightarrow> answer k t s = None"
    and sync_expires: "status (view s) t = Waiting (xEventGroupSync b m d) n \<Longrightarrow> unat d \<le> n \<Longrightarrow>
      \<exists>s'. answer k t s = Some (Expired, s') \<and> view s' = set_status t Running (view s)"
    and ticks: "view (tick k s) = view s\<lparr>status := ticked \<circ> status (view s)\<rparr>"

section \<open>The invariant\<close>

text \<open>
  A worker is \<open>fresh\<close> until it has an item, \<open>finished\<close> when it has counted it, and \<open>waits\<close> at the rendezvous. The round is
  over for the manager (\<open>m_over\<close>) from its release to the increment of the rounds, and \<open>sent\<close> items of the round are out.
  A position is a place in the program with the status of the task.
\<close>

type_synonym worker_position = "worker_pc \<times> status"
type_synonym manager_position = "manager_pc \<times> status"

fun fresh :: "worker_position \<Rightarrow> bool" where
  "fresh (At_Receive, st) = True" | "fresh (In_Receive, st) = True" | "fresh (In_Sync, st) = (st = Released)"
| "fresh (At_Delay u, st) = False" | "fresh (In_Delay, st) = False" | "fresh (At_Count, st) = False" | "fresh (At_Sync, st) = False"

fun waits :: "worker_position \<Rightarrow> bool" where
  "waits (In_Sync, st) = (st \<noteq> Released)"
| "waits (At_Receive, st) = False" | "waits (In_Receive, st) = False" | "waits (At_Delay u, st) = False"
| "waits (In_Delay, st) = False" | "waits (At_Count, st) = False" | "waits (At_Sync, st) = False"

definition finished :: "worker_position \<Rightarrow> bool" where
  "finished q \<longleftrightarrow> waits q \<or> fst q = At_Sync"

fun m_waits :: "manager_position \<Rightarrow> bool" where
  "m_waits (M_In_Sync, st) = (st \<noteq> Released)"
| "m_waits (At_Item i, st) = False" | "m_waits (At_Send i u, st) = False" | "m_waits (In_Send i, st) = False" | "m_waits (At_Round, st) = False"

fun m_over :: "manager_position \<Rightarrow> bool" where
  "m_over (M_In_Sync, st) = (st = Released)"
| "m_over (At_Round, st) = True"
| "m_over (At_Item i, st) = False" | "m_over (At_Send i u, st) = False" | "m_over (In_Send i, st) = False"

fun sent :: "manager_position \<Rightarrow> nat" where
  "sent (At_Item i, st) = i" | "sent (At_Send i u, st) = i" | "sent (In_Send i, st) = i"
| "sent (M_In_Sync, st) = (if st = Released then 0 else 3)" | "sent (At_Round, st) = 0"

text \<open>
  A task runs at a statement and waits in a call, here for at most \<open>a\<close> ticks. Of the ticks of a round, \<open>i\<close> found every task
  blocked: no such tick comes before every worker is in its delay, so that \<open>i\<close> and what is left of a delay are at most six.
\<close>

fun left :: "status \<Rightarrow> nat" where
  "left (Waiting (vTaskDelay u) n) = unat u - n"
| "left _ = 0"

fun w_ok :: "nat \<Rightarrow> nat \<Rightarrow> worker \<Rightarrow> worker_position \<Rightarrow> bool" where
  "w_ok a i w (At_Receive, st) \<longleftrightarrow> st = Running \<and> i = 0"
| "w_ok a i w (In_Receive, st) \<longleftrightarrow> (\<exists>n\<le>a. st = Waiting (xQueueReceive portMAX_DELAY) n) \<and> i = 0"
| "w_ok a i w (At_Delay u, st) \<longleftrightarrow> st = Running \<and> i = 0 \<and> unat u \<in> {1..6}"
| "w_ok a i w (In_Delay, st) \<longleftrightarrow> (\<exists>u. \<exists>n\<le>a. st = Waiting (vTaskDelay u) n \<and> unat u \<le> 6) \<and> i + left st \<le> 6"
| "w_ok a i w (At_Count, st) \<longleftrightarrow> st = Running"
| "w_ok a i w (At_Sync, st) \<longleftrightarrow> st = Running"
| "w_ok a i w (In_Sync, st) \<longleftrightarrow> st = Released \<and> i = 0 \<or> (\<exists>n\<le>a. st = Waiting (xEventGroupSync (xMyBit w) ALL_SYNC_BITS portMAX_DELAY) n)"

fun m_ok :: "nat \<Rightarrow> nat \<Rightarrow> manager_position \<Rightarrow> bool" where
  "m_ok a i (At_Item j, st) \<longleftrightarrow> st = Running \<and> i = 0"
| "m_ok a i (At_Send j u, st) \<longleftrightarrow> st = Running \<and> i = 0 \<and> j < 3 \<and> unat u \<in> {1..6}"
| "m_ok a i (In_Send j, st) \<longleftrightarrow> (\<exists>u. \<exists>n\<le>a. st = Waiting (xQueueSend u portMAX_DELAY) n \<and> unat u \<in> {1..6}) \<and> i = 0 \<and> j < 3"
| "m_ok a i (M_In_Sync, st) \<longleftrightarrow>
    st = Released \<and> i = 0 \<or> (\<exists>n\<le>a. st = Waiting (xEventGroupSync MANAGER_BIT ALL_SYNC_BITS portMAX_DELAY) n)"
| "m_ok a i (At_Round, st) \<longleftrightarrow> st = Running \<and> i = 0"

definition taken :: "(worker \<Rightarrow> worker_position) \<Rightarrow> nat" where
  "taken W = of_bool (\<not> fresh (W A)) + of_bool (\<not> fresh (W B)) + of_bool (\<not> fresh (W C))"

definition bits4 :: "bool \<Rightarrow> bool \<Rightarrow> bool \<Rightarrow> bool \<Rightarrow> u16" where
  "bits4 a b c d = (if a then 1 else 0) OR (if b then 2 else 0) OR (if c then 4 else 0) OR (if d then 8 else 0)"

definition arrived :: "(worker \<Rightarrow> worker_position) \<Rightarrow> manager_position \<Rightarrow> u16" where
  "arrived W G = bits4 (waits (W A)) (waits (W B)) (waits (W C)) (m_waits G)"

text \<open>
  The invariant on the rounds \<open>R\<close>, the markers \<open>M\<close>, the positions \<open>W\<close> and \<open>G\<close>, the queue \<open>xs\<close> and the event bits \<open>b\<close>. Of the
  ticks a call has waited, \<open>i\<close> found all tasks blocked, \<open>l\<close> were late ones since the rounds were counted, and \<open>c\<close> late ones before.
\<close>

definition demo_inv ::
  "nat \<Rightarrow> nat \<Rightarrow> nat \<Rightarrow> nat \<Rightarrow> u16 \<Rightarrow> (worker \<Rightarrow> u16) \<Rightarrow> (worker \<Rightarrow> worker_position) \<Rightarrow> manager_position \<Rightarrow> u16 list \<Rightarrow> u16 \<Rightarrow> bool" where
  "demo_inv L i l c R M W G xs b \<longleftrightarrow> i \<le> 6 \<and> l \<le> L \<and> c \<le> L \<and> (m_over G \<longrightarrow> c = 0) \<and>
    (\<forall>w. M w = R + of_bool (m_over G) + of_bool (finished (W w))) \<and>
    b = arrived W G \<and> b \<noteq> ALL_SYNC_BITS \<and>
    length xs + taken W = sent G \<and> sent G \<le> 3 \<and> (\<forall>t \<in> set xs. unat t \<in> {1..6}) \<and>
    (\<forall>w. w_ok (i + l + c) i w (W w)) \<and> m_ok (i + l + c) i G"

lemma all_worker: "(\<forall>w. P w) \<longleftrightarrow> P A \<and> P B \<and> P C"
  using worker.exhaust by metis

lemma all_bits: "ALL_SYNC_BITS = 15" "MANAGER_BIT = 8" "xMyBit A = 1" "xMyBit B = 2" "xMyBit C = 4"
  by (simp_all add: ALL_SYNC_BITS_def MANAGER_BIT_def)

lemma bits4_sync:
  "(bits4 False b c d OR 1) AND 15 = 15 \<longleftrightarrow> b \<and> c \<and> d" "bits4 False b c d OR 1 = bits4 True b c d"
  "(bits4 a False c d OR 2) AND 15 = 15 \<longleftrightarrow> a \<and> c \<and> d" "bits4 a False c d OR 2 = bits4 a True c d"
  "(bits4 a b False d OR 4) AND 15 = 15 \<longleftrightarrow> a \<and> b \<and> d" "bits4 a b False d OR 4 = bits4 a b True d"
  "(bits4 a b c False OR 8) AND 15 = 15 \<longleftrightarrow> a \<and> b \<and> c" "bits4 a b c False OR 8 = bits4 a b c True"
  "bits4 a b c d AND NOT 15 = 0" "bits4 a b c d AND 15 = 15 \<longleftrightarrow> a \<and> b \<and> c \<and> d" "bits4 a b c d = 15 \<longleftrightarrow> a \<and> b \<and> c \<and> d" "bits4 False False False False = 0"
  by (cases a; cases b; cases c; cases d; simp add: bits4_def)+

lemma waits_not_fresh: "waits q \<Longrightarrow> \<not> fresh q"
  by (cases q rule: waits.cases) simp_all

lemma finished_not_fresh: "finished q \<Longrightarrow> \<not> fresh q"
  by (cases q rule: waits.cases) (simp_all add: finished_def)

lemma m_waits_not_over: "m_waits G \<Longrightarrow> \<not> m_over G \<and> sent G = 3"
  by (cases G rule: m_waits.cases) simp_all

lemma taken_upd: "taken (W(w := q)) + of_bool (\<not> fresh (W w)) = taken W + of_bool (\<not> fresh q)"
  by (cases w) (simp_all add: taken_def)

lemma taken_all: "(\<And>w. \<not> fresh (W w)) \<Longrightarrow> taken W = 3"
  by (simp add: taken_def)

lemma taken_less: "fresh (W w) \<Longrightarrow> taken W < 3"
  by (cases w) (simp_all add: taken_def)

lemma taken_none: "taken W = 0 \<Longrightarrow> fresh (W w)"
  by (cases w) (simp_all add: taken_def)

text \<open>The event bit of a task completes the rendezvous if and only if all the others wait.\<close>

lemma worker_bit:
  assumes "\<not> waits (W w)"
  shows "waits q \<Longrightarrow> arrived W G OR xMyBit w = arrived (W(w := q)) G"
    and "(arrived W G OR xMyBit w) AND ALL_SYNC_BITS = ALL_SYNC_BITS \<longleftrightarrow> (\<forall>v. v \<noteq> w \<longrightarrow> waits (W v)) \<and> m_waits G"
  using assms by (cases w; simp_all add: arrived_def bits4_sync all_bits all_worker)+

lemma manager_bit:
  assumes "\<not> m_waits G"
  shows "m_waits q \<Longrightarrow> arrived W G OR MANAGER_BIT = arrived W q"
    and "(arrived W G OR MANAGER_BIT) AND ALL_SYNC_BITS = ALL_SYNC_BITS \<longleftrightarrow> (\<forall>v. waits (W v))"
  using assms by (simp_all add: arrived_def bits4_sync all_bits all_worker)

lemma arrived_full: "arrived W G = ALL_SYNC_BITS \<longleftrightarrow> (\<forall>v. waits (W v)) \<and> m_waits G"
  by (simp add: arrived_def bits4_sync all_bits all_worker)

lemma arrived_cong: "waits q = waits (W w) \<Longrightarrow> arrived (W(w := q)) G = arrived W G"
  by (cases w) (simp_all add: arrived_def)

lemma arrived_clear: "(arrived W G OR xMyBit w) AND NOT ALL_SYNC_BITS = 0" "(arrived W G OR MANAGER_BIT) AND NOT ALL_SYNC_BITS = 0"
  by (cases "waits (W A)"; cases "waits (W B)"; cases "waits (W C)"; cases "m_waits G"; cases w; simp add: arrived_def bits4_def all_bits)+

lemma random_ticks_range: "unat (fst (random_ticks x)) \<in> {1..6}"
proof -
  have "unat (lfsr_next x mod 6) < 6" by (simp add: unat_mod)
  then have "unat (1 + lfsr_next x mod 6) = Suc (unat (lfsr_next x mod 6))"
    by (simp add: unat_word_ariths)
  with \<open>unat (lfsr_next x mod 6) < 6\<close> show ?thesis by (simp add: random_ticks_def Let_def del: unat_mod)
qed

lemma max_delay: "unat portMAX_DELAY = 65535"
  by (simp add: portMAX_DELAY_def)

section \<open>Steps on positions\<close>

lemma inv_worker:
  assumes inv: "demo_inv L i l c R M W G xs b" and "w_ok (i + l + c) i w q" and "waits q = waits (W w)"
    and "m + of_bool (finished (W w)) = M w + of_bool (finished q)"
    and "length ys + of_bool (\<not> fresh q) = length xs + of_bool (\<not> fresh (W w))" and "set ys \<subseteq> set xs"
  shows "demo_inv L i l c R (M(w := m)) (W(w := q)) G ys b"
proof -
  have "m = R + of_bool (m_over G) + of_bool (finished q)"
  proof -
    have "M w = R + of_bool (m_over G) + of_bool (finished (W w))" using inv by (simp add: demo_inv_def)
    then show ?thesis using assms(4) by (simp add: algebra_simps)
  qed
  moreover have "length ys + taken (W(w := q)) = length xs + taken W" using taken_upd [of W w q] assms(5) by linarith
  ultimately show ?thesis using inv assms(2,6) by (auto simp: demo_inv_def arrived_cong [where W = W and w = w and q = q, OF assms(3)])
qed

lemma inv_manager:
  assumes "demo_inv L i l c R M W G xs b" and "m_ok (i + l + c) i q" and "m_waits q = m_waits G" and "m_over q = m_over G"
    and "length ys + sent G = length xs + sent q" and "sent q \<le> 3" and "\<And>t. t \<in> set ys \<Longrightarrow> unat t \<in> {1..6}"
  shows "demo_inv L i l c R M W q ys b"
  using assms unfolding demo_inv_def arrived_def by auto

lemma inv_round:
  assumes inv: "demo_inv L i l c R M W (At_Round, st) xs b"
  shows "demo_inv L 0 0 l (R + 1) M W (At_Item 0, Running) xs b"
proof -
  have "i = 0" "c = 0" using inv by (simp_all add: demo_inv_def)
  then show ?thesis using inv by (auto simp: demo_inv_def arrived_def)
qed

lemma inv_worker_arrives:
  assumes inv: "demo_inv L i l c R M W G xs b" and at: "W w = (At_Sync, Running)"
    and "(b OR xMyBit w) AND ALL_SYNC_BITS \<noteq> ALL_SYNC_BITS"
  shows "demo_inv L i l c R M (W(w := (In_Sync, Waiting (xEventGroupSync (xMyBit w) ALL_SYNC_BITS portMAX_DELAY) 0))) G xs (b OR xMyBit w)"
proof -
  let ?q = "(In_Sync, Waiting (xEventGroupSync (xMyBit w) ALL_SYNC_BITS portMAX_DELAY) 0)"
  have b: "b = arrived W G" using inv by (simp add: demo_inv_def)
  have nw: "\<not> waits (W w)" "waits ?q" using at by simp_all
  have a: "b OR xMyBit w = arrived (W(w := ?q)) G" unfolding b by (rule worker_bit(1) [where W = W, OF nw])
  have "b OR xMyBit w \<noteq> ALL_SYNC_BITS" using assms(3) by auto
  moreover have "taken (W(w := ?q)) = taken W" using taken_upd [of W w ?q] at by simp
  ultimately show ?thesis using inv at a by (auto simp: demo_inv_def finished_def)
qed

lemma inv_manager_arrives:
  assumes inv: "demo_inv L i l c R M W (At_Item 3, st) xs b" and "(b OR MANAGER_BIT) AND ALL_SYNC_BITS \<noteq> ALL_SYNC_BITS"
  shows "demo_inv L i l c R M W (M_In_Sync, Waiting (xEventGroupSync MANAGER_BIT ALL_SYNC_BITS portMAX_DELAY) 0) xs (b OR MANAGER_BIT)"
proof -
  let ?q = "(M_In_Sync, Waiting (xEventGroupSync MANAGER_BIT ALL_SYNC_BITS portMAX_DELAY) 0)"
  have b: "b = arrived W (At_Item 3, st)" using inv by (simp add: demo_inv_def)
  have "b OR MANAGER_BIT = arrived W ?q" unfolding b by (rule manager_bit(1)) simp_all
  moreover have "b OR MANAGER_BIT \<noteq> ALL_SYNC_BITS" using assms(2) by auto
  ultimately show ?thesis using inv by (auto simp: demo_inv_def)
qed

lemma inv_completes:
  assumes inv: "demo_inv L i l c R M W G xs b" and "\<And>w. finished (W w)" and "\<not> m_over G"
  shows "demo_inv L 0 l 0 R M (\<lambda>_. (In_Sync, Released)) (M_In_Sync, Released) xs 0"
proof -
  have "taken W = 3" using finished_not_fresh [OF assms(2)] by (rule taken_all)
  then have "length xs + 3 = sent G" "sent G \<le> 3" using inv by (simp_all add: demo_inv_def)
  then have "length xs = 0" "sent G = 3" by linarith+
  then have "xs = []" "sent G = 3" by simp_all
  moreover have "M w = R + 1" for w using inv assms(2,3) by (simp add: demo_inv_def)
  ultimately show ?thesis using inv
    by (simp add: demo_inv_def taken_def arrived_def bits4_sync all_bits finished_def)
qed

text \<open>The clock changes the positions of the tasks that wait.\<close>

definition aged :: "'p \<times> status \<Rightarrow> 'p \<times> status" where
  "aged q = (fst q, ticked (snd q))"

lemma ticked_released: "ticked st = Released \<longleftrightarrow> st = Released" "ticked st = Running \<longleftrightarrow> st = Running"
  by (cases st; simp)+

lemma aged_same:
  "waits (aged q) = waits q" "fresh (aged q) = fresh q" "finished (aged q) = finished q"
  "m_waits (aged G) = m_waits G" "m_over (aged G) = m_over G" "sent (aged G) = sent G"
proof -
  show w: "waits (aged q) = waits q" by (cases q rule: waits.cases) (simp_all add: aged_def ticked_released)
  show "fresh (aged q) = fresh q" by (cases q rule: fresh.cases) (simp_all add: aged_def ticked_released)
  show "finished (aged q) = finished q" unfolding finished_def w by (simp add: aged_def)
  show "m_waits (aged G) = m_waits G" by (cases G rule: m_waits.cases) (simp_all add: aged_def ticked_released)
  show "m_over (aged G) = m_over G" by (cases G rule: m_over.cases) (simp_all add: aged_def ticked_released)
  show "sent (aged G) = sent G" by (cases G rule: sent.cases) (simp_all add: aged_def ticked_released)
qed

lemma w_ok_aged: "w_ok a i w q \<Longrightarrow> w_ok (Suc a) i w (aged q)"
  by (cases q rule: fresh.cases) (auto simp: aged_def)

lemma m_ok_aged: "m_ok a i G \<Longrightarrow> m_ok (Suc a) i (aged G)"
  by (cases G rule: m_waits.cases) (auto simp: aged_def)

lemma inv_late:
  assumes "demo_inv L i l c R M W G xs b" and "l < L"
  shows "demo_inv L i (Suc l) c R M (aged \<circ> W) (aged G) xs b"
  using assms w_ok_aged [of "i + l + c" i] m_ok_aged [of "i + l + c" i G]
  by (auto simp: demo_inv_def aged_same arrived_def taken_def)

text \<open>A worker that the clock can find when every task is blocked.\<close>

definition w_blocked :: "worker_position \<Rightarrow> bool" where
  "w_blocked q \<longleftrightarrow> waits q \<or> fst q = In_Delay \<and> 0 < left (snd q)"

lemma w_ok_idle: "w_ok a i w q \<Longrightarrow> w_blocked q \<Longrightarrow> w_ok (Suc a) (Suc i) w (aged q)"
  by (cases q rule: fresh.cases) (auto simp: aged_def w_blocked_def)

lemma m_ok_idle: "m_ok a i G \<Longrightarrow> m_waits G \<Longrightarrow> m_ok (Suc a) (Suc i) (aged G)"
  by (cases G rule: m_waits.cases) (auto simp: aged_def)

lemma blocked_delay:
  assumes inv: "demo_inv L i l c R M W G xs b" and "m_waits G" and "\<And>w. w_blocked (W w)"
  obtains w where "fst (W w) = In_Delay" and "0 < left (snd (W w))" and "i + left (snd (W w)) \<le> 6"
proof -
  have "arrived W G \<noteq> ALL_SYNC_BITS" using inv by (auto simp: demo_inv_def)
  then obtain w where "\<not> waits (W w)" using assms(2) by (auto simp: arrived_full)
  then have d: "fst (W w) = In_Delay" "0 < left (snd (W w))" using assms(3) [of w] by (simp_all add: w_blocked_def)
  moreover have "w_ok (i + l + c) i w (W w)" using inv by (simp add: demo_inv_def)
  then have "i + left (snd (W w)) \<le> 6" using d(1) by (cases "W w") simp
  ultimately show ?thesis by (rule that)
qed

lemma inv_idle:
  assumes inv: "demo_inv L i l c R M W G xs b" and "m_waits G" and "\<And>w. w_blocked (W w)"
  shows "demo_inv L (Suc i) l c R M (aged \<circ> W) (aged G) xs b"
proof -
  obtain w where "0 < left (snd (W w))" "i + left (snd (W w)) \<le> 6" using blocked_delay [OF assms] by blast
  then show ?thesis
    using inv w_ok_idle [OF _ assms(3), of "i + l + c" i] m_ok_idle [OF _ assms(2), of "i + l + c" i]
    by (auto simp: demo_inv_def aged_same arrived_def taken_def)
qed

section \<open>Steps of the program\<close>

definition worker_position :: "('k \<Rightarrow> kernel_view) \<Rightarrow> 'k demo \<Rightarrow> worker \<Rightarrow> worker_position" where
  "worker_position view s w = (wpc s w, status (view (kern s)) (Worker w))"

definition manager_position :: "('k \<Rightarrow> kernel_view) \<Rightarrow> 'k demo \<Rightarrow> manager_position" where
  "manager_position view s = (mpc s, status (view (kern s)) Manager)"

definition good :: "('k \<Rightarrow> kernel_view) \<Rightarrow> nat \<Rightarrow> nat \<Rightarrow> nat \<Rightarrow> nat \<Rightarrow> 'k demo \<Rightarrow> bool" where
  "good view L i l c s \<longleftrightarrow> capacity (view (kern s)) = 8 \<and>
    demo_inv L i l c (rounds s) (marker s) (worker_position view s) (manager_position view s) (items (view (kern s))) (bits (view (kern s)))"

lemma good_worker: "good view L i l c s \<Longrightarrow> w_ok (i + l + c) i w (wpc s w, status (view (kern s)) (Worker w))"
  by (simp add: good_def demo_inv_def worker_position_def)

lemma good_manager: "good view L i l c s \<Longrightarrow> m_ok (i + l + c) i (mpc s, status (view (kern s)) Manager)"
  by (simp add: good_def demo_inv_def manager_position_def)

lemma good_inv: "good view L i l c s \<Longrightarrow>
    demo_inv L i l c (rounds s) (marker s) (worker_position view s) (manager_position view s) (items (view (kern s))) (bits (view (kern s)))"
  by (simp add: good_def)

lemma good_waits: "good view L i l c s \<Longrightarrow> i + l + c \<le> 6 + 2 * L"
  by (simp add: good_def demo_inv_def)

text \<open>Positions after a step of one task.\<close>

lemma worker_position_upd:
  assumes "status (view q) = (status (view (kern s)))(Worker w := st)"
  shows "worker_position view (s\<lparr>kern := q, wpc := (wpc s)(w := p)\<rparr>) = (worker_position view s)(w := (p, st))"
    and "manager_position view (s\<lparr>kern := q, wpc := (wpc s)(w := p)\<rparr>) = manager_position view s"
  using assms by (auto simp: worker_position_def manager_position_def)

lemma manager_position_upd:
  assumes "status (view q) = (status (view (kern s)))(Manager := st)"
  shows "manager_position view (s\<lparr>kern := q, mpc := p\<rparr>) = (p, st)"
    and "worker_position view (s\<lparr>kern := q, mpc := p\<rparr>) = worker_position view s"
  using assms by (auto simp: worker_position_def manager_position_def)

text \<open>What is left to do until the rounds are counted: every step of a task makes it smaller.\<close>

fun w_todo :: "worker_position \<Rightarrow> nat" where
  "w_todo (At_Receive, st) = 12" | "w_todo (In_Receive, st) = 11" | "w_todo (At_Delay u, st) = 4 + unat u"
| "w_todo (In_Delay, st) = 3 + left st" | "w_todo (At_Count, st) = 2" | "w_todo (At_Sync, st) = 1"
| "w_todo (In_Sync, st) = (if st = Released then 13 else 0)"

fun m_todo :: "manager_position \<Rightarrow> nat" where
  "m_todo (At_Item i, st) = 3 * (3 - i) + 1" | "m_todo (At_Send i u, st) = 3 * (3 - i)" | "m_todo (In_Send i, st) = 3 * (3 - i) - 1"
| "m_todo (M_In_Sync, st) = (if st = Released then 2 else 0)" | "m_todo (At_Round, st) = 1"

definition todo :: "('k \<Rightarrow> kernel_view) \<Rightarrow> 'k demo \<Rightarrow> nat" where
  "todo view s = (if m_over (manager_position view s) then 0 else 41) + m_todo (manager_position view s) +
    w_todo (worker_position view s A) + w_todo (worker_position view s B) + w_todo (worker_position view s C)"

definition moved :: "('k \<Rightarrow> kernel_view) \<Rightarrow> nat \<Rightarrow> nat \<Rightarrow> 'k demo \<Rightarrow> 'k demo \<Rightarrow> bool" where
  "moved view L l s s' \<longleftrightarrow> (\<exists>i c. good view L i l c s') \<and> rounds s' = rounds s \<and> todo view s' < todo view s"

lemma movedI: "good view L i l c s' \<Longrightarrow> rounds s' = rounds s \<Longrightarrow> todo view s' < todo view s \<Longrightarrow> moved view L l s s'"
  by (auto simp: moved_def)

lemma moved_lfsr: "moved view L l s (s'\<lparr>lfsr := x\<rparr>) = moved view L l s s'"
proof -
  have "worker_position view (s'\<lparr>lfsr := x\<rparr>) = worker_position view s'" "manager_position view (s'\<lparr>lfsr := x\<rparr>) = manager_position view s'"
    by (auto simp: worker_position_def manager_position_def)
  then show ?thesis by (simp add: moved_def good_def todo_def)
qed

lemma todo_worker:
  assumes "worker_position view s' = (worker_position view s)(w := q)" and "manager_position view s' = manager_position view s"
    and "w_todo q < w_todo (worker_position view s w)"
  shows "todo view s' < todo view s"
  using assms(3) unfolding todo_def assms(1,2) by (cases w) simp_all

lemma todo_manager:
  assumes "worker_position view s' = worker_position view s" and "m_over (manager_position view s') = m_over (manager_position view s)"
    and "m_todo (manager_position view s') < m_todo (manager_position view s)"
  shows "todo view s' < todo view s"
  using assms by (simp add: todo_def)

text \<open>A step of a worker that changes neither its arrival at the rendezvous nor its count.\<close>

lemma good_worker_step:
  assumes good: "good view L i l c s" and v: "view q = set_status (Worker w) st (view (kern s)\<lparr>items := ys\<rparr>)"
    and ok: "w_ok (i + l + c) i w (p, st)" and same: "waits (p, st) = waits (worker_position view s w)"
      "finished (p, st) = finished (worker_position view s w)"
    and ys: "length ys + of_bool (\<not> fresh (p, st)) = length (items (view (kern s))) + of_bool (\<not> fresh (worker_position view s w))"
      "set ys \<subseteq> set (items (view (kern s)))"
    and less: "w_todo (p, st) < w_todo (worker_position view s w)"
  shows "moved view L l s (s\<lparr>kern := q, wpc := (wpc s)(w := p)\<rparr>)"
proof -
  have st: "status (view q) = (status (view (kern s)))(Worker w := st)" using v by (simp add: set_status_def)
  have "demo_inv L i l c (rounds s) ((marker s)(w := marker s w)) ((worker_position view s)(w := (p, st))) (manager_position view s)
      ys (bits (view (kern s)))"
    by (rule inv_worker [OF good_inv [OF good] ok same(1) _ ys]) (simp add: same(2))
  then have "good view L i l c (s\<lparr>kern := q, wpc := (wpc s)(w := p)\<rparr>)"
    using good v by (simp add: good_def worker_position_upd [OF st] set_status_def)
  then show ?thesis using todo_worker [OF worker_position_upd [OF st] less] by (intro movedI) simp_all
qed

lemma good_manager_step:
  assumes good: "good view L i l c s" and v: "view q = set_status Manager st (view (kern s)\<lparr>items := ys\<rparr>)"
    and ok: "m_ok (i + l + c) i (p, st)" and same: "m_waits (p, st) = m_waits (manager_position view s)"
      "m_over (p, st) = m_over (manager_position view s)"
    and ys: "length ys + sent (manager_position view s) = length (items (view (kern s))) + sent (p, st)" "sent (p, st) \<le> 3"
      "\<And>t. t \<in> set ys \<Longrightarrow> unat t \<in> {1..6}"
    and less: "m_todo (p, st) < m_todo (manager_position view s)"
  shows "moved view L l s (s\<lparr>kern := q, mpc := p\<rparr>)"
proof -
  have st: "status (view q) = (status (view (kern s)))(Manager := st)" using v by (simp add: set_status_def)
  have "demo_inv L i l c (rounds s) (marker s) (worker_position view s) (p, st) ys (bits (view (kern s)))"
    by (rule inv_manager [OF good_inv [OF good] ok same ys])
  then have "good view L i l c (s\<lparr>kern := q, mpc := p\<rparr>)"
    using good v by (simp add: good_def manager_position_upd [OF st] set_status_def)
  moreover have "todo view (s\<lparr>kern := q, mpc := p\<rparr>) < todo view s"
    using same(2) less by (intro todo_manager) (simp_all add: manager_position_upd [OF st])
  ultimately show ?thesis by (intro movedI) simp_all
qed

context freertos
begin

lemma start_good: "good view L 0 0 0 (demo_main k)"
  by (simp add: good_def demo_main_def created demo_inv_def worker_position_def manager_position_def taken_def arrived_def
      bits4_sync all_bits finished_def)

text \<open>A task that waits at the rendezvous waits for all four bits.\<close>

lemma sync_masks:
  assumes "good view L i l c s" and "status (view (kern s)) u = Waiting (xEventGroupSync b' m' d') n"
  shows "m' = ALL_SYNC_BITS"
proof (cases u)
  case (Worker w)
  then show ?thesis using good_worker [OF assms(1), of w] assms(2) by (cases "wpc s w") auto
next
  case Manager
  then show ?thesis using good_manager [OF assms(1)] assms(2) by (cases "mpc s") auto
qed

text \<open>The call of the last task that arrives releases all of them.\<close>

lemma complete_good:
  assumes good: "good view L i l c s" and t: "status (view (kern s)) t = Running"
    and b: "(bits (view (kern s)) OR b) AND ALL_SYNC_BITS = ALL_SYNC_BITS" "(bits (view (kern s)) OR b) AND NOT ALL_SYNC_BITS = 0"
    and fin: "\<And>w. finished (worker_position view s w)" and over: "\<not> m_over (manager_position view s)"
    and all: "\<And>u. u \<noteq> t \<Longrightarrow> at_sync (status (view (kern s)) u)"
    and s': "kern s' = invoke k t (xEventGroupSync b ALL_SYNC_BITS d) (kern s)" "rounds s' = rounds s" "marker s' = marker s"
      "\<And>w. wpc s' w = In_Sync" "mpc s' = M_In_Sync"
    and todo: "42 \<le> todo view s"
  shows "moved view L l s s'"
proof -
  have "view (kern s') = view (kern s)\<lparr>bits := (bits (view (kern s)) OR b) AND NOT ALL_SYNC_BITS,
      status := \<lambda>u. if u = t \<or> at_sync (status (view (kern s)) u) then Released else status (view (kern s)) u\<rparr>"
    unfolding s'(1) by (rule completes [OF t b(1)]) (rule sync_masks [OF good])
  moreover have "(if u = t \<or> at_sync (status (view (kern s)) u) then Released else status (view (kern s)) u) = Released" for u
    using all [of u] by (cases "u = t") simp_all
  ultimately have "view (kern s') = view (kern s)\<lparr>bits := 0, status := \<lambda>_. Released\<rparr>" by (simp only: b(2))
  moreover have "worker_position view s' = (\<lambda>_. (In_Sync, Released))" "manager_position view s' = (M_In_Sync, Released)"
    using calculation s' by (auto simp: worker_position_def manager_position_def)
  moreover have "todo view s' = 41" using calculation by (simp add: todo_def)
  ultimately show ?thesis using good s' todo inv_completes [OF good_inv [OF good] fin over] by (intro movedI) (simp_all add: good_def)
qed

lemma waits_at_sync: "w_ok a i w (p, st) \<Longrightarrow> waits (p, st) \<Longrightarrow> p = In_Sync \<and> at_sync st"
  by (cases p) auto

lemma m_waits_at_sync: "m_ok a i (p, st) \<Longrightarrow> m_waits (p, st) \<Longrightarrow> p = M_In_Sync \<and> at_sync st"
  by (cases p) auto

lemma worker_sync_good:
  assumes good: "good view L i l c s" and at: "wpc s w = At_Sync"
    and s': "s' = s\<lparr>kern := invoke k (Worker w) (xEventGroupSync (xMyBit w) ALL_SYNC_BITS portMAX_DELAY) (kern s), wpc := (wpc s)(w := In_Sync)\<rparr>"
  shows "moved view L l s s'"
proof -
  let ?W = "worker_position view s" and ?G = "manager_position view s"
  have run: "status (view (kern s)) (Worker w) = Running" using good_worker [OF good, of w] at by simp
  have W: "?W w = (At_Sync, Running)" by (simp add: worker_position_def at run)
  have bits: "bits (view (kern s)) = arrived ?W ?G" using good_inv [OF good] by (simp add: demo_inv_def)
  show ?thesis
  proof (cases "(bits (view (kern s)) OR xMyBit w) AND ALL_SYNC_BITS = ALL_SYNC_BITS")
    case True
    then have o: "\<And>v. v \<noteq> w \<Longrightarrow> waits (?W v)" "m_waits ?G" using worker_bit(2) [of ?W w ?G] W unfolding bits by auto
    have p: "v \<noteq> w \<Longrightarrow> wpc s v = In_Sync \<and> at_sync (status (view (kern s)) (Worker v))" for v
      using waits_at_sync [OF good_worker [OF good, of v]] o(1) [of v] by (simp add: worker_position_def)
    have m: "mpc s = M_In_Sync \<and> at_sync (status (view (kern s)) Manager)"
      using m_waits_at_sync [OF good_manager [OF good]] o(2) by (simp add: manager_position_def)
    show ?thesis
    proof (rule complete_good [OF good run True])
      show "42 \<le> todo view s" using m_waits_not_over [OF o(2)] W by (cases w) (simp_all add: todo_def)
      show "finished (?W v)" for v using o(1) [of v] W by (cases "v = w") (simp_all add: finished_def)
      show "\<not> m_over ?G" using m_waits_not_over [OF o(2)] by simp
      show "at_sync (status (view (kern s)) u)" if "u \<noteq> Worker w" for u using that p m by (cases u) auto
    qed (use s' p m in \<open>auto simp: bits arrived_clear\<close>)
  next
    case False
    from arrives [OF run this, of portMAX_DELAY] inv_worker_arrives [OF good_inv [OF good] W False]
    have g: "good view L i l c s'" using good worker_position_upd [where view = view and s = s and w = w and p = In_Sync]
      by (simp add: s' good_def set_status_def)
    have "todo view s' < todo view s" unfolding s'
      by (rule todo_worker, rule worker_position_upd, simp add: arrives [OF run False] set_status_def,
          rule worker_position_upd, simp add: arrives [OF run False] set_status_def, simp add: W)
    then show ?thesis using g by (intro movedI) (simp_all add: s')
  qed
qed

lemma manager_sync_good:
  assumes good: "good view L i l c s" and at: "mpc s = At_Item j" "\<not> j < 3"
    and s': "s' = s\<lparr>kern := invoke k Manager (xEventGroupSync MANAGER_BIT ALL_SYNC_BITS portMAX_DELAY) (kern s), mpc := M_In_Sync\<rparr>"
  shows "moved view L l s s'"
proof -
  let ?W = "worker_position view s" and ?G = "manager_position view s"
  have run: "status (view (kern s)) Manager = Running" using good_manager [OF good] at by simp
  have "j \<le> 3" using good_inv [OF good] at by (simp add: demo_inv_def manager_position_def)
  then have G: "?G = (At_Item 3, Running)" using at by (simp add: manager_position_def run)
  have bits: "bits (view (kern s)) = arrived ?W ?G" using good_inv [OF good] by (simp add: demo_inv_def)
  show ?thesis
  proof (cases "(bits (view (kern s)) OR MANAGER_BIT) AND ALL_SYNC_BITS = ALL_SYNC_BITS")
    case True
    then have o: "waits (?W v)" for v using manager_bit(2) [of ?G ?W] G unfolding bits by simp
    have p: "wpc s v = In_Sync \<and> at_sync (status (view (kern s)) (Worker v))" for v
      using waits_at_sync [OF good_worker [OF good, of v]] o [of v] by (simp add: worker_position_def)
    show ?thesis
    proof (rule complete_good [OF good run True])
      show "42 \<le> todo view s" using G by (simp add: todo_def)
      show "finished (?W v)" for v using o by (simp add: finished_def)
      show "\<not> m_over ?G" using G by simp
      show "at_sync (status (view (kern s)) u)" if "u \<noteq> Manager" for u using that p by (cases u) auto
    qed (use s' p in \<open>auto simp: bits arrived_clear\<close>)
  next
    case False
    from arrives [OF run this, of portMAX_DELAY] inv_manager_arrives [OF good_inv [OF good, unfolded G] False]
    have g: "good view L i l c s'" using good manager_position_upd [where view = view and s = s and p = M_In_Sync]
      by (simp add: s' good_def set_status_def)
    have "todo view s' < todo view s"
      using manager_position_upd [where view = view and s = s and p = M_In_Sync] arrives [OF run False] G
      by (intro todo_manager) (simp_all add: s' set_status_def)
    then show ?thesis using g by (intro movedI) (simp_all add: s')
  qed
qed

text \<open>A task that enters a call other than the synchronisation waits in it.\<close>

lemma entered_items:
  assumes "status (view s) t = Running" and "\<not> is_sync r"
  shows "view (invoke k t r s) = set_status t (Waiting r 0) (view s\<lparr>items := items (view s)\<rparr>)"
  using entered [OF assms] by simp

lemma worker_receives:
  assumes good: "good view L i l c s" and T: "i + l + c < 65535" and at: "wpc s w = In_Receive" and st: "vWorkerTask k w s = Some s'"
  shows "moved view L l s s'"
proof -
  note pos = worker_position_def [of view s w]
  obtain n where n: "n \<le> i + l + c" "status (view (kern s)) (Worker w) = Waiting (xQueueReceive portMAX_DELAY) n" "i = 0"
    using good_worker [OF good, of w] at by auto
  obtain x xs where x: "items (view (kern s)) = x # xs"
    using receive_waits [OF n(2)] n(1) T at st by (cases "items (view (kern s))") (auto simp: vWorkerTask_def max_delay)
  obtain r q where a: "answer k (Worker w) (kern s) = Some (r, q)" using st at by (auto simp: vWorkerTask_def)
  have q: "answer k (Worker w) (kern s) = Some (Received x, q)" "view q = set_status (Worker w) Running (view (kern s)\<lparr>items := xs\<rparr>)"
    using received [OF n(2) x _ a] a n(1) T by (simp_all add: max_delay)
  have "unat x \<in> {1..6}" using good_inv [OF good] x by (simp add: demo_inv_def)
  then have "moved view L l s (s\<lparr>kern := q, wpc := (wpc s)(w := At_Delay x)\<rparr>)"
    using at n x by (intro good_worker_step [OF good q(2)]) (auto simp: pos finished_def)
  then show ?thesis using st at q(1) by (simp add: vWorkerTask_def)
qed

lemma worker_counts:
  assumes good: "good view L i l c s" and at: "wpc s w = At_Count" and st: "vWorkerTask k w s = Some s'"
  shows "moved view L l s s'"
proof -
  note pos = worker_position_def [of view s w]
  have run: "status (view (kern s)) (Worker w) = Running" using good_worker [OF good, of w] at by simp
  have s': "s' = s\<lparr>marker := (marker s)(w := marker s w + 1), wpc := (wpc s)(w := At_Sync)\<rparr>" using st at by (simp add: vWorkerTask_def)
  have W: "worker_position view s' = (worker_position view s)(w := (At_Sync, Running))" "manager_position view s' = manager_position view s"
    using run by (auto simp: s' worker_position_def manager_position_def)
  have "demo_inv L i l c (rounds s) ((marker s)(w := marker s w + 1)) ((worker_position view s)(w := (At_Sync, Running)))
      (manager_position view s) (items (view (kern s))) (bits (view (kern s)))"
    using at by (intro inv_worker [OF good_inv [OF good]]) (simp_all add: pos finished_def)
  then have "good view L i l c s'" using good by (simp add: good_def W) (simp add: s')
  moreover have "todo view s' < todo view s" by (rule todo_worker [OF W]) (simp add: pos at)
  ultimately show ?thesis by (intro movedI) (simp_all add: s')
qed

lemma worker_returns:
  assumes good: "good view L i l c s" and T: "i + l + c < 65535" and at: "wpc s w = In_Delay \<or> wpc s w = In_Sync"
    and st: "vWorkerTask k w s = Some s'"
  shows "moved view L l s s'"
proof -
  note pos = worker_position_def [of view s w] and ok = good_worker [OF good, of w]
  have "(wpc s w = In_Sync \<longrightarrow> status (view (kern s)) (Worker w) = Released \<and> i = 0) \<and>
    (\<exists>q. answer k (Worker w) (kern s) = Some (Returned, q) \<and> view q = set_status (Worker w) Running (view (kern s)))"
    using at
  proof
    assume d: "wpc s w = In_Delay"
    then obtain u n where n: "status (view (kern s)) (Worker w) = Waiting (vTaskDelay u) n" using ok by auto
    have "unat u \<le> n" using delay_waits [OF n] st d by (cases "n < unat u") (simp_all add: vWorkerTask_def)
    then show ?thesis using delayed [OF n] d by auto
  next
    assume d: "wpc s w = In_Sync"
    have False if n: "n \<le> i + l + c" "status (view (kern s)) (Worker w) = Waiting (xEventGroupSync (xMyBit w) ALL_SYNC_BITS portMAX_DELAY) n" for n
      using sync_waits [OF n(2)] n(1) T st d by (simp add: vWorkerTask_def max_delay)
    then have "status (view (kern s)) (Worker w) = Released \<and> i = 0" using ok d by auto
    then show ?thesis using synced d by blast
  qed
  then obtain q where q: "answer k (Worker w) (kern s) = Some (Returned, q)"
    "view q = set_status (Worker w) Running (view (kern s)\<lparr>items := items (view (kern s))\<rparr>)"
    "wpc s w = In_Sync \<Longrightarrow> status (view (kern s)) (Worker w) = Released \<and> i = 0" by auto
  have "moved view L l s (s\<lparr>kern := q, wpc := (wpc s)(w := if wpc s w = In_Delay then At_Count else At_Receive)\<rparr>)"
    using at q(3) by (intro good_worker_step [OF good q(2)]) (auto simp: pos finished_def)
  then show ?thesis using st at q(1) by (auto simp: vWorkerTask_def)
qed

lemma worker_moves:
  assumes T: "6 + 2 * L < 65535" and good: "good view L i l c s" and st: "vWorkerTask k w s = Some s'"
  shows "moved view L l s s'"
proof -
  note pos = worker_position_def [of view s w] and ok = good_worker [OF good, of w]
  have max: "i + l + c < 65535" using T good_waits [OF good] by simp
  show ?thesis
  proof (cases "wpc s w")
    case At_Receive
    then have run: "status (view (kern s)) (Worker w) = Running" "i = 0" using ok by simp_all
    have "moved view L l s (s\<lparr>kern := invoke k (Worker w) (xQueueReceive portMAX_DELAY) (kern s), wpc := (wpc s)(w := In_Receive)\<rparr>)"
      using At_Receive run by (intro good_worker_step [OF good entered_items]) (auto simp: pos finished_def)
    then show ?thesis using st At_Receive by (simp add: vWorkerTask_def)
  next
    case (At_Delay u)
    then have run: "status (view (kern s)) (Worker w) = Running" "i = 0" "unat u \<in> {1..6}" using ok by simp_all
    have "moved view L l s (s\<lparr>kern := invoke k (Worker w) (vTaskDelay u) (kern s), wpc := (wpc s)(w := In_Delay)\<rparr>)"
      using At_Delay run by (intro good_worker_step [OF good entered_items]) (auto simp: pos finished_def)
    then show ?thesis using st At_Delay by (simp add: vWorkerTask_def)
  next
    case At_Sync
    then show ?thesis using st by (intro worker_sync_good [OF good At_Sync]) (simp add: vWorkerTask_def)
  qed (use worker_receives [OF good max _ st] worker_returns [OF good max _ st] worker_counts [OF good _ st] in auto)
qed

lemma one_sender:
  assumes "good view L i l c s" and "status (view (kern s)) u = Waiting (xQueueSend y d) n"
  shows "u = Manager"
proof (cases u)
  case (Worker w)
  then show ?thesis using good_worker [OF assms(1), of w] assms(2) by (cases "wpc s w") auto
qed

lemma receivers:
  assumes "good view L i l c s" and "status (view (kern s)) u = Waiting (xQueueReceive d) n"
  shows "\<exists>v. u = Worker v \<and> wpc s v = In_Receive"
proof (cases u)
  case (Worker w)
  then show ?thesis using good_worker [OF assms(1), of w] assms(2) by (cases "wpc s w") auto
next
  case Manager
  then show ?thesis using good_manager [OF assms(1)] assms(2) by (cases "mpc s") auto
qed

lemma manager_sends:
  assumes good: "good view L i l c s" and "status (view (kern s)) Manager = Waiting (xQueueSend u d) n" and "mpc s = In_Send j" and "j < 3"
  shows "\<exists>q. answer k Manager (kern s) = Some (Returned, q) \<and> view q = set_status Manager Running (view (kern s)\<lparr>items := items (view (kern s)) @ [u]\<rparr>)"
proof (rule sent_item [OF assms(2)])
  show "length (items (view (kern s))) < capacity (view (kern s))"
    using good assms(3,4) by (simp add: good_def demo_inv_def manager_position_def)
qed (rule one_sender [OF good])

lemma manager_calls:
  assumes good: "good view L i l c s" and T: "i + l + c < 65535" and at: "mpc s = In_Send j" and st: "vManagerTask k s = Some s'"
  shows "moved view L l s s'"
proof -
  note pos = manager_position_def [of view s]
  obtain u n where n: "status (view (kern s)) Manager = Waiting (xQueueSend u portMAX_DELAY) n" "i = 0" "j < 3" "unat u \<in> {1..6}"
    using good_manager [OF good] at by auto
  obtain q where q: "answer k Manager (kern s) = Some (Returned, q)"
    "view q = set_status Manager Running (view (kern s)\<lparr>items := items (view (kern s)) @ [u]\<rparr>)" using manager_sends [OF good n(1) at n(3)] by blast
  have it: "t \<in> set (items (view (kern s)) @ [u]) \<Longrightarrow> unat t \<in> {1..6}" for t
    using good_inv [OF good] n(4) by (auto simp: demo_inv_def)
  have "moved view L l s (s\<lparr>kern := q, mpc := At_Item (Suc j)\<rparr>)"
    by (rule good_manager_step [OF good q(2) _ _ _ _ _ it]) (use at n in \<open>simp_all add: pos\<close>)
  then show ?thesis using st at q(1) by (simp add: vManagerTask_def)
qed

lemma manager_released:
  assumes good: "good view L i l c s" and T: "i + l + c < 65535" and at: "mpc s = M_In_Sync" and st: "vManagerTask k s = Some s'"
  shows "moved view L l s s'"
proof -
  note pos = manager_position_def [of view s]
  have False if n: "n \<le> i + l + c" "status (view (kern s)) Manager = Waiting (xEventGroupSync MANAGER_BIT ALL_SYNC_BITS portMAX_DELAY) n" for n
    using sync_waits [OF n(2)] n(1) T st at by (simp add: vManagerTask_def max_delay)
  then have rel: "status (view (kern s)) Manager = Released" "i = 0" using good_manager [OF good] at by auto
  then obtain q where q: "answer k Manager (kern s) = Some (Returned, q)"
    "view q = set_status Manager Running (view (kern s)\<lparr>items := items (view (kern s))\<rparr>)" using synced by auto
  have it: "t \<in> set (items (view (kern s))) \<Longrightarrow> unat t \<in> {1..6}" for t using good_inv [OF good] by (auto simp: demo_inv_def)
  have "moved view L l s (s\<lparr>kern := q, mpc := At_Round\<rparr>)"
    by (rule good_manager_step [OF good q(2) _ _ _ _ _ it]) (use at rel in \<open>simp_all add: pos\<close>)
  then show ?thesis using st at q(1) by (simp add: vManagerTask_def)
qed

lemma manager_moves:
  assumes T: "6 + 2 * L < 65535" and good: "good view L i l c s" and st: "vManagerTask k s = Some s'" and "mpc s \<noteq> At_Round"
  shows "moved view L l s s'"
proof -
  note pos = manager_position_def [of view s] and ok = good_manager [OF good]
  have max: "i + l + c < 65535" using T good_waits [OF good] by simp
  have it: "t \<in> set (items (view (kern s))) \<Longrightarrow> unat t \<in> {1..6}" for t using good_inv [OF good] by (auto simp: demo_inv_def)
  show ?thesis
  proof (cases "mpc s")
    case (At_Item j)
    then have run: "status (view (kern s)) Manager = Running" "i = 0" using ok by simp_all
    show ?thesis
    proof (cases "j < 3")
      case True
      obtain u x where r: "random_ticks (lfsr s) = (u, x)" by fastforce
      then have "unat u \<in> {1..6}" using random_ticks_range [of "lfsr s"] by simp
      moreover have "view (kern s) = set_status Manager Running (view (kern s)\<lparr>items := items (view (kern s))\<rparr>)"
        using run(1) by (simp add: set_status_def fun_upd_idem)
      ultimately have "moved view L l s (s\<lparr>kern := kern s, mpc := At_Send j u\<rparr>)"
        by (intro good_manager_step [OF good _ _ _ _ _ _ it]) (use At_Item True run in \<open>simp_all add: pos\<close>)
      moreover have "s' = (s\<lparr>kern := kern s, mpc := At_Send j u\<rparr>)\<lparr>lfsr := x\<rparr>" using st At_Item True r by (auto simp: vManagerTask_def)
      ultimately show ?thesis by (simp only: moved_lfsr)
    next
      case False
      then show ?thesis using st At_Item by (intro manager_sync_good [OF good At_Item False]) (simp add: vManagerTask_def)
    qed
  next
    case (At_Send j u)
    then have run: "status (view (kern s)) Manager = Running" "i = 0" "j < 3" "unat u \<in> {1..6}" using ok by simp_all
    have "moved view L l s (s\<lparr>kern := invoke k Manager (xQueueSend u portMAX_DELAY) (kern s), mpc := In_Send j\<rparr>)"
      by (rule good_manager_step [OF good entered_items _ _ _ _ _ it]) (use At_Send run in \<open>auto simp: pos\<close>)
    then show ?thesis using st At_Send by (simp add: vManagerTask_def)
  qed (use manager_calls [OF good max _ st] manager_released [OF good max _ st] assms(4) in auto)
qed

lemma manager_counts:
  assumes good: "good view L i l c s" and at: "mpc s = At_Round" and st: "vManagerTask k s = Some s'"
  shows "good view L 0 0 l s' \<and> rounds s' = rounds s + 1"
proof -
  have s': "s' = s\<lparr>rounds := rounds s + 1, mpc := At_Item 0\<rparr>" using st at by (simp add: vManagerTask_def)
  have run: "status (view (kern s)) Manager = Running" using good_manager [OF good] at by simp
  have G: "manager_position view s = (At_Round, Running)" by (simp add: manager_position_def at run)
  have "worker_position view s' = worker_position view s" "manager_position view s' = (At_Item 0, Running)"
    using run by (auto simp: s' worker_position_def manager_position_def)
  then show ?thesis using good inv_round [OF good_inv [OF good, unfolded G]] by (simp add: good_def s')
qed

section \<open>The clock\<close>

lemma clock_positions:
  "worker_position view (clock k s) = aged \<circ> worker_position view s" "manager_position view (clock k s) = aged (manager_position view s)"
  by (auto simp: clock_def worker_position_def manager_position_def ticks aged_def)

lemma late_good: "good view L i l c s \<Longrightarrow> l < L \<Longrightarrow> good view L i (Suc l) c (clock k s)"
  using inv_late [OF good_inv] by (simp add: good_def clock_positions) (simp add: clock_def ticks)

lemma left_ticked: "left (ticked st) = left st - 1"
  by (cases st rule: left.cases) simp_all

lemma w_todo_aged: "w_todo (aged q) \<le> w_todo q" "fst q = In_Delay \<Longrightarrow> 0 < left (snd q) \<Longrightarrow> w_todo (aged q) < w_todo q"
  by (cases q rule: w_todo.cases; simp add: aged_def ticked_released left_ticked)+

lemma m_todo_aged: "m_todo (aged G) = m_todo G"
  by (cases G rule: m_todo.cases) (simp_all add: aged_def ticked_released)

lemma late_todo: "todo view (clock k s) \<le> todo view s"
  unfolding todo_def clock_positions comp_def aged_same m_todo_aged by (intro add_mono w_todo_aged order_refl)

text \<open>When every task is blocked, the manager waits at the rendezvous and each worker waits there or in its delay.\<close>

lemma blocked_go: "blocked k s \<Longrightarrow> go k t s = None"
  by (cases t; cases "case t of Worker w \<Rightarrow> w | Manager \<Rightarrow> A") (auto simp: blocked_def split: demo_task.splits)

lemma manager_blocked:
  assumes good: "good view L i l c s" and none: "vManagerTask k s = None"
  shows "m_waits (manager_position view s)"
proof -
  note pos = manager_position_def [of view s] and ok = good_manager [OF good]
  show ?thesis
  proof (cases "mpc s")
    case (In_Send j)
    then obtain u n where n: "status (view (kern s)) Manager = Waiting (xQueueSend u portMAX_DELAY) n" "j < 3" using ok by auto
    from manager_sends [OF good n(1) In_Send n(2)] none In_Send show ?thesis by (auto simp: vManagerTask_def)
  next
    case M_In_Sync
    then show ?thesis using none synced [of "kern s" Manager] by (auto simp: vManagerTask_def pos)
  qed (use none in \<open>auto simp: vManagerTask_def split: if_splits prod.splits\<close>)
qed

lemma worker_blocked:
  assumes good: "good view L i l c s" and m: "m_waits (manager_position view s)" and none: "\<And>v. vWorkerTask k v s = None"
  shows "w_blocked (worker_position view s w)"
proof -
  note pos = worker_position_def [of view s w] and ok = good_worker [OF good, of w]
  show ?thesis
  proof (cases "wpc s w")
    case In_Receive
    then obtain n where n: "status (view (kern s)) (Worker w) = Waiting (xQueueReceive portMAX_DELAY) n" using ok by auto
    have "fresh (worker_position view s w)" using In_Receive by (simp add: pos)
    then have "taken (worker_position view s) < 3" by (rule taken_less)
    then have "items (view (kern s)) \<noteq> []" using good_inv [OF good] m_waits_not_over [OF m] by (auto simp: demo_inv_def)
    from receive_ready [OF n this] obtain u d' n' where u: "status (view (kern s)) u = Waiting (xQueueReceive d') n'" "answer k u (kern s) \<noteq> None" by blast
    obtain v where "u = Worker v" "wpc s v = In_Receive" using receivers [OF good u(1)] by blast
    then show ?thesis using u(2) none [of v] by (simp add: vWorkerTask_def)
  next
    case In_Delay
    then obtain u n where n: "status (view (kern s)) (Worker w) = Waiting (vTaskDelay u) n" using ok by auto
    then have "n < unat u" using delayed [OF n] none [of w] In_Delay by (cases "n < unat u") (auto simp: vWorkerTask_def)
    then show ?thesis using In_Delay n by (simp add: w_blocked_def pos)
  next
    case In_Sync
    then show ?thesis using none [of w] synced [of "kern s" "Worker w"] by (auto simp: vWorkerTask_def pos w_blocked_def)
  qed (use none [of w] in \<open>auto simp: vWorkerTask_def\<close>)
qed

lemma blocked_positions:
  assumes "good view L i l c s" and "blocked k s"
  shows "m_waits (manager_position view s)" and "w_blocked (worker_position view s w)"
proof -
  show m: "m_waits (manager_position view s)" using manager_blocked [OF assms(1)] blocked_go [OF assms(2), of Manager] by (simp add: go_def)
  show "w_blocked (worker_position view s w)" using worker_blocked [OF assms(1) m] blocked_go [OF assms(2), of "Worker v" for v] by (simp add: go_def)
qed

lemma idle_good:
  assumes good: "good view L i l c s" and "blocked k s"
  shows "good view L (Suc i) l c (clock k s)" and "todo view (clock k s) < todo view s"
proof -
  note b = blocked_positions [OF assms]
  show "good view L (Suc i) l c (clock k s)"
    using good inv_idle [OF good_inv [OF good] b] by (simp add: good_def clock_positions) (simp add: clock_def ticks)
  obtain w where "fst (worker_position view s w) = In_Delay" "0 < left (snd (worker_position view s w))"
    using blocked_delay [OF good_inv [OF good] b] by blast
  then have less: "w_todo (aged (worker_position view s w)) < w_todo (worker_position view s w)" by (rule w_todo_aged)
  have le: "w_todo (aged (worker_position view s v)) \<le> w_todo (worker_position view s v)" for v by (rule w_todo_aged)
  show "todo view (clock k s) < todo view s"
    using less le [of A] le [of B] le [of C] unfolding todo_def clock_positions comp_def aged_same m_todo_aged by (cases w) simp_all
qed

lemma step_good:
  assumes T: "6 + 2 * L < 65535" and good: "good view L i l c s" and st: "step k L (l, s) (l', s')"
  shows "(\<exists>i c. good view L i l' c s') \<and> (rounds s' = rounds s \<and> todo view s' + (L - l') < todo view s + (L - l) \<or> rounds s' = rounds s + 1)"
  using st
proof (cases rule: step.cases)
  case (task t)
  show ?thesis
  proof (cases "t = Manager \<and> mpc s = At_Round")
    case True
    then show ?thesis using manager_counts [OF good] task by (auto simp: go_def)
  next
    case False
    then have "moved view L l s s'" using task worker_moves [OF T good] manager_moves [OF T good] by (cases t) (auto simp: go_def)
    then show ?thesis using task by (auto simp: moved_def)
  qed
next
  case idle_tick
  then show ?thesis using idle_good [OF good] by (auto simp: clock_def)
next
  case late_tick
  then show ?thesis using late_good [OF good] late_todo [of s] by (auto simp: clock_def)
qed

lemma reach_good:
  assumes T: "6 + 2 * L < 65535" and "reach k L x"
  shows "\<exists>i c. good view L i (fst x) c (snd x)"
  using assms(2)
proof induction
  case start
  then show ?case using start_good by auto
next
  case (run x y)
  then obtain i c where "good view L i (fst x) c (snd x)" by blast
  from step_good [OF T this, of "fst y" "snd y"] run(2) show ?case by simp
qed

lemma todo_bound:
  assumes "good view L i l c s"
  shows "todo view s \<le> 90"
proof -
  have w: "w_todo (worker_position view s w) \<le> 13" for w
    using good_worker [OF assms, of w] by (cases "wpc s w") (auto simp: worker_position_def)
  have "m_todo (manager_position view s) \<le> 10"
    by (cases "manager_position view s" rule: m_todo.cases) simp_all
  then show ?thesis using w [of A] w [of B] w [of C] by (simp add: todo_def)
qed

lemma run_todo:
  assumes T: "6 + 2 * L < 65535" and "reach k L (f 0)" and run: "\<And>i. step k L (f i) (f (Suc i))"
    and none: "\<And>i. i \<le> n \<Longrightarrow> rounds (snd (f i)) \<noteq> rounds (snd (f 0)) + 1"
  shows "reach k L (f n) \<and> rounds (snd (f n)) = rounds (snd (f 0)) \<and> todo view (snd (f n)) + (L - fst (f n)) + n \<le> 90 + L"
  using none
proof (induction n)
  case 0
  obtain i c where "good view L i (fst (f 0)) c (snd (f 0))" using reach_good [OF T assms(2)] by blast
  from todo_bound [OF this] show ?case using assms(2) by simp
next
  case (Suc n)
  then have IH: "reach k L (f n)" "rounds (snd (f n)) = rounds (snd (f 0))" "todo view (snd (f n)) + (L - fst (f n)) + n \<le> 90 + L" by auto
  obtain i c where "good view L i (fst (f n)) c (snd (f n))" using reach_good [OF T IH(1)] by blast
  from step_good [OF T this, of "fst (f (Suc n))" "snd (f (Suc n))"] run [of n] Suc.prems [of "Suc n"] IH
  show ?case using reach.run [OF IH(1) run] by auto
qed

text \<open>In a state in which every task is blocked, a worker can go on after at most six ticks.\<close>

lemma clocks_view: "view (kern ((clock k ^^ j) s)) = view (kern s)\<lparr>status := (ticked ^^ j) \<circ> status (view (kern s))\<rparr>"
  by (induction j) (simp_all add: clock_def ticks comp_def)

lemma ticked_waiting: "(ticked ^^ j) (Waiting r n) = Waiting r (n + j)"
  by (induction j) simp_all

lemma soon_ready:
  assumes good: "good view L i l c s"
  shows "\<exists>t. \<exists>j\<le>6. go k t ((clock k ^^ j) s) \<noteq> None"
proof (cases "blocked k s")
  case True
  obtain w where w: "fst (worker_position view s w) = In_Delay" "i + left (snd (worker_position view s w)) \<le> 6"
    using blocked_delay [OF good_inv [OF good] blocked_positions [OF good True]] by blast
  then obtain u n where n: "status (view (kern s)) (Worker w) = Waiting (vTaskDelay u) n"
    using good_worker [OF good, of w] by (auto simp: worker_position_def)
  define j where "j = unat u - n"
  have "j \<le> 6" using w n by (simp add: j_def worker_position_def)
  moreover have "status (view (kern ((clock k ^^ j) s))) (Worker w) = Waiting (vTaskDelay u) (n + j)"
    by (simp add: clocks_view n ticked_waiting)
  moreover have "unat u \<le> n + j" by (simp add: j_def)
  ultimately have "answer k (Worker w) (kern ((clock k ^^ j) s)) \<noteq> None" "j \<le> 6" using delayed by fastforce+
  moreover have "wpc ((clock k ^^ m) s) = wpc s" for m by (induction m) (simp_all add: clock_def)
  ultimately have "go k (Worker w) ((clock k ^^ j) s) \<noteq> None" using w(1) by (auto simp: go_def vWorkerTask_def worker_position_def)
  then show ?thesis using \<open>j \<le> 6\<close> by blast
next
  case False
  then obtain t where "go k t s \<noteq> None" by (auto simp: blocked_def)
  then have "go k t ((clock k ^^ 0) s) \<noteq> None" by simp
  then show ?thesis by blast
qed

end

section \<open>A kernel\<close>

text \<open>A kernel that does what the contract says: its state is what the kernel documents.\<close>

definition reply_at :: "u16 \<Rightarrow> nat \<Rightarrow> demo_task \<Rightarrow> kernel_view \<Rightarrow> (reply \<times> kernel_view) option" where
  "reply_at d n t v = (if unat d \<le> n then Some (Expired, set_status t Running v) else None)"

definition list_kernel :: "kernel_view kernel" where
  "list_kernel = \<lparr>create = \<lambda>n. \<lparr>items = [], capacity = n, bits = 0, status = \<lambda>_. Running\<rparr>,
    invoke = \<lambda>t r v. (case r of
        xEventGroupSync b m d \<Rightarrow>
          if (bits v OR b) AND m = m
          then v\<lparr>bits := (bits v OR b) AND NOT m, status := \<lambda>u. if u = t \<or> at_sync (status v u) then Released else status v u\<rparr>
          else set_status t (Waiting r 0) (v\<lparr>bits := bits v OR b\<rparr>)
      | _ \<Rightarrow> set_status t (Waiting r 0) v),
    answer = \<lambda>t v. (case status v t of
        Running \<Rightarrow> None
      | Released \<Rightarrow> Some (Returned, set_status t Running v)
      | Waiting r n \<Rightarrow> (case r of
            xQueueReceive d \<Rightarrow> (case items v of [] \<Rightarrow> reply_at d n t v | x # xs \<Rightarrow> Some (Received x, set_status t Running (v\<lparr>items := xs\<rparr>)))
          | xQueueSend x d \<Rightarrow>
              if length (items v) < capacity v then Some (Returned, set_status t Running (v\<lparr>items := items v @ [x]\<rparr>)) else reply_at d n t v
          | vTaskDelay u \<Rightarrow> if unat u \<le> n then Some (Returned, set_status t Running v) else None
          | xEventGroupSync b m d \<Rightarrow> reply_at d n t v)),
    tick = \<lambda>v. v\<lparr>status := ticked \<circ> status v\<rparr>\<rparr>"

interpretation list_kernel: freertos list_kernel "\<lambda>v. v"
proof (unfold_locales, goal_cases)
  case (6 s t d n)
  then have "answer list_kernel t s \<noteq> None" by (simp add: list_kernel_def split: list.split)
  with 6 show ?case by blast
next
  case (9 s t x d n)
  from 9(1,2) show ?case by (simp add: list_kernel_def)
qed (auto simp: list_kernel_def reply_at_def set_status_def split: request.splits)

section \<open>Properties\<close>

text \<open>
  C13. Whatever the interleaving of the tasks and wherever the clock ticks, as long as at most \<open>L\<close> ticks between two counts of
  the rounds come while a task can go on, with \<open>2 L + 6\<close> below the time-out of 65535 ticks: at the start of every round the three workers have counted
  exactly the completed rounds, so that \<^verbatim>\<open>WORKER_A == WORKER_B == WORKER_C == ROUNDS\<close> as the program announces, and at
  any time no worker is more than one ahead; the queue never holds more than three items, and no task has been in a kernel
  call for more than \<open>6 + 2 L\<close> ticks, so that no call times out.
\<close>

theorem rounds_agree:
  assumes "freertos k view" and "6 + 2 * L < 65535" and "reach k L (l, s)"
  shows "(mpc s = At_Item 0 \<longrightarrow> (\<forall>w. marker s w = rounds s)) \<and>
    (\<forall>w. marker s w = rounds s \<or> marker s w = rounds s + 1) \<and>
    length (items (view (kern s))) \<le> 3 \<and>
    (\<forall>t r n. status (view (kern s)) t = Waiting r n \<longrightarrow> n \<le> 6 + 2 * L)"
proof -
  obtain i c where good: "good view L i l c s" using freertos.reach_good [OF assms] by auto
  note inv = good_inv [OF good]
  let ?W = "worker_position view s" and ?G = "manager_position view s"
  have len: "length (items (view (kern s))) + taken ?W = sent ?G" "sent ?G \<le> 3" using inv by (simp_all add: demo_inv_def)
  have M: "marker s w = rounds s + of_bool (m_over ?G) + of_bool (finished (?W w))" for w using inv by (simp add: demo_inv_def)
  have fresh: "\<not> finished (?W w)" if "sent ?G = 0" for w
    using finished_not_fresh [of "?W w"] taken_none [of ?W w] len(1) that by auto
  have "marker s w = rounds s" if "mpc s = At_Item 0" for w
    using M [of w] fresh [of w] that by (simp add: manager_position_def)
  moreover have "marker s w = rounds s \<or> marker s w = rounds s + 1" for w
    using M [of w] fresh [of w] by (cases ?G rule: m_over.cases) (auto split: if_splits)
  moreover have "n \<le> 6 + 2 * L" if "status (view (kern s)) t = Waiting r n" for t r n
  proof -
    have "n \<le> i + l + c"
    proof (cases t)
      case (Worker w)
      then show ?thesis using good_worker [OF good, of w] that by (cases "wpc s w") auto
    next
      case Manager
      then show ?thesis using good_manager [OF good] that by (cases "mpc s") auto
    qed
    then show ?thesis using good_waits [OF good] by simp
  qed
  ultimately show ?thesis using len by auto
qed

theorem rounds_agree_witness:
  "reach list_kernel 1000 (0, demo_main list_kernel) \<and> mpc (demo_main list_kernel) = At_Item 0 \<and>
   marker (demo_main list_kernel) B = rounds (demo_main list_kernel)"
  using rounds_agree [OF list_kernel.freertos_axioms _ reach.start, of 1000] reach.start [of list_kernel 1000] by (simp add: demo_main_def)



end
