(* ===== verification/Two_Tasks.thy ===== *)
theory Two_Tasks
  imports TMS_Prelude
begin

text \<open>
  The FreeRTOS demonstration \<^verbatim>\<open>main.c\<close>: two tasks of equal priority that increment a marker in memory and wait. The scheduler
  may interrupt a task between any two accesses of a volatile variable, so a task is a machine whose steps are these accesses,
  and a run follows a schedule, a list that says which task makes the next step. The kernel behind \<^verbatim>\<open>xTaskCreateStatic\<close> and
  \<^verbatim>\<open>vTaskStartScheduler\<close> is not modelled: every schedule is considered.
\<close>

section \<open>The program\<close>

datatype task = TaskA | TaskB

definition MARKER :: "task \<Rightarrow> nat" where
  "MARKER t = (case t of TaskA \<Rightarrow> 0x7F00 | TaskB \<Rightarrow> 0x7F02)"

definition MARKER_IDLE :: nat where
  "MARKER_IDLE = 0x7F04"

text \<open>Where a task stands: reading its marker, writing it, and in the three parts of the waiting loop.\<close>

datatype task_pc = Fetch | Write u16 | Init | Test | Incr

record two_tasks =
  memory :: "nat \<Rightarrow> u16"
  tpc :: "task \<Rightarrow> task_pc"
  wait :: "task \<Rightarrow> int"

definition vTask :: "task \<Rightarrow> two_tasks \<Rightarrow> two_tasks" where
  "vTask t s =
    (case tpc s t of
      Fetch \<Rightarrow> s\<lparr>tpc := (tpc s)(t := Write (memory s (MARKER t)))\<rparr>
    | Write v \<Rightarrow> s\<lparr>memory := (memory s)(MARKER t := v + 1), tpc := (tpc s)(t := Init)\<rparr>
    | Init \<Rightarrow> s\<lparr>wait := (wait s)(t := 0), tpc := (tpc s)(t := Test)\<rparr>
    | Test \<Rightarrow> s\<lparr>tpc := (tpc s)(t := if wait s t < 50 then Incr else Fetch)\<rparr>
    | Incr \<Rightarrow> s\<lparr>wait := (wait s)(t := wait s t + 1), tpc := (tpc s)(t := Test)\<rparr>)"

definition tasks_main :: "two_tasks \<Rightarrow> two_tasks" where
  "tasks_main s = s\<lparr>memory := (memory s)(MARKER TaskA := 0, MARKER TaskB := 0, MARKER_IDLE := 0), tpc := (\<lambda>_. Fetch)\<rparr>"

definition run_tasks :: "task list \<Rightarrow> two_tasks \<Rightarrow> two_tasks" where
  "run_tasks schedule s = fold vTask schedule s"

section \<open>What a task sees\<close>

text \<open>A task depends on its own variables only, and the other task does not touch them.\<close>

type_synonym task_view = "task_pc \<times> int \<times> u16"

definition task_view :: "task \<Rightarrow> two_tasks \<Rightarrow> task_view" where
  "task_view t s = (tpc s t, wait s t, memory s (MARKER t))"

fun view_step :: "task_view \<Rightarrow> task_view" where
  "view_step (Fetch, i, m) = (Write m, i, m)"
| "view_step (Write v, i, m) = (Init, i, v + 1)"
| "view_step (Init, i, m) = (Test, 0, m)"
| "view_step (Test, i, m) = (if i < 50 then Incr else Fetch, i, m)"
| "view_step (Incr, i, m) = (Test, i + 1, m)"

lemma marker_distinct [simp]: "MARKER t = MARKER u \<longleftrightarrow> t = u" "MARKER t \<noteq> MARKER_IDLE"
  by (cases t; cases u; simp add: MARKER_def MARKER_IDLE_def)+

lemma view_vTask: "task_view t (vTask u s) = (if t = u then view_step (task_view t s) else task_view t s)"
  by (cases "tpc s u") (auto simp: task_view_def vTask_def)

lemma view_run: "task_view t (run_tasks schedule s) = (view_step ^^ count_list schedule t) (task_view t s)"
  by (induction schedule arbitrary: s) (auto simp: run_tasks_def view_vTask funpow_swap1)

text \<open>A round of a task has 104 steps; the second one writes the marker.\<close>

definition round_view :: "nat \<Rightarrow> task_view \<Rightarrow> bool" where
  "round_view k v \<longleftrightarrow>
    (case v of (pc, i, m) \<Rightarrow> m = of_nat ((k + 102) div 104) \<and>
      (let r = k mod 104
       in if r = 0 then pc = Fetch
          else if r = 1 then pc = Write m
          else if r = 2 then pc = Init
          else (pc = (if odd r then Test else Incr) \<and> i = int ((r - 3) div 2))))"

lemma round_view_step:
  assumes "round_view k v"
  shows "round_view (Suc k) (view_step v)"
proof -
  obtain pc i m where v: "v = (pc, i, m)" by (cases v)
  define r q where "r = k mod 104" and "q = k div 104"
  have k: "k = q * 104 + r" "r < 104" by (simp_all add: r_def q_def)
  have m: "Suc k mod 104 = (if r = 103 then 0 else Suc r)" by (simp add: r_def mod_Suc)
  have d: "(k + 102) div 104 = (if r < 2 then q else Suc q)" "(Suc k + 102) div 104 = (if r < 1 then q else Suc q)"
    unfolding k(1) using k(2) by (auto intro!: div_nat_eqI)
  note defs = round_view_def v prod.case Let_def r_def [symmetric] m d
  consider "r = 0" | "r = 1" | "r = 2" | j where "r = 2 * j + 3" "j \<le> 50" | j where "r = 2 * j + 4" "j < 50"
  proof -
    have "r = 2 * ((r - 3) div 2) + 3 \<or> r = 2 * ((r - 3) div 2) + 4" if "3 \<le> r" using that by presburger
    moreover have "(r - 3) div 2 \<le> 50" using k(2) by simp
    moreover have "(r - 3) div 2 < 50" if "r = 2 * ((r - 3) div 2) + 4" using k(2) that by presburger
    ultimately show ?thesis using that by (cases "r < 3") (auto simp: less_Suc_eq numeral_eq_Suc)
  qed
  then show ?thesis
  proof cases
    case 4
    then show ?thesis using assms unfolding defs by auto
  next
    case 5
    then show ?thesis using assms unfolding defs by auto
  qed (use assms in \<open>unfold defs, auto\<close>)
qed

lemma rounds_of_task: "round_view k ((view_step ^^ k) (Fetch, i, 0))"
proof (induction k)
  case 0
  show ?case by (simp add: round_view_def)
next
  case (Suc k)
  then show ?case using round_view_step by simp
qed

lemma idle_unchanged: "memory (run_tasks schedule s) MARKER_IDLE = memory s MARKER_IDLE"
proof (induction schedule arbitrary: s)
  case (Cons t schedule)
  have "memory (vTask t s) MARKER_IDLE = memory s MARKER_IDLE"
    by (cases "tpc s t") (simp_all add: vTask_def marker_distinct(2) [symmetric])
  then show ?case using Cons.IH [of "vTask t s"] by (simp add: run_tasks_def)
qed (simp add: run_tasks_def)

text \<open>
  C15. Whatever the scheduler does, the marker of a task counts the rounds this task has begun, modulo \<open>2\<^sup>1\<^sup>6\<close>: no increment is lost
  to preemption, although reading and writing the marker are separate steps, and the idle marker stays clear.
\<close>

theorem markers_count_rounds:
  "memory (run_tasks schedule (tasks_main s)) (MARKER t) = of_nat ((count_list schedule t + 102) div 104) \<and>
   memory (run_tasks schedule (tasks_main s)) MARKER_IDLE = 0"
proof -
  have "task_view t (tasks_main s) = (Fetch, wait s t, 0)" by (cases t) (simp_all add: task_view_def tasks_main_def)
  then have "round_view (count_list schedule t) (task_view t (run_tasks schedule (tasks_main s)))"
    by (simp add: view_run rounds_of_task)
  then show ?thesis by (simp add: round_view_def task_view_def idle_unchanged tasks_main_def split: prod.splits)
qed

end
