(* ===== verification/Float32.thy ===== *)
theory Float32
  imports TMS_Prelude
begin

text \<open>
  IEEE-754 single precision numbers as the run-time library handles them: 32-bit patterns. Every finite number
  is a multiple of the least subnormal number, so that values are integers in units of \<open>2\<^sup>-\<^sup>1\<^sup>4\<^sup>9\<close>. The magnitude
  of a pattern is its lower 31 bits, and \<open>mval\<close>, the value of a magnitude, is strictly increasing with a step of one
  unit in the last place; the value it gives to the pattern of infinity is \<open>2\<^sup>1\<^sup>2\<^sup>8\<close>, the next power of two, as the
  rounding of IEEE-754 has it. The last section specifies rounding to nearest, ties to even.
\<close>

section \<open>Fields\<close>

abbreviation (input) significandBits :: nat where "significandBits \<equiv> 23"
abbreviation (input) exponentBits :: nat where "exponentBits \<equiv> 8"
abbreviation (input) typeWidth :: nat where "typeWidth \<equiv> 32"

definition maxExponent :: int where
  "maxExponent = push_bit exponentBits 1 - 1"

definition exponentBias :: int where
  "exponentBias = drop_bit 1 maxExponent"

definition implicitBit :: u32 where
  "implicitBit = push_bit significandBits 1"

definition significandMask :: u32 where
  "significandMask = implicitBit - 1"

definition signBit :: u32 where
  "signBit = push_bit (significandBits + exponentBits) 1"

definition absMask :: u32 where
  "absMask = signBit - 1"

definition infRep :: u32 where
  "infRep = absMask XOR significandMask"

definition quietBit :: u32 where
  "quietBit = drop_bit 1 implicitBit"

definition qnanRep :: u32 where
  "qnanRep = infRep OR quietBit"

lemma fp_consts:
  "maxExponent = 255" "exponentBias = 127" "implicitBit = 0x800000" "significandMask = 0x7FFFFF" "signBit = 0x80000000"
  "absMask = 0x7FFFFFFF" "infRep = 0x7F800000" "quietBit = 0x400000" "qnanRep = 0x7FC00000"
  by (simp_all add: maxExponent_def exponentBias_def implicitBit_def significandMask_def signBit_def absMask_def
      infRep_def quietBit_def qnanRep_def)

section \<open>Values\<close>

definition mag :: "u32 \<Rightarrow> nat" where
  "mag x = unat (x AND absMask)"

definition negative :: "u32 \<Rightarrow> bool" where
  "negative x \<longleftrightarrow> x AND signBit \<noteq> 0"

definition mval :: "nat \<Rightarrow> nat" where
  "mval n = (if n < 2 ^ 23 then n else (2 ^ 23 + n mod 2 ^ 23) * 2 ^ (n div 2 ^ 23 - 1))"

definition fval :: "u32 \<Rightarrow> int" where
  "fval x = (if negative x then - int (mval (mag x)) else int (mval (mag x)))"

definition inf_mag :: nat where
  "inf_mag = 255 * 2 ^ 23"

definition is_nan :: "u32 \<Rightarrow> bool" where
  "is_nan x \<longleftrightarrow> inf_mag < mag x"

definition is_finite :: "u32 \<Rightarrow> bool" where
  "is_finite x \<longleftrightarrow> mag x < inf_mag"

lemma absMask_mask: "absMask = mask 31"
  by (simp add: fp_consts mask_eq_exp_minus_1)

lemma mag_mod: "mag x = unat x mod 2 ^ 31"
  by (simp add: mag_def absMask_mask unat_and_mask)

lemma mag_lt: "mag x < 2 ^ 31"
  by (simp add: mag_mod)

lemma negative_bit: "negative x \<longleftrightarrow> bit x 31"
  using and_exp_eq_0_iff_not_bit [of x 31] by (simp add: negative_def fp_consts)

lemma unat_split: "unat x = (if negative x then 2 ^ 31 else 0) + mag x" for x :: u32
proof -
  define d where "d = unat x div 2 ^ 31"
  have "bit x 31 \<longleftrightarrow> odd d" using bit_iff_odd [of "unat x" 31] by (simp add: d_def bit_unsigned_iff)
  moreover have "d < 2" using unat_lt2 [of x] by (simp add: d_def less_mult_imp_div_less)
  moreover have "unat x = d * 2 ^ 31 + mag x" using div_mult_mod_eq [of "unat x" "2 ^ 31"] by (simp add: d_def mag_mod)
  ultimately show ?thesis unfolding negative_bit by (cases d) auto
qed

text \<open>The values of a format with \<open>f\<close> bits of fraction, in units of its least subnormal number.\<close>

definition float_value :: "nat \<Rightarrow> nat \<Rightarrow> nat" where
  "float_value f n = (if n < 2 ^ f then n else (2 ^ f + n mod 2 ^ f) * 2 ^ (n div 2 ^ f - 1))"

lemma float_value_Suc: "float_value f (Suc n) = float_value f n + 2 ^ (n div 2 ^ f - 1)"
proof (cases "n < 2 ^ f")
  case True
  then show ?thesis by (cases "Suc n = 2 ^ f") (auto simp: float_value_def)
next
  case False
  then obtain q where q: "n div 2 ^ f = Suc q" by (cases "n div 2 ^ f") (auto simp: div_eq_0_iff)
  show ?thesis
  proof (cases "Suc (n mod 2 ^ f) = 2 ^ f")
    case True
    then have "Suc n mod 2 ^ f = 0" "Suc n div 2 ^ f = Suc (n div 2 ^ f)" by (simp_all add: mod_Suc div_Suc)
    moreover have "2 ^ q + n mod 2 ^ f * 2 ^ q = 2 ^ f * 2 ^ q" using arg_cong [OF True, of "\<lambda>z. z * 2 ^ q"] by simp
    ultimately show ?thesis using False q by (simp add: float_value_def algebra_simps)
  next
    case no: False
    then have "Suc n mod 2 ^ f = Suc (n mod 2 ^ f)" "Suc n div 2 ^ f = n div 2 ^ f" by (simp_all add: mod_Suc div_Suc)
    with False q show ?thesis by (simp add: float_value_def algebra_simps)
  qed
qed

lemma float_value_mono: "strict_mono (float_value f)"
  by (intro strict_mono_Suc_iff [THEN iffD2] allI) (simp add: float_value_Suc)

lemma mval_float_value: "mval = float_value 23"
  by (rule ext) (simp add: mval_def float_value_def)

lemma mval_Suc: "mval (Suc n) = mval n + 2 ^ (n div 2 ^ 23 - 1)"
  unfolding mval_float_value by (rule float_value_Suc)

lemma mval_mono: "strict_mono mval"
  unfolding mval_float_value by (rule float_value_mono)

lemmas mval_less [simp] = strict_mono_less [OF mval_mono]
lemmas mval_le [simp] = strict_mono_less_eq [OF mval_mono]
lemmas mval_eq [simp] = strict_mono_eq [OF mval_mono]

lemma mval_0 [simp]: "mval 0 = 0"
  by (simp add: mval_def)

lemma mval_normal: "1 \<le> e \<Longrightarrow> f < 2 ^ 23 \<Longrightarrow> mval (e * 2 ^ 23 + f) = (2 ^ 23 + f) * 2 ^ (e - 1)"
  by (simp add: mval_def)

lemma mval_subnormal: "n \<le> 2 ^ 24 \<Longrightarrow> mval n = n"
proof -
  assume n: "n \<le> 2 ^ 24"
  consider "n < 2 ^ 23" | "2 ^ 23 \<le> n" "n < 2 ^ 24" | "n = 2 ^ 24" using n by linarith
  then show ?thesis
  proof cases
    case 2
    then have "n div 2 ^ 23 = 1" "n mod 2 ^ 23 = n - 2 ^ 23" by (simp_all add: div_nat_eqI le_mod_geq)
    with 2 show ?thesis by (simp add: mval_def)
  qed (simp_all add: mval_def)
qed

section \<open>Rounding to nearest\<close>

text \<open>
  A floating point format is an increasing sequence of values; the last one, numbered \<open>infn\<close>, stands for infinity. The quotient
  \<open>v / d\<close> rounds to the value numbered \<open>n\<close> when it lies between the midpoints to the two neighbours, and at a midpoint \<open>n\<close>
  is even. Above the last midpoint a number rounds to infinity.
\<close>

definition rounded :: "(nat \<Rightarrow> nat) \<Rightarrow> nat \<Rightarrow> nat \<Rightarrow> nat \<Rightarrow> nat \<Rightarrow> bool" where
  "rounded val infn d v n \<longleftrightarrow> n \<le> infn \<and>
    (n < infn \<longrightarrow> 2 * v < (val n + val (Suc n)) * d \<or> even n \<and> 2 * v = (val n + val (Suc n)) * d) \<and>
    (0 < n \<longrightarrow> (val (n - 1) + val n) * d < 2 * v \<or> even n \<and> (val (n - 1) + val n) * d = 2 * v)"

definition past_midpoint :: "(nat \<Rightarrow> nat) \<Rightarrow> nat \<Rightarrow> nat \<Rightarrow> nat \<Rightarrow> bool" where
  "past_midpoint val d v n \<longleftrightarrow>
    (val n + val (Suc n)) * d < 2 * v \<or> odd n \<and> (val n + val (Suc n)) * d = 2 * v"

locale float_format =
  fixes val :: "nat \<Rightarrow> nat" and infn :: nat
  assumes val_mono: "strict_mono val" and infn_pos: "0 < infn"
begin

lemmas val_less = strict_mono_less [OF val_mono]
lemmas val_less_eq = strict_mono_less_eq [OF val_mono]

text \<open>From a value below the number and less than one and a half steps away, the midpoint decides.\<close>

lemma rounded_step:
  assumes "n < infn" and "0 < d" and "val n * d \<le> v" and "2 * v < (val (Suc n) + val (Suc (Suc n))) * d"
  shows "rounded val infn d v (n + of_bool (past_midpoint val d v n))"
proof (cases "past_midpoint val d v n")
  case True
  then show ?thesis using assms by (auto simp: rounded_def past_midpoint_def)
next
  case False
  have "0 < n \<Longrightarrow> (val (n - 1) + val n) * d < 2 * v"
  proof -
    assume "0 < n"
    then have "val (n - 1) * d < val n * d" using assms(2) by (simp add: val_less)
    with assms(3) show ?thesis unfolding distrib_right by linarith
  qed
  with False assms show ?thesis by (auto simp: rounded_def past_midpoint_def)
qed

lemma rounded_between:
  assumes "n < infn" and "val n * d \<le> v" and "v < val (Suc n) * d"
  shows "rounded val infn d v (n + of_bool (past_midpoint val d v n))"
proof (rule rounded_step)
  show "0 < d" using assms(3) by (cases d) simp_all
  then have "val (Suc n) * d \<le> val (Suc (Suc n)) * d" by (simp add: val_less_eq)
  with assms(3) show "2 * v < (val (Suc n) + val (Suc (Suc n))) * d" unfolding distrib_right by linarith
qed (use assms in simp_all)

lemma rounded_overflow:
  assumes "0 < d" and "val infn * d \<le> v"
  shows "rounded val infn d v infn"
proof -
  have "val (infn - 1) * d < val infn * d" using assms(1) infn_pos by (simp add: val_less)
  with assms(2) have "(val (infn - 1) + val infn) * d < 2 * v" unfolding distrib_right by linarith
  then show ?thesis by (simp add: rounded_def)
qed

lemma rounded_exact:
  assumes "n \<le> infn" and "0 < d"
  shows "rounded val infn d (val n * d) n"
proof -
  have "val n * d < val (Suc n) * d" using assms(2) by (simp add: val_less)
  moreover have "0 < n \<Longrightarrow> val (n - 1) * d < val n * d" using assms(2) by (simp add: val_less)
  ultimately show ?thesis using assms by (simp add: rounded_def distrib_right)
qed

lemma rounded_less:
  assumes "rounded val infn d v n" and "rounded val infn d v m" and "n < m" and "0 < d"
  shows False
proof -
  have "n < infn" "m \<le> infn" using assms by (auto simp: rounded_def)
  then have n: "2 * v \<le> (val n + val (Suc n)) * d" "odd n \<Longrightarrow> 2 * v < (val n + val (Suc n)) * d"
    and m: "(val (m - 1) + val m) * d \<le> 2 * v" "odd m \<Longrightarrow> (val (m - 1) + val m) * d < 2 * v"
    using assms by (auto simp: rounded_def)
  have "(val n + val (Suc n)) * d \<le> (val (m - 1) + val m) * d" using \<open>n < m\<close>
    by (intro mult_le_mono1 add_mono) (simp_all add: val_less_eq)
  from this n(1) m(1) have eq: "(val n + val (Suc n)) * d = (val (m - 1) + val m) * d" by linarith
  have "even n" using n(2) m(1) eq by (cases "even n") auto
  moreover have "even m" using n(1) m(2) eq by (cases "even m") auto
  ultimately have "Suc n < m" using \<open>n < m\<close> by (metis Suc_lessI even_Suc)
  then have "val n + val (Suc n) < val (m - 1) + val m" using \<open>n < m\<close> by (intro add_le_less_mono) (simp_all add: val_less val_less_eq)
  with eq \<open>0 < d\<close> show False by simp
qed

lemma rounded_unique: "rounded val infn d v n \<Longrightarrow> rounded val infn d v m \<Longrightarrow> 0 < d \<Longrightarrow> n = m"
  using rounded_less by (meson nat_neq_iff)

end

text \<open>The scale does not matter.\<close>

lemma rounded_scale:
  assumes "0 < c"
  shows "rounded val infn (d * c) (v * c) n \<longleftrightarrow> rounded val infn d v n"
proof -
  have "2 * (v * c) < m * (d * c) \<longleftrightarrow> 2 * v < m * d" "m * (d * c) < 2 * (v * c) \<longleftrightarrow> m * d < 2 * v"
    "2 * (v * c) = m * (d * c) \<longleftrightarrow> 2 * v = m * d" "m * (d * c) = 2 * (v * c) \<longleftrightarrow> m * d = 2 * v" for m
    using assms by (simp_all flip: mult.assoc)
  then show ?thesis by (simp only: rounded_def)
qed

interpretation single: float_format mval inf_mag
  by unfold_locales (simp_all add: mval_mono inf_mag_def)

text \<open>In single precision, the number \<open>v / 2\<^sup>s\<close> rounds to the magnitude \<open>n\<close>.\<close>

definition rounds_to :: "nat \<Rightarrow> nat \<Rightarrow> nat \<Rightarrow> bool" where
  "rounds_to v s n \<longleftrightarrow> n \<le> inf_mag \<and>
    (n < inf_mag \<longrightarrow> 2 * v < (mval n + mval (Suc n)) * 2 ^ s \<or> even n \<and> 2 * v = (mval n + mval (Suc n)) * 2 ^ s) \<and>
    (0 < n \<longrightarrow> (mval (n - 1) + mval n) * 2 ^ s < 2 * v \<or> even n \<and> (mval (n - 1) + mval n) * 2 ^ s = 2 * v)"

lemma rounds_to_rounded: "rounds_to v s n \<longleftrightarrow> rounded mval inf_mag (2 ^ s) v n"
  by (simp add: rounds_to_def rounded_def)

lemma rounds_to_step:
  assumes "n < inf_mag" and "mval n * 2 ^ s \<le> v" and "v < mval (Suc n) * 2 ^ s"
  shows "rounds_to v s (n + of_bool (past_midpoint mval (2 ^ s) v n))"
  unfolding rounds_to_rounded using assms by (rule single.rounded_between)

lemma rounds_to_overflow: "mval inf_mag * 2 ^ s \<le> v \<Longrightarrow> rounds_to v s inf_mag"
  unfolding rounds_to_rounded by (rule single.rounded_overflow) simp_all

lemma rounds_to_exact: "n \<le> inf_mag \<Longrightarrow> rounds_to (mval n * 2 ^ s) s n"
  unfolding rounds_to_rounded by (rule single.rounded_exact) simp_all

lemma rounds_to_unique: "rounds_to v s n \<Longrightarrow> rounds_to v s m \<Longrightarrow> n = m"
  using single.rounded_unique [of "2 ^ s" v n m] by (simp add: rounds_to_rounded)

text \<open>No finite number is nearer than the rounded one.\<close>

lemma rounds_to_nearest:
  assumes r: "rounds_to v s n" and n: "n < inf_mag"
  shows "\<bar>int v - int (mval n) * 2 ^ s\<bar> \<le> \<bar>int v - int (mval m) * 2 ^ s\<bar>"
proof -
  define V N M :: int where "V = int v" and "N = int (mval n) * 2 ^ s" and "M = int (mval m) * 2 ^ s"
  consider "m = n" | "n < m" | "m < n" by linarith
  then have "\<bar>V - N\<bar> \<le> \<bar>V - M\<bar>"
  proof cases
    case 2
    then have "mval (Suc n) * 2 ^ s \<le> mval m * 2 ^ s" by simp
    moreover have "2 * v \<le> (mval n + mval (Suc n)) * 2 ^ s" using r n by (auto simp: rounds_to_def)
    ultimately have "2 * v \<le> mval n * 2 ^ s + mval m * 2 ^ s" unfolding distrib_right by linarith
    then have "int (2 * v) \<le> int (mval n * 2 ^ s + mval m * 2 ^ s)" by (rule of_nat_mono)
    moreover have "mval n * 2 ^ s < mval m * 2 ^ s" using 2 by simp
    then have "int (mval n * 2 ^ s) < int (mval m * 2 ^ s)" by (rule of_nat_less_iff [THEN iffD2])
    ultimately show ?thesis unfolding V_def N_def M_def of_nat_add of_nat_mult of_nat_power of_nat_numeral by linarith
  next
    case 3
    then have "mval m * 2 ^ s \<le> mval (n - 1) * 2 ^ s" by simp
    moreover have "(mval (n - 1) + mval n) * 2 ^ s \<le> 2 * v" using r 3 by (auto simp: rounds_to_def)
    ultimately have "mval n * 2 ^ s + mval m * 2 ^ s \<le> 2 * v" unfolding distrib_right by linarith
    then have "int (mval n * 2 ^ s + mval m * 2 ^ s) \<le> int (2 * v)" by (rule of_nat_mono)
    moreover have "mval m * 2 ^ s < mval n * 2 ^ s" using 3 by simp
    then have "int (mval m * 2 ^ s) < int (mval n * 2 ^ s)" by (rule of_nat_less_iff [THEN iffD2])
    ultimately show ?thesis unfolding V_def N_def M_def of_nat_add of_nat_mult of_nat_power of_nat_numeral by linarith
  qed (simp add: N_def M_def)
  then show ?thesis by (simp add: V_def N_def M_def)
qed


end
