(* ===== verification/Softfloat_Convert.thy ===== *)
theory Softfloat_Convert
  imports Float32
begin

text \<open>
  The software floating point of \<^verbatim>\<open>src/libtms9900/builtins/softfloat\<close>, first part: negation, comparison
  (\<^verbatim>\<open>comparesf2.c\<close>), conversion from 32-bit integers (\<^verbatim>\<open>floatsisf.c\<close>, \<^verbatim>\<open>floatunsisf.c\<close>) and to 32-bit integers
  (\<^verbatim>\<open>fixsfsi.c\<close>, \<^verbatim>\<open>fixunssfsi.c\<close>), and counting zeros without the builtin (\<^verbatim>\<open>clzsi2.c\<close>).
\<close>

section \<open>The functions\<close>

definition negsf2 :: "u32 \<Rightarrow> u32" where
  "negsf2 a = a XOR signBit"

definition leXf2 :: "u32 \<Rightarrow> u32 \<Rightarrow> int" where
  "leXf2 a b =
    (let aInt = sint a; bInt = sint b; aAbs = a AND absMask; bAbs = b AND absMask
     in if aAbs > infRep \<or> bAbs > infRep then 1
        else if aAbs OR bAbs = 0 then 0
        else if sint (a AND b) \<ge> 0 then (if aInt < bInt then - 1 else if aInt = bInt then 0 else 1)
        else (if aInt > bInt then - 1 else if aInt = bInt then 0 else 1))"

definition geXf2 :: "u32 \<Rightarrow> u32 \<Rightarrow> int" where
  "geXf2 a b =
    (let aInt = sint a; bInt = sint b; aAbs = a AND absMask; bAbs = b AND absMask
     in if aAbs > infRep \<or> bAbs > infRep then - 1
        else if aAbs OR bAbs = 0 then 0
        else if sint (a AND b) \<ge> 0 then (if aInt < bInt then - 1 else if aInt = bInt then 0 else 1)
        else (if aInt > bInt then - 1 else if aInt = bInt then 0 else 1))"

definition unordXf2 :: "u32 \<Rightarrow> u32 \<Rightarrow> bool" where
  "unordXf2 a b = (let aAbs = a AND absMask; bAbs = b AND absMask in aAbs > infRep \<or> bAbs > infRep)"

definition lesf2 :: "u32 \<Rightarrow> u32 \<Rightarrow> int" where "lesf2 a b = leXf2 a b"
definition gesf2 :: "u32 \<Rightarrow> u32 \<Rightarrow> int" where "gesf2 a b = geXf2 a b"
definition unordsf2 :: "u32 \<Rightarrow> u32 \<Rightarrow> bool" where "unordsf2 a b = unordXf2 a b"

text \<open>The conversions from integers share what they do with a magnitude that is not zero.\<close>

definition int_to_rep :: "u32 \<Rightarrow> u32" where
  "int_to_rep aAbs =
    (let exponent = 31 - int (clzsi aAbs);
         result =
           (if exponent \<le> int significandBits
            then push_bit (nat (int significandBits - exponent)) aAbs XOR implicitBit
            else let shift = nat (exponent - int significandBits);
                     result = drop_bit shift aAbs XOR implicitBit;
                     round = push_bit (typeWidth - shift) aAbs;
                     result = (if round > signBit then result + 1 else result)
                 in if round = signBit then result + (result AND 1) else result)
     in result + push_bit significandBits (word_of_int (exponent + exponentBias)))"

definition floatunsisf :: "u32 \<Rightarrow> u32" where
  "floatunsisf a = (if a = 0 then 0 else int_to_rep a)"

definition floatsisf :: "u32 \<Rightarrow> u32" where
  "floatsisf a =
    (if a = 0 then 0
     else let (sign, aAbs) = (if sint a < 0 then (signBit, - a) else (0, a))
          in int_to_rep aAbs OR sign)"

definition fixint :: "u32 \<Rightarrow> u32" where
  "fixint aRep =
    (let aAbs = aRep AND absMask;
         sign = (if aRep AND signBit \<noteq> 0 then - 1 else 1);
         exponent = int (unat (drop_bit significandBits aAbs)) - exponentBias;
         significand = (aAbs AND significandMask) OR implicitBit
     in if exponent < 0 then 0
        else if exponent \<ge> 32 then (if sign = 1 then 0x7FFFFFFF else 0x80000000)
        else if exponent < int significandBits then sign * drop_bit (nat (int significandBits - exponent)) significand
        else sign * push_bit (nat (exponent - int significandBits)) significand)"

definition fixuint :: "u32 \<Rightarrow> u32" where
  "fixuint aRep =
    (let aAbs = aRep AND absMask;
         sign = (if aRep AND signBit \<noteq> 0 then - 1 else 1 :: int);
         exponent = int (unat (drop_bit significandBits aAbs)) - exponentBias;
         significand = (aAbs AND significandMask) OR implicitBit
     in if sign = - 1 \<or> exponent < 0 then 0
        else if exponent \<ge> 32 then NOT 0
        else if exponent < int significandBits then drop_bit (nat (int significandBits - exponent)) significand
        else push_bit (nat (exponent - int significandBits)) significand)"

definition fixsfsi :: "u32 \<Rightarrow> u32" where "fixsfsi a = fixint a"
definition fixunssfsi :: "u32 \<Rightarrow> u32" where "fixunssfsi a = fixuint a"

text \<open>Counting leading zeros by halving, \<^verbatim>\<open>__clzsi2\<close>.\<close>

definition clzsi2 :: "u32 \<Rightarrow> u32" where
  "clzsi2 a =
    (let x = a;
         t = push_bit 4 (of_bool (x AND 0xFFFF0000 = 0)) :: u32;
         x = drop_bit (16 - unat t) x;
         r = t;
         t = push_bit 3 (of_bool (x AND 0xFF00 = 0)) :: u32;
         x = drop_bit (8 - unat t) x;
         r = r + t;
         t = push_bit 2 (of_bool (x AND 0xF0 = 0)) :: u32;
         x = drop_bit (4 - unat t) x;
         r = r + t;
         t = push_bit 1 (of_bool (x AND 0xC = 0)) :: u32;
         x = drop_bit (2 - unat t) x;
         r = r + t
     in r + ((2 - x) AND - of_bool (x AND 2 = 0)))"

section \<open>Comparison\<close>

lemma sint_split: "sint x = (if negative x then int (mag x) - 2 ^ 31 else int (mag x))" for x :: u32
proof -
  have neg: "sint x < 0 \<longleftrightarrow> negative x" by (simp add: sint_uint signed_take_bit_negative_iff bit_uint_iff negative_bit)
  have "int (unat x) = sint x mod 2 ^ 32" using uint_word_of_int [of "sint x", where 'a = 32] by simp
  moreover have "- (2 ^ 31) \<le> sint x" "sint x < 2 ^ 31" using sint_ge [of x] sint_lt [of x] by auto
  ultimately have "int (unat x) = (if sint x < 0 then sint x + 2 ^ 32 else sint x)"
    using mod_pos_pos_trivial [of "sint x" "2 ^ 32"] mod_pos_pos_trivial [of "sint x + 2 ^ 32" "2 ^ 32"] by auto
  then show ?thesis using unat_split [of x] neg by (simp split: if_splits)
qed

lemma abs_gt_inf: "x AND absMask > infRep \<longleftrightarrow> is_nan x"
  by (simp add: is_nan_def mag_def word_less_nat_alt inf_mag_def fp_consts)

lemma abs_eq_0: "x AND absMask = 0 \<longleftrightarrow> mag x = 0"
  by (simp add: mag_def unat_eq_zero)

lemma fval_compare:
  assumes "mag a \<noteq> 0 \<or> mag b \<noteq> 0"
  shows "fval a < fval b \<longleftrightarrow> (if negative a \<and> negative b then sint b < sint a else sint a < sint b)"
    and "fval a = fval b \<longleftrightarrow> sint a = sint b"
  using assms mag_lt [of a] mag_lt [of b] mval_eq [of "mag a" 0] mval_eq [of "mag b" 0] mval_eq [of "mag a" "mag b"]
    mval_less [of "mag a" "mag b"] mval_less [of "mag b" "mag a"] mval_less [of 0 "mag a"] mval_less [of 0 "mag b"]
  unfolding fval_def sint_split by (auto simp del: mval_eq mval_less)

lemma order_by_compare:
  assumes "\<not> is_nan a" and "\<not> is_nan b"
  shows "(if (a AND absMask) OR (b AND absMask) = 0 then 0
    else if sint (a AND b) \<ge> 0 then (if sint a < sint b then - 1 else if sint a = sint b then 0 else 1)
    else (if sint a > sint b then - 1 else if sint a = sint b then 0 else 1)) = sgn (fval a - fval b)"
proof (cases "mag a = 0 \<and> mag b = 0")
  case True
  then show ?thesis by (simp add: abs_eq_0 [THEN iffD2] fval_def)
next
  case False
  then have "(a AND absMask) OR (b AND absMask) \<noteq> 0" by (simp add: or_eq_0_iff abs_eq_0)
  moreover have "sint (a AND b) \<ge> 0 \<longleftrightarrow> \<not> (negative a \<and> negative b)"
    using mag_lt [of "a AND b"] by (simp add: sint_split negative_bit bit_and_iff)
  ultimately show ?thesis using fval_compare [of a b] False by (auto simp: sgn_if)
qed

lemma lesf2_value: "lesf2 a b = (if is_nan a \<or> is_nan b then 1 else sgn (fval a - fval b))"
  using order_by_compare [of a b] by (simp add: lesf2_def leXf2_def abs_gt_inf)

lemma gesf2_value: "gesf2 a b = (if is_nan a \<or> is_nan b then - 1 else sgn (fval a - fval b))"
  using order_by_compare [of a b] by (simp add: gesf2_def geXf2_def abs_gt_inf)

lemma lesf2_zero: "lesf2 x 0 = 0 \<longleftrightarrow> mag x = 0"
proof -
  have z: "fval 0 = 0" "\<not> is_nan 0" by (simp_all add: fval_def mag_def is_nan_def)
  have "\<not> is_nan x" if "mag x = 0" using that by (simp add: is_nan_def)
  moreover have "fval x = 0 \<longleftrightarrow> mag x = 0" using mval_eq [of "mag x" 0] by (simp add: fval_def)
  ultimately show ?thesis by (auto simp: lesf2_value z sgn_if)
qed

text \<open>
  C35. The comparison functions order the numbers, zeros of both signs being equal and infinities beyond every
  finite number; with an argument that is not a number, \<^verbatim>\<open>__lesf2\<close> returns 1 and \<^verbatim>\<open>__gesf2\<close> returns -1, so that every
  test of order fails, and \<^verbatim>\<open>__unordsf2\<close> detects it.
\<close>

theorem comparesf2_correct:
  "lesf2 a b = (if is_nan a \<or> is_nan b then 1 else sgn (fval a - fval b)) \<and>
   gesf2 a b = (if is_nan a \<or> is_nan b then - 1 else sgn (fval a - fval b)) \<and>
   (unordsf2 a b \<longleftrightarrow> is_nan a \<or> is_nan b)"
  by (simp add: lesf2_value gesf2_value unordsf2_def unordXf2_def abs_gt_inf)

section \<open>Conversion from integers\<close>

lemma bit_implicit: "bit implicitBit n \<longleftrightarrow> n = 23"
  unfolding implicitBit_def bit_push_bit_iff by (auto simp: bit_1_iff)

lemma xor_implicit:
  assumes "2 ^ 23 \<le> unat w" and "unat w < 2 ^ 24"
  shows "unat (w XOR implicitBit) = unat w - 2 ^ 23"
proof -
  define v :: u32 where "v = w - 0x800000"
  have "unat v = unat w - unat (0x800000 :: u32)"
    unfolding v_def using assms(1) by (intro unat_sub) (simp add: word_le_nat_alt)
  then have v: "unat v = unat w - 2 ^ 23" "unat v < 2 ^ 23" using assms by simp_all
  have "unat (implicitBit OR v) = unat implicitBit + unat v"
    using v by (intro unat_or_add [where a = 1 and n = 23]) (simp_all add: fp_consts)
  then have "w = implicitBit OR v" using v assms by (simp add: fp_consts word_unat_eq_iff)
  moreover have "\<not> bit v 23" using v(2) bit_unsigned_iff [of v 23, where 'a = nat] by (simp add: bit_iff_odd)
  then have "(implicitBit OR v) XOR implicitBit = v"
    by (intro bit_word_eqI) (auto simp: bit_implicit bit_xor_iff bit_or_iff)
  ultimately show ?thesis using v by simp
qed

lemma insert_exponent:
  assumes "unat r \<le> 2 ^ 23" and "0 \<le> e" and "e < 255"
  shows "unat (r + push_bit 23 (word_of_int e) :: u32) = nat e * 2 ^ 23 + unat r"
proof -
  have "(word_of_int e :: u32) = of_nat (nat e)" using assms(2) by simp
  then have "unat (word_of_int e :: u32) = nat e" using assms by (simp only: unat_of_nat) (simp add: nat_less_iff)
  then have "unat (push_bit 23 (word_of_int e) :: u32) = nat e * 2 ^ 23"
    using assms by (simp add: unat_push_bit nat_less_iff)
  with assms show ?thesis by (simp add: unat_word_ariths nat_less_iff)
qed

lemma int_to_rep_exact:
  assumes a: "2 ^ e \<le> unat a" "unat a < 2 ^ Suc e" and e: "e \<le> 23"
  shows "unat (push_bit (23 - e) a XOR implicitBit) = unat a * 2 ^ (23 - e) - 2 ^ 23"
    and "2 ^ 23 \<le> unat a * 2 ^ (23 - e)" and "unat a * 2 ^ (23 - e) < 2 ^ 24"
proof -
  note p = pow2_split [OF e]
  have "2 ^ Suc e * 2 ^ (23 - e) = (2::nat) ^ 24" using p by simp
  with p show b: "2 ^ 23 \<le> unat a * 2 ^ (23 - e)" "unat a * 2 ^ (23 - e) < 2 ^ 24"
    using a mult_le_mono1 [of "2 ^ e" "unat a" "2 ^ (23 - e)"] mult_less_mono1 [of "unat a" "2 ^ Suc e" "2 ^ (23 - e)"]
    by (metis, metis zero_less_numeral zero_less_power)
  then have "unat (push_bit (23 - e) a) = unat a * 2 ^ (23 - e)" by (simp add: unat_push_bit)
  with b show "unat (push_bit (23 - e) a XOR implicitBit) = unat a * 2 ^ (23 - e) - 2 ^ 23"
    using xor_implicit [of "push_bit (23 - e) a"] by simp
qed

lemma int_to_rep_shifted:
  assumes a: "2 ^ e \<le> unat a" "unat a < 2 ^ Suc e" and e: "23 < e" "e \<le> 31"
  shows "unat (drop_bit (e - 23) a XOR implicitBit) = unat a div 2 ^ (e - 23) - 2 ^ 23"
    and "2 ^ 23 \<le> unat a div 2 ^ (e - 23)" and "unat a div 2 ^ (e - 23) < 2 ^ 24"
    and "unat (push_bit (32 - (e - 23)) a) = unat a mod 2 ^ (e - 23) * 2 ^ (32 - (e - 23))"
proof -
  have "2 ^ 23 * 2 ^ (e - 23) = (2::nat) ^ e" using e pow2_split [of 23 e] by simp
  moreover have "2 ^ 24 * 2 ^ (e - 23) = (2::nat) ^ Suc e" using e pow2_split [of 23 e] by simp
  ultimately show b: "2 ^ 23 \<le> unat a div 2 ^ (e - 23)" "unat a div 2 ^ (e - 23) < 2 ^ 24"
    using a by (simp_all only: less_eq_div_iff_mult_less_eq zero_less_power zero_less_numeral div_less_iff_less_mult)
  then show "unat (drop_bit (e - 23) a XOR implicitBit) = unat a div 2 ^ (e - 23) - 2 ^ 23"
    using xor_implicit [of "drop_bit (e - 23) a"] by (simp add: unat_drop_bit)
  show "unat (push_bit (32 - (e - 23)) a) = unat a mod 2 ^ (e - 23) * 2 ^ (32 - (e - 23))"
    using unat_push_bit_low [of "e - 23" a] e by simp
qed

text \<open>The rounding decision of the code on the bits shifted out is the one of the specification.\<close>

lemma round_word_cmp:
  assumes "1 \<le> sh" and "sh \<le> 32" and "unat w = r * 2 ^ (32 - sh)"
  shows "w > signBit \<longleftrightarrow> 2 ^ sh < 2 * r" and "w = signBit \<longleftrightarrow> 2 * r = 2 ^ sh"
proof -
  obtain t where t: "sh = Suc t" using assms(1) by (cases sh) auto
  have "unat signBit = (2::nat) ^ 31" by (simp add: fp_consts)
  also have "\<dots> = 2 ^ t * 2 ^ (32 - sh)" using pow2_split [of t 31] assms(2) t by simp
  finally have s: "unat signBit = 2 ^ t * 2 ^ (32 - sh)" .
  show "w > signBit \<longleftrightarrow> 2 ^ sh < 2 * r" unfolding word_less_nat_alt s assms(3) t by simp
  show "w = signBit \<longleftrightarrow> 2 * r = 2 ^ sh" unfolding word_unat_eq_iff s assms(3) t by simp
qed

lemma round_word_add:
  fixes x w h :: u32
  assumes "unat x < 2 ^ 32 - 1"
  shows "unat (if w = h then (if h < w then x + 1 else x) + ((if h < w then x + 1 else x) AND 1)
      else if h < w then x + 1 else x) = unat x + of_bool (h < w \<or> odd (unat x) \<and> w = h)"
proof -
  have "unat (x + 1) = Suc (unat x)" using assms by (simp add: unat_word_ariths)
  moreover have "x AND 1 = of_bool (odd (unat x))" by (simp add: and_one_eq mod_2_eq_odd)
  ultimately show ?thesis by auto
qed

lemma int_to_rep_rounds:
  assumes "a \<noteq> 0"
  shows "rounds_to (unat a * 2 ^ 149) 0 (unat (int_to_rep a))" and "unat (int_to_rep a) < 2 ^ 31"
proof -
  define e where "e = 31 - clzsi a"
  note c = clzsi_bounds [OF assms]
  have ex: "31 - int (clzsi a) = int e" using c(1) by (simp add: e_def)
  have "32 - clzsi a = Suc e" using c(1) by (simp add: e_def)
  then have a: "2 ^ e \<le> unat a" "unat a < 2 ^ Suc e" and "e \<le> 31" using c by (simp_all add: e_def)
  show "rounds_to (unat a * 2 ^ 149) 0 (unat (int_to_rep a))" "unat (int_to_rep a) < 2 ^ 31"
  proof (atomize (full), cases "e \<le> 23")
    case True
    note x = int_to_rep_exact [OF a True]
    define f where "f = unat a * 2 ^ (23 - e) - 2 ^ 23"
    have "int_to_rep a = (push_bit (23 - e) a XOR implicitBit) + push_bit 23 (word_of_int (int e + 127))"
      using True by (simp add: int_to_rep_def Let_def ex fp_consts nat_diff_distrib')
    then have n: "unat (int_to_rep a) = (e + 127) * 2 ^ 23 + f"
      using x True insert_exponent [of "push_bit (23 - e) a XOR implicitBit" "int e + 127"] by (simp add: f_def nat_add_distrib)
    have "mval (unat (int_to_rep a)) = unat a * 2 ^ (23 - e) * 2 ^ (e + 126)"
      unfolding n using x mval_normal [of "e + 127" f] by (simp add: f_def)
    also have "\<dots> = unat a * 2 ^ 149" using pow2_split [of "23 - e" 149] True by (simp add: mult.assoc add.commute)
    finally have "rounds_to (unat a * 2 ^ 149) 0 (unat (int_to_rep a))"
      using rounds_to_exact [of "unat (int_to_rep a)" 0] True x n by (simp add: inf_mag_def f_def)
    then show "rounds_to (unat a * 2 ^ 149) 0 (unat (int_to_rep a)) \<and> unat (int_to_rep a) < 2 ^ 31"
      using n True x by (simp add: f_def)
  next
    case False
    define sh q r where "sh = e - 23" and "q = unat a div 2 ^ sh" and "r = unat a mod 2 ^ sh"
    have x: "unat (drop_bit sh a XOR implicitBit) = q - 2 ^ 23" "2 ^ 23 \<le> q" "q < 2 ^ 24"
      "unat (push_bit (32 - sh) a) = r * 2 ^ (32 - sh)"
      using int_to_rep_shifted [OF a _ \<open>e \<le> 31\<close>] False by (simp_all add: sh_def q_def r_def)
    have sh: "1 \<le> sh" "sh \<le> 8" "e = sh + 23" "r < 2 ^ sh" using False \<open>e \<le> 31\<close> by (simp_all add: sh_def r_def)
    note cmp = round_word_cmp [OF sh(1) _ x(4)]
    define up where "up = (2 ^ sh < 2 * r \<or> odd (q - 2 ^ 23) \<and> 2 * r = 2 ^ sh)"
    define res where "res = (let result = drop_bit sh a XOR implicitBit; round = push_bit (32 - sh) a;
      result = (if round > signBit then result + 1 else result) in if round = signBit then result + (result AND 1) else result)"
    have res: "unat res = q - 2 ^ 23 + of_bool up"
      using round_word_add [of "drop_bit sh a XOR implicitBit" "push_bit (32 - sh) a" signBit] x cmp sh
      by (simp add: res_def Let_def up_def)
    have "int_to_rep a = res + push_bit 23 (word_of_int (int e + 127))"
      using False by (simp add: int_to_rep_def Let_def ex fp_consts res_def sh_def nat_diff_distrib')
    moreover define n where "n = (e + 127) * 2 ^ 23 + (q - 2 ^ 23)"
    ultimately have rep: "unat (int_to_rep a) = n + of_bool up"
      using res x sh insert_exponent [of res "int e + 127"] by (auto simp: nat_add_distrib)
    have mn: "mval n = q * 2 ^ (e + 126)" using x mval_normal [of "e + 127" "q - 2 ^ 23"] by (simp add: n_def)
    have "n div 2 ^ 23 = e + 127" using x by (simp add: n_def)
    then have ms: "mval (Suc n) = q * 2 ^ (e + 126) + 2 ^ (e + 126)" by (simp add: mval_Suc mn)
    have p: "2 ^ (e + 126) = (2::nat) ^ sh * 2 ^ 149" using sh pow2_split [of sh "e + 126"] by simp
    have v: "unat a * 2 ^ 149 = q * 2 ^ (e + 126) + r * 2 ^ 149"
    proof -
      have "unat a = q * 2 ^ sh + r" unfolding q_def r_def by (rule div_mult_mod_eq [symmetric])
      then show ?thesis unfolding p by (simp only: distrib_right mult.assoc)
    qed
    have "past_midpoint mval (2 ^ 0) (unat a * 2 ^ 149) n \<longleftrightarrow> up"
    proof -
      have "odd n \<longleftrightarrow> odd (q - 2 ^ 23)" by (simp add: n_def)
      moreover have "mval n + mval (Suc n) < 2 * (unat a * 2 ^ 149) \<longleftrightarrow> 2 ^ sh * 2 ^ 149 < (2 * r) * 2 ^ 149"
        unfolding mn ms v p by simp
      moreover have "mval n + mval (Suc n) = 2 * (unat a * 2 ^ 149) \<longleftrightarrow> 2 ^ sh * 2 ^ 149 = (2 * r) * 2 ^ 149"
        unfolding mn ms v p by simp
      ultimately show ?thesis by (auto simp: past_midpoint_def up_def)
    qed
    moreover have "rounds_to (unat a * 2 ^ 149) 0 (n + of_bool (past_midpoint mval (2 ^ 0) (unat a * 2 ^ 149) n))"
    proof (rule rounds_to_step)
      show "n < inf_mag" using x sh by (simp add: n_def inf_mag_def)
      show "mval n * 2 ^ 0 \<le> unat a * 2 ^ 149" unfolding mn v by simp
      have "r * 2 ^ 149 < 2 ^ sh * 2 ^ 149" using sh by simp
      then show "unat a * 2 ^ 149 < mval (Suc n) * 2 ^ 0" unfolding ms v p by simp
    qed
    moreover have "n + of_bool up < 2 ^ 31" using x sh by (simp add: n_def)
    ultimately show "rounds_to (unat a * 2 ^ 149) 0 (unat (int_to_rep a)) \<and> unat (int_to_rep a) < 2 ^ 31"
      by (simp add: rep)
  qed
qed

lemma mag_small: "unat x < 2 ^ 31 \<Longrightarrow> mag x = unat x \<and> \<not> negative x"
  using unat_split [of x] by (auto split: if_splits)

lemma mag_or_sign:
  assumes "unat x < 2 ^ 31"
  shows "mag (x OR signBit) = unat x" and "negative (x OR signBit)"
proof -
  have "unat (signBit OR x) = unat signBit + unat x"
    using assms by (intro unat_or_add [where a = 1 and n = 31]) (simp_all add: fp_consts)
  then have u: "unat (x OR signBit) = 2 ^ 31 + unat x" by (simp add: fp_consts or.commute)
  then show "mag (x OR signBit) = unat x" using assms unfolding mag_mod by simp
  then show "negative (x OR signBit)" using u unat_split [of "x OR signBit"] by (simp split: if_splits)
qed

lemma sint_abs: "nat \<bar>sint a\<bar> = unat (if sint a < 0 then - a else a)" for a :: u32
proof -
  have "- (2 ^ 31) \<le> sint a" using sint_ge [of a] by simp
  then have "int (unat (- a)) = - sint a" if "sint a < 0"
    using uint_word_of_int [of "- sint a", where 'a = 32] mod_pos_pos_trivial [of "- sint a" "2 ^ 32"] that by simp
  moreover have "int (unat a) = sint a" if "\<not> sint a < 0"
    using unat_split [of a] that mag_lt [of a] by (simp add: sint_split split: if_splits)
  ultimately show ?thesis by (cases "sint a < 0") (metis abs_of_neg nat_int, metis abs_of_nonneg linorder_not_less nat_int)
qed

lemma float_of_int_rounds:
  "rounds_to (unat a * 2 ^ 149) 0 (mag (floatunsisf a)) \<and> \<not> negative (floatunsisf a) \<and>
   rounds_to (nat \<bar>sint a\<bar> * 2 ^ 149) 0 (mag (floatsisf a)) \<and> (negative (floatsisf a) \<longleftrightarrow> sint a < 0)"
proof (cases "a = 0")
  case True
  have z: "mag 0 = 0" "\<not> negative 0" by (simp_all add: mag_def negative_def)
  show ?thesis using rounds_to_exact [of 0 0] by (simp add: True floatunsisf_def floatsisf_def z)
next
  case False
  then have u: "rounds_to (unat a * 2 ^ 149) 0 (mag (floatunsisf a))" "\<not> negative (floatunsisf a)"
    using int_to_rep_rounds [OF False] mag_small [of "int_to_rep a"] by (simp_all add: floatunsisf_def)
  define b where "b = (if sint a < 0 then - a else a)"
  have "b \<noteq> 0" using False by (simp add: b_def)
  note r = int_to_rep_rounds [OF this]
  have f: "floatsisf a = int_to_rep b OR (if sint a < 0 then signBit else 0)" using False by (simp add: floatsisf_def b_def)
  have "mag (floatsisf a) = unat (int_to_rep b) \<and> (negative (floatsisf a) \<longleftrightarrow> sint a < 0)"
    using mag_or_sign [OF r(2)] mag_small [OF r(2)] by (simp add: f)
  with u r(1) show ?thesis by (simp add: sint_abs flip: b_def)
qed

text \<open>
  C31. The conversions from unsigned and signed 32-bit integers give the number nearest to the integer, ties to even,
  with its sign.
\<close>

theorem float_of_int_correct:
  "rounds_to (unat a * 2 ^ 149) 0 (mag (floatunsisf a)) \<and> \<not> negative (floatunsisf a) \<and>
   rounds_to (nat \<bar>sint a\<bar> * 2 ^ 149) 0 (mag (floatsisf a)) \<and> (negative (floatsisf a) \<longleftrightarrow> sint a < 0)"
  by (rule float_of_int_rounds)

section \<open>Conversion to integers\<close>

lemma fix_fields:
  "unat (drop_bit 23 (x AND absMask)) = mag x div 2 ^ 23"
  "unat (((x AND absMask) AND significandMask) OR implicitBit) = 2 ^ 23 + mag x mod 2 ^ 23"
proof -
  have m: "significandMask = mask 23" by (simp add: fp_consts mask_eq_exp_minus_1)
  show "unat (drop_bit 23 (x AND absMask)) = mag x div 2 ^ 23" by (simp only: unat_drop_bit mag_def)
  have l: "unat ((x AND absMask) AND significandMask) = mag x mod 2 ^ 23" by (simp add: m unat_and_mask mag_def)
  have "unat (implicitBit OR ((x AND absMask) AND significandMask)) = unat implicitBit + unat ((x AND absMask) AND significandMask)"
    by (intro unat_or_add [where a = 1 and n = 23]) (simp_all add: fp_consts l [unfolded fp_consts])
  then show "unat (((x AND absMask) AND significandMask) OR implicitBit) = 2 ^ 23 + mag x mod 2 ^ 23"
    by (simp add: l or.commute fp_consts(3))
qed

text \<open>The integer part of a magnitude.\<close>

definition trunc_mag :: "nat \<Rightarrow> nat" where
  "trunc_mag n = mval n div 2 ^ 149"

lemma trunc_shift:
  assumes "127 \<le> n div 2 ^ 23"
  defines "e \<equiv> n div 2 ^ 23 - 127"
  shows "trunc_mag n = (if e < 23 then (2 ^ 23 + n mod 2 ^ 23) div 2 ^ (23 - e) else (2 ^ 23 + n mod 2 ^ 23) * 2 ^ (e - 23))"
    and "2 ^ e \<le> trunc_mag n" and "trunc_mag n < 2 ^ Suc e"
proof -
  have "\<not> n < 2 ^ 23" using assms by (auto simp: div_eq_0_iff)
  then have m: "mval n = (2 ^ 23 + n mod 2 ^ 23) * 2 ^ (e + 126)" using assms by (simp add: mval_def)
  show t: "trunc_mag n = (if e < 23 then (2 ^ 23 + n mod 2 ^ 23) div 2 ^ (23 - e) else (2 ^ 23 + n mod 2 ^ 23) * 2 ^ (e - 23))"
  proof (cases "e < 23")
    case True
    have "(2::nat) ^ 149 = 2 ^ (23 - e) * 2 ^ (e + 126)" using True pow2_split [of "23 - e" 149] by (simp add: add.commute)
    then have "trunc_mag n = (2 ^ 23 + n mod 2 ^ 23) * 2 ^ (e + 126) div (2 ^ (23 - e) * 2 ^ (e + 126))"
      by (simp only: trunc_mag_def m)
    also have "\<dots> = (2 ^ 23 + n mod 2 ^ 23) div 2 ^ (23 - e)" by (rule div_mult_mult2) simp
    finally show ?thesis using True by simp
  next
    case False
    have "(2::nat) ^ (e + 126) = 2 ^ (e - 23) * 2 ^ 149" using False pow2_split [of 149 "e + 126"] by (simp add: mult.commute)
    then show ?thesis using False by (simp add: trunc_mag_def m)
  qed
  have "2 ^ 23 \<le> (2 ^ 23 + n mod 2 ^ 23 :: nat)" "2 ^ 23 + n mod 2 ^ 23 < (2 ^ 24 :: nat)" by simp_all
  moreover have "(2::nat) ^ (e + 149) = 2 ^ 23 * 2 ^ (e + 126)" "(2::nat) ^ (Suc e + 149) = 2 ^ 24 * 2 ^ (e + 126)"
    by (simp_all add: power_add)
  ultimately have "2 ^ (e + 149) \<le> mval n" "mval n < 2 ^ (Suc e + 149)" 
    unfolding m by (metis mult_le_mono1, metis mult_less_mono1 zero_less_numeral zero_less_power)
  then show "2 ^ e \<le> trunc_mag n" "trunc_mag n < 2 ^ Suc e"
    unfolding trunc_mag_def power_add
    by (simp_all only: less_eq_div_iff_mult_less_eq zero_less_power zero_less_numeral div_less_iff_less_mult)
qed

lemma trunc_below_one:
  assumes "n div 2 ^ 23 < 127"
  shows "trunc_mag n = 0"
proof -
  have "n < 127 * 2 ^ 23" using assms by (simp add: div_less_iff_less_mult)
  then have "mval n < mval (127 * 2 ^ 23)" by simp
  also have "mval (127 * 2 ^ 23) = 2 ^ 149" by (simp add: mval_def)
  finally show ?thesis by (simp add: trunc_mag_def)
qed

lemma int_of_float_trunc:
  "unat (fixunssfsi a) = (if negative a then 0 else min (trunc_mag (mag a)) (2 ^ 32 - 1)) \<and>
   fixsfsi a = (if trunc_mag (mag a) < 2 ^ 32
     then (if negative a then - of_nat (trunc_mag (mag a)) else of_nat (trunc_mag (mag a)))
     else if negative a then 0x80000000 else 0x7FFFFFFF)"
proof -
  define n where "n = mag a"
  define m where "m = 2 ^ 23 + n mod 2 ^ 23"
  define w where "w = ((a AND absMask) AND significandMask) OR implicitBit"
  note f = fix_fields [of a, folded n_def, folded m_def w_def]
  define ex where "ex = int (n div 2 ^ 23) - exponentBias"
  have fx: "fixsfsi a = (if ex < 0 then 0 else if 32 \<le> ex then (if negative a then 0x80000000 else 0x7FFFFFFF)
      else (if negative a then - 1 else 1) * (if ex < 23 then drop_bit (nat (23 - ex)) w else push_bit (nat (ex - 23)) w))"
    unfolding fixsfsi_def fixint_def Let_def f(1) ex_def [symmetric] w_def [symmetric] negative_def by simp
  have fixuns: "fixunssfsi a = (if negative a \<or> ex < 0 then 0 else if 32 \<le> ex then NOT 0
      else if ex < 23 then drop_bit (nat (23 - ex)) w else push_bit (nat (ex - 23)) w)"
    unfolding fixunssfsi_def fixuint_def Let_def f(1) ex_def [symmetric] w_def [symmetric] negative_def by simp
  show ?thesis
  proof (cases "n div 2 ^ 23 < 127")
    case True
    then have "ex < 0" by (simp add: ex_def fp_consts)
    then show ?thesis using trunc_below_one [OF True] by (simp add: fx fixuns flip: n_def)
  next
    case False
    define e where "e = n div 2 ^ 23 - 127"
    have ex: "ex = int e" using False by (simp add: ex_def e_def fp_consts)
    note t = trunc_shift [of n, folded e_def m_def]
    show ?thesis
    proof (cases "32 \<le> e")
      case True
      then have "(2::nat) ^ 32 \<le> 2 ^ e" by (intro power_increasing) auto
      then have "2 ^ 32 \<le> trunc_mag n" using t(2) False by simp
      then show ?thesis using True by (simp add: fx fixuns ex unsigned_minus_1_eq_mask mask_eq_exp_minus_1 flip: n_def)
    next
      case le: False
      define x where "x = (if e < 23 then drop_bit (23 - e) w else push_bit (e - 23) w)"
      have "2 ^ Suc e \<le> (2::nat) ^ 32" using le by (intro power_increasing) auto
      then have lt: "trunc_mag n < 2 ^ 32" using t(3) False by simp
      have "unat x = trunc_mag n"
        using t(1) False lt f(2) by (auto simp: x_def unat_drop_bit unat_push_bit)
      then have x: "unat x = trunc_mag n" "x = of_nat (trunc_mag n)" by (simp_all add: word_eq_of_nat)
      have "fixunssfsi a = (if negative a then 0 else x)" "fixsfsi a = (if negative a then - x else x)"
        using le by (simp_all add: fx fixuns ex x_def nat_diff_distrib')
      then show ?thesis using lt x by (auto simp flip: n_def)
    qed
  qed
qed

text \<open>
  C32. The conversions to integers truncate towards zero. A number whose integer part fits is converted exactly;
  unsigned conversion takes negative numbers to 0 and everything from \<open>2\<^sup>3\<^sup>2\<close> on to the largest integer, and signed
  conversion saturates from \<open>2\<^sup>3\<^sup>2\<close> on. Between \<open>2\<^sup>3\<^sup>1\<close> and \<open>2\<^sup>3\<^sup>2\<close> the signed conversion wraps.
\<close>

theorem int_of_float_correct:
  "unat (fixunssfsi a) = (if negative a then 0 else min (trunc_mag (mag a)) (2 ^ 32 - 1)) \<and>
   fixsfsi a = (if trunc_mag (mag a) < 2 ^ 32
     then (if negative a then - of_nat (trunc_mag (mag a)) else of_nat (trunc_mag (mag a)))
     else if negative a then 0x80000000 else 0x7FFFFFFF)"
  by (rule int_of_float_trunc)

lemma representable:
  assumes "N \<le> 2 ^ 24"
  obtains n where "n < inf_mag" and "mval n = N * 2 ^ 149"
proof (cases "N = 0 \<or> N = 2 ^ 24")
  case True
  then show ?thesis
  proof
    assume "N = 2 ^ 24"
    moreover have "mval (151 * 2 ^ 23) = 2 ^ 24 * 2 ^ 149" by (simp add: mval_def)
    ultimately show ?thesis using that [of "151 * 2 ^ 23"] by (simp add: inf_mag_def)
  qed (use that [of 0] in \<open>simp add: inf_mag_def\<close>)
next
  case False
  define a :: u32 where "a = of_nat N"
  have a: "unat a = N" using assms unat_of_nat [of N, where 'a = 32] by (simp add: a_def)
  define e where "e = bitlen N - 1"
  have e: "2 ^ e \<le> N" "N < 2 ^ Suc e" using False bitlen_ge [of N] bitlen_lt [of N] bitlen_pos [of N] by (simp_all add: e_def)
  have "e \<le> 23" using e(1) assms False power_increasing [of 24 e "2::nat"] by (cases "24 \<le> e") auto
  note x = int_to_rep_exact [of e a, unfolded a, OF e this]
  have "mval ((e + 127) * 2 ^ 23 + (N * 2 ^ (23 - e) - 2 ^ 23)) = N * (2 ^ (23 - e) * 2 ^ (e + 126))"
    using x mval_normal [of "e + 127" "N * 2 ^ (23 - e) - 2 ^ 23"] by simp
  also have "2 ^ (23 - e) * 2 ^ (e + 126) = (2::nat) ^ 149" using pow2_split [of "23 - e" 149] \<open>e \<le> 23\<close> by (simp add: add.commute)
  finally show ?thesis using x \<open>e \<le> 23\<close> by (intro that) (auto simp: inf_mag_def)
qed

text \<open>
  Converting an integer of at most 24 bits to single precision and back returns it.
\<close>

theorem float_int_roundtrip:
  assumes "\<bar>sint a\<bar> \<le> 2 ^ 24"
  shows "fixsfsi (floatsisf a) = a"
proof -
  define N where "N = nat \<bar>sint a\<bar>"
  obtain n where n: "n < inf_mag" "mval n = N * 2 ^ 149"
    using representable [of N] assms by (auto simp: N_def nat_le_iff)
  have "rounds_to (N * 2 ^ 149) 0 (mag (floatsisf a))" and s: "negative (floatsisf a) \<longleftrightarrow> sint a < 0"
    using float_of_int_rounds [of a] by (simp_all add: N_def)
  moreover have "rounds_to (N * 2 ^ 149) 0 n" using rounds_to_exact [of n 0] n by simp
  ultimately have "mag (floatsisf a) = n" using rounds_to_unique by blast
  then have "trunc_mag (mag (floatsisf a)) = N" using n(2) by (simp add: trunc_mag_def)
  moreover have "N < 2 ^ 32" using assms by (simp add: N_def nat_less_iff)
  ultimately have "fixsfsi (floatsisf a) = (if sint a < 0 then - of_nat N else of_nat N)"
    using int_of_float_trunc [of "floatsisf a"] s by simp
  also have "\<dots> = a" by (simp add: N_def sint_abs)
  finally show ?thesis .
qed

theorem float_int_roundtrip_witness: "fixsfsi (floatsisf 16777215) = 16777215"
  by (rule float_int_roundtrip) simp

section \<open>Counting zeros by halving\<close>

lemma upper_half_zero:
  fixes x :: u32
  assumes "unat x < 2 ^ (2 * h)"
  shows "x AND push_bit h (mask h) = 0 \<longleftrightarrow> unat x < 2 ^ h"
proof -
  have "unat x div 2 ^ h < 2 ^ h" using assms by (simp add: div_less_iff_less_mult mult_2 power_add)
  then have "drop_bit h x AND mask h = drop_bit h x" by (simp add: word_unat_eq_iff unat_and_mask unat_drop_bit)
  moreover have "x AND push_bit h (mask h) = push_bit h (drop_bit h x AND mask h)"
    by (rule bit_word_eqI) (auto simp: bit_and_iff bit_push_bit_iff bit_drop_bit_eq bit_mask_iff)
  ultimately have e: "x AND push_bit h (mask h) = push_bit h (drop_bit h x)" by simp
  have "unat x div 2 ^ h * 2 ^ h < 2 ^ 32"
    using unat_lt2 [of x] by (intro le_less_trans [OF div_times_less_eq_dividend]) simp
  then have "unat (x AND push_bit h (mask h)) = unat x div 2 ^ h * 2 ^ h" unfolding e by (simp add: unat_push_bit unat_drop_bit)
  then show ?thesis by (simp add: unat_eq_zero [symmetric] div_eq_0_iff)
qed

lemma bitlen_shift: "2 ^ h \<le> n \<Longrightarrow> bitlen n = h + bitlen (n div 2 ^ h)"
proof (induction h)
  case (Suc h)
  then have "2 ^ h \<le> n" by simp
  moreover have "2 \<le> n div 2 ^ h" using Suc.prems by (simp add: less_eq_div_iff_mult_less_eq)
  then have "bitlen (n div 2 ^ h) = Suc (bitlen (n div 2 ^ h div 2))" by (intro bitlen_pos) simp
  ultimately show ?case using Suc.IH by (simp add: mult.commute flip: div_mult2_eq)
qed simp

text \<open>One halving: the number of zeros found and the half that is left.\<close>

lemma clz_halve:
  fixes x :: u32
  assumes "unat x < 2 ^ (2 * h)" and "h < 32" and "t = (if x AND m = 0 then h else 0)" and "m = push_bit h (mask h)"
  shows "unat (drop_bit (h - t) x) < 2 ^ h" and "2 * h - bitlen (unat x) = t + (h - bitlen (unat (drop_bit (h - t) x)))"
proof -
  note z = upper_half_zero [OF assms(1), folded assms(4)]
  have b: "bitlen (unat x) \<le> 2 * h" using assms(1) by (simp add: bitlen_le_iff)
  show "unat (drop_bit (h - t) x) < 2 ^ h"
    using assms(1) z by (simp add: assms(3) unat_drop_bit div_less_iff_less_mult mult_2 power_add)
  show "2 * h - bitlen (unat x) = t + (h - bitlen (unat (drop_bit (h - t) x)))"
    using b z bitlen_shift [of h "unat x"] bitlen_le_iff [of "unat x" h]
    by (cases "unat x < 2 ^ h") (simp_all add: assms(3) unat_drop_bit)
qed

text \<open>\<^verbatim>\<open>__clzsi2\<close> is the builtin it replaces: it counts the zeros above the leading bit, all 32 for zero.\<close>

theorem clzsi2_correct: "unat (clzsi2 a) = clzsi a"
proof -
  have t: "unat (push_bit k (of_bool P) :: u32) = (if P then 2 ^ k else 0)" if "k \<le> 4" for k P
    using that power_increasing [OF that, of "2::nat"] by (simp add: unat_push_bit)
  define t1 :: u32 where "t1 = push_bit 4 (of_bool (a AND 0xFFFF0000 = 0))"
  define x1 where "x1 = drop_bit (16 - unat t1) a"
  define t2 :: u32 where "t2 = push_bit 3 (of_bool (x1 AND 0xFF00 = 0))"
  define x2 where "x2 = drop_bit (8 - unat t2) x1"
  define t3 :: u32 where "t3 = push_bit 2 (of_bool (x2 AND 0xF0 = 0))"
  define x3 where "x3 = drop_bit (4 - unat t3) x2"
  define t4 :: u32 where "t4 = push_bit 1 (of_bool (x3 AND 0xC = 0))"
  define x4 where "x4 = drop_bit (2 - unat t4) x3"
  have h1: "unat x1 < 2 ^ 16" "2 * 16 - bitlen (unat a) = unat t1 + (16 - bitlen (unat x1))"
    unfolding x1_def using unat_lt2 [of a] by (intro clz_halve [of a 16]; simp add: t1_def t mask_eq_exp_minus_1)+
  have h2: "unat x2 < 2 ^ 8" "2 * 8 - bitlen (unat x1) = unat t2 + (8 - bitlen (unat x2))"
    unfolding x2_def using h1 by (intro clz_halve [of x1 8]; simp add: t2_def t mask_eq_exp_minus_1)+
  have h3: "unat x3 < 2 ^ 4" "2 * 4 - bitlen (unat x2) = unat t3 + (4 - bitlen (unat x3))"
    unfolding x3_def using h2 by (intro clz_halve [of x2 4]; simp add: t3_def t mask_eq_exp_minus_1)+
  have h4: "unat x4 < 2 ^ 2" "2 * 2 - bitlen (unat x3) = unat t4 + (2 - bitlen (unat x4))"
    unfolding x4_def using h3 by (intro clz_halve [of x3 2]; simp add: t4_def t mask_eq_exp_minus_1)+
  have "x4 = 0 \<or> x4 = 1 \<or> x4 = 2 \<or> x4 = 3"
    using h4(1) by (auto simp: word_unat_eq_iff)
  then have last: "unat ((2 - x4) AND - of_bool (x4 AND 2 = 0)) = 2 - bitlen (unat x4)"
    by (elim disjE) (simp_all add: bitlen.simps)
  have "clzsi2 a = t1 + t2 + t3 + t4 + ((2 - x4) AND - of_bool (x4 AND 2 = 0))"
    by (simp only: clzsi2_def Let_def t1_def x1_def t2_def x2_def t3_def x3_def t4_def x4_def)
  moreover have "unat t1 \<le> 16" "unat t2 \<le> 8" "unat t3 \<le> 4" "unat t4 \<le> 2"
    by (simp_all add: t1_def t2_def t3_def t4_def t)
  ultimately have "unat (clzsi2 a) = unat t1 + unat t2 + unat t3 + unat t4 + (2 - bitlen (unat x4))"
    using last by (simp add: unat_word_ariths)
  then show ?thesis using h1(2) h2(2) h3(2) h4(2) by (simp add: clzsi_def)
qed

end
