(* ===== verification/Softfloat_Round.thy ===== *)
theory Softfloat_Round
  imports Softfloat_Convert
begin

text \<open>
  What the arithmetic of the software floating point shares: the normalisation of significands (\<^verbatim>\<open>normalize\<close> of
  \<^verbatim>\<open>fp_lib.h\<close>), shifting right with a sticky bit, and why rounding after it is right. A significand \<open>s\<close> with a
  sticky bit stands for an exact number \<open>v\<close> (in units of \<open>1 / c\<close>) as long as it compares like it with all
  multiples of \<open>2\<^sup>k\<close>, which is what \<open>sticks k v c s\<close> says; the numbers and the midpoints rounding compares with
  are such multiples.
\<close>

section \<open>Sticky significands\<close>

definition sticks :: "nat \<Rightarrow> nat \<Rightarrow> nat \<Rightarrow> nat \<Rightarrow> bool" where
  "sticks k v c s \<longleftrightarrow> (\<forall>t. (s < t * 2 ^ k \<longleftrightarrow> v < t * 2 ^ k * c) \<and> (s = t * 2 ^ k \<longleftrightarrow> v = t * 2 ^ k * c))"

definition jam :: "nat \<Rightarrow> nat \<Rightarrow> nat" where
  "jam s m = s div 2 ^ m + of_bool (s mod 2 ^ m \<noteq> 0 \<and> even (s div 2 ^ m))"

lemma sticksD:
  assumes "sticks k v c s" and "2 ^ k dvd t"
  shows "s < t \<longleftrightarrow> v < t * c" and "s = t \<longleftrightarrow> v = t * c"
  using assms by (auto simp: sticks_def elim!: dvdE simp: mult.commute)

lemma sticks_exact: "0 < c \<Longrightarrow> sticks k (s * c) c s"
  by (simp add: sticks_def)

lemma sticks_mono:
  assumes "sticks j v c s" and "j \<le> k"
  shows "sticks k v c s"
  unfolding sticks_def using sticksD [OF assms(1)] assms(2) by (simp add: le_imp_power_dvd)

lemma sticks_scale: "sticks k v c s \<Longrightarrow> 0 < z \<Longrightarrow> sticks k (v * z) (c * z) s"
  by (simp add: sticks_def flip: mult.assoc)

lemma sticks_shift_left:
  assumes "sticks k v (c * 2 ^ m) s"
  shows "sticks (k + m) v c (s * 2 ^ m)"
  using assms by (simp add: sticks_def power_add flip: mult.assoc) (simp add: mult_ac)

lemma jam_compare:
  shows "jam s m < 2 * t \<longleftrightarrow> s < 2 * t * 2 ^ m" and "jam s m = 2 * t \<longleftrightarrow> s = 2 * t * 2 ^ m"
proof -
  have s: "s = s div 2 ^ m * 2 ^ m + s mod 2 ^ m" by (rule div_mult_mod_eq [symmetric])
  have d: "s div 2 ^ m < 2 * t \<longleftrightarrow> s < 2 * t * 2 ^ m" by (simp add: div_less_iff_less_mult)
  have odd: "s div 2 ^ m + 1 < 2 * t \<longleftrightarrow> s div 2 ^ m < 2 * t" if "even (s div 2 ^ m)" using that by (auto elim!: evenE)
  show "jam s m < 2 * t \<longleftrightarrow> s < 2 * t * 2 ^ m"
    using d odd by (cases "s mod 2 ^ m \<noteq> 0 \<and> even (s div 2 ^ m)") (simp_all add: jam_def)
  have e: "s = 2 * t * 2 ^ m \<longleftrightarrow> s div 2 ^ m = 2 * t \<and> s mod 2 ^ m = 0" 
    using s by (metis add_0_right mod_mult_self2_is_0 nonzero_mult_div_cancel_right power_not_zero zero_neq_numeral)
  have "s div 2 ^ m + 1 \<noteq> 2 * t" if "even (s div 2 ^ m)" using that by (metis even_Suc Suc_eq_plus1 dvd_triv_left)
  then show "jam s m = 2 * t \<longleftrightarrow> s = 2 * t * 2 ^ m" unfolding e by (auto simp: jam_def split: if_splits)
qed

lemma sticks_jam:
  assumes "sticks k v c s" and "k \<le> Suc m"
  shows "sticks 1 v (c * 2 ^ m) (jam s m)"
proof -
  have "2 ^ k dvd 2 * t * 2 ^ m" for t :: nat
  proof -
    have "2 * t * 2 ^ m = 2 ^ Suc m * t" by simp
    then show ?thesis using le_imp_power_dvd [OF assms(2), of "2::nat"] by (metis dvd_mult2)
  qed
  from sticksD [OF assms(1) this] show ?thesis
    using jam_compare [of s m] by (simp add: sticks_def mult_ac)
qed

lemma sticks_add:
  assumes "even A"
  shows "sticks 1 (A * 2 ^ d + B) (2 ^ d) (A + jam B d)"
  unfolding sticks_def
proof (intro allI conjI)
  fix t
  from assms obtain a where a: "A = 2 * a" by (elim evenE)
  show "A + jam B d < t * 2 ^ 1 \<longleftrightarrow> A * 2 ^ d + B < t * 2 ^ 1 * 2 ^ d"
  proof (cases "a \<le> t")
    case True
    then obtain u where u: "t = a + u" using le_Suc_ex by blast
    then have "t * 2 ^ 1 * 2 ^ d = A * 2 ^ d + 2 * u * 2 ^ d" by (simp add: a distrib_right)
    then show ?thesis using jam_compare [of B d u] unfolding a u by auto
  next
    case False
    then have "t * 2 ^ 1 * 2 ^ d \<le> A * 2 ^ d" by (simp add: a)
    then have "\<not> A * 2 ^ d + B < t * 2 ^ 1 * 2 ^ d" by linarith
    moreover have "\<not> A + jam B d < t * 2 ^ 1" using False by (simp add: a)
    ultimately show ?thesis by blast
  qed
  show "A + jam B d = t * 2 ^ 1 \<longleftrightarrow> A * 2 ^ d + B = t * 2 ^ 1 * 2 ^ d"
  proof (cases "a \<le> t")
    case True
    then obtain u where u: "t = a + u" using le_Suc_ex by blast
    then have "t * 2 ^ 1 * 2 ^ d = A * 2 ^ d + 2 * u * 2 ^ d" by (simp add: a distrib_right)
    then show ?thesis using jam_compare [of B d u] unfolding a u by auto
  next
    case False
    then have "t * 2 ^ 1 * 2 ^ d < A * 2 ^ d" by (simp add: a)
    then have "A * 2 ^ d + B \<noteq> t * 2 ^ 1 * 2 ^ d" by linarith
    moreover have "A + jam B d \<noteq> t * 2 ^ 1" using False by (simp add: a)
    ultimately show ?thesis by blast
  qed
qed

lemma jam_le:
  assumes "even A" and "B \<le> A * 2 ^ d"
  shows "jam B d \<le> A"
proof -
  from assms(1) obtain a where a: "A = 2 * a" by (elim evenE)
  show ?thesis using assms(2) jam_compare [of B d a] unfolding a by linarith
qed

lemma sticks_sub:
  assumes "even A" and "B \<le> A * 2 ^ d"
  shows "sticks 1 (A * 2 ^ d - B) (2 ^ d) (A - jam B d)"
  unfolding sticks_def
proof (intro allI conjI)
  fix t
  from assms obtain a where a: "A = 2 * a" by (elim evenE)
  note le = jam_le [OF assms]
  show "A - jam B d < t * 2 ^ 1 \<longleftrightarrow> A * 2 ^ d - B < t * 2 ^ 1 * 2 ^ d"
  proof (cases "t \<le> a")
    case True
    then obtain u where u: "a = t + u" using le_Suc_ex by blast
    then have "A * 2 ^ d = t * 2 ^ 1 * 2 ^ d + 2 * u * 2 ^ d" by (simp add: a distrib_right)
    then show ?thesis using jam_compare [of B d u] le assms(2) unfolding a u by auto
  next
    case False
    then have "A * 2 ^ d < t * 2 ^ 1 * 2 ^ d" by (simp add: a)
    then show ?thesis using False a by (simp add: less_imp_diff_less)
  qed
  show "A - jam B d = t * 2 ^ 1 \<longleftrightarrow> A * 2 ^ d - B = t * 2 ^ 1 * 2 ^ d"
  proof (cases "t \<le> a")
    case True
    then obtain u where u: "a = t + u" using le_Suc_ex by blast
    then have "A * 2 ^ d = t * 2 ^ 1 * 2 ^ d + 2 * u * 2 ^ d" by (simp add: a distrib_right)
    then show ?thesis using jam_compare [of B d u] le assms(2) unfolding a u by auto
  next
    case False
    then have "A * 2 ^ d < t * 2 ^ 1 * 2 ^ d" by (simp add: a)
    then have "A * 2 ^ d - B \<noteq> t * 2 ^ 1 * 2 ^ d" by linarith
    moreover have "A - jam B d \<noteq> t * 2 ^ 1" using False by (simp add: a)
    ultimately show ?thesis by blast
  qed
qed

text \<open>Rounding a sticky significand with \<open>k\<close> bits below the last place.\<close>

text \<open>A sticky significand with \<open>k\<close> bits below the unit decides the rounding as the exact number does.\<close>

context float_format begin

lemma rounded_sticky:
  assumes S: "sticks j v c (q * 2 ^ k + g)" and "j < k" and g: "g < 2 ^ k" and n: "n < infn" and "0 < c"
    and "val n * d = q * 2 ^ k * c" and "val (Suc n) * d = (q + 1) * 2 ^ k * c"
  shows "rounded val infn d v (n + of_bool (2 ^ k < 2 * g \<or> odd n \<and> 2 * g = 2 ^ k))"
proof -
  obtain h where h: "k = Suc h" "j \<le> h" using \<open>j < k\<close> by (cases k) auto
  note cmp = sticksD [OF sticks_mono [OF S h(2)]]
  have "2 ^ h dvd q * 2 ^ k" "2 ^ h dvd (q + 1) * 2 ^ k" "2 ^ h dvd (2 * q + 1) * 2 ^ h" by (simp_all add: h)
  note lo = cmp [OF this(1)] and hi = cmp [OF this(2)] and mid = cmp [OF this(3)]
  have two: "2 ^ k = 2 * (2::nat) ^ h" by (simp add: h)
  have sum: "(val n + val (Suc n)) * d = 2 * ((2 * q + 1) * 2 ^ h * c)"
    unfolding distrib_right assms(6,7) two by (simp add: algebra_simps)
  have "q * 2 ^ k + g < (2 * q + 1) * 2 ^ h \<longleftrightarrow> 2 * g < 2 ^ k" "q * 2 ^ k + g = (2 * q + 1) * 2 ^ h \<longleftrightarrow> 2 * g = 2 ^ k"
    by (auto simp: two algebra_simps)
  then have "past_midpoint val d v n \<longleftrightarrow> 2 ^ k < 2 * g \<or> odd n \<and> 2 * g = 2 ^ k"
    unfolding past_midpoint_def sum using mid by auto
  moreover have "val n * d \<le> v" unfolding assms(6) using lo by (simp add: not_less [symmetric])
  moreover have "q * 2 ^ k + g < (q + 1) * 2 ^ k" using g by simp
  then have "v < val (Suc n) * d" unfolding assms(7) using hi by simp
  ultimately show ?thesis using rounded_between [OF n, of d v] by simp
qed

end

lemmas rounds_to_sticky = single.rounded_sticky [where d = "2 ^ s" for s, folded rounds_to_rounded]

lemma rounds_to_scale: "rounds_to (v * 2 ^ k) (s + k) n \<longleftrightarrow> rounds_to v s n"
  unfolding rounds_to_rounded power_add by (rule rounded_scale) simp

section \<open>Sticky shifts and normalisation on words\<close>

lemma unat_or_of_bool: "unat (x OR of_bool p) = unat x + of_bool (p \<and> even (unat x))" for x :: u32
proof (cases "even (unat x)")
  case True
  then obtain y where "unat x = 2 * y" by (rule evenE)
  then have y: "unat x = y * 2 ^ 1" by simp
  show ?thesis using unat_or_add [OF y, of "of_bool p"] True by simp
next
  case False
  then have "bit x 0" by (simp add: bit_0)
  then have "x OR of_bool p = x" by (intro bit_word_eqI) (auto simp: bit_or_iff bit_of_bool_iff)
  with False show ?thesis by simp
qed

lemma unat_sticky_shift:
  fixes x :: u32
  assumes "m \<le> 32"
  shows "unat (drop_bit m x OR of_bool (push_bit (32 - m) x \<noteq> 0)) = jam (unat x) m"
proof -
  have "push_bit (32 - m) x = 0 \<longleftrightarrow> unat x mod 2 ^ m = 0"
    using unat_push_bit_low [of m x] assms by (simp add: unat_eq_zero [symmetric])
  then show ?thesis by (simp add: unat_or_of_bool unat_drop_bit jam_def)
qed

definition normalize :: "u32 \<Rightarrow> int \<times> u32" where
  "normalize significand =
    (let shift = int (clzsi significand) - int (clzsi implicitBit)
     in (1 - shift, push_bit (nat shift) significand))"

lemma clz_norm:
  assumes "x \<noteq> 0" and "unat x < 2 ^ Suc b" and "b < 32"
  defines "sh \<equiv> clzsi x - (31 - b)"
  shows "31 - b \<le> clzsi x" and "sh \<le> b" and "unat (push_bit sh x) = unat x * 2 ^ sh"
    and "2 ^ b \<le> unat x * 2 ^ sh" and "unat x * 2 ^ sh < 2 ^ Suc b"
proof -
  note c = clzsi_bounds [OF assms(1)]
  have "2 ^ (31 - clzsi x) < (2::nat) ^ Suc b" using c(2) assms(2) by simp
  then have "31 - clzsi x < Suc b" by (rule power_less_imp_less_exp [rotated]) simp
  then show le: "31 - b \<le> clzsi x" "sh \<le> b" using c(1) assms(3) by (simp_all add: sh_def)
  have p: "(2::nat) ^ b = 2 ^ (31 - clzsi x) * 2 ^ sh" "(2::nat) ^ Suc b = 2 ^ (32 - clzsi x) * 2 ^ sh"
    using le c(1) assms(3) by (simp_all add: sh_def flip: power_add power_Suc)
  show b: "2 ^ b \<le> unat x * 2 ^ sh" "unat x * 2 ^ sh < 2 ^ Suc b" using c(2,3) unfolding p by simp_all
  have "2 ^ Suc b \<le> (2::nat) ^ 32" using assms(3) by (intro power_increasing) simp_all
  with b(2) show "unat (push_bit sh x) = unat x * 2 ^ sh" by (simp add: unat_push_bit)
qed

text \<open>Exponent and significand of an operand, a subnormal one normalised.\<close>

definition unpack :: "u32 \<Rightarrow> int \<times> u32" where
  "unpack aRep =
    (let exponent = int (unat (drop_bit significandBits aRep AND 0xFF));
         significand = aRep AND significandMask
     in if exponent = 0 then normalize significand else (exponent, significand))"

lemma fields:
  "unat (drop_bit 23 x AND 0xFF) = mag x div 2 ^ 23" "unat (x AND significandMask) = mag x mod 2 ^ 23" for x :: u32
proof -
  have "(0xFF :: u32) = mask 8" "significandMask = mask 23" by (simp_all add: fp_consts mask_eq_exp_minus_1)
  note m = this
  have "unat x div 2 ^ 23 mod 2 ^ 8 = unat x mod 2 ^ 31 div 2 ^ 23"
    using div_exp_mod_exp_eq [of "unat x" 23 8] by simp
  then show "unat (drop_bit 23 x AND 0xFF) = mag x div 2 ^ 23"
    unfolding m(1) unat_and_mask unat_drop_bit mag_mod .
  show "unat (x AND significandMask) = mag x mod 2 ^ 23"
    unfolding m(2) unat_and_mask mag_mod using mod_exp_eq [of "unat x" 31 23] by (simp add: min_def)
qed

lemma or_implicit:
  assumes "2 ^ 23 \<le> unat s" and "unat s < 2 ^ 24"
  shows "s OR implicitBit = s"
proof -
  have "unat s div 2 ^ 23 = 1" using assms by (simp add: div_nat_eqI)
  then have "bit s 23" using bit_unsigned_iff [of s 23, where 'a = nat] bit_iff_odd [of "unat s" 23] by simp
  then show ?thesis by (intro bit_word_eqI) (auto simp: bit_or_iff bit_implicit)
qed

lemma unpack_normal:
  assumes "2 ^ 23 \<le> mag x" and "mag x < inf_mag"
  defines "m \<equiv> 2 ^ 23 + mag x mod 2 ^ 23" and "e \<equiv> mag x div 2 ^ 23"
  shows "fst (unpack x) = int e" and "unat (snd (unpack x) OR implicitBit) = m" and "mval (mag x) = m * 2 ^ (e - 1)"
    and "1 \<le> e" and "e \<le> 254"
proof -
  show e: "1 \<le> e" using assms(1) by (simp add: e_def less_eq_div_iff_mult_less_eq)
  show "e \<le> 254" using assms(2) by (simp add: e_def inf_mag_def div_less_iff_less_mult flip: less_Suc_eq_le)
  have u: "unpack x = (int e, x AND significandMask)" using e by (simp only: unpack_def Let_def fields flip: e_def) simp
  then show "fst (unpack x) = int e" by simp
  have "unat (implicitBit OR (x AND significandMask)) = unat implicitBit + unat (x AND significandMask)"
    by (intro unat_or_add [where a = 1 and n = 23]) (simp_all add: fp_consts(3) fields)
  then show "unat (snd (unpack x) OR implicitBit) = m" by (simp add: u fields or.commute m_def fp_consts(3))
  show "mval (mag x) = m * 2 ^ (e - 1)" using assms(1) by (simp add: mval_def m_def e_def)
qed

lemma normalize_value:
  assumes "s \<noteq> 0" and "unat s < 2 ^ 23"
  obtains sh where "normalize s = (1 - int sh, push_bit sh s)" and "unat (push_bit sh s) = unat s * 2 ^ sh"
    and "sh \<le> 23" and "2 ^ 23 \<le> unat s * 2 ^ sh" and "unat s * 2 ^ sh < 2 ^ 24"
proof -
  have cl: "clzsi implicitBit = 8"
    using bitlen_unique [of 23 "2 ^ 23"] by (simp add: clzsi_def fp_consts)
  define sh where "sh = clzsi s - 8"
  have n: "8 \<le> clzsi s" "sh \<le> 23" "unat (push_bit sh s) = unat s * 2 ^ sh" "2 ^ 23 \<le> unat s * 2 ^ sh" "unat s * 2 ^ sh < 2 ^ 24"
    using clz_norm [OF assms(1), of 23] assms(2) by (simp_all add: sh_def)
  have "normalize s = (1 - int sh, push_bit sh s)" using n(1) by (simp add: normalize_def Let_def cl sh_def nat_diff_distrib' of_nat_diff)
  with n show ?thesis by (intro that [of sh])
qed

lemma unpack_subnormal:
  assumes "0 < mag x" and "mag x < 2 ^ 23"
  obtains sh where "fst (unpack x) = 1 - int sh" and "unat (snd (unpack x) OR implicitBit) = mag x * 2 ^ sh"
    and "sh \<le> 23" and "2 ^ 23 \<le> mag x * 2 ^ sh" and "mag x * 2 ^ sh < 2 ^ 24"
proof -
  define s where "s = x AND significandMask"
  have s: "unat s = mag x" using assms(2) by (simp add: s_def fields)
  then have "s \<noteq> 0" "unat s < 2 ^ 23" using assms by auto
  from normalize_value [OF this] obtain sh where n: "normalize s = (1 - int sh, push_bit sh s)" "unat (push_bit sh s) = mag x * 2 ^ sh"
    "sh \<le> 23" "2 ^ 23 \<le> mag x * 2 ^ sh" "mag x * 2 ^ sh < 2 ^ 24" unfolding s .
  have "unpack x = normalize s" using assms(2) by (simp only: unpack_def Let_def fields flip: s_def) simp
  moreover have "push_bit sh s OR implicitBit = push_bit sh s" using n by (intro or_implicit) simp_all
  ultimately show ?thesis using n that [of sh] by simp
qed

lemma unpack_val:
  assumes "0 < mag x" and "mag x < inf_mag"
  obtains e m where "unpack x = (e, snd (unpack x))" and "unat (snd (unpack x) OR implicitBit) = m"
    and "2 ^ 23 \<le> m" and "m < 2 ^ 24" and "- 22 \<le> e" and "e \<le> 254" and "mval (mag x) * 2 ^ 24 = m * 2 ^ nat (e + 23)"
proof (cases "mag x < 2 ^ 23")
  case True
  obtain sh where sh: "fst (unpack x) = 1 - int sh" "unat (snd (unpack x) OR implicitBit) = mag x * 2 ^ sh"
    "sh \<le> 23" "2 ^ 23 \<le> mag x * 2 ^ sh" "mag x * 2 ^ sh < 2 ^ 24" using unpack_subnormal [OF assms(1) True] .
  have "(2::nat) ^ 24 = 2 ^ sh * 2 ^ nat (1 - int sh + 23)" using pow2_split [of sh 24] sh(3) by (simp add: nat_diff_distrib')
  then have "mval (mag x) * 2 ^ 24 = mag x * 2 ^ sh * 2 ^ nat (1 - int sh + 23)" using True by (simp only: mval_def if_True mult.assoc)
  with sh show ?thesis by (intro that [of "1 - int sh" "mag x * 2 ^ sh"]) (simp_all add: prod_eq_iff)
next
  case False
  note n = unpack_normal [OF False [unfolded not_less] assms(2)]
  have "nat (int (mag x div 2 ^ 23) + 23) = mag x div 2 ^ 23 - 1 + 24" using n(4) by simp
  then have "mval (mag x) * 2 ^ 24 = (2 ^ 23 + mag x mod 2 ^ 23) * 2 ^ nat (int (mag x div 2 ^ 23) + 23)"
    by (simp only: n(3) power_add mult.assoc)
  moreover have "2 ^ 23 + mag x mod 2 ^ 23 < (2 ^ 24 :: nat)" by simp
  ultimately show ?thesis using n False
    by (intro that [of "int (mag x div 2 ^ 23)" "2 ^ 23 + mag x mod 2 ^ 23"]) (simp_all add: prod_eq_iff)
qed

end
