(* ===== verification/Softfloat_Add.thy ===== *)
theory Softfloat_Add
  imports Softfloat_Round
begin

text \<open>
  Single precision addition and subtraction, \<^verbatim>\<open>addsf3.c\<close> and \<^verbatim>\<open>subsf3.c\<close> with \<^verbatim>\<open>fp_add_impl.inc\<close>. The rounding mode
  \<^verbatim>\<open>__fe_getround\<close> returns is a parameter (no file of the repository defines it), and the result is paired with
  whether \<^verbatim>\<open>__fe_raise_inexact\<close> is called.
\<close>

section \<open>The functions\<close>

datatype round_mode = CRT_FE_TONEAREST | CRT_FE_DOWNWARD | CRT_FE_UPWARD | CRT_FE_TOWARDZERO

definition add_special :: "u32 \<Rightarrow> u32 \<Rightarrow> u32 option" where
  "add_special a b =
    (let aAbs = a AND absMask; bAbs = b AND absMask
     in if aAbs - 1 \<ge> infRep - 1 \<or> bAbs - 1 \<ge> infRep - 1
        then if aAbs > infRep then Some (a OR quietBit)
             else if bAbs > infRep then Some (b OR quietBit)
             else if aAbs = infRep then Some (if a XOR b = signBit then qnanRep else a)
             else if bAbs = infRep then Some b
             else if aAbs = 0 then Some (if bAbs = 0 then a AND b else b)
             else if bAbs = 0 then Some a
             else None
        else None)"

definition sticky_shift :: "nat \<Rightarrow> u32 \<Rightarrow> u32" where
  "sticky_shift n s = drop_bit n s OR of_bool (push_bit (typeWidth - n) s \<noteq> 0)"

definition add_align :: "nat \<Rightarrow> u32 \<Rightarrow> u32" where
  "add_align align bSignificand =
    (if align \<noteq> 0 then (if align < typeWidth then sticky_shift align bSignificand else 1) else bSignificand)"

definition add_round :: "round_mode \<Rightarrow> u32 \<Rightarrow> int \<Rightarrow> u32 \<Rightarrow> u32 \<times> bool" where
  "add_round mode resultSign aExponent aSignificand =
    (if aExponent \<ge> maxExponent then (infRep OR resultSign, False)
     else let (aExponent, aSignificand) =
                (if aExponent \<le> 0 then (0, sticky_shift (nat (1 - aExponent)) aSignificand) else (aExponent, aSignificand));
              roundGuardSticky = unat (aSignificand AND 7);
              result = drop_bit 3 aSignificand AND significandMask;
              result = result OR push_bit significandBits (word_of_int aExponent);
              result = result OR resultSign;
              result =
                (case mode of
                  CRT_FE_TONEAREST \<Rightarrow>
                    let result = (if roundGuardSticky > 4 then result + 1 else result)
                    in if roundGuardSticky = 4 then result + (result AND 1) else result
                | CRT_FE_DOWNWARD \<Rightarrow> if resultSign \<noteq> 0 \<and> roundGuardSticky \<noteq> 0 then result + 1 else result
                | CRT_FE_UPWARD \<Rightarrow> if resultSign = 0 \<and> roundGuardSticky \<noteq> 0 then result + 1 else result
                | CRT_FE_TOWARDZERO \<Rightarrow> result)
          in (result, roundGuardSticky \<noteq> 0))"

definition add_sum :: "bool \<Rightarrow> int \<Rightarrow> u32 \<Rightarrow> u32 \<Rightarrow> (int \<times> u32) option" where
  "add_sum subtraction aExponent aSignificand bSignificand =
    (if subtraction
     then let aSignificand = aSignificand - bSignificand
          in if aSignificand = 0 then None
             else if aSignificand < push_bit 3 implicitBit
             then let shift = int (clzsi aSignificand) - int (clzsi (push_bit 3 implicitBit))
                  in Some (aExponent - shift, push_bit (nat shift) aSignificand)
             else Some (aExponent, aSignificand)
     else let aSignificand = aSignificand + bSignificand
          in if aSignificand AND push_bit 4 implicitBit \<noteq> 0
             then let sticky = aSignificand AND 1
                  in Some (aExponent + 1, drop_bit 1 aSignificand OR sticky)
             else Some (aExponent, aSignificand))"

definition addXf3 :: "round_mode \<Rightarrow> u32 \<Rightarrow> u32 \<Rightarrow> u32 \<times> bool" where
  "addXf3 mode a b =
    (case add_special a b of
      Some r \<Rightarrow> (r, False)
    | None \<Rightarrow>
       (let (aRep, bRep) = (if b AND absMask > a AND absMask then (b, a) else (a, b));
            (aExponent, aSignificand) = unpack aRep;
            (bExponent, bSignificand) = unpack bRep;
            resultSign = aRep AND signBit;
            subtraction = (aRep XOR bRep) AND signBit \<noteq> 0;
            aSignificand = push_bit 3 (aSignificand OR implicitBit);
            bSignificand = push_bit 3 (bSignificand OR implicitBit);
            align = nat (aExponent - bExponent);
            bSignificand = add_align align bSignificand
        in case add_sum subtraction aExponent aSignificand bSignificand of
             None \<Rightarrow> (0, False)
           | Some (aExponent, aSignificand) \<Rightarrow> add_round mode resultSign aExponent aSignificand))"

definition addsf3 :: "round_mode \<Rightarrow> u32 \<Rightarrow> u32 \<Rightarrow> u32 \<times> bool" where
  "addsf3 mode a b = addXf3 mode a b"

definition subsf3 :: "round_mode \<Rightarrow> u32 \<Rightarrow> u32 \<Rightarrow> u32 \<times> bool" where
  "subsf3 mode a b = addsf3 mode a (b XOR signBit)"

section \<open>Rounding\<close>

lemma unat_sticky: "m \<le> 32 \<Longrightarrow> unat (sticky_shift m x) = jam (unat x) m"
  unfolding sticky_shift_def by (rule unat_sticky_shift)

lemma mag_of_unat:
  assumes "unat r = (if p then 2 ^ 31 else 0) + k" and "k < 2 ^ 31"
  shows "mag r = k" and "negative r \<longleftrightarrow> p"
  using assms unat_split [of r] mag_lt [of r] by (auto split: if_splits)

lemma unat_pack:
  fixes x sg :: u32
  assumes "0 \<le> E" and "E \<le> 254" and sg: "sg = (if p then signBit else 0)"
  shows "unat (((x AND significandMask) OR push_bit 23 (word_of_int E)) OR sg) =
    (if p then 2 ^ 31 else 0) + (nat E * 2 ^ 23 + unat x mod 2 ^ 23)"
proof -
  have m: "significandMask = mask 23" by (simp add: fp_consts mask_eq_exp_minus_1)
  have l: "unat (x AND significandMask) = unat x mod 2 ^ 23"
    unfolding m unat_and_mask ..
  have "(word_of_int E :: u32) = of_nat (nat E)" using assms(1) by simp
  then have "unat (word_of_int E :: u32) = nat E" using assms by (simp only: unat_of_nat) (simp add: nat_less_iff)
  then have h: "unat (push_bit 23 (word_of_int E) :: u32) = nat E * 2 ^ 23" using assms by (simp add: unat_push_bit nat_less_iff)
  define w where "w = (x AND significandMask) OR push_bit 23 (word_of_int E)"
  have w: "unat w = nat E * 2 ^ 23 + unat x mod 2 ^ 23"
    using unat_or_add [OF h, of "x AND significandMask"] by (simp add: w_def l h or.commute)
  have "nat E * 2 ^ 23 \<le> 254 * 2 ^ 23" using assms by simp
  then have "unat w < 2 ^ 31" using mod_less_divisor [of "2 ^ 23" "unat x"] unfolding w by simp
  then have "unat (signBit OR w) = unat signBit + unat w"
    by (intro unat_or_add [where a = 1 and n = 31]) (simp_all add: fp_consts(5))
  then show ?thesis unfolding w_def [symmetric] sg using w by (simp add: or.commute fp_consts(5))
qed

text \<open>Inserting the last place and rounding a significand that stands for \<open>v\<close>.\<close>

definition pack_nearest :: "bool \<Rightarrow> nat \<Rightarrow> nat \<Rightarrow> nat" where
  "pack_nearest p E S = (let n = E * 2 ^ 23 + S div 8 mod 2 ^ 23; g = S mod 8
     in (if p then 2 ^ 31 else 0) + (n + of_bool (8 < 2 * g \<or> odd n \<and> 2 * g = 8)))"

lemma unat_round_nearest:
  fixes s sg :: u32
  assumes "0 \<le> E" and "E \<le> 254" and sg: "sg = (if p then signBit else 0)"
  defines "result \<equiv> ((drop_bit 3 s AND significandMask) OR push_bit 23 (word_of_int E)) OR sg"
  defines "result' \<equiv> (if 4 < unat (s AND 7) then result + 1 else result)"
  shows "unat (if unat (s AND 7) = 4 then result' + (result' AND 1) else result') = pack_nearest p (nat E) (unat s)"
proof -
  have r: "unat result = (if p then 2 ^ 31 else 0) + (nat E * 2 ^ 23 + unat s div 8 mod 2 ^ 23)"
    using unat_pack [OF assms(1-3), of "drop_bit 3 s"] by (simp add: result_def unat_drop_bit)
  have "(7 :: u32) = mask 3" by (simp add: mask_eq_exp_minus_1)
  then have g: "unat (s AND 7) = unat s mod 8" by (simp only: unat_and_mask) simp
  have "nat E * 2 ^ 23 \<le> 254 * 2 ^ 23" using assms(2) by simp
  then have lt: "unat result < 2 ^ 32 - 1" using mod_less_divisor [of "2 ^ 23" "unat s div 8"] unfolding r by auto
  then have "unat (result + 1) = unat result + 1" by (simp add: unat_word_ariths)
  moreover have "result AND 1 = of_bool (odd (unat result))" by (simp add: and_one_eq mod_2_eq_odd)
  moreover have "odd (unat result) \<longleftrightarrow> odd (nat E * 2 ^ 23 + unat s div 8 mod 2 ^ 23)" unfolding r by simp
  ultimately show ?thesis unfolding result'_def g pack_nearest_def Let_def r [symmetric] add.assoc [symmetric]
    using r by auto
qed

lemma round_sticky:
  assumes st: "sticks 2 v (2 ^ (t + 24)) S" and n: "n = E * 2 ^ 23 + S div 8 mod 2 ^ 23" and lt: "n < inf_mag"
    and m: "mval n = S div 8 * 2 ^ t" and m': "mval (Suc n) = (S div 8 + 1) * 2 ^ t"
  shows "rounds_to v 27 (n + of_bool (8 < 2 * (S mod 8) \<or> odd n \<and> 2 * (S mod 8) = 8))"
proof -
  have "sticks 2 v (2 ^ (t + 24)) (S div 8 * 2 ^ 3 + S mod 8)" using st by simp
  moreover have "mval n * 2 ^ 27 = S div 8 * 2 ^ 3 * 2 ^ (t + 24)" "mval (Suc n) * 2 ^ 27 = (S div 8 + 1) * 2 ^ 3 * 2 ^ (t + 24)"
    unfolding m m' by (simp_all add: power_add algebra_simps)
  ultimately show ?thesis using rounds_to_sticky [of 2 v "2 ^ (t + 24)" "S div 8" 3 "S mod 8" n 27] lt by simp
qed

lemma rounds_to_mag_lt: "rounds_to v s n \<Longrightarrow> n < 2 ^ 31"
  by (simp add: rounds_to_def inf_mag_def)

lemma add_round_nearest:
  assumes st: "sticks 2 v (2 ^ nat (e + 23)) (unat s)" and s: "2 ^ 26 \<le> unat s" "unat s < 2 ^ 27" and e: "- 22 \<le> e"
    and sg: "sg = (if p then signBit else 0)"
  defines "r \<equiv> fst (add_round CRT_FE_TONEAREST sg e s)"
  shows "rounds_to v 27 (mag r) \<and> (negative r \<longleftrightarrow> p)"
proof -
  consider "255 \<le> e" | "1 \<le> e" "e \<le> 254" | "e \<le> 0" by linarith
  then show ?thesis
  proof cases
    case 1
    then have r: "r = infRep OR sg" by (simp add: r_def add_round_def fp_consts)
    have "mval inf_mag * 2 ^ 27 = 2 ^ 26 * 2 ^ 278" by (simp add: mval_def inf_mag_def)
    also have "\<dots> \<le> 2 ^ 26 * 2 ^ nat (e + 23)" using 1 by (intro mult_le_mono2 power_increasing) auto
    also have "\<dots> \<le> v" using sticksD(1) [OF st, of "2 ^ 26"] s(1) by (simp add: not_less [symmetric] le_imp_power_dvd)
    finally have "rounds_to v 27 inf_mag" by (rule rounds_to_overflow)
    moreover have "mag r = inf_mag" "negative r \<longleftrightarrow> p"
      using mag_or_sign [of infRep] mag_small [of infRep] by (simp_all add: r sg inf_mag_def fp_consts(7))
    ultimately show ?thesis by simp
  next
    case 2
    define E where "E = nat e"
    have E: "1 \<le> E" "E \<le> 254" "nat (e + 23) = (E - 1) + 24" using 2 by (simp_all add: E_def)
    define S where "S = unat s"
    have q: "2 ^ 23 \<le> S div 8" "S div 8 < 2 ^ 24" using s by (simp_all add: S_def less_eq_div_iff_mult_less_eq div_less_iff_less_mult)
    have f: "S div 8 mod 2 ^ 23 = S div 8 - 2 ^ 23" using q by (simp add: le_mod_geq)
    define n where "n = E * 2 ^ 23 + S div 8 mod 2 ^ 23"
    have nf: "n = E * 2 ^ 23 + (S div 8 - 2 ^ 23)" unfolding n_def f ..
    have "mval n = S div 8 * 2 ^ (E - 1)" unfolding nf using mval_normal [OF E(1), of "S div 8 - 2 ^ 23"] q by simp
    moreover have "n div 2 ^ 23 = E" unfolding nf using q by simp
    ultimately have "mval n = S div 8 * 2 ^ (E - 1)" "mval (Suc n) = (S div 8 + 1) * 2 ^ (E - 1)" by (simp_all add: mval_Suc)
    moreover have "n < inf_mag" unfolding nf using E(2) q by (simp add: inf_mag_def)
    ultimately have rt: "rounds_to v 27 (n + of_bool (8 < 2 * (S mod 8) \<or> odd n \<and> 2 * (S mod 8) = 8))"
      using st E(3) by (intro round_sticky [OF _ n_def]) (simp_all add: S_def)
    have "unat r = pack_nearest p E S"
      using 2 unat_round_nearest [OF _ 2(2) sg, of s] by (simp add: r_def add_round_def fp_consts(1) Let_def S_def E_def)
    then show ?thesis using mag_of_unat [OF _ rounds_to_mag_lt [OF rt], of r p] rt
      by (simp add: pack_nearest_def Let_def n_def)
  next
    case 3
    define k where "k = nat (1 - e)"
    have k: "1 \<le> k" "k \<le> 23" "nat (e + 23) + k = 24" using 3 e by (simp_all add: k_def)
    define S where "S = jam (unat s) k"
    have S: "unat (sticky_shift k s) = S" using k by (simp add: S_def unat_sticky)
    have "sticks 1 v (2 ^ nat (e + 23) * 2 ^ k) S" unfolding S_def using k by (intro sticks_jam [OF st]) simp
    then have st': "sticks 2 v (2 ^ (0 + 24)) S" using k(3) by (intro sticks_mono [where j = 1 and k = 2]) (simp_all flip: power_add)
    have "unat s < 2 * 2 ^ 25 * 2 ^ k"
    proof -
      have "2 * 2 ^ 25 * (2::nat) ^ 1 \<le> 2 * 2 ^ 25 * 2 ^ k" using k by (intro mult_le_mono2 power_increasing) simp_all
      with s(2) show ?thesis by simp
    qed
    then have "S < 2 ^ 26" using jam_compare(1) [of "unat s" k "2 ^ 25"] by (simp add: S_def)
    then have q: "S div 8 < 2 ^ 23" by (simp add: div_less_iff_less_mult)
    define n where "n = 0 * 2 ^ 23 + S div 8 mod 2 ^ 23"
    have "n = S div 8" "mval n = n" "mval (Suc n) = Suc n" using q by (simp_all add: n_def mval_subnormal)
    then have rt: "rounds_to v 27 (n + of_bool (8 < 2 * (S mod 8) \<or> odd n \<and> 2 * (S mod 8) = 8))"
      using q by (intro round_sticky [OF st' n_def]) (simp_all add: inf_mag_def)
    have "unat r = pack_nearest p 0 S"
    proof -
      have "(0::int) \<le> 0" "(0::int) \<le> 254" by simp_all
      note nr = unat_round_nearest [OF this sg, of "sticky_shift k s", unfolded S]
      have "add_round CRT_FE_TONEAREST sg e s = (let aSignificand = sticky_shift k s;
          result = ((drop_bit 3 aSignificand AND significandMask) OR push_bit 23 (word_of_int 0)) OR sg;
          result' = (if 4 < unat (aSignificand AND 7) then result + 1 else result)
        in (if unat (aSignificand AND 7) = 4 then result' + (result' AND 1) else result', unat (aSignificand AND 7) \<noteq> 0))"
        using 3 unfolding add_round_def fp_consts(1) k_def by (simp only: Let_def) simp
      then have "unat r = pack_nearest p (nat 0) S" unfolding r_def by (simp only: Let_def fst_conv nr)
      then show ?thesis by simp
    qed
    then show ?thesis using mag_of_unat [OF _ rounds_to_mag_lt [OF rt], of r p] rt
      by (simp add: pack_nearest_def Let_def n_def)
  qed
qed

section \<open>Sums and differences of significands\<close>

lemma unat_align:
  assumes "unat x < 2 ^ 27" and "x \<noteq> 0"
  shows "unat (add_align d x) = jam (unat x) d"
proof (cases "32 \<le> d")
  case True
  then have "2 ^ 27 \<le> (2::nat) ^ d" by (intro power_increasing) simp_all
  then have "unat x < 2 ^ d" using assms(1) by linarith
  then show ?thesis using True assms(2) by (simp add: add_align_def jam_def unat_eq_zero)
next
  case False
  then show ?thesis by (cases "d = 0") (simp_all add: add_align_def unat_sticky jam_def)
qed

lemma add_sum_plus:
  fixes aS bS :: u32
  assumes A: "2 ^ 26 \<le> unat aS" "unat aS < 2 ^ 27" "even (unat aS)" and B: "B < 2 ^ 27" and bS: "unat bS = jam B d"
    and e: "0 \<le> e + 22" and v: "v * 2 ^ d = (unat aS * 2 ^ d + B) * 2 ^ nat (e + 23)"
  obtains e' s where "add_sum False e aS bS = Some (e', s)" and "sticks 2 v (2 ^ nat (e' + 23)) (unat s)"
    and "2 ^ 26 \<le> unat s" and "unat s < 2 ^ 27" and "e \<le> e'"
proof -
  define S where "S = aS + bS"
  have "jam B d < 2 ^ 27" using B jam_compare(1) [of B d "2 ^ 26"] by (simp add: le_less_trans less_le_trans)
  then have S: "unat S = unat aS + jam B d" "unat S < 2 ^ 28" using A bS by (simp_all add: S_def unat_word_ariths)
  have "sticks 1 (v * 2 ^ d) (2 ^ d * 2 ^ nat (e + 23)) (unat S)"
    unfolding v S(1) using A(3) by (intro sticks_scale sticks_add) simp_all
  then have st: "sticks 1 v (2 ^ nat (e + 23)) (unat S)" by (simp add: sticks_def mult.commute [of "2 ^ d"] flip: mult.assoc)
  have "push_bit 4 implicitBit = (2 ^ 27 :: u32)" by (simp add: fp_consts)
  then have t: "S AND push_bit 4 implicitBit \<noteq> 0 \<longleftrightarrow> bit S 27" using and_exp_eq_0_iff_not_bit [of S 27] by simp
  have "unat S div 2 ^ 27 < 2" using S(2) by (simp add: div_less_iff_less_mult)
  then have "odd (unat S div 2 ^ 27) \<longleftrightarrow> 2 ^ 27 \<le> unat S"
    by (cases "unat S div 2 ^ 27") (auto simp: div_eq_0_iff less_Suc_eq)
  then have b: "bit S 27 \<longleftrightarrow> 2 ^ 27 \<le> unat S"
    using bit_iff_odd [of "unat S" 27] by (simp add: bit_unsigned_iff)
  show ?thesis
  proof (cases "bit S 27")
    case True
    have "S AND 1 = of_bool (odd (unat S))" by (simp add: and_one_eq mod_2_eq_odd)
    then have j: "unat (drop_bit 1 S OR (S AND 1)) = jam (unat S) 1"
      by (simp only: unat_or_of_bool unat_drop_bit jam_def) (simp flip: even_iff_mod_2_eq_zero)
    have "sticks 1 v (2 ^ nat (e + 23) * 2 ^ 1) (jam (unat S) 1)" by (intro sticks_jam [OF st]) simp
    moreover have "2 ^ nat (e + 23) * 2 ^ 1 = (2::nat) ^ nat (e + 1 + 23)"
    proof -
      have "nat (e + 1 + 23) = nat (e + 23) + 1" using e by simp
      then show ?thesis by (simp only: power_add)
    qed
    ultimately have "sticks 1 v (2 ^ nat (e + 1 + 23)) (jam (unat S) 1)" by (simp only:)
    then have "sticks 2 v (2 ^ nat (e + 1 + 23)) (jam (unat S) 1)" by (rule sticks_mono) simp
    moreover have "2 ^ 26 \<le> jam (unat S) 1" "jam (unat S) 1 < 2 ^ 27"
      using jam_compare(1) [of "unat S" 1 "2 ^ 25"] jam_compare(1) [of "unat S" 1 "2 ^ 26"] S(2) True b by simp_all
    ultimately show ?thesis
      using True t j by (intro that [of "e + 1" "drop_bit 1 S OR (S AND 1)"]) (simp_all add: add_sum_def Let_def flip: S_def)
  next
    case False
    then show ?thesis using t b S A(1) sticks_mono [OF st]
      by (intro that [of e S]) (simp_all add: add_sum_def Let_def flip: S_def)
  qed
qed

text \<open>Shifting out the zeros of a difference: it is exact, or one place is enough.\<close>

lemma cancel_sticks:
  assumes A: "2 ^ 26 \<le> A" "A < 2 ^ 27" "even A" and B: "B < 2 ^ 27" "8 dvd B" "B \<le> A * 2 ^ d"
    and e: "int d \<le> e + 22" and v: "v * 2 ^ d = (A * 2 ^ d - B) * 2 ^ nat (e + 23)" and "2 ^ 27 dvd v"
    and S: "S = A - jam B d" "S \<noteq> 0" and sh: "2 ^ 26 \<le> S * 2 ^ sh" "S * 2 ^ sh < 2 ^ 27" "S < 2 ^ 26"
    and st: "sticks 1 v (2 ^ nat (e + 23)) S"
  shows "sticks 2 v (2 ^ nat (e - int sh + 23)) (S * 2 ^ sh) \<and> - 22 \<le> e - int sh"
proof (cases "d \<le> 3")
  case True
  have "2 ^ d dvd B" using dvd_trans [OF le_imp_power_dvd [OF True, of "2::nat"]] B(2) by simp
  then obtain b where b: "B = b * 2 ^ d" by (auto elim: dvdE simp: mult.commute)
  then have "jam B d = b" by (simp add: jam_def)
  then have "v * 2 ^ d = S * 2 ^ nat (e + 23) * 2 ^ d" unfolding v S(1) by (simp add: b mult.assoc mult.commute flip: diff_mult_distrib)
  then have vS: "v = S * 2 ^ nat (e + 23)" by simp
  have "2 ^ 27 \<le> v" using assms(9) S(2) vS by (intro dvd_imp_le) simp_all
  have "sh < nat (e + 23)"
  proof (rule ccontr)
    assume "\<not> sh < nat (e + 23)"
    then have "S * 2 ^ nat (e + 23) \<le> S * 2 ^ sh" by (intro mult_le_mono2 power_increasing) simp_all
    with \<open>2 ^ 27 \<le> v\<close> sh(2) vS show False by simp
  qed
  then have n: "nat (e - int sh + 23) = nat (e + 23) - sh" "- 22 \<le> e - int sh" by auto
  have "v = S * 2 ^ sh * 2 ^ nat (e - int sh + 23)"
    unfolding vS n(1) using \<open>sh < nat (e + 23)\<close> pow2_split [of sh "nat (e + 23)"] by (simp add: mult.assoc)
  then show ?thesis using sticks_exact [of "2 ^ nat (e - int sh + 23)" 2 "S * 2 ^ sh"] n(2) by simp
next
  case False
  then have "2 ^ 4 \<le> (2::nat) ^ d" by (intro power_increasing) simp_all
  then have "2 * 2 ^ 22 * 2 ^ 4 \<le> 2 * 2 ^ 22 * (2::nat) ^ d" by (rule mult_le_mono2)
  then have "jam B d < 2 * 2 ^ 22" using B(1) jam_compare(1) [of B d "2 ^ 22"] by simp
  then have "2 ^ 25 \<le> S" using A(1) S(1) by simp
  then have "2 ^ 25 * 2 ^ sh < (2::nat) ^ 27" using sh(2) by (metis le_less_trans mult_le_mono1)
  then have "2 ^ (25 + sh) < (2::nat) ^ 27" by (simp only: power_add)
  then have "sh < 2" using power_less_imp_less_exp [of "2::nat" "25 + sh" 27] by simp
  moreover have "sh \<noteq> 0" using sh by (metis mult.right_neutral not_less power_0)
  ultimately have "sh = 1" by simp
  have n: "nat (e + 23) = nat (e - int sh + 23) + 1" using e False \<open>sh = 1\<close> by simp
  have "sticks 1 v (2 ^ nat (e - int sh + 23) * 2 ^ 1) S" using st unfolding n power_add .
  then have "sticks (1 + 1) v (2 ^ nat (e - int sh + 23)) (S * 2 ^ 1)" by (rule sticks_shift_left)
  then show ?thesis using \<open>sh = 1\<close> e False by (simp add: numeral_2_eq_2)
qed

lemma add_sum_minus:
  fixes aS bS :: u32
  assumes A: "2 ^ 26 \<le> unat aS" "unat aS < 2 ^ 27" "even (unat aS)" and B: "B < 2 ^ 27" "8 dvd B" "B \<le> unat aS * 2 ^ d"
    and bS: "unat bS = jam B d" and e: "int d \<le> e + 22"
    and v: "v * 2 ^ d = (unat aS * 2 ^ d - B) * 2 ^ nat (e + 23)" and v27: "2 ^ 27 dvd v"
  shows "case add_sum True e aS bS of None \<Rightarrow> v = 0
    | Some (e', s) \<Rightarrow> v \<noteq> 0 \<and> sticks 2 v (2 ^ nat (e' + 23)) (unat s) \<and> 2 ^ 26 \<le> unat s \<and> unat s < 2 ^ 27 \<and> - 22 \<le> e'"
proof -
  define S where "S = aS - bS"
  have le: "jam B d \<le> unat aS" by (rule jam_le [OF A(3) B(3)])
  then have "bS \<le> aS" by (simp add: word_le_nat_alt bS)
  then have S: "unat S = unat aS - jam B d" by (simp add: S_def unat_sub bS)
  have "sticks 1 (v * 2 ^ d) (2 ^ d * 2 ^ nat (e + 23)) (unat S)"
    unfolding v S using A(3) B(3) by (intro sticks_scale sticks_sub) simp_all
  then have st: "sticks 1 v (2 ^ nat (e + 23)) (unat S)" by (simp add: sticks_def mult.commute [of "2 ^ d"] flip: mult.assoc)
  have z: "S = 0 \<longleftrightarrow> v = 0" using sticksD(2) [OF st, of 0] by (simp add: unat_eq_zero)
  have h: "unat (push_bit 3 implicitBit) = 2 ^ 26" by (simp add: fp_consts)
  have cl: "clzsi (push_bit 3 implicitBit) = 5" using bitlen_unique [of 26 "2 ^ 26"] by (simp add: clzsi_def h)
  consider "S = 0" | "S \<noteq> 0" "2 ^ 26 \<le> unat S" | "S \<noteq> 0" "unat S < 2 ^ 26" by linarith
  then show ?thesis
  proof cases
    case 1
    then have "add_sum True e aS bS = None" by (simp add: add_sum_def Let_def flip: S_def)
    with z 1 show ?thesis by simp
  next
    case 2
    then have "add_sum True e aS bS = Some (e, S)"
      by (simp add: add_sum_def Let_def word_less_nat_alt h flip: S_def)
    moreover have "sticks 2 v (2 ^ nat (e + 23)) (unat S)" using st by (rule sticks_mono) simp
    ultimately show ?thesis using 2 z S A(2) e by simp
  next
    case 3
    define sh where "sh = clzsi S - 5"
    have n: "5 \<le> clzsi S" "unat (push_bit sh S) = unat S * 2 ^ sh" "2 ^ 26 \<le> unat S * 2 ^ sh" "unat S * 2 ^ sh < 2 ^ 27"
      using clz_norm [of S 26] 3 by (simp_all add: sh_def)
    then have "add_sum True e aS bS = Some (e - int sh, push_bit sh S)"
      using 3 by (simp add: add_sum_def Let_def word_less_nat_alt h cl sh_def nat_diff_distrib' of_nat_diff flip: S_def)
    moreover have "unat S \<noteq> 0" using 3 by (simp add: unat_eq_zero)
    then have "sticks 2 v (2 ^ nat (e - int sh + 23)) (unat S * 2 ^ sh) \<and> - 22 \<le> e - int sh"
      using cancel_sticks [OF A B e v v27 S _ n(3,4) 3(2) st] by blast
    ultimately show ?thesis using 3 z n by simp
  qed
qed

section \<open>The sum of two numbers\<close>

definition add_ordered :: "round_mode \<Rightarrow> u32 \<Rightarrow> u32 \<Rightarrow> u32 \<times> bool" where
  "add_ordered mode aRep bRep =
    (let (aExponent, aSignificand) = unpack aRep; (bExponent, bSignificand) = unpack bRep
     in case add_sum ((aRep XOR bRep) AND signBit \<noteq> 0) aExponent (push_bit 3 (aSignificand OR implicitBit))
          (add_align (nat (aExponent - bExponent)) (push_bit 3 (bSignificand OR implicitBit))) of
          None \<Rightarrow> (0, False)
        | Some (aExponent, aSignificand) \<Rightarrow> add_round mode (aRep AND signBit) aExponent aSignificand)"

lemma addXf3_ordered:
  "addXf3 mode a b = (case add_special a b of Some r \<Rightarrow> (r, False)
    | None \<Rightarrow> if mag a < mag b then add_ordered mode b a else add_ordered mode a b)"
  unfolding addXf3_def add_ordered_def Let_def mag_def word_less_nat_alt by (auto split: option.splits prod.splits if_splits)

lemma unpack_shifted:
  assumes "0 < mag x" and "mag x < inf_mag"
  obtains e s where "unpack x = (e, s)" and "2 ^ 26 \<le> unat (push_bit 3 (s OR implicitBit))"
    and "unat (push_bit 3 (s OR implicitBit)) < 2 ^ 27" and "8 dvd unat (push_bit 3 (s OR implicitBit))"
    and "- 22 \<le> e" and "mval (mag x) * 2 ^ 27 = unat (push_bit 3 (s OR implicitBit)) * 2 ^ nat (e + 23)"
proof -
  obtain e m where u: "unpack x = (e, snd (unpack x))" "unat (snd (unpack x) OR implicitBit) = m" "2 ^ 23 \<le> m" "m < 2 ^ 24"
    "- 22 \<le> e" "mval (mag x) * 2 ^ 24 = m * 2 ^ nat (e + 23)" using unpack_val [OF assms] by metis
  define P where "P = push_bit 3 (snd (unpack x) OR implicitBit)"
  have P: "unat P = m * 8" unfolding P_def unat_push_bit u(2) using u(4) by simp
  have "mval (mag x) * 2 ^ 27 = mval (mag x) * 2 ^ 24 * 8" by simp
  also have "\<dots> = unat P * 2 ^ nat (e + 23)" unfolding u(6) P by simp
  finally have v: "mval (mag x) * 2 ^ 27 = unat P * 2 ^ nat (e + 23)" .
  show ?thesis by (rule that [OF u(1), folded P_def]) (use u(3-5) P v in simp_all)
qed

lemma exponent_mono:
  fixes m m' :: nat
  assumes "m * 2 ^ nat (e + 23) \<le> m' * 2 ^ nat (e' + 23)" and "2 ^ 26 \<le> m" and "m' < 2 ^ 27" and "- 22 \<le> e" and "- 22 \<le> e'"
  shows "e \<le> e'"
proof (rule ccontr)
  assume "\<not> e \<le> e'"
  then have "nat (e' + 23) + 1 \<le> nat (e + 23)" using assms by simp
  then have "(2::nat) ^ (nat (e' + 23) + 1) \<le> 2 ^ nat (e + 23)" by (rule power_increasing) simp
  then have "2 ^ 26 * 2 ^ (nat (e' + 23) + 1) \<le> m * 2 ^ nat (e + 23)" using assms(2) by (intro mult_le_mono)
  also have "\<dots> \<le> m' * 2 ^ nat (e' + 23)" by (rule assms(1))
  also have "\<dots> < 2 ^ 27 * 2 ^ nat (e' + 23)" using assms(3) by simp
  finally show False by simp
qed

lemma sign_of: "x AND signBit = (if negative x then signBit else 0)"
proof -
  have "bit signBit n \<longleftrightarrow> n = 31" for n unfolding signBit_def bit_push_bit_iff by (auto simp: bit_1_iff)
  then show ?thesis unfolding negative_bit by (intro bit_word_eqI) (auto simp: bit_and_iff)
qed

lemma signs_differ: "(a XOR b) AND signBit \<noteq> 0 \<longleftrightarrow> negative a \<noteq> negative b"
  using sign_of [of "a XOR b"] by (auto simp: negative_bit bit_xor_iff fp_consts(5) split: if_splits)

lemma add_ordered_nearest:
  assumes b: "0 < mag b" "mag b \<le> mag a" and a: "mag a < inf_mag"
  defines "x \<equiv> (if negative a = negative b then mval (mag a) + mval (mag b) else mval (mag a) - mval (mag b))"
  defines "r \<equiv> fst (add_ordered CRT_FE_TONEAREST a b)"
  shows "rounds_to x 0 (mag r) \<and> (if x = 0 then r = 0 else (negative r \<longleftrightarrow> negative a))"
proof -
  obtain ea sa where ua: "unpack a = (ea, sa)" and A: "2 ^ 26 \<le> unat (push_bit 3 (sa OR implicitBit))"
    "unat (push_bit 3 (sa OR implicitBit)) < 2 ^ 27" "8 dvd unat (push_bit 3 (sa OR implicitBit))" "- 22 \<le> ea"
    "mval (mag a) * 2 ^ 27 = unat (push_bit 3 (sa OR implicitBit)) * 2 ^ nat (ea + 23)"
    using unpack_shifted [of a] a b by auto
  obtain eb sb where ub: "unpack b = (eb, sb)" and B: "2 ^ 26 \<le> unat (push_bit 3 (sb OR implicitBit))"
    "unat (push_bit 3 (sb OR implicitBit)) < 2 ^ 27" "8 dvd unat (push_bit 3 (sb OR implicitBit))" "- 22 \<le> eb"
    "mval (mag b) * 2 ^ 27 = unat (push_bit 3 (sb OR implicitBit)) * 2 ^ nat (eb + 23)"
    using unpack_shifted [of b] a b by auto
  define P Q where "P = push_bit 3 (sa OR implicitBit)" and "Q = push_bit 3 (sb OR implicitBit)"
  note A = A [folded P_def] and B = B [folded Q_def]
  define d where "d = nat (ea - eb)"
  have le: "mval (mag b) * 2 ^ 27 \<le> mval (mag a) * 2 ^ 27" using b(2) by simp
  then have "eb \<le> ea" unfolding A(5) B(5) by (rule exponent_mono [OF _ B(1) A(2) B(4) A(4)])
  then have d: "nat (ea + 23) = nat (eb + 23) + d" "int d \<le> ea + 22" using B(4) by (simp_all add: d_def)
  have QP: "unat Q \<le> unat P * 2 ^ d" using le unfolding A(5) B(5) d(1) power_add by simp
  have even: "even (unat P)" using dvd_trans [of 2 8 "unat P"] A(3) by simp
  have "Q \<noteq> 0" using B(1) by auto
  then have al: "unat (add_align d Q) = jam (unat Q) d" by (intro unat_align B(2))
  have plus: "(mval (mag a) + mval (mag b)) * 2 ^ 27 * 2 ^ d = (unat P * 2 ^ d + unat Q) * 2 ^ nat (ea + 23)"
    unfolding distrib_right A(5) B(5) d(1) power_add by (simp add: mult_ac)
  have minus: "(mval (mag a) - mval (mag b)) * 2 ^ 27 * 2 ^ d = (unat P * 2 ^ d - unat Q) * 2 ^ nat (ea + 23)"
    unfolding diff_mult_distrib A(5) B(5) d(1) power_add by (simp add: mult_ac)
  have sg: "a AND signBit = (if negative a then signBit else 0)" by (rule sign_of)
  have r: "r = fst (case add_sum (negative a \<noteq> negative b) ea P (add_align d Q) of None \<Rightarrow> (0, False)
      | Some (e, s) \<Rightarrow> add_round CRT_FE_TONEAREST (a AND signBit) e s)"
    by (simp add: r_def add_ordered_def ua ub signs_differ P_def Q_def d_def)
  show ?thesis
  proof (cases "negative a = negative b")
    case True
    then have x: "x = mval (mag a) + mval (mag b)" by (simp add: x_def)
    obtain e' s where s: "add_sum False ea P (add_align d Q) = Some (e', s)" "sticks 2 (x * 2 ^ 27) (2 ^ nat (e' + 23)) (unat s)"
      "2 ^ 26 \<le> unat s" "unat s < 2 ^ 27" "ea \<le> e'"
      using add_sum_plus [OF A(1,2) even B(2) al _ plus [folded x]] A(4) by auto
    have "r = fst (add_round CRT_FE_TONEAREST (a AND signBit) e' s)" using True by (simp add: r s(1))
    then have "rounds_to (x * 2 ^ 27) 27 (mag r) \<and> (negative r \<longleftrightarrow> negative a)"
      using add_round_nearest [OF s(2-4) _ sg] s(5) A(4) by simp
    moreover have "x \<noteq> 0" using b(1) mval_less [of 0 "mag b"] unfolding x by simp
    ultimately show ?thesis using rounds_to_scale [of x 27 0] by simp
  next
    case False
    then have x: "x = mval (mag a) - mval (mag b)" by (simp add: x_def)
    have d27: "2 ^ 27 dvd x * 2 ^ 27" by simp
    note m = add_sum_minus [OF A(1,2) even B(2,3) QP al d(2) minus [folded x] d27]
    show ?thesis
    proof (cases "add_sum True ea P (add_align d Q)")
      case None
      with m have "x = 0" by simp
      moreover have "r = 0" using None False by (simp add: r)
      ultimately show ?thesis using rounds_to_exact [of 0 0] by (simp add: mag_def)
    next
      case (Some es)
      then obtain e' s where s: "add_sum True ea P (add_align d Q) = Some (e', s)" by (cases es) simp
      with m have st: "sticks 2 (x * 2 ^ 27) (2 ^ nat (e' + 23)) (unat s)" "2 ^ 26 \<le> unat s" "unat s < 2 ^ 27" "- 22 \<le> e'" "x \<noteq> 0"
        by simp_all
      have "r = fst (add_round CRT_FE_TONEAREST (a AND signBit) e' s)" using False by (simp add: r s(1))
      then have "rounds_to (x * 2 ^ 27) 27 (mag r) \<and> (negative r \<longleftrightarrow> negative a)"
        using add_round_nearest [OF st(1-4) sg] by simp
      then show ?thesis using rounds_to_scale [of x 27 0] st(5) by simp
    qed
  qed
qed

section \<open>Special operands\<close>

lemma abs_unat: "unat (x AND absMask) = mag x"
  by (simp add: mag_def)

lemma abs_eq_inf: "x AND absMask = infRep \<longleftrightarrow> mag x = inf_mag"
  by (simp add: word_unat_eq_iff abs_unat inf_mag_def fp_consts(7))

lemma special_test: "(x AND absMask) - 1 \<ge> infRep - 1 \<longleftrightarrow> mag x = 0 \<or> inf_mag \<le> mag x"
proof (cases "mag x = 0")
  case True
  then have "x AND absMask = 0" by (simp add: abs_eq_0)
  then show ?thesis by (simp only:) (simp add: True fp_consts)
next
  case False
  have "unat ((x AND absMask) - 1) = mag x - 1"
    using False by (subst unat_sub) (simp_all add: word_le_nat_alt abs_unat)
  then show ?thesis using False by (simp add: word_le_nat_alt inf_mag_def fp_consts(7)) linarith
qed

lemma quiet_nan: "is_nan x \<Longrightarrow> is_nan (x OR quietBit)"
proof -
  have "(x OR quietBit) AND absMask = (x AND absMask) OR quietBit"
    by (simp add: bit.conj_disj_distrib2 fp_consts)
  moreover have "n \<le> n OR m" for n m :: nat using or_greater_eq [of "int m" "int n"] by (simp flip: of_nat_or_eq)
  ultimately have "mag x \<le> mag (x OR quietBit)" by (simp add: mag_def unsigned_or_eq)
  then show "is_nan x \<Longrightarrow> is_nan (x OR quietBit)" by (simp add: is_nan_def)
qed

text \<open>What IEEE-754 asks of a sum: \<open>r\<close> is a sum of \<open>a\<close> and \<open>b\<close>, rounded to nearest.\<close>

definition ieee_sum :: "u32 \<Rightarrow> u32 \<Rightarrow> u32 \<Rightarrow> bool" where
  "ieee_sum a b r \<longleftrightarrow>
    (let x = fval a + fval b
     in if is_nan a \<or> is_nan b then is_nan r
        else if \<not> is_finite a then (if \<not> is_finite b \<and> negative a \<noteq> negative b then is_nan r else r = a)
        else if \<not> is_finite b then r = b
        else rounds_to (nat \<bar>x\<bar>) 0 (mag r) \<and> (negative r \<longleftrightarrow> (if x = 0 then negative a \<and> negative b else x < 0)))"

lemma negsf2_fields: "mag (negsf2 b) = mag b" "negative (negsf2 b) \<longleftrightarrow> \<not> negative b"
proof -
  have "(b XOR signBit) AND absMask = b AND absMask" by (simp add: bit.conj_xor_distrib2 fp_consts)
  then show "mag (negsf2 b) = mag b" by (simp add: mag_def negsf2_def)
  show "negative (negsf2 b) \<longleftrightarrow> \<not> negative b"
    using signs_differ [of b signBit] by (simp add: negsf2_def negative_def fp_consts(5))
qed

lemma fval_negsf2: "fval (negsf2 b) = - fval b"
  by (simp add: fval_def negsf2_fields)

lemma float_eqI: "mag a = mag b \<Longrightarrow> negative a = negative b \<Longrightarrow> a = b"
  using unat_split [of a] unat_split [of b] by (simp add: word_unat_eq_iff)

lemma opposite: "a XOR b = signBit \<longleftrightarrow> mag a = mag b \<and> negative a \<noteq> negative b"
proof -
  have "a XOR (a XOR c) = c" for c by (simp flip: xor.assoc)
  then have "a XOR b = signBit \<longleftrightarrow> b = negsf2 a" unfolding negsf2_def by metis
  then show ?thesis using negsf2_fields [of a] float_eqI [of b "negsf2 a"] by auto
qed

lemma add_special_none:
  "add_special a b = None \<longleftrightarrow> 0 < mag a \<and> mag a < inf_mag \<and> 0 < mag b \<and> mag b < inf_mag"
  unfolding add_special_def Let_def special_test abs_gt_inf abs_eq_0 is_nan_def abs_eq_inf
  by (auto split: if_splits)

lemma mval_pos: "0 < mval n \<longleftrightarrow> 0 < n"
  using mval_less [of 0 n] by simp

lemma qnan_nan: "is_nan qnanRep"
  by (simp add: is_nan_def mag_def inf_mag_def fp_consts)

lemma ieee_sum_zero:
  assumes "is_finite a" and "is_finite b" and "mag b = 0"
  shows "ieee_sum a b (if mag a = 0 then a AND b else a)" and "ieee_sum b a (if mag a = 0 then a AND b else a)"
proof -
  have "mag (a AND b) = 0" if "mag a = 0"
  proof -
    have "(a AND b) AND absMask = a AND (b AND absMask)" by (rule and.assoc)
    then show ?thesis using assms(3) by (simp flip: abs_eq_0)
  qed
  moreover have "negative (a AND b) \<longleftrightarrow> negative a \<and> negative b" by (simp add: negative_bit bit_and_iff)
  moreover have "rounds_to (mval (mag a)) 0 (mag a)" using rounds_to_exact [of "mag a" 0] assms(1) by (simp add: is_finite_def)
  ultimately show "ieee_sum a b (if mag a = 0 then a AND b else a)" "ieee_sum b a (if mag a = 0 then a AND b else a)"
    using assms mval_pos [of "mag a"] by (auto simp: ieee_sum_def fval_def is_nan_def is_finite_def)
qed

lemma add_special_sum:
  assumes "add_special a b = Some r"
  shows "ieee_sum a b r"
proof -
  consider "is_nan a \<or> is_nan b" | "\<not> is_nan a" "\<not> is_nan b" "\<not> is_finite a \<or> \<not> is_finite b" | "is_finite a" "is_finite b"
    by (cases "is_nan a \<or> is_nan b"; cases "is_finite a \<and> is_finite b") blast+
  then show ?thesis
  proof cases
    case 1
    then have "is_nan r"
      using assms quiet_nan unfolding add_special_def Let_def special_test abs_gt_inf by (auto simp: is_nan_def split: if_splits)
    then show ?thesis using 1 by (simp add: ieee_sum_def)
  next
    case 2
    then have "mag a = inf_mag \<or> mag b = inf_mag" by (auto simp: is_nan_def is_finite_def)
    then show ?thesis using assms 2 qnan_nan opposite [of a b]
      unfolding add_special_def Let_def special_test abs_gt_inf abs_eq_inf ieee_sum_def is_finite_def is_nan_def
      by (auto split: if_splits)
  next
    case 3
    then have "mag a = 0 \<or> mag b = 0" using add_special_none [of a b] assms by (auto simp: is_finite_def)
    then have "mag b = 0 \<and> r = (if mag a = 0 then a AND b else a) \<or> mag a = 0 \<and> r = (if mag b = 0 then b AND a else b)"
      using 3 assms unfolding add_special_def Let_def special_test abs_gt_inf abs_eq_0 abs_eq_inf is_finite_def is_nan_def
      by (auto split: if_splits simp: and.commute)
    then show ?thesis using ieee_sum_zero [of a b] ieee_sum_zero [of b a] 3 by auto
  qed
qed

lemma signed_sum:
  fixes p q :: nat and s t :: bool
  assumes "q \<le> p"
  defines "x \<equiv> (if s then - int p else int p) + (if t then - int q else int q)" and "y \<equiv> (if s = t then p + q else p - q)"
  shows "nat \<bar>x\<bar> = y" and "x = 0 \<longleftrightarrow> y = 0" and "y \<noteq> 0 \<Longrightarrow> x < 0 \<longleftrightarrow> s"
  using assms by auto

lemma sum_of_ordered:
  assumes "is_finite a" and "is_finite b" and "0 < mag b" and "mag b \<le> mag a"
  shows "ieee_sum a b (fst (add_ordered CRT_FE_TONEAREST a b))" and "ieee_sum b a (fst (add_ordered CRT_FE_TONEAREST a b))"
proof -
  define r where "r = fst (add_ordered CRT_FE_TONEAREST a b)"
  define y where "y = (if negative a = negative b then mval (mag a) + mval (mag b) else mval (mag a) - mval (mag b))"
  have le: "mval (mag b) \<le> mval (mag a)" using assms(4) by simp
  note x = signed_sum [OF le, of "negative a" "negative b", folded fval_def y_def]
  have "rounds_to y 0 (mag r) \<and> (if y = 0 then r = 0 else (negative r \<longleftrightarrow> negative a))"
    unfolding y_def r_def using assms by (intro add_ordered_nearest) (simp_all add: is_finite_def)
  moreover have "y = 0 \<Longrightarrow> negative a \<noteq> negative b" using assms(3) mval_pos [of "mag b"] by (auto simp: y_def split: if_splits)
  moreover have "\<not> negative 0" by (simp add: negative_def)
  moreover have "\<not> is_nan a" "\<not> is_nan b" using assms by (simp_all add: is_nan_def is_finite_def)
  ultimately show "ieee_sum a b (fst (add_ordered CRT_FE_TONEAREST a b))" "ieee_sum b a (fst (add_ordered CRT_FE_TONEAREST a b))"
    using x assms(1,2) unfolding r_def [symmetric] ieee_sum_def Let_def add.commute [of "fval b"] by (auto split: if_splits)
qed

lemma add_nearest: "ieee_sum a b (fst (addXf3 CRT_FE_TONEAREST a b))"
proof (cases "add_special a b")
  case (Some r)
  then show ?thesis using add_special_sum by (simp add: addXf3_def)
next
  case None
  then have "0 < mag a" "is_finite a" "0 < mag b" "is_finite b" by (simp_all add: add_special_none is_finite_def)
  then show ?thesis using None sum_of_ordered [of a b] sum_of_ordered [of b a] by (cases "mag a < mag b") (simp_all add: addXf3_ordered)
qed

text \<open>
  C5. Addition and subtraction are those of IEEE-754 in the mode to nearest, for all operands: the result is the sum
  of the values rounded to nearest, ties to even, overflowing to infinity, with the sign of the sum (and that of two equal
  zeros); an operand that is not a number, or infinities that cancel, give a result that is not a number. Subtraction
  adds the number of opposite sign.
\<close>

theorem addsf3_correct:
  "ieee_sum a b (fst (addsf3 CRT_FE_TONEAREST a b)) \<and>
   ieee_sum a (negsf2 b) (fst (subsf3 CRT_FE_TONEAREST a b)) \<and> fval (negsf2 b) = - fval b"
  using add_nearest [of a b] add_nearest [of a "negsf2 b"] by (simp add: addsf3_def subsf3_def fval_negsf2 flip: negsf2_def)

end
