(* ===== verification/Softfloat_Mul.thy ===== *)
theory Softfloat_Mul
  imports Softfloat_Add
begin

text \<open>
  Single precision multiplication, \<^verbatim>\<open>mulsf3.c\<close> with \<^verbatim>\<open>fp_mul_impl.inc\<close>, and the 64-bit helpers of \<^verbatim>\<open>fp_lib.h\<close> it uses.
\<close>

section \<open>The functions\<close>

definition wideMultiply :: "u32 \<Rightarrow> u32 \<Rightarrow> u32 \<times> u32" where
  "wideMultiply a b = (let product = (ucast a :: u64) * ucast b in (ucast (drop_bit 32 product), ucast product))"

definition wideLeftShift :: "u32 \<times> u32 \<Rightarrow> nat \<Rightarrow> u32 \<times> u32" where
  "wideLeftShift p count = (case p of (hi, lo) \<Rightarrow> (push_bit count hi OR drop_bit (typeWidth - count) lo, push_bit count lo))"

definition wideRightShiftWithSticky :: "u32 \<times> u32 \<Rightarrow> nat \<Rightarrow> u32 \<times> u32" where
  "wideRightShiftWithSticky p count =
    (case p of (hi, lo) \<Rightarrow>
      if count < typeWidth
      then let sticky = of_bool (push_bit (typeWidth - count) lo \<noteq> 0)
           in (drop_bit count hi, push_bit (typeWidth - count) hi OR drop_bit count lo OR sticky)
      else if count < 2 * typeWidth
      then let sticky = of_bool (push_bit (2 * typeWidth - count) hi OR lo \<noteq> 0)
           in (0, drop_bit (count - typeWidth) hi OR sticky)
      else let sticky = of_bool (hi OR lo \<noteq> 0) in (0, sticky))"

definition mul_special :: "u32 \<Rightarrow> u32 \<Rightarrow> u32 option" where
  "mul_special a b =
    (let productSign = (a XOR b) AND signBit; aAbs = a AND absMask; bAbs = b AND absMask
     in if aAbs > infRep then Some (a OR quietBit)
        else if bAbs > infRep then Some (b OR quietBit)
        else if aAbs = infRep then Some (if bAbs \<noteq> 0 then aAbs OR productSign else qnanRep)
        else if bAbs = infRep then Some (if aAbs \<noteq> 0 then bAbs OR productSign else qnanRep)
        else if aAbs = 0 then Some productSign
        else if bAbs = 0 then Some productSign
        else None)"

definition mul_round :: "u32 \<Rightarrow> int \<Rightarrow> u32 \<times> u32 \<Rightarrow> u32" where
  "mul_round productSign productExponent product =
    (if productExponent \<ge> maxExponent then infRep OR productSign
     else if productExponent \<le> 0 \<and> 1 - productExponent \<ge> int typeWidth then productSign
     else let (productHi, productLo) =
                (if productExponent \<le> 0 then wideRightShiftWithSticky product (nat (1 - productExponent))
                 else case product of (hi, lo) \<Rightarrow>
                   ((hi AND significandMask) OR push_bit significandBits (word_of_int productExponent), lo));
              productHi = productHi OR productSign;
              productHi = (if productLo > signBit then productHi + 1 else productHi)
          in if productLo = signBit then productHi + (productHi AND 1) else productHi)"

definition mulXf3 :: "u32 \<Rightarrow> u32 \<Rightarrow> u32" where
  "mulXf3 a b =
    (let aExponent = drop_bit significandBits a AND 0xFF;
         bExponent = drop_bit significandBits b AND 0xFF;
         productSign = (a XOR b) AND signBit;
         aSignificand = a AND significandMask;
         bSignificand = b AND significandMask;
         unusual = (ucast aExponent - 1 \<ge> (254 :: u16) \<or> ucast bExponent - 1 \<ge> (254 :: u16))
     in case (if unusual then mul_special a b else None) of
          Some r \<Rightarrow> r
        | None \<Rightarrow>
           (let (aScale, aSignificand) =
                  (if unusual \<and> a AND absMask < implicitBit then normalize aSignificand else (0, aSignificand));
                (bScale, bSignificand) =
                  (if unusual \<and> b AND absMask < implicitBit then normalize bSignificand else (0, bSignificand));
                scale = aScale + bScale;
                product = wideMultiply (aSignificand OR implicitBit) (push_bit exponentBits (bSignificand OR implicitBit));
                productExponent = int (unat aExponent) + int (unat bExponent) - exponentBias + scale;
                (productExponent, product) =
                  (if fst product AND implicitBit \<noteq> 0 then (productExponent + 1, product)
                   else (productExponent, wideLeftShift product 1))
            in mul_round productSign productExponent product))"

definition mulsf3 :: "u32 \<Rightarrow> u32 \<Rightarrow> u32" where
  "mulsf3 a b = mulXf3 a b"

section \<open>Double words\<close>

definition wide :: "u32 \<times> u32 \<Rightarrow> nat" where
  "wide p = unat (fst p) * 2 ^ 32 + unat (snd p)"

lemma wideMultiply_wide: "wide (wideMultiply a b) = unat a * unat b"
proof -
  have "unat a * unat b < 2 ^ 32 * 2 ^ 32" using unat_lt2 [of a] unat_lt2 [of b] by (intro mult_strict_mono) simp_all
  then have p: "unat ((ucast a :: u64) * ucast b) = unat a * unat b"
    using unat_lt2 [of a] unat_lt2 [of b] by (simp add: unat_word_ariths unat_ucast_mod)
  then show ?thesis
    using \<open>unat a * unat b < 2 ^ 32 * 2 ^ 32\<close>
    by (simp add: wide_def wideMultiply_def Let_def unat_ucast_mod unat_drop_bit div_less_iff_less_mult)
qed

lemma wideLeftShift_wide:
  assumes "wide p < 2 ^ 63"
  shows "wide (wideLeftShift p 1) = 2 * wide p"
proof -
  obtain hi lo where p: "p = (hi, lo)" by (cases p)
  define D M where "D = unat lo div 2 ^ 31" and "M = unat lo mod 2 ^ 31"
  have lo: "unat lo = D * 2 ^ 31 + M" unfolding D_def M_def by (rule div_mult_mod_eq [symmetric])
  have hi: "unat hi < 2 ^ 31" using assms by (simp add: wide_def p)
  then have "unat (push_bit 1 hi) = unat hi * 2 ^ 1" by (simp add: unat_push_bit)
  moreover have "unat (drop_bit 31 lo) < 2 ^ 1" using unat_lt2 [of lo] by (simp add: unat_drop_bit div_less_iff_less_mult)
  ultimately have "unat (push_bit 1 hi OR drop_bit 31 lo) = unat hi * 2 + D"
    using unat_or_add [of "push_bit 1 hi" "unat hi" 1 "drop_bit 31 lo"] by (simp add: unat_drop_bit D_def)
  moreover have "unat (push_bit 1 lo) = M * 2" using unat_push_bit_low [of 31 lo] by (simp add: M_def)
  ultimately show ?thesis by (simp add: wide_def wideLeftShift_def p lo)
qed

lemma wideRightShift_wide:
  assumes "1 \<le> c" and "c < 32"
  shows "wide (wideRightShiftWithSticky p c) = jam (wide p) c"
proof -
  obtain hi lo where p: "p = (hi, lo)" by (cases p)
  define s where "s = (push_bit (32 - c) lo \<noteq> 0)"
  have s: "s \<longleftrightarrow> unat lo mod 2 ^ c \<noteq> 0" using unat_push_bit_low [of c lo] assms by (simp add: s_def unat_eq_zero [symmetric])
  define w where "w = push_bit (32 - c) hi OR drop_bit c lo"
  have h: "unat (push_bit (32 - c) hi) = unat hi mod 2 ^ c * 2 ^ (32 - c)" using unat_push_bit_low [of c hi] assms by simp
  have pw: "2 ^ 32 = (2::nat) ^ c * 2 ^ (32 - c)" using assms by (intro pow2_split) simp
  have "unat (drop_bit c lo) < 2 ^ (32 - c)"
    using unat_lt2 [of lo] pw by (simp add: unat_drop_bit div_less_iff_less_mult mult.commute)
  then have w: "unat w = unat hi mod 2 ^ c * 2 ^ (32 - c) + unat lo div 2 ^ c"
    using unat_or_add [OF h, of "drop_bit c lo"] h by (simp add: w_def unat_drop_bit)
  have W: "wide p = (unat hi * 2 ^ (32 - c)) * 2 ^ c + unat lo" unfolding wide_def p fst_conv snd_conv pw by (simp only: mult_ac)
  then have d: "wide p div 2 ^ c = unat hi * 2 ^ (32 - c) + unat lo div 2 ^ c" and m: "wide p mod 2 ^ c = unat lo mod 2 ^ c"
    by simp_all
  have q: "unat hi div 2 ^ c * 2 ^ 32 + unat hi mod 2 ^ c * 2 ^ (32 - c) = unat hi * 2 ^ (32 - c)"
  proof -
    have "unat hi * 2 ^ (32 - c) = (unat hi div 2 ^ c * 2 ^ c + unat hi mod 2 ^ c) * 2 ^ (32 - c)" by (simp only: div_mult_mod_eq)
    then show ?thesis by (simp only: distrib_right mult.assoc pw)
  qed
  have "even (unat w) \<longleftrightarrow> even (wide p div 2 ^ c)"
  proof -
    have "even ((2::nat) ^ 32)" by simp
    then have "even (unat hi div 2 ^ c * 2 ^ 32 + unat w) \<longleftrightarrow> even (unat w)" by simp
    then show ?thesis unfolding w d q [symmetric] by (simp only: add.assoc)
  qed
  then have u: "unat (w OR of_bool s) = unat w + of_bool (s \<and> even (wide p div 2 ^ c))" by (simp add: unat_or_of_bool)
  have "jam (wide p) c = wide p div 2 ^ c + of_bool (s \<and> even (wide p div 2 ^ c))" unfolding jam_def m s ..
  moreover have "unat hi div 2 ^ c * 2 ^ 32 + unat w = wide p div 2 ^ c" unfolding w d using q by linarith
  moreover have "wide (drop_bit c hi, w OR of_bool s) = unat hi div 2 ^ c * 2 ^ 32 + unat (w OR of_bool s)"
    by (simp only: wide_def fst_conv snd_conv unat_drop_bit)
  moreover have "wideRightShiftWithSticky p c = (drop_bit c hi, w OR of_bool s)"
    using assms by (simp add: wideRightShiftWithSticky_def p Let_def w_def s_def or.assoc)
  ultimately show ?thesis using u by simp
qed

section \<open>Rounding the product\<close>

text \<open>The increment at the end, on a magnitude with its sign.\<close>

lemma round_product:
  fixes hi lo :: u32
  assumes hi: "unat hi = (if p then 2 ^ 31 else 0) + n" and n: "n < 2 ^ 31 - 1"
    and rt: "rounds_to v s (n + of_bool (2 ^ 32 < 2 * unat lo \<or> odd n \<and> 2 * unat lo = 2 ^ 32))"
  defines "r \<equiv> (let hi = (if lo > signBit then hi + 1 else hi) in if lo = signBit then hi + (hi AND 1) else hi)"
  shows "rounds_to v s (mag r) \<and> (negative r \<longleftrightarrow> p)"
proof -
  define up where "up = (2 ^ 32 < 2 * unat lo \<or> odd n \<and> 2 * unat lo = 2 ^ 32)"
  have lt: "unat hi < 2 ^ 32 - 1" using hi n by simp
  have c: "2 ^ 32 < 2 * unat lo \<longleftrightarrow> signBit < lo" "2 * unat lo = 2 ^ 32 \<longleftrightarrow> lo = signBit"
    using round_word_cmp [of 32 lo "unat lo"] by simp_all
  have o: "odd n \<longleftrightarrow> odd (unat hi)" using hi by simp
  have "unat r = unat hi + of_bool up" unfolding r_def Let_def up_def c o by (rule round_word_add [OF lt])
  then have "unat r = (if p then 2 ^ 31 else 0) + (n + of_bool up)" using hi by simp
  then show ?thesis using mag_of_unat [of r p "n + of_bool up"] rt n by (simp add: up_def)
qed

lemma mul_round_nearest:
  assumes P: "2 ^ 55 \<le> wide p" "wide p < 2 ^ 56" and v: "v = wide p * 2 ^ nat (e + 180)" and e: "- 180 \<le> e"
    and sg: "sg = (if neg then signBit else 0)"
  shows "rounds_to v 213 (mag (mul_round sg e p)) \<and> (negative (mul_round sg e p) \<longleftrightarrow> neg)"
proof -
  obtain hi lo where p: "p = (hi, lo)" by (cases p)
  have W: "wide p = unat hi * 2 ^ 32 + unat lo" by (simp add: wide_def p)
  have ex: "sticks 0 v (2 ^ nat (e + 180)) (unat hi * 2 ^ 32 + unat lo)" unfolding v W by (rule sticks_exact) simp
  consider "255 \<le> e" | "1 \<le> e" "e \<le> 254" | "e \<le> 0" "- 31 < e" | "e \<le> - 31" by linarith
  then show ?thesis
  proof cases
    case 1
    then have r: "mul_round sg e p = infRep OR sg" by (simp add: mul_round_def fp_consts)
    have "mval inf_mag * 2 ^ 213 = 2 ^ 55 * 2 ^ 435" by (simp add: mval_def inf_mag_def)
    also have "\<dots> \<le> v" unfolding v using P(1) 1 by (intro mult_le_mono power_increasing) auto
    finally have "rounds_to v 213 inf_mag" by (rule rounds_to_overflow)
    moreover have "mag (infRep OR sg) = inf_mag" "negative (infRep OR sg) \<longleftrightarrow> neg"
      using mag_or_sign [of infRep] mag_small [of infRep] by (simp_all add: sg inf_mag_def fp_consts(7))
    ultimately show ?thesis by (simp add: r)
  next
    case 2
    define E where "E = nat e"
    have E: "1 \<le> E" "E \<le> 254" "nat (e + 180) = E + 180" using 2 by (simp_all add: E_def)
    have q: "2 ^ 23 \<le> unat hi" "unat hi < 2 ^ 24" using P unat_lt2 [of lo] by (simp_all add: W)
    have f: "unat hi mod 2 ^ 23 = unat hi - 2 ^ 23" using q by (simp add: le_mod_geq)
    define n where "n = E * 2 ^ 23 + (unat hi - 2 ^ 23)"
    have mn: "mval n = unat hi * 2 ^ (E - 1)" using mval_normal [OF E(1), of "unat hi - 2 ^ 23"] q by (simp add: n_def)
    have "n div 2 ^ 23 = E" using q by (simp add: n_def)
    then have ms: "mval (Suc n) = (unat hi + 1) * 2 ^ (E - 1)" by (simp add: mval_Suc mn)
    have "(2::nat) ^ (E - 1) * 2 ^ 213 = 2 ^ 32 * 2 ^ (E + 180)"
    proof -
      have "E - 1 + 213 = 32 + (E + 180)" using E(1) by simp
      then show ?thesis by (metis power_add)
    qed
    then have sc: "mval n * 2 ^ 213 = unat hi * 2 ^ 32 * 2 ^ nat (e + 180)" "mval (Suc n) * 2 ^ 213 = (unat hi + 1) * 2 ^ 32 * 2 ^ nat (e + 180)"
      unfolding mn ms E(3) by (simp_all only: mult.assoc)
    have lt: "n < inf_mag" using E(2) q by (simp add: n_def inf_mag_def)
    have "rounds_to v 213 (n + of_bool (2 ^ 32 < 2 * unat lo \<or> odd n \<and> 2 * unat lo = 2 ^ 32))"
      using unat_lt2 [of lo] by (intro rounds_to_sticky [OF ex _ _ lt _ sc]) simp_all
    moreover have "unat (((hi AND significandMask) OR push_bit 23 (word_of_int e)) OR sg) = (if neg then 2 ^ 31 else 0) + n"
      using unat_pack [OF _ 2(2) sg, of hi] 2 by (simp only: f n_def E_def)
    moreover have "mul_round sg e p = (let hi = ((hi AND significandMask) OR push_bit 23 (word_of_int e)) OR sg;
        hi = (if lo > signBit then hi + 1 else hi) in if lo = signBit then hi + (hi AND 1) else hi)"
      using 2 unfolding mul_round_def fp_consts(1) p by (simp add: Let_def)
    moreover have "n < 2 ^ 31 - 1" using lt by (simp add: inf_mag_def)
    ultimately show ?thesis using round_product by (simp only: Let_def)
  next
    case 3
    define c where "c = nat (1 - e)"
    have c: "1 \<le> c" "c < 32" "nat (e + 180) + c = 181" using 3 by (simp_all add: c_def)
    obtain hi' lo' where p': "wideRightShiftWithSticky p c = (hi', lo')" by (cases "wideRightShiftWithSticky p c")
    have W': "unat hi' * 2 ^ 32 + unat lo' = jam (wide p) c" using wideRightShift_wide [OF c(1,2), of p] by (simp add: p' wide_def)
    have "sticks 1 v (2 ^ nat (e + 180) * 2 ^ c) (jam (wide p) c)" using c by (intro sticks_jam [OF ex [folded W]]) simp
    then have st: "sticks 1 v (2 ^ 181) (unat hi' * 2 ^ 32 + unat lo')" unfolding W' c(3) [symmetric] power_add .
    have "2 ^ 1 \<le> (2::nat) ^ c" using c by (intro power_increasing) simp_all
    then have "wide p < 2 * 2 ^ 54 * 2 ^ c" using P(2) by simp
    then have "jam (wide p) c < 2 * 2 ^ 54" by (simp only: jam_compare)
    then have q: "unat hi' < 2 ^ 23" using W' by simp
    then have sc: "mval (unat hi') * 2 ^ 213 = unat hi' * 2 ^ 32 * 2 ^ 181" "mval (Suc (unat hi')) * 2 ^ 213 = (unat hi' + 1) * 2 ^ 32 * 2 ^ 181"
      by (simp_all add: mval_subnormal)
    have lt: "unat hi' < inf_mag" using q by (simp add: inf_mag_def)
    have "rounds_to v 213 (unat hi' + of_bool (2 ^ 32 < 2 * unat lo' \<or> odd (unat hi') \<and> 2 * unat lo' = 2 ^ 32))"
      using unat_lt2 [of lo'] by (intro rounds_to_sticky [OF st _ _ lt _ sc]) simp_all
    moreover have "unat (hi' OR sg) = (if neg then 2 ^ 31 else 0) + unat hi'"
    proof -
      have "unat (signBit OR hi') = unat signBit + unat hi'"
        using q by (intro unat_or_add [where a = 1 and n = 31]) (simp_all add: fp_consts(5))
      then show ?thesis by (simp add: sg or.commute fp_consts(5))
    qed
    moreover have "mul_round sg e p = (let hi = hi' OR sg;
        hi = (if lo' > signBit then hi + 1 else hi) in if lo' = signBit then hi + (hi AND 1) else hi)"
      using 3 p' unfolding mul_round_def fp_consts(1) c_def by (simp add: Let_def)
    moreover have "unat hi' < 2 ^ 31 - 1" using q by simp
    ultimately show ?thesis using round_product by (simp only: Let_def)
  next
    case 4
    then have r: "mul_round sg e p = sg" by (simp add: mul_round_def fp_consts)
    have "v < 2 ^ 56 * 2 ^ nat (e + 180)" unfolding v using P(2) by simp
    also have "\<dots> \<le> 2 ^ 56 * 2 ^ 149" using 4 by (intro mult_le_mono2 power_increasing) auto
    finally have "rounds_to v 213 0" by (simp add: rounds_to_def inf_mag_def mval_subnormal)
    moreover have "mag sg = 0" "negative sg \<longleftrightarrow> neg" by (simp_all add: sg mag_def negative_def fp_consts)
    ultimately show ?thesis by (simp add: r)
  qed
qed

section \<open>The product of two numbers\<close>

lemma exponent_test:
  "(ucast (drop_bit 23 x AND 0xFF) :: u16) - 1 \<ge> 254 \<longleftrightarrow> mag x < 2 ^ 23 \<or> inf_mag \<le> mag x" for x :: u32
proof -
  define f where "f = mag x div 2 ^ 23"
  define w :: u16 where "w = ucast (drop_bit 23 x AND 0xFF)"
  have "f < 256" using mag_lt [of x] by (simp add: f_def div_less_iff_less_mult)
  have w: "unat w = f" using \<open>f < 256\<close> by (simp add: w_def unat_ucast_mod fields f_def)
  have "w - 1 \<ge> 254 \<longleftrightarrow> f = 0 \<or> 255 \<le> f"
  proof (cases "f = 0")
    case True
    then have "w = 0" using w by (simp add: unat_eq_zero)
    then show ?thesis using True by simp
  next
    case False
    then have "unat (w - 1) = f - 1" using w by (subst unat_sub) (auto simp: word_le_nat_alt)
    then show ?thesis using False by (simp add: word_le_nat_alt) linarith
  qed
  moreover have "f = 0 \<longleftrightarrow> mag x < 2 ^ 23" "255 \<le> f \<longleftrightarrow> inf_mag \<le> mag x"
    by (auto simp: f_def div_eq_0_iff inf_mag_def less_eq_div_iff_mult_less_eq)
  ultimately show ?thesis by (simp add: w_def)
qed

lemma abs_less_implicit: "x AND absMask < implicitBit \<longleftrightarrow> mag x < 2 ^ 23"
  by (simp add: word_less_nat_alt abs_unat fp_consts(3))

lemma scaled_unpack:
  assumes "mag x < 2 ^ 23 \<Longrightarrow> unusual"
  shows "(case if unusual \<and> x AND absMask < implicitBit then normalize (x AND significandMask) else (0, x AND significandMask) of
      (scale, s) \<Rightarrow> f (int (unat (drop_bit 23 x AND 0xFF)) + scale) s) = (case unpack x of (e, s) \<Rightarrow> f e s)"
proof (cases "mag x < 2 ^ 23")
  case True
  then have z: "unat (drop_bit 23 x AND 0xFF) = 0" unfolding fields by simp
  have "unusual" using True by (rule assms)
  then show ?thesis using True unfolding unpack_def Let_def abs_less_implicit z by (simp split: prod.splits)
next
  case False
  then have "mag x div 2 ^ 23 \<noteq> 0" by (simp add: div_eq_0_iff)
  then show ?thesis using False unfolding unpack_def Let_def abs_less_implicit fields by simp
qed

definition mul_normal :: "u32 \<Rightarrow> u32 \<Rightarrow> u32" where
  "mul_normal a b =
    (let (ea, sa) = unpack a; (eb, sb) = unpack b;
         product = wideMultiply (sa OR implicitBit) (push_bit exponentBits (sb OR implicitBit));
         (e, product) = (if fst product AND implicitBit \<noteq> 0 then (ea + eb - exponentBias + 1, product)
           else (ea + eb - exponentBias, wideLeftShift product 1))
     in mul_round ((a XOR b) AND signBit) e product)"

lemma mul_special_none:
  "mul_special a b = None \<longleftrightarrow> 0 < mag a \<and> mag a < inf_mag \<and> 0 < mag b \<and> mag b < inf_mag"
  unfolding mul_special_def Let_def abs_gt_inf abs_eq_0 is_nan_def abs_eq_inf by (auto split: if_splits)

lemma mulXf3_cases:
  "mulXf3 a b = (case mul_special a b of Some r \<Rightarrow> r | None \<Rightarrow> mul_normal a b)"
proof -
  define un where "un = (mag a < 2 ^ 23 \<or> inf_mag \<le> mag a \<or> mag b < 2 ^ 23 \<or> inf_mag \<le> mag b)"
  have un: "(ucast (drop_bit 23 a AND 0xFF) - 1 \<ge> (254 :: u16) \<or> ucast (drop_bit 23 b AND 0xFF) - 1 \<ge> (254 :: u16)) = un"
    unfolding exponent_test un_def by blast
  have sp: "(if un then mul_special a b else None) = mul_special a b"
    using mul_special_none [of a b] by (auto simp: un_def not_less inf_mag_def)
  have ua: "mag a < 2 ^ 23 \<Longrightarrow> un" and ub: "mag b < 2 ^ 23 \<Longrightarrow> un" by (simp_all add: un_def)
  obtain aScale sa where pa: "(if un \<and> a AND absMask < implicitBit then normalize (a AND significandMask) else (0, a AND significandMask)) = (aScale, sa)"
    by fastforce
  obtain bScale sb where pb: "(if un \<and> b AND absMask < implicitBit then normalize (b AND significandMask) else (0, b AND significandMask)) = (bScale, sb)"
    by fastforce
  have upa: "unpack a = (int (unat (drop_bit 23 a AND 0xFF)) + aScale, sa)"
    using scaled_unpack [of a un Pair, OF ua] unfolding pa by simp
  have upb: "unpack b = (int (unat (drop_bit 23 b AND 0xFF)) + bScale, sb)"
    using scaled_unpack [of b un Pair, OF ub] unfolding pb by simp
  have e: "int m + int n - exponentBias + (s + t) = (int m + s) + (int n + t) - exponentBias" for m n s t by simp
  show ?thesis unfolding mulXf3_def mul_normal_def Let_def un sp pa pb upa upb case_prod_conv e ..
qed

text \<open>What IEEE-754 asks of a product, rounded to nearest.\<close>

definition ieee_product :: "u32 \<Rightarrow> u32 \<Rightarrow> u32 \<Rightarrow> bool" where
  "ieee_product a b r \<longleftrightarrow>
    (if is_nan a \<or> is_nan b then is_nan r
     else if \<not> is_finite a \<and> mag b = 0 \<or> mag a = 0 \<and> \<not> is_finite b then is_nan r
     else (negative r \<longleftrightarrow> negative a \<noteq> negative b) \<and>
       (if \<not> is_finite a \<or> \<not> is_finite b then mag r = inf_mag else rounds_to (mval (mag a) * mval (mag b)) 149 (mag r)))"

lemma mul_normal_nearest:
  assumes "0 < mag a" "mag a < inf_mag" "0 < mag b" "mag b < inf_mag"
  defines "r \<equiv> mul_normal a b"
  shows "rounds_to (mval (mag a) * mval (mag b)) 149 (mag r) \<and> (negative r \<longleftrightarrow> negative a \<noteq> negative b)"
proof -
  obtain ea ma where a: "unpack a = (ea, snd (unpack a))" "unat (snd (unpack a) OR implicitBit) = ma"
    "2 ^ 23 \<le> ma" "ma < 2 ^ 24" "- 22 \<le> ea" "ea \<le> 254" "mval (mag a) * 2 ^ 24 = ma * 2 ^ nat (ea + 23)"
    using unpack_val [OF assms(1,2)] by blast
  obtain eb mb where b: "unpack b = (eb, snd (unpack b))" "unat (snd (unpack b) OR implicitBit) = mb"
    "2 ^ 23 \<le> mb" "mb < 2 ^ 24" "- 22 \<le> eb" "eb \<le> 254" "mval (mag b) * 2 ^ 24 = mb * 2 ^ nat (eb + 23)"
    using unpack_val [OF assms(3,4)] by blast
  define sa sb where "sa = snd (unpack a)" and "sb = snd (unpack b)"
  note a = a [folded sa_def] and b = b [folded sb_def]
  define p where "p = wideMultiply (sa OR implicitBit) (push_bit 8 (sb OR implicitBit))"
  have "unat (push_bit 8 (sb OR implicitBit)) = mb * 2 ^ 8" unfolding unat_push_bit b(2) using b(4) by simp
  then have p: "wide p = ma * mb * 2 ^ 8" unfolding p_def wideMultiply_wide a(2) by simp
  have "2 ^ 23 * 2 ^ 23 \<le> ma * mb" using a(3) b(3) by (rule mult_le_mono)
  moreover have "ma * mb < 2 ^ 24 * 2 ^ 24" using a(4) b(4) by (intro mult_strict_mono) simp_all
  ultimately have P: "2 ^ 54 \<le> wide p" "wide p < 2 ^ 56" unfolding p by simp_all
  define v where "v = mval (mag a) * mval (mag b) * 2 ^ 64"
  have v: "v = wide p * 2 ^ nat (ea + eb + 54)"
  proof -
    have n: "nat (ea + 23) + nat (eb + 23) + 16 = 8 + nat (ea + eb + 54)" using a(5) b(5) by simp
    have "v = (mval (mag a) * 2 ^ 24) * (mval (mag b) * 2 ^ 24) * 2 ^ 16" by (simp add: v_def)
    also have "\<dots> = ma * mb * 2 ^ (nat (ea + 23) + nat (eb + 23) + 16)" unfolding a(7) b(7) power_add by (simp only: mult_ac)
    also have "\<dots> = wide p * 2 ^ nat (ea + eb + 54)" unfolding p n power_add by (simp only: mult_ac)
    finally show ?thesis .
  qed
  have sg: "(a XOR b) AND signBit = (if negative a \<noteq> negative b then signBit else 0)"
    using sign_of [of "a XOR b"] by (simp add: negative_bit bit_xor_iff)
  have hi: "fst p AND implicitBit \<noteq> 0 \<longleftrightarrow> 2 ^ 55 \<le> wide p"
  proof -
    have lt: "unat (fst p) < 2 ^ 24" using P(2) by (simp add: wide_def)
    have "implicitBit = 2 ^ 23" by (simp add: fp_consts)
    then have "fst p AND implicitBit \<noteq> 0 \<longleftrightarrow> bit (fst p) 23" using and_exp_eq_0_iff_not_bit [of "fst p" 23] by simp
    also have "\<dots> \<longleftrightarrow> odd (unat (fst p) div 2 ^ 23)" using bit_iff_odd [of "unat (fst p)" 23] by (simp add: bit_unsigned_iff)
    also have "\<dots> \<longleftrightarrow> 2 ^ 23 \<le> unat (fst p)"
    proof -
      have "unat (fst p) div 2 ^ 23 < 2" using lt by (simp add: div_less_iff_less_mult)
      then show ?thesis by (cases "unat (fst p) div 2 ^ 23") (auto simp: div_eq_0_iff less_Suc_eq)
    qed
    also have "\<dots> \<longleftrightarrow> 2 ^ 55 \<le> wide p" using unat_lt2 [of "snd p"] by (auto simp: wide_def)
    finally show ?thesis .
  qed
  have r: "r = (if 2 ^ 55 \<le> wide p then mul_round ((a XOR b) AND signBit) (ea + eb - 126) p
      else mul_round ((a XOR b) AND signBit) (ea + eb - 127) (wideLeftShift p 1))"
    unfolding r_def mul_normal_def hi [symmetric] Let_def a(1) b(1) case_prod_conv p_def [symmetric] fp_consts(2) by simp
  have "rounds_to v 213 (mag r) \<and> (negative r \<longleftrightarrow> negative a \<noteq> negative b)"
  proof (cases "2 ^ 55 \<le> wide p")
    case True
    have "v = wide p * 2 ^ nat (ea + eb - 126 + 180)" unfolding v by (simp add: add.commute)
    from mul_round_nearest [OF True P(2) this _ sg] show ?thesis using True a(5) b(5) by (simp add: r)
  next
    case False
    then have w: "wide (wideLeftShift p 1) = 2 * wide p" by (intro wideLeftShift_wide) simp
    have "nat (ea + eb + 54) = Suc (nat (ea + eb - 127 + 180))" using a(5) b(5) by simp
    then have "v = wide (wideLeftShift p 1) * 2 ^ nat (ea + eb - 127 + 180)" unfolding v w by simp
    from mul_round_nearest [OF _ _ this _ sg] show ?thesis using False P a(5) b(5) w by (simp add: r)
  qed
  then show ?thesis using rounds_to_scale [of "mval (mag a) * mval (mag b)" 64 149] by (simp add: v_def)
qed

lemma mul_special_product:
  assumes "mul_special a b = Some r"
  shows "ieee_product a b r"
proof -
  define sg where "sg = (a XOR b) AND signBit"
  have sg: "sg = (if negative a \<noteq> negative b then signBit else 0)"
    using sign_of [of "a XOR b"] by (simp add: sg_def negative_bit bit_xor_iff)
  then have s0: "mag sg = 0" "negative sg \<longleftrightarrow> negative a \<noteq> negative b" by (simp_all add: mag_def negative_def fp_consts)
  have si: "mag (infRep OR sg) = inf_mag" "negative (infRep OR sg) \<longleftrightarrow> negative a \<noteq> negative b"
    using mag_or_sign [of infRep] mag_small [of infRep] by (simp_all add: sg inf_mag_def fp_consts(7))
  have z: "rounds_to 0 149 0" using rounds_to_exact [of 0 149] by simp
  consider "is_nan a \<or> is_nan b" | "\<not> is_nan a" "\<not> is_nan b" "mag a = inf_mag \<or> mag b = inf_mag"
    | "mag a < inf_mag" "mag b < inf_mag" by (auto simp: is_nan_def) linarith
  then show ?thesis
  proof cases
    case 1
    then have "is_nan r" using assms quiet_nan unfolding mul_special_def Let_def abs_gt_inf by (auto split: if_splits)
    then show ?thesis using 1 by (simp add: ieee_product_def)
  next
    case 2
    have z: "inf_mag \<noteq> 0" "inf_mag \<noteq> 0 \<Longrightarrow> infRep \<noteq> 0" by (simp_all add: inf_mag_def fp_consts)
    have "r = (if mag a = 0 \<or> mag b = 0 then qnanRep else infRep OR sg)"
    proof (cases "mag a = inf_mag")
      case True
      then have "a AND absMask = infRep" by (simp add: abs_eq_inf)
      then show ?thesis using assms 2(1,2) True z
        unfolding mul_special_def Let_def abs_gt_inf sg_def [symmetric] by (auto simp: abs_eq_0)
    next
      case False
      then have "b AND absMask = infRep" "a AND absMask \<noteq> infRep" using 2(3) by (simp_all add: abs_eq_inf)
      then show ?thesis using assms 2 False z
        unfolding mul_special_def Let_def abs_gt_inf sg_def [symmetric] by (auto simp: abs_eq_0)
    qed
    then show ?thesis using 2 qnan_nan si z by (auto simp: ieee_product_def is_finite_def)
  next
    case 3
    then have "(mag a = 0 \<or> mag b = 0) \<and> r = sg"
      using assms unfolding mul_special_def Let_def abs_gt_inf sg_def [symmetric] abs_eq_0 abs_eq_inf is_nan_def
      by (auto split: if_splits)
    then show ?thesis using 3 s0 z by (auto simp: ieee_product_def is_nan_def is_finite_def)
  qed
qed

lemma mul_nearest: "ieee_product a b (mulsf3 a b)"
proof (cases "mul_special a b")
  case (Some r)
  then show ?thesis using mul_special_product by (simp add: mulsf3_def mulXf3_cases)
next
  case None
  then have m: "0 < mag a" "mag a < inf_mag" "0 < mag b" "mag b < inf_mag" by (simp_all add: mul_special_none)
  from mul_normal_nearest [OF this] m None show ?thesis
    by (simp add: mulsf3_def mulXf3_cases ieee_product_def is_nan_def is_finite_def)
qed

text \<open>
  C6. Multiplication is that of IEEE-754 in the mode to nearest, for all operands: the result is the product of the
  values rounded to nearest, ties to even, with gradual underflow and overflow to infinity, and its sign is that of
  the product; zero times infinity and operands that are not numbers give a result that is not a number.
\<close>

theorem mulsf3_correct: "ieee_product a b (mulsf3 a b)"
  by (rule mul_nearest)

end
