(* ===== verification/Libm_Round.thy ===== *)
theory Libm_Round
  imports Softfloat_Mul
begin

text \<open>
  The functions of the mathematical library that work on the bits of a number: sign and classification
  (\<^verbatim>\<open>sf_fabs.c\<close>, \<^verbatim>\<open>sf_copysign.c\<close>, \<^verbatim>\<open>sf_finite.c\<close>, \<^verbatim>\<open>sf_isnan.c\<close>, \<^verbatim>\<open>sf_isinf.c\<close>) and rounding to integral values
  (\<^verbatim>\<open>sf_floor.c\<close>, \<^verbatim>\<open>sf_ceil.c\<close>, \<^verbatim>\<open>sf_modf.c\<close>). An operator on floats in the source is a call of the software floating point;
  \<open>fadd\<close> and \<open>fsub\<close> call it in the default mode. The value 1 is \<open>2\<^sup>1\<^sup>4\<^sup>9\<close> units.
\<close>

section \<open>The functions\<close>

definition fadd :: "u32 \<Rightarrow> u32 \<Rightarrow> u32" where
  "fadd x y = fst (addsf3 CRT_FE_TONEAREST x y)"

definition fsub :: "u32 \<Rightarrow> u32 \<Rightarrow> u32" where
  "fsub x y = fst (subsf3 CRT_FE_TONEAREST x y)"

definition FLT_UWORD_IS_FINITE :: "u32 \<Rightarrow> bool" where "FLT_UWORD_IS_FINITE x \<longleftrightarrow> x < 0x7F800000"
definition FLT_UWORD_IS_NAN :: "u32 \<Rightarrow> bool" where "FLT_UWORD_IS_NAN x \<longleftrightarrow> x > 0x7F800000"
definition FLT_UWORD_IS_INFINITE :: "u32 \<Rightarrow> bool" where "FLT_UWORD_IS_INFINITE x \<longleftrightarrow> x = 0x7F800000"
definition FLT_UWORD_IS_ZERO :: "u32 \<Rightarrow> bool" where "FLT_UWORD_IS_ZERO x \<longleftrightarrow> x = 0"
definition FLT_UWORD_IS_SUBNORMAL :: "u32 \<Rightarrow> bool" where "FLT_UWORD_IS_SUBNORMAL x \<longleftrightarrow> x < 0x00800000"

definition fabsf :: "u32 \<Rightarrow> u32" where
  "fabsf ix = ix AND 0x7FFFFFFF"

definition copysignf :: "u32 \<Rightarrow> u32 \<Rightarrow> u32" where
  "copysignf ix iy = (ix AND 0x7FFFFFFF) OR (iy AND 0x80000000)"

definition finitef :: "u32 \<Rightarrow> bool" where
  "finitef ix = FLT_UWORD_IS_FINITE (ix AND 0x7FFFFFFF)"

definition isnanf :: "u32 \<Rightarrow> bool" where
  "isnanf ix = FLT_UWORD_IS_NAN (ix AND 0x7FFFFFFF)"

definition isinff :: "u32 \<Rightarrow> bool" where
  "isinff ix = FLT_UWORD_IS_INFINITE (ix AND 0x7FFFFFFF)"

definition floorf :: "u32 \<Rightarrow> u32" where
  "floorf x =
    (let i0 = x;
         ix = i0 AND 0x7FFFFFFF;
         j0 = int (unat (drop_bit 23 ix)) - 0x7F
     in if j0 < 23
        then if j0 < 0
             then if sint i0 \<ge> 0 then 0
                  else if \<not> FLT_UWORD_IS_ZERO ix then 0xBF800000
                  else i0
             else let i = drop_bit (nat j0) 0x007FFFFF
                  in if i0 AND i = 0 then x
                     else let i0 = (if sint i0 < 0 then i0 + drop_bit (nat j0) 0x00800000 else i0)
                          in i0 AND NOT i
        else if \<not> FLT_UWORD_IS_FINITE ix then fadd x x
        else x)"

definition ceilf :: "u32 \<Rightarrow> u32" where
  "ceilf x =
    (let i0 = x;
         ix = i0 AND 0x7FFFFFFF;
         j0 = int (unat (drop_bit 23 ix)) - 0x7F
     in if j0 < 23
        then if j0 < 0
             then if sint i0 < 0 then 0x80000000
                  else if \<not> FLT_UWORD_IS_ZERO ix then 0x3F800000
                  else i0
             else let i = drop_bit (nat j0) 0x007FFFFF
                  in if i0 AND i = 0 then x
                     else let i0 = (if sint i0 > 0 then i0 + drop_bit (nat j0) 0x00800000 else i0)
                          in i0 AND NOT i
        else if \<not> FLT_UWORD_IS_FINITE ix then fadd x x
        else x)"

text \<open>\<^verbatim>\<open>modff\<close> returns the fraction and stores the integral part through its second argument.\<close>

definition modff :: "u32 \<Rightarrow> u32 \<times> u32" where
  "modff x =
    (let i0 = x;
         j0 = int (unat (drop_bit 23 i0 AND 0xFF)) - 0x7F
     in if j0 < 23
        then if j0 < 0 then (x, i0 AND 0x80000000)
             else let i = drop_bit (nat j0) 0x007FFFFF
                  in if i0 AND i = 0 then (i0 AND 0x80000000, x)
                     else let iptr = i0 AND NOT i in (fsub x iptr, iptr)
        else if isnanf x then (fadd x x, fadd x x)
        else (i0 AND 0x80000000, x))"

section \<open>Signs and classes\<close>

lemma uword_classes:
  "FLT_UWORD_IS_FINITE (x AND 0x7FFFFFFF) \<longleftrightarrow> is_finite x" "FLT_UWORD_IS_NAN (x AND 0x7FFFFFFF) \<longleftrightarrow> is_nan x"
  "FLT_UWORD_IS_INFINITE (x AND 0x7FFFFFFF) \<longleftrightarrow> mag x = inf_mag" "FLT_UWORD_IS_ZERO (x AND 0x7FFFFFFF) \<longleftrightarrow> mag x = 0"
  "FLT_UWORD_IS_SUBNORMAL (x AND 0x7FFFFFFF) \<longleftrightarrow> mag x < 2 ^ 23"
  using abs_unat [of x] abs_eq_0 [of x]
  by (simp_all add: FLT_UWORD_IS_FINITE_def FLT_UWORD_IS_NAN_def FLT_UWORD_IS_INFINITE_def FLT_UWORD_IS_ZERO_def
      FLT_UWORD_IS_SUBNORMAL_def is_finite_def is_nan_def inf_mag_def word_less_nat_alt word_unat_eq_iff fp_consts)

lemma mag_of_abs: "mag (x AND absMask) = mag x" "\<not> negative (x AND absMask)"
  by (simp_all add: mag_def negative_bit bit_and_iff absMask_mask bit_mask_iff and.assoc)

text \<open>
  \<^verbatim>\<open>fabsf\<close> clears the sign and \<^verbatim>\<open>copysignf\<close> copies it, both keeping the magnitude; the classification functions tell
  finite numbers, infinities and patterns that are not numbers apart.
\<close>

theorem sign_and_class_correct:
  "mag (fabsf x) = mag x \<and> \<not> negative (fabsf x) \<and>
   mag (copysignf x y) = mag x \<and> negative (copysignf x y) = negative y \<and>
   finitef x = is_finite x \<and> isnanf x = is_nan x \<and> isinff x = (mag x = inf_mag)"
proof -
  have "mag (copysignf x y) = mag x \<and> negative (copysignf x y) = negative y"
  proof -
    have u: "unat (x AND absMask) < 2 ^ 31" using mag_lt [of x] by (simp add: mag_def)
    have "copysignf x y = (x AND absMask) OR (y AND signBit)" by (simp add: copysignf_def fp_consts)
    then show ?thesis using mag_or_sign [OF u] mag_small [OF u] abs_unat [of x] by (simp add: sign_of)
  qed
  then show ?thesis using mag_of_abs [of x]
    by (simp add: fabsf_def finitef_def isnanf_def isinff_def uword_classes fp_consts(6))
qed

section \<open>Integral parts\<close>

lemma mval_binade:
  assumes "1 \<le> E" and "E * 2 ^ 23 \<le> n" and "n \<le> (E + 1) * 2 ^ 23"
  shows "mval n = (n - (E - 1) * 2 ^ 23) * 2 ^ (E - 1)"
proof (cases "n = (E + 1) * 2 ^ 23")
  case True
  have "(E + 1) * 2 ^ 23 - (E - 1) * 2 ^ 23 = (2::nat) ^ 24" using assms(1) by (simp flip: diff_mult_distrib)
  moreover have "2 ^ 23 * 2 ^ E = (2::nat) ^ 24 * 2 ^ (E - 1)" using assms(1) by (cases E) simp_all
  moreover have "mval n = 2 ^ 23 * 2 ^ E" using mval_normal [of "E + 1" 0] True by simp
  ultimately show ?thesis using True by simp
next
  case False
  define f where "f = n - E * 2 ^ 23"
  have n: "n = E * 2 ^ 23 + f" "f < 2 ^ 23" using assms False by (simp_all add: f_def)
  moreover have "E * 2 ^ 23 + f - (E - 1) * 2 ^ 23 = 2 ^ 23 + f" using assms(1) by (cases E) simp_all
  ultimately show ?thesis using mval_normal [OF assms(1) n(2)] by simp
qed

text \<open>A magnitude between 1 and \<open>2\<^sup>2\<^sup>3\<close> has \<open>k\<close> bits of fraction: the neighbouring integers have them clear.\<close>

lemma integral_part:
  assumes k: "1 \<le> k" "k \<le> 23" and E: "n div 2 ^ 23 = 150 - k"
  obtains T where "mval n = T * 2 ^ 149 + n mod 2 ^ k * 2 ^ (149 - k)" and "mval (n div 2 ^ k * 2 ^ k) = T * 2 ^ 149"
    and "mval ((n div 2 ^ k + 1) * 2 ^ k) = (T + 1) * 2 ^ 149" and "(n div 2 ^ k + 1) * 2 ^ k \<le> 150 * 2 ^ 23"
proof -
  define c r F where "c = n div 2 ^ k" and "r = n mod 2 ^ k" and "F = 150 - k"
  have n: "n = c * 2 ^ k + r" "r < 2 ^ k" unfolding c_def r_def by (simp_all only: div_mult_mod_eq mod_less_divisor zero_less_power zero_less_numeral)
  have p: "(2::nat) ^ 23 = 2 ^ (23 - k) * 2 ^ k" using pow2_split [of k 23] k by (simp add: mult.commute)
  have Fk: "F - 1 = 149 - k" "1 \<le> F" using k by (simp_all add: F_def)
  have "n div 2 ^ 23 = c div 2 ^ (23 - k)" unfolding p c_def by (simp add: mult.commute flip: div_mult2_eq)
  then have q: "c div 2 ^ (23 - k) = F" using E by (simp add: F_def)
  have "c div 2 ^ (23 - k) < F + 1" using q by simp
  then have "c < (F + 1) * 2 ^ (23 - k)" by (simp only: div_less_iff_less_mult zero_less_power zero_less_numeral)
  then have cF: "F * 2 ^ (23 - k) \<le> c" "c < (F + 1) * 2 ^ (23 - k)"
    using div_times_less_eq_dividend [of c "2 ^ (23 - k)"] q by simp_all
  have lo: "F * 2 ^ 23 \<le> c * 2 ^ k" unfolding p using cF(1) by (simp flip: mult.assoc)
  have hi: "(c + 1) * 2 ^ k \<le> (F + 1) * 2 ^ 23"
  proof -
    have "(c + 1) * 2 ^ k \<le> (F + 1) * 2 ^ (23 - k) * 2 ^ k" using cF(2) by (intro mult_le_mono1) simp
    then show ?thesis unfolding p by (simp only: mult.assoc)
  qed
  define T where "T = c - (F - 1) * 2 ^ (23 - k)"
  have Tc: "(F - 1) * 2 ^ (23 - k) \<le> c" using cF(1) by (meson diff_le_self le_trans mult_le_mono1)
  have pw: "2 ^ k * 2 ^ (F - 1) = (2::nat) ^ 149" using pow2_split [of k 149] k Fk by simp
  have sub: "(c + d) * 2 ^ k - (F - 1) * 2 ^ 23 = (T + d) * 2 ^ k" for d
    unfolding p T_def using Tc by (simp add: mult.assoc [symmetric] flip: diff_mult_distrib)
  have m0: "mval (c * 2 ^ k) = T * 2 ^ 149"
  proof -
    have "c * 2 ^ k \<le> (F + 1) * 2 ^ 23" using hi by simp
    from mval_binade [OF Fk(2) lo this] sub [of 0] show ?thesis by (simp only: mult.assoc pw add_0_right)
  qed
  have m1: "mval ((c + 1) * 2 ^ k) = (T + 1) * 2 ^ 149"
  proof -
    have "F * 2 ^ 23 \<le> (c + 1) * 2 ^ k" using lo by simp
    from mval_binade [OF Fk(2) this hi] sub [of 1] show ?thesis by (simp only: mult.assoc pw)
  qed
  have mn: "mval n = T * 2 ^ 149 + r * 2 ^ (149 - k)"
  proof -
    have "n \<le> (F + 1) * 2 ^ 23" "F * 2 ^ 23 \<le> n" using lo hi n by simp_all
    then have "mval n = (n - (F - 1) * 2 ^ 23) * 2 ^ (F - 1)" using mval_binade [OF Fk(2)] by blast
    moreover have "n - (F - 1) * 2 ^ 23 = T * 2 ^ k + r"
    proof -
      have "(F - 1) * 2 ^ 23 \<le> c * 2 ^ k" using lo by (meson diff_le_self le_trans mult_le_mono1)
      then show ?thesis using sub [of 0] n(1) by simp
    qed
    ultimately have "mval n = (T * 2 ^ k + r) * 2 ^ (F - 1)" by simp
    then show ?thesis unfolding Fk(1) [symmetric] by (simp only: distrib_right mult.assoc pw)
  qed
  have "(c + 1) * 2 ^ k \<le> 150 * 2 ^ 23" using hi k by (intro order_trans [OF hi] mult_le_mono1) (simp add: F_def)
  with m0 m1 mn show ?thesis using that unfolding c_def r_def by blast
qed

section \<open>Clearing fractions\<close>

lemma fraction_mask:
  assumes "j \<le> 23"
  shows "drop_bit j (0x7FFFFF :: u32) = mask (23 - j)" and "unat (drop_bit j (0x800000 :: u32)) = 2 ^ (23 - j)"
proof -
  have m: "(0x7FFFFF :: u32) = mask 23" by (simp add: mask_eq_exp_minus_1)
  show "drop_bit j (0x7FFFFF :: u32) = mask (23 - j)"
    unfolding m by (rule bit_word_eqI) (auto simp: bit_drop_bit_eq bit_mask_iff)
  have "(2::nat) ^ 23 div 2 ^ j = 2 ^ (23 - j)" using assms by (simp add: power_diff)
  then show "unat (drop_bit j (0x800000 :: u32)) = 2 ^ (23 - j)" by (simp add: unat_drop_bit)
qed

lemma fraction_zero:
  assumes "k \<le> 23"
  shows "x AND mask k = 0 \<longleftrightarrow> mag x mod 2 ^ k = 0"
proof -
  have "mag x mod 2 ^ k = unat x mod 2 ^ k" unfolding mag_mod using assms mod_exp_eq [of "unat x" 31 k] by (simp add: min_def)
  then show ?thesis by (simp add: unat_eq_zero [symmetric] unat_and_mask)
qed

lemma clear_fraction:
  assumes k: "k \<le> 23" and x: "unat x = (if p then 2 ^ 31 else 0) + n" and n: "n < 2 ^ 31"
  shows "mag (x AND NOT (mask k)) = n div 2 ^ k * 2 ^ k" and "negative (x AND NOT (mask k)) \<longleftrightarrow> p"
proof -
  have p31: "(2::nat) ^ 31 = 2 ^ (31 - k) * 2 ^ k" using pow2_split [of k 31] k by (simp add: mult.commute)
  have "unat (x AND NOT (mask k)) = unat x div 2 ^ k * 2 ^ k"
  proof -
    have "unat x div 2 ^ k * 2 ^ k < 2 ^ 32" using unat_lt2 [of x] by (intro le_less_trans [OF div_times_less_eq_dividend]) simp
    then show ?thesis unfolding and_not_mask by (simp add: unat_push_bit unat_drop_bit)
  qed
  also have "unat x div 2 ^ k = (if p then 2 ^ (31 - k) else 0) + n div 2 ^ k" unfolding x p31 by simp
  finally have u: "unat (x AND NOT (mask k)) = (if p then 2 ^ 31 else 0) + n div 2 ^ k * 2 ^ k"
    unfolding p31 by (simp add: distrib_right)
  have "n div 2 ^ k * 2 ^ k < 2 ^ 31" using n by (intro le_less_trans [OF div_times_less_eq_dividend])
  from mag_of_unat [OF u this] show "mag (x AND NOT (mask k)) = n div 2 ^ k * 2 ^ k" "negative (x AND NOT (mask k)) \<longleftrightarrow> p" .
qed

lemma sint_sign: "sint x < 0 \<longleftrightarrow> negative x" for x :: u32
  using mag_lt [of x] by (simp add: sint_split)

lemma nonfinite_double: "\<not> is_finite x \<Longrightarrow> if is_nan x then is_nan (fadd x x) else fadd x x = x"
  using add_nearest [of x x] by (auto simp: fadd_def addsf3_def ieee_sum_def)

text \<open>The exponent decides how a rounding function treats a number.\<close>

lemma exponent_cases:
  fixes x :: u32
  obtains (small) "mag x div 2 ^ 23 < 127"
  | (medium) k where "1 \<le> k" and "k \<le> 23" and "mag x div 2 ^ 23 = 150 - k"
  | (large) "150 \<le> mag x div 2 ^ 23"
proof -
  consider "mag x div 2 ^ 23 < 127" | "127 \<le> mag x div 2 ^ 23" "mag x div 2 ^ 23 < 150" | "150 \<le> mag x div 2 ^ 23" by linarith
  then show ?thesis
  proof cases
    case 2
    then show ?thesis using medium [of "150 - mag x div 2 ^ 23"] by simp
  qed (use small large in blast)+
qed

lemma mval_small: "mag x div 2 ^ 23 < 127 \<Longrightarrow> mval (mag x) < 2 ^ 149"
proof -
  assume "mag x div 2 ^ 23 < 127"
  then have "mag x < 127 * 2 ^ 23" by (simp add: div_less_iff_less_mult)
  then have "mval (mag x) < mval (127 * 2 ^ 23)" by simp
  also have "mval (127 * 2 ^ 23) = 2 ^ 149" by (simp add: mval_def)
  finally show ?thesis .
qed

lemma mval_large: "150 \<le> mag x div 2 ^ 23 \<Longrightarrow> 2 ^ 149 dvd mval (mag x)"
proof -
  assume e: "150 \<le> mag x div 2 ^ 23"
  then have "\<not> mag x < 2 ^ 23" by (auto simp: div_eq_0_iff)
  then have "mval (mag x) = (2 ^ 23 + mag x mod 2 ^ 23) * 2 ^ (mag x div 2 ^ 23 - 1)" by (simp add: mval_def)
  moreover have "(2::nat) ^ 149 dvd 2 ^ (mag x div 2 ^ 23 - 1)" using e by (intro le_imp_power_dvd) simp
  ultimately show ?thesis by (metis dvd_mult)
qed

section \<open>Floor and ceiling\<close>

lemma uword_exponent: "unat (drop_bit 23 (x AND 0x7FFFFFFF)) = mag x div 2 ^ 23" for x :: u32
  using fix_fields(1) [of x] unfolding fp_consts(6) .

lemma floorf_cases:
  "mag x div 2 ^ 23 < 127 \<Longrightarrow> floorf x = (if \<not> negative x then 0 else if mag x \<noteq> 0 then 0xBF800000 else x)"
  "1 \<le> k \<Longrightarrow> k \<le> 23 \<Longrightarrow> mag x div 2 ^ 23 = 150 - k \<Longrightarrow> floorf x = (if mag x mod 2 ^ k = 0 then x
    else (if negative x then x + drop_bit (23 - k) 0x800000 else x) AND NOT (mask k))"
  "150 \<le> mag x div 2 ^ 23 \<Longrightarrow> floorf x = (if is_finite x then x else fadd x x)"
proof -
  note f = floorf_def [of x, unfolded Let_def uword_exponent uword_classes sint_sign not_less [symmetric]]
  show "mag x div 2 ^ 23 < 127 \<Longrightarrow> floorf x = (if \<not> negative x then 0 else if mag x \<noteq> 0 then 0xBF800000 else x)"
    unfolding f by auto
  show "150 \<le> mag x div 2 ^ 23 \<Longrightarrow> floorf x = (if is_finite x then x else fadd x x)" unfolding f by auto
  assume k: "1 \<le> k" "k \<le> 23" "mag x div 2 ^ 23 = 150 - k"
  then have j: "int (mag x div 2 ^ 23) - 127 = int (23 - k)" by simp
  have m: "drop_bit (23 - k) (0x7FFFFF :: u32) = mask k" using fraction_mask(1) [of "23 - k"] k by simp
  show "floorf x = (if mag x mod 2 ^ k = 0 then x else (if negative x then x + drop_bit (23 - k) 0x800000 else x) AND NOT (mask k))"
    unfolding f j nat_int m fraction_zero [OF k(2)] using k(1) by simp
qed

lemma ceilf_cases:
  "mag x div 2 ^ 23 < 127 \<Longrightarrow> ceilf x = (if negative x then 0x80000000 else if mag x \<noteq> 0 then 0x3F800000 else x)"
  "1 \<le> k \<Longrightarrow> k \<le> 23 \<Longrightarrow> mag x div 2 ^ 23 = 150 - k \<Longrightarrow> ceilf x = (if mag x mod 2 ^ k = 0 then x
    else (if \<not> negative x then x + drop_bit (23 - k) 0x800000 else x) AND NOT (mask k))"
  "150 \<le> mag x div 2 ^ 23 \<Longrightarrow> ceilf x = (if is_finite x then x else fadd x x)"
proof -
  note f = ceilf_def [of x, unfolded Let_def uword_exponent uword_classes sint_sign]
  show "mag x div 2 ^ 23 < 127 \<Longrightarrow> ceilf x = (if negative x then 0x80000000 else if mag x \<noteq> 0 then 0x3F800000 else x)"
    unfolding f by auto
  show "150 \<le> mag x div 2 ^ 23 \<Longrightarrow> ceilf x = (if is_finite x then x else fadd x x)" unfolding f by auto
  assume k: "1 \<le> k" "k \<le> 23" "mag x div 2 ^ 23 = 150 - k"
  then have j: "int (mag x div 2 ^ 23) - 127 = int (23 - k)" by simp
  have m: "drop_bit (23 - k) (0x7FFFFF :: u32) = mask k" using fraction_mask(1) [of "23 - k"] k by simp
  have "mag x \<noteq> 0" using k by auto
  then have s: "0 < sint x \<longleftrightarrow> \<not> negative x" using mag_lt [of x] by (simp add: sint_split)
  show "ceilf x = (if mag x mod 2 ^ k = 0 then x else (if \<not> negative x then x + drop_bit (23 - k) 0x800000 else x) AND NOT (mask k))"
    unfolding f j nat_int m fraction_zero [OF k(2)] s using k(1) by simp
qed

lemma magnitude_step:
  assumes k: "k \<le> 23" and n: "(mag x div 2 ^ k + 1) * 2 ^ k \<le> 150 * 2 ^ 23"
  defines "y \<equiv> (x + drop_bit (23 - k) 0x800000) AND NOT (mask k)"
  shows "mag y = (mag x div 2 ^ k + 1) * 2 ^ k" and "negative y \<longleftrightarrow> negative x"
proof -
  have k': "unat (drop_bit (23 - k) (0x800000 :: u32)) = 2 ^ k" using fraction_mask(2) [of "23 - k"] k by simp
  have r: "mag x < (mag x div 2 ^ k + 1) * 2 ^ k" using dividend_less_div_times [of "2 ^ k" "mag x"] by simp
  have "(2::nat) ^ k \<le> 2 ^ 23" using k by (intro power_increasing) simp_all
  then have lt: "mag x + 2 ^ k < 2 ^ 31" using r n by simp
  then have "unat (x + drop_bit (23 - k) 0x800000) = (if negative x then 2 ^ 31 else 0) + (mag x + 2 ^ k)"
    using unat_split [of x] by (simp add: unat_word_ariths k')
  note c = clear_fraction [OF k this lt, folded y_def]
  have "(mag x + 2 ^ k) div 2 ^ k = mag x div 2 ^ k + 1" by (rule div_add_self2) simp
  with c show "mag y = (mag x div 2 ^ k + 1) * 2 ^ k" "negative y \<longleftrightarrow> negative x" by (simp_all only:)
qed

text \<open>The floor of a signed magnitude with integral part \<open>T\<close> and fraction \<open>r\<close>, in units of \<open>M\<close>.\<close>

lemma floor_parts:
  fixes T r M :: nat
  assumes "r < M"
  shows "int (T * M + r) div int M * int M = int (T * M)"
    and "- int (T * M + r) div int M * int M = (if r = 0 then - int (T * M) else - int ((T + 1) * M))"
proof -
  have M: "0 < int M" using assms by simp
  have "int (T * M + r) div int M = int T" using assms by (simp flip: zdiv_int)
  then show "int (T * M + r) div int M * int M = int (T * M)" by simp
  show "- int (T * M + r) div int M * int M = (if r = 0 then - int (T * M) else - int ((T + 1) * M))"
  proof (cases "r = 0")
    case True
    have "- int (T * M) div int M = (- int T * int M) div int M" by simp
    also have "\<dots> = - int T" using M by (intro nonzero_mult_div_cancel_right) simp
    finally have "- int (T * M) div int M = - int T" .
    then show ?thesis using True by simp
  next
    case False
    have q: "- int (T * M + r) div int M = - int (T + 1)"
      by (rule int_div_pos_eq [where r = "int (M - r)"]) (use assms False in \<open>simp_all add: algebra_simps of_nat_diff\<close>)
    show ?thesis unfolding q using False by (simp add: algebra_simps)
  qed
qed

text \<open>Magnitudes of the rounded numbers, on every branch.\<close>

definition ieee_floor :: "u32 \<Rightarrow> u32 \<Rightarrow> bool" where
  "ieee_floor x r \<longleftrightarrow>
    (if is_nan x then is_nan r else if \<not> is_finite x then r = x
     else is_finite r \<and> fval r = fval x div 2 ^ 149 * 2 ^ 149)"

lemma floor_large:
  assumes "150 \<le> mag x div 2 ^ 23" and "r = (if is_finite x then x else fadd x x)"
  shows "ieee_floor x r" and "is_finite x \<Longrightarrow> fval x div 2 ^ 149 * 2 ^ 149 = fval x"
proof -
  have "int (2 ^ 149) dvd int (mval (mag x))" using mval_large [OF assms(1)] by (simp only: of_nat_dvd_iff)
  then have d: "2 ^ 149 dvd fval x" by (simp add: fval_def)
  then show "is_finite x \<Longrightarrow> fval x div 2 ^ 149 * 2 ^ 149 = fval x" by (simp add: dvd_div_mult_self)
  show "ieee_floor x r"
    using nonfinite_double [of x] d assms(2) by (auto simp: ieee_floor_def is_nan_def is_finite_def dvd_div_mult_self split: if_splits)
qed

lemma medium_parts:
  assumes k: "1 \<le> k" "k \<le> 23" "mag x div 2 ^ 23 = 150 - k"
  obtains T r where "mval (mag x) = T * 2 ^ 149 + r" and "r < 2 ^ 149" and "r = 0 \<longleftrightarrow> mag x mod 2 ^ k = 0"
    and "r = mag x mod 2 ^ k * 2 ^ (149 - k)"
    and "mval (mag x div 2 ^ k * 2 ^ k) = T * 2 ^ 149" and "mval ((mag x div 2 ^ k + 1) * 2 ^ k) = (T + 1) * 2 ^ 149"
    and "(mag x div 2 ^ k + 1) * 2 ^ k \<le> 150 * 2 ^ 23"
proof -
  obtain T where T: "mval (mag x) = T * 2 ^ 149 + mag x mod 2 ^ k * 2 ^ (149 - k)" "mval (mag x div 2 ^ k * 2 ^ k) = T * 2 ^ 149"
    "mval ((mag x div 2 ^ k + 1) * 2 ^ k) = (T + 1) * 2 ^ 149" "(mag x div 2 ^ k + 1) * 2 ^ k \<le> 150 * 2 ^ 23"
    using integral_part [OF k] by blast
  have "mag x mod 2 ^ k * 2 ^ (149 - k) < 2 ^ k * 2 ^ (149 - k)" by simp
  also have "\<dots> = 2 ^ 149" using pow2_split [of k 149] k by simp
  finally show ?thesis using T that [of T "mag x mod 2 ^ k * 2 ^ (149 - k)"] by simp
qed

lemma floorf_spec: "ieee_floor x (floorf x)"
proof (cases rule: exponent_cases [of x])
  case small
  have fin: "is_finite x" using small by (auto simp: is_finite_def inf_mag_def div_less_iff_less_mult)
  have lt: "mval (mag x) < 2 ^ 149" by (rule mval_small [OF small])
  note fl = floor_parts [OF lt, of 0]
  have c: "mag 0xBF800000 = 127 * 2 ^ 23" "negative 0xBF800000" "mag 0 = 0" "\<not> negative 0"
    by (simp_all add: mag_def negative_def fp_consts)
  have one: "mval (127 * 2 ^ 23) = 2 ^ 149" by (simp add: mval_def)
  have z: "mval (mag x) = 0 \<longleftrightarrow> mag x = 0" using mval_eq [of "mag x" 0] by simp
  have "is_finite (floorf x) \<and> fval (floorf x) = fval x div 2 ^ 149 * 2 ^ 149"
    using fl fin c one z unfolding floorf_cases(1) [OF small] fval_def is_finite_def
    by (auto simp: inf_mag_def)
  then show ?thesis using fin by (simp add: ieee_floor_def is_nan_def is_finite_def)
next
  case (medium k)
  have fin: "is_finite x" using medium by (auto simp: is_finite_def inf_mag_def div_less_iff_less_mult [symmetric])
  obtain T r where T: "mval (mag x) = T * 2 ^ 149 + r" "r < 2 ^ 149" "r = 0 \<longleftrightarrow> mag x mod 2 ^ k = 0"
    "mval (mag x div 2 ^ k * 2 ^ k) = T * 2 ^ 149" "mval ((mag x div 2 ^ k + 1) * 2 ^ k) = (T + 1) * 2 ^ 149"
    "(mag x div 2 ^ k + 1) * 2 ^ k \<le> 150 * 2 ^ 23" using medium_parts [OF medium] by metis
  note fl = floor_parts [OF T(2), of T, folded T(1)]
  note up = magnitude_step [OF medium(2) T(6)] and dn = clear_fraction [OF medium(2) unat_split [of x] mag_lt]
  have "is_finite (floorf x) \<and> fval (floorf x) = fval x div 2 ^ 149 * 2 ^ 149"
  proof (cases "mag x mod 2 ^ k = 0")
    case True
    then have "floorf x = x" using floorf_cases(2) [OF medium] by simp
    then show ?thesis using fin True T(3) fl by (simp add: fval_def T(1))
  next
    case False
    then have f: "floorf x = (if negative x then (x + drop_bit (23 - k) 0x800000) AND NOT (mask k) else x AND NOT (mask k))"
      using floorf_cases(2) [OF medium] by simp
    have "mag (floorf x) = (if negative x then (mag x div 2 ^ k + 1) * 2 ^ k else mag x div 2 ^ k * 2 ^ k)"
      "negative (floorf x) \<longleftrightarrow> negative x" unfolding f using up dn by simp_all
    moreover from this have "mag (floorf x) \<le> 150 * 2 ^ 23" using T(6) by (auto split: if_splits)
    ultimately show ?thesis using T(3,4,5) fl False by (simp add: fval_def is_finite_def inf_mag_def)
  qed
  then show ?thesis using fin by (simp add: ieee_floor_def is_nan_def is_finite_def)
next
  case large
  then show ?thesis using floor_large(1) floorf_cases(3) by simp
qed

definition ieee_ceil :: "u32 \<Rightarrow> u32 \<Rightarrow> bool" where
  "ieee_ceil x r \<longleftrightarrow>
    (if is_nan x then is_nan r else if \<not> is_finite x then r = x
     else is_finite r \<and> fval r = - (- fval x div 2 ^ 149 * 2 ^ 149))"

lemma ceil_large:
  assumes "150 \<le> mag x div 2 ^ 23" and "r = (if is_finite x then x else fadd x x)"
  shows "ieee_ceil x r"
proof -
  have "int (2 ^ 149) dvd int (mval (mag x))" using mval_large [OF assms(1)] by (simp only: of_nat_dvd_iff)
  then have "2 ^ 149 dvd - fval x" by (simp add: fval_def)
  then have "- fval x div 2 ^ 149 * 2 ^ 149 = - fval x" by (rule dvd_div_mult_self)
  then show ?thesis
    using nonfinite_double [of x] assms(2) by (auto simp: ieee_ceil_def is_nan_def is_finite_def split: if_splits)
qed

lemma ceilf_spec: "ieee_ceil x (ceilf x)"
proof (cases rule: exponent_cases [of x])
  case small
  have fin: "is_finite x" using small by (auto simp: is_finite_def inf_mag_def div_less_iff_less_mult)
  have lt: "mval (mag x) < 2 ^ 149" by (rule mval_small [OF small])
  note fl = floor_parts [OF lt, of 0]
  have c: "mag 0x3F800000 = 127 * 2 ^ 23" "\<not> negative 0x3F800000" "mag 0x80000000 = 0" "negative 0x80000000"
    by (simp_all add: mag_def negative_def fp_consts)
  have one: "mval (127 * 2 ^ 23) = 2 ^ 149" by (simp add: mval_def)
  have z: "mval (mag x) = 0 \<longleftrightarrow> mag x = 0" using mval_eq [of "mag x" 0] by simp
  have "is_finite (ceilf x) \<and> fval (ceilf x) = - (- fval x div 2 ^ 149 * 2 ^ 149)"
    using fl fin c one z unfolding ceilf_cases(1) [OF small] fval_def is_finite_def
    by (auto simp: inf_mag_def)
  then show ?thesis using fin by (simp add: ieee_ceil_def is_nan_def is_finite_def)
next
  case (medium k)
  have fin: "is_finite x" using medium by (auto simp: is_finite_def inf_mag_def div_less_iff_less_mult [symmetric])
  obtain T r where T: "mval (mag x) = T * 2 ^ 149 + r" "r < 2 ^ 149" "r = 0 \<longleftrightarrow> mag x mod 2 ^ k = 0"
    "mval (mag x div 2 ^ k * 2 ^ k) = T * 2 ^ 149" "mval ((mag x div 2 ^ k + 1) * 2 ^ k) = (T + 1) * 2 ^ 149"
    "(mag x div 2 ^ k + 1) * 2 ^ k \<le> 150 * 2 ^ 23" using medium_parts [OF medium] by metis
  note fl = floor_parts [OF T(2), of T, folded T(1)]
  note up = magnitude_step [OF medium(2) T(6)] and dn = clear_fraction [OF medium(2) unat_split [of x] mag_lt]
  have "is_finite (ceilf x) \<and> fval (ceilf x) = - (- fval x div 2 ^ 149 * 2 ^ 149)"
  proof (cases "mag x mod 2 ^ k = 0")
    case True
    then have "ceilf x = x" using ceilf_cases(2) [OF medium] by simp
    then show ?thesis using fin True T(3) fl by (simp add: fval_def T(1))
  next
    case False
    then have f: "ceilf x = (if \<not> negative x then (x + drop_bit (23 - k) 0x800000) AND NOT (mask k) else x AND NOT (mask k))"
      using ceilf_cases(2) [OF medium] by simp
    have "mag (ceilf x) = (if \<not> negative x then (mag x div 2 ^ k + 1) * 2 ^ k else mag x div 2 ^ k * 2 ^ k)"
      "negative (ceilf x) \<longleftrightarrow> negative x" unfolding f using up dn by simp_all
    moreover from this have "mag (ceilf x) \<le> 150 * 2 ^ 23" using T(6) by (auto split: if_splits)
    ultimately show ?thesis using T(3,4,5) fl False by (simp add: fval_def is_finite_def inf_mag_def)
  qed
  then show ?thesis using fin by (simp add: ieee_ceil_def is_nan_def is_finite_def)
next
  case large
  then show ?thesis using ceil_large ceilf_cases(3) by simp
qed

section \<open>Integral and fractional part\<close>

lemma representable_scaled:
  assumes "m < 2 ^ 24" and "t \<le> 253"
  obtains n where "n < inf_mag" and "mval n = m * 2 ^ t"
proof (cases "m = 0")
  case True
  then show ?thesis using that [of 0] by (simp add: inf_mag_def)
next
  case False
  define b where "b = bitlen m - 1"
  have b: "2 ^ b \<le> m" "m < 2 ^ Suc b" using False bitlen_ge [of m] bitlen_lt [of m] bitlen_pos [of m] by (simp_all add: b_def)
  have "(2::nat) ^ b < 2 ^ 24" using b(1) assms(1) by simp
  then have "b \<le> 23" using power_less_imp_less_exp [of "2::nat" b 24] by simp
  show ?thesis
  proof (cases "b + t < 23")
    case True
    have "m * 2 ^ t < 2 ^ Suc b * 2 ^ t" using b(2) by simp
    also have "\<dots> = (2::nat) ^ (Suc b + t)" by (simp add: power_add)
    also have "\<dots> \<le> 2 ^ 23" using True by (intro power_increasing) simp_all
    finally have "m * 2 ^ t < 2 ^ 23" .
    then show ?thesis using that [of "m * 2 ^ t"] by (simp add: mval_subnormal inf_mag_def)
  next
    case False
    define e where "e = b + t - 22"
    have e: "1 \<le> e" "e \<le> 254" "e - 1 + (23 - b) = t" using False assms(2) \<open>b \<le> 23\<close> by (simp_all add: e_def)
    note p = pow2_split [OF \<open>b \<le> 23\<close>]
    have "2 ^ Suc b * 2 ^ (23 - b) = (2::nat) ^ 24" using p by simp
    with p have f: "2 ^ 23 \<le> m * 2 ^ (23 - b)" "m * 2 ^ (23 - b) < 2 ^ 24"
      using b mult_le_mono1 [of "2 ^ b" m "2 ^ (23 - b)"] mult_less_mono1 [of m "2 ^ Suc b" "2 ^ (23 - b)"]
      by (metis, metis zero_less_numeral zero_less_power)
    have "mval (e * 2 ^ 23 + (m * 2 ^ (23 - b) - 2 ^ 23)) = m * (2 ^ (23 - b) * 2 ^ (e - 1))"
      using mval_normal [OF e(1), of "m * 2 ^ (23 - b) - 2 ^ 23"] f by simp
    also have "2 ^ (23 - b) * 2 ^ (e - 1) = (2::nat) ^ t" using e(3) by (simp flip: power_add add: add.commute)
    finally show ?thesis using f e(2) by (intro that) (auto simp: inf_mag_def)
  qed
qed

lemma signed_zero:
  "mag (x AND signBit) = 0" "negative (x AND signBit) \<longleftrightarrow> negative x" "is_finite (x AND signBit)" "fval (x AND signBit) = 0"
  unfolding sign_of by (simp_all add: mag_def negative_def fval_def is_finite_def inf_mag_def fp_consts)

lemma modff_cases:
  "mag x div 2 ^ 23 < 127 \<Longrightarrow> modff x = (x, x AND signBit)"
  "1 \<le> k \<Longrightarrow> k \<le> 23 \<Longrightarrow> mag x div 2 ^ 23 = 150 - k \<Longrightarrow> modff x = (if mag x mod 2 ^ k = 0 then (x AND signBit, x)
    else (fsub x (x AND NOT (mask k)), x AND NOT (mask k)))"
  "150 \<le> mag x div 2 ^ 23 \<Longrightarrow> modff x = (if is_nan x then (fadd x x, fadd x x) else (x AND signBit, x))"
proof -
  note f = modff_def [of x, unfolded Let_def fields isnanf_def uword_classes, folded fp_consts(5)]
  show "mag x div 2 ^ 23 < 127 \<Longrightarrow> modff x = (x, x AND signBit)" unfolding f by auto
  show "150 \<le> mag x div 2 ^ 23 \<Longrightarrow> modff x = (if is_nan x then (fadd x x, fadd x x) else (x AND signBit, x))" unfolding f by auto
  assume k: "1 \<le> k" "k \<le> 23" "mag x div 2 ^ 23 = 150 - k"
  then have j: "int (mag x div 2 ^ 23) - 127 = int (23 - k)" by simp
  have m: "drop_bit (23 - k) (0x7FFFFF :: u32) = mask k" using fraction_mask(1) [of "23 - k"] k by simp
  show "modff x = (if mag x mod 2 ^ k = 0 then (x AND signBit, x) else (fsub x (x AND NOT (mask k)), x AND NOT (mask k)))"
    unfolding f j nat_int m fraction_zero [OF k(2)] using k(1) by simp
qed

definition trunc_int :: "int \<Rightarrow> int" where
  "trunc_int v = sgn v * (\<bar>v\<bar> div 2 ^ 149 * 2 ^ 149)"

lemma trunc_int_signed:
  "trunc_int (if s then - int w else int w) = (if s then - int (w div 2 ^ 149 * 2 ^ 149) else int (w div 2 ^ 149 * 2 ^ 149))"
proof -
  have "int w div int (2 ^ 149) = int (w div 2 ^ 149)" by (rule zdiv_int [symmetric])
  then have "int w div 2 ^ 149 = int (w div 2 ^ 149)" by simp
  then show ?thesis by (cases "w = 0") (auto simp: trunc_int_def sgn_if)
qed

lemma exact_difference:
  assumes "is_finite x" and "is_finite y" and "fval x - fval y = (if s then - int v else int v)" and "v = m * 2 ^ t"
    and "m < 2 ^ 24" and "t \<le> 253"
  shows "is_finite (fsub x y)" and "fval (fsub x y) = fval x - fval y"
proof -
  obtain n where n: "n < inf_mag" "mval n = m * 2 ^ t" using representable_scaled [OF assms(5,6)] by blast
  define r where "r = fsub x y"
  have "is_finite (negsf2 y)" using assms(2) by (simp add: is_finite_def negsf2_fields)
  then have d: "rounds_to (nat \<bar>fval x - fval y\<bar>) 0 (mag r)" "negative r \<longleftrightarrow> (if fval x - fval y = 0 then negative x \<and> \<not> negative y else fval x - fval y < 0)"
    using add_nearest [of x "negsf2 y"] assms(1)
    by (auto simp: r_def fsub_def subsf3_def addsf3_def negsf2_def [symmetric] ieee_sum_def Let_def fval_negsf2 negsf2_fields is_nan_def is_finite_def)
  define z where "z = fval x - fval y"
  note d = d [folded z_def] and az = assms(3) [folded z_def]
  have "rounds_to v 0 n" using rounds_to_exact [of n 0] n assms(4) by simp
  moreover have "nat \<bar>z\<bar> = v" using az by (simp split: if_splits)
  ultimately have "mag r = n" using d(1) rounds_to_unique by blast
  moreover have "int (mval n) = \<bar>z\<bar>" using n(2) assms(4) az by (simp split: if_splits)
  ultimately have "is_finite r \<and> fval r = z" using n(1) d(2) by (auto simp: is_finite_def fval_def [of r] split: if_splits)
  then show "is_finite (fsub x y)" "fval (fsub x y) = fval x - fval y" unfolding r_def z_def by simp_all
qed

definition ieee_modf :: "u32 \<Rightarrow> u32 \<Rightarrow> u32 \<Rightarrow> bool" where
  "ieee_modf x frac ipart \<longleftrightarrow>
    (if is_nan x then is_nan frac \<and> is_nan ipart
     else if \<not> is_finite x then mag frac = 0 \<and> ipart = x \<and> negative frac = negative x
     else is_finite frac \<and> is_finite ipart \<and> fval ipart = trunc_int (fval x) \<and> fval frac + fval ipart = fval x)"

lemma modff_split:
  "case modff x of (frac, ipart) \<Rightarrow>
    (if is_nan x then is_nan frac \<and> is_nan ipart
     else if \<not> is_finite x then mag frac = 0 \<and> ipart = x \<and> negative frac = negative x
     else is_finite frac \<and> is_finite ipart \<and> fval ipart = trunc_int (fval x) \<and> fval frac + fval ipart = fval x)"
proof (cases rule: exponent_cases [of x])
  case small
  have fin: "is_finite x" using small by (auto simp: is_finite_def inf_mag_def div_less_iff_less_mult)
  have "\<bar>fval x\<bar> < 2 ^ 149" using mval_small [OF small] by (simp add: fval_def)
  then show ?thesis using fin signed_zero [of x] unfolding modff_cases(1) [OF small]
    by (simp add: is_finite_def is_nan_def trunc_int_def)
next
  case (medium k)
  have fin: "is_finite x" using medium by (auto simp: is_finite_def inf_mag_def div_less_iff_less_mult [symmetric])
  obtain T r where T: "mval (mag x) = T * 2 ^ 149 + r" "r < 2 ^ 149" "r = 0 \<longleftrightarrow> mag x mod 2 ^ k = 0"
    "r = mag x mod 2 ^ k * 2 ^ (149 - k)" "mval (mag x div 2 ^ k * 2 ^ k) = T * 2 ^ 149" using medium_parts [OF medium] by metis
  note dn = clear_fraction [OF medium(2) unat_split [of x] mag_lt]
  define y where "y = (if mag x mod 2 ^ k = 0 then x else x AND NOT (mask k))"
  have "mag x div 2 ^ k * 2 ^ k = mag x" if "mag x mod 2 ^ k = 0" using that by (simp add: dvd_div_mult_self mod_eq_0_iff_dvd)
  then have y: "mag y = mag x div 2 ^ k * 2 ^ k" "negative y \<longleftrightarrow> negative x" using dn by (simp_all add: y_def)
  have "mag y \<le> mag x" unfolding y by (rule div_times_less_eq_dividend)
  then have fy: "is_finite y" using fin by (simp add: is_finite_def)
  have vy: "fval y = (if negative x then - int (T * 2 ^ 149) else int (T * 2 ^ 149))" unfolding fval_def y T(5) ..
  have "(T * 2 ^ 149 + r) div 2 ^ 149 = T" using T(2) by simp
  then have tr: "trunc_int (fval x) = fval y" unfolding vy fval_def [of x] T(1) trunc_int_signed by (simp only:)
  have diff: "fval x - fval y = (if negative x then - int r else int r)" unfolding vy fval_def [of x] T(1) by simp
  have "mag x mod 2 ^ k < 2 ^ k" by simp
  also have "(2::nat) ^ k \<le> 2 ^ 24" using medium by (intro power_increasing) simp_all
  finally have "mag x mod 2 ^ k < 2 ^ 24" .
  note ex = exact_difference [OF fin fy diff T(4) this, of]
  show ?thesis using modff_cases(2) [OF medium] fin fy tr ex signed_zero [of x] diff T(3) medium
    by (auto simp: y_def is_nan_def is_finite_def split: if_splits)
next
  case large
  have "is_finite x \<Longrightarrow> trunc_int (fval x) = fval x"
  proof -
    have "int (2 ^ 149) dvd int (mval (mag x))" using mval_large [OF large] by (simp only: of_nat_dvd_iff)
    then have "2 ^ 149 dvd \<bar>fval x\<bar>" by (simp add: fval_def)
    then show ?thesis by (simp add: trunc_int_def dvd_div_mult_self sgn_mult_abs)
  qed
  moreover have "\<not> is_finite x \<and> is_nan x \<Longrightarrow> is_nan (fadd x x)" using nonfinite_double [of x] by simp
  ultimately show ?thesis unfolding modff_cases(3) [OF large] using signed_zero [of x] by (auto simp: is_nan_def is_finite_def)
qed

text \<open>
  C22. \<^verbatim>\<open>floorf\<close> and \<^verbatim>\<open>ceilf\<close> return the greatest integral value not above and the least not below their argument,
  exactly; infinities stay, and a pattern that is not a number gives one. \<^verbatim>\<open>modff\<close> splits a finite number exactly: the
  integral part is the number truncated towards zero and the fraction is what is left; infinity is all integral part.
\<close>

theorem integral_parts_correct:
  "ieee_floor x (floorf x) \<and> ieee_ceil x (ceilf x) \<and> (case modff x of (frac, ipart) \<Rightarrow> ieee_modf x frac ipart)"
  by (intro conjI floorf_spec ceilf_spec modff_split [folded ieee_modf_def])

end
