(* ===== verification/Softfloat_Div.thy ===== *)
theory Softfloat_Div
  imports Softfloat_Mul
begin

text \<open>
  Single precision division, \<^verbatim>\<open>divsf3.c\<close> with \<^verbatim>\<open>fp_div_impl.inc\<close>: a reciprocal by three Newton iterations on fixed point
  numbers of 32 bits, a truncated quotient with a residual, and rounding to nearest. The configuration of \<^verbatim>\<open>divsf3.c\<close> has no
  half-width iterations and native 64-bit products.
\<close>

section \<open>The functions\<close>

definition div_special :: "u32 \<Rightarrow> u32 \<Rightarrow> u32 option" where
  "div_special a b =
    (let quotientSign = (a XOR b) AND signBit; aAbs = a AND absMask; bAbs = b AND absMask
     in if aAbs > infRep then Some (a OR quietBit)
        else if bAbs > infRep then Some (b OR quietBit)
        else if aAbs = infRep then Some (if bAbs = infRep then qnanRep else aAbs OR quotientSign)
        else if bAbs = infRep then Some quotientSign
        else if aAbs = 0 then Some (if bAbs = 0 then qnanRep else quotientSign)
        else if bAbs = 0 then Some (infRep OR quotientSign)
        else None)"

definition RECIPROCAL_PRECISION :: u32 where
  "RECIPROCAL_PRECISION = 10"

definition newton :: "u32 \<Rightarrow> u32 \<Rightarrow> u32" where
  "newton b_UQ1 x_UQ0 =
    (let corr_UQ1 = 0 - ucast (drop_bit 32 ((ucast x_UQ0 :: u64) * ucast b_UQ1)) :: u32
     in ucast (drop_bit 31 ((ucast x_UQ0 :: u64) * ucast corr_UQ1)))"

definition reciprocal :: "u32 \<Rightarrow> u32" where
  "reciprocal b_UQ1 = (newton b_UQ1 ^^ 3) (0x7504F333 - b_UQ1) - 2 - RECIPROCAL_PRECISION"

definition div_round :: "u32 \<Rightarrow> int \<Rightarrow> u32 \<Rightarrow> u32 \<Rightarrow> u32 \<Rightarrow> u32 \<Rightarrow> u32" where
  "div_round quotientSign writtenExponent aSignificand bSignificand quotient_UQ1 residualLo =
    (if writtenExponent \<ge> maxExponent then infRep OR quotientSign
     else if writtenExponent \<le> 0 \<and> int significandBits + writtenExponent < 0 then quotientSign
     else let (absResult, residualLo) =
                (if writtenExponent > 0
                 then ((quotient_UQ1 AND significandMask) OR push_bit significandBits (word_of_int writtenExponent),
                       push_bit 1 residualLo)
                 else let absResult = drop_bit (nat (- writtenExponent + 1)) quotient_UQ1
                      in (absResult, push_bit (nat (int significandBits + writtenExponent)) aSignificand
                                     - push_bit 1 (absResult * bSignificand)));
              residualLo = residualLo + (absResult AND 1);
              absResult = absResult + of_bool (residualLo > bSignificand)
          in absResult OR quotientSign)"

definition divXf3 :: "u32 \<Rightarrow> u32 \<Rightarrow> u32" where
  "divXf3 a b =
    (let aExponent = drop_bit significandBits a AND 0xFF;
         bExponent = drop_bit significandBits b AND 0xFF;
         quotientSign = (a XOR b) AND signBit;
         aSignificand = a AND significandMask;
         bSignificand = b AND significandMask;
         unusual = (ucast aExponent - 1 \<ge> (254 :: u16) \<or> ucast bExponent - 1 \<ge> (254 :: u16))
     in case (if unusual then div_special a b else None) of
          Some r \<Rightarrow> r
        | None \<Rightarrow>
           (let (aScale, aSignificand) =
                  (if unusual \<and> a AND absMask < implicitBit then normalize aSignificand else (0, aSignificand));
                (bScale, bSignificand) =
                  (if unusual \<and> b AND absMask < implicitBit then normalize bSignificand else (0, bSignificand));
                scale = aScale - bScale;
                aSignificand = aSignificand OR implicitBit;
                bSignificand = bSignificand OR implicitBit;
                writtenExponent = (int (unat aExponent) - int (unat bExponent) + scale) + exponentBias;
                x_UQ0 = reciprocal (push_bit (typeWidth - significandBits - 1) bSignificand);
                quotient_UQ1 = fst (wideMultiply x_UQ0 (push_bit 1 aSignificand))
            in if quotient_UQ1 < push_bit 1 implicitBit
               then div_round quotientSign (writtenExponent - 1) (push_bit 1 aSignificand) bSignificand quotient_UQ1
                      (push_bit (significandBits + 1) aSignificand - quotient_UQ1 * bSignificand)
               else let quotient_UQ1 = drop_bit 1 quotient_UQ1
                    in div_round quotientSign writtenExponent aSignificand bSignificand quotient_UQ1
                         (push_bit significandBits aSignificand - quotient_UQ1 * bSignificand)))"

definition divsf3 :: "u32 \<Rightarrow> u32 \<Rightarrow> u32" where
  "divsf3 a b = divXf3 a b"

end
