(* ===== verification/Libm_Fmod.thy ===== *)
theory Libm_Fmod
  imports Libm_Round Softfloat_Div "HOL-Library.Monad_Syntax"
begin

text \<open>
  The remainder \<^verbatim>\<open>fmodf\<close> (\<^verbatim>\<open>sf_fmod.c\<close>) and the error results it shares with other functions (\<^verbatim>\<open>math_errf_invalidf.c\<close>).
  Its loops run on signed 32-bit integers; two of them end only for a nonzero operand, so that the loops are partial
  functions and the result is optional. The library is built without \<^verbatim>\<open>errno\<close>.
\<close>

section \<open>The functions\<close>

definition math_invalidf :: "u32 \<Rightarrow> u32" where
  "math_invalidf x = (if isnanf x then fadd x x else divsf3 0 0)"

text \<open>The arrays of constants \<^verbatim>\<open>one\<close> and \<^verbatim>\<open>Zero\<close>.\<close>

definition one_f :: u32 where "one_f = 0x3F800000"

definition Zero :: "u32 \<Rightarrow> u32" where
  "Zero i = (if i = 0 then 0 else 0x80000000)"

text \<open>The two loops that count the leading zeros of a subnormal number differ in their test.\<close>

partial_function (option) ilogb_loop :: "(int \<Rightarrow> bool) \<Rightarrow> u32 \<Rightarrow> int \<Rightarrow> int option" where
  "ilogb_loop test i e = (if test (sint i) then ilogb_loop test (push_bit 1 i) (e - 1) else Some e)"

definition ilogb_word :: "(int \<Rightarrow> bool) \<Rightarrow> u32 \<Rightarrow> int option" where
  "ilogb_word test h =
    (if FLT_UWORD_IS_SUBNORMAL h then ilogb_loop test (push_bit 8 h) (- 126) else Some (int (unat (drop_bit 23 h)) - 127))"

definition fmod_significand :: "u32 \<Rightarrow> int \<Rightarrow> u32" where
  "fmod_significand h e = (if e \<ge> - 126 then 0x00800000 OR (0x007FFFFF AND h) else push_bit (nat (- 126 - e)) h)"

datatype fmod_exit = Exact | Rest u32

partial_function (option) fmod_loop :: "u32 \<Rightarrow> u32 \<Rightarrow> u32 \<Rightarrow> fmod_exit option" where
  "fmod_loop n hx hy =
    (if n = 0 then Some (Rest hx)
     else let hz = hx - hy
          in if sint hz < 0 then fmod_loop (n - 1) (hx + hx) hy
             else if hz = 0 then Some Exact
             else fmod_loop (n - 1) (hz + hz) hy)"

partial_function (option) fmod_normalize :: "u32 \<Rightarrow> int \<Rightarrow> (u32 \<times> int) option" where
  "fmod_normalize hx iy = (if sint hx < 0x00800000 then fmod_normalize (hx + hx) (iy - 1) else Some (hx, iy))"

definition fmod_pack :: "u32 \<Rightarrow> u32 \<Rightarrow> int \<Rightarrow> u32" where
  "fmod_pack sx hx iy =
    (if iy \<ge> - 126 then ((hx - 0x00800000) OR push_bit 23 (word_of_int (iy + 127))) OR sx
     else mulsf3 (drop_bit (nat (- 126 - iy)) hx OR sx) one_f)"

definition fmod_tail :: "u32 \<Rightarrow> u32 \<Rightarrow> int \<Rightarrow> fmod_exit \<Rightarrow> u32 option" where
  "fmod_tail sx hy iy rest =
    (case rest of
       Exact \<Rightarrow> Some (Zero (drop_bit 31 sx))
     | Rest hx \<Rightarrow>
        (let hz = hx - hy; hx = (if sint hz \<ge> 0 then hz else hx)
         in if hx = 0 then Some (Zero (drop_bit 31 sx))
            else do {
                 (hx, iy) \<leftarrow> fmod_normalize hx iy;
                 Some (fmod_pack sx hx iy)
               }))"

definition fmodf :: "u32 \<Rightarrow> u32 \<Rightarrow> u32 option" where
  "fmodf x y =
    (let hx = x; hy = y;
         sx = hx AND 0x80000000;
         hx = hx XOR sx;
         hy = hy AND 0x7FFFFFFF
     in if isnanf x \<or> isnanf y then Some (fadd x y)
        else if isinff x then Some (math_invalidf x)
        else if hy = 0 then Some (math_invalidf y)
        else if sint hx < sint hy then Some x
        else if hx = hy then Some (Zero (drop_bit 31 sx))
        else do {
          ix \<leftarrow> ilogb_word (\<lambda>i. i > 0) hx;
          iy \<leftarrow> ilogb_word (\<lambda>i. i \<ge> 0) hy;
          let hx = fmod_significand hx ix;
          let hy = fmod_significand hy iy;
          rest \<leftarrow> fmod_loop (word_of_int (ix - iy)) hx hy;
          fmod_tail sx hy iy rest
        })"

section \<open>The loops\<close>

lemma sint_diff:
  fixes a b :: u32
  assumes "unat a < 2 ^ 31" and "unat b < 2 ^ 31"
  shows "sint (a - b) = int (unat a) - int (unat b)"
proof -
  have "a - b = word_of_int (int (unat a) - int (unat b))" by simp
  moreover have "sint (word_of_int (int (unat a) - int (unat b)) :: u32) = int (unat a) - int (unat b)"
    using assms by (subst sint_sbintrunc') (intro signed_take_bit_int_eq_self; simp del: of_nat_unat)
  ultimately show ?thesis by simp
qed

lemma sint_small: "unat a < 2 ^ 31 \<Longrightarrow> sint a = int (unat a)" for a :: u32
  using mag_small [of a] by (simp add: sint_split)

lemma scale_up:
  assumes "0 < m" and "m < 2 ^ Suc b"
  obtains k where "k \<le> b" and "2 ^ b \<le> m * 2 ^ k" and "m * 2 ^ k < (2::nat) ^ Suc b"
proof -
  have l: "bitlen m \<le> Suc b" "0 < bitlen m" using assms by (simp_all add: bitlen_le_iff bitlen_pos)
  have p: "2 ^ Suc b = 2 ^ bitlen m * (2::nat) ^ (Suc b - bitlen m)" "2 ^ b = 2 ^ (bitlen m - 1) * (2::nat) ^ (Suc b - bitlen m)"
    using l by (simp_all flip: power_add power_Suc)
  show ?thesis
  proof (rule that [of "Suc b - bitlen m"])
    show "Suc b - bitlen m \<le> b" using l by simp
    show "2 ^ b \<le> m * 2 ^ (Suc b - bitlen m)" unfolding p using bitlen_ge [of m] assms by simp
    show "m * 2 ^ (Suc b - bitlen m) < 2 ^ Suc b" unfolding p using bitlen_lt [of m] by simp
  qed
qed

lemma power_ge_double: "m * 2 \<le> m * (2::nat) ^ Suc k"
  by (intro mult_le_mono2) simp

lemma ilogb_loop_ends:
  assumes "\<And>i. 0 < i \<Longrightarrow> test i" and "\<And>i. i < 0 \<Longrightarrow> \<not> test i"
  shows "2 ^ 31 \<le> unat i * 2 ^ k \<Longrightarrow> unat i * 2 ^ k < 2 ^ 32 \<Longrightarrow> ilogb_loop test i e = Some (e - int k)"
proof (induction k arbitrary: i e)
  case 0
  then have "sint i < 0" using unat_split [of i] mag_lt [of i] by (simp add: sint_split split: if_splits)
  then show ?case using assms by (subst ilogb_loop.simps) simp
next
  case (Suc k)
  have lt: "unat i < 2 ^ 31" using le_less_trans [OF power_ge_double Suc.prems(2)] by simp
  have "0 < unat i" using Suc.prems by (intro Nat.gr0I) simp
  note lt = lt this
  then have d: "unat (push_bit 1 i) * 2 ^ k = unat i * 2 ^ Suc k" by (simp only: unat_push_bit) simp
  have "test (sint i)" using lt assms(1) [of "int (unat i)"] by (simp add: sint_small del: of_nat_unat)
  then have "ilogb_loop test i e = ilogb_loop test (push_bit 1 i) (e - 1)" by (subst ilogb_loop.simps) (simp only: if_True)
  then show ?case using Suc.IH [of "push_bit 1 i" "e - 1"] Suc.prems by (simp only: d) simp
qed

lemma fmod_normalize_ends:
  "2 ^ 23 \<le> unat h * 2 ^ k \<Longrightarrow> unat h * 2 ^ k < 2 ^ 24 \<Longrightarrow>
    \<exists>g. fmod_normalize h e = Some (g, e - int k) \<and> unat g = unat h * 2 ^ k"
proof (induction k arbitrary: h e)
  case 0
  then have "\<not> sint h < 0x00800000" by (simp add: sint_small del: of_nat_unat)
  then show ?case by (subst fmod_normalize.simps) simp
next
  case (Suc k)
  have lt: "unat h < 2 ^ 23" using le_less_trans [OF power_ge_double Suc.prems(2)] by simp
  then have d: "unat (h + h) = unat h * 2" and s: "sint h < 0x00800000" by (simp_all add: unat_word_ariths sint_small del: of_nat_unat)
  have "fmod_normalize h e = fmod_normalize (h + h) (e - 1)" by (subst fmod_normalize.simps) (simp only: s if_True)
  then show ?case using Suc.IH [of "h + h" "e - 1"] Suc.prems by (simp only: d) (simp add: mult_ac diff_diff_eq)
qed

text \<open>The subtraction loop computes a remainder bit by bit.\<close>

lemma fmod_loop_ends:
  assumes y: "unat hy < 2 ^ 24" and n: "n < 2 ^ 32"
  shows "unat hx < 2 * unat hy \<Longrightarrow> \<exists>r. fmod_loop (of_nat n) hx hy = Some r \<and>
    (case r of Exact \<Rightarrow> unat hx * 2 ^ n mod unat hy = 0
     | Rest h \<Rightarrow> unat h < 2 * unat hy \<and> unat h mod unat hy = unat hx * 2 ^ n mod unat hy)"
  using n
proof (induction n arbitrary: hx)
  case 0
  then show ?case by (subst fmod_loop.simps) simp
next
  case (Suc n)
  have nz: "of_nat (Suc n) \<noteq> (0 :: u32)" using Suc.prems(2) by (simp add: word_unat_eq_iff unat_of_nat del: of_nat_Suc)
  have pred: "of_nat (Suc n) - 1 = (of_nat n :: u32)" by simp
  note step = fmod_loop.simps [of "of_nat (Suc n)" hx hy, unfolded if_not_P [OF nz] Let_def pred]
  have s: "sint (hx - hy) = int (unat hx) - int (unat hy)" using Suc.prems(1) y by (intro sint_diff) simp_all
  show ?case
  proof (cases "unat hx < unat hy")
    case True
    then have d: "unat (hx + hx) = 2 * unat hx" using y by (simp only: unat_word_ariths) simp
    have l: "fmod_loop (of_nat (Suc n)) hx hy = fmod_loop (of_nat n) (hx + hx) hy" unfolding step s using True by (simp del: of_nat_unat)
    have "2 * unat hx * 2 ^ n = unat hx * 2 ^ Suc n" by simp
    then show ?thesis using True Suc.IH [of "hx + hx"] Suc.prems(2) unfolding l d by (simp only:)
  next
    case False
    then have z: "unat (hx - hy) = unat hx - unat hy" by (simp add: unat_sub word_le_nat_alt)
    show ?thesis
    proof (cases "hx = hy")
      case True
      then show ?thesis unfolding step by simp
    next
      case ne: False
      then have "hx - hy \<noteq> 0" by simp
      then have l: "fmod_loop (of_nat (Suc n)) hx hy = fmod_loop (of_nat n) (hx - hy + (hx - hy)) hy"
        unfolding step s using False by (simp del: of_nat_unat)
      have d: "unat (hx - hy + (hx - hy)) = 2 * (unat hx - unat hy)"
        using Suc.prems(1) y z by (simp only: unat_word_ariths) simp
      have "2 * (unat hx - unat hy) * 2 ^ n mod unat hy = unat hx * 2 ^ Suc n mod unat hy"
      proof -
        have "unat hx * 2 ^ Suc n = 2 * (unat hx - unat hy) * 2 ^ n + 2 ^ Suc n * unat hy"
          using False by (simp add: algebra_simps diff_mult_distrib2 flip: distrib_left)
        then show ?thesis by (simp only: mod_mult_self2 mod_mult_self3 mod_mult_self1)
      qed
      then show ?thesis using Suc.IH [of "hx - hy + (hx - hy)"] Suc.prems False unfolding l d by (simp only:)
    qed
  qed
qed

section \<open>Operands and results\<close>

text \<open>Exponent \<open>e\<close> and significand of a finite operand: its value is the significand times \<open>2\<^bsup>e - 23\<^esup>\<close>.\<close>

lemma fmod_operand:
  assumes t: "\<And>i. 0 < i \<Longrightarrow> test i" "\<And>i. i < 0 \<Longrightarrow> \<not> test i" and m: "0 < unat h" "unat h < inf_mag"
  obtains e where "ilogb_word test h = Some e" and "- 149 \<le> e" and "e \<le> 127" and "2 ^ 23 \<le> unat (fmod_significand h e)"
    and "unat (fmod_significand h e) < 2 ^ 24" and "mval (unat h) * 2 ^ 23 = unat (fmod_significand h e) * 2 ^ nat (e + 149)"
proof (cases "unat h < 2 ^ 23")
  case True
  then have "unat h < 2 ^ Suc 23" by simp
  then obtain k where k: "k \<le> 23" "2 ^ 23 \<le> unat h * 2 ^ k" "unat h * 2 ^ k < 2 ^ Suc 23" using scale_up m(1) by blast
  have "1 \<le> k" using k True by (cases k) simp_all
  have u8: "unat (push_bit 8 h) = unat h * 2 ^ 8" using True by (simp add: unat_push_bit)
  have "ilogb_loop test (push_bit 8 h) (- 126) = Some (- 126 - int k)"
    using k unfolding u8 [symmetric] by (intro ilogb_loop_ends t) (simp_all add: u8)
  then have i: "ilogb_word test h = Some (- 126 - int k)"
    using True by (simp add: ilogb_word_def FLT_UWORD_IS_SUBNORMAL_def word_less_nat_alt)
  have g: "unat (fmod_significand h (- 126 - int k)) = unat h * 2 ^ k"
    using \<open>1 \<le> k\<close> k by (simp add: fmod_significand_def unat_push_bit)
  have "nat (- 126 - int k + 149) = 23 - k" by simp
  moreover have "unat h * 2 ^ k * 2 ^ (23 - k) = unat h * 2 ^ 23" using pow2_split [OF k(1)] by (simp only: mult.assoc)
  ultimately show ?thesis using that [OF i] k True g by (simp add: mval_subnormal)
next
  case False
  define E f where "E = unat h div 2 ^ 23" and "f = unat h mod 2 ^ 23"
  have h: "unat h = E * 2 ^ 23 + f" "f < 2 ^ 23" unfolding E_def f_def by (simp_all only: div_mult_mod_eq mod_less_divisor zero_less_power zero_less_numeral)
  have "0 < E" "E < 255" using False m(2) by (simp_all add: inf_mag_def E_def div_greater_zero_iff div_less_iff_less_mult)
  then have E: "1 \<le> E" "E \<le> 254" by simp_all
  have i: "ilogb_word test h = Some (int E - 127)"
    using False by (simp add: ilogb_word_def FLT_UWORD_IS_SUBNORMAL_def word_less_nat_alt unat_drop_bit E_def)
  have "unat (0x00800000 OR (0x007FFFFF AND h)) = 2 ^ 23 + f"
  proof -
    have "(0x007FFFFF :: u32) = mask 23" by (simp add: mask_eq_exp_minus_1)
    then have "unat (0x007FFFFF AND h) = f" by (simp only: and.commute [of _ h] unat_and_mask f_def)
    moreover have "unat (0x00800000 :: u32) = 1 * 2 ^ 23" by simp
    ultimately show ?thesis using unat_or_add [of "0x00800000 :: u32" 1 23 "0x007FFFFF AND h"] h(2) by simp
  qed
  then have g: "unat (fmod_significand h (int E - 127)) = 2 ^ 23 + f" using E by (simp add: fmod_significand_def)
  have "nat (int E - 127 + 149) = (E - 1) + 23" using E by simp
  then have "mval (unat h) * 2 ^ 23 = (2 ^ 23 + f) * 2 ^ nat (int E - 127 + 149)"
    using mval_normal [OF E(1) h(2)] h(1) by (simp only: power_add mult.assoc)
  then show ?thesis using that [OF i] E h(2) g by simp
qed

lemma mul_one:
  assumes "is_finite w"
  shows "mag (mulsf3 w one_f) = mag w" and "negative (mulsf3 w one_f) \<longleftrightarrow> negative w"
proof -
  have o: "mag one_f = 127 * 2 ^ 23" "\<not> negative one_f" by (simp_all add: one_f_def mag_def negative_def fp_consts)
  have "mval (127 * 2 ^ 23) = 2 ^ 149" by (simp add: mval_def)
  then have p: "rounds_to (mval (mag w) * 2 ^ 149) 149 (mag (mulsf3 w one_f)) \<and> negative (mulsf3 w one_f) = negative w"
    using mul_nearest [of w one_f] assms o by (auto simp: ieee_product_def is_nan_def is_finite_def inf_mag_def)
  moreover have "rounds_to (mval (mag w) * 2 ^ 149) 149 (mag w)" using assms by (intro rounds_to_exact) (simp add: is_finite_def)
  ultimately show "mag (mulsf3 w one_f) = mag w" "negative (mulsf3 w one_f) \<longleftrightarrow> negative w" using rounds_to_unique by blast+
qed

lemma fmod_pack_value:
  fixes x g :: u32
  assumes g: "2 ^ 23 \<le> unat g" "unat g < 2 ^ 24" and e: "e \<le> 127"
    and Z: "if e \<ge> - 126 then Z = unat g * 2 ^ nat (e + 126) else unat g = Z * 2 ^ nat (- 126 - e)"
  defines "r \<equiv> fmod_pack (x AND signBit) g e"
  shows "mval (mag r) = Z \<and> is_finite r \<and> negative r = negative x"
proof (cases "e \<ge> - 126")
  case True
  have md: "unat g mod 2 ^ 23 = unat g - 2 ^ 23" using g by (simp add: mod_if)
  have "unat (g AND significandMask) = unat g mod 2 ^ 23" using unat_and_mask [of g 23] by (simp add: fp_consts mask_eq_exp_minus_1)
  moreover have "unat (g - 0x00800000) = unat g - 2 ^ 23" using g by (subst unat_sub) (simp_all add: word_le_nat_alt)
  ultimately have "g - 0x00800000 = g AND significandMask" using md by (simp add: word_unat_eq_iff)
  then have "r = ((g AND significandMask) OR push_bit 23 (word_of_int (e + 127))) OR (if negative x then signBit else 0)"
    using True by (simp add: r_def fmod_pack_def sign_of)
  then have "unat r = (if negative x then 2 ^ 31 else 0) + (nat (e + 127) * 2 ^ 23 + unat g mod 2 ^ 23)"
    using unat_pack [of "e + 127" "if negative x then signBit else 0" "negative x" g] True e by simp
  moreover have b: "nat (e + 127) \<le> 254" "unat g mod 2 ^ 23 < 2 ^ 23" using e by simp_all
  then have lt: "nat (e + 127) * 2 ^ 23 + unat g mod 2 ^ 23 < inf_mag"
    using mult_le_mono1 [OF b(1), of "2 ^ 23"] unfolding inf_mag_def by linarith
  moreover have "inf_mag < 2 ^ 31" by (simp add: inf_mag_def)
  ultimately have r: "mag r = nat (e + 127) * 2 ^ 23 + unat g mod 2 ^ 23" "negative r \<longleftrightarrow> negative x"
    using mag_of_unat [of r "negative x"] by (blast intro: less_trans)+
  have "mval (mag r) = (2 ^ 23 + unat g mod 2 ^ 23) * 2 ^ (nat (e + 127) - 1)"
    unfolding r by (rule mval_normal) (use True in simp_all)
  moreover have "2 ^ 23 + unat g mod 2 ^ 23 = unat g" "nat (e + 127) - 1 = nat (e + 126)" using md g True by simp_all
  ultimately have "mval (mag r) = Z" using Z True by (simp only: if_True)
  then show ?thesis using r lt by (simp add: is_finite_def)
next
  case False
  define n where "n = nat (- 126 - e)"
  have n: "1 \<le> n" "unat g = Z * 2 ^ n" using False Z by (simp_all add: n_def)
  then have d: "unat (drop_bit n g) = Z" by (simp add: unat_drop_bit)
  have "Z * 2 \<le> Z * 2 ^ n" using n(1) by (cases n) (simp_all only: power_ge_double)
  also have "\<dots> < 2 ^ 24" using g(2) n(2) by simp
  finally have Z: "Z < 2 ^ 23" by simp
  define w where "w = drop_bit n g OR (x AND signBit)"
  have w: "mag w = Z" "negative w \<longleftrightarrow> negative x"
    using d Z mag_small [of "drop_bit n g"] mag_or_sign [of "drop_bit n g"] by (simp_all add: w_def sign_of)
  then have "is_finite w" using Z by (simp add: is_finite_def inf_mag_def)
  moreover have "r = mulsf3 w one_f" using False by (simp add: r_def fmod_pack_def w_def n_def)
  ultimately show ?thesis using mul_one [of w] w Z by (simp add: is_finite_def inf_mag_def mval_subnormal)
qed

section \<open>The remainder\<close>

definition ieee_fmod :: "u32 \<Rightarrow> u32 \<Rightarrow> u32 \<Rightarrow> bool" where
  "ieee_fmod x y r \<longleftrightarrow>
    (if is_nan x \<or> is_nan y \<or> \<not> is_finite x \<or> mag y = 0 then is_nan r
     else if \<not> is_finite y then r = x
     else is_finite r \<and> (negative r \<longleftrightarrow> negative x) \<and> mval (mag r) = mval (mag x) mod mval (mag y))"

lemma Zero_sign: "mag (Zero (drop_bit 31 (x AND signBit))) = 0" "negative (Zero (drop_bit 31 (x AND signBit))) = negative x"
  unfolding sign_of by (simp_all add: Zero_def mag_def negative_def fp_consts)

lemma math_invalidf_nan: "is_nan (math_invalidf x)"
proof -
  have "divsf3 0 0 = qnanRep" by (simp add: divsf3_def divXf3_def Let_def div_special_def fp_consts)
  moreover have "is_nan (fadd x x)" if "is_nan x" using nonfinite_double [of x] that by (simp add: is_nan_def is_finite_def)
  moreover have "isnanf x = is_nan x" by (simp add: isnanf_def uword_classes)
  ultimately show ?thesis by (simp add: math_invalidf_def qnan_nan)
qed

text \<open>Both operands at the same scale: the remainder of the significands is the remainder of the values.\<close>

lemma mod_scaled:
  fixes X Y A B :: nat
  assumes "X * c = A * 2 ^ n * q" and "Y * c = B * q"
  shows "X mod Y * c = A * 2 ^ n mod B * q"
  using assms mod_mult_mult2 [of X c Y] mod_mult_mult2 [of "A * 2 ^ n" q B] by simp

lemma scale_order:
  fixes X Y :: nat
  assumes "Y \<le> X" and "X * c = A * 2 ^ a" and "Y * c = B * 2 ^ b" and "A < 2 ^ Suc k" and "2 ^ k \<le> B"
  shows "b \<le> a"
proof (rule ccontr)
  assume "\<not> b \<le> a"
  then have "A * 2 ^ a < 2 ^ Suc k * 2 ^ a" using assms(4) by simp
  also have "\<dots> = 2 ^ k * (2::nat) ^ Suc a" by simp
  also have "\<dots> \<le> B * 2 ^ b" using \<open>\<not> b \<le> a\<close> assms(5) by (intro mult_le_mono power_increasing) simp_all
  finally show False using assms(1-3) mult_le_mono1 [OF assms(1), of c] by simp
qed

lemma sign_cleared: "x XOR (x AND signBit) = x AND absMask"
proof (rule bit_word_eqI)
  fix n assume "n < LENGTH(32)"
  moreover have "bit signBit n \<longleftrightarrow> n = 31" using bit_exp_iff [of 31 n, where 'a = u32] by (auto simp: fp_consts(5))
  ultimately show "bit (x XOR (x AND signBit)) n = bit (x AND absMask) n"
    unfolding absMask_mask by (auto simp: bit_xor_iff bit_and_iff bit_mask_iff)
qed

lemma fmod_tail_rest:
  assumes h: "unat h < 2 * unat B" and B: "unat B < 2 ^ 24"
  obtains g where "unat g = unat h mod unat B"
    and "fmod_tail sx B iy (Rest h) = (if g = 0 then Some (Zero (drop_bit 31 sx))
      else Option.bind (fmod_normalize g iy) (\<lambda>(hx, iy). Some (fmod_pack sx hx iy)))"
proof -
  have s: "sint (h - B) = int (unat h) - int (unat B)" using assms by (intro sint_diff) simp_all
  have "unat (if sint (h - B) \<ge> 0 then h - B else h) = unat h mod unat B"
  proof (cases "unat B \<le> unat h")
    case True
    then have "unat h mod unat B = unat h - unat B" using h by (simp add: mod_if)
    then show ?thesis using True unfolding s by (simp add: unat_sub word_le_nat_alt del: of_nat_unat)
  qed (simp add: s del: of_nat_unat)
  then show ?thesis by (rule that) (simp add: fmod_tail_def Let_def)
qed

lemma fmod_tail_value:
  assumes r: "case r of Exact \<Rightarrow> R = 0 | Rest h \<Rightarrow> unat h < 2 * unat B \<and> unat h mod unat B = R" and B: "unat B < 2 ^ 24"
    and R: "R < unat B" "Z * 2 ^ 23 = R * 2 ^ nat (iy + 149)" and iy: "- 149 \<le> iy" "iy \<le> 127"
  shows "\<exists>t. fmod_tail (x AND signBit) B iy r = Some t \<and> is_finite t \<and> (negative t \<longleftrightarrow> negative x) \<and> mval (mag t) = Z"
proof (cases "R = 0")
  case True
  have "fmod_tail (x AND signBit) B iy r = Some (Zero (drop_bit 31 (x AND signBit)))"
  proof (cases r)
    case (Rest h)
    then have "unat h < 2 * unat B" "unat h mod unat B = 0" using r True by simp_all
    from fmod_tail_rest [OF this(1) B] this(2) Rest show ?thesis by (metis unat_eq_zero)
  qed (simp add: fmod_tail_def)
  then show ?thesis using True R Zero_sign [of x] by (simp add: is_finite_def inf_mag_def)
next
  case False
  then obtain h where h: "r = Rest h" "unat h < 2 * unat B" "unat h mod unat B = R" using r by (cases r) auto
  obtain g where g: "unat g = R" "fmod_tail (x AND signBit) B iy r =
      Option.bind (fmod_normalize g iy) (\<lambda>(hx, iy). Some (fmod_pack (x AND signBit) hx iy))"
    using fmod_tail_rest [OF h(2) B, of "x AND signBit" iy] h False by (metis unat_eq_zero)
  have "R < 2 ^ Suc 23" using R(1) B by simp
  then obtain k where k: "k \<le> 23" "2 ^ 23 \<le> R * 2 ^ k" "R * 2 ^ k < 2 ^ Suc 23" using scale_up [of R 23] False by blast
  then obtain f where f: "fmod_normalize g iy = Some (f, iy - int k)" "unat f = R * 2 ^ k"
    using fmod_normalize_ends [of g k iy] g(1) by auto
  have "if iy - int k \<ge> - 126 then Z = unat f * 2 ^ nat (iy - int k + 126) else unat f = Z * 2 ^ nat (- 126 - (iy - int k))"
  proof (cases "iy - int k \<ge> - 126")
    case True
    then have "nat (iy + 149) = k + nat (iy - int k + 126) + 23" by simp
    then have "Z * 2 ^ 23 = unat f * 2 ^ nat (iy - int k + 126) * 2 ^ 23" using R(2) f(2) by (simp only: power_add mult_ac)
    then show ?thesis using True by simp
  next
    case False
    have "nat (iy + 149) + nat (- 126 - (iy - int k)) = k + 23" using False iy by simp
    then have "2 ^ nat (iy + 149) * 2 ^ nat (- 126 - (iy - int k)) = (2::nat) ^ k * 2 ^ 23" by (simp only: flip: power_add)
    moreover have "Z * 2 ^ nat (- 126 - (iy - int k)) * 2 ^ 23 = Z * 2 ^ 23 * 2 ^ nat (- 126 - (iy - int k))" by (simp only: mult_ac)
    then have "Z * 2 ^ nat (- 126 - (iy - int k)) * 2 ^ 23 = R * (2 ^ nat (iy + 149) * 2 ^ nat (- 126 - (iy - int k)))"
      unfolding R(2) by (simp only: mult.assoc)
    ultimately have "Z * 2 ^ nat (- 126 - (iy - int k)) * 2 ^ 23 = unat f * 2 ^ 23" using f(2) by (simp only: mult.assoc)
    then show ?thesis using False by simp
  qed
  then have "mval (mag (fmod_pack (x AND signBit) f (iy - int k))) = Z \<and> is_finite (fmod_pack (x AND signBit) f (iy - int k)) \<and>
      negative (fmod_pack (x AND signBit) f (iy - int k)) = negative x"
    using k f(2) iy by (intro fmod_pack_value) simp_all
  then show ?thesis by (simp add: g(2) f(1))
qed

lemma fmodf_unfold:
  assumes "is_finite x" and "0 < mag y" and "mag y < mag x"
  shows "fmodf x y =
    Option.bind (ilogb_word (\<lambda>i. i > 0) (x AND absMask)) (\<lambda>ix.
    Option.bind (ilogb_word (\<lambda>i. i \<ge> 0) (y AND absMask)) (\<lambda>iy.
    Option.bind (fmod_loop (word_of_int (ix - iy)) (fmod_significand (x AND absMask) ix) (fmod_significand (y AND absMask) iy))
      (fmod_tail (x AND signBit) (fmod_significand (y AND absMask) iy) iy)))"
proof -
  have c: "\<not> isnanf x" "\<not> isnanf y" "\<not> isinff x"
    using assms by (simp_all add: isnanf_def isinff_def uword_classes is_nan_def is_finite_def)
  have u: "unat (x AND absMask) = mag x" "unat (y AND absMask) = mag y" by (simp_all add: abs_unat)
  have n: "y AND absMask \<noteq> 0" "x AND absMask \<noteq> y AND absMask" using assms u by (auto simp: abs_eq_0)
  have "sint (x AND absMask) = int (mag x)" "sint (y AND absMask) = int (mag y)"
    using u mag_lt [of x] mag_lt [of y] by (simp_all add: sint_small del: of_nat_unat)
  then have l: "\<not> sint (x AND absMask) < sint (y AND absMask)" using assms by simp
  show ?thesis unfolding fmodf_def Let_def fp_consts(5,6) [symmetric] sign_cleared using c n l by (simp only: if_False simp_thms)
qed

lemma fmodf_finite:
  assumes x: "is_finite x" and y: "0 < mag y" "mag y < mag x"
  shows "\<exists>r. fmodf x y = Some r \<and> is_finite r \<and> (negative r \<longleftrightarrow> negative x) \<and> mval (mag r) = mval (mag x) mod mval (mag y)"
proof -
  define hx hy where "hx = x AND absMask" and "hy = y AND absMask"
  have u: "unat hx = mag x" "unat hy = mag y" by (simp_all add: hx_def hy_def abs_unat)
  have inf: "mag x < inf_mag" "mag y < inf_mag" using x y by (simp_all add: is_finite_def)
  obtain ix where ix: "ilogb_word (\<lambda>i. i > 0) hx = Some ix" "- 149 \<le> ix" "ix \<le> 127" "unat (fmod_significand hx ix) < 2 ^ 24"
    "mval (mag x) * 2 ^ 23 = unat (fmod_significand hx ix) * 2 ^ nat (ix + 149)"
    using fmod_operand [of "\<lambda>i. i > 0" hx] u inf y by auto
  obtain iy where iy: "ilogb_word (\<lambda>i. i \<ge> 0) hy = Some iy" "- 149 \<le> iy" "iy \<le> 127" "2 ^ 23 \<le> unat (fmod_significand hy iy)"
    "unat (fmod_significand hy iy) < 2 ^ 24" "mval (mag y) * 2 ^ 23 = unat (fmod_significand hy iy) * 2 ^ nat (iy + 149)"
    using fmod_operand [of "\<lambda>i. i \<ge> 0" hy] u inf y by auto
  define A B n where "A = fmod_significand hx ix" and "B = fmod_significand hy iy" and "n = nat (ix - iy)"
  note f = fmodf_unfold [OF assms, folded hx_def hy_def]
  have "nat (iy + 149) \<le> nat (ix + 149)"
    by (rule scale_order [OF _ ix(5) iy(6), where k = 23]) (use ix(4) iy(4) y in simp_all)
  then have n: "nat (ix + 149) = n + nat (iy + 149)" "word_of_int (ix - iy) = (of_nat n :: u32)" "n < 2 ^ 32"
    using ix iy by (simp_all add: n_def nat_less_iff)
  have "unat A < 2 * unat B" using ix(4) iy(4) by (simp add: A_def B_def)
  then obtain r where r: "fmod_loop (of_nat n) A B = Some r"
    "case r of Exact \<Rightarrow> unat A * 2 ^ n mod unat B = 0 | Rest h \<Rightarrow> unat h < 2 * unat B \<and> unat h mod unat B = unat A * 2 ^ n mod unat B"
    using fmod_loop_ends [of B n A] iy(5) n(3) by (auto simp: B_def)
  have "mval (mag x) mod mval (mag y) * 2 ^ 23 = unat A * 2 ^ n mod unat B * 2 ^ nat (iy + 149)"
    using ix(5) iy(6) n(1) by (intro mod_scaled) (simp_all only: A_def B_def power_add mult.assoc)
  moreover have "unat A * 2 ^ n mod unat B < unat B" using iy(4) by (intro mod_less_divisor) (simp add: B_def)
  ultimately obtain t where "fmod_tail (x AND signBit) B iy r = Some t" "is_finite t" "negative t \<longleftrightarrow> negative x"
    "mval (mag t) = mval (mag x) mod mval (mag y)"
    using fmod_tail_value [OF r(2)] iy(2,3,5) unfolding B_def by blast
  then show ?thesis unfolding f ix(1) iy(1) Option.bind.simps n(2) A_def [symmetric] B_def [symmetric] r(1) by blast
qed

text \<open>
  C12. \<^verbatim>\<open>fmodf\<close> returns for all arguments, and its result is the remainder of the values, exactly: it has the sign of the
  first argument and a magnitude that is the remainder of the magnitudes. A remainder by infinity is the first argument;
  a remainder of infinity, a remainder by zero and an argument that is not a number give a result that is not a number.
\<close>

theorem fmodf_correct: "\<exists>r. fmodf x y = Some r \<and> ieee_fmod x y r"
proof -
  note cl = isnanf_def isinff_def uword_classes
  note f = fmodf_def [of x y, unfolded Let_def fp_consts(5,6) [symmetric] sign_cleared]
  have s: "sint (w AND absMask) = int (mag w)" for w using mag_lt [of w] abs_unat [of w] by (simp add: sint_small del: of_nat_unat)
  consider "is_nan x \<or> is_nan y" | "\<not> is_nan x" "\<not> is_nan y" "\<not> is_finite x \<or> mag y = 0"
    | "\<not> is_nan y" "is_finite x" "0 < mag y" "mag x < mag y" | "is_finite x" "0 < mag y" "mag x = mag y"
    | "is_finite x" "0 < mag y" "mag y < mag x"
    unfolding is_nan_def is_finite_def by (metis linorder_less_linear gr0I)
  then show ?thesis
  proof cases
    case 1
    then have "fmodf x y = Some (fadd x y)" by (simp add: f cl)
    moreover have "is_nan (fadd x y)" using add_nearest [of x y] 1 by (simp add: fadd_def addsf3_def ieee_sum_def)
    ultimately show ?thesis using 1 by (auto simp: ieee_fmod_def)
  next
    case 2
    then have "\<exists>w. fmodf x y = Some (math_invalidf w)"
      by (auto simp: f cl abs_eq_0 is_nan_def is_finite_def simp del: split_paired_Ex)
    then show ?thesis using 2 math_invalidf_nan by (auto simp: ieee_fmod_def)
  next
    case 3
    then have "fmodf x y = Some x" unfolding f s by (simp add: cl is_nan_def is_finite_def abs_eq_0)
    then show ?thesis using 3 by (auto simp: ieee_fmod_def is_nan_def is_finite_def)
  next
    case 4
    then have e: "x AND absMask = y AND absMask" using abs_unat [of x] abs_unat [of y] by (simp add: word_unat_eq_iff)
    have "fmodf x y = Some (Zero (drop_bit 31 (x AND signBit)))"
      unfolding f s using 4 e by (simp add: cl is_nan_def is_finite_def abs_eq_0)
    then show ?thesis using 4 Zero_sign [of x] by (simp add: ieee_fmod_def is_nan_def is_finite_def inf_mag_def)
  next
    case 5
    then show ?thesis using fmodf_finite [OF 5] by (auto simp: ieee_fmod_def is_nan_def is_finite_def)
  qed
qed

end
