(* ===== verification/Libm_Sqrt.thy ===== *)
theory Libm_Sqrt
  imports Libm_Fmod
begin

text \<open>
  The square root \<^verbatim>\<open>sqrtf\<close> (\<^verbatim>\<open>sf_sqrt.c\<close>), which finds one bit of the root after the other. The rounding mode that
  \<^verbatim>\<open>fegetround\<close> returns is an argument.
\<close>

section \<open>The functions\<close>

partial_function (option) sqrt_normalize :: "u32 \<Rightarrow> int \<Rightarrow> (u32 \<times> int) option" where
  "sqrt_normalize ix i = (if ix AND 0x00800000 = 0 then sqrt_normalize (push_bit 1 ix) (i + 1) else Some (ix, i))"

function sqrt_loop :: "u32 \<Rightarrow> u32 \<Rightarrow> u32 \<Rightarrow> u32 \<Rightarrow> u32 \<times> u32" where
  "sqrt_loop r ix s q =
    (if r \<noteq> 0
     then let t = s + r;
              (s, ix, q) = (if sint t \<le> sint ix then (t + r, ix - t, q + r) else (s, ix, q))
          in sqrt_loop (drop_bit 1 r) (ix + ix) s q
     else (ix, q))"
  by auto
termination
proof (relation "measure (\<lambda>(r, _). unat r)")
  fix r :: u32
  assume "r \<noteq> 0"
  then have "0 < unat r" by (simp add: unat_gt_0)
  then show "((drop_bit 1 r, a), r, b) \<in> measure (\<lambda>(r, _). unat r)" for a b :: "u32 \<times> u32 \<times> u32" by (simp add: unat_drop_bit)
qed simp

declare sqrt_loop.simps [simp del]

definition sqrt_round :: "round_mode \<Rightarrow> u32 \<Rightarrow> u32 \<Rightarrow> u32" where
  "sqrt_round rnd ix q =
    (if ix \<noteq> 0
     then if rnd = CRT_FE_TONEAREST then q + (q AND 1)
          else if rnd = CRT_FE_UPWARD then q + 2
          else q
     else q)"

definition sqrt_positive :: "round_mode \<Rightarrow> u32 \<Rightarrow> int \<Rightarrow> u32" where
  "sqrt_positive rnd ix m =
    (let m = m - 127;
         ix = (ix AND 0x007FFFFF) OR 0x00800000;
         ix = (if odd m then ix + ix else ix);
         m = m div 2;
         ix = ix + ix;
         (ix, q) = sqrt_loop 0x01000000 ix 0 0;
         q = sqrt_round rnd ix q;
         ix = drop_bit 1 q + 0x3F000000
     in ix + push_bit 23 (word_of_int m))"

definition sqrtf :: "round_mode \<Rightarrow> u32 \<Rightarrow> u32 option" where
  "sqrtf rnd x =
    (let ix = x; hx = ix AND 0x7FFFFFFF
     in if \<not> FLT_UWORD_IS_FINITE hx
        then if sint ix < 0 \<and> \<not> isnanf x then Some (math_invalidf x) else Some (fadd x x)
        else if FLT_UWORD_IS_ZERO hx then Some x
        else if sint ix < 0 then Some (math_invalidf x)
        else let m = int (unat (drop_bit 23 ix))
             in if FLT_UWORD_IS_SUBNORMAL hx
                then do {
                  (ix, i) \<leftarrow> sqrt_normalize ix 0;
                  Some (sqrt_positive rnd ix (m - (i - 1)))
                }
                else Some (sqrt_positive rnd ix m))"

section \<open>The root bit by bit\<close>

text \<open>
  With \<open>r = 2\<^sup>k\<close> the next bit, \<open>q\<close> is a root of \<open>N\<close> up to \<open>2 r\<close>, and \<open>ix\<close> is the remainder \<open>N - q\<^sup>2\<close> in units of \<open>r\<close>.
\<close>

lemma sqrt_loop_bit:
  fixes N r ix q :: nat
  assumes "N = q * q + r * ix" and "N < (q + 2 * r) * (q + 2 * r)"
  shows "2 * q + r \<le> ix \<longleftrightarrow> (q + r) * (q + r) \<le> N" and "0 < r \<Longrightarrow> ix < 4 * (q + r)"
proof -
  have sq: "(q + r) * (q + r) = q * q + r * (2 * q + r)" "(q + 2 * r) * (q + 2 * r) = q * q + r * (4 * (q + r))"
    by (simp_all add: algebra_simps)
  show "0 < r \<Longrightarrow> ix < 4 * (q + r)" using assms unfolding sq by simp
  show "2 * q + r \<le> ix \<longleftrightarrow> (q + r) * (q + r) \<le> N"
  proof (cases "r = 0")
    case False
    then show ?thesis unfolding sq assms(1) by simp
  qed (use assms in simp)
qed

lemma sqrt_step:
  assumes N: "N < 2 ^ 50" and r: "0 < unat r" "unat r \<le> 2 ^ 24" and sq: "unat s = 2 * unat q"
    and inv: "N = unat q * unat q + unat r * unat ix" "N < (unat q + 2 * unat r) * (unat q + 2 * unat r)"
  obtains s' ix' q' where "sqrt_loop r ix s q = sqrt_loop (drop_bit 1 r) (ix' + ix') s' q'" and "unat s' = 2 * unat q'"
    and "N = unat q' * unat q' + unat r * unat ix'" and "N < (unat q' + unat r) * (unat q' + unat r)"
    and "unat (ix' + ix') = 2 * unat ix'"
proof -
  note bit = sqrt_loop_bit [OF inv]
  have "unat q * unat q < 2 ^ 25 * 2 ^ 25" using inv(1) N by simp
  then have q: "unat q < 2 ^ 25" by (meson mult_le_mono not_le)
  have ix: "unat ix < 2 ^ 28" using bit(2) r q by simp
  have t: "unat (s + r) = 2 * unat q + unat r" using q r sq by (simp add: unat_word_ariths)
  have c: "sint (s + r) \<le> sint ix \<longleftrightarrow> 2 * unat q + unat r \<le> unat ix"
    using t ix q r by (simp add: sint_small del: of_nat_unat of_nat_add of_nat_mult)
  have nz: "r \<noteq> 0" using r(1) by auto
  note loop = sqrt_loop.simps [of r ix s q, unfolded Let_def if_P [OF nz] c]
  show ?thesis
  proof (cases "2 * unat q + unat r \<le> unat ix")
    case True
    show ?thesis
    proof (rule that)
      show "sqrt_loop r ix s q = sqrt_loop (drop_bit 1 r) (ix - (s + r) + (ix - (s + r))) (s + r + r) (q + r)"
        unfolding loop if_P [OF True] prod.case ..
      have q': "unat (q + r) = unat q + unat r" using q r by (simp add: unat_word_ariths)
      have ix': "unat (ix - (s + r)) = unat ix - (2 * unat q + unat r)" using True t by (subst unat_sub) (simp_all add: word_le_nat_alt)
      have d: "unat r * unat ix = unat r * (unat ix - (2 * unat q + unat r)) + unat r * (2 * unat q + unat r)"
        using True by (simp flip: distrib_left)
      show "unat (s + r + r) = 2 * unat (q + r)" using q r t q' by (simp only: unat_word_ariths) simp
      show "N = unat (q + r) * unat (q + r) + unat r * unat (ix - (s + r))"
        unfolding q' ix' inv(1) d by (simp add: algebra_simps del: diff_mult_distrib2 right_diff_distrib')
      show "N < (unat (q + r) + unat r) * (unat (q + r) + unat r)" using inv(2) by (simp add: q' mult_2 add.assoc)
      show "unat (ix - (s + r) + (ix - (s + r))) = 2 * unat (ix - (s + r))" using ix ix' by (simp only: unat_word_ariths) simp
    qed
  next
    case False
    show ?thesis
    proof (rule that)
      show "sqrt_loop r ix s q = sqrt_loop (drop_bit 1 r) (ix + ix) s q" unfolding loop if_not_P [OF False] prod.case ..
      show "N < (unat q + unat r) * (unat q + unat r)" using False bit(1) by simp
      show "unat (ix + ix) = 2 * unat ix" using ix by (simp only: unat_word_ariths) simp
    qed (fact sq inv)+
  qed
qed

lemma sqrt_loop_value:
  assumes N: "N < 2 ^ 50"
  shows "unat r = 2 ^ k \<Longrightarrow> k \<le> 24 \<Longrightarrow> unat s = 2 * unat q \<Longrightarrow> N = unat q * unat q + unat r * unat ix \<Longrightarrow>
    N < (unat q + 2 * unat r) * (unat q + 2 * unat r) \<Longrightarrow>
    (case sqrt_loop r ix s q of (ix', q') \<Rightarrow> unat q' * unat q' \<le> N \<and> N < (unat q' + 1) * (unat q' + 1) \<and>
      unat ix' = 2 * (N - unat q' * unat q'))"
proof (induction k arbitrary: r ix s q)
  case 0
  then have "unat r \<le> 2 ^ 24" "0 < unat r" by simp_all
  from sqrt_step [OF N this(2,1) 0(3-5)] obtain s' ix' q' where
    st: "sqrt_loop r ix s q = sqrt_loop (drop_bit 1 r) (ix' + ix') s' q'" "N = unat q' * unat q' + unat r * unat ix'"
    "N < (unat q' + unat r) * (unat q' + unat r)" "unat (ix' + ix') = 2 * unat ix'" by metis
  have "drop_bit 1 r = 0" using 0(1) by (simp add: word_unat_eq_iff unat_drop_bit)
  then have "sqrt_loop r ix s q = (ix' + ix', q')" unfolding st(1) by (simp add: sqrt_loop.simps)
  then show ?case using st(2-4) 0(1) by (simp only: prod.case) simp
next
  case (Suc k)
  have "unat r \<le> 2 ^ 24" "0 < unat r" using Suc.prems(1,2) power_increasing [of "Suc k" 24 "2::nat"] by simp_all
  from sqrt_step [OF N this(2,1) Suc.prems(3-5)] obtain s' ix' q' where
    st: "sqrt_loop r ix s q = sqrt_loop (drop_bit 1 r) (ix' + ix') s' q'" "unat s' = 2 * unat q'"
    "N = unat q' * unat q' + unat r * unat ix'"
    "N < (unat q' + unat r) * (unat q' + unat r)" "unat (ix' + ix') = 2 * unat ix'" by metis
  have d: "unat (drop_bit 1 r) = 2 ^ k" "unat r = 2 * 2 ^ k" using Suc.prems(1) by (simp_all add: unat_drop_bit)
  show ?case unfolding st(1)
    by (rule Suc.IH) (use d st Suc.prems(2) in \<open>simp_all only: d(2) Suc_leD mult.assoc mult.left_commute [of "2 ^ k" 2]\<close>)
qed

section \<open>Rounded roots\<close>

text \<open>
  The magnitude \<open>n\<close> is the root of \<open>V\<close>: between the midpoints to its neighbours in the mode to nearest (no root is a
  midpoint), the least one not below in the mode upward, and the greatest one not above otherwise.
\<close>

definition sqrt_rounds :: "round_mode \<Rightarrow> nat \<Rightarrow> nat \<Rightarrow> bool" where
  "sqrt_rounds rnd V n \<longleftrightarrow> n < inf_mag \<and>
    (if rnd = CRT_FE_TONEAREST
     then 4 * V < (mval n + mval (Suc n)) ^ 2 \<and> (0 < n \<longrightarrow> (mval (n - 1) + mval n) ^ 2 < 4 * V)
     else if rnd = CRT_FE_UPWARD then V \<le> mval n ^ 2 \<and> (0 < n \<longrightarrow> mval (n - 1) ^ 2 < V)
     else mval n ^ 2 \<le> V \<and> V < mval (Suc n) ^ 2)"

lemma mval_root:
  assumes "2 ^ 23 \<le> h" and "h \<le> 2 ^ 24"
  shows "mval (D * 2 ^ 23 + h) = h * 2 ^ D"
  using mval_binade [of "Suc D" "D * 2 ^ 23 + h"] assms by (simp add: algebra_simps)

lemma sqrt_rounds_scaled:
  fixes V N q D :: nat and rnd :: round_mode
  assumes V: "4 * V = N * (2 ^ D) ^ 2" and q: "q ^ 2 \<le> N" "N < (q + 1) ^ 2" "2 ^ 24 \<le> q" "q < 2 ^ 25" and D: "D \<le> 252"
    and ex: "N = q ^ 2 \<Longrightarrow> even q"
  defines "h \<equiv> (if N = q ^ 2 then q else if rnd = CRT_FE_TONEAREST then q + q mod 2 else if rnd = CRT_FE_UPWARD then q + 2 else q) div 2"
  shows "sqrt_rounds rnd V (D * 2 ^ 23 + h)"
proof -
  define P n where "P = (2::nat) ^ D" and "n = D * 2 ^ 23 + h"
  have P: "0 < P" by (simp add: P_def)
  have V': "4 * V = N * P ^ 2" unfolding P_def by (rule V)
  have less: "4 * V < b ^ 2" if "N < a ^ 2" "a * P \<le> b" for a b
  proof -
    have "4 * V < (a * P) ^ 2" unfolding V' power_mult_distrib using that(1) P by simp
    also have "\<dots> \<le> b ^ 2" using that(2) by (rule power_mono) simp
    finally show ?thesis .
  qed
  have greater: "b ^ 2 < 4 * V" if "a ^ 2 < N" "b \<le> a * P" for a b
  proof -
    have "b ^ 2 \<le> (a * P) ^ 2" using that(2) by (rule power_mono) simp
    also have "\<dots> < 4 * V" unfolding V' power_mult_distrib using that(1) P by simp
    finally show ?thesis .
  qed
  have eq: "4 * V = (q * P) ^ 2" if "N = q ^ 2" unfolding V' that power_mult_distrib ..
  have h: "2 ^ 23 \<le> h" "h \<le> 2 ^ 24" using q(3,4) by (auto simp: h_def)
  have n: "0 < n" "n < inf_mag" using h D by (simp_all add: n_def inf_mag_def)
  have m: "mval n = h * P" unfolding P_def n_def by (rule mval_root [OF h])
  have m1: "mval (Suc n) = (h + 1) * P" if "h < 2 ^ 24" using mval_root [of "h + 1" D] that h by (simp add: n_def P_def)
  have m0: "mval (n - 1) = (h - 1) * P" if "2 ^ 23 < h" using mval_root [of "h - 1" D] that h by (simp add: n_def P_def)
  have lt: "mval (n - 1) < h * P" "h * P < mval (Suc n)" using n(1) by (simp_all flip: m)
  consider "N = q ^ 2" "q = 2 * h" | "q ^ 2 < N" "rnd = CRT_FE_TONEAREST" "q = 2 * h" | "q ^ 2 < N" "rnd = CRT_FE_TONEAREST" "q + 1 = 2 * h"
    | "q ^ 2 < N" "rnd \<noteq> CRT_FE_TONEAREST" "rnd = CRT_FE_UPWARD" "h = q div 2 + 1"
    | "q ^ 2 < N" "rnd \<noteq> CRT_FE_TONEAREST" "rnd \<noteq> CRT_FE_UPWARD" "h = q div 2"
    using ex q(1) unfolding h_def by (cases "even q"; cases "N = q ^ 2"; cases "rnd = CRT_FE_TONEAREST"; cases "rnd = CRT_FE_UPWARD"; auto elim!: evenE oddE)
  then have "sqrt_rounds rnd V n"
  proof cases
    case 1
    have "q * P < h * P + mval (Suc n)" "mval (n - 1) + h * P < q * P" using lt by (simp_all add: 1(2) mult.commute [of h])
    then have "4 * V < (mval n + mval (Suc n)) ^ 2" "(mval (n - 1) + mval n) ^ 2 < 4 * V"
      unfolding eq [OF 1(1)] m by (simp_all add: power_strict_mono)
    moreover have "V = mval n ^ 2" using eq [OF 1(1)] by (simp add: m 1(2) power_mult_distrib)
    moreover have "mval (n - 1) ^ 2 < mval n ^ 2" "mval n ^ 2 < mval (Suc n) ^ 2" using n(1) by (intro power_strict_mono; simp)+
    ultimately show ?thesis using n by (simp add: sqrt_rounds_def)
  next
    case 2
    then have "h < 2 ^ 24" using q(4) by simp
    then have "4 * V < (mval n + mval (Suc n)) ^ 2" using 2 q(2) by (intro less [of "q + 1"]) (simp_all add: m m1 algebra_simps)
    moreover have "(mval (n - 1) + mval n) ^ 2 < 4 * V" using 2 lt by (intro greater [of q]) (simp_all add: m mult.commute [of h])
    ultimately show ?thesis using n 2 by (simp add: sqrt_rounds_def)
  next
    case 3
    then have "2 ^ 23 < h" using q(3) by simp
    then have "mval (n - 1) + mval n = (h - 1 + h) * P" unfolding m by (simp only: m0 distrib_right)
    moreover have "h - 1 + h = q" using 3(3) by simp
    ultimately have "mval (n - 1) + mval n = q * P" by simp
    then have "(mval (n - 1) + mval n) ^ 2 < 4 * V" using 3(1) greater [of q] by simp
    moreover have "4 * V < (mval n + mval (Suc n)) ^ 2" using 3 q(2) lt by (intro less [of "q + 1"]) (simp_all add: m mult.commute [of h])
    ultimately show ?thesis using n 3 by (simp add: sqrt_rounds_def)
  next
    case 4
    then have "2 ^ 23 < h" using q(3) by simp
    then have "2 * mval (n - 1) = 2 * (q div 2) * P" using m0 4(4) by simp
    also have "\<dots> \<le> q * P" by (intro mult_le_mono1) simp
    finally have "(2 * mval (n - 1)) ^ 2 < 4 * V" using 4(1) greater by blast
    moreover have "(q + 1) * P \<le> (2 * h) * P" using 4(4) by (intro mult_le_mono1) simp
    then have "4 * V < (2 * mval n) ^ 2" using less [OF q(2)] by (simp only: m mult.assoc)
    ultimately show ?thesis using n 4 by (simp add: sqrt_rounds_def power_mult_distrib)
  next
    case 5
    then have "h < 2 ^ 24" using q(4) by simp
    moreover have "(q + 1) * P \<le> (2 * (h + 1)) * P" using 5(4) by (intro mult_le_mono1) simp
    ultimately have "4 * V < (2 * mval (Suc n)) ^ 2" using less [OF q(2)] by (simp only: m1 mult.assoc)
    moreover have "(2 * h) * P \<le> q * P" using 5(4) by (intro mult_le_mono1) simp
    then have "(2 * mval n) ^ 2 < 4 * V" using greater [OF 5(1)] by (simp only: m mult.assoc)
    ultimately show ?thesis using n 5 by (simp add: sqrt_rounds_def power_mult_distrib)
  qed
  then show ?thesis by (simp add: n_def)
qed

section \<open>The square root\<close>

lemma bit_23_clear: "unat h < 2 ^ 24 \<Longrightarrow> h AND 0x00800000 = 0 \<longleftrightarrow> unat h < 2 ^ 23" for h :: u32
proof -
  assume h: "unat h < 2 ^ 24"
  have "h AND 0x00800000 = 0 \<longleftrightarrow> \<not> bit h 23" using and_exp_eq_0_iff_not_bit [of h 23] by simp
  also have "\<dots> \<longleftrightarrow> even (unat h div 2 ^ 23)"
    using bit_unsigned_iff [of h 23, where 'a = nat] bit_iff_odd [of "unat h" 23] by auto
  also have "\<dots> \<longleftrightarrow> unat h div 2 ^ 23 = 0"
  proof -
    have "unat h div 2 ^ 23 < 2" using h by (simp add: div_less_iff_less_mult)
    then show ?thesis by (auto simp: less_2_cases_iff)
  qed
  finally show "h AND 0x00800000 = 0 \<longleftrightarrow> unat h < 2 ^ 23" by (simp add: div_eq_0_iff)
qed

lemma sqrt_normalize_ends:
  "2 ^ 23 \<le> unat h * 2 ^ k \<Longrightarrow> unat h * 2 ^ k < 2 ^ 24 \<Longrightarrow>
    \<exists>g. sqrt_normalize h i = Some (g, i + int k) \<and> unat g = unat h * 2 ^ k"
proof (induction k arbitrary: h i)
  case 0
  then have "h AND 0x00800000 \<noteq> 0" by (simp add: bit_23_clear)
  then show ?case by (subst sqrt_normalize.simps) simp
next
  case (Suc k)
  have lt: "unat h < 2 ^ 23" using le_less_trans [OF power_ge_double Suc.prems(2)] by simp
  then have d: "unat (push_bit 1 h) * 2 ^ k = unat h * 2 ^ Suc k" by (simp only: unat_push_bit) simp
  have "h AND 0x00800000 = 0" using lt by (simp add: bit_23_clear)
  then have "sqrt_normalize h i = sqrt_normalize (push_bit 1 h) (i + 1)" by (subst sqrt_normalize.simps) (simp only: if_True simp_thms)
  then show ?case using Suc.IH [of "push_bit 1 h" "i + 1"] Suc.prems by (simp only: d) (simp add: add.assoc)
qed

lemma sqrt_round_value:
  assumes "unat q < 2 ^ 25"
  shows "unat (drop_bit 1 (sqrt_round rnd ix q)) =
    (if ix = 0 then unat q else if rnd = CRT_FE_TONEAREST then unat q + unat q mod 2 else if rnd = CRT_FE_UPWARD then unat q + 2 else unat q) div 2"
proof -
  have "unat (q AND 1) = unat q mod 2" using unat_and_mask [of q 1] by (simp add: mask_eq_exp_minus_1)
  then show ?thesis using assms by (simp add: sqrt_round_def unat_drop_bit unat_word_ariths)
qed

lemma sqrt_positive_value:
  fixes ix :: u32 and rnd :: round_mode
  assumes m: "- 22 \<le> m" "m \<le> 254" and X: "X * 2 ^ 23 = (2 ^ 23 + unat ix mod 2 ^ 23) * 2 ^ nat (m + 22)"
  defines "y \<equiv> sqrt_positive rnd ix m"
  shows "\<not> negative y \<and> sqrt_rounds rnd (X * 2 ^ 149) (mag y)"
proof -
  define S ix1 m1 where "S = 2 ^ 23 + unat ix mod 2 ^ 23" and "ix1 = (ix AND 0x007FFFFF) OR 0x00800000" and "m1 = (m - 127) div 2"
  have S: "unat ix1 = S" "2 ^ 23 \<le> S" "S < 2 ^ 24"
  proof -
    have "(0x007FFFFF :: u32) = mask 23" by (simp add: mask_eq_exp_minus_1)
    then have "unat (ix AND 0x007FFFFF) = unat ix mod 2 ^ 23" by (simp only: unat_and_mask)
    then show "unat ix1 = S" using unat_or_add [of "0x00800000 :: u32" 1 23 "ix AND 0x007FFFFF"]
      by (simp add: ix1_def S_def or.commute)
  qed (simp_all add: S_def)
  define ix2 where "ix2 = (if odd (m - 127) then ix1 + ix1 else ix1)"
  define v where "v = (if odd (m - 127) then 2 * S else S)"
  have v: "unat ix2 = v" "2 ^ 23 \<le> v" "v < 2 ^ 25" "unat (ix2 + ix2) = 2 * v"
    using S by (simp_all only: v_def ix2_def unat_word_ariths split: if_splits) simp_all
  define N where "N = v * 2 ^ 25"
  obtain ix3 q where l: "sqrt_loop 0x01000000 (ix2 + ix2) 0 0 = (ix3, q)" by (cases "sqrt_loop 0x01000000 (ix2 + ix2) 0 0")
  have "case sqrt_loop 0x01000000 (ix2 + ix2) 0 0 of (ix', q') \<Rightarrow> unat q' * unat q' \<le> N \<and> N < (unat q' + 1) * (unat q' + 1) \<and>
      unat ix' = 2 * (N - unat q' * unat q')"
    by (rule sqrt_loop_value [where k = 24]) (use v in \<open>simp_all add: N_def\<close>)
  then have q: "(unat q) ^ 2 \<le> N" "N < (unat q + 1) ^ 2" and ix3: "ix3 = 0 \<longleftrightarrow> N = (unat q) ^ 2"
    unfolding l prod.case power2_eq_square by (auto simp: word_unat_eq_iff)
  define D h where "D = nat (126 + m1)" and "h = unat (drop_bit 1 (sqrt_round rnd ix3 q))"
  have b: "m - 127 = 2 * m1 + of_bool (odd (m - 127))" unfolding m1_def using mult_div_mod_eq [of 2 "m - 127"] by (simp only: mod_2_eq_odd)
  have D: "D \<le> 252" "126 + m1 = int D" using m by (auto simp: D_def m1_def)
  have "(2 ^ 24) ^ 2 < (unat q + 1) ^ 2" using q(2) v(2) by (simp add: N_def)
  then have q24: "2 ^ 24 \<le> unat q" using power_less_imp_less_base by fastforce
  have "(unat q) ^ 2 < (2 ^ 25) ^ 2" using q(1) v(3) by (simp add: N_def)
  then have q25: "unat q < 2 ^ 25" using power_less_imp_less_base by fastforce
  have "even (unat q)" if "N = (unat q) ^ 2"
  proof -
    have "even N" by (simp add: N_def)
    then show ?thesis unfolding that by simp
  qed
  moreover have "4 * (X * 2 ^ 149) = N * (2 ^ D) ^ 2"
  proof -
    have "v = S * 2 ^ of_bool (odd (m - 127))" by (simp add: v_def)
    then have "N * (2 ^ D) ^ 2 = S * 2 ^ (of_bool (odd (m - 127)) + 25 + D * 2)" by (simp only: N_def power_add power_mult mult.assoc)
    also have "of_bool (odd (m - 127)) + 25 + D * 2 = nat (m + 22) + 128" using b D(2) m by (cases "odd (m - 127)") simp_all
    also have "S * 2 ^ (nat (m + 22) + 128) = X * 2 ^ 23 * 2 ^ 128" unfolding X [folded S_def] by (simp only: power_add mult.assoc)
    finally show ?thesis by simp
  qed
  ultimately have r: "sqrt_rounds rnd (X * 2 ^ 149) (D * 2 ^ 23 + h)"
    using sqrt_rounds_scaled [of "X * 2 ^ 149" N D "unat q" rnd] q q24 q25 D(1) unfolding h_def sqrt_round_value [OF q25] ix3 by blast
  then have lt: "D * 2 ^ 23 + h < inf_mag" by (simp add: sqrt_rounds_def)
  have "y = drop_bit 1 (sqrt_round rnd ix3 q) + 0x3F000000 + push_bit 23 (word_of_int m1)"
    unfolding y_def sqrt_positive_def Let_def ix1_def [symmetric] m1_def [symmetric] ix2_def [symmetric] l prod.case ..
  also have "\<dots> = word_of_int (int h + 0x3F000000 + m1 * 2 ^ 23)" by (simp add: h_def push_bit_eq_mult)
  also have "int h + 0x3F000000 + m1 * 2 ^ 23 = int (D * 2 ^ 23 + h)" using D(2) by simp
  finally have "unat y = D * 2 ^ 23 + h" using lt by (simp only: of_int_of_nat_eq unat_of_nat) (simp add: inf_mag_def)
  then show ?thesis using r lt mag_small [of y] by (simp add: inf_mag_def)
qed

definition ieee_sqrt :: "round_mode \<Rightarrow> u32 \<Rightarrow> u32 \<Rightarrow> bool" where
  "ieee_sqrt rnd x r \<longleftrightarrow>
    (if is_nan x then is_nan r
     else if mag x = 0 then r = x
     else if negative x then is_nan r
     else if \<not> is_finite x then r = x
     else \<not> negative r \<and> sqrt_rounds rnd (mval (mag x) * 2 ^ 149) (mag r))"

lemma sqrtf_positive:
  assumes x: "\<not> negative x" "0 < mag x" "mag x < inf_mag"
  shows "\<exists>r. sqrtf rnd x = Some r \<and> \<not> negative r \<and> sqrt_rounds rnd (mval (mag x) * 2 ^ 149) (mag r)"
proof -
  have u: "unat x = mag x" using unat_split [of x] x(1) by simp
  have f: "sqrtf rnd x = (if mag x < 2 ^ 23 then Option.bind (sqrt_normalize x 0) (\<lambda>(ix, i). Some (sqrt_positive rnd ix (int (mag x div 2 ^ 23) - (i - 1))))
      else Some (sqrt_positive rnd x (int (mag x div 2 ^ 23))))"
    unfolding sqrtf_def Let_def uword_classes sint_sign unat_drop_bit u using x by (simp add: is_finite_def)
  show ?thesis
  proof (cases "mag x < 2 ^ 23")
    case True
    then have "mag x < 2 ^ Suc 23" by simp
    then obtain k where k: "k \<le> 23" "2 ^ 23 \<le> mag x * 2 ^ k" "mag x * 2 ^ k < 2 ^ Suc 23" using scale_up x(2) by blast
    then obtain g where g: "sqrt_normalize x 0 = Some (g, int k)" "unat g = mag x * 2 ^ k"
      using sqrt_normalize_ends [of x k 0] by (auto simp: u)
    have "2 ^ 23 + unat g mod 2 ^ 23 = mag x * 2 ^ k" using k(2,3) g(2) by (simp add: mod_if) linarith
    moreover have "nat (1 - int k + 22) = 23 - k" by simp
    moreover have "mag x * 2 ^ k * 2 ^ (23 - k) = mag x * 2 ^ 23" using pow2_split [OF k(1)] by (simp only: mult.assoc)
    ultimately have "mval (mag x) * 2 ^ 23 = (2 ^ 23 + unat g mod 2 ^ 23) * 2 ^ nat (1 - int k + 22)"
      using True by (simp only: mval_subnormal less_imp_le_nat) (simp add: mval_subnormal)
    moreover have "sqrtf rnd x = Some (sqrt_positive rnd g (1 - int k))" using True by (simp add: f g(1))
    ultimately show ?thesis using sqrt_positive_value [of "1 - int k" "mval (mag x)" g rnd] k(1) by simp
  next
    case False
    define E fr where "E = mag x div 2 ^ 23" and "fr = mag x mod 2 ^ 23"
    have h: "mag x = E * 2 ^ 23 + fr" "fr < 2 ^ 23"
      unfolding E_def fr_def by (simp_all only: div_mult_mod_eq mod_less_divisor zero_less_power zero_less_numeral)
    have "0 < E" "E < 255" using False x(3) by (simp_all add: inf_mag_def E_def div_greater_zero_iff div_less_iff_less_mult)
    then have E: "1 \<le> E" "E \<le> 254" by simp_all
    have "nat (int E + 22) = E - 1 + 23" using E by simp
    then have "mval (mag x) * 2 ^ 23 = (2 ^ 23 + unat x mod 2 ^ 23) * 2 ^ nat (int E + 22)"
      using mval_normal [OF E(1) h(2)] unfolding u fr_def [symmetric] by (simp only: h(1) power_add mult.assoc)
    moreover have "sqrtf rnd x = Some (sqrt_positive rnd x (int E))" using False by (simp add: f E_def)
    ultimately show ?thesis using sqrt_positive_value [of "int E" "mval (mag x)" x rnd] E by simp
  qed
qed

lemma sqrtf_root: "\<exists>r. sqrtf rnd x = Some r \<and> ieee_sqrt rnd x r"
proof -
  note f = sqrtf_def [of rnd x, unfolded Let_def uword_classes sint_sign isnanf_def]
  consider "is_nan x" | "\<not> is_nan x" "mag x = 0" | "\<not> is_nan x" "0 < mag x" "negative x"
    | "\<not> is_nan x" "\<not> negative x" "\<not> is_finite x" | "\<not> negative x" "0 < mag x" "mag x < inf_mag"
    unfolding is_nan_def is_finite_def by (metis linorder_less_linear gr0I)
  then show ?thesis
  proof cases
    case 1
    then show ?thesis using nonfinite_double [of x] by (auto simp: f ieee_sqrt_def is_nan_def is_finite_def)
  next
    case 2
    then show ?thesis by (simp add: f ieee_sqrt_def is_finite_def inf_mag_def)
  next
    case 3
    then show ?thesis using math_invalidf_nan [of x] by (auto simp: f ieee_sqrt_def)
  next
    case 4
    then show ?thesis using nonfinite_double [of x] by (auto simp: f ieee_sqrt_def is_finite_def inf_mag_def)
  next
    case 5
    then show ?thesis using sqrtf_positive [OF 5] by (auto simp: ieee_sqrt_def is_nan_def is_finite_def)
  qed
qed

text \<open>
  C9. \<^verbatim>\<open>sqrtf\<close> returns for all arguments, and the root of a positive number is correctly rounded: in the mode to nearest it
  lies between the midpoints to its neighbours, and in the directed modes it is the neighbour on the right side. A zero is
  its own root, signed or not, and so is infinity; other negative numbers have no root.
\<close>

theorem sqrtf_correct: "\<exists>r. sqrtf rnd x = Some r \<and> ieee_sqrt rnd x r"
  by (rule sqrtf_root)

end
