(* ===== verification/Libm_Scale.thy ===== *)
theory Libm_Scale
  imports Libm_Fmod
begin

text \<open>
  Scaling by powers of two: \<^verbatim>\<open>frexpf\<close> (\<^verbatim>\<open>sf_frexp.c\<close>), \<^verbatim>\<open>scalbnf\<close> and \<^verbatim>\<open>ldexpf\<close> (\<^verbatim>\<open>sf_scalbn.c\<close>) and the results
  of an overflow and an underflow (\<^verbatim>\<open>math_errf_oflowf.c\<close>, \<^verbatim>\<open>math_errf_uflowf.c\<close>). A subnormal argument is first multiplied
  by \<open>2\<^sup>2\<^sup>5\<close>. The target has 16-bit integers, so the test of \<^verbatim>\<open>scalbnf\<close> against large negative exponents is not compiled.
\<close>

section \<open>The functions\<close>

definition two25 :: u32 where "two25 = 0x4C000000"
definition twom25 :: u32 where "twom25 = 0x33000000"
definition FLT_MAX :: u32 where "FLT_MAX = 0x7F7FFFFF"
definition FLT_MIN :: u32 where "FLT_MIN = 0x00800000"
definition FLT_LARGEST_EXP :: int where "FLT_LARGEST_EXP = 254"
definition OVERFLOW_INT :: int where "OVERFLOW_INT = 30000"

definition math_oflowf :: "bool \<Rightarrow> u32" where
  "math_oflowf sign = mulsf3 (if sign then negsf2 FLT_MAX else FLT_MAX) FLT_MAX"

definition math_uflowf :: "bool \<Rightarrow> u32" where
  "math_uflowf sign = mulsf3 (if sign then negsf2 FLT_MIN else FLT_MIN) FLT_MIN"

definition check_uflowf :: "u32 \<Rightarrow> u32" where
  "check_uflowf x = x"

definition frexpf :: "u32 \<Rightarrow> u32 \<times> int" where
  "frexpf x =
    (let hx = x;
         ix = 0x7FFFFFFF AND hx;
         eptr = 0
     in if \<not> FLT_UWORD_IS_FINITE ix \<or> FLT_UWORD_IS_ZERO ix then (fadd x x, eptr)
        else let (hx, ix, eptr) =
                   (if FLT_UWORD_IS_SUBNORMAL ix
                    then let hx = mulsf3 x two25 in (hx, hx AND 0x7FFFFFFF, - 25)
                    else (hx, ix, eptr));
                 eptr = eptr + (int (unat (drop_bit 23 ix)) - 126);
                 hx = (hx AND 0x807FFFFF) OR 0x3F000000
             in (hx, eptr))"

text \<open>The rest of \<^verbatim>\<open>scalbnf\<close> after the exponent of the argument is known.\<close>

definition scalbn_finish :: "u32 \<Rightarrow> int \<Rightarrow> int \<Rightarrow> u32" where
  "scalbn_finish ix n k =
    (if k = 0xFF then fadd ix ix
     else if n > OVERFLOW_INT then math_oflowf (sint ix < 0)
     else let k = k + n
          in if k > FLT_LARGEST_EXP then math_oflowf (sint ix < 0)
             else if k > 0 then (ix AND 0x807FFFFF) OR push_bit 23 (word_of_int k)
             else if k \<le> - 25 then math_uflowf (sint ix < 0)
             else let k = k + 25;
                      x = (ix AND 0x807FFFFF) OR push_bit 23 (word_of_int k)
                  in check_uflowf (mulsf3 x twom25))"

definition scalbnf :: "u32 \<Rightarrow> int \<Rightarrow> u32" where
  "scalbnf x n =
    (let ix = x;
         hx = ix AND 0x7FFFFFFF;
         k = int (unat (drop_bit 23 hx))
     in if k = 0
        then if hx = 0 then x
             else let ix = mulsf3 x two25 in scalbn_finish ix n (int (unat (drop_bit 23 (ix AND 0x7F800000))) - 25)
        else scalbn_finish ix n k)"

definition ldexpf :: "u32 \<Rightarrow> int \<Rightarrow> u32" where
  "ldexpf value exp = scalbnf value exp"

section \<open>Overflow and underflow\<close>

lemma mul_value:
  assumes "mag c = e * 2 ^ 23" and "1 \<le> e" and "e \<le> 254" and "\<not> negative c" and "is_finite x"
  shows "rounds_to (mval (mag x) * 2 ^ (e + 22)) 149 (mag (mulsf3 x c))" and "negative (mulsf3 x c) \<longleftrightarrow> negative x"
proof -
  have "2 ^ 23 * 2 ^ (e - 1) = (2::nat) ^ (e + 22)" using assms(2) by (cases e) (simp_all add: power_add)
  then have "mval (mag c) = 2 ^ (e + 22)" using mval_normal [OF assms(2), of 0] by (simp only: assms(1) add_0_right zero_less_power zero_less_numeral)
  moreover have "is_finite c" "mag c \<noteq> 0" using assms by (simp_all add: is_finite_def inf_mag_def)
  ultimately show "rounds_to (mval (mag x) * 2 ^ (e + 22)) 149 (mag (mulsf3 x c))" "negative (mulsf3 x c) \<longleftrightarrow> negative x"
    using mul_nearest [of x c] assms(4,5) by (auto simp: ieee_product_def is_nan_def is_finite_def)
qed

lemma const_mags:
  "mag two25 = 152 * 2 ^ 23" "\<not> negative two25" "mag twom25 = 102 * 2 ^ 23" "\<not> negative twom25"
  "mag FLT_MAX = inf_mag - 1" "\<not> negative FLT_MAX" "mag FLT_MIN = 1 * 2 ^ 23" "\<not> negative FLT_MIN"
  by (simp_all add: two25_def twom25_def FLT_MAX_def FLT_MIN_def mag_def negative_def fp_consts inf_mag_def)

lemma oflow_value: "mag (math_oflowf s) = inf_mag" "negative (math_oflowf s) \<longleftrightarrow> s"
proof -
  define c where "c = (if s then negsf2 FLT_MAX else FLT_MAX)"
  have c: "mag c = inf_mag - 1" "negative c = s" by (simp_all add: c_def negsf2_fields const_mags)
  have "rounds_to (mval (inf_mag - 1) * mval (inf_mag - 1)) 149 (mag (math_oflowf s)) \<and> negative (math_oflowf s) = s"
    using mul_nearest [of c FLT_MAX] c const_mags(5,6)
    by (simp add: math_oflowf_def c_def [symmetric] ieee_product_def is_nan_def is_finite_def inf_mag_def)
  moreover have "rounds_to (mval (inf_mag - 1) * mval (inf_mag - 1)) 149 inf_mag"
    by (rule rounds_to_overflow) (simp add: mval_def inf_mag_def)
  ultimately show "mag (math_oflowf s) = inf_mag" "negative (math_oflowf s) \<longleftrightarrow> s" using rounds_to_unique by blast+
qed

lemma uflow_value: "mag (math_uflowf s) = 0" "negative (math_uflowf s) \<longleftrightarrow> s"
proof -
  define c where "c = (if s then negsf2 FLT_MIN else FLT_MIN)"
  have c: "mag c = 1 * 2 ^ 23" "negative c = s" by (simp_all add: c_def negsf2_fields const_mags)
  then have fin: "is_finite c" by (simp add: is_finite_def inf_mag_def)
  have "rounds_to (mval (mag c) * 2 ^ (1 + 22)) 149 (mag (math_uflowf s))" "negative (math_uflowf s) = s"
    using mul_value [OF const_mags(7) _ _ const_mags(8) fin] c(2) by (simp_all add: math_uflowf_def c_def)
  moreover have "rounds_to (mval (mag c) * 2 ^ (1 + 22)) 149 0" unfolding c(1) by (simp add: rounds_to_def mval_def)
  ultimately show "mag (math_uflowf s) = 0" "negative (math_uflowf s) \<longleftrightarrow> s" using rounds_to_unique by blast+
qed

section \<open>Operands\<close>

lemma times_two25:
  assumes "mag x < 2 ^ 23"
  shows "mval (mag (mulsf3 x two25)) = mag x * 2 ^ 25" and "is_finite (mulsf3 x two25)" and "negative (mulsf3 x two25) \<longleftrightarrow> negative x"
proof -
  have fin: "is_finite x" using assms by (simp add: is_finite_def inf_mag_def)
  have m: "mval (mag x) = mag x" using assms by (simp add: mval_subnormal)
  obtain n where n: "n < inf_mag" "mval n = mag x * 2 ^ 25" using representable_scaled [of "mag x" 25] assms by auto
  note mv = mul_value [OF const_mags(1) _ _ const_mags(2) fin]
  have "mag x * 2 ^ (152 + 22) = mval n * 2 ^ 149" unfolding n(2) by simp
  then have "rounds_to (mag x * 2 ^ (152 + 22)) 149 n" using rounds_to_exact [OF less_imp_le [OF n(1)], of 149] by (simp only:)
  then have "mag (mulsf3 x two25) = n" using mv(1) rounds_to_unique unfolding m by simp
  then show "mval (mag (mulsf3 x two25)) = mag x * 2 ^ 25" "is_finite (mulsf3 x two25)" "negative (mulsf3 x two25) \<longleftrightarrow> negative x"
    using n mv(2) by (simp_all add: is_finite_def)
qed

lemma replace_exponent:
  fixes w :: u32
  assumes "1 \<le> k" and "k \<le> 254"
  defines "y \<equiv> (w AND 0x807FFFFF) OR push_bit 23 (word_of_int k) :: u32"
  shows "mag y = nat k * 2 ^ 23 + mag w mod 2 ^ 23" and "negative y \<longleftrightarrow> negative w"
proof -
  have "(0x807FFFFF :: u32) = significandMask OR signBit" by (simp add: fp_consts)
  then have "y = ((w AND significandMask) OR push_bit 23 (word_of_int k)) OR (w AND signBit)"
    by (simp only: y_def bit.conj_disj_distrib or.assoc or.commute or.left_commute)
  then have "unat y = (if negative w then 2 ^ 31 else 0) + (nat k * 2 ^ 23 + unat w mod 2 ^ 23)"
    unfolding sign_of using unat_pack [of k "if negative w then signBit else 0" "negative w" w] assms by simp
  moreover have "unat w mod 2 ^ 23 = mag w mod 2 ^ 23" unfolding mag_mod using mod_exp_eq [of "unat w" 31 23] by (simp add: min_def)
  moreover have "nat k * 2 ^ 23 + mag w mod 2 ^ 23 < 2 ^ 31"
  proof -
    have "nat k * 2 ^ 23 \<le> 254 * 2 ^ 23" using assms by simp
    moreover have "mag w mod 2 ^ 23 < 2 ^ 23" by simp
    ultimately show ?thesis by simp
  qed
  ultimately show "mag y = nat k * 2 ^ 23 + mag w mod 2 ^ 23" "negative y \<longleftrightarrow> negative w"
    using mag_of_unat [of y "negative w" "nat k * 2 ^ 23 + mag w mod 2 ^ 23"] by simp_all
qed

text \<open>A finite nonzero argument as significand and exponent, after the multiplication of a subnormal one.\<close>

definition scale_operand :: "u32 \<Rightarrow> u32 \<times> int" where
  "scale_operand x = (if mag x < 2 ^ 23 then let w = mulsf3 x two25 in (w, int (mag w div 2 ^ 23) - 25) else (x, int (mag x div 2 ^ 23)))"

lemma scale_operand:
  assumes x: "0 < mag x" "mag x < inf_mag" and o: "scale_operand x = (w, k)"
  shows "negative w \<longleftrightarrow> negative x" and "- 24 \<le> k" and "k \<le> 254"
    and "mval (mag x) * 2 ^ 25 = (2 ^ 23 + mag w mod 2 ^ 23) * 2 ^ nat (k + 24)"
proof -
  have normal: "mval m = (2 ^ 23 + m mod 2 ^ 23) * 2 ^ (m div 2 ^ 23 - 1) \<and> 1 \<le> m div 2 ^ 23 \<and> m div 2 ^ 23 \<le> 254"
    if "2 ^ 23 \<le> m" "m < inf_mag" for m
  proof -
    have "0 < m div 2 ^ 23" "m div 2 ^ 23 < 255" using that by (simp_all add: inf_mag_def div_greater_zero_iff div_less_iff_less_mult)
    then show ?thesis using that by (simp add: mval_def)
  qed
  have "(negative w \<longleftrightarrow> negative x) \<and> - 24 \<le> k \<and> k \<le> 254 \<and> mval (mag x) * 2 ^ 25 = (2 ^ 23 + mag w mod 2 ^ 23) * 2 ^ nat (k + 24)"
  proof (cases "mag x < 2 ^ 23")
    case True
    note t = times_two25 [OF True]
    have w: "w = mulsf3 x two25" "k = int (mag w div 2 ^ 23) - 25" using o True by (auto simp: scale_operand_def Let_def)
    have v: "mval (mag w) = mag x * 2 ^ 25" unfolding w(1) by (rule t(1))
    have "2 ^ 23 \<le> mag w"
    proof (rule ccontr)
      assume "\<not> 2 ^ 23 \<le> mag w"
      then show False using v x(1) by (simp add: mval_subnormal)
    qed
    moreover have "mag w < inf_mag" using t(2) by (simp add: w is_finite_def)
    ultimately have n: "mval (mag w) = (2 ^ 23 + mag w mod 2 ^ 23) * 2 ^ (mag w div 2 ^ 23 - 1)" "1 \<le> mag w div 2 ^ 23" "mag w div 2 ^ 23 \<le> 254"
      using normal by blast+
    have "nat (k + 24) = mag w div 2 ^ 23 - 1" using w(2) n(2) by simp
    moreover have "mval (mag x) = mag x" using True by (simp add: mval_subnormal)
    ultimately show ?thesis using t(3) n v w by (simp only: v [symmetric]) simp
  next
    case False
    then have w: "w = x" "k = int (mag x div 2 ^ 23)" using o by (auto simp: scale_operand_def)
    have n: "mval (mag x) = (2 ^ 23 + mag x mod 2 ^ 23) * 2 ^ (mag x div 2 ^ 23 - 1)" "1 \<le> mag x div 2 ^ 23" "mag x div 2 ^ 23 \<le> 254"
      using normal [of "mag x"] False x by simp_all
    then have "nat (k + 24) = mag x div 2 ^ 23 - 1 + 25" using w(2) by simp
    then have "mval (mag x) * 2 ^ 25 = (2 ^ 23 + mag x mod 2 ^ 23) * 2 ^ nat (k + 24)" by (simp only: n(1) power_add mult.assoc)
    then show ?thesis using n w by simp
  qed
  then show "negative w \<longleftrightarrow> negative x" "- 24 \<le> k" "k \<le> 254"
    "mval (mag x) * 2 ^ 25 = (2 ^ 23 + mag w mod 2 ^ 23) * 2 ^ nat (k + 24)" by blast+
qed

lemma exponent_field: "unat (drop_bit 23 (w AND 0x7F800000)) = mag w div 2 ^ 23" for w :: u32
proof -
  have "(0x7F800000 :: u32) = push_bit 23 (mask 8)" by (simp add: mask_eq_exp_minus_1)
  then have "drop_bit 23 (w AND 0x7F800000) = drop_bit 23 w AND drop_bit 23 (push_bit 23 (mask 8))" by (simp only: drop_bit_and)
  also have "drop_bit 23 (push_bit 23 (mask 8)) = (0xFF :: u32)" by (simp add: mask_eq_exp_minus_1)
  finally show ?thesis using fields(1) [of w] by simp
qed

lemma double_zero:
  assumes "mag x = 0"
  shows "fadd x x = x"
proof (rule float_eqI)
  have "fval x = 0" "is_finite x" using assms by (simp_all add: fval_def is_finite_def inf_mag_def)
  then have "rounds_to 0 0 (mag (fadd x x)) \<and> negative (fadd x x) = negative x"
    using add_nearest [of x x] by (simp add: ieee_sum_def fadd_def addsf3_def is_nan_def is_finite_def)
  moreover have "rounds_to 0 0 0" using rounds_to_exact [of 0 0] by (simp add: inf_mag_def)
  ultimately show "mag (fadd x x) = mag x" "negative (fadd x x) = negative x" using rounds_to_unique assms by metis+
qed

section \<open>Splitting\<close>

definition ieee_frexp :: "u32 \<Rightarrow> u32 \<Rightarrow> int \<Rightarrow> bool" where
  "ieee_frexp x r e \<longleftrightarrow>
    (if is_nan x then is_nan r
     else if \<not> is_finite x \<or> mag x = 0 then r = x \<and> e = 0
     else (negative r \<longleftrightarrow> negative x) \<and> 2 ^ 148 \<le> mval (mag r) \<and> mval (mag r) < 2 ^ 149 \<and>
       mval (mag x) * 2 ^ nat (- e) = mval (mag r) * 2 ^ nat e)"

lemma frexpf_finite:
  assumes x: "0 < mag x" "mag x < inf_mag" and o: "scale_operand x = (w, k)"
  shows "frexpf x = ((w AND 0x807FFFFF) OR push_bit 23 (word_of_int 126), k - 126)"
proof -
  have c: "0x7FFFFFFF AND x = x AND 0x7FFFFFFF" by (rule and.commute)
  have p: "push_bit 23 (word_of_int 126) = (0x3F000000 :: u32)" by simp
  show ?thesis unfolding frexpf_def Let_def c uword_classes p uword_exponent
    using x o by (auto simp: is_finite_def fields scale_operand_def Let_def simp del: of_nat_unat)
qed

lemma frexpf_split: "ieee_frexp x (fst (frexpf x)) (snd (frexpf x))"
proof (cases "0 < mag x \<and> mag x < inf_mag")
  case True
  obtain w k where o: "scale_operand x = (w, k)" by (cases "scale_operand x")
  note so = scale_operand [OF _ _ o]
  define r :: u32 where "r = (w AND 0x807FFFFF) OR push_bit 23 (word_of_int 126)"
  have r: "mag r = 126 * 2 ^ 23 + mag w mod 2 ^ 23" "negative r \<longleftrightarrow> negative w" unfolding r_def using replace_exponent [of 126 w] by simp_all
  have v: "mval (mag r) = (2 ^ 23 + mag w mod 2 ^ 23) * 2 ^ 125" unfolding r(1) using mval_normal [of 126 "mag w mod 2 ^ 23"] by simp
  have "mval (mag x) * 2 ^ nat (- (k - 126)) = mval (mag r) * 2 ^ nat (k - 126)"
  proof -
    have "nat (k + 24) + nat (- (k - 126)) = 125 + nat (k - 126) + 25" using so(2) True by simp
    moreover have "mval (mag x) * 2 ^ 25 = (2 ^ 23 + mag w mod 2 ^ 23) * 2 ^ nat (k + 24)" using True by (intro so(4)) simp_all
    moreover have "mval (mag x) * 2 ^ nat (- (k - 126)) * 2 ^ 25 = mval (mag x) * 2 ^ 25 * 2 ^ nat (- (k - 126))" by (simp only: mult_ac)
    ultimately have "mval (mag x) * 2 ^ nat (- (k - 126)) * 2 ^ 25 = (2 ^ 23 + mag w mod 2 ^ 23) * 2 ^ (125 + nat (k - 126) + 25)"
      by (simp only: mult.assoc flip: power_add)
    then have "mval (mag x) * 2 ^ nat (- (k - 126)) * 2 ^ 25 = mval (mag r) * 2 ^ nat (k - 126) * 2 ^ 25"
      unfolding v by (simp only: power_add mult.assoc)
    then show ?thesis by simp
  qed
  moreover have "mag w mod 2 ^ 23 < 2 ^ 23" by simp
  then have "2 ^ 148 \<le> mval (mag r)" "mval (mag r) < 2 ^ 149" unfolding v by simp_all
  ultimately show ?thesis using True so(1) r(2) frexpf_finite [OF _ _ o] unfolding r_def [symmetric]
    by (simp add: ieee_frexp_def is_nan_def is_finite_def)
next
  case False
  then have "frexpf x = (fadd x x, 0)"
    unfolding frexpf_def Let_def and.commute [of "0x7FFFFFFF"] uword_classes by (auto simp: is_finite_def)
  moreover have "fadd x x = x" if "mag x = 0" using that by (rule double_zero)
  ultimately show ?thesis using False nonfinite_double [of x] by (auto simp: ieee_frexp_def is_nan_def is_finite_def)
qed

section \<open>Scaling\<close>

text \<open>\<open>x\<close> times \<open>2\<^sup>n\<close>, rounded to nearest with overflow to infinity and gradual underflow.\<close>

definition ieee_scale :: "u32 \<Rightarrow> int \<Rightarrow> u32 \<Rightarrow> bool" where
  "ieee_scale x n r \<longleftrightarrow>
    (if is_nan x then is_nan r
     else if \<not> is_finite x \<or> mag x = 0 then r = x
     else (negative r \<longleftrightarrow> negative x) \<and> rounds_to (mval (mag x) * 2 ^ nat n) (nat (- n)) (mag r))"

definition scale_word :: "u32 \<Rightarrow> int \<Rightarrow> u32" where
  "scale_word w k =
    (if k > 254 then math_oflowf (negative w)
     else if k > 0 then (w AND 0x807FFFFF) OR push_bit 23 (word_of_int k)
     else if k \<le> - 25 then math_uflowf (negative w)
     else mulsf3 ((w AND 0x807FFFFF) OR push_bit 23 (word_of_int (k + 25))) twom25)"

lemma scalbnf_finite:
  assumes x: "0 < mag x" "mag x < inf_mag" and o: "scale_operand x = (w, k)"
  shows "scalbnf x n = scale_word w (k + n)"
proof -
  note so = scale_operand [OF x o]
  have z: "int (unat (drop_bit 23 (x AND 0x7FFFFFFF))) = 0 \<longleftrightarrow> mag x < 2 ^ 23" unfolding uword_exponent by (simp add: div_eq_0_iff)
  have nz: "x AND 0x7FFFFFFF \<noteq> 0" using x(1) abs_eq_0 [of x] by (simp add: fp_consts)
  have "scalbnf x n = scalbn_finish w n k"
    using o unfolding scalbnf_def Let_def z exponent_field if_not_P [OF nz] uword_exponent scale_operand_def
    by (auto simp: div_eq_0_iff split: if_splits)
  moreover have "scalbn_finish w n k = (if k = 0xFF then fadd w w else if n > OVERFLOW_INT then math_oflowf (negative w) else scale_word w (k + n))"
    unfolding scalbn_finish_def scale_word_def Let_def sint_sign FLT_LARGEST_EXP_def check_uflowf_def ..
  moreover have "scale_word w (k + n) = math_oflowf (negative w)" if "n > OVERFLOW_INT"
    using that so(2) by (simp add: OVERFLOW_INT_def scale_word_def)
  ultimately show ?thesis using so(3) by auto
qed

lemma scale_word_rounds:
  fixes n :: int
  assumes k: "- 24 \<le> k" "k \<le> 254" and X: "X * 2 ^ 25 = (2 ^ 23 + mag w mod 2 ^ 23) * 2 ^ nat (k + 24)"
  defines "r \<equiv> scale_word w (k + n)"
  shows "(negative r \<longleftrightarrow> negative w) \<and> rounds_to (X * 2 ^ nat n) (nat (- n)) (mag r)"
proof -
  define S where "S = 2 ^ 23 + mag w mod 2 ^ 23"
  have S: "2 ^ 23 \<le> S" "S < 2 ^ 24" by (simp_all add: S_def)
  have shift: "X * 2 ^ nat n * 2 ^ 25 = S * 2 ^ (nat (k + 24) + nat n)" 
  proof -
    have "X * 2 ^ nat n * 2 ^ 25 = X * 2 ^ 25 * 2 ^ nat n" by (simp only: mult_ac)
    then show ?thesis unfolding X [folded S_def] by (simp only: power_add mult.assoc)
  qed
  consider "k + n > 254" | "k + n > 0" "k + n \<le> 254" | "k + n \<le> 0" "k + n > - 25" | "k + n \<le> - 25" by linarith
  then show ?thesis
  proof cases
    case 1
    have "mval inf_mag * 2 ^ nat (- n) * 2 ^ 25 \<le> X * 2 ^ nat n * 2 ^ 25"
    proof -
      have "mval inf_mag = 2 ^ 277" by (simp add: mval_def inf_mag_def)
      then have "mval inf_mag * 2 ^ nat (- n) * 2 ^ 25 = 2 ^ (277 + nat (- n) + 25)" by (simp only: power_add)
      also have "\<dots> \<le> 2 ^ (23 + (nat (k + 24) + nat n))" using 1 k by (intro power_increasing) simp_all
      also have "\<dots> \<le> S * 2 ^ (nat (k + 24) + nat n)" unfolding power_add [of 2 23] using S(1) by (intro mult_le_mono1)
      finally show ?thesis unfolding shift .
    qed
    then have "rounds_to (X * 2 ^ nat n) (nat (- n)) inf_mag" by (intro rounds_to_overflow) simp
    then show ?thesis using 1 oflow_value [of "negative w"] by (simp add: r_def scale_word_def)
  next
    case 2
    then have r: "mag r = nat (k + n) * 2 ^ 23 + mag w mod 2 ^ 23" "negative r \<longleftrightarrow> negative w"
      using replace_exponent [of "k + n" w] by (simp_all add: r_def scale_word_def)
    have "1 \<le> nat (k + n)" using 2 by simp
    then have v: "mval (mag r) = S * 2 ^ (nat (k + n) - 1)" unfolding r(1) S_def by (rule mval_normal) simp
    have "nat (k + 24) + nat n = nat (k + n) - 1 + nat (- n) + 25" using 2 k by simp
    then have "X * 2 ^ nat n * 2 ^ 25 = mval (mag r) * 2 ^ nat (- n) * 2 ^ 25" unfolding shift v by (simp only: power_add mult.assoc)
    then have "X * 2 ^ nat n = mval (mag r) * 2 ^ nat (- n)" by simp
    moreover have "nat (k + n) * 2 ^ 23 + mag w mod 2 ^ 23 \<le> inf_mag"
    proof -
      have "nat (k + n) * 2 ^ 23 \<le> 254 * 2 ^ 23" using 2 by simp
      moreover have "mag w mod 2 ^ 23 < 2 ^ 23" by simp
      ultimately show ?thesis by (simp add: inf_mag_def)
    qed
    ultimately show ?thesis using rounds_to_exact [of "mag r"] r by (simp only:)
  next
    case 3
    define y where "y = (w AND 0x807FFFFF) OR push_bit 23 (word_of_int (k + n + 25))"
    have y: "mag y = nat (k + n + 25) * 2 ^ 23 + mag w mod 2 ^ 23" "negative y \<longleftrightarrow> negative w"
      unfolding y_def using 3 replace_exponent [of "k + n + 25" w] by simp_all
    have "1 \<le> nat (k + n + 25)" using 3 by simp
    then have v: "mval (mag y) = S * 2 ^ (nat (k + n + 25) - 1)" unfolding y(1) S_def by (rule mval_normal) simp
    have fin: "is_finite y"
    proof -
      have "nat (k + n + 25) * 2 ^ 23 \<le> 25 * 2 ^ 23" using 3 by simp
      moreover have "mag w mod 2 ^ 23 < 2 ^ 23" by simp
      ultimately show ?thesis by (simp add: is_finite_def y(1) inf_mag_def)
    qed
    have r: "r = mulsf3 y twom25" using 3 by (simp add: r_def scale_word_def y_def)
    note mv = mul_value [OF const_mags(3) _ _ const_mags(4) fin, folded r]
    have "rounds_to (mval (mag y)) 25 (mag r)" using mv(1) rounds_to_scale [of "mval (mag y)" 124 25 "mag r"] by simp
    then have "rounds_to (mval (mag y) * 2 ^ nat (- n)) (25 + nat (- n)) (mag r)" by (simp only: rounds_to_scale)
    moreover have "nat (k + 24) + nat n = nat (k + n + 25) - 1 + nat (- n)" using 3 k by simp
    then have "X * 2 ^ nat n * 2 ^ 25 = mval (mag y) * 2 ^ nat (- n)" unfolding shift v by (simp only: power_add mult.assoc)
    ultimately have "rounds_to (X * 2 ^ nat n * 2 ^ 25) (nat (- n) + 25) (mag r)" by (simp only: add.commute)
    then show ?thesis using mv(2) y(2) by (simp only: rounds_to_scale)
  next
    case 4
    have "2 * (X * 2 ^ nat n) * 2 ^ 25 < 2 ^ nat (- n) * 2 ^ 25"
    proof -
      have "2 * (X * 2 ^ nat n) * 2 ^ 25 = 2 * S * 2 ^ (nat (k + 24) + nat n)" using shift by (simp only: mult.assoc)
      also have "\<dots> < 2 * 2 ^ 24 * 2 ^ (nat (k + 24) + nat n)" using S(2) by simp
      also have "\<dots> = 2 ^ (25 + (nat (k + 24) + nat n))" by (simp only: power_add) simp
      also have "\<dots> \<le> 2 ^ (nat (- n) + 25)" using 4 k by (intro power_increasing) simp_all
      finally show ?thesis by (simp only: power_add)
    qed
    then have "rounds_to (X * 2 ^ nat n) (nat (- n)) 0" by (simp add: rounds_to_def mval_def)
    then show ?thesis using 4 uflow_value [of "negative w"] by (simp add: r_def scale_word_def)
  qed
qed

lemma scalbnf_rounds: "ieee_scale x n (scalbnf x n)"
proof (cases "0 < mag x \<and> mag x < inf_mag")
  case True
  obtain w k where o: "scale_operand x = (w, k)" by (cases "scale_operand x")
  note so = scale_operand [OF _ _ o]
  show ?thesis using True so scale_word_rounds [of k "mval (mag x)" w n]
    by (simp add: ieee_scale_def scalbnf_finite [OF _ _ o] is_nan_def is_finite_def)
next
  case False
  have "scalbnf x n = x" if "mag x = 0"
  proof -
    have h: "x AND 0x7FFFFFFF = 0" using that abs_eq_0 [of x] by (simp add: fp_consts)
    show ?thesis unfolding scalbnf_def Let_def h by simp
  qed
  moreover have "scalbnf x n = fadd x x" if "inf_mag \<le> mag x"
  proof -
    have "mag x div 2 ^ 23 = 255"
      using that mag_lt [of x] by (intro div_nat_eqI) (simp_all add: inf_mag_def)
    then show ?thesis unfolding scalbnf_def Let_def uword_exponent by (simp add: scalbn_finish_def)
  qed
  ultimately show ?thesis using False nonfinite_double [of x] by (auto simp: ieee_scale_def is_nan_def is_finite_def)
qed

text \<open>
  C23. \<^verbatim>\<open>scalbnf\<close> and \<^verbatim>\<open>ldexpf\<close> multiply by a power of two, correctly rounded for every exponent: a result below the normal
  range is rounded once, one above it is infinite, and zeros, infinities and patterns that are not numbers stay.
\<close>

theorem scalbnf_correct: "ieee_scale x n (scalbnf x n) \<and> ieee_scale x n (ldexpf x n)"
  unfolding ldexpf_def by (intro conjI scalbnf_rounds)

lemma frexpf_ldexpf:
  assumes "\<not> is_nan x" and f: "ieee_frexp x r e"
  shows "ldexpf r e = x"
proof (cases "is_finite x \<and> 0 < mag x")
  case True
  then have r: "negative r \<longleftrightarrow> negative x" "2 ^ 148 \<le> mval (mag r)" "mval (mag r) < 2 ^ 149"
    "mval (mag x) * 2 ^ nat (- e) = mval (mag r) * 2 ^ nat e"
    using f assms(1) by (auto simp: ieee_frexp_def)
  have "mval (mag r) < mval inf_mag" using r(3) by (simp add: mval_def inf_mag_def)
  then have "is_finite r" "\<not> is_nan r" by (simp_all add: is_finite_def is_nan_def)
  moreover have "mag r \<noteq> 0" using r(2) by (intro notI) simp
  ultimately have s: "negative (scalbnf r e) \<longleftrightarrow> negative x" "rounds_to (mval (mag x) * 2 ^ nat (- e)) (nat (- e)) (mag (scalbnf r e))"
    using scalbnf_rounds [of r e] r(1,4) by (simp_all add: ieee_scale_def)
  have "rounds_to (mval (mag x) * 2 ^ nat (- e)) (nat (- e)) (mag x)" using True by (intro rounds_to_exact) (simp add: is_finite_def)
  then show ?thesis unfolding ldexpf_def using s rounds_to_unique by (intro float_eqI) blast+
next
  case False
  then have "r = x" "e = 0" using f assms(1) by (auto simp: ieee_frexp_def)
  then show ?thesis using scalbnf_rounds [of x 0] False assms(1) by (auto simp: ldexpf_def ieee_scale_def)
qed

text \<open>
  C24. \<^verbatim>\<open>frexpf\<close> splits a finite number exactly into a fraction between a half and one, with its sign, and a power of two;
  zeros and infinities give themselves with exponent 0. Putting the parts together with \<^verbatim>\<open>ldexpf\<close> gives the number back.
\<close>

theorem frexpf_roundtrip:
  "ieee_frexp x (fst (frexpf x)) (snd (frexpf x)) \<and> (is_nan x \<or> ldexpf (fst (frexpf x)) (snd (frexpf x)) = x)"
  using frexpf_split frexpf_ldexpf by blast

end
