(* ===== verification/Libm_Trig.thy ===== *)
theory Libm_Trig
  imports Libm_Fmod
begin

text \<open>
  Sine and cosine of the target, \<^verbatim>\<open>sincosf_tiny.c\<close>: a reduction by multiples of \<open>\<pi>/2\<close> and two polynomials. The operators are
  calls of the software floating point. An \<^verbatim>\<open>int\<close> has 16 bits; a conversion goes through the 32-bit one.
\<close>

section \<open>The functions\<close>

definition pio2_hi :: u32 where "pio2_hi = 0x3FC90FDB"
definition pio2_lo :: u32 where "pio2_lo = 0xB33BBD2E"
definition invpio2 :: u32 where "invpio2 = 0x3F22F983"
definition S1 :: u32 where "S1 = 0xBE2AAAAB"
definition S2 :: u32 where "S2 = 0x3C088889"
definition S3 :: u32 where "S3 = 0xB9500D01"
definition C1 :: u32 where "C1 = 0xBF000000"
definition C2 :: u32 where "C2 = 0x3D2AAAAB"
definition C3 :: u32 where "C3 = 0xBAB60B61"
definition half_f :: u32 where "half_f = 0x3F000000"

definition kernel_sinf :: "u32 \<Rightarrow> u32" where
  "kernel_sinf x =
    (let x2 = mulsf3 x x
     in mulsf3 x (fadd one_f (mulsf3 x2 (fadd S1 (mulsf3 x2 (fadd S2 (mulsf3 x2 S3)))))))"

definition kernel_cosf :: "u32 \<Rightarrow> u32" where
  "kernel_cosf x =
    (let x2 = mulsf3 x x
     in fadd one_f (mulsf3 x2 (fadd C1 (mulsf3 x2 (fadd C2 (mulsf3 x2 C3))))))"

definition float_to_int :: "u32 \<Rightarrow> u16" where
  "float_to_int x = ucast (fixsfsi x)"

definition int_to_float :: "u16 \<Rightarrow> u32" where
  "int_to_float n = floatsisf (scast n)"

definition rem_pio2f :: "u32 \<Rightarrow> u16 \<times> u32" where
  "rem_pio2f x =
    (let ix = x AND 0x7FFFFFFF;
         sign = (drop_bit 31 x \<noteq> 0);
         z = (if sign then negsf2 x else x)
     in if ix \<le> 0x3F490FDB then (0, x)
        else let fn = fadd (mulsf3 z invpio2) half_f;
                 n = float_to_int fn;
                 fn = int_to_float n;
                 z = fsub (fsub z (mulsf3 fn pio2_hi)) (mulsf3 fn pio2_lo)
             in (if sign then - n else n, if sign then negsf2 z else z))"

definition sinf :: "u32 \<Rightarrow> u32" where
  "sinf x =
    (let (n, y) = rem_pio2f x; k = n AND 3
     in if k = 0 then kernel_sinf y
        else if k = 1 then kernel_cosf y
        else if k = 2 then negsf2 (kernel_sinf y)
        else negsf2 (kernel_cosf y))"

definition cosf :: "u32 \<Rightarrow> u32" where
  "cosf x =
    (let (n, y) = rem_pio2f x; k = n AND 3
     in if k = 0 then kernel_cosf y
        else if k = 1 then negsf2 (kernel_sinf y)
        else if k = 2 then negsf2 (kernel_cosf y)
        else kernel_sinf y)"

section \<open>Floats up to patterns that are not numbers\<close>

definition same_float :: "u32 \<Rightarrow> u32 \<Rightarrow> bool" where
  "same_float a b \<longleftrightarrow> a = b \<or> is_nan a \<and> is_nan b"

lemma same_float_refl [simp, intro!]: "same_float a a"
  by (simp add: same_float_def)

lemma same_float_trans [trans]: "same_float a b \<Longrightarrow> same_float b c \<Longrightarrow> same_float a c"
  by (auto simp: same_float_def)

text \<open>The specifications of product and sum leave open only the pattern of a result that is not a number.\<close>

lemma product_unique:
  assumes "ieee_product a b r" and "ieee_product a b r'"
  shows "same_float r r'"
  using assms rounds_to_unique
  by (auto simp: ieee_product_def same_float_def is_finite_def split: if_splits intro!: float_eqI)

lemma negsf2_class [simp]:
  "is_nan (negsf2 a) \<longleftrightarrow> is_nan a" "is_finite (negsf2 a) \<longleftrightarrow> is_finite a" "negsf2 (negsf2 a) = a"
  by (simp_all add: is_nan_def is_finite_def negsf2_fields float_eqI)

lemma mul_neg: "same_float (mulsf3 (negsf2 a) b) (negsf2 (mulsf3 a b))"
proof (rule product_unique [OF mul_nearest])
  show "ieee_product (negsf2 a) b (negsf2 (mulsf3 a b))"
    using mul_nearest [of a b] unfolding ieee_product_def by (simp add: negsf2_fields split: if_splits)
qed

lemma mul_neg_neg: "same_float (mulsf3 (negsf2 a) (negsf2 b)) (mulsf3 a b)"
proof (rule product_unique [OF mul_nearest])
  show "ieee_product (negsf2 a) (negsf2 b) (mulsf3 a b)"
    using mul_nearest [of a b] unfolding ieee_product_def by (simp add: negsf2_fields split: if_splits)
qed

lemma mul_cong: "same_float a a' \<Longrightarrow> same_float b b' \<Longrightarrow> same_float (mulsf3 a b) (mulsf3 a' b')"
  using mul_nearest [of a b] mul_nearest [of a' b'] by (auto simp: same_float_def ieee_product_def)

lemma add_cong: "same_float a a' \<Longrightarrow> same_float b b' \<Longrightarrow> same_float (fadd a b) (fadd a' b')"
  using add_nearest [of a b] add_nearest [of a' b'] by (auto simp: same_float_def fadd_def addsf3_def ieee_sum_def Let_def)

lemma neg_cong: "same_float a b \<Longrightarrow> same_float (negsf2 a) (negsf2 b)"
  by (auto simp: same_float_def)

lemmas same_float_cong = mul_cong add_cong neg_cong

section \<open>Symmetry\<close>

lemma kernel_sinf_neg: "same_float (kernel_sinf (negsf2 x)) (negsf2 (kernel_sinf x))"
proof -
  have "same_float (kernel_sinf (negsf2 x)) (mulsf3 (negsf2 x)
      (fadd one_f (mulsf3 (mulsf3 x x) (fadd S1 (mulsf3 (mulsf3 x x) (fadd S2 (mulsf3 (mulsf3 x x) S3)))))))"
    unfolding kernel_sinf_def Let_def by (intro same_float_cong same_float_refl mul_neg_neg)
  also have "same_float \<dots> (negsf2 (kernel_sinf x))" unfolding kernel_sinf_def Let_def by (rule mul_neg)
  finally show ?thesis .
qed

lemma kernel_cosf_neg: "same_float (kernel_cosf (negsf2 x)) (kernel_cosf x)"
  unfolding kernel_cosf_def Let_def by (intro same_float_cong same_float_refl mul_neg_neg)

lemma sign_shift: "drop_bit 31 x \<noteq> 0 \<longleftrightarrow> negative x" for x :: u32
proof -
  have "unat (drop_bit 31 x) = (if negative x then 1 else 0)" using unat_split [of x] mag_lt [of x] by (auto simp: unat_drop_bit intro: div_nat_eqI)
  then show ?thesis by (auto simp: word_unat_eq_iff)
qed

lemma rem_pio2f_neg: "rem_pio2f (negsf2 x) = (- fst (rem_pio2f x), negsf2 (snd (rem_pio2f x)))"
proof -
  have "negsf2 x AND 0x7FFFFFFF = x AND 0x7FFFFFFF"
    using abs_unat [of x] abs_unat [of "negsf2 x"] by (simp add: word_unat_eq_iff negsf2_fields fp_consts)
  then show ?thesis unfolding rem_pio2f_def Let_def sign_shift by (simp add: negsf2_fields)
qed

lemma mod4_neg:
  fixes p q :: nat
  assumes "p < 4" and "q < 4" and "(p + q) mod 4 = 0"
  shows "p = 0 \<and> q = 0 \<or> p = 1 \<and> q = 3 \<or> p = 2 \<and> q = 2 \<or> p = 3 \<and> q = 1"
  using assms by presburger

lemma quadrant_neg:
  fixes n :: u16
  obtains "n AND 3 = 0" and "- n AND 3 = 0" | "n AND 3 = 1" and "- n AND 3 = 3" | "n AND 3 = 2" and "- n AND 3 = 2"
  | "n AND 3 = 3" and "- n AND 3 = 1"
proof -
  have t: "unat (w AND 3) = unat w mod 4" for w :: u16 using unat_and_mask [of w 2] by (simp add: mask_eq_exp_minus_1)
  have "unat (n + - n) = (unat n + unat (- n)) mod 65536" by (simp only: unat_word_ariths) simp
  then have "(unat n + unat (- n)) mod 65536 mod 4 = 0" by simp
  then have "(unat n + unat (- n)) mod 4 = 0" by (simp add: mod_mod_cancel)
  then have "(unat n mod 4 + unat (- n) mod 4) mod 4 = 0" by (simp only: mod_add_eq)
  then have z: "(unat (n AND 3) + unat (- n AND 3)) mod 4 = 0" by (simp only: t)
  have "unat (n AND 3) < 4" "unat (- n AND 3) < 4" by (simp_all add: t)
  note mod4_neg [OF this z]
  moreover have "unat w = 0 \<longleftrightarrow> w = 0" "unat w = 1 \<longleftrightarrow> w = 1" "unat w = 2 \<longleftrightarrow> w = 2" "unat w = 3 \<longleftrightarrow> w = 3" for w :: u16
    by (simp_all add: word_unat_eq_iff)
  ultimately show ?thesis using that by (simp only:) blast
qed

lemma sincos_neg: "same_float (sinf (negsf2 x)) (negsf2 (sinf x)) \<and> same_float (cosf (negsf2 x)) (cosf x)"
proof -
  obtain n y where r: "rem_pio2f x = (n, y)" by (cases "rem_pio2f x")
  have q: "rem_pio2f (negsf2 x) = (- n, negsf2 y)" using rem_pio2f_neg [of x] by (simp add: r)
  have c: "same_float (negsf2 (kernel_cosf (negsf2 y))) (negsf2 (kernel_cosf y))" by (intro neg_cong kernel_cosf_neg)
  have s: "same_float (negsf2 (kernel_sinf (negsf2 y))) (kernel_sinf y)" using neg_cong [OF kernel_sinf_neg [of y]] by simp
  show ?thesis
    by (cases rule: quadrant_neg [of n]) (simp_all add: sinf_def cosf_def r q Let_def kernel_sinf_neg kernel_cosf_neg c s)
qed

text \<open>
  Sine is an odd function and cosine an even one, bit for bit and for all arguments, however inexact the reduction: only
  the pattern of a result that is not a number may differ.
\<close>

theorem sincos_symmetric: "same_float (sinf (negsf2 x)) (negsf2 (sinf x)) \<and> same_float (cosf (negsf2 x)) (cosf x)"
  by (rule sincos_neg)

section \<open>Large arguments\<close>

lemma mul_eval: "ieee_product a b c \<Longrightarrow> \<not> is_nan c \<Longrightarrow> mulsf3 a b = c"
  using product_unique [OF mul_nearest] by (auto simp: same_float_def)

lemma sum_unique:
  assumes "ieee_sum a b r" and "ieee_sum a b r'"
  shows "same_float r r'"
  using assms rounds_to_unique
  by (auto simp: ieee_sum_def Let_def same_float_def split: if_splits intro!: float_eqI)

lemma add_eval: "ieee_sum a b c \<Longrightarrow> \<not> is_nan c \<Longrightarrow> fadd a b = c"
  using sum_unique [OF add_nearest] by (auto simp: same_float_def fadd_def addsf3_def)

lemmas eval_defs = ieee_product_def ieee_sum_def Let_def is_nan_def is_finite_def inf_mag_def mag_def negative_def fval_def mval_def
  rounds_to_def fp_consts

lemma polynomial_large:
  "mulsf3 0x47C90FDB 0x47C90FDB = 1344137703" "mulsf3 1344137703 S3 = 3389019665" "fadd S2 3389019665 = 3389019665"
  "mulsf3 1344137703 3389019665 = 3667809301" "fadd S1 3667809301 = 3667809301" "mulsf3 1344137703 3667809301 = 3947058293"
  "fadd one_f 3947058293 = 3947058293" "mulsf3 0x47C90FDB 3947058293 = 4086917481"
  by ((rule mul_eval add_eval; simp add: eval_defs S1_def S2_def S3_def one_f_def)+)

lemma fsub_add: "fsub a b = fadd a (negsf2 b)"
  by (simp add: fsub_def fadd_def subsf3_def negsf2_def)

lemma reduction_large:
  "mulsf3 0x47C90FDB invpio2 = 1199570944" "fadd 1199570944 half_f = 1199571008" "mulsf3 0 pio2_hi = 0" "mulsf3 0 pio2_lo = 0x80000000"
  "fadd 0x47C90FDB 0x80000000 = 0x47C90FDB" "fadd 0x47C90FDB 0 = 0x47C90FDB"
  by ((rule mul_eval add_eval; simp add: eval_defs invpio2_def half_f_def pio2_hi_def pio2_lo_def)+)

lemma conversion_large: "float_to_int 1199571008 = 0" "int_to_float 0 = 0" "negsf2 0 = 0x80000000" "negsf2 0x80000000 = 0"
  by (simp_all add: float_to_int_def int_to_float_def fixsfsi_def fixint_def floatsisf_def Let_def fp_consts negsf2_def)

lemma rem_large: "rem_pio2f 0x47C90FDB = (0, 0x47C90FDB)"
  by (simp add: rem_pio2f_def Let_def reduction_large conversion_large fsub_add)

text \<open>
  The reduction counts multiples of \<open>\<pi>/2\<close> in an \<^verbatim>\<open>int\<close> of 16 bits, so it fails for large arguments: at 102943.7 the count wraps
  to 0, the argument is not reduced, and the polynomial gives a sine far below -1.
\<close>

theorem sinf_large_argument: "rem_pio2f 0x47C90FDB = (0, 0x47C90FDB) \<and> fval (sinf 0x47C90FDB) < - fval one_f"
proof -
  have "sinf 0x47C90FDB = 4086917481"
    by (simp add: sinf_def rem_large kernel_sinf_def Let_def polynomial_large)
  then show ?thesis using rem_large by (simp add: fval_def mag_def negative_def mval_def fp_consts one_f_def)
qed

end
