(* ===== verification/Softfloat_Scale.thy ===== *)
theory Softfloat_Scale
  imports Libm_Scale Libm_Trig
begin

text \<open>
  The copies of \<^verbatim>\<open>logb\<close>, \<^verbatim>\<open>scalbn\<close> and \<^verbatim>\<open>fmax\<close> that the software floating point has for itself (\<^verbatim>\<open>fp_lib.h\<close>), so that it
  does not depend on the mathematical library. \<^verbatim>\<open>int\<close> has 16 bits, which bounds the sum that \<^verbatim>\<open>scalbn\<close> checks for overflow.
  The comparisons of floats call \<^verbatim>\<open>__eqsf2\<close>, \<^verbatim>\<open>__nesf2\<close> and \<^verbatim>\<open>__ltsf2\<close>, which are names of \<^verbatim>\<open>__lesf2\<close>; a comparison
  with the literal \<^verbatim>\<open>0.0\<close> gives the same answer in every precision.
\<close>

section \<open>The functions\<close>

definition exponentMask :: u32 where
  "exponentMask = absMask XOR significandMask"

definition logbX :: "u32 \<Rightarrow> u32" where
  "logbX x =
    (let rep = x;
         exp = int (unat (drop_bit significandBits (rep AND exponentMask)))
     in if exp = maxExponent
        then if rep AND signBit = 0 \<or> lesf2 x x \<noteq> 0 then x else negsf2 x
        else if lesf2 x 0 = 0 then infRep OR signBit
        else if exp \<noteq> 0 then floatsisf (word_of_int (exp - exponentBias))
        else let rep = rep AND absMask;
                 (e, rep) = normalize rep;
                 shift = 1 - e;
                 exp = int (unat (drop_bit significandBits (rep AND exponentMask)))
             in floatsisf (word_of_int (exp - exponentBias - shift)))"

definition INT_MAX :: int where "INT_MAX = 32767"
definition INT_MIN :: int where "INT_MIN = - 32768"

definition scalbnX :: "u32 \<Rightarrow> int \<Rightarrow> u32" where
  "scalbnX x y =
    (let rep = x;
         exp = int (unat (drop_bit significandBits (rep AND exponentMask)))
     in if lesf2 x 0 = 0 \<or> exp = maxExponent then x
        else let sig = rep AND significandMask;
                 (exp, sig) =
                   (if exp = 0 then (case normalize sig of (e, sig) \<Rightarrow> (exp + e, sig AND NOT implicitBit)) else (exp, sig));
                 exp = (if exp + y < INT_MIN \<or> INT_MAX < exp + y then if y \<ge> 0 then INT_MAX else INT_MIN else exp + y);
                 sign = rep AND signBit
             in if exp \<ge> maxExponent
                then mulsf3 (sign OR push_bit significandBits (word_of_int (maxExponent - 1))) 0x40000000
                else if exp \<le> 0
                then let tmp = (sign OR push_bit significandBits 1) OR sig;
                         exp = exp + (exponentBias - 1);
                         exp = (if exp < 1 then 1 else exp)
                     in mulsf3 tmp (push_bit significandBits (word_of_int exp))
                else (sign OR push_bit significandBits (word_of_int exp)) OR sig)"

definition fmaxX :: "u32 \<Rightarrow> u32 \<Rightarrow> u32" where
  "fmaxX x y = (if isnanf x \<or> lesf2 x y < 0 then y else x)"

definition compiler_rt_logbf :: "u32 \<Rightarrow> u32" where "compiler_rt_logbf x = logbX x"
definition compiler_rt_scalbnf :: "u32 \<Rightarrow> int \<Rightarrow> u32" where "compiler_rt_scalbnf x y = scalbnX x y"
definition compiler_rt_fmaxf :: "u32 \<Rightarrow> u32 \<Rightarrow> u32" where "compiler_rt_fmaxf x y = fmaxX x y"

section \<open>Scaling\<close>

lemma exponent_of: "int (unat (drop_bit 23 (x AND exponentMask))) = int (mag x div 2 ^ 23)" for x
proof -
  have "exponentMask = 0x7F800000" by (simp add: exponentMask_def fp_consts)
  then show ?thesis unfolding exponentMask_def by (simp add: fp_consts fields del: of_nat_unat)
qed

lemma rounds_to_ratio:
  assumes "v * 2 ^ s' = v' * 2 ^ s"
  shows "rounds_to v s n \<longleftrightarrow> rounds_to v' s' n"
proof -
  have "rounds_to v s n \<longleftrightarrow> rounds_to (v * 2 ^ s') (s + s') n" by (simp only: rounds_to_scale)
  also have "\<dots> \<longleftrightarrow> rounds_to (v' * 2 ^ s) (s' + s) n" by (simp only: assms add.commute)
  finally show ?thesis by (simp only: rounds_to_scale)
qed

text \<open>The argument as a sign, a fraction of 23 bits and an exponent.\<close>

definition scalb_operand :: "u32 \<Rightarrow> int \<times> u32" where
  "scalb_operand x =
    (let exp = int (mag x div 2 ^ 23); sig = x AND significandMask
     in if exp = 0 then (case normalize sig of (e, sig) \<Rightarrow> (exp + e, sig AND NOT implicitBit)) else (exp, sig))"

lemma or_clear_implicit: "unat (a OR implicitBit) = unat (a AND NOT implicitBit) + 2 ^ 23"
proof -
  have "a OR implicitBit = (a AND NOT implicitBit) OR implicitBit" by (rule bit_word_eqI) (auto simp: bit_or_iff bit_and_iff bit_not_iff)
  moreover have "(a AND NOT implicitBit) AND implicitBit = 0" by (rule bit_word_eqI) (auto simp: bit_and_iff bit_not_iff)
  then have "unat (a AND NOT implicitBit) AND unat implicitBit = 0" by (simp flip: unsigned_and_eq)
  ultimately have "unat (a OR implicitBit) = unat (a AND NOT implicitBit) + unat implicitBit"
    by (simp add: unsigned_or_eq disjunctive_add_eq_or)
  then show ?thesis by (simp add: fp_consts)
qed

lemma clear_implicit: "unat a < 2 ^ 23 \<Longrightarrow> a AND NOT implicitBit = a"
proof -
  assume "unat a < 2 ^ 23"
  then have "unat a div 2 ^ 23 = 0" by simp
  then have "\<not> bit a 23" using bit_unsigned_iff [of a 23, where 'a = nat] bit_iff_odd [of "unat a" 23] by simp
  then show ?thesis by (intro bit_word_eqI) (auto simp: bit_and_iff bit_not_iff bit_implicit)
qed

lemma scalb_operand:
  assumes x: "0 < mag x" "mag x < inf_mag" and o: "scalb_operand x = (k, sig)"
  shows "- 22 \<le> k" and "k \<le> 254" and "unat sig < 2 ^ 23"
    and "mval (mag x) * 2 ^ 25 = (2 ^ 23 + unat sig) * 2 ^ nat (k + 24)"
proof -
  have u: "unpack x = (if mag x div 2 ^ 23 = 0 then normalize (x AND significandMask) else (int (mag x div 2 ^ 23), x AND significandMask))"
    by (simp add: unpack_def Let_def fields)
  obtain e m where v: "unpack x = (e, snd (unpack x))" "unat (snd (unpack x) OR implicitBit) = m" "2 ^ 23 \<le> m" "m < 2 ^ 24"
    "- 22 \<le> e" "e \<le> 254" "mval (mag x) * 2 ^ 24 = m * 2 ^ nat (e + 23)" using unpack_val [OF x] .
  have s: "unat (x AND significandMask) < 2 ^ 23" by (simp add: fields)
  have "k = e \<and> sig = snd (unpack x) AND NOT implicitBit"
  proof (cases "mag x div 2 ^ 23 = 0")
    case True
    then show ?thesis using o u v(1) by (auto simp: scalb_operand_def Let_def split: prod.splits)
  next
    case False
    then have "k = e" "sig = x AND significandMask" "snd (unpack x) = x AND significandMask"
      using o u v(1) by (auto simp: scalb_operand_def Let_def)
    then show ?thesis using clear_implicit [OF s] by simp
  qed
  then have ke: "k = e" "unat sig = m - 2 ^ 23" using or_clear_implicit [of "snd (unpack x)"] v(2) by simp_all
  show "- 22 \<le> k" "k \<le> 254" "unat sig < 2 ^ 23" using v ke by simp_all
  have "nat (k + 24) = Suc (nat (e + 23))" using v(5) ke(1) by simp
  then show "mval (mag x) * 2 ^ 25 = (2 ^ 23 + unat sig) * 2 ^ nat (k + 24)" using v(3,7) ke(2) by simp
qed

lemma with_exponent:
  fixes x sig :: u32
  assumes "0 \<le> k" and "k \<le> 254" and "unat sig < 2 ^ 23"
  defines "y \<equiv> ((x AND signBit) OR push_bit 23 (word_of_int k)) OR sig"
  shows "mag y = nat k * 2 ^ 23 + unat sig" and "negative y \<longleftrightarrow> negative x"
proof -
  have "sig AND significandMask = sig"
    using assms(3) unat_and_mask [of sig 23] by (simp add: word_unat_eq_iff fp_consts mask_eq_exp_minus_1)
  then have "y = ((sig AND significandMask) OR push_bit 23 (word_of_int k)) OR (if negative x then signBit else 0)"
    by (simp only: y_def sign_of or.assoc or.commute or.left_commute)
  then have "unat y = (if negative x then 2 ^ 31 else 0) + (nat k * 2 ^ 23 + unat sig)"
    using unat_pack [of k "if negative x then signBit else 0" "negative x" sig] assms(1-3) by simp
  moreover have "nat k * 2 ^ 23 \<le> 254 * 2 ^ 23" using assms by simp
  then have "nat k * 2 ^ 23 + unat sig < 2 ^ 31" using assms(3) by simp
  ultimately show "mag y = nat k * 2 ^ 23 + unat sig" "negative y \<longleftrightarrow> negative x" using mag_of_unat [of y] by blast+
qed

lemma scalbnX_finite:
  assumes x: "0 < mag x" "mag x < inf_mag" and o: "scalb_operand x = (k, sig)"
  shows "scalbnX x n =
    (if k + n \<ge> 255 then mulsf3 ((x AND signBit) OR push_bit 23 (word_of_int 254)) 0x40000000
     else if k + n \<le> 0
     then mulsf3 (((x AND signBit) OR push_bit 23 (word_of_int 1)) OR sig) (push_bit 23 (word_of_int (max 1 (k + n + 126))))
     else ((x AND signBit) OR push_bit 23 (word_of_int (k + n))) OR sig)"
proof -
  note so = scalb_operand [OF x o]
  have c: "maxExponent = 255" "exponentBias = 127" by (simp_all add: fp_consts)
  have "mag x div 2 ^ 23 < 255" using x(2) by (simp add: inf_mag_def div_less_iff_less_mult)
  then have nm: "\<not> (lesf2 x 0 = 0 \<or> int (mag x div 2 ^ 23) = 255)" using x(1) by (simp add: lesf2_zero)
  note f = scalbnX_def [of x n, unfolded Let_def exponent_of c if_not_P [OF nm] scalb_operand_def [unfolded Let_def, symmetric] o prod.case]
  consider "k + n < - 32768" "n < 0" | "- 32768 \<le> k + n" "k + n \<le> 32767" | "32767 < k + n" "n \<ge> 0" using so(1,2) by linarith
  then show ?thesis unfolding f INT_MAX_def INT_MIN_def by cases (simp_all add: max_def)
qed

lemma power_two_float:
  assumes "1 \<le> e" and "e \<le> 254"
  shows "mag (push_bit 23 (word_of_int e)) = nat e * 2 ^ 23" and "\<not> negative (push_bit 23 (word_of_int e))"
  using with_exponent [of e 0 0] assms by (simp_all add: negative_def)

lemma scalbnX_rounds_finite:
  assumes x: "0 < mag x" "mag x < inf_mag"
  shows "(negative (scalbnX x n) \<longleftrightarrow> negative x) \<and> rounds_to (mval (mag x) * 2 ^ nat n) (nat (- n)) (mag (scalbnX x n))"
proof -
  obtain k sig where o: "scalb_operand x = (k, sig)" by (cases "scalb_operand x")
  note so = scalb_operand [OF x o]
  note f = scalbnX_finite [OF x o, of n]
  define w where "w = ((x AND signBit) OR push_bit 23 (word_of_int 0)) OR sig"
  have w: "mag w = unat sig" "negative w \<longleftrightarrow> negative x" using with_exponent [of 0 sig x] so(3) by (simp_all add: w_def)
  have X: "mval (mag x) * 2 ^ 25 = (2 ^ 23 + mag w mod 2 ^ 23) * 2 ^ nat (k + 24)" using so(3,4) w(1) by simp
  have sw: "(negative (scale_word w (k + n)) \<longleftrightarrow> negative x) \<and>
      rounds_to (mval (mag x) * 2 ^ nat n) (nat (- n)) (mag (scale_word w (k + n)))"
    using scale_word_rounds [of k "mval (mag x)" w n] so X w(2) by simp
  consider "k + n \<ge> 255" | "0 < k + n" "k + n \<le> 254" | "k + n \<le> 0" "- 125 \<le> k + n" | "k + n < - 125" by linarith
  then show ?thesis
  proof cases
    case 1
    define y where "y = (x AND signBit) OR push_bit 23 (word_of_int 254)"
    have y: "mag y = 254 * 2 ^ 23" "negative y \<longleftrightarrow> negative x" using with_exponent [of 254 0 x] by (simp_all add: y_def)
    have two: "mag 0x40000000 = 128 * 2 ^ 23" "\<not> negative 0x40000000" by (simp_all add: mag_def negative_def fp_consts)
    have fin: "is_finite y" by (simp add: is_finite_def y inf_mag_def)
    note mv = mul_value [OF two(1) _ _ two(2) fin]
    have "rounds_to (mval (mag y) * 2 ^ (128 + 22)) 149 inf_mag" by (rule rounds_to_overflow) (simp add: y(1) mval_def inf_mag_def)
    then have "mag (mulsf3 y 0x40000000) = inf_mag" using mv(1) rounds_to_unique by simp
    moreover have "scale_word w (k + n) = math_oflowf (negative w)" using 1 by (simp add: scale_word_def)
    ultimately show ?thesis using 1 sw mv(2) y(2) oflow_value by (simp add: f y_def)
  next
    case 2
    then have r: "mag (scalbnX x n) = nat (k + n) * 2 ^ 23 + unat sig" "negative (scalbnX x n) \<longleftrightarrow> negative x"
      using with_exponent [of "k + n" sig x] so(3) by (simp_all add: f)
    have "mag (scale_word w (k + n)) = nat (k + n) * 2 ^ 23 + unat sig"
      using 2 replace_exponent [of "k + n" w] w(1) so(3) by (simp add: scale_word_def)
    then show ?thesis using r sw by simp
  next
    case 3
    define y c where "y = ((x AND signBit) OR push_bit 23 (word_of_int 1)) OR sig" and "c = push_bit 23 (word_of_int (k + n + 126) :: u32)"
    have y: "mag y = 1 * 2 ^ 23 + unat sig" "negative y \<longleftrightarrow> negative x" using with_exponent [of 1 sig x] so(3) by (simp_all add: y_def)
    have yv: "mval (mag y) = 2 ^ 23 + unat sig" unfolding y(1) using mval_normal [of 1 "unat sig"] so(3) by simp
    have fin: "is_finite y" using so(3) by (simp add: is_finite_def y inf_mag_def)
    have c: "mag c = nat (k + n + 126) * 2 ^ 23" "\<not> negative c" unfolding c_def using 3 power_two_float [of "k + n + 126"] by simp_all
    have b: "1 \<le> nat (k + n + 126)" "nat (k + n + 126) \<le> 254" using 3 by simp_all
    have r: "scalbnX x n = mulsf3 y c" using 3 by (simp add: f y_def c_def max_def)
    note mv = mul_value [OF c(1) b c(2) fin]
    have "mval (mag y) * 2 ^ (nat (k + n + 126) + 22) * 2 ^ nat (- n) = mval (mag x) * 2 ^ nat n * 2 ^ 149"
    proof -
      have "nat (k + n + 126) + 22 + nat (- n) = nat (k + 24) + nat n + 124" using 3 so(1) by simp
      then have "mval (mag y) * 2 ^ (nat (k + n + 126) + 22) * 2 ^ nat (- n) = (2 ^ 23 + unat sig) * 2 ^ nat (k + 24) * (2 ^ nat n * 2 ^ 124)"
        unfolding yv by (simp only: mult.assoc add.assoc flip: power_add)
      also have "\<dots> = mval (mag x) * 2 ^ 25 * (2 ^ nat n * 2 ^ 124)" unfolding so(4) ..
      also have "\<dots> = mval (mag x) * 2 ^ nat n * (2 ^ 25 * 2 ^ 124)" by (simp only: mult_ac)
      finally show ?thesis by (simp flip: power_add)
    qed
    from rounds_to_ratio [OF this, of "mag (mulsf3 y c)"] mv show ?thesis using y(2) by (simp add: r)
  next
    case 4
    define y where "y = ((x AND signBit) OR push_bit 23 (word_of_int 1)) OR sig"
    have y: "mag y = 1 * 2 ^ 23 + unat sig" "negative y \<longleftrightarrow> negative x" using with_exponent [of 1 sig x] so(3) by (simp_all add: y_def)
    have yv: "mval (mag y) = 2 ^ 23 + unat sig" unfolding y(1) using mval_normal [of 1 "unat sig"] so(3) by simp
    have fin: "is_finite y" using so(3) by (simp add: is_finite_def y inf_mag_def)
    have r: "scalbnX x n = mulsf3 y (push_bit 23 (word_of_int 1))" using 4 by (simp add: f y_def max_def)
    have one: "mag (push_bit 23 (word_of_int 1)) = 1 * 2 ^ 23" "\<not> negative (push_bit 23 (word_of_int 1))" using power_two_float [of 1] by simp_all
    note mv = mul_value [OF one(1) _ _ one(2) fin]
    have "rounds_to (mval (mag y) * 2 ^ (1 + 22)) 149 0" unfolding yv using so(3) by (simp add: rounds_to_def mval_def)
    then have "mag (scalbnX x n) = 0" using mv(1) rounds_to_unique unfolding r by simp
    moreover have "scale_word w (k + n) = math_uflowf (negative w)" using 4 by (simp add: scale_word_def)
    ultimately show ?thesis using sw mv(2) y(2) uflow_value by (simp add: r)
  qed
qed

lemma scale_unique:
  assumes "ieee_scale x n r" and "ieee_scale x n r'"
  shows "same_float r r'"
  using assms rounds_to_unique by (auto simp: ieee_scale_def same_float_def split: if_splits intro!: float_eqI)

lemma scalbnX_rounds: "ieee_scale x n (scalbnX x n)"
proof (cases "0 < mag x \<and> mag x < inf_mag")
  case True
  then show ?thesis using scalbnX_rounds_finite [of x n] by (simp add: ieee_scale_def is_nan_def is_finite_def)
next
  case False
  have "mag x div 2 ^ 23 = 255" if "mag x \<noteq> 0"
    using that False mag_lt [of x] by (intro div_nat_eqI) (simp_all add: inf_mag_def)
  then have "scalbnX x n = x" unfolding scalbnX_def Let_def exponent_of fp_consts(1) lesf2_zero by auto
  then show ?thesis using False by (auto simp: ieee_scale_def is_nan_def is_finite_def)
qed

text \<open>
  C25. The private \<^verbatim>\<open>scalbn\<close> of the run-time library and the one of the mathematical library, written independently, agree bit for
  bit on all arguments and exponents, up to the pattern of a result that is not a number, and round correctly.
\<close>

theorem scalbn_copies_agree: "ieee_scale x n (compiler_rt_scalbnf x n) \<and> same_float (compiler_rt_scalbnf x n) (scalbnf x n)"
  unfolding compiler_rt_scalbnf_def using scalbnX_rounds scale_unique scalbnf_rounds by blast

section \<open>Exponent and maximum\<close>

lemma float_small_int:
  assumes "\<bar>n\<bar> \<le> 2 ^ 24"
  defines "f \<equiv> floatsisf (word_of_int n)"
  shows "is_finite f" and "fval f = n * 2 ^ 149"
proof -
  have s: "sint (word_of_int n :: u32) = n" using assms(1) by (simp only: sint_sbintrunc') (intro signed_take_bit_int_eq_self; simp)
  define N where "N = nat \<bar>n\<bar>"
  obtain m where m: "m < inf_mag" "mval m = N * 2 ^ 149" using representable [of N] assms(1) by (auto simp: N_def nat_le_iff)
  have r: "rounds_to (N * 2 ^ 149) 0 (mag f)" "negative f \<longleftrightarrow> n < 0"
    using float_of_int_rounds [of "word_of_int n"] by (simp_all add: f_def s N_def)
  have "rounds_to (N * 2 ^ 149) 0 m" using rounds_to_exact [of m 0] m by simp
  then have "mag f = m" using r(1) rounds_to_unique by blast
  then show "is_finite f" "fval f = n * 2 ^ 149" using m r(2) by (auto simp: is_finite_def fval_def N_def)
qed

definition ieee_logb :: "u32 \<Rightarrow> u32 \<Rightarrow> bool" where
  "ieee_logb x r \<longleftrightarrow>
    (if is_nan x then is_nan r
     else if mag x = inf_mag then r = infRep
     else if mag x = 0 then r = infRep OR signBit
     else is_finite r \<and> (\<exists>e. 2 ^ e \<le> mval (mag x) \<and> mval (mag x) < 2 ^ Suc e \<and> fval r = (int e - 149) * 2 ^ 149))"

lemma logbX_spec: "ieee_logb x (logbX x)"
proof -
  define E where "E = mag x div 2 ^ 23"
  have c: "maxExponent = 255" "exponentBias = 127" by (simp_all add: fp_consts)
  note f = logbX_def [of x, unfolded Let_def exponent_of c lesf2_zero E_def [symmetric]]
  consider "inf_mag \<le> mag x" | "mag x = 0" | "0 < mag x" "mag x < 2 ^ 23" | "2 ^ 23 \<le> mag x" "mag x < inf_mag" by linarith
  then show ?thesis
  proof cases
    case 1
    have "E = 255" unfolding E_def using 1 mag_lt [of x] by (intro div_nat_eqI) (simp_all add: inf_mag_def)
    moreover have "lesf2 x x \<noteq> 0 \<longleftrightarrow> is_nan x" by (simp add: lesf2_value)
    moreover have "rep AND signBit = 0 \<longleftrightarrow> \<not> negative rep" for rep by (simp add: negative_def)
    ultimately have "logbX x = (if \<not> negative x \<or> is_nan x then x else negsf2 x)" by (simp add: f)
    moreover have "mag infRep = inf_mag" "\<not> negative infRep" by (simp_all add: mag_def negative_def fp_consts inf_mag_def)
    ultimately show ?thesis using 1 by (auto simp: ieee_logb_def is_nan_def negsf2_fields intro!: float_eqI)
  next
    case 2
    then show ?thesis by (simp add: f E_def ieee_logb_def is_nan_def inf_mag_def)
  next
    case 3
    define s where "s = x AND absMask"
    have s: "s \<noteq> 0" "unat s < 2 ^ 23" "unat s = mag x" using 3 abs_unat [of x] by (auto simp: s_def)
    obtain sh where n: "normalize s = (1 - int sh, push_bit sh s)" "unat (push_bit sh s) = unat s * 2 ^ sh"
      "sh \<le> 23" "2 ^ 23 \<le> unat s * 2 ^ sh" "unat s * 2 ^ sh < 2 ^ 24" using normalize_value [OF s(1,2)] .
    have "mag (push_bit sh s) = unat s * 2 ^ sh" using mag_small [of "push_bit sh s"] n(2,5) by simp
    then have "mag (push_bit sh s) div 2 ^ 23 = 1" using n(4,5) by (simp add: div_nat_eqI)
    then have l: "logbX x = floatsisf (word_of_int (- 126 - int sh))"
      using 3 by (simp add: f E_def exponent_of flip: s_def) (simp add: n(1) exponent_of)
    have p: "2 ^ (23 - sh) * 2 ^ sh = (2::nat) ^ 23" "2 ^ Suc (23 - sh) * 2 ^ sh = (2::nat) ^ 24" using n(3) by (simp_all flip: power_add power_Suc)
    have "2 ^ (23 - sh) * 2 ^ sh \<le> mag x * 2 ^ sh" "mag x * 2 ^ sh < 2 ^ Suc (23 - sh) * 2 ^ sh" unfolding p using n(4,5) s(3) by simp_all
    then have "2 ^ (23 - sh) \<le> mag x" "mag x < 2 ^ Suc (23 - sh)" by simp_all
    moreover have "mval (mag x) = mag x" using 3 by (simp add: mval_subnormal)
    moreover have "int (23 - sh) - 149 = - 126 - int sh" using n(3) by simp
    ultimately show ?thesis using 3 float_small_int [of "- 126 - int sh"] n(3) unfolding l ieee_logb_def
      by (auto simp: is_nan_def inf_mag_def intro!: exI [of _ "23 - sh"])
  next
    case 4
    have "0 < E" "E < 255" using 4 by (simp_all add: inf_mag_def E_def div_greater_zero_iff div_less_iff_less_mult)
    then have l: "logbX x = floatsisf (word_of_int (int E - 127))" using 4 by (simp add: f)
    have v: "mval (mag x) = (2 ^ 23 + mag x mod 2 ^ 23) * 2 ^ (E - 1)" using 4 by (simp add: mval_def E_def)
    have "2 ^ 23 * 2 ^ (E - 1) \<le> mval (mag x)" "mval (mag x) < 2 ^ 24 * 2 ^ (E - 1)" unfolding v by simp_all
    moreover have "2 ^ 23 * 2 ^ (E - 1) = (2::nat) ^ (E + 22)" "2 ^ 24 * 2 ^ (E - 1) = (2::nat) ^ Suc (E + 22)"
      using \<open>0 < E\<close> by (cases E; simp add: power_add)+
    ultimately show ?thesis using 4 float_small_int [of "int E - 127"] \<open>E < 255\<close> unfolding l ieee_logb_def
      by (auto simp: is_nan_def is_finite_def intro!: exI [of _ "E + 22"])
  qed
qed

text \<open>
  \<^verbatim>\<open>__compiler_rt_logbf\<close> returns the binary exponent of every finite number, subnormal ones included, and the infinities IEEE-754
  asks for; \<^verbatim>\<open>__compiler_rt_fmaxf\<close> returns the greater argument and prefers a number to a pattern that is not one.
\<close>

theorem logbf_fmaxf_correct:
  "ieee_logb x (compiler_rt_logbf x) \<and>
   (if is_nan x then compiler_rt_fmaxf x y = y
    else if is_nan y then compiler_rt_fmaxf x y = x
    else compiler_rt_fmaxf x y \<in> {x, y} \<and> fval (compiler_rt_fmaxf x y) = max (fval x) (fval y))"
proof -
  have "isnanf x = is_nan x" by (simp add: isnanf_def uword_classes)
  then show ?thesis using logbX_spec [of x]
    by (auto simp: compiler_rt_logbf_def compiler_rt_fmaxf_def fmaxX_def lesf2_value sgn_if)
qed

end
