(* ===== verification/Softfloat_Half.thy ===== *)
theory Softfloat_Half
  imports Softfloat_Mul
begin

text \<open>
  Conversions between half and single precision: \<^verbatim>\<open>extendhfsf2.c\<close> with \<^verbatim>\<open>fp_extend.h\<close> and \<^verbatim>\<open>fp_extend_impl.inc\<close>, and
  \<^verbatim>\<open>truncsfhf2.c\<close> with \<^verbatim>\<open>fp_trunc.h\<close> and \<^verbatim>\<open>fp_trunc_impl.inc\<close>. Half precision numbers are 16-bit patterns with 5 bits of
  exponent and 10 of fraction. \<^verbatim>\<open>__builtin_clz\<close> takes an \<^verbatim>\<open>unsigned int\<close>, which has 16 bits here. A shift by a negative count is
  undefined and has the result \<open>None\<close>. The branches for formats with exponents of equal size are not taken for these two.
\<close>

section \<open>Half to single\<close>

definition builtin_clz :: "u16 \<Rightarrow> int" where
  "builtin_clz a = 16 - int (bitlen (unat a))"

definition src_rep_t_clz :: "u16 \<Rightarrow> int" where
  "src_rep_t_clz a = builtin_clz a - 16"

definition extract_sign_from_half :: "u16 \<Rightarrow> u16" where
  "extract_sign_from_half x = drop_bit (16 - 1) (x AND push_bit (16 - 1) 1)"

definition extract_exp_from_half :: "u16 \<Rightarrow> u16" where
  "extract_exp_from_half x = drop_bit 10 (x AND push_bit 10 (push_bit 5 1 - 1))"

definition extract_sig_frac_from_half :: "u16 \<Rightarrow> u16" where
  "extract_sig_frac_from_half x = x AND (push_bit 10 1 - 1)"

definition clz_in_sig_frac :: "u16 \<Rightarrow> int" where
  "clz_in_sig_frac sigFrac = src_rep_t_clz sigFrac - (1 + 5)"

definition construct_single :: "u32 \<Rightarrow> u32 \<Rightarrow> u32 \<Rightarrow> u32" where
  "construct_single sign exp sigFrac = (push_bit (32 - 1) sign OR push_bit (32 - 1 - 8) exp) OR sigFrac"

definition extendXfYf2 :: "u16 \<Rightarrow> u32 option" where
  "extendXfYf2 aRep =
    (let srcInfExp = push_bit 5 1 - 1;
         srcExpBias = drop_bit 1 srcInfExp;
         dstInfExp = push_bit 8 1 - 1;
         dstExpBias = drop_bit 1 dstInfExp;
         srcSign = extract_sign_from_half aRep;
         srcExp = extract_exp_from_half aRep;
         srcSigFrac = extract_sig_frac_from_half aRep;
         dstSign = ucast srcSign
     in if 1 \<le> srcExp \<and> srcExp < word_of_int srcInfExp
        then Some (construct_single dstSign (ucast srcExp + word_of_int (dstExpBias - srcExpBias)) (push_bit (23 - 10) (ucast srcSigFrac)))
        else if srcExp = word_of_int srcInfExp
        then Some (construct_single dstSign (word_of_int dstInfExp) (push_bit (23 - 10) (ucast srcSigFrac)))
        else if srcSigFrac \<noteq> 0
        then let scale = clz_in_sig_frac srcSigFrac + 1;
                 shift = 23 - 10 + scale
             in if shift < 0 then None
                else Some (construct_single dstSign (word_of_int (dstExpBias - srcExpBias - scale + 1))
                       (push_bit (nat shift) (ucast srcSigFrac) XOR push_bit (32 - 1 - 8) 1))
        else Some (construct_single dstSign 0 0))"

definition extendhfsf2 :: "u16 \<Rightarrow> u32 option" where
  "extendhfsf2 a = extendXfYf2 a"

definition gnu_h2f_ieee :: "u16 \<Rightarrow> u32 option" where
  "gnu_h2f_ieee a = extendhfsf2 a"

section \<open>Single to half\<close>

definition extract_sign_from_single :: "u32 \<Rightarrow> u32" where
  "extract_sign_from_single x = drop_bit (32 - 1) (x AND push_bit (32 - 1) 1)"

definition extract_exp_from_single :: "u32 \<Rightarrow> u32" where
  "extract_exp_from_single x = drop_bit 23 (x AND push_bit 23 (push_bit 8 1 - 1))"

definition extract_sig_frac_from_single :: "u32 \<Rightarrow> u32" where
  "extract_sig_frac_from_single x = x AND (push_bit 23 1 - 1)"

definition construct_half :: "u16 \<Rightarrow> u16 \<Rightarrow> u16 \<Rightarrow> u16" where
  "construct_half sign exp sigFrac = (push_bit (16 - 1) sign OR push_bit (16 - 1 - 5) exp) OR sigFrac"

text \<open>The rounding that both branches for finite results end with.\<close>

definition round_half :: "u16 \<Rightarrow> u32 \<Rightarrow> u16 \<times> u16" where
  "round_half dstExp significand =
    (let roundMask = push_bit (23 - 10) 1 - 1;
         halfway = push_bit (23 - 10 - 1) 1;
         dstSigFrac = ucast (drop_bit (23 - 10) significand) :: u16;
         roundBits = significand AND roundMask;
         dstSigFrac = (if roundBits > halfway then dstSigFrac + 1
                       else if roundBits = halfway then dstSigFrac + (dstSigFrac AND 1) else dstSigFrac)
     in if dstSigFrac \<ge> push_bit 10 1 then (dstExp + 1, dstSigFrac XOR push_bit 10 1) else (dstExp, dstSigFrac))"

definition truncXfYf2 :: "u32 \<Rightarrow> u16" where
  "truncXfYf2 aRep =
    (let srcInfExp = push_bit 8 1 - 1;
         srcExpBias = drop_bit 1 srcInfExp;
         dstInfExp = push_bit 5 1 - 1;
         dstExpBias = drop_bit 1 dstInfExp;
         overflowExponent = srcExpBias + dstInfExp - dstExpBias;
         srcNaNCode = push_bit (23 - 1) 1 - 1;
         dstQNaN = push_bit (10 - 1) 1;
         dstNaNCode = dstQNaN - 1;
         srcSign = extract_sign_from_single aRep;
         srcExp = extract_exp_from_single aRep;
         srcSigFrac = extract_sig_frac_from_single aRep;
         dstSign = ucast srcSign;
         dstExpCandidate = (int (unat srcExp) - srcExpBias) + dstExpBias;
         (dstExp, dstSigFrac) =
           (if 1 \<le> dstExpCandidate \<and> dstExpCandidate < dstInfExp then round_half (word_of_int dstExpCandidate) srcSigFrac
            else if srcExp = word_of_int srcInfExp \<and> srcSigFrac \<noteq> 0
            then (word_of_int dstInfExp, dstQNaN OR (ucast (drop_bit (23 - 10) (srcSigFrac AND srcNaNCode)) AND dstNaNCode))
            else if int (unat srcExp) \<ge> overflowExponent then (word_of_int dstInfExp, 0)
            else let shift = srcExpBias - dstExpBias - int (unat srcExp);
                     (significand, shift) =
                       (if srcExp \<noteq> 0 then (srcSigFrac OR push_bit 23 1, shift + 1) else (srcSigFrac, shift))
                 in if shift > 23 then (0, 0)
                    else let sticky = (shift \<noteq> 0 \<and> push_bit (nat (32 - shift)) significand \<noteq> 0)
                         in round_half 0 (drop_bit (nat shift) significand OR of_bool sticky))
     in construct_half dstSign dstExp dstSigFrac)"

definition truncsfhf2 :: "u32 \<Rightarrow> u16" where
  "truncsfhf2 a = truncXfYf2 a"

definition gnu_f2h_ieee :: "u32 \<Rightarrow> u16" where
  "gnu_f2h_ieee a = truncsfhf2 a"

section \<open>Values of half precision\<close>

definition hmag :: "u16 \<Rightarrow> nat" where
  "hmag x = unat x mod 2 ^ 15"

definition hnegative :: "u16 \<Rightarrow> bool" where
  "hnegative x \<longleftrightarrow> bit x 15"

lemma half_eqI:
  assumes "hmag u = hmag w" and "hnegative u \<longleftrightarrow> hnegative w"
  shows "u = w"
proof -
  have "unat x = (if hnegative x then 2 ^ 15 else 0) + hmag x" for x :: u16
  proof -
    define d where "d = unat x div 2 ^ 15"
    have "bit x 15 \<longleftrightarrow> odd d" using bit_iff_odd [of "unat x" 15] by (simp add: d_def bit_unsigned_iff)
    moreover have "d < 2" using unat_lt2 [of x] by (simp add: d_def less_mult_imp_div_less)
    moreover have "unat x = d * 2 ^ 15 + hmag x" using div_mult_mod_eq [of "unat x" "2 ^ 15"] by (simp add: d_def hmag_def)
    ultimately show ?thesis unfolding hnegative_def by (cases d) auto
  qed
  then show ?thesis using assms by (simp add: word_unat_eq_iff)
qed

text \<open>The value of a magnitude, in units of the least subnormal number \<open>2\<^sup>-\<^sup>2\<^sup>4\<close>.\<close>

definition hval :: "nat \<Rightarrow> nat" where
  "hval n = float_value 10 n"

definition half_inf :: nat where
  "half_inf = 31 * 2 ^ 10"

lemma hval_Suc: "hval (Suc n) = hval n + 2 ^ (n div 2 ^ 10 - 1)"
  by (simp add: hval_def float_value_Suc)

interpretation half: float_format hval half_inf
  by unfold_locales (simp_all add: half_inf_def hval_def [abs_def] float_value_mono)

lemma hval_normal: "1 \<le> e \<Longrightarrow> f < 2 ^ 10 \<Longrightarrow> hval (e * 2 ^ 10 + f) = (2 ^ 10 + f) * 2 ^ (e - 1)"
  by (simp add: hval_def float_value_def)

lemma hval_subnormal: "n < 2 ^ 10 \<Longrightarrow> hval n = n"
  by (simp add: hval_def float_value_def)

section \<open>Rounding\<close>

text \<open>The patterns as sign, exponent and fraction.\<close>

lemma unat_field: "unat (drop_bit n (x AND push_bit n (mask k))) = unat x div 2 ^ n mod 2 ^ k" for x :: "'a::len word"
proof -
  have "drop_bit n (x AND push_bit n (mask k)) = take_bit k (drop_bit n x)"
    by (rule bit_word_eqI) (auto simp: bit_drop_bit_eq bit_and_iff bit_push_bit_iff bit_mask_iff bit_take_bit_iff dest: bit_imp_le_length)
  then show ?thesis by (simp only: unat_take_bit_mod unat_drop_bit)
qed

lemma sign_field: "drop_bit n (x AND push_bit n 1) = of_bool (bit x n)" for x :: "'a::len word"
  by (rule bit_word_eqI) (auto simp: bit_drop_bit_eq bit_and_iff bit_exp_iff bit_of_bool_iff dest: bit_imp_le_length)

lemma half_fields:
  "unat (extract_exp_from_half x) = hmag x div 2 ^ 10" "unat (extract_sig_frac_from_half x) = hmag x mod 2 ^ 10"
  "extract_sign_from_half x = of_bool (hnegative x)"
proof -
  have m: "push_bit 5 1 - 1 = (mask 5 :: u16)" "push_bit 10 1 - 1 = (mask 10 :: u16)" by (simp_all add: mask_eq_exp_minus_1)
  show "unat (extract_exp_from_half x) = hmag x div 2 ^ 10"
    unfolding extract_exp_from_half_def m unat_field hmag_def using div_exp_mod_exp_eq [of "unat x" 10 5] by simp
  show "unat (extract_sig_frac_from_half x) = hmag x mod 2 ^ 10"
    unfolding extract_sig_frac_from_half_def m unat_and_mask hmag_def using mod_exp_eq [of "unat x" 15 10] by (simp add: min_def)
  show "extract_sign_from_half x = of_bool (hnegative x)" unfolding extract_sign_from_half_def sign_field hnegative_def by simp
qed

lemma single_fields:
  "unat (extract_exp_from_single x) = mag x div 2 ^ 23" "unat (extract_sig_frac_from_single x) = mag x mod 2 ^ 23"
  "extract_sign_from_single x = of_bool (negative x)"
proof -
  have m: "push_bit 8 1 - 1 = (mask 8 :: u32)" "push_bit 23 1 - 1 = (mask 23 :: u32)" by (simp_all add: mask_eq_exp_minus_1)
  show "unat (extract_exp_from_single x) = mag x div 2 ^ 23"
    unfolding extract_exp_from_single_def m unat_field mag_mod using div_exp_mod_exp_eq [of "unat x" 23 8] by simp
  show "unat (extract_sig_frac_from_single x) = mag x mod 2 ^ 23"
    unfolding extract_sig_frac_from_single_def m unat_and_mask mag_mod using mod_exp_eq [of "unat x" 31 23] by (simp add: min_def)
  show "extract_sign_from_single x = of_bool (negative x)" unfolding extract_sign_from_single_def sign_field negative_bit by simp
qed

text \<open>A pattern put together from its fields.\<close>

lemma unat_construct:
  fixes e f :: "'a::len word"
  assumes "unat e < 2 ^ k" and "unat f < 2 ^ n" and "LENGTH('a) = n + k + 1"
  shows "unat ((push_bit (n + k) (of_bool p) OR push_bit n e) OR f) = (if p then 2 ^ (n + k) else 0) + (unat e * 2 ^ n + unat f)"
proof -
  have lt: "unat e * 2 ^ n < 2 ^ (n + k)" using assms(1) by (simp add: power_add mult.commute)
  then have e: "unat (push_bit n e) = unat e * 2 ^ n" unfolding unat_push_bit assms(3) by simp
  have s: "unat (push_bit (n + k) (of_bool p) :: 'a word) = of_bool p * 2 ^ (n + k)"
    unfolding unat_push_bit assms(3) by (cases p) simp_all
  have se: "unat (push_bit (n + k) (of_bool p) OR push_bit n e) = (of_bool p * 2 ^ k + unat e) * 2 ^ n"
    using unat_or_add [OF s, of "push_bit n e"] lt unfolding e s by (simp add: power_add algebra_simps)
  from unat_or_add [OF se assms(2)] show ?thesis unfolding se by (simp add: power_add algebra_simps)
qed

lemma construct_half_fields:
  assumes "unat e < 2 ^ 5" and "unat f < 2 ^ 10"
  shows "hmag (construct_half (of_bool p) e f) = unat e * 2 ^ 10 + unat f" and "hnegative (construct_half (of_bool p) e f) \<longleftrightarrow> p"
proof -
  define r where "r = construct_half (of_bool p) e f"
  have u: "unat r = (if p then 2 ^ 15 else 0) + (unat e * 2 ^ 10 + unat f)"
    using unat_construct [OF assms, of p] by (simp add: r_def construct_half_def)
  have lt: "unat e * 2 ^ 10 + unat f < 2 ^ 15" using assms by simp
  show "hmag r = unat e * 2 ^ 10 + unat f" using u lt by (simp add: hmag_def)
  have "bit r 15 \<longleftrightarrow> odd (unat r div 2 ^ 15)" using bit_iff_odd [of "unat r" 15] by (simp add: bit_unsigned_iff)
  moreover have "unat r div 2 ^ 15 = of_bool p" unfolding u using lt by (cases p) (simp_all add: div_nat_eqI)
  ultimately show "hnegative r \<longleftrightarrow> p" by (simp add: hnegative_def)
qed

lemma construct_single_fields:
  assumes "unat e < 2 ^ 8" and "unat f < 2 ^ 23"
  shows "mag (construct_single (of_bool p) e f) = unat e * 2 ^ 23 + unat f" and "negative (construct_single (of_bool p) e f) \<longleftrightarrow> p"
proof -
  have "unat (construct_single (of_bool p) e f) = (if p then 2 ^ 31 else 0) + (unat e * 2 ^ 23 + unat f)"
    using unat_construct [OF assms, of p] by (simp add: construct_single_def)
  moreover have "unat e * 2 ^ 23 + unat f < 2 ^ 31" using assms by simp
  ultimately show "mag (construct_single (of_bool p) e f) = unat e * 2 ^ 23 + unat f" "negative (construct_single (of_bool p) e f) \<longleftrightarrow> p"
    using mag_of_unat by blast+
qed

text \<open>The rounded fields are those of the next magnitude, whether or not the fraction overflows.\<close>

lemma round_half_value:
  assumes s: "unat s = q * 2 ^ 13 + g" "g < 2 ^ 13" "q < 2 ^ 10" and e: "unat e < 31"
  defines "n \<equiv> unat e * 2 ^ 10 + q" and "r \<equiv> round_half e s"
  shows "unat (fst r) < 2 ^ 5" and "unat (snd r) < 2 ^ 10"
    and "unat (fst r) * 2 ^ 10 + unat (snd r) = n + of_bool (2 ^ 13 < 2 * g \<or> odd n \<and> 2 * g = 2 ^ 13)"
proof -
  define f where "f = (ucast (drop_bit 13 s) :: u16)"
  define t where "t = s AND mask 13"
  have f: "unat f = q" using s by (simp add: f_def unat_ucast_mod unat_drop_bit)
  have t: "unat t = g" unfolding t_def unat_and_mask s(1) using s(2) by simp
  have c: "t > push_bit 12 1 \<longleftrightarrow> 2 ^ 13 < 2 * g" "t = push_bit 12 1 \<longleftrightarrow> 2 * g = 2 ^ 13"
    by (auto simp: word_less_nat_alt word_unat_eq_iff t)
  define up where "up = (2 ^ 13 < 2 * g \<or> odd n \<and> 2 * g = 2 ^ 13)"
  define f' where "f' = (if t > push_bit 12 1 then f + 1 else if t = push_bit 12 1 then f + (f AND 1) else f)"
  have "f AND 1 = of_bool (odd q)" unfolding f [symmetric] by (simp add: and_one_eq mod_2_eq_odd)
  moreover have "odd n \<longleftrightarrow> odd q" by (simp add: n_def)
  ultimately have "f' = f + of_bool up" unfolding f'_def c up_def by auto
  then have f': "unat f' = q + of_bool up" using f s(3) by (simp add: unat_word_ariths)
  have r: "r = (if f' \<ge> push_bit 10 1 then (e + 1, f' XOR push_bit 10 1) else (e, f'))"
    unfolding r_def round_half_def Let_def f'_def f_def t_def by (simp add: mask_eq_exp_minus_1)
  have b: "f' \<ge> push_bit 10 1 \<longleftrightarrow> q + of_bool up = 2 ^ 10" using f' s(3) by (auto simp: word_le_nat_alt)
  have "unat (fst r) < 2 ^ 5 \<and> unat (snd r) < 2 ^ 10 \<and> unat (fst r) * 2 ^ 10 + unat (snd r) = n + of_bool up"
  proof (cases "q + of_bool up = 2 ^ 10")
    case True
    then have "f' = push_bit 10 1" using f' by (simp add: word_unat_eq_iff)
    moreover have "unat (e + 1) = unat e + 1" using e by (simp add: unat_word_ariths)
    ultimately show ?thesis using True e unfolding r b by (simp add: n_def)
  next
    case False
    then show ?thesis using f' s(3) e unfolding r b by (auto simp: n_def)
  qed
  then show "unat (fst r) < 2 ^ 5" "unat (snd r) < 2 ^ 10"
    "unat (fst r) * 2 ^ 10 + unat (snd r) = n + of_bool (2 ^ 13 < 2 * g \<or> odd n \<and> 2 * g = 2 ^ 13)" by (simp_all add: up_def)
qed

section \<open>Truncation\<close>

text \<open>What IEEE-754 asks of a conversion to half precision.\<close>

definition ieee_half :: "u32 \<Rightarrow> u16 \<Rightarrow> bool" where
  "ieee_half a r \<longleftrightarrow> (hnegative r \<longleftrightarrow> negative a) \<and>
    (if is_nan a then half_inf < hmag r
     else if \<not> is_finite a then hmag r = half_inf
     else rounded hval half_inf (2 ^ 125) (mval (mag a)) (hmag r))"

lemma trunc_normal:
  assumes E: "mag a div 2 ^ 23 = E" "113 \<le> E" "E \<le> 142"
  defines "r \<equiv> round_half (word_of_int (int E - 112)) (extract_sig_frac_from_single a)"
  shows "rounded hval half_inf (2 ^ 125) (mval (mag a)) (unat (fst r) * 2 ^ 10 + unat (snd r))"
    and "unat (fst r) < 2 ^ 5" and "unat (snd r) < 2 ^ 10"
proof -
  define f q g where "f = mag a mod 2 ^ 23" and "q = f div 2 ^ 13" and "g = f mod 2 ^ 13"
  have f: "f = q * 2 ^ 13 + g" "g < 2 ^ 13" "q < 2 ^ 10" by (simp_all add: q_def g_def f_def div_less_iff_less_mult)
  have sf: "unat (extract_sig_frac_from_single a) = q * 2 ^ 13 + g" by (simp only: single_fields f_def [symmetric] f(1))
  have "int E - 112 = int (E - 112)" using E by simp
  then have "(word_of_int (int E - 112) :: u16) = of_nat (E - 112)" by (simp only: of_int_of_nat_eq)
  then have e: "unat (word_of_int (int E - 112) :: u16) = E - 112" using E by (simp only: unat_of_nat) simp
  define n where "n = (E - 112) * 2 ^ 10 + q"
  have r: "unat (fst r) < 2 ^ 5" "unat (snd r) < 2 ^ 10"
    "unat (fst r) * 2 ^ 10 + unat (snd r) = n + of_bool (2 ^ 13 < 2 * g \<or> odd n \<and> 2 * g = 2 ^ 13)"
    using round_half_value [OF sf f(2,3), of "word_of_int (int E - 112)"] E unfolding e r_def n_def by simp_all
  have v: "mval (mag a) = ((2 ^ 10 + q) * 2 ^ 13 + g) * 2 ^ (E - 1)"
  proof -
    have "mag a = E * 2 ^ 23 + f" using E(1) div_mult_mod_eq [of "mag a" "2 ^ 23"] by (simp only: f_def)
    then have "mval (mag a) = (2 ^ 23 + f) * 2 ^ (E - 1)" using mval_normal [of E f] E(2) by (simp add: f_def)
    then show ?thesis unfolding f(1) by (simp add: algebra_simps)
  qed
  have lt: "n < half_inf"
  proof -
    have "(E - 112) * 2 ^ 10 \<le> 30 * 2 ^ 10" using E(3) by simp
    then show ?thesis using f(3) unfolding n_def half_inf_def by simp
  qed
  have "E - 112 - 1 + 125 = 13 + (E - 1)" using E(2) by simp
  then have "2 ^ (E - 112 - 1) * 2 ^ 125 = (2::nat) ^ 13 * 2 ^ (E - 1)" by (simp only: flip: power_add)
  moreover have "hval n = (2 ^ 10 + q) * 2 ^ (E - 112 - 1)" "n div 2 ^ 10 = E - 112"
    using hval_normal [of "E - 112" q] E(2) f(3) by (simp_all add: n_def)
  then have "hval n = (2 ^ 10 + q) * 2 ^ (E - 112 - 1)" "hval (Suc n) = (2 ^ 10 + q + 1) * 2 ^ (E - 112 - 1)"
    by (simp_all only: hval_Suc distrib_right [of "2 ^ 10 + q" 1] mult_1)
  ultimately have sc: "hval n * 2 ^ 125 = (2 ^ 10 + q) * 2 ^ 13 * 2 ^ (E - 1)" "hval (Suc n) * 2 ^ 125 = (2 ^ 10 + q + 1) * 2 ^ 13 * 2 ^ (E - 1)"
    by (simp_all only: mult.assoc)
  have st: "sticks 0 (mval (mag a)) (2 ^ (E - 1)) ((2 ^ 10 + q) * 2 ^ 13 + g)" unfolding v by (rule sticks_exact) simp
  show "rounded hval half_inf (2 ^ 125) (mval (mag a)) (unat (fst r) * 2 ^ 10 + unat (snd r))"
    unfolding r(3) using f(2) by (intro half.rounded_sticky [OF st _ _ lt _ sc]) simp_all
  show "unat (fst r) < 2 ^ 5" "unat (snd r) < 2 ^ 10" by (fact r)+
qed

lemma trunc_subnormal:
  assumes E: "mag a div 2 ^ 23 = E" "90 \<le> E" "E \<le> 112"
  defines "s \<equiv> extract_sig_frac_from_single a OR push_bit 23 1"
  defines "r \<equiv> round_half 0 (drop_bit (113 - E) s OR of_bool (push_bit (32 - (113 - E)) s \<noteq> 0))"
  shows "rounded hval half_inf (2 ^ 125) (mval (mag a)) (unat (fst r) * 2 ^ 10 + unat (snd r))"
    and "unat (fst r) < 2 ^ 5" and "unat (snd r) < 2 ^ 10"
proof -
  define f where "f = mag a mod 2 ^ 23"
  have f: "f < 2 ^ 23" "unat (extract_sig_frac_from_single a) = f" by (simp_all add: f_def single_fields)
  have "unat (push_bit 23 1 OR extract_sig_frac_from_single a) = unat (push_bit 23 1 :: u32) + f"
    using unat_or_add [of "push_bit 23 1 :: u32" 1 23 "extract_sig_frac_from_single a"] f by simp
  then have s: "unat s = 2 ^ 23 + f" by (simp add: s_def or.commute)
  define m d q g where "m = 113 - E" and "d = jam (2 ^ 23 + f) m" and "q = d div 2 ^ 13" and "g = d mod 2 ^ 13"
  have m: "1 \<le> m" "m \<le> 23" "E - 1 + m = 112" using E by (simp_all add: m_def)
  have ds: "unat (drop_bit m s OR of_bool (push_bit (32 - m) s \<noteq> 0)) = q * 2 ^ 13 + g"
    using unat_sticky_shift [of m s] m(2) by (simp only: s d_def q_def g_def div_mult_mod_eq)
  have "2 ^ 1 \<le> (2::nat) ^ m" using m(1) by (intro power_increasing) simp_all
  then have "2 ^ 23 + f < 2 * 2 ^ 22 * 2 ^ m" using f(1) by simp
  then have "d < 2 * 2 ^ 22" unfolding d_def by (simp only: jam_compare)
  then have qg: "q < 2 ^ 10" "g < 2 ^ 13" by (simp_all add: q_def g_def div_less_iff_less_mult)
  have r: "unat (fst r) < 2 ^ 5" "unat (snd r) < 2 ^ 10"
    "unat (fst r) * 2 ^ 10 + unat (snd r) = q + of_bool (2 ^ 13 < 2 * g \<or> odd q \<and> 2 * g = 2 ^ 13)"
    using round_half_value [OF ds qg(2,1), of 0] unfolding r_def m_def by simp_all
  have v: "mval (mag a) = (2 ^ 23 + f) * 2 ^ (E - 1)"
  proof -
    have "mag a = E * 2 ^ 23 + f" using E(1) div_mult_mod_eq [of "mag a" "2 ^ 23"] by (simp only: f_def)
    then show ?thesis using mval_normal [of E f] E(2) f(1) by simp
  qed
  have "sticks 0 (mval (mag a)) (2 ^ (E - 1)) (2 ^ 23 + f)" unfolding v by (rule sticks_exact) simp
  then have "sticks 1 (mval (mag a)) (2 ^ (E - 1) * 2 ^ m) d" unfolding d_def by (rule sticks_jam) simp
  then have st: "sticks 1 (mval (mag a)) (2 ^ 112) (q * 2 ^ 13 + g)" unfolding power_add [symmetric] m(3) q_def g_def div_mult_mod_eq .
  have "hval q * 2 ^ 125 = q * 2 ^ 13 * 2 ^ 112" "hval (Suc q) * 2 ^ 125 = (q + 1) * 2 ^ 13 * 2 ^ 112" "q < half_inf"
    using qg(1) by (simp_all add: hval_Suc hval_subnormal half_inf_def)
  then show "rounded hval half_inf (2 ^ 125) (mval (mag a)) (unat (fst r) * 2 ^ 10 + unat (snd r))"
    unfolding r(3) using qg(2) by (intro half.rounded_sticky [OF st]) simp_all
  show "unat (fst r) < 2 ^ 5" "unat (snd r) < 2 ^ 10" by (fact r)+
qed

lemma trunc_exponent:
  "extract_exp_from_single a = word_of_int 255 \<longleftrightarrow> mag a div 2 ^ 23 = 255" "extract_exp_from_single a \<noteq> 0 \<longleftrightarrow> mag a div 2 ^ 23 \<noteq> 0"
  "extract_sig_frac_from_single a \<noteq> 0 \<longleftrightarrow> mag a mod 2 ^ 23 \<noteq> 0"
  by (simp_all add: word_unat_eq_iff single_fields)

lemma trunc_fields:
  "\<exists>e f. truncXfYf2 a = construct_half (of_bool (negative a)) e f \<and> unat e < 2 ^ 5 \<and> unat f < 2 ^ 10 \<and>
    (if is_nan a then half_inf < unat e * 2 ^ 10 + unat f
     else if \<not> is_finite a then unat e * 2 ^ 10 + unat f = half_inf
     else rounded hval half_inf (2 ^ 125) (mval (mag a)) (unat e * 2 ^ 10 + unat f))"
proof -
  define E where "E = mag a div 2 ^ 23"
  have a: "mag a = E * 2 ^ 23 + mag a mod 2 ^ 23" unfolding E_def by (rule div_mult_mod_eq [symmetric])
  have E: "E \<le> 255" using mag_lt [of a] by (simp add: E_def div_less_iff_less_mult flip: less_Suc_eq_le)
  have c: "push_bit 8 1 - 1 = (255 :: int)" "drop_bit 1 255 = (127 :: int)" "push_bit 5 1 - 1 = (31 :: int)" "drop_bit 1 31 = (15 :: int)" by simp_all
  have ue: "int (unat (extract_exp_from_single a)) = int E" unfolding single_fields E_def ..
  have sg: "ucast (extract_sign_from_single a) = (of_bool (negative a) :: u16)" by (simp add: single_fields)
  note f = truncXfYf2_def [of a, unfolded Let_def c trunc_exponent ue sg E_def [symmetric]]
  consider "113 \<le> E" "E \<le> 142" | "E = 255" "mag a mod 2 ^ 23 \<noteq> 0" | "E = 255" "mag a mod 2 ^ 23 = 0" | "143 \<le> E" "E < 255"
    | "90 \<le> E" "E \<le> 112" | "E < 90" using E by linarith
  then show ?thesis
  proof cases
    case 1
    define r where "r = round_half (word_of_int (int E - 112)) (extract_sig_frac_from_single a)"
    have "truncXfYf2 a = construct_half (of_bool (negative a)) (fst r) (snd r)" using 1 by (simp add: f r_def case_prod_beta)
    moreover have "is_finite a" using a 1 by (simp add: is_finite_def inf_mag_def)
    ultimately show ?thesis using trunc_normal [OF E_def [symmetric] 1, folded r_def]
      by (intro exI [of _ "fst r"] exI [of _ "snd r"]) (simp add: is_nan_def is_finite_def)
  next
    case 2
    define e h where "e = (word_of_int 31 :: u16)"
      and "h = (push_bit (10 - 1) 1 OR (ucast (drop_bit 13 (extract_sig_frac_from_single a AND (push_bit (23 - 1) 1 - 1))) AND (push_bit (10 - 1) 1 - 1)) :: u16)"
    have "truncXfYf2 a = construct_half (of_bool (negative a)) e h" using 2 by (simp add: f e_def h_def)
    moreover have "2 ^ 9 \<le> unat h" "unat h < 2 ^ 10"
    proof -
      define t :: u16 where "t = ucast (drop_bit 13 (extract_sig_frac_from_single a AND (push_bit (23 - 1) 1 - 1)))"
      have h: "h = push_bit 9 1 OR (t AND mask 9)" by (simp add: h_def t_def mask_eq_exp_minus_1)
      have "unat (push_bit 9 1 :: u16) = 1 * 2 ^ 9" "unat (t AND mask 9) < 2 ^ 9" by (simp_all add: unat_and_mask)
      then have "unat h = 2 ^ 9 + unat (t AND mask 9)" unfolding h using unat_or_add [of "push_bit 9 1 :: u16" 1 9 "t AND mask 9"] by simp
      then show "2 ^ 9 \<le> unat h" "unat h < 2 ^ 10" using \<open>unat (t AND mask 9) < 2 ^ 9\<close> by simp_all
    qed
    moreover have "is_nan a" using a 2 by (simp add: is_nan_def inf_mag_def)
    moreover have "unat e = 31" by (simp add: e_def)
    ultimately show ?thesis by (intro exI [of _ e] exI [of _ h]) (simp add: half_inf_def)
  next
    case 3
    have "truncXfYf2 a = construct_half (of_bool (negative a)) 31 0" using 3 by (simp add: f)
    moreover have "mag a = inf_mag" using a 3 by (simp add: inf_mag_def)
    ultimately show ?thesis by (intro exI [of _ 31] exI [of _ 0]) (simp add: half_inf_def is_nan_def is_finite_def)
  next
    case 4
    have "truncXfYf2 a = construct_half (of_bool (negative a)) 31 0" using 4 by (simp add: f)
    moreover have fin: "is_finite a" using a 4 by (simp add: is_finite_def inf_mag_def)
    moreover have "rounded hval half_inf (2 ^ 125) (mval (mag a)) half_inf"
    proof (rule half.rounded_overflow)
      have "mval (143 * 2 ^ 23) \<le> mval (mag a)" using a 4 by simp
      then show "hval half_inf * 2 ^ 125 \<le> mval (mag a)" by (simp add: mval_def hval_def float_value_def half_inf_def)
    qed simp
    ultimately show ?thesis by (intro exI [of _ 31] exI [of _ 0]) (simp add: half_inf_def is_nan_def is_finite_def)
  next
    case 5
    define s where "s = extract_sig_frac_from_single a OR push_bit 23 1"
    define r where "r = round_half 0 (drop_bit (113 - E) s OR of_bool (push_bit (32 - (113 - E)) s \<noteq> 0))"
    have n: "nat (113 - int E) = 113 - E" "nat (32 - (113 - int E)) = 32 - (113 - E)" "nat (int E - 81) = 32 - (113 - E)" using 5 by simp_all
    have "truncXfYf2 a = construct_half (of_bool (negative a)) (fst r) (snd r)"
      using 5 by (simp add: f n r_def s_def case_prod_beta)
    moreover have "is_finite a" using a 5 by (simp add: is_finite_def inf_mag_def)
    ultimately show ?thesis using trunc_subnormal [OF E_def [symmetric] 5, folded s_def, folded r_def]
      by (intro exI [of _ "fst r"] exI [of _ "snd r"]) (simp add: is_nan_def is_finite_def)
  next
    case 6
    have "truncXfYf2 a = construct_half (of_bool (negative a)) 0 0" using 6 by (cases "E = 0") (simp_all add: f)
    moreover have "is_finite a" using a 6 by (simp add: is_finite_def inf_mag_def)
    moreover have "rounded hval half_inf (2 ^ 125) (mval (mag a)) 0"
    proof -
      have "mval (mag a) \<le> mval (90 * 2 ^ 23)" using a 6 by simp
      then show ?thesis by (simp add: rounded_def mval_def hval_def float_value_def half_inf_def)
    qed
    ultimately show ?thesis by (intro exI [of _ 0]) (simp add: is_nan_def is_finite_def)
  qed
qed

lemma truncsfhf2_nearest: "ieee_half a (truncsfhf2 a)"
proof -
  obtain e f where t: "truncXfYf2 a = construct_half (of_bool (negative a)) e f" and ef: "unat e < 2 ^ 5" "unat f < 2 ^ 10"
    and r: "if is_nan a then half_inf < unat e * 2 ^ 10 + unat f
     else if \<not> is_finite a then unat e * 2 ^ 10 + unat f = half_inf
     else rounded hval half_inf (2 ^ 125) (mval (mag a)) (unat e * 2 ^ 10 + unat f)"
    using trunc_fields [of a] by blast
  show ?thesis unfolding ieee_half_def truncsfhf2_def t construct_half_fields [OF ef] by (rule conjI [OF refl r])
qed

text \<open>
  C33. Conversion to half precision is that of IEEE-754 for all operands: the result is nearest to the value, ties to even, with
  gradual underflow, overflow to infinity and the sign of the operand, and what is not a number stays so.
\<close>

theorem truncsfhf2_correct: "ieee_half a (truncsfhf2 a) \<and> gnu_f2h_ieee a = truncsfhf2 a"
  using truncsfhf2_nearest by (simp add: gnu_f2h_ieee_def)

section \<open>Extension\<close>

definition half_subnormal :: "u16 \<Rightarrow> bool" where
  "half_subnormal a \<longleftrightarrow> 0 < hmag a \<and> hmag a < 2 ^ 10"

lemma extend_fields:
  assumes "\<not> half_subnormal a"
  obtains r where "extendhfsf2 a = Some r" and "negative r \<longleftrightarrow> hnegative a"
    and "mag r = (if hmag a = 0 then 0 else hmag a * 2 ^ 13 + (if hmag a < half_inf then 112 * 2 ^ 23 else 224 * 2 ^ 23))"
proof -
  define E f where "E = hmag a div 2 ^ 10" and "f = hmag a mod 2 ^ 10"
  have a: "hmag a = E * 2 ^ 10 + f" unfolding E_def f_def by (rule div_mult_mod_eq [symmetric])
  have E: "E \<le> 31" "f < 2 ^ 10" by (simp_all add: E_def f_def hmag_def div_less_iff_less_mult flip: less_Suc_eq_le)
  have c: "push_bit 8 1 - 1 = (255 :: int)" "drop_bit 1 255 = (127 :: int)" "push_bit 5 1 - 1 = (31 :: int)" "drop_bit 1 31 = (15 :: int)" by simp_all
  have x: "1 \<le> extract_exp_from_half a \<and> extract_exp_from_half a < word_of_int 31 \<longleftrightarrow> 1 \<le> E \<and> E < 31"
    "extract_exp_from_half a = word_of_int 31 \<longleftrightarrow> E = 31" "extract_sig_frac_from_half a \<noteq> 0 \<longleftrightarrow> f \<noteq> 0"
    by (simp_all add: word_le_nat_alt word_less_nat_alt word_unat_eq_iff half_fields E_def f_def)
  have sg: "ucast (extract_sign_from_half a) = (of_bool (hnegative a) :: u32)" by (simp add: half_fields)
  note d = extendXfYf2_def [of a, unfolded Let_def c x sg]
  have uf: "unat (push_bit 13 (ucast (extract_sig_frac_from_half a)) :: u32) = f * 2 ^ 13"
    using E(2) by (simp add: unat_push_bit unat_ucast_mod half_fields f_def)
  define k :: u32 where "k = ucast (extract_exp_from_half a)"
  have k: "unat k = E" using E(1) by (simp add: k_def unat_ucast_mod half_fields E_def)
  have "E = 0 \<Longrightarrow> f = 0" using assms a E(2) by (auto simp: half_subnormal_def)
  moreover have "1 \<le> E \<and> E < 31 \<or> E = 31 \<or> E = 0" using E(1) by linarith
  ultimately consider "1 \<le> E" "E < 31" | "E = 31" | "E = 0" "f = 0" by blast
  then show ?thesis
  proof cases
    case 1
    have "unat (k + word_of_int (127 - 15)) = E + 112" using k 1 by (simp add: unat_word_ariths)
    then show ?thesis using 1 E construct_single_fields [of "k + word_of_int (127 - 15)" "push_bit 13 (ucast (extract_sig_frac_from_half a))" "hnegative a"]
      by (intro that) (simp_all add: extendhfsf2_def d k_def uf a half_inf_def algebra_simps)
  next
    case 2
    then show ?thesis using E construct_single_fields [of "word_of_int 255" "push_bit 13 (ucast (extract_sig_frac_from_half a))" "hnegative a"]
      by (intro that) (simp_all add: extendhfsf2_def d uf a half_inf_def)
  next
    case 3
    then show ?thesis using construct_single_fields [of 0 0 "hnegative a"]
      by (intro that) (simp_all add: extendhfsf2_def d a)
  qed
qed

lemma extend_exact:
  assumes "\<not> half_subnormal a" and "extendhfsf2 a = Some r"
  shows "negative r \<longleftrightarrow> hnegative a" and "is_nan r \<longleftrightarrow> half_inf < hmag a" and "mag r = inf_mag \<longleftrightarrow> hmag a = half_inf"
    and "hmag a < half_inf \<Longrightarrow> is_finite r \<and> mval (mag r) = hval (hmag a) * 2 ^ 125"
proof -
  obtain r' where "extendhfsf2 a = Some r'" and sg: "negative r' \<longleftrightarrow> hnegative a"
    and m': "mag r' = (if hmag a = 0 then 0 else hmag a * 2 ^ 13 + (if hmag a < half_inf then 112 * 2 ^ 23 else 224 * 2 ^ 23))"
    using extend_fields [OF assms(1)] .
  then have m: "mag r = (if hmag a = 0 then 0 else hmag a * 2 ^ 13 + (if hmag a < half_inf then 112 * 2 ^ 23 else 224 * 2 ^ 23))"
    and "negative r \<longleftrightarrow> hnegative a" using assms(2) by simp_all
  then show "negative r \<longleftrightarrow> hnegative a" by simp
  show "is_nan r \<longleftrightarrow> half_inf < hmag a" "mag r = inf_mag \<longleftrightarrow> hmag a = half_inf"
    using m by (auto simp: is_nan_def inf_mag_def half_inf_def)
  assume fin: "hmag a < half_inf"
  define E f where "E = hmag a div 2 ^ 10" and "f = hmag a mod 2 ^ 10"
  have a: "hmag a = E * 2 ^ 10 + f" unfolding E_def f_def by (rule div_mult_mod_eq [symmetric])
  have f: "f < 2 ^ 10" by (simp add: f_def)
  show "is_finite r \<and> mval (mag r) = hval (hmag a) * 2 ^ 125"
  proof (cases "hmag a = 0")
    case True
    then show ?thesis using m by (simp add: is_finite_def inf_mag_def hval_def float_value_def)
  next
    case False
    then have E: "1 \<le> E" using assms(1) f by (cases E) (auto simp: half_subnormal_def a)
    have r: "mag r = (E + 112) * 2 ^ 23 + f * 2 ^ 13" unfolding m using fin False by (simp add: a algebra_simps)
    have "mval (mag r) = (2 ^ 23 + f * 2 ^ 13) * 2 ^ (E + 112 - 1)" unfolding r using f by (intro mval_normal) simp_all
    also have "\<dots> = (2 ^ 10 + f) * (2 ^ 13 * 2 ^ (E + 112 - 1))" by (simp add: algebra_simps)
    finally have v: "mval (mag r) = (2 ^ 10 + f) * (2 ^ 13 * 2 ^ (E + 112 - 1))" .
    have "13 + (E + 112 - 1) = (E - 1) + 125" using E by simp
    then have "2 ^ 13 * 2 ^ (E + 112 - 1) = (2::nat) ^ (E - 1) * 2 ^ 125" by (simp only: flip: power_add)
    then have "mval (mag r) = hval (hmag a) * 2 ^ 125" unfolding v a hval_normal [OF E f] by (simp only: mult.assoc)
    moreover have "is_finite r" using fin False m by (simp add: is_finite_def inf_mag_def half_inf_def)
    ultimately show ?thesis by simp
  qed
qed

text \<open>Extension is exact for zeros, normal numbers and infinities, and truncation undoes it.\<close>

lemma extend_roundtrip:
  assumes "\<not> half_subnormal a" and "hmag a \<le> half_inf"
  shows "\<exists>r. extendhfsf2 a = Some r \<and> (negative r \<longleftrightarrow> hnegative a) \<and> truncsfhf2 r = a \<and>
    (if hmag a < half_inf then is_finite r \<and> mval (mag r) = hval (hmag a) * 2 ^ 125 else mag r = inf_mag)"
proof -
  obtain r where r: "extendhfsf2 a = Some r" using extend_fields [OF assms(1)] by blast
  note x = extend_exact [OF assms(1) r]
  have fin: "is_finite r \<longleftrightarrow> hmag a < half_inf" using x(2-4) assms(2) by (auto simp: is_nan_def is_finite_def)
  have "ieee_half r (truncsfhf2 r)" by (rule truncsfhf2_nearest)
  then have t: "hnegative (truncsfhf2 r) \<longleftrightarrow> hnegative a"
    "if is_finite r then rounded hval half_inf (2 ^ 125) (mval (mag r)) (hmag (truncsfhf2 r)) else hmag (truncsfhf2 r) = half_inf"
    using x(1,2) assms(2) by (auto simp: ieee_half_def is_nan_def is_finite_def split: if_splits)
  have "hmag (truncsfhf2 r) = hmag a"
  proof (cases "is_finite r")
    case True
    then have "rounded hval half_inf (2 ^ 125) (hval (hmag a) * 2 ^ 125) (hmag (truncsfhf2 r))" using t(2) x(4) fin by simp
    moreover have "rounded hval half_inf (2 ^ 125) (hval (hmag a) * 2 ^ 125) (hmag a)" using assms(2) by (intro half.rounded_exact) simp_all
    ultimately show ?thesis by (rule half.rounded_unique) simp
  next
    case False
    then show ?thesis using t(2) fin assms(2) by simp
  qed
  then have "truncsfhf2 r = a" using t(1) by (rule half_eqI)
  then show ?thesis using r x fin assms(2) by auto
qed

lemma extend_subnormal:
  assumes "half_subnormal a"
  defines "k \<equiv> bitlen (hmag a)"
  shows "extendhfsf2 a =
    (if 8 < k then None
     else Some (construct_single (of_bool (hnegative a)) (of_nat (118 + k))
       (push_bit (8 - k) (ucast (extract_sig_frac_from_half a)) XOR push_bit 23 1)))"
proof -
  define f where "f = extract_sig_frac_from_half a"
  have m: "0 < hmag a" "hmag a < 2 ^ 10" using assms(1) by (simp_all add: half_subnormal_def)
  have f: "unat f = hmag a" using m by (simp add: f_def half_fields)
  then have "f \<noteq> 0" using m by auto
  have e: "extract_exp_from_half a = 0" using m by (simp add: word_unat_eq_iff half_fields)
  have c: "clz_in_sig_frac f = - int k - 6" by (simp add: clz_in_sig_frac_def src_rep_t_clz_def builtin_clz_def f k_def)
  have sg: "ucast (extract_sign_from_half a) = (of_bool (hnegative a) :: u32)" by (simp add: half_fields)
  have z: "((0::u16) = word_of_int (push_bit 5 1 - 1)) = False" by simp
  have "extendhfsf2 a = (if 8 - int k < 0 then None
     else Some (construct_single (of_bool (hnegative a)) (word_of_int (118 + int k)) (push_bit (nat (8 - int k)) (ucast f) XOR push_bit 23 1)))"
    using \<open>f \<noteq> 0\<close> unfolding extendhfsf2_def extendXfYf2_def Let_def e f_def [symmetric] c sg z by (simp add: algebra_simps)
  moreover have "word_of_int (118 + int k) = (of_nat (118 + k) :: u32)" by simp
  ultimately show ?thesis unfolding f_def by (auto simp: nat_diff_distrib')
qed

lemma extend_subnormal_wrong:
  assumes "half_subnormal a"
  shows "if 2 ^ 8 \<le> hmag a then extendhfsf2 a = None
    else \<exists>r. extendhfsf2 a = Some r \<and> 2 ^ 8 * (hval (hmag a) * 2 ^ 125) < mval (mag r)"
proof (cases "2 ^ 8 \<le> hmag a")
  case True
  then show ?thesis using extend_subnormal [OF assms] less_bitlen_iff [of 8 "hmag a"] by simp
next
  case False
  define k where "k = bitlen (hmag a)"
  have k: "k \<le> 8" using False bitlen_le_iff [of "hmag a" 8] by (simp add: k_def)
  define F :: u32 where "F = push_bit (8 - k) (ucast (extract_sig_frac_from_half a))"
  define r where "r = construct_single (of_bool (hnegative a)) (of_nat (118 + k)) (F XOR push_bit 23 1)"
  have r: "extendhfsf2 a = Some r" using extend_subnormal [OF assms] k unfolding k_def [symmetric] r_def F_def by simp
  have F: "unat F < 2 ^ 23"
  proof -
    have "unat F = hmag a * 2 ^ (8 - k) mod 2 ^ 32"
      using assms by (simp add: F_def unat_push_bit unat_ucast_mod half_fields half_subnormal_def)
    also have "\<dots> \<le> hmag a * 2 ^ (8 - k)" by simp
    also have "\<dots> \<le> 2 ^ 8 * 2 ^ 8" using False by (intro mult_le_mono power_increasing) simp_all
    finally show ?thesis by simp
  qed
  have nb: "\<not> bit F 23" using F bit_iff_odd [of "unat F" 23] by (simp add: bit_unsigned_iff)
  have "F XOR push_bit 23 1 = push_bit 23 1 OR F"
  proof (rule bit_word_eqI)
    fix n
    have "bit (push_bit 23 1 :: u32) n \<longleftrightarrow> n = 23" by (simp only: bit_push_bit_iff bit_1_iff) auto
    then show "bit (F XOR push_bit 23 1) n \<longleftrightarrow> bit (push_bit 23 1 OR F) n" using nb unfolding bit_xor_iff bit_or_iff by blast
  qed
  then have rc: "r = construct_single (of_bool (hnegative a)) (of_nat (118 + k) OR 1) F"
    unfolding r_def construct_single_def by (simp add: push_bit_or or.assoc)
  have u: "unat (of_nat (118 + k) :: u32) = 118 + k" using k by (simp only: unat_of_nat) simp
  have e: "unat (of_nat (118 + k) OR 1 :: u32) = 118 + k + of_bool (even k)"
    using unat_or_of_bool [of "of_nat (118 + k)" True] unfolding u by simp
  have "mag r = (118 + k + of_bool (even k)) * 2 ^ 23 + unat F"
    unfolding rc using F k by (subst construct_single_fields(1)) (simp_all only: e, simp_all)
  then have "119 * 2 ^ 23 \<le> mag r \<or> k = 0" by (cases "even k") auto
  moreover have "k \<noteq> 0" using assms by (simp add: k_def half_subnormal_def bitlen_pos)
  ultimately have "mval (119 * 2 ^ 23) \<le> mval (mag r)" by simp
  moreover have "hval (hmag a) < 2 ^ 8" using False by (simp add: hval_subnormal)
  ultimately show ?thesis using r False by (simp add: mval_def)
qed

text \<open>
  C34. Conversion from half precision is exact for zeros, normal numbers and infinities, keeps the sign and what is not a number, and
  converting back gives the same pattern. Subnormal numbers are converted wrongly: the normalisation subtracts 16 from a count
  of leading zeros that already is one of 16 bits, so that from \<open>2\<^sup>8\<close> units on the shift count is negative, which C leaves
  undefined, and below the result is more than 256 times too large.
\<close>

theorem extendhfsf2_spec:
  "if half_subnormal a
   then if 2 ^ 8 \<le> hmag a then extendhfsf2 a = None
        else \<exists>r. extendhfsf2 a = Some r \<and> 2 ^ 8 * (hval (hmag a) * 2 ^ 125) < mval (mag r)
   else if hmag a \<le> half_inf
   then \<exists>r. extendhfsf2 a = Some r \<and> (negative r \<longleftrightarrow> hnegative a) \<and> truncsfhf2 r = a \<and>
     (if hmag a < half_inf then is_finite r \<and> mval (mag r) = hval (hmag a) * 2 ^ 125 else mag r = inf_mag)
   else \<exists>r. extendhfsf2 a = Some r \<and> (negative r \<longleftrightarrow> hnegative a) \<and> is_nan r"
proof (cases "half_subnormal a")
  case True
  then show ?thesis unfolding if_P [OF True] by (rule extend_subnormal_wrong)
next
  case False
  obtain r where r: "extendhfsf2 a = Some r" using extend_fields [OF False] by blast
  then have "half_inf < hmag a \<Longrightarrow> is_nan r" "negative r \<longleftrightarrow> hnegative a" using extend_exact [OF False r] by simp_all
  then show ?thesis using extend_roundtrip [OF False] r False by auto
qed

end
