(* ===== verification/Softfloat_Quotient.thy ===== *)
theory Softfloat_Quotient
  imports Softfloat_Div
begin

text \<open>
  Single precision division is that of IEEE-754. The reciprocal is analysed over the integers: for an approximation \<open>x\<close> of the
  reciprocal of \<open>b\<close> the defect is \<open>2\<^sup>6\<^sup>3 - x * b\<close>, and a Newton iteration squares it up to the two truncations. After three
  iterations the quotient is at most half a unit too small beyond truncation, and one comparison with the residual rounds it.
\<close>

section \<open>The reciprocal\<close>

definition defect :: "int \<Rightarrow> int \<Rightarrow> int" where
  "defect b x = 2 ^ 63 - x * b"

definition newton_int :: "int \<Rightarrow> int \<Rightarrow> int" where
  "newton_int b x = x * (2 ^ 32 - x * b div 2 ^ 32) div 2 ^ 31"

lemma defect_newton:
  assumes "0 \<le> b" and "0 \<le> x" and "b < 2 ^ 32"
  shows "defect b x ^ 2 - x * b * 2 ^ 32 \<le> defect b (newton_int b x) * 2 ^ 63"
    and "defect b (newton_int b x) * 2 ^ 63 \<le> defect b x ^ 2 + 2 ^ 95"
proof -
  define t1 t2 where "t1 = x * b mod 2 ^ 32" and "t2 = x * (2 ^ 32 - x * b div 2 ^ 32) mod 2 ^ 31"
  have t: "0 \<le> t1" "t1 < 2 ^ 32" "0 \<le> t2" "t2 < 2 ^ 31" by (simp_all add: t1_def t2_def)
  have c: "(2 ^ 32 - x * b div 2 ^ 32) * 2 ^ 32 = 2 ^ 64 - x * b + t1"
    unfolding t1_def by (simp add: left_diff_distrib flip: minus_div_mult_eq_mod)
  have n: "newton_int b x * 2 ^ 31 = x * (2 ^ 32 - x * b div 2 ^ 32) - t2"
    unfolding t2_def newton_int_def using div_mult_mod_eq [of "x * (2 ^ 32 - x * b div 2 ^ 32)" "2 ^ 31"] by linarith
  have "newton_int b x * 2 ^ 63 = newton_int b x * 2 ^ 31 * 2 ^ 32" by simp
  also have "\<dots> = x * ((2 ^ 32 - x * b div 2 ^ 32) * 2 ^ 32) - t2 * 2 ^ 32" unfolding n by (simp add: algebra_simps)
  finally have n63: "newton_int b x * 2 ^ 63 = x * (2 ^ 64 - x * b + t1) - t2 * 2 ^ 32" unfolding c .
  have e: "defect b (newton_int b x) * 2 ^ 63 = defect b x ^ 2 - x * b * t1 + b * t2 * 2 ^ 32"
  proof -
    have "defect b (newton_int b x) * 2 ^ 63 = 2 ^ 126 - newton_int b x * 2 ^ 63 * b" by (simp add: defect_def algebra_simps)
    then show ?thesis unfolding n63 by (simp add: defect_def power2_eq_square algebra_simps)
  qed
  have "x * b * t1 \<le> x * b * 2 ^ 32" "0 \<le> x * b * t1" using t assms by (simp_all add: mult_left_mono)
  moreover have "b * t2 \<le> 2 ^ 32 * 2 ^ 31" using t assms by (intro mult_mono) simp_all
  moreover have "0 \<le> b * t2" using t assms by simp
  ultimately show "defect b x ^ 2 - x * b * 2 ^ 32 \<le> defect b (newton_int b x) * 2 ^ 63"
    "defect b (newton_int b x) * 2 ^ 63 \<le> defect b x ^ 2 + 2 ^ 95" unfolding e by simp_all
qed


text \<open>The first approximation, and how the defect shrinks.\<close>

definition recip_start :: "int \<Rightarrow> int" where
  "recip_start b = 0x17504F333 - b"

lemma recip_start_defect:
  assumes "2 ^ 31 \<le> b" and "b < 2 ^ 32"
  shows "\<bar>defect b (recip_start b)\<bar> \<le> 800000000000000000"
proof -
  have e: "4 * defect b (recip_start b) = (2 * b - 0x17504F333) ^ 2 + (2 ^ 65 - 0x17504F333 ^ 2)"
    by (simp add: defect_def recip_start_def power2_eq_square algebra_simps)
  have "\<bar>2 * b - 0x17504F333\<bar> \<le> 2331708621" using assms by simp
  then have "(2 * b - 0x17504F333) ^ 2 \<le> 2331708621 ^ 2" by (simp only: abs_le_square_iff [symmetric] abs_numeral)
  moreover obtain S where "(2 * b - 0x17504F333) ^ 2 = S" "0 \<le> S" by (metis zero_le_power2)
  ultimately show ?thesis using e by simp
qed

lemma defect_lower:
  assumes "0 \<le> x" and "0 \<le> b" and "b < 2 ^ 32" and "\<bar>defect b x\<bar> \<le> 2 ^ 60"
  shows "- (2 ^ 33) \<le> defect b (newton_int b x)"
proof -
  have "x * b \<le> 2 ^ 64" using assms by (simp add: defect_def)
  moreover obtain S where "defect b x ^ 2 = S" "0 \<le> S" by (metis zero_le_power2)
  ultimately have "- (2 ^ 33 * 2 ^ 63) \<le> defect b (newton_int b x) * 2 ^ 63"
    using defect_newton(1) [OF assms(2,1,3)] by simp
  then show ?thesis by simp
qed

lemma newton_small:
  assumes "2 ^ 31 + 2 ^ 8 \<le> b" and "b < 2 ^ 32" and "0 \<le> x" and "\<bar>defect b x\<bar> \<le> 2 ^ 60"
  shows "0 \<le> newton_int b x" and "newton_int b x < 2 ^ 32"
proof -
  have xb: "x * b \<le> 2 ^ 64" "0 \<le> x * b" using assms by (simp_all add: defect_def)
  then have "x * b div 2 ^ 32 \<le> 2 ^ 64 div 2 ^ 32" by (intro zdiv_mono1) simp_all
  then show "0 \<le> newton_int b x" using assms by (simp add: newton_int_def pos_imp_zdiv_nonneg_iff)
  have "newton_int b x * b \<le> 2 ^ 63 + 2 ^ 33" using defect_lower [of x b] assms by (simp add: defect_def)
  also have "\<dots> < 2 ^ 32 * (2 ^ 31 + 2 ^ 8)" by simp
  also have "\<dots> \<le> 2 ^ 32 * b" using assms by simp
  finally show "newton_int b x < 2 ^ 32" using assms by simp
qed

lemma uint_newton:
  assumes "2 ^ 31 + 2 ^ 8 \<le> uint b" and d: "\<bar>defect (uint b) (uint x)\<bar> \<le> 2 ^ 60"
  shows "uint (newton b x) = newton_int (uint b) (uint x)"
proof -
  have r: "0 \<le> uint x" "uint x < 2 ^ 32" "0 \<le> uint b" "uint b < 2 ^ 32" using uint_lt2p [of x] uint_lt2p [of b] by simp_all
  have u: "uint (ucast y :: u64) = uint y" for y :: u32
    using uint_lt2p [of y] by (simp add: unsigned_ucast_eq take_bit_int_eq_self)
  have "uint x * uint b < 2 ^ 32 * 2 ^ 32" using r by (intro mult_strict_mono) simp_all
  then have p: "uint ((ucast x :: u64) * ucast b) = uint x * uint b" using r by (simp add: uint_word_ariths u)
  define P where "P = (ucast x :: u64) * ucast b"
  define h where "h = uint x * uint b div 2 ^ 32"
  have PB: "0 \<le> uint x * uint b" "uint x * uint b < 2 ^ 64" using r \<open>_ < 2 ^ 32 * 2 ^ 32\<close> by simp_all
  have h: "0 < h" "h < 2 ^ 32" unfolding h_def using d \<open>_ < 2 ^ 32 * 2 ^ 32\<close> by (simp_all add: defect_def pos_imp_zdiv_pos_iff)
  define c where "c = (0 - ucast (drop_bit 32 P) :: u32)"
  have "uint (ucast (drop_bit 32 P) :: u32) = h" using h PB
    by (simp only: unsigned_ucast_eq unsigned_drop_bit_eq p [folded P_def]) (simp add: drop_bit_eq_div take_bit_int_eq_self h_def)
  then have "uint c = (2 ^ 32 - h) mod 2 ^ 32" unfolding c_def by (simp add: uint_word_ariths zmod_zminus1_eq_if)
  also have "\<dots> = 2 ^ 32 - h" using h by (intro mod_pos_pos_trivial) simp_all
  finally have c: "uint c = 2 ^ 32 - h" .
  have "uint x * uint c < 2 ^ 32 * 2 ^ 32" using r uint_lt2p [of c] by (intro mult_strict_mono) simp_all
  then have "uint ((ucast x :: u64) * ucast c) = uint x * uint c" using r by (simp add: uint_word_ariths u)
  moreover have "newton_int (uint b) (uint x) = uint x * uint c div 2 ^ 31" by (simp add: newton_int_def c h_def)
  ultimately show ?thesis using newton_small [OF assms(1) r(4,1) d] unfolding newton_def Let_def P_def [symmetric] c_def [symmetric]
    by (simp only: unsigned_ucast_eq unsigned_drop_bit_eq) (simp add: drop_bit_eq_div take_bit_int_eq_self)
qed

lemma defect_bound:
  assumes "0 \<le> x" and "0 \<le> b" and "b < 2 ^ 32" and "\<bar>defect b x\<bar> \<le> M" and "M ^ 2 + 2 ^ 96 \<le> N * 2 ^ 63" and "M \<le> 2 ^ 60"
  shows "- (2 ^ 33) \<le> defect b (newton_int b x)" and "defect b (newton_int b x) \<le> N"
proof -
  show "- (2 ^ 33) \<le> defect b (newton_int b x)" using assms by (intro defect_lower) simp_all
  have "defect b x ^ 2 \<le> M ^ 2" using assms(4) by (simp add: power2_le_iff_abs_le)
  then have "defect b (newton_int b x) * 2 ^ 63 \<le> N * 2 ^ 63" using defect_newton(2) [OF assms(2,1,3)] assms(5) by simp
  then show "defect b (newton_int b x) \<le> N" by simp
qed

lemma reciprocal_one: "reciprocal 0x80000000 = 0xFFFFFFF4"
  by code_simp

lemma reciprocal_bounds:
  assumes "2 ^ 31 \<le> uint b" and "uint b mod 2 ^ 8 = 0"
  shows "0 \<le> defect (uint b) (uint (reciprocal b))" and "defect (uint b) (uint (reciprocal b)) \<le> 40 * uint b"
proof -
  have b: "uint b < 2 ^ 32" using uint_lt2p [of b] by simp
  have "0 \<le> defect (uint b) (uint (reciprocal b)) \<and> defect (uint b) (uint (reciprocal b)) \<le> 40 * uint b"
  proof (cases "uint b = 2 ^ 31")
    case True
    then have "b = 0x80000000" by (simp add: word_uint_eq_iff)
    then show ?thesis by (simp add: defect_def reciprocal_one)
  next
    case False
    obtain k where "uint b = 2 ^ 8 * k" using assms(2) unfolding mod_eq_0_iff_dvd by (rule dvdE)
    then have b8: "2 ^ 31 + 2 ^ 8 \<le> uint b" using assms(1) False by simp
    define x0 x1 x2 x3 where "x0 = 0x7504F333 - b" and "x1 = newton b x0" and "x2 = newton b x1" and "x3 = newton b x2"
    have "uint x0 = (0x7504F333 - uint b) mod 2 ^ 32" by (simp add: x0_def uint_word_ariths)
    also have "\<dots> = (0x7504F333 - uint b + 2 ^ 32) mod 2 ^ 32" by (simp only: mod_add_self2)
    also have "\<dots> = recip_start (uint b) mod 2 ^ 32" by (simp add: recip_start_def)
    also have "\<dots> = recip_start (uint b)" using b8 b by (simp add: recip_start_def)
    finally have u0: "uint x0 = recip_start (uint b)" .
    note s = defect_bound [OF uint_ge_0 uint_ge_0 b]
    have d0: "\<bar>defect (uint b) (uint x0)\<bar> \<le> 800000000000000000" unfolding u0 using assms(1) b by (rule recip_start_defect)
    have u1: "uint x1 = newton_int (uint b) (uint x0)" unfolding x1_def by (rule uint_newton [OF b8]) (use d0 in simp)
    have d1: "\<bar>defect (uint b) (uint x1)\<bar> \<le> 70000000000000000" using s [OF d0, of 70000000000000000] by (simp add: u1)
    have u2: "uint x2 = newton_int (uint b) (uint x1)" unfolding x2_def by (rule uint_newton [OF b8]) (use d1 in simp)
    have d2: "\<bar>defect (uint b) (uint x2)\<bar> \<le> 600000000000000" using s [OF d1, of 600000000000000] by (simp add: u2)
    have u3: "uint x3 = newton_int (uint b) (uint x2)" unfolding x3_def by (rule uint_newton [OF b8]) (use d2 in simp)
    have d3: "- (2 ^ 33) \<le> defect (uint b) (uint x3)" "defect (uint b) (uint x3) \<le> 12 * 2 ^ 32"
      using s [OF d2, of "12 * 2 ^ 32"] by (simp_all add: u3)
    have "reciprocal b = x3 - 12"
      by (simp add: reciprocal_def RECIPROCAL_PRECISION_def x3_def x2_def x1_def x0_def numeral_eq_Suc)
    moreover have "12 \<le> uint x3"
    proof (rule ccontr)
      assume "\<not> 12 \<le> uint x3"
      then have "uint x3 * uint b \<le> 12 * 2 ^ 32" using b by (intro mult_mono) simp_all
      then show False using d3(2) by (simp add: defect_def)
    qed
    ultimately have "uint (reciprocal b) = uint x3 - 12"
      using uint_lt2p [of x3] by (simp add: uint_word_ariths mod_pos_pos_trivial)
    then have "defect (uint b) (uint (reciprocal b)) = defect (uint b) (uint x3) + 12 * uint b"
      unfolding defect_def by (simp only: left_diff_distrib)
    then show ?thesis using d3 assms(1) b by simp
  qed
  then show "0 \<le> defect (uint b) (uint (reciprocal b))" "defect (uint b) (uint (reciprocal b)) \<le> 40 * uint b" by simp_all
qed

section \<open>The quotient of the significands\<close>

lemma reciprocal_nat:
  assumes "unat s = B" and "2 ^ 23 \<le> B" and "B < 2 ^ 24"
  defines "X \<equiv> unat (reciprocal (push_bit 8 s))"
  shows "X * B \<le> 2 ^ 55" and "2 ^ 55 \<le> X * B + 40 * B"
proof -
  have u: "unat (push_bit 8 s) = B * 2 ^ 8" unfolding unat_push_bit assms(1) using assms(3) by simp
  have i: "uint (push_bit 8 s) = int B * 2 ^ 8" using arg_cong [OF u, of int] by (simp only: of_nat_unat of_nat_mult) simp
  have x: "uint (reciprocal (push_bit 8 s)) = int X" by (simp add: X_def)
  have "2 ^ 31 \<le> uint (push_bit 8 s)" "uint (push_bit 8 s) mod 2 ^ 8 = 0" unfolding i using assms(2) by simp_all
  note reciprocal_bounds [OF this, unfolded i x defect_def]
  then have "int (X * B) \<le> int (2 ^ 55)" "int (2 ^ 55) \<le> int (X * B + 40 * B)" by (simp_all add: mult.commute mult.left_commute)
  then show "X * B \<le> 2 ^ 55" "2 ^ 55 \<le> X * B + 40 * B" by (simp_all only: of_nat_le_iff)
qed

lemma quotient_bounds:
  fixes A B X :: nat
  assumes X: "X * B \<le> 2 ^ 55" "2 ^ 55 \<le> X * B + 40 * B" and A: "A < 2 ^ 24" and B: "0 < B"
  defines "Q \<equiv> X * (2 * A) div 2 ^ 32"
  shows "Q * B \<le> A * 2 ^ 24" and "16 * (A * 2 ^ 24) < 16 * (Q * B) + 21 * B"
proof -
  define t where "t = X * (2 * A) mod 2 ^ 32"
  have t: "X * (2 * A) = Q * 2 ^ 32 + t" "t < 2 ^ 32" unfolding Q_def t_def by (simp_all only: div_mult_mod_eq) simp
  have e: "Q * B * 2 ^ 32 + t * B = 2 * A * (X * B)"
    using arg_cong [OF t(1), of "\<lambda>z. z * B"] by (simp add: algebra_simps)
  moreover have "2 * A * (X * B) \<le> 2 * A * 2 ^ 55" using X(1) by (rule mult_le_mono2)
  ultimately have "Q * B * 2 ^ 32 \<le> 2 * A * 2 ^ 55" by linarith
  then have "Q * B * 2 ^ 32 \<le> A * 2 ^ 24 * 2 ^ 32" by (simp only: mult.assoc) simp
  then show "Q * B \<le> A * 2 ^ 24" by (simp add: mult.commute)
  have "2 * A * 2 ^ 55 \<le> 2 * A * (X * B + 40 * B)" using X(2) by (rule mult_le_mono2)
  also have "\<dots> = Q * B * 2 ^ 32 + t * B + 80 * (A * B)" using e by (simp add: algebra_simps)
  also have "\<dots> < Q * B * 2 ^ 32 + 2 ^ 32 * B + 80 * (2 ^ 24 * B)" using t(2) A B
    by (intro add_less_le_mono add_strict_left_mono mult_strict_right_mono mult_le_mono mult_le_mono1) simp_all
  finally have "16 * (A * 2 ^ 24) * 2 ^ 28 < (16 * (Q * B) + 21 * B) * 2 ^ 28" by simp
  then show "16 * (A * 2 ^ 24) < 16 * (Q * B) + 21 * B" by simp
qed

section \<open>Rounding a quotient\<close>

text \<open>The quotient \<open>v / d\<close> rounds to the magnitude \<open>n\<close>; \<open>rounds_to\<close> is the case of a power of two.\<close>

abbreviation rounds_quot :: "nat \<Rightarrow> nat \<Rightarrow> nat \<Rightarrow> bool" where
  "rounds_quot v d n \<equiv> rounded mval inf_mag d v n"

lemma rounds_quot_residual:
  assumes n: "n < inf_mag" "mval n = q * u" "u = 2 ^ (n div 2 ^ 23 - 1)" and c: "2 * v = a * c" "u * d = B * c" "0 < c"
    and a: "2 * (q * B) \<le> a" "a < (2 * q + 3) * B"
  shows "rounds_quot v d (n + of_bool ((2 * q + 1) * B < a \<or> odd n \<and> (2 * q + 1) * B = a))"
proof -
  have s: "mval (Suc n) = (q + 1) * u" using n by (simp add: mval_Suc)
  have cmp: "(k * u) * d < 2 * v \<longleftrightarrow> k * B < a" "2 * v < (k * u) * d \<longleftrightarrow> a < k * B" "(k * u) * d = 2 * v \<longleftrightarrow> k * B = a" for k
    using c by (simp_all only: mult.assoc c(1,2)) (simp_all flip: mult.assoc)
  have mid: "mval n + mval (Suc n) = (2 * q + 1) * u" by (simp add: n(2) s algebra_simps)
  have "0 < B" using a by (cases B) simp_all
  then have "0 < d" using c(2,3) by (cases d) simp_all
  moreover have "mval n * d \<le> v" using a(1) cmp(2) [of "2 * q"] by (simp add: n(2) mult.assoc not_less flip: linorder_not_less)
  moreover have "2 * v < (mval (Suc n) + mval (Suc (Suc n))) * d"
  proof -
    have "u \<le> 2 ^ (Suc n div 2 ^ 23 - 1)" unfolding n(3) by (intro power_increasing diff_le_mono div_le_mono) simp_all
    then have "(2 * q + 3) * u \<le> mval (Suc n) + mval (Suc (Suc n))" unfolding mval_Suc [of "Suc n"] s by (simp add: algebra_simps)
    then have "(2 * q + 3) * u * d \<le> (mval (Suc n) + mval (Suc (Suc n))) * d" by (rule mult_le_mono1)
    moreover have "2 * v < (2 * q + 3) * u * d" using a(2) by (simp only: cmp)
    ultimately show ?thesis by linarith
  qed
  ultimately have "rounds_quot v d (n + of_bool (past_midpoint mval d v n))" by (intro single.rounded_step n(1))
  then show ?thesis unfolding past_midpoint_def mid cmp .
qed

text \<open>The comparison with the residual, on a magnitude that then gets its sign.\<close>

lemma round_residual:
  fixes w resid bS :: u32
  assumes w: "unat w = n" "n < 2 ^ 31 - 1" and R: "resid = of_nat R" "R < 2 ^ 32 - 1" and sg: "sg = (if neg then signBit else 0)"
  defines "r \<equiv> (let residualLo = resid + (w AND 1); w = w + of_bool (residualLo > bS) in w OR sg)"
  shows "mag r = n + of_bool (unat bS < R \<or> odd n \<and> unat bS = R)" and "negative r \<longleftrightarrow> neg"
proof -
  have o: "w AND 1 = of_bool (odd n)" unfolding w(1) [symmetric] by (simp add: and_one_eq mod_2_eq_odd)
  have "unat (resid + (w AND 1)) = R + of_bool (odd n)" unfolding o R(1) using R(2)
    by (simp add: unat_word_ariths unat_of_nat)
  then have c: "resid + (w AND 1) > bS \<longleftrightarrow> unat bS < R \<or> odd n \<and> unat bS = R"
    unfolding word_less_nat_alt by auto
  define k where "k = n + of_bool (unat bS < R \<or> odd n \<and> unat bS = R)"
  have "unat (w + of_bool (resid + (w AND 1) > bS)) = k" unfolding c using w by (simp add: k_def unat_word_ariths)
  moreover have "k < 2 ^ 31" using w(2) by (simp add: k_def)
  ultimately have "mag r = k \<and> (negative r \<longleftrightarrow> neg)" unfolding r_def Let_def sg
    using mag_or_sign [of "w + of_bool (resid + (w AND 1) > bS)"] mag_small [of "w + of_bool (resid + (w AND 1) > bS)"] by simp
  then show "mag r = n + of_bool (unat bS < R \<or> odd n \<and> unat bS = R)" "negative r \<longleftrightarrow> neg" by (simp_all add: k_def)
qed

text \<open>The results of \<open>div_round\<close>, by the range of the exponent: overflow, normal, subnormal and underflow.\<close>

lemma div_round_overflow:
  fixes aS bS q resid :: u32
  assumes "255 \<le> e" and "0 < B" and "2 ^ 23 * B \<le> a" and sg: "sg = (if neg then signBit else 0)"
  defines "r \<equiv> div_round sg e aS bS q resid"
  shows "rounds_quot (a * 2 ^ nat (e + 300)) (B * 2 ^ 301) (mag r) \<and> (negative r \<longleftrightarrow> neg)"
proof -
  have r: "r = infRep OR sg" using assms(1) by (simp add: r_def div_round_def fp_consts)
  have "mag r = inf_mag" "negative r \<longleftrightarrow> neg"
    using mag_or_sign [of infRep] mag_small [of infRep] by (simp_all add: r sg inf_mag_def fp_consts(7))
  moreover have "rounds_quot (a * 2 ^ nat (e + 300)) (B * 2 ^ 301) inf_mag"
  proof -
    have "mval inf_mag * (B * 2 ^ 301) = 2 ^ 23 * B * 2 ^ 555" by (simp add: mval_def inf_mag_def)
    also have "\<dots> \<le> a * 2 ^ nat (e + 300)" using assms(1,3) by (intro mult_le_mono power_increasing) auto
    finally show ?thesis using assms(2) by (intro single.rounded_overflow) simp_all
  qed
  ultimately show ?thesis by simp
qed

lemma div_round_normal:
  fixes q aS bS :: u32
  assumes q: "2 ^ 23 \<le> unat q" "unat q < 2 ^ 24" and aS: "unat aS = S" and bS: "unat bS = B" "B < 2 ^ 24"
    and lo: "unat q * B \<le> S * 2 ^ 23" and hi: "2 * (S * 2 ^ 23) < (2 * unat q + 3) * B"
    and e: "1 \<le> e" "e \<le> 254" and sg: "sg = (if neg then signBit else 0)"
  defines "r \<equiv> div_round sg e aS bS q (push_bit 23 aS - q * bS)"
  shows "rounds_quot (S * 2 ^ 23 * 2 ^ nat (e + 300)) (B * 2 ^ 301) (mag r) \<and> (negative r \<longleftrightarrow> neg)"
proof -
  define n where "n = nat e * 2 ^ 23 + (unat q - 2 ^ 23)"
  have nd: "n div 2 ^ 23 = nat e" using q by (simp add: n_def)
  have mn: "mval n = unat q * 2 ^ (nat e - 1)" using mval_normal [of "nat e" "unat q - 2 ^ 23"] e q by (simp add: n_def)
  have "nat e * 2 ^ 23 \<le> 254 * 2 ^ 23" using e by simp
  then have lt: "n < inf_mag" "n < 2 ^ 31 - 1" using q by (simp_all add: n_def inf_mag_def)
  define w where "w = (q AND significandMask) OR push_bit 23 (word_of_int e)"
  have w: "unat w = n" using unat_pack [of e 0 False q] e q by (simp add: w_def n_def le_mod_geq)
  define R where "R = 2 * (S * 2 ^ 23) - 2 * (unat q * B)"
  have R: "push_bit 1 (push_bit 23 aS - q * bS) = of_nat R"
  proof -
    have "(of_nat R :: u32) = of_nat (2 * (S * 2 ^ 23)) - of_nat (2 * (unat q * B))" unfolding R_def using lo by (intro of_nat_diff mult_le_mono2)
    then show ?thesis by (simp add: push_bit_eq_mult aS [symmetric] bS(1) [symmetric] algebra_simps)
  qed
  have "R < 3 * B" using hi lo by (simp add: R_def algebra_simps)
  then have "R < 2 ^ 32 - 1" using bS(2) by simp
  note rr = round_residual [OF w lt(2) R this sg, of bS, folded]
  have r: "r = (let residualLo = push_bit 1 (push_bit 23 aS - q * bS) + (w AND 1); w = w + of_bool (residualLo > bS) in w OR sg)"
    using e unfolding r_def div_round_def fp_consts(1) by (simp add: w_def Let_def)
  have c: "unat bS < R \<longleftrightarrow> (2 * unat q + 1) * B < 2 * (S * 2 ^ 23)" "unat bS = R \<longleftrightarrow> (2 * unat q + 1) * B = 2 * (S * 2 ^ 23)"
    using lo by (auto simp: R_def bS(1) algebra_simps)
  have "nat (e + 300) + 1 = nat e - 1 + 301 + 1" "nat e - 1 + 301 = nat (e + 300)" using e by simp_all
  then have p: "2 * (S * 2 ^ 23 * 2 ^ nat (e + 300)) = 2 * (S * 2 ^ 23) * 2 ^ nat (e + 300)"
    "2 ^ (nat e - 1) * (B * 2 ^ 301) = B * 2 ^ nat (e + 300)" by (simp_all only: mult_ac flip: power_add)
  have "rounds_quot (S * 2 ^ 23 * 2 ^ nat (e + 300)) (B * 2 ^ 301)
      (n + of_bool ((2 * unat q + 1) * B < 2 * (S * 2 ^ 23) \<or> odd n \<and> (2 * unat q + 1) * B = 2 * (S * 2 ^ 23)))"
    using lo hi nd by (intro rounds_quot_residual [OF lt(1) mn _ p]) (simp_all add: mult.commute)
  then show ?thesis using rr unfolding r [symmetric] c by simp
qed

lemma div_round_subnormal:
  fixes q aS bS resid :: u32
  assumes q: "unat q < 2 ^ 24" and aS: "unat aS = S" and bS: "unat bS = B" "B < 2 ^ 24"
    and lo: "unat q * B \<le> S * 2 ^ 23" and hi: "2 * (S * 2 ^ 23) < (2 * unat q + 3) * B"
    and e: "- 23 \<le> e" "e \<le> 0" and sg: "sg = (if neg then signBit else 0)"
  defines "r \<equiv> div_round sg e aS bS q resid"
  shows "rounds_quot (S * 2 ^ 23 * 2 ^ nat (e + 300)) (B * 2 ^ 301) (mag r) \<and> (negative r \<longleftrightarrow> neg)"
proof -
  define m sh n a where "m = nat (- e)" and "sh = Suc m" and "n = unat q div 2 ^ sh" and "a = S * 2 ^ (23 - m)"
  have m: "m \<le> 23" "nat (- e + 1) = sh" "nat (23 + e) = 23 - m" "nat (e + 300) = 300 - m" using e by (simp_all add: m_def sh_def)
  have a: "S * 2 ^ 23 = a * 2 ^ m" using m(1) by (simp add: a_def mult.assoc flip: power_add)
  define w where "w = drop_bit sh q"
  have w: "unat w = n" by (simp add: w_def n_def unat_drop_bit)
  have "unat q < 2 ^ 23 * 2 ^ sh" using q by (simp add: sh_def less_le_trans)
  then have n23: "n < 2 ^ 23" by (simp add: n_def div_less_iff_less_mult)
  have nq: "n * 2 ^ sh \<le> unat q" "unat q < (n + 1) * 2 ^ sh" by (simp_all add: n_def dividend_less_div_times)
  have L: "2 * (n * B) \<le> a"
  proof -
    have "2 * (n * B) * 2 ^ m = n * 2 ^ sh * B" by (simp add: sh_def)
    also have "\<dots> \<le> unat q * B" using nq(1) by (rule mult_le_mono1)
    finally have "2 * (n * B) * 2 ^ m \<le> a * 2 ^ m" using lo a by linarith
    then show ?thesis by simp
  qed
  have H: "a < (2 * n + 3) * B"
  proof -
    have "unat q + 1 \<le> (n + 1) * 2 ^ sh" using nq(2) by linarith
    then have "(unat q + 1) * B \<le> (n + 1) * 2 ^ sh * B" by (rule mult_le_mono1)
    moreover have "B \<le> B * 2 ^ m" by simp
    moreover have "(2 * unat q + 3) * B = 2 * ((unat q + 1) * B) + B" "(2 * ((2 * n + 3) * B)) * 2 ^ m = 2 * ((n + 1) * 2 ^ sh * B) + 2 * (B * 2 ^ m)"
      by (simp_all add: sh_def algebra_simps)
    ultimately have "2 * (a * 2 ^ m) < (2 * ((2 * n + 3) * B)) * 2 ^ m" using hi unfolding a by linarith
    then show ?thesis by simp
  qed
  define R where "R = a - 2 * (n * B)"
  have R: "push_bit (nat (23 + e)) aS - push_bit 1 (w * bS) = of_nat R"
  proof -
    have "(of_nat R :: u32) = of_nat a - of_nat (2 * (n * B))" unfolding R_def using L by (rule of_nat_diff)
    then show ?thesis by (simp add: push_bit_eq_mult a_def m(3) aS [symmetric] bS(1) [symmetric] w [symmetric] mult_ac)
  qed
  have "R < 3 * B" using H L by (simp add: R_def algebra_simps)
  then have "R < 2 ^ 32 - 1" using bS(2) by simp
  moreover have lt: "n < inf_mag" "n < 2 ^ 31 - 1" using n23 by (simp_all add: inf_mag_def)
  ultimately have rr: "mag r = n + of_bool (unat bS < R \<or> odd n \<and> unat bS = R)" "negative r \<longleftrightarrow> neg"
    if "r = (let residualLo = push_bit (nat (23 + e)) aS - push_bit 1 (w * bS) + (w AND 1); w = w + of_bool (residualLo > bS) in w OR sg)"
    using round_residual [OF w lt(2) R _ sg, of bS] that by simp_all
  have r: "r = (let residualLo = push_bit (nat (23 + e)) aS - push_bit 1 (w * bS) + (w AND 1); w = w + of_bool (residualLo > bS) in w OR sg)"
    using e unfolding r_def div_round_def fp_consts(1) by (simp add: w_def m(2)[symmetric] Let_def)
  have c: "unat bS < R \<longleftrightarrow> (2 * n + 1) * B < a" "unat bS = R \<longleftrightarrow> (2 * n + 1) * B = a"
    using L by (auto simp: R_def bS(1) algebra_simps)
  have "Suc (m + (300 - m)) = 301" using m(1) by simp
  then have p: "2 * (S * 2 ^ 23 * 2 ^ nat (e + 300)) = a * 2 ^ 301"
    unfolding a m(4) by (simp only: mult.assoc mult.left_commute [of 2] flip: power_add power_Suc)
  have "rounds_quot (S * 2 ^ 23 * 2 ^ nat (e + 300)) (B * 2 ^ 301) (n + of_bool ((2 * n + 1) * B < a \<or> odd n \<and> (2 * n + 1) * B = a))"
    using L H n23 by (intro rounds_quot_residual [OF lt(1) _ _ p, of n 1]) (simp_all add: mval_subnormal)
  then show ?thesis using rr [OF r] unfolding c by simp
qed

lemma div_round_underflow:
  fixes aS bS q resid :: u32
  assumes "e < - 23" and "a \<le> 2 ^ 24 * B" and sg: "sg = (if neg then signBit else 0)" and "- 300 \<le> e"
  defines "r \<equiv> div_round sg e aS bS q resid"
  shows "rounds_quot (a * 2 ^ nat (e + 300)) (B * 2 ^ 301) (mag r) \<and> (negative r \<longleftrightarrow> neg)"
proof -
  have "r = sg" using assms(1) by (simp add: r_def div_round_def fp_consts)
  moreover have "mag sg = 0" "negative sg \<longleftrightarrow> neg" by (simp_all add: sg mag_def negative_def fp_consts)
  moreover have "a * 2 ^ nat (e + 300) \<le> 2 ^ 24 * B * 2 ^ 276" using assms(1,2) by (intro mult_le_mono power_increasing) auto
  ultimately show ?thesis by (auto simp: rounded_def mval_def inf_mag_def)
qed

section \<open>Division\<close>

definition div_normal :: "u32 \<Rightarrow> u32 \<Rightarrow> u32" where
  "div_normal a b =
    (let (ea, sa) = unpack a; (eb, sb) = unpack b; sg = (a XOR b) AND signBit; e = ea - eb + exponentBias;
         aS = sa OR implicitBit; bS = sb OR implicitBit;
         q = fst (wideMultiply (reciprocal (push_bit 8 bS)) (push_bit 1 aS))
     in if q < push_bit 1 implicitBit
        then div_round sg (e - 1) (push_bit 1 aS) bS q (push_bit 24 aS - q * bS)
        else div_round sg e aS bS (drop_bit 1 q) (push_bit 23 aS - drop_bit 1 q * bS))"

lemma div_special_none:
  "div_special a b = None \<longleftrightarrow> 0 < mag a \<and> mag a < inf_mag \<and> 0 < mag b \<and> mag b < inf_mag"
  unfolding div_special_def Let_def abs_gt_inf abs_eq_0 is_nan_def abs_eq_inf by (auto split: if_splits)

lemma divXf3_cases:
  "divXf3 a b = (case div_special a b of Some r \<Rightarrow> r | None \<Rightarrow> div_normal a b)"
proof -
  define un where "un = (mag a < 2 ^ 23 \<or> inf_mag \<le> mag a \<or> mag b < 2 ^ 23 \<or> inf_mag \<le> mag b)"
  have un: "(ucast (drop_bit 23 a AND 0xFF) - 1 \<ge> (254 :: u16) \<or> ucast (drop_bit 23 b AND 0xFF) - 1 \<ge> (254 :: u16)) = un"
    unfolding exponent_test un_def by blast
  have sp: "(if un then div_special a b else None) = div_special a b"
    using div_special_none [of a b] by (auto simp: un_def not_less inf_mag_def)
  have ua: "mag a < 2 ^ 23 \<Longrightarrow> un" and ub: "mag b < 2 ^ 23 \<Longrightarrow> un" by (simp_all add: un_def)
  obtain aScale sa where pa: "(if un \<and> a AND absMask < implicitBit then normalize (a AND significandMask) else (0, a AND significandMask)) = (aScale, sa)"
    by fastforce
  obtain bScale sb where pb: "(if un \<and> b AND absMask < implicitBit then normalize (b AND significandMask) else (0, b AND significandMask)) = (bScale, sb)"
    by fastforce
  have upa: "unpack a = (int (unat (drop_bit 23 a AND 0xFF)) + aScale, sa)"
    using scaled_unpack [of a un Pair, OF ua] unfolding pa by simp
  have upb: "unpack b = (int (unat (drop_bit 23 b AND 0xFF)) + bScale, sb)"
    using scaled_unpack [of b un Pair, OF ub] unfolding pb by simp
  have e: "int m - int n + (s - t) + exponentBias = (int m + s) - (int n + t) + exponentBias" for m n s t by simp
  have w: "typeWidth - significandBits - 1 = 8" "significandBits + 1 = 24" by simp_all
  show ?thesis unfolding divXf3_def div_normal_def Let_def un sp pa pb upa upb case_prod_conv e w ..
qed

text \<open>What IEEE-754 asks of a quotient, rounded to nearest.\<close>

definition ieee_quotient :: "u32 \<Rightarrow> u32 \<Rightarrow> u32 \<Rightarrow> bool" where
  "ieee_quotient a b r \<longleftrightarrow>
    (if is_nan a \<or> is_nan b then is_nan r
     else if \<not> is_finite a \<and> \<not> is_finite b \<or> mag a = 0 \<and> mag b = 0 then is_nan r
     else (negative r \<longleftrightarrow> negative a \<noteq> negative b) \<and>
       (if \<not> is_finite a \<or> mag b = 0 then mag r = inf_mag
        else if \<not> is_finite b then mag r = 0
        else rounds_quot (mval (mag a) * 2 ^ 149) (mval (mag b)) (mag r)))"

lemma div_round_nearest:
  fixes q aS bS :: u32
  assumes q: "2 ^ 23 \<le> unat q" "unat q < 2 ^ 24" and aS: "unat aS = S" and bS: "unat bS = B" "B < 2 ^ 24"
    and lo: "unat q * B \<le> S * 2 ^ 23" and hi: "2 * (S * 2 ^ 23) < (2 * unat q + 3) * B" and le: "S * 2 ^ 23 \<le> 2 ^ 24 * B"
    and e: "- 300 \<le> e" and sg: "sg = (if neg then signBit else 0)"
  defines "r \<equiv> div_round sg e aS bS q (push_bit 23 aS - q * bS)"
  shows "rounds_quot (S * 2 ^ 23 * 2 ^ nat (e + 300)) (B * 2 ^ 301) (mag r) \<and> (negative r \<longleftrightarrow> neg)"
proof -
  have "0 < B" using hi lo by (cases B) simp_all
  have ge: "2 ^ 23 * B \<le> S * 2 ^ 23" using q(1) lo mult_le_mono1 [of "2 ^ 23" "unat q" B] by linarith
  consider "255 \<le> e" | "1 \<le> e" "e \<le> 254" | "- 23 \<le> e" "e \<le> 0" | "e < - 23" by linarith
  then show ?thesis unfolding r_def
  proof cases
    case 1
    show "rounds_quot (S * 2 ^ 23 * 2 ^ nat (e + 300)) (B * 2 ^ 301) (mag (div_round sg e aS bS q (push_bit 23 aS - q * bS))) \<and>
        (negative (div_round sg e aS bS q (push_bit 23 aS - q * bS)) \<longleftrightarrow> neg)"
      by (rule div_round_overflow [OF 1 \<open>0 < B\<close> ge sg])
  qed (rule div_round_normal [OF q aS bS lo hi _ _ sg] div_round_subnormal [OF q(2) aS bS lo hi _ _ sg]
        div_round_underflow [OF _ le sg e]; assumption)+
qed

lemma div_normal_nearest:
  assumes "0 < mag a" "mag a < inf_mag" "0 < mag b" "mag b < inf_mag"
  defines "r \<equiv> div_normal a b"
  shows "rounds_quot (mval (mag a) * 2 ^ 149) (mval (mag b)) (mag r) \<and> (negative r \<longleftrightarrow> negative a \<noteq> negative b)"
proof -
  obtain ea A where a: "unpack a = (ea, snd (unpack a))" "unat (snd (unpack a) OR implicitBit) = A"
    "2 ^ 23 \<le> A" "A < 2 ^ 24" "- 22 \<le> ea" "ea \<le> 254" "mval (mag a) * 2 ^ 24 = A * 2 ^ nat (ea + 23)"
    using unpack_val [OF assms(1,2)] by blast
  obtain eb B where b: "unpack b = (eb, snd (unpack b))" "unat (snd (unpack b) OR implicitBit) = B"
    "2 ^ 23 \<le> B" "B < 2 ^ 24" "- 22 \<le> eb" "eb \<le> 254" "mval (mag b) * 2 ^ 24 = B * 2 ^ nat (eb + 23)"
    using unpack_val [OF assms(3,4)] by blast
  define sa sb aS bS q e where "sa = snd (unpack a)" and "sb = snd (unpack b)" and "aS = sa OR implicitBit" and "bS = sb OR implicitBit"
    and "q = fst (wideMultiply (reciprocal (push_bit 8 bS)) (push_bit 1 aS))" and "e = ea - eb + 127"
  define X Q where "X = unat (reciprocal (push_bit 8 bS))" and "Q = X * (2 * A) div 2 ^ 32"
  note a = a [folded sa_def aS_def] and b = b [folded sb_def bS_def]
  have "unat (push_bit 1 aS) = A * 2 ^ 1 mod 2 ^ 32" unfolding unat_push_bit a(2) by simp
  then have A2: "unat (push_bit 1 aS) = 2 * A" using a(4) by simp
  define L where "L = unat (snd (wideMultiply (reciprocal (push_bit 8 bS)) (push_bit 1 aS)))"
  have "L < 2 ^ 32" unfolding L_def using unat_lt2 [of "snd (wideMultiply (reciprocal (push_bit 8 bS)) (push_bit 1 aS))"] by simp
  moreover have "unat q * 2 ^ 32 + L = X * (2 * A)"
    using wideMultiply_wide [of "reciprocal (push_bit 8 bS)" "push_bit 1 aS"] by (simp only: wide_def q_def X_def A2 L_def)
  ultimately have qQ: "unat q = Q" unfolding Q_def by (metis div_mult_self3 div_less add_0_right zero_neq_numeral power_not_zero)
  have X: "X * B \<le> 2 ^ 55" "2 ^ 55 \<le> X * B + 40 * B" unfolding X_def by (rule reciprocal_nat [OF b(2-4)])+
  have "0 < B" using b(3) by simp
  note QB = quotient_bounds [OF X a(4) \<open>0 < B\<close>, folded Q_def]
  have sg: "(a XOR b) AND signBit = (if negative a \<noteq> negative b then signBit else 0)"
    using sign_of [of "a XOR b"] by (simp add: negative_bit bit_xor_iff)
  define sg where "sg = (a XOR b) AND signBit"
  have r: "r = (if Q < 2 ^ 24 then div_round sg (e - 1) (push_bit 1 aS) bS q (push_bit 23 (push_bit 1 aS) - q * bS)
      else div_round sg e aS bS (drop_bit 1 q) (push_bit 23 aS - drop_bit 1 q * bS))"
    unfolding r_def div_normal_def Let_def a(1) b(1) case_prod_conv
    by (simp add: fp_consts word_less_nat_alt qQ [symmetric] sg_def e_def aS_def bS_def q_def)
  have R: "rounds_quot (A * 2 ^ 23 * 2 ^ nat (e + 300)) (B * 2 ^ 301) (mag r) \<and> (negative r \<longleftrightarrow> negative a \<noteq> negative b)"
  proof (cases "Q < 2 ^ 24")
    case True
    have "16 * 2 ^ 47 < 16 * (Q * B) + 21 * B" using QB(2) a(3) by simp
    have m: "Q * B + B \<le> k * B" if "Q < k" for k using mult_le_mono1 [of "Suc Q" k B] that by simp
    have "2 ^ 23 \<le> Q"
    proof (rule ccontr)
      assume "\<not> 2 ^ 23 \<le> Q"
      then have "Q * B + B \<le> 0x800000 * B" by (intro m) simp
      moreover have "0x8000000000000 < 16 * (Q * B) + 21 * B" "B < 0x1000000" using \<open>16 * 2 ^ 47 < _\<close> b(4) by simp_all
      ultimately show False by linarith
    qed
    moreover have "A \<le> B"
    proof (rule ccontr)
      assume "\<not> A \<le> B"
      moreover have "Q * B + B \<le> 0x1000000 * B" using True by (intro m) simp
      moreover have "0x10000000 * A < 16 * (Q * B) + 21 * B" "B < 0x1000000" using QB(2) b(4) by simp_all
      ultimately show False by linarith
    qed
    moreover have "2 * A * 2 ^ 23 = A * 2 ^ 24" "(2 * Q + 3) * B = 2 * (Q * B) + 3 * B" by (simp_all add: algebra_simps)
    ultimately have R: "rounds_quot (2 * A * 2 ^ 23 * 2 ^ nat (e - 1 + 300)) (B * 2 ^ 301) (mag r) \<and> (negative r \<longleftrightarrow> negative a \<noteq> negative b)"
      unfolding r if_P [OF True] using QB True a(5) b(6)
      by (intro div_round_nearest [OF _ _ A2 b(2,4) _ _ _ _ sg [folded sg_def]]) (simp_all add: qQ e_def)
    have "nat (e + 300) = Suc (nat (e - 1 + 300))" using a(5) b(6) by (simp add: e_def)
    then have "A * 2 ^ 23 * 2 ^ nat (e + 300) = 2 * A * 2 ^ 23 * 2 ^ nat (e - 1 + 300)" by (simp only: power_Suc mult_ac)
    then show ?thesis using R by (simp only:)
  next
    case False
    define h t where "h = Q div 2" and "t = Q mod 2"
    have h: "Q = 2 * h + t" "t \<le> 1" "unat (drop_bit 1 q) = h" by (simp_all add: h_def t_def unat_drop_bit qQ)
    obtain T where T: "T = t * B" "T \<le> B" using h(2) by simp
    have QB': "Q * B = 2 * (h * B) + T" "(2 * h + 3) * B = 2 * (h * B) + 3 * B" by (simp_all add: h(1) T(1) algebra_simps)
    have "h < 2 ^ 24"
    proof (rule ccontr)
      assume "\<not> h < 2 ^ 24"
      then have "2 ^ 24 * 2 ^ 23 \<le> h * B" using b(3) by (intro mult_le_mono) simp_all
      then show False using QB(1) QB' a(4) by simp
    qed
    moreover have "2 ^ 23 \<le> h" using False h(1,2) by simp
    moreover have "h * B \<le> A * 2 ^ 23" "2 * (A * 2 ^ 23) < (2 * h + 3) * B" "A * 2 ^ 23 \<le> 2 ^ 24 * B"
      using QB QB' T(2) a(4) b(3) by simp_all
    ultimately show ?thesis
      using div_round_nearest [OF _ _ a(2) b(2,4) _ _ _ _ sg, of "drop_bit 1 q" e, folded sg_def] False a(5) b(6)
      unfolding h(3) r by (simp add: e_def)
  qed
  define c :: nat where "c = 2 ^ 24 * 2 ^ nat (278 - eb)"
  have n: "nat (ea + 23) + nat (278 - eb) + 149 = 23 + nat (e + 300)" "nat (eb + 23) + nat (278 - eb) = 301"
    using a(5,6) b(5,6) by (simp_all add: e_def)
  have "mval (mag a) * 2 ^ 149 * c = mval (mag a) * 2 ^ 24 * 2 ^ nat (278 - eb) * 2 ^ 149" by (simp only: c_def mult_ac)
  also have "\<dots> = A * 2 ^ 23 * 2 ^ nat (e + 300)" unfolding a(7) by (simp only: mult.assoc n flip: power_add)
  finally have v: "mval (mag a) * 2 ^ 149 * c = A * 2 ^ 23 * 2 ^ nat (e + 300)" .
  have d: "mval (mag b) * c = B * 2 ^ 301" unfolding c_def mult.assoc [symmetric] b(7) by (simp only: mult.assoc n flip: power_add)
  have c0: "0 < c" by (simp add: c_def)
  from R show ?thesis unfolding rounded_scale [OF c0, of mval inf_mag "mval (mag b)" "mval (mag a) * 2 ^ 149", unfolded v d] .
qed

lemma div_special_quotient:
  assumes "div_special a b = Some r"
  shows "ieee_quotient a b r"
proof -
  define sg where "sg = (a XOR b) AND signBit"
  have sg: "sg = (if negative a \<noteq> negative b then signBit else 0)"
    using sign_of [of "a XOR b"] by (simp add: sg_def negative_bit bit_xor_iff)
  then have s0: "mag sg = 0" "negative sg \<longleftrightarrow> negative a \<noteq> negative b" by (simp_all add: mag_def negative_def fp_consts)
  have si: "mag (infRep OR sg) = inf_mag" "negative (infRep OR sg) \<longleftrightarrow> negative a \<noteq> negative b"
    using mag_or_sign [of infRep] mag_small [of infRep] by (simp_all add: sg inf_mag_def fp_consts(7))
  have z: "0 < inf_mag" by (simp add: inf_mag_def)
  have q0: "rounds_quot 0 (mval k) 0" for k by (auto simp: rounded_def mval_def)
  show ?thesis
  proof (cases "is_nan a \<or> is_nan b")
    case True
    then have "is_nan r" using assms quiet_nan unfolding div_special_def Let_def abs_gt_inf by (auto split: if_splits)
    then show ?thesis using True by (simp add: ieee_quotient_def)
  next
    case False
    have i: "infRep OR sg = x AND absMask OR sg" if "mag x = inf_mag" for x using that by (simp flip: abs_eq_inf)
    have "r = (if mag a = inf_mag then if mag b = inf_mag then qnanRep else infRep OR sg
        else if mag b = inf_mag then sg else if mag a = 0 then if mag b = 0 then qnanRep else sg else infRep OR sg) \<and>
        (mag a = inf_mag \<or> mag b = inf_mag \<or> mag a = 0 \<or> mag b = 0)"
      using assms False i [of a] unfolding div_special_def Let_def abs_gt_inf abs_eq_0 abs_eq_inf sg_def [symmetric] by (auto split: if_splits)
    then show ?thesis using False qnan_nan si s0 z q0 [of "mag b"] by (auto simp: ieee_quotient_def is_nan_def is_finite_def)
  qed
qed

lemma div_nearest: "ieee_quotient a b (divsf3 a b)"
proof (cases "div_special a b")
  case (Some r)
  then show ?thesis using div_special_quotient by (simp add: divsf3_def divXf3_cases)
next
  case None
  then have m: "0 < mag a" "mag a < inf_mag" "0 < mag b" "mag b < inf_mag" by (simp_all add: div_special_none)
  from div_normal_nearest [OF this] m None show ?thesis
    by (simp add: divsf3_def divXf3_cases ieee_quotient_def is_nan_def is_finite_def)
qed

text \<open>
  C7. Division is that of IEEE-754 in the mode to nearest, for all operands: three Newton iterations and one comparison give the
  quotient of the values rounded to nearest, ties to even, with gradual underflow and overflow to infinity; zero divided by
  zero, infinity divided by infinity and operands that are not numbers give a result that is not a number.
\<close>

theorem divsf3_correct: "ieee_quotient a b (divsf3 a b)"
  by (rule div_nearest)

end
