(* ===== verification/Libm_Atan.thy ===== *)
theory Libm_Atan
  imports Libm_Scale Libm_Trig Softfloat_Quotient
begin

text \<open>
  The inverse tangent, \<^verbatim>\<open>sf_atan.c\<close> and \<^verbatim>\<open>sf_atan2.c\<close>, over the software floating point. Constants are the nearest single
  precision numbers to the decimal ones of the source. Words without their sign bit are compared as unsigned numbers.
\<close>

section \<open>The functions\<close>

definition atanhi :: "nat \<Rightarrow> u32" where
  "atanhi i = [0x3EED6338, 0x3F490FDA, 0x3F7B985E, 0x3FC90FDA] ! i"

definition atanlo :: "nat \<Rightarrow> u32" where
  "atanlo i = [0x31AC3769, 0x33222168, 0x33140FB4, 0x33A22168] ! i"

definition aT :: "nat \<Rightarrow> u32" where
  "aT i = [0x3EAAAAAB, 0xBE4CCCCD, 0x3E124925, 0xBDE38E38, 0x3DBA2E6E, 0xBD9D8795, 0x3D886B35, 0xBD6EF16B, 0x3D4BDA59,
    0xBD15A221, 0x3C8569D7] ! i"

definition two_f :: u32 where "two_f = 0x40000000"
definition one_half_f :: u32 where "one_half_f = 0x3FC00000"
definition three_f :: u32 where "three_f = 0x40400000"

text \<open>The reduced argument and the number of the breakpoint; none for small arguments.\<close>

definition atan_reduce :: "u32 \<Rightarrow> u32 \<Rightarrow> nat option \<times> u32" where
  "atan_reduce ix x =
    (if ix < 0x3EE00000 then (None, x)
     else let x = fabsf x
          in if ix < 0x3F980000
             then if ix < 0x3F300000 then (Some 0, divsf3 (fsub (mulsf3 two_f x) one_f) (fadd two_f x))
                  else (Some 1, divsf3 (fsub x one_f) (fadd x one_f))
             else if ix < 0x401C0000 then (Some 2, divsf3 (fsub x one_half_f) (fadd one_f (mulsf3 one_half_f x)))
             else (Some 3, divsf3 (negsf2 one_f) x))"

definition atan_poly :: "u32 \<Rightarrow> u32" where
  "atan_poly z =
    (let w = mulsf3 z z;
         s1 = mulsf3 z (fadd (aT 0) (mulsf3 w (fadd (aT 2) (mulsf3 w (fadd (aT 4) (mulsf3 w (fadd (aT 6)
                (mulsf3 w (fadd (aT 8) (mulsf3 w (aT 10)))))))))));
         s2 = mulsf3 w (fadd (aT 1) (mulsf3 w (fadd (aT 3) (mulsf3 w (fadd (aT 5) (mulsf3 w (fadd (aT 7) (mulsf3 w (aT 9)))))))))
     in fadd s1 s2)"

definition atanf :: "u32 \<Rightarrow> u32" where
  "atanf x =
    (let hx = x; ix = hx AND 0x7FFFFFFF
     in if ix \<ge> 0x50800000
        then if FLT_UWORD_IS_NAN ix then fadd x x
             else if sint hx > 0 then fadd (atanhi 3) (atanlo 3)
             else fsub (negsf2 (atanhi 3)) (atanlo 3)
        else if ix < 0x31000000 then x
        else case atan_reduce ix x of
               (None, x) \<Rightarrow> fsub x (mulsf3 x (atan_poly (mulsf3 x x)))
             | (Some i, x) \<Rightarrow>
                 let z = fsub (atanhi i) (fsub (fsub (mulsf3 x (atan_poly (mulsf3 x x))) (atanlo i)) x)
                 in if sint hx < 0 then negsf2 z else z)"

definition tiny :: u32 where "tiny = 0x0DA24260"
definition pi_o_4 :: u32 where "pi_o_4 = 0x3F490FDB"
definition pi_o_2 :: u32 where "pi_o_2 = 0x3FC90FDB"
definition pi_f :: u32 where "pi_f = 0x40490FDB"
definition pi_lo :: u32 where "pi_lo = 0xB3BBBD2E"

definition atan2_quotient :: "u32 \<Rightarrow> u32 \<Rightarrow> u32" where
  "atan2_quotient y x =
    (let k = sint ((y AND 0x7FFFFFFF) - (x AND 0x7FFFFFFF)) div 2 ^ 23
     in if k > 60 then fadd pi_o_2 (mulsf3 half_f pi_lo)
        else if sint x < 0 \<and> k < - 60 then 0
        else atanf (check_uflowf (fabsf (divsf3 y x))))"

definition atan2f :: "u32 \<Rightarrow> u32 \<Rightarrow> u32" where
  "atan2f y x =
    (let hx = x; ix = hx AND 0x7FFFFFFF; hy = y; iy = hy AND 0x7FFFFFFF
     in if FLT_UWORD_IS_NAN ix \<or> FLT_UWORD_IS_NAN iy then fadd x y
        else if hx = 0x3F800000 then atanf y
        else let m = (sint hy div 2 ^ 31 AND 1) OR (sint hx div 2 ^ 30 AND 2)
             in if FLT_UWORD_IS_ZERO iy
                then if m = 0 \<or> m = 1 then y else if m = 2 then fadd pi_f tiny else fsub (negsf2 pi_f) tiny
                else if FLT_UWORD_IS_ZERO ix
                then if sint hy < 0 then fsub (negsf2 pi_o_2) tiny else fadd pi_o_2 tiny
                else if FLT_UWORD_IS_INFINITE ix
                then if FLT_UWORD_IS_INFINITE iy
                     then if m = 0 then fadd pi_o_4 tiny
                          else if m = 1 then fsub (negsf2 pi_o_4) tiny
                          else if m = 2 then fadd (mulsf3 three_f pi_o_4) tiny
                          else fsub (mulsf3 (negsf2 three_f) pi_o_4) tiny
                     else if m = 0 then 0
                          else if m = 1 then 0x80000000
                          else if m = 2 then fadd pi_f tiny
                          else fsub (negsf2 pi_f) tiny
                else if FLT_UWORD_IS_INFINITE iy
                then if sint hy < 0 then fsub (negsf2 pi_o_2) tiny else fadd pi_o_2 tiny
                else let z = atan2_quotient y x
                     in if m = 0 then z
                        else if m = 1 then z XOR 0x80000000
                        else if m = 2 then fsub pi_f (fsub z pi_lo)
                        else fsub (fsub z pi_lo) pi_f)"

section \<open>Negation\<close>

text \<open>Equality up to the pattern of what is not a number and the sign of a zero.\<close>

definition same_value :: "u32 \<Rightarrow> u32 \<Rightarrow> bool" where
  "same_value a b \<longleftrightarrow> same_float a b \<or> mag a = 0 \<and> mag b = 0"

lemma same_valueI: "same_float a b \<Longrightarrow> same_value a b"
  by (simp add: same_value_def)

lemma same_value_trans: "same_float a b \<Longrightarrow> same_value b c \<Longrightarrow> same_value a c"
  by (auto simp: same_value_def same_float_def is_nan_def)

lemma negsf2_parts [simp]: "mag (negsf2 a) = mag a" "negative (negsf2 a) \<longleftrightarrow> \<not> negative a" "fval (negsf2 a) = - fval a"
  by (simp_all add: negsf2_fields fval_def)

lemma fadd_sum: "ieee_sum a b (fadd a b)"
  using add_nearest [of a b] by (simp add: fadd_def addsf3_def)

lemma sum_neg:
  assumes r: "ieee_sum a b r" and r': "ieee_sum a' b' r'"
    and a: "mag a' = mag a" "negative a' \<longleftrightarrow> \<not> negative a" and b: "mag b' = mag b" "negative b' \<longleftrightarrow> \<not> negative b"
  shows "same_value r' (negsf2 r)"
proof -
  have c: "is_nan a' = is_nan a" "is_nan b' = is_nan b" "is_finite a' = is_finite a" "is_finite b' = is_finite b"
    "fval a' = - fval a" "fval b' = - fval b" using a b by (simp_all add: is_nan_def is_finite_def fval_def)
  show ?thesis
  proof (cases "is_finite a \<and> is_finite b")
    case True
    define x where "x = fval a + fval b"
    have f: "rounds_to (nat \<bar>x\<bar>) 0 (mag r)" "rounds_to (nat \<bar>x\<bar>) 0 (mag r')" "x \<noteq> 0 \<Longrightarrow> negative r \<longleftrightarrow> x < 0" "x \<noteq> 0 \<Longrightarrow> negative r' \<longleftrightarrow> 0 < x"
    proof -
      have n: "\<not> is_nan a" "\<not> is_nan b" using True by (simp_all add: is_nan_def is_finite_def)
      have e: "fval a' + fval b' = - x" by (simp add: c x_def)
      show "rounds_to (nat \<bar>x\<bar>) 0 (mag r)" "x \<noteq> 0 \<Longrightarrow> negative r \<longleftrightarrow> x < 0" using r True n by (simp_all add: ieee_sum_def Let_def x_def)
      show "rounds_to (nat \<bar>x\<bar>) 0 (mag r')" "x \<noteq> 0 \<Longrightarrow> negative r' \<longleftrightarrow> 0 < x"
        using r' True n by (simp_all add: ieee_sum_def Let_def e c(1-4))
    qed
    show ?thesis
    proof (cases "x = 0")
      case True
      then have "mag r = 0" "mag r' = 0" using f(1,2) rounds_to_unique rounds_to_exact [of 0 0] by simp_all
      then show ?thesis by (simp add: same_value_def)
    next
      case False
      then have "r' = negsf2 r" using f rounds_to_unique by (intro float_eqI) auto
      then show ?thesis by (simp add: same_value_def)
    qed
  next
    case False
    then show ?thesis using r r' a b by (auto simp: ieee_sum_def Let_def c same_value_def same_float_def split: if_splits intro!: float_eqI)
  qed
qed

lemma fsub_neg_neg: "same_value (fsub (negsf2 a) (negsf2 b)) (negsf2 (fsub a b))"
  unfolding fsub_add by (rule sum_neg [OF fadd_sum fadd_sum]) simp_all

lemma fadd_neg_neg: "same_value (fadd (negsf2 a) (negsf2 b)) (negsf2 (fadd a b))"
  by (rule sum_neg [OF fadd_sum fadd_sum]) simp_all

lemma sum_commute: "ieee_sum a b r \<Longrightarrow> ieee_sum b a r"
  by (auto simp: ieee_sum_def Let_def is_nan_def is_finite_def add.commute split: if_splits intro!: float_eqI)

lemma fsub_swap: "same_value (fsub a b) (negsf2 (fsub b a))"
  unfolding fsub_add by (rule sum_neg [OF sum_commute [OF fadd_sum] fadd_sum]) simp_all

section \<open>Symmetry of the inverse tangent\<close>

lemma abs_word_neg: "negsf2 x AND 0x7FFFFFFF = x AND 0x7FFFFFFF"
  using abs_unat [of x] abs_unat [of "negsf2 x"] by (simp add: word_unat_eq_iff fp_consts)

lemma fabsf_neg: "fabsf (negsf2 x) = fabsf x"
  by (simp add: fabsf_def abs_word_neg)

lemma sub_cong: "same_float a a' \<Longrightarrow> same_float b b' \<Longrightarrow> same_float (fsub a b) (fsub a' b')"
  unfolding fsub_add by (intro add_cong neg_cong)

lemma atan_poly_cong:
  assumes "same_float z z'"
  shows "same_float (atan_poly z) (atan_poly z')"
proof -
  have "same_float (mulsf3 z z) (mulsf3 z' z')" using assms by (intro mul_cong)
  then show ?thesis unfolding atan_poly_def Let_def using assms by (intro same_float_cong same_float_refl)
qed

lemma atan_reduce_neg:
  "atan_reduce ix (negsf2 x) = (case atan_reduce ix x of (None, y) \<Rightarrow> (None, negsf2 y) | (Some i, y) \<Rightarrow> (Some i, y))"
  by (simp add: atan_reduce_def fabsf_neg Let_def)

lemma sint_pos: "sint x > 0 \<longleftrightarrow> \<not> negative x \<and> mag x \<noteq> 0" for x :: u32
proof -
  have "sint x = 0 \<longleftrightarrow> unat x = 0" by (simp add: unat_eq_zero signed_eq_0_iff)
  moreover have "unat x = 0 \<longleftrightarrow> \<not> negative x \<and> mag x = 0" using unat_split [of x] by auto
  moreover have "sint x > 0 \<longleftrightarrow> \<not> sint x < 0 \<and> sint x \<noteq> 0" by linarith
  ultimately show ?thesis unfolding sint_sign by metis
qed

lemma atan_small_neg:
  "same_value (fsub (negsf2 x) (mulsf3 (negsf2 x) (atan_poly (mulsf3 (negsf2 x) (negsf2 x)))))
     (negsf2 (fsub x (mulsf3 x (atan_poly (mulsf3 x x)))))"
proof (rule same_value_trans)
  have "same_float (mulsf3 (negsf2 x) (atan_poly (mulsf3 (negsf2 x) (negsf2 x)))) (mulsf3 (negsf2 x) (atan_poly (mulsf3 x x)))"
    by (intro mul_cong atan_poly_cong mul_neg_neg same_float_refl)
  also have "same_float \<dots> (negsf2 (mulsf3 x (atan_poly (mulsf3 x x))))" by (rule mul_neg)
  finally show "same_float (fsub (negsf2 x) (mulsf3 (negsf2 x) (atan_poly (mulsf3 (negsf2 x) (negsf2 x)))))
      (fsub (negsf2 x) (negsf2 (mulsf3 x (atan_poly (mulsf3 x x)))))" by (intro sub_cong same_float_refl)
qed (rule fsub_neg_neg)

lemma atanf_neg: "same_value (atanf (negsf2 x)) (negsf2 (atanf x))"
proof -
  define ix where "ix = x AND 0x7FFFFFFF"
  have n: "unat ix = mag x" using abs_unat [of x] by (simp add: ix_def fp_consts)
  note f = atanf_def [of x, unfolded Let_def, folded ix_def] atanf_def [of "negsf2 x", unfolded Let_def abs_word_neg, folded ix_def]
  consider "ix \<ge> 0x50800000" "FLT_UWORD_IS_NAN ix" | "ix \<ge> 0x50800000" "\<not> FLT_UWORD_IS_NAN ix" | "ix < 0x31000000" "\<not> ix \<ge> 0x50800000"
    | "\<not> ix \<ge> 0x50800000" "\<not> ix < 0x31000000" by blast
  then show ?thesis
  proof cases
    case 1
    then have "is_nan x" by (simp add: FLT_UWORD_IS_NAN_def is_nan_def word_less_nat_alt n inf_mag_def)
    then have "is_nan (fadd x x)" "is_nan (fadd (negsf2 x) (negsf2 x))" using fadd_sum [of x x] fadd_sum [of "negsf2 x" "negsf2 x"]
      by (simp_all add: ieee_sum_def Let_def)
    then show ?thesis using 1 by (simp add: f same_value_def same_float_def)
  next
    case 2
    then have "mag x \<noteq> 0" using n by (auto simp: word_le_nat_alt)
    then have "atanf x = (if negative x then fsub (negsf2 (atanhi 3)) (atanlo 3) else fadd (atanhi 3) (atanlo 3))"
      "atanf (negsf2 x) = (if negative x then fadd (atanhi 3) (atanlo 3) else fsub (negsf2 (atanhi 3)) (atanlo 3))"
      using 2 by (simp_all add: f sint_pos)
    then show ?thesis using fadd_neg_neg [of "atanhi 3" "atanlo 3"] fadd_neg_neg [of "negsf2 (atanhi 3)" "negsf2 (atanlo 3)"]
      by (simp add: fsub_add)
  next
    case 3
    then show ?thesis by (simp add: f same_value_def)
  next
    case 4
    obtain i y where r: "atan_reduce ix x = (i, y)" by (cases "atan_reduce ix x")
    show ?thesis
    proof (cases i)
      case None
      then show ?thesis using 4 r atan_small_neg [of y] by (simp add: f atan_reduce_neg)
    next
      case (Some k)
      then show ?thesis using 4 r by (simp add: f atan_reduce_neg sint_sign same_value_def Let_def)
    qed
  qed
qed

section \<open>The inverse tangent of a quotient\<close>

lemma quadrant:
  "(sint y div 2 ^ 31 AND 1) OR (sint x div 2 ^ 30 AND 2) = (if negative y then 1 else 0) + (if negative x then 2 else 0)" for x y :: u32
proof -
  have r: "- (2 ^ 31) \<le> sint w" "sint w < 2 ^ 31" for w :: u32 using sint_range_size [of w] by (simp_all add: word_size)
  have "sint y div 2 ^ 31 = (if negative y then - 1 else 0)" using r [of y] by (auto simp: sint_sign [symmetric] div_eq_minus1 div_pos_pos_trivial)
  moreover have "sint x div 2 ^ 30 \<in> (if negative x then {- 2, - 1} else {0, 1})"
  proof (cases "negative x")
    case True
    then have "sint x < 0" by (simp add: sint_sign)
    then have "sint x div 2 ^ 30 < 0" by (simp add: pos_imp_zdiv_neg_iff)
    moreover have "- (2 ^ 31) div 2 ^ 30 \<le> sint x div 2 ^ 30" using r [of x] by (intro zdiv_mono1) simp_all
    ultimately show ?thesis using True by auto
  next
    case False
    then have "0 \<le> sint x" by (simp flip: sint_sign)
    then have "0 \<le> sint x div 2 ^ 30" by (simp add: pos_imp_zdiv_nonneg_iff)
    moreover have "sint x div 2 ^ 30 \<le> (2 ^ 31 - 1) div 2 ^ 30" using r [of x] by (intro zdiv_mono1) simp_all
    ultimately show ?thesis using False by auto
  qed
  ultimately show ?thesis by (auto split: if_splits)
qed

text \<open>The constants of the special cases.\<close>

lemma atan2_consts:
  "fadd pi_f tiny = pi_f" "fsub (negsf2 pi_f) tiny = negsf2 pi_f" "fadd pi_o_2 tiny = pi_o_2" "fsub (negsf2 pi_o_2) tiny = negsf2 pi_o_2"
  "fadd pi_o_4 tiny = pi_o_4" "fsub (negsf2 pi_o_4) tiny = negsf2 pi_o_4"
  "fadd (mulsf3 three_f pi_o_4) tiny = 0x4016CBE4" "fsub (mulsf3 (negsf2 three_f) pi_o_4) tiny = negsf2 0x4016CBE4"
proof -
  have n: "negsf2 pi_f = 0xC0490FDB" "negsf2 tiny = 0x8DA24260" "negsf2 pi_o_2 = 0xBFC90FDB" "negsf2 pi_o_4 = 0xBF490FDB"
    "negsf2 three_f = 0xC0400000" "negsf2 0x4016CBE4 = 0xC016CBE4"
    by (simp_all add: negsf2_def fp_consts pi_f_def tiny_def pi_o_2_def pi_o_4_def three_f_def)
  have m: "mulsf3 three_f pi_o_4 = 0x4016CBE4" "mulsf3 0xC0400000 pi_o_4 = 0xC016CBE4"
    by (rule mul_eval; simp add: eval_defs three_f_def pi_o_4_def)+
  show "fadd pi_f tiny = pi_f" "fsub (negsf2 pi_f) tiny = negsf2 pi_f" "fadd pi_o_2 tiny = pi_o_2" "fsub (negsf2 pi_o_2) tiny = negsf2 pi_o_2"
    "fadd pi_o_4 tiny = pi_o_4" "fsub (negsf2 pi_o_4) tiny = negsf2 pi_o_4"
    "fadd (mulsf3 three_f pi_o_4) tiny = 0x4016CBE4" "fsub (mulsf3 (negsf2 three_f) pi_o_4) tiny = negsf2 0x4016CBE4"
    unfolding n m fsub_add by ((rule add_eval; simp add: eval_defs pi_f_def tiny_def pi_o_2_def pi_o_4_def)+)
qed

definition with_sign :: "u32 \<Rightarrow> u32 \<Rightarrow> u32" where
  "with_sign y c = (if negative y then negsf2 c else c)"

text \<open>The cases of the code, with the fields of the operands.\<close>

lemma atan2f_cases:
  "atan2f y x =
    (if is_nan x \<or> is_nan y then fadd x y
     else if x = 0x3F800000 then atanf y
     else if mag y = 0 then if negative x then with_sign y pi_f else y
     else if mag x = 0 then with_sign y pi_o_2
     else if mag x = inf_mag
     then if mag y = inf_mag then with_sign y (if negative x then 0x4016CBE4 else pi_o_4) else with_sign y (if negative x then pi_f else 0)
     else if mag y = inf_mag then with_sign y pi_o_2
     else let z = atan2_quotient y x
          in if negative x then if negative y then fsub (fsub z pi_lo) pi_f else fsub pi_f (fsub z pi_lo) else with_sign y z)"
proof -
  have z: "negsf2 w = w XOR 0x80000000" for w by (simp add: negsf2_def fp_consts)
  have z0: "(0x80000000 :: u32) = negsf2 0" by (simp add: z)
  show ?thesis unfolding atan2f_def Let_def uword_classes quadrant sint_sign atan2_consts z [symmetric] unfolding z0
    by (cases "negative x"; cases "negative y") (simp_all add: with_sign_def)
qed

lemma atan2_quotient_neg: "is_finite y \<Longrightarrow> is_finite x \<Longrightarrow> mag x \<noteq> 0 \<Longrightarrow> atan2_quotient (negsf2 y) x = atan2_quotient y x"
proof -
  assume f: "is_finite y" "is_finite x" "mag x \<noteq> 0"
  have q: "ieee_quotient y x (divsf3 y x)" "ieee_quotient (negsf2 y) x (divsf3 (negsf2 y) x)" by (rule div_nearest)+
  have "mag (divsf3 (negsf2 y) x) = mag (divsf3 y x)" using f q single.rounded_unique [of "mval (mag x)" "mval (mag y) * 2 ^ 149"] mval_pos
    by (simp add: ieee_quotient_def is_nan_def is_finite_def)
  then have e: "fabsf (divsf3 (negsf2 y) x) = fabsf (divsf3 y x)"
    using abs_unat [of "divsf3 y x"] abs_unat [of "divsf3 (negsf2 y) x"] by (simp add: fabsf_def word_unat_eq_iff fp_consts)
  show "atan2_quotient (negsf2 y) x = atan2_quotient y x" unfolding atan2_quotient_def abs_word_neg e ..
qed

lemma atan2f_neg: "same_value (atan2f (negsf2 y) x) (negsf2 (atan2f y x))"
proof -
  have w: "with_sign (negsf2 y) c = negsf2 (with_sign y c)" for c by (simp add: with_sign_def)
  consider "is_nan x \<or> is_nan y" | "\<not> is_nan x" "\<not> is_nan y" "x = 0x3F800000"
    | "\<not> is_nan x" "\<not> is_nan y" "x \<noteq> 0x3F800000" "mag y = 0 \<or> mag x = 0 \<or> mag x = inf_mag \<or> mag y = inf_mag"
    | "\<not> is_nan x" "\<not> is_nan y" "x \<noteq> 0x3F800000" "mag y \<noteq> 0" "mag x \<noteq> 0" "mag x \<noteq> inf_mag" "mag y \<noteq> inf_mag" by blast
  then show ?thesis
  proof cases
    case 1
    then have "is_nan (fadd x y)" "is_nan (fadd x (negsf2 y))" using fadd_sum [of x y] fadd_sum [of x "negsf2 y"] by (auto simp: ieee_sum_def Let_def)
    then show ?thesis using 1 by (auto simp: atan2f_cases [of y] atan2f_cases [of "negsf2 y"] same_value_def same_float_def)
  next
    case 2
    then show ?thesis using atanf_neg [of y] by (simp add: atan2f_cases [of y] atan2f_cases [of "negsf2 y"])
  next
    case 3
    then have "atan2f (negsf2 y) x = negsf2 (atan2f y x)" by (auto simp: atan2f_cases [of y] atan2f_cases [of "negsf2 y"] w)
    then show ?thesis by (simp add: same_value_def)
  next
    case 4
    define z where "z = atan2_quotient y x"
    have "atan2_quotient (negsf2 y) x = z" unfolding z_def using 4 by (intro atan2_quotient_neg) (simp_all add: is_finite_def is_nan_def)
    then have "atan2f y x = (if negative x then if negative y then fsub (fsub z pi_lo) pi_f else fsub pi_f (fsub z pi_lo) else with_sign y z)"
      "atan2f (negsf2 y) x = (if negative x then if negative y then fsub pi_f (fsub z pi_lo) else fsub (fsub z pi_lo) pi_f else negsf2 (with_sign y z))"
      using 4 by (simp_all add: atan2f_cases [of y] atan2f_cases [of "negsf2 y"] w Let_def z_def)
    then show ?thesis using fsub_swap [of pi_f "fsub z pi_lo"] fsub_swap [of "fsub z pi_lo" pi_f] by (auto simp: same_value_def)
  qed
qed

lemma atanf_special: "mag y = 0 \<Longrightarrow> atanf y = y" "mag y = inf_mag \<Longrightarrow> atanf y = with_sign y pi_o_2"
proof -
  have u: "unat (y AND 0x7FFFFFFF) = mag y" using abs_unat [of y] by (simp add: fp_consts)
  show "atanf y = y" if "mag y = 0"
  proof -
    have "y AND 0x7FFFFFFF = 0" using u that by (simp add: unat_eq_zero)
    then show ?thesis by (simp add: atanf_def Let_def)
  qed
  have c: "fadd (atanhi 3) (atanlo 3) = pi_o_2" "fsub (negsf2 (atanhi 3)) (atanlo 3) = negsf2 pi_o_2"
  proof -
    have n: "negsf2 (atanhi 3) = 0xBFC90FDA" "negsf2 (atanlo 3) = 0xB3A22168" "negsf2 pi_o_2 = 0xBFC90FDB"
      by (simp_all add: negsf2_def fp_consts atanhi_def atanlo_def pi_o_2_def)
    show "fadd (atanhi 3) (atanlo 3) = pi_o_2" "fsub (negsf2 (atanhi 3)) (atanlo 3) = negsf2 pi_o_2"
      unfolding n fsub_add by ((rule add_eval; simp add: eval_defs atanhi_def atanlo_def pi_o_2_def)+)
  qed
  show "atanf y = with_sign y pi_o_2" if "mag y = inf_mag"
  proof -
    have "y AND 0x7FFFFFFF = 0x7F800000" using u that by (simp add: word_unat_eq_iff inf_mag_def)
    moreover have "mag y \<noteq> 0" using that by (simp add: inf_mag_def)
    ultimately show ?thesis by (simp add: atanf_def Let_def FLT_UWORD_IS_NAN_def sint_pos c with_sign_def)
  qed
qed

lemma atan2f_table:
  "if is_nan y \<or> is_nan x then is_nan (atan2f y x)
   else if mag y = 0 then atan2f y x = (if negative x then with_sign y pi_f else y)
   else if mag x = 0 then atan2f y x = with_sign y pi_o_2
   else if mag x = inf_mag \<and> mag y = inf_mag then atan2f y x = with_sign y (if negative x then 0x4016CBE4 else pi_o_4)
   else if mag x = inf_mag then atan2f y x = with_sign y (if negative x then pi_f else 0)
   else if mag y = inf_mag then atan2f y x = with_sign y pi_o_2
   else True"
proof -
  have n: "is_nan (fadd x y)" if "is_nan y \<or> is_nan x" using fadd_sum [of x y] that by (auto simp: ieee_sum_def Let_def)
  have one: "mag 0x3F800000 \<noteq> 0" "mag 0x3F800000 \<noteq> inf_mag" "\<not> negative 0x3F800000" "\<not> is_nan 0x3F800000"
    by (simp_all add: mag_def negative_def is_nan_def fp_consts inf_mag_def)
  show ?thesis using n one atanf_special [of y] by (cases "x = 0x3F800000") (auto simp: atan2f_cases [of y])
qed

text \<open>
  C29. The inverse tangent is odd, and \<^verbatim>\<open>atan2f\<close> is odd in its first argument, for all arguments, up to the sign of a zero and the
  pattern of what is not a number. \<^verbatim>\<open>atan2f\<close> gives the results that the C standard lists for zeros and infinities of either sign:
  the number nearest to the multiple of \<open>\<pi>/4\<close> that the quadrant asks for, with the sign of the first argument; zeros stay
  unchanged in the right half plane, and operands that are not numbers give a result that is not one.
\<close>

theorem atan_correct:
  "same_value (atanf (negsf2 x)) (negsf2 (atanf x)) \<and> same_value (atan2f (negsf2 y) x) (negsf2 (atan2f y x)) \<and>
   (if is_nan y \<or> is_nan x then is_nan (atan2f y x)
    else if mag y = 0 then atan2f y x = (if negative x then with_sign y pi_f else y)
    else if mag x = 0 then atan2f y x = with_sign y pi_o_2
    else if mag x = inf_mag \<and> mag y = inf_mag then atan2f y x = with_sign y (if negative x then 0x4016CBE4 else pi_o_4)
    else if mag x = inf_mag then atan2f y x = with_sign y (if negative x then pi_f else 0)
    else if mag y = inf_mag then atan2f y x = with_sign y pi_o_2
    else True)"
  using atanf_neg atan2f_neg atan2f_table by blast

end
