(* ===== verification/Libm_Hypot.thy ===== *)
theory Libm_Hypot
  imports Libm_Sqrt Libm_Atan
begin

text \<open>
  The length of a vector, \<^verbatim>\<open>hypotf\<close> (\<^verbatim>\<open>sf_hypot.c\<close>), and the test for signaling patterns (\<^verbatim>\<open>sf_issignaling.c\<close> with
  \<^verbatim>\<open>math_config.h\<close>). The root returns an option, so \<^verbatim>\<open>hypotf\<close> does too; the rounding mode is to nearest. Words with the sign bit
  cleared are signed integers in the code and compared as such.
\<close>

section \<open>The functions\<close>

definition issignalingf_inline :: "u32 \<Rightarrow> bool" where
  "issignalingf_inline ix \<longleftrightarrow> 2 * (ix XOR 0x00400000) > 0xFF800000"

definition issignalingf :: "u32 \<Rightarrow> bool" where
  "issignalingf x \<longleftrightarrow> issignalingf_inline x"

definition check_oflowf :: "u32 \<Rightarrow> u32" where
  "check_oflowf x = x"

definition hypot_nonfinite :: "u32 \<Rightarrow> u32 \<Rightarrow> u32" where
  "hypot_nonfinite a b =
    (let w = fadd a b;
         w = (if FLT_UWORD_IS_INFINITE a \<and> \<not> issignalingf b then a else w)
     in if FLT_UWORD_IS_INFINITE b \<and> \<not> issignalingf a then b else w)"

definition hypot_medium :: "u32 \<Rightarrow> u32 \<Rightarrow> u32 \<Rightarrow> u32 \<Rightarrow> u32 option" where
  "hypot_medium a b ha hb =
    (let w = fsub a b
     in if gesf2 w b > 0
        then let t1 = ha AND 0xFFFFF000;
                 t2 = fsub a t1
             in sqrtf CRT_FE_TONEAREST (fsub (mulsf3 t1 t1) (fsub (mulsf3 b (negsf2 b)) (mulsf3 t2 (fadd a t1))))
        else let a = fadd a a;
                 y1 = hb AND 0xFFFFF000;
                 y2 = fsub b y1;
                 t1 = (ha + 0x00800000) AND 0xFFFFF000;
                 t2 = fsub a t1
             in sqrtf CRT_FE_TONEAREST (fsub (mulsf3 t1 y1) (fsub (mulsf3 w (negsf2 w)) (fadd (mulsf3 t1 y2) (mulsf3 t2 b)))))"

definition hypot_scaled :: "u32 \<Rightarrow> u32 \<Rightarrow> u32 \<Rightarrow> u32 \<Rightarrow> int \<Rightarrow> u32 option" where
  "hypot_scaled a b ha hb k =
    (case hypot_medium a b ha hb of
       None \<Rightarrow> None
     | Some w \<Rightarrow> Some (check_oflowf (if k \<noteq> 0 then mulsf3 w (0x3F800000 + push_bit 23 (word_of_int k)) else w)))"

definition hypot_ordered :: "u32 \<Rightarrow> u32 \<Rightarrow> u32 option" where
  "hypot_ordered ha hb =
    (if sint (ha - hb) > 0xF000000 then Some (fadd ha hb)
     else if sint ha > 0x58800000 \<and> \<not> FLT_UWORD_IS_FINITE ha then Some (hypot_nonfinite ha hb)
     else let (ha, hb, k) = (if sint ha > 0x58800000 then (ha - 0x22000000, hb - 0x22000000, 68) else (ha, hb, 0))
          in if sint hb < 0x26800000
             then if FLT_UWORD_IS_ZERO hb then Some ha
                  else if FLT_UWORD_IS_SUBNORMAL hb
                  then hypot_scaled (mulsf3 ha 0x7E800000) (mulsf3 hb 0x7E800000) ha hb (k - 126)
                  else hypot_scaled (ha + 0x22000000) (hb + 0x22000000) (ha + 0x22000000) (hb + 0x22000000) (k - 68)
             else hypot_scaled ha hb ha hb k)"

definition hypotf :: "u32 \<Rightarrow> u32 \<Rightarrow> u32 option" where
  "hypotf x y =
    (let ha = x AND 0x7FFFFFFF; hb = y AND 0x7FFFFFFF
     in if sint hb > sint ha then hypot_ordered hb ha else hypot_ordered ha hb)"

section \<open>Its results\<close>

definition signaling :: "u32 \<Rightarrow> bool" where
  "signaling x \<longleftrightarrow> is_nan x \<and> \<not> bit x 22"

lemma quiet_bit: "bit quietBit n \<longleftrightarrow> n = 22"
proof -
  have q: "quietBit = push_bit 22 1" by (simp add: fp_consts)
  show ?thesis unfolding q by (simp only: bit_push_bit_iff bit_1_iff) auto
qed

lemma mag_set_quiet:
  assumes "\<not> bit y 22"
  shows "mag (y XOR quietBit) = mag y + 2 ^ 22"
proof -
  define c where "c = quietBit"
  have b: "bit c n \<longleftrightarrow> n = 22" for n by (simp add: c_def quiet_bit)
  have "(y XOR c) AND absMask = (y AND absMask) OR c" and z: "(y AND absMask) AND c = 0"
    using assms by (auto intro!: bit_word_eqI simp: bit_xor_iff bit_and_iff bit_or_iff absMask_mask bit_mask_iff b)
  then have "mag (y XOR c) = mag y OR unat c" by (simp only: mag_def unsigned_or_eq)
  also have "\<dots> = mag y + unat c"
  proof -
    have "mag y AND unat c = 0" using arg_cong [OF z, of unat] by (simp only: mag_def unsigned_and_eq unat_0)
    then show ?thesis by (simp add: disjunctive_add_eq_or)
  qed
  finally show ?thesis by (simp add: c_def fp_consts)
qed

lemma issignalingf_iff: "issignalingf x \<longleftrightarrow> signaling x"
proof -
  define w where "w = x XOR quietBit"
  have q: "quietBit = 0x00400000" by (simp add: fp_consts)
  have "unat (2 * w) = 2 * mag w"
  proof -
    have "unat (2 * w) = 2 * unat w mod 2 ^ 32" by (simp add: unat_word_ariths)
    then show ?thesis using unat_split [of w] mag_lt [of w] by (auto split: if_splits)
  qed
  then have s: "issignalingf x \<longleftrightarrow> 0x7FC00000 < mag w"
    by (simp add: issignalingf_def issignalingf_inline_def word_less_nat_alt flip: w_def q)
  have bw: "bit w 22 \<longleftrightarrow> \<not> bit x 22" by (simp add: w_def bit_xor_iff quiet_bit)
  show ?thesis
  proof (cases "bit x 22")
    case True
    have "x = w XOR quietBit" by (simp add: w_def xor.assoc)
    then have "mag x = mag w + 2 ^ 22" using mag_set_quiet [of w] bw True by simp
    then show ?thesis using True mag_lt [of x] by (simp add: s signaling_def)
  next
    case False
    then show ?thesis using mag_set_quiet [of x] by (simp add: s w_def signaling_def is_nan_def inf_mag_def)
  qed
qed

lemma hypot_scaled_returns: "\<exists>r. hypot_scaled a b ha hb k = Some r"
proof -
  obtain w where "hypot_medium a b ha hb = Some w"
    using sqrtf_root unfolding hypot_medium_def Let_def by (metis (full_types))
  then show ?thesis by (simp add: hypot_scaled_def)
qed

text \<open>Both words are magnitudes, the first one not smaller.\<close>

lemma hypot_nonfinite_spec:
  assumes "\<not> negative ha" and "\<not> negative hb" and "mag hb \<le> mag ha" and "inf_mag \<le> mag ha"
  shows "if mag ha = inf_mag \<or> mag hb = inf_mag then if signaling ha \<or> signaling hb then is_nan (hypot_nonfinite ha hb)
      else hypot_nonfinite ha hb = infRep else is_nan (hypot_nonfinite ha hb)"
proof -
  have w: "x AND 0x7FFFFFFF = x" if "\<not> negative x" for x
    using that abs_unat [of x] unat_split [of x] by (simp add: word_unat_eq_iff fp_consts)
  have i: "FLT_UWORD_IS_INFINITE x \<longleftrightarrow> mag x = inf_mag" if "\<not> negative x" for x using uword_classes(3) [of x] w [OF that] by simp
  have r: "x = infRep" if "mag x = inf_mag" "\<not> negative x" for x
    using that by (intro float_eqI) (simp_all add: mag_def negative_def fp_consts inf_mag_def)
  have n: "is_nan (fadd ha hb)" if "is_nan ha \<or> is_nan hb" using fadd_sum [of ha hb] that by (auto simp: ieee_sum_def Let_def)
  have sn: "\<not> signaling x" if "mag x = inf_mag" for x using that by (simp add: signaling_def is_nan_def)
  show ?thesis using assms n r [of ha] r [of hb] sn
    by (auto simp: hypot_nonfinite_def Let_def i issignalingf_iff is_nan_def signaling_def)
qed

lemma hypot_ordered_spec:
  assumes "\<not> negative ha" and "\<not> negative hb" and "mag hb \<le> mag ha"
  shows "\<exists>r. hypot_ordered ha hb = Some r \<and>
    (if mag ha = inf_mag \<or> mag hb = inf_mag then if signaling ha \<or> signaling hb then is_nan r else r = infRep
     else if is_nan ha then is_nan r
     else if mag hb = 0 then r = ha
     else True)"
proof -
  have u: "unat ha = mag ha" "unat hb = mag hb" using assms unat_split [of ha] unat_split [of hb] by simp_all
  have d: "sint (ha - hb) = int (mag ha) - int (mag hb)"
  proof -
    have "unat (ha - hb) = mag ha - mag hb" using assms(3) u by (simp add: unat_sub word_le_nat_alt)
    then show ?thesis using mag_lt [of ha] assms(3) by (simp add: sint_small)
  qed
  have s: "sint ha = int (mag ha)" using assms(1) by (simp add: sint_split)
  have fin: "FLT_UWORD_IS_FINITE ha \<longleftrightarrow> mag ha < inf_mag" by (simp add: FLT_UWORD_IS_FINITE_def word_less_nat_alt u inf_mag_def)
  note f = hypot_ordered_def [of ha hb, unfolded d s fin]
  consider "0xF000000 < int (mag ha) - int (mag hb)" | "int (mag ha) - int (mag hb) \<le> 0xF000000" "inf_mag \<le> mag ha"
    | "int (mag ha) - int (mag hb) \<le> 0xF000000" "mag ha < inf_mag" by linarith
  then show ?thesis
  proof cases
    case 1
    then have hb: "mag hb < inf_mag" using mag_lt [of ha] by (simp add: inf_mag_def)
    have "fadd ha hb = ha" if "mag ha = inf_mag"
      using fadd_sum [of ha hb] hb that by (auto simp: ieee_sum_def Let_def is_nan_def is_finite_def)
    moreover have "is_nan (fadd ha hb)" if "is_nan ha" using fadd_sum [of ha hb] that by (auto simp: ieee_sum_def Let_def)
    moreover have "fadd ha hb = ha" if "mag hb = 0" "mag ha < inf_mag"
    proof (rule add_eval)
      show "\<not> is_nan ha" using that by (simp add: is_nan_def)
      have "mag ha \<noteq> 0" using 1 by auto
      then show "ieee_sum ha hb ha" using ieee_sum_zero(1) [of ha hb] that by (simp add: is_finite_def)
    qed
    moreover have "ha = infRep" if "mag ha = inf_mag"
      using that assms(1) by (intro float_eqI) (simp_all add: mag_def negative_def fp_consts inf_mag_def)
    ultimately show ?thesis using 1 hb by (auto simp: f signaling_def is_nan_def)
  next
    case 2
    then have "hypot_ordered ha hb = Some (hypot_nonfinite ha hb)" by (simp add: f inf_mag_def)
    then show ?thesis using hypot_nonfinite_spec [OF assms 2(2)] 2(2) by (auto simp: is_nan_def split: if_splits)
  next
    case 3
    have "hypot_ordered ha hb = Some ha" if "mag hb = 0"
    proof -
      have "hb = 0" using that u by (simp add: unat_eq_zero)
      then show ?thesis unfolding f using 3 that by (simp add: FLT_UWORD_IS_ZERO_def)
    qed
    moreover have "\<exists>r. hypot_ordered ha hb = Some r"
      using 3 hypot_scaled_returns by (simp add: f Let_def)
    ultimately show ?thesis using 3 assms(3) by (auto simp: is_nan_def)
  qed
qed

lemma mag_word: "mag (x AND 0x7FFFFFFF) = mag x" "\<not> negative (x AND 0x7FFFFFFF)"
  using mag_of_abs [of x] by (simp_all add: fp_consts)

lemma hypotf_ordered:
  "hypotf x y = (if mag x < mag y then hypot_ordered (y AND 0x7FFFFFFF) (x AND 0x7FFFFFFF)
    else hypot_ordered (x AND 0x7FFFFFFF) (y AND 0x7FFFFFFF))"
  by (simp add: hypotf_def sint_split mag_word)

text \<open>
  C30. \<^verbatim>\<open>hypotf\<close> returns for all arguments, is symmetric and ignores the signs of its arguments. An infinite argument gives infinity even
  when the other one is a quiet pattern that is not a number; otherwise such a pattern gives one, and a vector along an axis
  has exactly the length of its component.
\<close>

theorem hypotf_correct:
  "\<exists>r. hypotf x y = Some r \<and> hypotf y x = Some r \<and> hypotf (negsf2 x) y = Some r \<and>
    (if mag x = inf_mag \<or> mag y = inf_mag then if signaling x \<or> signaling y then is_nan r else r = infRep
     else if is_nan x \<or> is_nan y then is_nan r
     else if mag y = 0 then r = fabsf x
     else True)"
proof -
  have sym: "hypotf y x = hypotf x y"
  proof (cases "mag x = mag y")
    case True
    then have "x AND 0x7FFFFFFF = y AND 0x7FFFFFFF" by (intro float_eqI) (simp_all add: mag_word)
    then show ?thesis using True by (simp add: hypotf_ordered)
  qed (auto simp: hypotf_ordered)
  have neg: "hypotf (negsf2 x) y = hypotf x y" by (simp add: hypotf_ordered abs_word_neg)
  have sg: "signaling (w AND 0x7FFFFFFF) \<longleftrightarrow> signaling w" "is_nan (w AND 0x7FFFFFFF) \<longleftrightarrow> is_nan w" for w
  proof -
    have "bit (0x7FFFFFFF :: u32) 22" by simp
    then show "signaling (w AND 0x7FFFFFFF) \<longleftrightarrow> signaling w" "is_nan (w AND 0x7FFFFFFF) \<longleftrightarrow> is_nan w"
      by (simp_all add: signaling_def is_nan_def mag_word bit_and_iff)
  qed
  define w where "w = (if mag x < mag y then y else x)"
  define v where "v = (if mag x < mag y then x else y)"
  obtain r where r: "hypotf x y = Some r"
    "if mag w = inf_mag \<or> mag v = inf_mag then if signaling w \<or> signaling v then is_nan r else r = infRep
     else if is_nan w then is_nan r else if mag v = 0 then r = fabsf w else True"
    using hypot_ordered_spec [of "w AND 0x7FFFFFFF" "v AND 0x7FFFFFFF"] unfolding hypotf_ordered mag_word sg fabsf_def
    by (cases "mag x < mag y") (auto simp: w_def v_def mag_word)
  have "is_nan w \<longleftrightarrow> is_nan x \<or> is_nan y" by (auto simp: w_def is_nan_def)
  moreover have "mag w = inf_mag \<or> mag v = inf_mag \<longleftrightarrow> mag x = inf_mag \<or> mag y = inf_mag"
    "signaling w \<or> signaling v \<longleftrightarrow> signaling x \<or> signaling y" by (auto simp: w_def v_def)
  moreover have "mag v = 0 \<and> w = x" if "mag y = 0" using that by (simp add: w_def v_def)
  ultimately show ?thesis using r unfolding sym neg by (intro exI [of _ r]) (auto split: if_splits)
qed

end
