(* ===== verification/Float_Interval.thy ===== *)
theory Float_Interval
  imports Libm_Atan Complex_Main
begin

text \<open>
  Enclosures for programs in floating point: the real value of a finite number, what rounding to nearest does to bounds and how far
  it moves a number. The end points of an enclosure are multiples of \<open>2\<^sup>-\<^sup>1\<^sup>6\<close> up to 256, which single precision represents
  exactly, so that rounding keeps a result between them.
\<close>

section \<open>Values and enclosures\<close>

definition scale :: real where
  "scale = 2 ^ 149"

definition rval :: "u32 \<Rightarrow> real" where
  "rval a = of_int (fval a) / scale"

definition encl :: "u32 \<Rightarrow> real \<Rightarrow> real \<Rightarrow> bool" where
  "encl a l u \<longleftrightarrow> is_finite a \<and> l \<le> rval a \<and> rval a \<le> u"

definition on_grid :: "real \<Rightarrow> bool" where
  "on_grid r \<longleftrightarrow> r * 65536 \<in> \<int> \<and> \<bar>r\<bar> \<le> 256"

text \<open>The pattern \<open>r\<close> is a nearest one to the number \<open>x\<close>.\<close>

definition near :: "real \<Rightarrow> u32 \<Rightarrow> bool" where
  "near x r \<longleftrightarrow> mag r \<le> inf_mag \<and> (x \<noteq> 0 \<longrightarrow> (negative r \<longleftrightarrow> x < 0)) \<and>
    (mag r < inf_mag \<longrightarrow> 2 * (\<bar>x\<bar> * scale) \<le> real (mval (mag r) + mval (Suc (mag r)))) \<and>
    (0 < mag r \<longrightarrow> real (mval (mag r - 1) + mval (mag r)) \<le> 2 * (\<bar>x\<bar> * scale))"

lemma scale_pos [simp]: "0 < scale" "scale \<noteq> 0" "\<bar>scale\<bar> = scale" "\<not> scale < 0" "0 \<le> scale"
  by (simp_all add: scale_def)

lemma rval_abs: "\<bar>rval a\<bar> = real (mval (mag a)) / scale" "rval a < 0 \<longleftrightarrow> negative a \<and> mag a \<noteq> 0"
proof -
  have "0 < mval (mag a) \<longleftrightarrow> mag a \<noteq> 0" using mval_less [of 0 "mag a"] by simp
  then show "\<bar>rval a\<bar> = real (mval (mag a)) / scale" "rval a < 0 \<longleftrightarrow> negative a \<and> mag a \<noteq> 0"
    by (auto simp: rval_def fval_def divide_less_0_iff abs_divide)
qed

lemma rval_eq_0: "rval a = 0 \<longleftrightarrow> mag a = 0"
  using rval_abs(1) [of a] mval_eq [of "mag a" 0] by (auto simp del: mval_eq)

lemma rval_neg [simp]: "rval (negsf2 a) = - rval a"
  by (simp add: rval_def)

lemma near_le:
  assumes "near x r" and "\<bar>x\<bar> * scale \<le> real (mval m)"
  shows "mag r \<le> m"
proof (rule ccontr)
  assume "\<not> mag r \<le> m"
  then have "0 < mag r" "mval m \<le> mval (mag r - 1)" "mval m < mval (mag r)" by simp_all
  then have "2 * mval m < mval (mag r - 1) + mval (mag r)" by linarith
  then have "2 * real (mval m) < real (mval (mag r - 1) + mval (mag r))" by linarith
  then show False using assms \<open>0 < mag r\<close> by (simp add: near_def)
qed

lemma near_ge:
  assumes "near x r" and "real (mval m) \<le> \<bar>x\<bar> * scale" and "m \<le> inf_mag"
  shows "m \<le> mag r"
proof (rule ccontr)
  assume "\<not> m \<le> mag r"
  then have "mag r < inf_mag" "mval (Suc (mag r)) \<le> mval m" "mval (mag r) < mval m" using assms(3) by simp_all
  then have "mval (mag r) + mval (Suc (mag r)) < 2 * mval m" by linarith
  then have "real (mval (mag r) + mval (Suc (mag r))) < 2 * real (mval m)" by linarith
  then show False using assms \<open>mag r < inf_mag\<close> by (simp add: near_def)
qed

text \<open>No finite number is nearer.\<close>

lemma near_nearest:
  assumes "near x r" and "is_finite r" and "m \<le> inf_mag"
  shows "\<bar>rval r - x\<bar> * scale \<le> \<bar>real (mval m) - \<bar>x\<bar> * scale\<bar>"
proof -
  define X where "X = \<bar>x\<bar> * scale"
  define n where "n = mag r"
  have n: "n < inf_mag" using assms(2) by (simp add: is_finite_def n_def)
  have "\<bar>real (mval n) - X\<bar> \<le> \<bar>real (mval m) - X\<bar>"
  proof -
    consider "m = n" | "n < m" | "m < n" by linarith
    then show ?thesis
    proof cases
      case 2
      then have "mval (Suc n) \<le> mval m" "mval n < mval m" by simp_all
      moreover have "2 * X \<le> real (mval n + mval (Suc n))" using assms(1) n by (simp add: near_def X_def n_def)
      ultimately show ?thesis by linarith
    next
      case 3
      then have "mval m \<le> mval (n - 1)" "mval m < mval n" by simp_all
      moreover have "real (mval (n - 1) + mval n) \<le> 2 * X" using assms(1) 3 by (simp add: near_def X_def n_def)
      ultimately show ?thesis by linarith
    qed simp
  qed
  moreover have "\<bar>rval r - x\<bar> * scale = \<bar>real (mval n) - X\<bar>"
  proof (cases "x = 0 \<or> mval n = 0")
    case True
    then show ?thesis by (auto simp: X_def n_def rval_def fval_def abs_mult)
  next
    case False
    then have "negative r \<longleftrightarrow> x < 0" using assms(1) by (simp add: near_def)
    then have "rval r - x = (if x < 0 then - 1 else 1) * (real (mval n) / scale - \<bar>x\<bar>)"
      by (auto simp: rval_def fval_def n_def)
    then have "\<bar>rval r - x\<bar> = \<bar>real (mval n) / scale - \<bar>x\<bar>\<bar>" by (auto simp: abs_mult)
    then have "\<bar>rval r - x\<bar> * scale = \<bar>(real (mval n) / scale - \<bar>x\<bar>) * scale\<bar>" by (simp only: abs_mult abs_of_pos scale_pos)
    also have "(real (mval n) / scale - \<bar>x\<bar>) * scale = real (mval n) - X" by (simp add: X_def left_diff_distrib)
    finally show ?thesis .
  qed
  ultimately show ?thesis by (simp add: X_def)
qed

section \<open>Rounding of the operations\<close>

lemma near_of_rounded:
  assumes "rounded mval inf_mag d v (mag r)" and "0 < d" and "\<bar>x\<bar> * scale * real d = real v" and "x \<noteq> 0 \<Longrightarrow> negative r \<longleftrightarrow> x < 0"
  shows "near x r"
proof -
  have "2 * (\<bar>x\<bar> * scale) \<le> real m \<longleftrightarrow> 2 * v \<le> m * d" "real m \<le> 2 * (\<bar>x\<bar> * scale) \<longleftrightarrow> m * d \<le> 2 * v" for m
  proof -
    have "2 * (\<bar>x\<bar> * scale) = real (2 * v) / real d" using assms(2,3) by (simp add: field_simps)
    then show "2 * (\<bar>x\<bar> * scale) \<le> real m \<longleftrightarrow> 2 * v \<le> m * d" "real m \<le> 2 * (\<bar>x\<bar> * scale) \<longleftrightarrow> m * d \<le> 2 * v"
      using assms(2) by (simp_all only: pos_divide_le_eq pos_le_divide_eq of_nat_0_less_iff of_nat_le_iff flip: of_nat_mult)
  qed
  then show ?thesis using assms(1,4) unfolding near_def rounded_def by (metis le_eq_less_or_eq)
qed

lemma near_add:
  assumes "is_finite a" and "is_finite b"
  shows "near (rval a + rval b) (fadd a b)"
proof (rule near_of_rounded)
  define x where "x = fval a + fval b"
  have f: "rounds_to (nat \<bar>x\<bar>) 0 (mag (fadd a b))" "x \<noteq> 0 \<Longrightarrow> negative (fadd a b) \<longleftrightarrow> x < 0"
    using fadd_sum [of a b] assms by (simp_all add: ieee_sum_def Let_def x_def is_nan_def is_finite_def)
  have e: "rval a + rval b = of_int x / scale" by (simp add: rval_def x_def add_divide_distrib)
  show "rounded mval inf_mag 1 (nat \<bar>x\<bar>) (mag (fadd a b))" using f(1) by (simp add: rounds_to_rounded)
  show "\<bar>rval a + rval b\<bar> * scale * real 1 = real (nat \<bar>x\<bar>)" by (simp add: e)
  show "negative (fadd a b) \<longleftrightarrow> rval a + rval b < 0" if "rval a + rval b \<noteq> 0" using that f(2) by (simp add: e divide_less_0_iff)
qed simp

lemma near_sub: "is_finite a \<Longrightarrow> is_finite b \<Longrightarrow> near (rval a - rval b) (fsub a b)"
  using near_add [of a "negsf2 b"] by (simp add: fsub_add is_finite_def)

lemma near_mul:
  assumes "is_finite a" and "is_finite b"
  shows "near (rval a * rval b) (mulsf3 a b)"
proof (rule near_of_rounded)
  have f: "rounds_to (mval (mag a) * mval (mag b)) 149 (mag (mulsf3 a b))" "negative (mulsf3 a b) \<longleftrightarrow> negative a \<noteq> negative b"
    using mul_nearest [of a b] assms by (auto simp: ieee_product_def is_nan_def is_finite_def)
  show "rounded mval inf_mag (2 ^ 149) (mval (mag a) * mval (mag b)) (mag (mulsf3 a b))" using f(1) by (simp only: rounds_to_rounded)
  show "\<bar>rval a * rval b\<bar> * scale * real (2 ^ 149) = real (mval (mag a) * mval (mag b))" by (simp add: abs_mult rval_abs, simp add: scale_def)
  show "negative (mulsf3 a b) \<longleftrightarrow> rval a * rval b < 0" if "rval a * rval b \<noteq> 0"
  proof -
    have "mag a \<noteq> 0" "mag b \<noteq> 0" using that by (auto simp: rval_eq_0)
    then have "rval a < 0 \<longleftrightarrow> negative a" "rval b < 0 \<longleftrightarrow> negative b" by (simp_all add: rval_abs)
    then show ?thesis using that unfolding f(2) mult_less_0_iff by auto
  qed
qed simp

lemma near_divsf3:
  assumes "is_finite a" and "is_finite b" and "rval b \<noteq> 0"
  shows "near (rval a / rval b) (divsf3 a b)"
proof (rule near_of_rounded)
  have b: "mag b \<noteq> 0" using assms(3) by (simp add: rval_eq_0)
  have f: "rounds_quot (mval (mag a) * 2 ^ 149) (mval (mag b)) (mag (divsf3 a b))" "negative (divsf3 a b) \<longleftrightarrow> negative a \<noteq> negative b"
    using div_nearest [of a b] assms b by (auto simp: ieee_quotient_def is_nan_def is_finite_def)
  show "rounded mval inf_mag (mval (mag b)) (mval (mag a) * 2 ^ 149) (mag (divsf3 a b))" using f(1) by simp
  show p: "0 < mval (mag b)" using b mval_less [of 0 "mag b"] by simp
  show "\<bar>rval a / rval b\<bar> * scale * real (mval (mag b)) = real (mval (mag a) * 2 ^ 149)" using p by (simp add: abs_divide rval_abs, simp add: scale_def)
  show "negative (divsf3 a b) \<longleftrightarrow> rval a / rval b < 0" if "rval a / rval b \<noteq> 0"
  proof -
    have "mag a \<noteq> 0" "mag b \<noteq> 0" using that by (auto simp: rval_eq_0)
    then have "rval a < 0 \<longleftrightarrow> negative a" "rval b < 0 \<longleftrightarrow> negative b" by (simp_all add: rval_abs)
    then show ?thesis using that unfolding f(2) divide_less_0_iff by auto
  qed
qed

lemma near_of_int:
  assumes "sint k = n"
  shows "near (of_int n) (floatsisf k)"
proof (rule near_of_rounded)
  show "\<bar>real_of_int n\<bar> * scale * real 1 = real (nat \<bar>n\<bar> * 2 ^ 149)" by (simp add: scale_def)
  note r = float_of_int_rounds [of k, unfolded assms]
  show "rounded mval inf_mag 1 (nat \<bar>n\<bar> * 2 ^ 149) (mag (floatsisf k))" using r by (simp add: rounds_to_rounded)
  show "negative (floatsisf k) \<longleftrightarrow> real_of_int n < 0" using r by simp
qed simp_all

section \<open>Enclosures of the results\<close>

lemma grid_representable:
  assumes "on_grid r"
  obtains m where "m < inf_mag" and "real (mval m) = \<bar>r\<bar> * scale"
proof -
  obtain i where i: "r * 65536 = of_int i" using assms by (auto simp: on_grid_def elim: Ints_cases)
  define N where "N = nat \<bar>i\<bar>"
  have N: "real N = \<bar>r\<bar> * 65536" using arg_cong [OF i, of abs] by (simp add: N_def abs_mult)
  then have "real N \<le> real (2 ^ 24)" using assms by (simp add: on_grid_def)
  then have "N \<le> 2 ^ 24" by (simp only: of_nat_le_iff)
  then obtain m where m: "m < inf_mag" "mval m = N * 2 ^ 133"
  proof (cases "N = 2 ^ 24")
    case True
    then show ?thesis using that [of "135 * 2 ^ 23"] by (simp add: mval_def inf_mag_def)
  next
    case False
    with \<open>N \<le> 2 ^ 24\<close> have "N < 2 ^ 24" by simp
    then show ?thesis using representable_scaled [of N 133] that by auto
  qed
  show ?thesis using that [OF m(1)] N by (simp add: m(2) scale_def)
qed

lemma near_finite:
  assumes "near x r" and "\<bar>x\<bar> \<le> 256"
  shows "is_finite r"
proof -
  obtain m where "m < inf_mag" "real (mval m) = 256 * scale" using grid_representable [of 256] by (auto simp: on_grid_def)
  then show ?thesis using near_le [OF assms(1), of m] assms(2) by (simp add: is_finite_def)
qed

lemma near_upper:
  assumes "near x r" and "x \<le> u" and "on_grid u"
  shows "rval r \<le> u"
proof -
  obtain m where m: "m < inf_mag" "real (mval m) = \<bar>u\<bar> * scale" using grid_representable [OF assms(3)] by metis
  have v: "\<bar>rval r\<bar> * scale = real (mval (mag r))" by (simp add: rval_abs)
  show ?thesis
  proof (cases "0 \<le> u")
    case True
    have "rval r \<le> 0" if "x < 0" using assms(1) that rval_abs(2) [of r] rval_eq_0 [of r] by (auto simp: near_def)
    moreover have "\<bar>rval r\<bar> \<le> u" if "0 \<le> x"
    proof -
      have "mag r \<le> m" using that assms(2) True by (intro near_le [OF assms(1)]) (simp add: m)
      then have "real (mval (mag r)) \<le> real (mval m)" by simp
      then have "\<bar>rval r\<bar> * scale \<le> u * scale" unfolding v m(2) using True by simp
      then show ?thesis by simp
    qed
    ultimately show ?thesis using True by linarith
  next
    case False
    then have x: "x < 0" using assms(2) by simp
    have "m \<le> mag r" using x assms(2) False m by (intro near_ge [OF assms(1)]) simp_all
    then have "\<bar>u\<bar> * scale \<le> \<bar>rval r\<bar> * scale" by (simp add: v flip: m(2))
    then have "\<bar>u\<bar> \<le> \<bar>rval r\<bar>" by simp
    moreover have "rval r \<le> 0" using assms(1) x rval_abs(2) [of r] rval_eq_0 [of r] by (auto simp: near_def)
    ultimately show ?thesis using False by linarith
  qed
qed

lemma near_negate: "near x r \<Longrightarrow> near (- x) (negsf2 r)"
  by (auto simp: near_def)

lemma near_lower: "near x r \<Longrightarrow> l \<le> x \<Longrightarrow> on_grid l \<Longrightarrow> l \<le> rval r"
  using near_upper [OF near_negate, of x r "- l"] by (simp add: on_grid_def)

lemma near_encl: "near x r \<Longrightarrow> l \<le> x \<Longrightarrow> x \<le> u \<Longrightarrow> on_grid l \<Longrightarrow> on_grid u \<Longrightarrow> encl r l u"
  unfolding encl_def using near_lower near_upper near_finite by (auto simp: on_grid_def)

text \<open>Rounding moves a number by at most half a unit in the last place.\<close>

lemma near_error:
  assumes "near x r" and "is_finite r" and "\<bar>x\<bar> * scale < 2 ^ 24 * 2 ^ t" and "t \<le> 253"
  shows "\<bar>rval r - x\<bar> * scale \<le> 2 ^ t / 2"
proof -
  define X where "X = \<bar>x\<bar> * scale / 2 ^ t"
  define N where "N = nat (round X)"
  have X: "0 \<le> X" "X < 2 ^ 24" using assms(3) by (simp_all add: X_def pos_divide_less_eq)
  have "0 \<le> round X" using round_mono [OF X(1)] by simp
  then have N: "real N = of_int (round X)" by (simp add: N_def)
  have d: "\<bar>real N - X\<bar> \<le> 1 / 2" unfolding N by (rule of_int_round_abs_le)
  then have "real N < real (2 ^ 24 + 1)" using X(2) by (simp only: of_nat_add of_nat_power of_nat_numeral of_nat_1)
  then have "N \<le> 2 ^ 24" by (simp only: of_nat_less_iff)
  then obtain m where m: "m \<le> inf_mag" "mval m = N * 2 ^ t"
  proof (cases "N = 2 ^ 24")
    case True
    have "mval ((t + 1) * 2 ^ 23 + 2 ^ 23) = 2 ^ 24 * 2 ^ t" by (simp add: mval_def)
    then show ?thesis using that [of "(t + 1) * 2 ^ 23 + 2 ^ 23"] assms(4) True by (simp add: inf_mag_def)
  next
    case False
    with \<open>N \<le> 2 ^ 24\<close> have "N < 2 ^ 24" by simp
    then show ?thesis using representable_scaled [of N t] assms(4) that by (metis less_imp_le)
  qed
  have "real (mval m) - \<bar>x\<bar> * scale = (real N - X) * 2 ^ t" by (simp add: m(2) X_def left_diff_distrib)
  then have "\<bar>real (mval m) - \<bar>x\<bar> * scale\<bar> = \<bar>real N - X\<bar> * 2 ^ t" by (simp add: abs_mult)
  also have "\<dots> \<le> 1 / 2 * 2 ^ t" using d by (intro mult_right_mono) simp_all
  finally show ?thesis using near_nearest [OF assms(1,2) m(1)] by simp
qed

section \<open>Enclosures of operations\<close>

lemma encl_finite [simp]: "encl a l u \<Longrightarrow> is_finite a"
  by (simp add: encl_def)

lemma encl_mono: "encl a l u \<Longrightarrow> l' \<le> l \<Longrightarrow> u \<le> u' \<Longrightarrow> encl a l' u'"
  by (auto simp: encl_def)

lemma encl_neg: "encl a l u \<Longrightarrow> encl (negsf2 a) (- u) (- l)"
  by (simp add: encl_def)

lemma encl_add:
  assumes "encl a l u" and "encl b l' u'" and "L \<le> l + l'" and "u + u' \<le> U" and "on_grid L" and "on_grid U"
  shows "encl (fadd a b) L U"
  using assms by (intro near_encl [OF near_add]) (auto simp: encl_def)

lemma encl_sub:
  assumes "encl a l u" and "encl b l' u'" and "L \<le> l - u'" and "u - l' \<le> U" and "on_grid L" and "on_grid U"
  shows "encl (fsub a b) L U"
  using assms by (intro near_encl [OF near_sub]) (auto simp: encl_def)

lemma product_bounds:
  fixes a b :: real
  assumes "l \<le> a" "a \<le> u" "l' \<le> b" "b \<le> u'" and "L \<le> l * l'" "L \<le> l * u'" "L \<le> u * l'" "L \<le> u * u'"
  shows "L \<le> a * b"
proof -
  have e: "L \<le> c * b" if "L \<le> c * l'" "L \<le> c * u'" for c
  proof (cases "0 \<le> c")
    case True
    then have "c * l' \<le> c * b" using assms(3) by (rule mult_left_mono [rotated])
    with that show ?thesis by simp
  next
    case False
    then have "c * u' \<le> c * b" using assms(4) by (intro mult_left_mono_neg) simp_all
    with that show ?thesis by simp
  qed
  show ?thesis
  proof (cases "0 \<le> b")
    case True
    then have "l * b \<le> a * b" using assms(1) by (rule mult_right_mono [rotated])
    with e [of l] assms show ?thesis by simp
  next
    case False
    then have "u * b \<le> a * b" using assms(2) by (intro mult_right_mono_neg) simp_all
    with e [of u] assms show ?thesis by simp
  qed
qed

lemma encl_mul:
  assumes "encl a l u" and "encl b l' u'" and "L \<le> l * l'" "L \<le> l * u'" "L \<le> u * l'" "L \<le> u * u'"
    and "l * l' \<le> U" "l * u' \<le> U" "u * l' \<le> U" "u * u' \<le> U" and "on_grid L" and "on_grid U"
  shows "encl (mulsf3 a b) L U"
proof (rule near_encl [OF near_mul])
  have e: "l \<le> rval a" "rval a \<le> u" "l' \<le> rval b" "rval b \<le> u'" using assms(1,2) by (simp_all add: encl_def)
  show "L \<le> rval a * rval b" using e assms(3-6) by (rule product_bounds)
  have "- U \<le> - rval a * rval b" using e assms(7-10)
    by - (rule product_bounds [of "- u" _ "- l" l' _ u'], simp_all only: neg_le_iff_le mult_minus_left)
  then show "rval a * rval b \<le> U" by simp
qed (use assms(1,2,11,12) in simp_all)

lemma encl_square:
  assumes "encl a l u" and "l * l \<le> U" and "u * u \<le> U" and "on_grid U"
  shows "encl (mulsf3 a a) 0 U"
proof (rule near_encl [OF near_mul])
  show "rval a * rval a \<le> U"
  proof (cases "0 \<le> rval a")
    case True
    then have "rval a * rval a \<le> u * u" using assms(1) by (intro mult_mono) (auto simp: encl_def)
    with assms show ?thesis by simp
  next
    case False
    then have "- rval a * - rval a \<le> - l * - l" using assms(1) by (intro mult_mono) (auto simp: encl_def)
    with assms show ?thesis by simp
  qed
qed (use assms in \<open>auto simp: encl_def on_grid_def\<close>)

lemma linear_bounds:
  fixes b :: real
  assumes "l' \<le> b" "b \<le> u'" and "c * l' \<le> d" "c * u' \<le> d"
  shows "c * b \<le> d"
  using product_bounds [of "- c" "- c" "- c" l' b u' "- d"] assms by simp

lemma encl_div:
  assumes "encl a l u" and "encl b l' u'" and "0 < l'" and "L * l' \<le> l" "L * u' \<le> l" "u \<le> U * l'" "u \<le> U * u'"
    and "on_grid L" and "on_grid U"
  shows "encl (divsf3 a b) L U"
proof (rule near_encl [OF near_divsf3])
  have b: "l' \<le> rval b" "rval b \<le> u'" "0 < rval b" and a: "l \<le> rval a" "rval a \<le> u" using assms(1-3) by (auto simp: encl_def)
  show "rval b \<noteq> 0" using b by simp
  have "L * rval b \<le> l" using b(1,2) assms(4,5) by (rule linear_bounds)
  then show "L \<le> rval a / rval b" using a b(3) by (simp add: pos_le_divide_eq)
  have "- U * rval b \<le> - u" using assms(6,7) by - (rule linear_bounds [OF b(1,2)], simp_all only: neg_le_iff_le mult_minus_left)
  then show "rval a / rval b \<le> U" using a b(3) by (simp add: pos_divide_le_eq)
qed (use assms(1,2,8,9) in simp_all)

lemma encl_div_neg:
  assumes "encl a l u" and "encl b l' u'" and "u' < 0" and "u \<le> L * l'" "u \<le> L * u'" "U * l' \<le> l" "U * u' \<le> l"
    and "on_grid L" and "on_grid U"
  shows "encl (divsf3 a b) L U"
proof (rule near_encl [OF near_divsf3])
  have b: "l' \<le> rval b" "rval b \<le> u'" "rval b < 0" and a: "l \<le> rval a" "rval a \<le> u" using assms(1-3) by (auto simp: encl_def)
  show "rval b \<noteq> 0" using b by simp
  have "- L * rval b \<le> - u" using assms(4,5) by - (rule linear_bounds [OF b(1,2)], simp_all only: neg_le_iff_le mult_minus_left)
  then show "L \<le> rval a / rval b" using a b(3) by (simp add: neg_le_divide_eq)
  have "U * rval b \<le> l" using b(1,2) assms(6,7) by (rule linear_bounds)
  then show "rval a / rval b \<le> U" using a b(3) by (simp add: neg_divide_le_eq)
qed (use assms(1,2,8,9) in simp_all)

text \<open>Evaluating the bounds of constants.\<close>

lemmas const_eval = encl_def rval_def scale_def fval_def mval_def mag_def negative_def is_finite_def inf_mag_def fp_consts

section \<open>Rounding errors\<close>

text \<open>The powers of two that bound a magnitude.\<close>

definition binade :: "real \<Rightarrow> bool" where
  "binade B \<longleftrightarrow> (\<exists>n\<le>190. B = 2 ^ n / 2 ^ 64)"

lemma binadeI: "n \<le> 190 \<Longrightarrow> B = 2 ^ n / 2 ^ 64 \<Longrightarrow> binade B"
  by (auto simp: binade_def)

lemma binades [simp]:
  "binade 1" "binade 2" "binade 4" "binade 128" "binade 256" "binade (1 / 2)" "binade (1 / 4)" "binade (1 / 8)" "binade (1 / 16)" "binade (1 / 32)"
  "binade (1 / 64)" "binade (1 / 1024)"
  by (rule binadeI [of 64] binadeI [of 65] binadeI [of 66] binadeI [of 71] binadeI [of 72] binadeI [of 63] binadeI [of 62] binadeI [of 61]
      binadeI [of 60] binadeI [of 59] binadeI [of 58] binadeI [of 54]; simp)+

lemma near_error_binade:
  assumes "near x r" and "is_finite r" and "\<bar>x\<bar> < B" and "binade B"
  shows "\<bar>rval r - x\<bar> \<le> B / 2 ^ 25"
proof -
  obtain n where n: "n \<le> 190" "B = 2 ^ n / 2 ^ 64" using assms(4) by (auto simp: binade_def)
  have s: "scale = 2 ^ 64 * 2 ^ 85" by (simp add: scale_def)
  have "\<bar>x\<bar> * scale < B * scale" using assms(3) by simp
  also have "B * scale = 2 ^ 24 * 2 ^ (n + 61)" unfolding n(2) s by (simp add: power_add)
  finally have "\<bar>rval r - x\<bar> * scale \<le> 2 ^ (n + 61) / 2" using n(1) by (intro near_error [OF assms(1,2)]) simp_all
  also have "\<dots> = B / 2 ^ 25 * scale" unfolding n(2) s by (simp add: power_add)
  finally show ?thesis by simp
qed

text \<open>Relative to the size of a number that is not subnormal.\<close>

lemma near_error_relative:
  assumes "near x r" and "is_finite r" and "1 / 2 ^ 100 \<le> \<bar>x\<bar>" and "\<bar>x\<bar> < 2 ^ 100"
  shows "\<bar>rval r - x\<bar> \<le> \<bar>x\<bar> / 2 ^ 24"
proof -
  define m where "m = nat \<lfloor>\<bar>x\<bar> * scale\<rfloor>"
  have m: "real m \<le> \<bar>x\<bar> * scale" "\<bar>x\<bar> * scale < real (m + 1)"
    using of_int_floor_le [of "\<bar>x\<bar> * scale"] floor_correct [of "\<bar>x\<bar> * scale"] by (simp_all add: m_def add.commute)
  have "\<bar>x\<bar> * scale < 2 ^ 100 * scale" "1 / 2 ^ 100 * scale \<le> \<bar>x\<bar> * scale"
    using assms(3,4) by (simp_all only: mult_right_mono mult_strict_right_mono scale_pos)
  then have "real m < real (2 ^ 249)" "real (2 ^ 49) < real (m + 1)" using m by (simp_all add: scale_def)
  then have b: "m < 2 ^ 249" "2 ^ 49 \<le> m" by (simp_all only: of_nat_less_iff)
  define e where "e = bitlen m - 1"
  have e: "2 ^ e \<le> m" "m < 2 ^ Suc e" using b bitlen_ge [of m] bitlen_lt [of m] bitlen_pos [of m] by (simp_all add: e_def)
  have "49 < Suc e" using le_less_trans [OF b(2) e(2)] by (simp only: power_strict_increasing_iff one_less_numeral_iff semiring_norm)
  moreover have "e < 249" using le_less_trans [OF e(1) b(1)] by (simp only: power_strict_increasing_iff one_less_numeral_iff semiring_norm)
  ultimately obtain t where t: "e = t + 23" "t \<le> 253" by (intro that [of "e - 23"]) simp_all
  have "real (m + 1) \<le> real (2 ^ Suc e)" using e(2) by (simp only: of_nat_le_iff)
  then have "\<bar>x\<bar> * scale < 2 ^ 24 * 2 ^ t" using m(2) t(1) by (simp add: power_add)
  then have "\<bar>rval r - x\<bar> * scale \<le> 2 ^ t / 2" using t(2) by (intro near_error [OF assms(1,2)])
  also have "\<dots> = real (2 ^ e) / 2 ^ 24" by (simp add: t(1) power_add)
  also have "\<dots> \<le> \<bar>x\<bar> * scale / 2 ^ 24"
  proof (rule divide_right_mono)
    have "real (2 ^ e) \<le> real m" using e(1) by (simp only: of_nat_le_iff)
    then show "real (2 ^ e) \<le> \<bar>x\<bar> * scale" using m(1) by (rule order_trans)
  qed simp
  finally have "\<bar>rval r - x\<bar> * scale \<le> \<bar>x\<bar> / 2 ^ 24 * scale" by simp
  then show ?thesis by (rule mult_right_le_imp_le) simp
qed

section \<open>Approximations\<close>

text \<open>The number \<open>a\<close> is within \<open>e\<close> of \<open>x\<close>.\<close>

definition appr :: "u32 \<Rightarrow> real \<Rightarrow> real \<Rightarrow> bool" where
  "appr a x e \<longleftrightarrow> is_finite a \<and> \<bar>rval a - x\<bar> \<le> e"

lemma appr_finite [simp]: "appr a x e \<Longrightarrow> is_finite a"
  by (simp add: appr_def)

lemma appr_exact: "is_finite a \<Longrightarrow> appr a (rval a) 0"
  by (simp add: appr_def)

lemma appr_mono: "appr a x e \<Longrightarrow> e \<le> e' \<Longrightarrow> appr a x e'"
  by (simp add: appr_def)

lemma appr_shift: "appr a x e \<Longrightarrow> \<bar>x - y\<bar> \<le> d \<Longrightarrow> appr a y (e + d)"
  unfolding appr_def by linarith

lemma appr_neg: "appr a x e \<Longrightarrow> appr (negsf2 a) (- x) e"
  by (simp add: appr_def abs_minus_commute)

lemma appr_near:
  assumes "near y r" and "\<bar>y - x\<bar> \<le> e" and "\<bar>x\<bar> + e < B" and "binade B" and "B \<le> 256" and "e + B / 2 ^ 25 \<le> g"
  shows "appr r x g"
proof -
  have y: "\<bar>y\<bar> < B" using assms(2,3) by linarith
  then have f: "is_finite r" using assms(5) by (intro near_finite [OF assms(1)]) simp
  then show ?thesis unfolding appr_def using near_error_binade [OF assms(1) f y assms(4)] assms(2,6) by (intro conjI) linarith+
qed

lemma appr_add:
  assumes "appr a x e" and "appr b y f" and "\<bar>x + y\<bar> + (e + f) < B" and "binade B" and "B \<le> 256" and "e + f + B / 2 ^ 25 \<le> g"
  shows "appr (fadd a b) (x + y) g"
proof (rule appr_near [OF near_add _ assms(3-6)])
  show "\<bar>rval a + rval b - (x + y)\<bar> \<le> e + f" using assms(1,2) unfolding appr_def by linarith
qed (use assms(1,2) in simp_all)

lemma appr_sub:
  assumes "appr a x e" and "appr b y f" and "\<bar>x - y\<bar> + (e + f) < B" and "binade B" and "B \<le> 256" and "e + f + B / 2 ^ 25 \<le> g"
  shows "appr (fsub a b) (x - y) g"
  using appr_add [OF assms(1) appr_neg [OF assms(2)] _ assms(4-6)] assms(3) by (simp add: fsub_add)

lemma product_error:
  fixes a b x y :: real
  assumes "\<bar>a - x\<bar> \<le> e" and "\<bar>b - y\<bar> \<le> f" and "\<bar>x\<bar> \<le> X" and "\<bar>y\<bar> \<le> Y"
  shows "\<bar>a * b - x * y\<bar> \<le> X * f + Y * e + e * f"
proof -
  have "a * b - x * y = x * (b - y) + y * (a - x) + (a - x) * (b - y)" by (simp add: algebra_simps)
  then have "\<bar>a * b - x * y\<bar> \<le> \<bar>x * (b - y)\<bar> + \<bar>y * (a - x)\<bar> + \<bar>(a - x) * (b - y)\<bar>" by linarith
  also have "\<dots> \<le> X * f + Y * e + e * f" unfolding abs_mult using assms by (intro add_mono mult_mono) auto
  finally show ?thesis .
qed

lemma appr_mul:
  assumes "appr a x e" and "appr b y f" and "\<bar>x\<bar> \<le> X" and "\<bar>y\<bar> \<le> Y" and "X * Y + (X * f + Y * e + e * f) < B"
    and "binade B" and "B \<le> 256" and "X * f + Y * e + e * f + B / 2 ^ 25 \<le> g"
  shows "appr (mulsf3 a b) (x * y) g"
proof (rule appr_near [OF near_mul _ _ assms(6-8)])
  show "\<bar>rval a * rval b - x * y\<bar> \<le> X * f + Y * e + e * f" using assms(1-4) by (intro product_error) (simp_all add: appr_def)
  have "\<bar>x * y\<bar> \<le> X * Y" unfolding abs_mult using assms(3,4) by (intro mult_mono) auto
  then show "\<bar>x * y\<bar> + (X * f + Y * e + e * f) < B" using assms(5) by simp
qed (use assms(1,2) in simp_all)

lemma appr_div:
  assumes "appr a x e" and "appr b y f" and "\<bar>x / y\<bar> \<le> Q" and "0 < c" and "c \<le> \<bar>y\<bar> - f" and "Q + (e + Q * f) / c < B"
    and "binade B" and "B \<le> 256" and "(e + Q * f) / c + B / 2 ^ 25 \<le> g"
  shows "appr (divsf3 a b) (x / y) g"
proof (rule appr_near [OF near_divsf3 _ _ assms(7-9)])
  have b: "c \<le> \<bar>rval b\<bar>" "y \<noteq> 0" "0 \<le> f" using assms(2,4,5) by (auto simp: appr_def)
  show b0: "rval b \<noteq> 0" using b assms(4) by auto
  have "rval a / rval b - x / y = ((rval a - x) - x / y * (rval b - y)) / rval b" using b0 b(2) by (simp add: field_simps)
  then have "\<bar>rval a / rval b - x / y\<bar> = \<bar>(rval a - x) - x / y * (rval b - y)\<bar> / \<bar>rval b\<bar>" by (simp add: abs_divide)
  also have "\<dots> \<le> (e + Q * f) / c"
  proof (rule frac_le)
    have "0 \<le> Q" using assms(3) abs_ge_zero order_trans by blast
    then have "\<bar>x / y * (rval b - y)\<bar> \<le> Q * f" unfolding abs_mult using assms(2,3) by (intro mult_mono) (auto simp: appr_def)
    then show "\<bar>(rval a - x) - x / y * (rval b - y)\<bar> \<le> e + Q * f" using assms(1) unfolding appr_def by linarith
    then show "0 \<le> e + Q * f" by linarith
  qed (use b assms(4) in simp_all)
  finally show "\<bar>rval a / rval b - x / y\<bar> \<le> (e + Q * f) / c" .
  show "\<bar>x / y\<bar> + (e + Q * f) / c < B" using assms(3,6) by simp
qed (use assms(1,2) in simp_all)

end
