(* ===== verification/Real_Bounds.thy ===== *)
theory Real_Bounds
  imports Complex_Main
begin

text \<open>
  Bounds on real functions and constants that the accuracy proofs of the mathematical library use: the Taylor polynomials of sine and
  cosine with their remainders, the decimals of \<open>\<pi>/2\<close> from the sign of the cosine, and the series of the logarithm in
  \<open>s = f / (2 + f)\<close> with the decimals of \<open>ln 2\<close>, and the quotient of polynomials that is near the exponential function.
\<close>

section \<open>Sine and cosine\<close>

lemma sin_taylor:
  fixes x :: real
  shows "\<bar>sin x - x * (1 + x\<^sup>2 * (- 1 / 6 + x\<^sup>2 * (1 / 120 + x\<^sup>2 * (- 1 / 5040))))\<bar> \<le> \<bar>x\<bar> ^ 9 / 362880"
proof -
  have "(\<Sum>m<9. sin_coeff m * x ^ m) = x * (1 + x\<^sup>2 * (- 1 / 6 + x\<^sup>2 * (1 / 120 + x\<^sup>2 * (- 1 / 5040))))"
    by (simp add: lessThan_nat_numeral sin_coeff_def fact_numeral) (simp add: field_simps eval_nat_numeral)
  moreover have "inverse (fact 9) * \<bar>x\<bar> ^ 9 = \<bar>x\<bar> ^ 9 / (362880 :: real)" by (simp add: fact_numeral)
  ultimately show ?thesis using Maclaurin_sin_bound [of x 9] by (simp only:)
qed

lemma cos_bound: "\<bar>cos x - (\<Sum>m<n. cos_coeff m * x ^ m)\<bar> \<le> \<bar>x\<bar> ^ n / fact n" for x :: real
proof -
  obtain t where "cos x = (\<Sum>m<n. cos_coeff m * x ^ m) + (cos (t + 1/2 * real n * pi) / fact n) * x ^ n"
    using Maclaurin_cos_expansion [of x n] by blast
  then have "\<bar>cos x - (\<Sum>m<n. cos_coeff m * x ^ m)\<bar> = \<bar>cos (t + 1/2 * real n * pi)\<bar> * (\<bar>x\<bar> ^ n / fact n)"
    by (simp add: abs_mult power_abs)
  also have "\<dots> \<le> 1 * (\<bar>x\<bar> ^ n / fact n)" by (intro mult_right_mono abs_cos_le_one) simp_all
  finally show ?thesis by simp
qed

lemma cos_taylor:
  fixes x :: real
  shows "\<bar>cos x - (1 + x\<^sup>2 * (- 1 / 2 + x\<^sup>2 * (1 / 24 + x\<^sup>2 * (- 1 / 720))))\<bar> \<le> \<bar>x\<bar> ^ 8 / 40320"
proof -
  have "(\<Sum>m<8. cos_coeff m * x ^ m) = 1 + x\<^sup>2 * (- 1 / 2 + x\<^sup>2 * (1 / 24 + x\<^sup>2 * (- 1 / 720)))"
    by (simp add: lessThan_nat_numeral cos_coeff_def fact_numeral) (simp add: field_simps eval_nat_numeral)
  moreover have "fact 8 = (40320 :: real)" by (simp add: fact_numeral)
  ultimately show ?thesis using cos_bound [of x 8] by simp
qed

lemma cos_taylor_sign:
  fixes a b :: real
  assumes "0 < b" and "0 \<le> a"
  defines "p \<equiv> 6402373705728000 * b ^ 18 - 3201186852864000 * a ^ 2 * b ^ 16 + 266765571072000 * a ^ 4 * b ^ 14
      - 8892185702400 * a ^ 6 * b ^ 12 + 158789030400 * a ^ 8 * b ^ 10 - 1764322560 * a ^ 10 * b ^ 8 + 13366080 * a ^ 12 * b ^ 6
      - 73440 * a ^ 14 * b ^ 4 + 306 * a ^ 16 * b ^ 2"
  shows "a ^ 18 < p \<Longrightarrow> 0 < cos (a / b)" and "p + a ^ 18 < 0 \<Longrightarrow> cos (a / b) < 0"
proof -
  define x where "x = a / b"
  define c where "c = 6402373705728000 * b ^ 18"
  have c: "0 < c" using assms(1) by (simp add: c_def)
  have e: "a = x * b" using assms(1) by (simp add: x_def)
  have t: "(\<Sum>m<18. cos_coeff m * x ^ m) = 1 - x\<^sup>2 / 2 + x ^ 4 / 24 - x ^ 6 / 720 + x ^ 8 / 40320 - x ^ 10 / 3628800
      + x ^ 12 / 479001600 - x ^ 14 / 87178291200 + x ^ 16 / 20922789888000"
    by (simp add: lessThan_nat_numeral cos_coeff_def fact_numeral)
  have "p = 6402373705728000 * b ^ 18 - 3201186852864000 * x ^ 2 * b ^ 18 + 266765571072000 * x ^ 4 * b ^ 18
      - 8892185702400 * x ^ 6 * b ^ 18 + 158789030400 * x ^ 8 * b ^ 18 - 1764322560 * x ^ 10 * b ^ 18 + 13366080 * x ^ 12 * b ^ 18
      - 73440 * x ^ 14 * b ^ 18 + 306 * x ^ 16 * b ^ 18"
    unfolding p_def e by (simp add: power_mult_distrib mult.assoc flip: power_add)
  then have s: "(\<Sum>m<18. cos_coeff m * x ^ m) * c = p" unfolding t c_def by (simp add: left_diff_distrib distrib_right)
  have f: "\<bar>x\<bar> ^ 18 / fact 18 * c = a ^ 18" using assms(1,2) by (simp add: fact_numeral x_def c_def power_divide)
  define S R where "S = (\<Sum>m<18. cos_coeff m * x ^ m)" and "R = \<bar>x\<bar> ^ 18 / fact 18"
  have "cos x \<le> S + R" "S - R \<le> cos x" using cos_bound [of x 18] unfolding S_def R_def by linarith+
  then have "cos x * c \<le> S * c + R * c" "S * c - R * c \<le> cos x * c"
    unfolding distrib_right [symmetric] left_diff_distrib [symmetric] using c by (simp_all add: mult_right_mono)
  then have "cos x * c \<le> p + a ^ 18" "p - a ^ 18 \<le> cos x * c" by (simp_all only: s f S_def R_def)
  then show "a ^ 18 < p \<Longrightarrow> 0 < cos (a / b)" "p + a ^ 18 < 0 \<Longrightarrow> cos (a / b) < 0"
    using c zero_less_mult_pos2 [of "cos x" c] mult_nonneg_nonneg [of "cos x" c] unfolding x_def [symmetric] by linarith+
qed

lemma half_pi_bounds: "1570796326 / 10 ^ 9 < pi / 2" "pi / 2 < 1570796327 / 10 ^ 9"
proof -
  have n: "cos x \<le> 0" if "pi / 2 \<le> x" "x \<le> 2" for x :: real
    using that cos_monotone_0_pi_le [of "pi / 2" x] pi_ge_two by simp
  have "0 < cos (1570796326 / 10 ^ 9 :: real)" by (rule cos_taylor_sign(1)) simp_all
  then show "1570796326 / 10 ^ 9 < pi / 2" using n [of "1570796326 / 10 ^ 9"] by (cases "pi / 2 \<le> 1570796326 / 10 ^ 9") simp_all
  have p: "0 \<le> cos x" if "x \<le> pi / 2" "0 \<le> x" for x :: real using that by (intro cos_ge_zero) simp_all
  have "cos (1570796327 / 10 ^ 9 :: real) < 0" by (rule cos_taylor_sign(2)) simp_all
  then show "pi / 2 < 1570796327 / 10 ^ 9" using p [of "1570796327 / 10 ^ 9"] by (cases "1570796327 / 10 ^ 9 \<le> pi / 2") simp_all
qed

section \<open>Logarithm\<close>

definition log_series :: "real \<Rightarrow> real" where
  "log_series z = z * (2 / 3 + z * (2 / 5 + z * (2 / 7 + z * (2 / 9 + z * (2 / 11 + z * (2 / 13 + z * (2 / 15)))))))"

lemma log_series_deriv:
  fixes s :: real
  assumes "\<bar>s\<bar> < 1"
  shows "((\<lambda>s. ln (1 + s) - ln (1 - s) - (2 * s + s * log_series (s\<^sup>2))) has_real_derivative 2 * s ^ 16 / (1 - s\<^sup>2)) (at s)"
proof -
  have p: "0 < 1 + s" "0 < 1 - s" "1 - s\<^sup>2 \<noteq> 0" using assms by (auto simp: power2_eq_1_iff)
  define q where "q = 2 + 2 * s ^ 2 + 2 * s ^ 4 + 2 * s ^ 6 + 2 * s ^ 8 + 2 * s ^ 10 + 2 * s ^ 12 + 2 * s ^ 14"
  have "((\<lambda>s. ln (1 + s) - ln (1 - s)) has_real_derivative 1 / (1 + s) + 1 / (1 - s)) (at s)"
    using p(1,2) by (auto intro!: derivative_eq_intros)
  moreover have "((\<lambda>s. 2 * s + s * log_series (s\<^sup>2)) has_real_derivative q) (at s)"
    unfolding log_series_def q_def by (auto intro!: derivative_eq_intros simp: algebra_simps eval_nat_numeral)
  ultimately have "((\<lambda>s. ln (1 + s) - ln (1 - s) - (2 * s + s * log_series (s\<^sup>2))) has_real_derivative 1 / (1 + s) + 1 / (1 - s) - q) (at s)"
    by (rule DERIV_diff)
  moreover have "1 / (1 + s) + 1 / (1 - s) = 2 / (1 - s\<^sup>2)" using p by (simp add: field_simps power2_eq_square)
  moreover have "2 / (1 - s\<^sup>2) - q = 2 * s ^ 16 / (1 - s\<^sup>2)"
    using p(3) unfolding q_def by (simp add: field_simps flip: power_add)
  ultimately show ?thesis by simp
qed

lemma ln_quotient:
  fixes s :: real
  assumes "\<bar>s\<bar> \<le> 9 / 50"
  shows "\<bar>ln ((1 + s) / (1 - s)) - (2 * s + s * log_series (s\<^sup>2))\<bar> \<le> 1 / 2 ^ 40"
proof -
  define h where "h = (\<lambda>s. ln (1 + s) - ln (1 - s) - (2 * s + s * log_series (s\<^sup>2)))"
  have d: "(h has_real_derivative 2 * t ^ 16 / (1 - t\<^sup>2)) (at t)" if "\<bar>t\<bar> \<le> 9 / 50" for t
    unfolding h_def using that by (intro log_series_deriv) simp
  have b: "\<bar>2 * t ^ 16 / (1 - t\<^sup>2)\<bar> \<le> 2 * (9 / 50) ^ 16 / (1 - (9 / 50)\<^sup>2)" if "\<bar>t\<bar> \<le> 9 / 50" for t :: real
  proof -
    have "t ^ 16 \<le> (9 / 50) ^ 16" using power_mono [OF that, of 16] by simp
    moreover have "t\<^sup>2 \<le> (9 / 50)\<^sup>2" using power_mono [OF that, of 2] by simp
    moreover have "(9 / 50)\<^sup>2 < (1 :: real)" by (simp add: power_divide)
    ultimately show ?thesis by (subst abs_of_nonneg) (auto intro!: divide_nonneg_nonneg frac_le)
  qed
  define C :: real where "C = 2 * (9 / 50) ^ 16 / (1 - (9 / 50)\<^sup>2)"
  have "\<exists>t. \<bar>t\<bar> \<le> 9 / 50 \<and> \<bar>h s - h 0\<bar> = \<bar>s\<bar> * \<bar>2 * t ^ 16 / (1 - t\<^sup>2)\<bar>"
  proof -
    consider "s = 0" | "0 < s" | "s < 0" by linarith
    then show ?thesis
    proof cases
      case 2
      then obtain t where "0 < t" "t < s" "h s - h 0 = (s - 0) * (2 * t ^ 16 / (1 - t\<^sup>2))"
        using MVT2 [of 0 s h "\<lambda>t. 2 * t ^ 16 / (1 - t\<^sup>2)"] d assms by force
      then show ?thesis using assms by (intro exI [of _ t]) (simp add: abs_mult)
    next
      case 3
      then obtain t where "s < t" "t < 0" "h 0 - h s = (0 - s) * (2 * t ^ 16 / (1 - t\<^sup>2))"
        using MVT2 [of s 0 h "\<lambda>t. 2 * t ^ 16 / (1 - t\<^sup>2)"] d assms by force
      then show ?thesis using assms by (intro exI [of _ t]) (simp add: abs_mult abs_minus_commute)
    qed (auto intro: exI [of _ 0])
  qed
  then obtain t where t: "\<bar>t\<bar> \<le> 9 / 50" "\<bar>h s - h 0\<bar> = \<bar>s\<bar> * \<bar>2 * t ^ 16 / (1 - t\<^sup>2)\<bar>" by blast
  have "\<bar>h s - h 0\<bar> \<le> 9 / 50 * C" unfolding t(2) using assms b [OF t(1), folded C_def] by (intro mult_mono) simp_all
  also have "\<dots> \<le> 1 / 2 ^ 40" unfolding C_def by (simp add: power_divide)
  finally have "\<bar>h s\<bar> \<le> 1 / 2 ^ 40" by (simp add: h_def log_series_def)
  moreover have "ln ((1 + s) / (1 - s)) = ln (1 + s) - ln (1 - s)" by (rule ln_divide_pos) (use assms in \<open>auto simp: abs_le_iff\<close>)
  ultimately show ?thesis by (simp add: h_def)
qed

lemma ln_2_bounds: "69314718055 / 10 ^ 11 \<le> ln (2 :: real)" "ln (2 :: real) \<le> 69314718057 / 10 ^ 11"
proof -
  have "(1 + 1 / 9) / (1 - 1 / 9) = (5 / 4 :: real)" "(1 + 3 / 253) / (1 - 3 / 253) = (128 / 125 :: real)" by simp_all
  then have b: "\<bar>ln (5 / 4) - (2 / 9 + 1 / 9 * log_series ((1 / 9)\<^sup>2))\<bar> \<le> 1 / 2 ^ 40"
    "\<bar>ln (128 / 125) - (6 / 253 + 3 / 253 * log_series ((3 / 253)\<^sup>2))\<bar> \<le> 1 / 2 ^ 40"
    using ln_quotient [of "1 / 9"] ln_quotient [of "3 / 253"] by simp_all
  have "ln (2 :: real) = ln ((5 / 4) ^ 3 * (128 / 125))" by (simp add: power_divide)
  also have "\<dots> = ln ((5 / 4) ^ 3) + ln (128 / 125)" by (rule ln_mult_pos) simp_all
  also have "ln ((5 / 4) ^ 3) = 3 * ln (5 / 4 :: real)" by (simp add: ln_realpow)
  finally have l: "ln (2 :: real) = 3 * ln (5 / 4) + ln (128 / 125)" .
  define u v where "u = 2 / 9 + 1 / 9 * log_series ((1 / 9)\<^sup>2)" and "v = 6 / 253 + 3 / 253 * log_series ((3 / 253)\<^sup>2)"
  have "69314718055 / 10 ^ 11 + 4 / 2 ^ 40 \<le> 3 * u + v" "3 * u + v \<le> 69314718057 / 10 ^ 11 - 4 / 2 ^ 40"
    by (simp_all add: u_def v_def log_series_def power_divide)
  then show "69314718055 / 10 ^ 11 \<le> ln (2 :: real)" "ln (2 :: real) \<le> 69314718057 / 10 ^ 11"
    using b unfolding l u_def [symmetric] v_def [symmetric] abs_le_iff by simp_all
qed

section \<open>Exponential function\<close>

definition exp_even :: "real \<Rightarrow> real" where
  "exp_even w = w * (1 / 6 + w * (- 1 / 360 + w * (1 / 15120)))"

lemma exp_even_bounds:
  fixes x :: real
  assumes "\<bar>x\<bar> \<le> 36 / 100"
  shows "0 \<le> exp_even (x * x)" and "exp_even (x * x) \<le> 22 / 1000"
proof -
  define w where "w = x * x"
  have "\<bar>x\<bar> * \<bar>x\<bar> \<le> 36 / 100 * (36 / 100)" using assms by (intro mult_mono) simp_all
  then have w: "0 \<le> w" "w \<le> 13 / 100" by (simp_all add: w_def)
  have v: "0 \<le> w * (1 / 15120)" "w * (1 / 15120) \<le> 1 / 1000" using w by simp_all
  have "- (1 / 360) * (13 / 100) \<le> - (1 / 360) * w" using w by simp
  moreover have "0 \<le> w * (w * (1 / 15120))" "w * (- 1 / 360 + w * (1 / 15120)) \<le> 0" using w by (simp_all add: mult_nonneg_nonpos)
  moreover have "w * (- 1 / 360 + w * (1 / 15120)) = - (1 / 360) * w + w * (w * (1 / 15120))" by (simp add: right_diff_distrib)
  ultimately have p: "16 / 100 \<le> 1 / 6 + w * (- 1 / 360 + w * (1 / 15120))" "1 / 6 + w * (- 1 / 360 + w * (1 / 15120)) \<le> 1 / 6"
    by linarith+
  show "0 \<le> exp_even (x * x)" unfolding exp_even_def w_def [symmetric] using w(1) p(1) by (intro mult_nonneg_nonneg) simp_all
  have "w * (1 / 6 + w * (- 1 / 360 + w * (1 / 15120))) \<le> 13 / 100 * (1 / 6)" using w p by (intro mult_mono) simp_all
  then show "exp_even (x * x) \<le> 22 / 1000" unfolding exp_even_def w_def [symmetric] by simp
qed

lemma exp_quotient:
  fixes x :: real
  assumes x: "\<bar>x\<bar> \<le> 36 / 100"
  defines "E \<equiv> exp_even (x * x)"
  shows "\<bar>(2 + x + E) / (2 - x + E) - exp x\<bar> \<le> 1 / 2 ^ 29"
proof -
  define T where "T = 1 + x + x ^ 2 / 2 + x ^ 3 / 6 + x ^ 4 / 24 + x ^ 5 / 120 + x ^ 6 / 720 + x ^ 7 / 5040 + x ^ 8 / 40320"
  have p: "\<bar>x\<bar> ^ n \<le> (36 / 100) ^ n" for n using x by (intro power_mono) simp_all
  have rem: "\<bar>exp x - T\<bar> \<le> 1 / 2 ^ 30"
  proof -
    obtain t where t: "\<bar>t\<bar> \<le> \<bar>x\<bar>" "exp x = (\<Sum>m<9. (x ^ m) / fact m) + (exp t / fact 9) * x ^ 9" using Maclaurin_exp_le [of x 9] by blast
    have "(\<Sum>m<9. (x ^ m) / fact m) = T" by (simp add: T_def lessThan_nat_numeral fact_numeral)
    then have e: "exp x - T = exp t * (x ^ 9 / 362880)" using t(2) by (simp add: fact_numeral)
    have "exp t \<le> exp 1" using t(1) x by simp
    also have "\<dots> \<le> 3" by (rule exp_le)
    finally have "\<bar>exp t\<bar> * \<bar>x ^ 9 / 362880\<bar> \<le> 3 * ((36 / 100) ^ 9 / 362880)" using p [of 9]
      by (intro mult_mono) (simp_all add: abs_divide power_abs)
    then show ?thesis unfolding e abs_mult by (simp add: power_divide)
  qed
  have id: "2 + x + E - (2 - x + E) * T = x ^ 9 / 259200 - 11 * x ^ 10 / 3628800 - x ^ 12 / 43545600 - x ^ 13 / 76204800 - x ^ 14 / 609638400"
    unfolding T_def E_def exp_even_def by (simp add: field_simps eval_nat_numeral)
  have D: "16 / 10 \<le> 2 - x + E" "2 - x + E \<le> 24 / 10" using exp_even_bounds [OF x] x by (simp_all add: E_def abs_le_iff)
  have "\<bar>x ^ 9 / 259200 - 11 * x ^ 10 / 3628800 - x ^ 12 / 43545600 - x ^ 13 / 76204800 - x ^ 14 / 609638400\<bar>
    \<le> \<bar>x\<bar> ^ 9 / 259200 + 11 * \<bar>x\<bar> ^ 10 / 3628800 + \<bar>x\<bar> ^ 12 / 43545600 + \<bar>x\<bar> ^ 13 / 76204800 + \<bar>x\<bar> ^ 14 / 609638400"
    unfolding power_abs [symmetric] by linarith
  also have "\<dots> \<le> (36 / 100) ^ 9 / 259200 + 11 * (36 / 100) ^ 10 / 3628800 + (36 / 100) ^ 12 / 43545600 + (36 / 100) ^ 13 / 76204800
      + (36 / 100) ^ 14 / 609638400" by (intro add_mono divide_right_mono mult_left_mono p) simp_all
  also have "\<dots> \<le> 6 / 10 ^ 10" by (simp add: power_divide)
  finally have "\<bar>2 + x + E - (2 - x + E) * T\<bar> \<le> 6 / 10 ^ 10" unfolding id .
  moreover have "\<bar>(2 - x + E) * (exp x - T)\<bar> \<le> 24 / 10 * (1 / 2 ^ 30)" unfolding abs_mult using D rem by (intro mult_mono) simp_all
  moreover have "2 + x + E - (2 - x + E) * exp x = (2 + x + E - (2 - x + E) * T) - (2 - x + E) * (exp x - T)" by (simp add: algebra_simps)
  ultimately have "\<bar>2 + x + E - (2 - x + E) * exp x\<bar> \<le> 6 / 10 ^ 10 + 24 / 10 * (1 / 2 ^ 30)" by linarith
  then have "\<bar>(2 + x + E - (2 - x + E) * exp x) / (2 - x + E)\<bar> \<le> (6 / 10 ^ 10 + 24 / 10 * (1 / 2 ^ 30)) / (16 / 10)"
    unfolding abs_divide using D by (intro frac_le) simp_all
  then show ?thesis using D by (simp add: diff_divide_distrib)
qed

end
