(* ===== verification/Libm_Trig_Error.thy ===== *)
theory Libm_Trig_Error
  imports Float_Interval Real_Bounds
begin

text \<open>
  The accuracy of sine and cosine (\<^verbatim>\<open>sincosf_tiny.c\<close>): how far the computed results are from the real functions, with the
  rounding of every operation, the truncated series and the reduction of the argument by multiples of \<open>\<pi>/2\<close>.
\<close>

section \<open>The polynomials\<close>

lemma trig_consts:
  "appr S1 (- 1 / 6) (1 / 2 ^ 27)" "appr S2 (1 / 120) (1 / 2 ^ 30)" "appr S3 (- 1 / 5040) (1 / 2 ^ 36)"
  "appr C1 (- 1 / 2) 0" "appr C2 (1 / 24) (1 / 2 ^ 29)" "appr C3 (- 1 / 720) (1 / 2 ^ 34)" "appr one_f 1 0"
  by (simp_all add: appr_def const_eval S1_def S2_def S3_def C1_def C2_def C3_def one_f_def)

lemma square_bound:
  fixes y :: real
  assumes "\<bar>y\<bar> \<le> 81 / 100"
  shows "\<bar>y * y\<bar> \<le> 66 / 100"
proof -
  have "\<bar>y\<bar> * \<bar>y\<bar> \<le> 81 / 100 * (81 / 100)" using assms by (intro mult_mono) simp_all
  then show ?thesis by (simp add: abs_mult)
qed

lemma kernel_square:
  assumes "is_finite y" and "\<bar>rval y\<bar> \<le> 81 / 100"
  shows "appr (mulsf3 y y) (rval y * rval y) (1 / 2 ^ 25)"
  by (rule appr_mul [OF appr_exact [OF assms(1)] appr_exact [OF assms(1)] assms(2,2), where B = 1]) simp_all

lemma horner_step:
  assumes "appr c x e" and "appr z w f" and "appr p y g" and "\<bar>w\<bar> \<le> W" and "\<bar>y\<bar> \<le> Y" and "\<bar>x\<bar> \<le> X"
    and "W * Y + (W * g + Y * f + f * g) < B" and "binade B" and "B \<le> 256" and "W * g + Y * f + f * g + B / 2 ^ 25 \<le> h"
    and "X + W * Y + (e + h) < D" and "binade D" and "D \<le> 256" and "e + h + D / 2 ^ 25 \<le> d"
  shows "appr (fadd c (mulsf3 z p)) (x + w * y) d"
proof (rule appr_add [OF assms(1) _ _ assms(12-14)])
  show "appr (mulsf3 z p) (w * y) h" by (rule appr_mul [OF assms(2,3,4,5,7,8,9,10)])
  have "\<bar>w * y\<bar> \<le> W * Y" unfolding abs_mult using assms(4,5) by (intro mult_mono) auto
  then show "\<bar>x + w * y\<bar> + (e + h) < D" using assms(6,11) by linarith
qed

lemma poly_bound:
  fixes x w y :: real
  assumes "\<bar>x\<bar> \<le> X" and "\<bar>w\<bar> \<le> W" and "\<bar>y\<bar> \<le> Y" and "X + W * Y \<le> Z"
  shows "\<bar>x + w * y\<bar> \<le> Z"
proof -
  have "\<bar>w * y\<bar> \<le> W * Y" unfolding abs_mult using assms(2,3) by (intro mult_mono) auto
  with assms(1,4) show ?thesis by linarith
qed

lemma kernel_sinf_appr:
  assumes y: "is_finite y" "\<bar>rval y\<bar> \<le> 81 / 100"
  defines "w \<equiv> rval y * rval y"
  shows "appr (kernel_sinf y) (rval y * (1 + w * (- 1 / 6 + w * (1 / 120 + w * (- 1 / 5040))))) (1 / 2 ^ 22)"
proof -
  have w: "\<bar>w\<bar> \<le> 66 / 100" unfolding w_def by (rule square_bound [OF y(2)])
  note q = kernel_square [OF y, folded w_def]
  have p1: "appr (fadd S2 (mulsf3 (mulsf3 y y) S3)) (1 / 120 + w * (- 1 / 5040)) (1 / 2 ^ 27)"
    by (rule horner_step [OF trig_consts(2) q trig_consts(3) w, where Y = "1 / 5040" and X = "1 / 120" and B = "1 / 1024" and D = "1 / 64" and h = "1 / 2 ^ 30"])
      simp_all
  have b1: "\<bar>1 / 120 + w * (- 1 / 5040)\<bar> \<le> 1 / 100" by (rule poly_bound [OF _ w, where X = "1 / 120" and Y = "1 / 5040"]) simp_all
  have p2: "appr (fadd S1 (mulsf3 (mulsf3 y y) (fadd S2 (mulsf3 (mulsf3 y y) S3)))) (- 1 / 6 + w * (1 / 120 + w * (- 1 / 5040))) (1 / 2 ^ 25)"
    by (rule horner_step [OF trig_consts(1) q p1 w b1, where X = "1 / 6" and B = "1 / 64" and D = "1 / 4" and h = "1 / 2 ^ 27"]) simp_all
  have b2: "\<bar>- 1 / 6 + w * (1 / 120 + w * (- 1 / 5040))\<bar> \<le> 18 / 100" by (rule poly_bound [OF _ w b1, where X = "1 / 6"]) simp_all
  have p3: "appr (fadd one_f (mulsf3 (mulsf3 y y) (fadd S1 (mulsf3 (mulsf3 y y) (fadd S2 (mulsf3 (mulsf3 y y) S3))))))
      (1 + w * (- 1 / 6 + w * (1 / 120 + w * (- 1 / 5040)))) (1 / 2 ^ 23)"
    by (rule horner_step [OF trig_consts(7) q p2 w b2, where X = 1 and B = "1 / 4" and D = 2 and h = "1 / 2 ^ 24"]) simp_all
  have b3: "\<bar>1 + w * (- 1 / 6 + w * (1 / 120 + w * (- 1 / 5040)))\<bar> \<le> 112 / 100" by (rule poly_bound [OF _ w b2, where X = 1]) simp_all
  show ?thesis unfolding kernel_sinf_def Let_def
    by (rule appr_mul [OF appr_exact [OF y(1)] p3 y(2) b3, where B = 1]) simp_all
qed

lemma kernel_cosf_appr:
  assumes y: "is_finite y" "\<bar>rval y\<bar> \<le> 81 / 100"
  defines "w \<equiv> rval y * rval y"
  shows "appr (kernel_cosf y) (1 + w * (- 1 / 2 + w * (1 / 24 + w * (- 1 / 720)))) (1 / 2 ^ 22)"
proof -
  have w: "\<bar>w\<bar> \<le> 66 / 100" unfolding w_def by (rule square_bound [OF y(2)])
  note q = kernel_square [OF y, folded w_def]
  have p1: "appr (fadd C2 (mulsf3 (mulsf3 y y) C3)) (1 / 24 + w * (- 1 / 720)) (1 / 2 ^ 27)"
    by (rule horner_step [OF trig_consts(5) q trig_consts(6) w, where Y = "1 / 720" and X = "1 / 24" and B = "1 / 64" and D = "1 / 8" and h = "1 / 2 ^ 30"])
      simp_all
  have b1: "\<bar>1 / 24 + w * (- 1 / 720)\<bar> \<le> 1 / 20" by (rule poly_bound [OF _ w, where X = "1 / 24" and Y = "1 / 720"]) simp_all
  have p2: "appr (fadd C1 (mulsf3 (mulsf3 y y) (fadd C2 (mulsf3 (mulsf3 y y) C3)))) (- 1 / 2 + w * (1 / 24 + w * (- 1 / 720))) (1 / 2 ^ 24)"
    by (rule horner_step [OF trig_consts(4) q p1 w b1, where X = "1 / 2" and B = "1 / 8" and D = 1 and h = "1 / 2 ^ 26"]) simp_all
  have b2: "\<bar>- 1 / 2 + w * (1 / 24 + w * (- 1 / 720))\<bar> \<le> 54 / 100" by (rule poly_bound [OF _ w b1, where X = "1 / 2"]) simp_all
  show ?thesis unfolding kernel_cosf_def Let_def
    by (rule horner_step [OF trig_consts(7) q p2 w b2, where X = 1 and B = "1 / 2" and D = 2 and h = "1 / 2 ^ 23"]) simp_all
qed

lemma kernel_error:
  assumes y: "is_finite y" "\<bar>rval y\<bar> \<le> 81 / 100"
  shows "appr (kernel_sinf y) (sin (rval y)) (1 / 2 ^ 18)" and "appr (kernel_cosf y) (cos (rval y)) (1 / 2 ^ 17)"
proof -
  define x where "x = rval y"
  have p: "\<bar>x\<bar> ^ n \<le> (81 / 100) ^ n" for n using y(2) by (intro power_mono) (simp_all add: x_def)
  have "\<bar>x * (1 + x\<^sup>2 * (- 1 / 6 + x\<^sup>2 * (1 / 120 + x\<^sup>2 * (- 1 / 5040)))) - sin x\<bar> \<le> 1 / 2 ^ 20"
    using sin_taylor [of x] p [of 9] by (simp add: power_divide abs_minus_commute)
  from appr_shift [OF kernel_sinf_appr [OF y] this [unfolded power2_eq_square x_def]]
  show "appr (kernel_sinf y) (sin (rval y)) (1 / 2 ^ 18)" by (rule appr_mono) simp
  have "\<bar>1 + x\<^sup>2 * (- 1 / 2 + x\<^sup>2 * (1 / 24 + x\<^sup>2 * (- 1 / 720))) - cos x\<bar> \<le> 1 / 2 ^ 17 - 1 / 2 ^ 20"
    using cos_taylor [of x] p [of 8] by (simp add: power_divide abs_minus_commute)
  from appr_shift [OF kernel_cosf_appr [OF y] this [unfolded power2_eq_square x_def]]
  show "appr (kernel_cosf y) (cos (rval y)) (1 / 2 ^ 17)" by (rule appr_mono) simp
qed

section \<open>The reduction of the argument\<close>

lemma near_finite_large:
  assumes "near x r" and "\<bar>x\<bar> \<le> 2 ^ 100"
  shows "is_finite r"
proof -
  have "real (mval (227 * 2 ^ 23)) = 2 ^ 100 * scale" by (simp add: mval_def scale_def)
  then have "mag r \<le> 227 * 2 ^ 23" using assms(2) by (intro near_le [OF assms(1)]) simp
  then show ?thesis by (simp add: is_finite_def inf_mag_def)
qed

lemma near_exact:
  assumes "near x r" and "real (mval m) = \<bar>x\<bar> * scale" and "m < inf_mag"
  shows "is_finite r \<and> rval r = x"
proof -
  have m: "mag r = m" using near_le [OF assms(1), of m] near_ge [OF assms(1), of m] assms(2,3) by simp
  have f: "is_finite r" using m assms(3) by (simp add: is_finite_def)
  have "\<bar>rval r - x\<bar> * scale \<le> 0 * scale" using near_nearest [OF assms(1) f, of m] assms(2,3) by simp
  then have "\<bar>rval r - x\<bar> \<le> 0" by (rule mult_right_le_imp_le) simp
  then show ?thesis using f by simp
qed

lemma near_nat:
  assumes "k < 2 ^ 15"
  shows "is_finite (int_to_float (of_nat k)) \<and> rval (int_to_float (of_nat k)) = real k"
proof -
  have "sint (scast (of_nat k :: u16) :: u32) = int k"
  proof -
    have "sint (of_nat k :: u16) = int k" using assms by (simp add: signed_of_nat signed_take_bit_int_eq_self)
    then show ?thesis by (simp add: sint_up_scast is_up)
  qed
  from near_of_int [OF this] have n: "near (real k) (int_to_float (of_nat k))" by (simp add: int_to_float_def)
  obtain m where "m < inf_mag" "mval m = k * 2 ^ 149" using representable [of k] assms by auto
  then show ?thesis using near_exact [OF n, of m] by (simp add: scale_def)
qed

lemma trunc_bounds:
  assumes "\<not> negative v"
  shows "real (trunc_mag (mag v)) \<le> rval v" and "rval v < real (trunc_mag (mag v)) + 1"
proof -
  define M :: nat where "M = 2 ^ 149"
  have r: "rval v = real (mval (mag v)) / real M" using assms by (simp add: rval_def fval_def scale_def M_def)
  have "mval (mag v) div M * M \<le> mval (mag v)" "mval (mag v) < (mval (mag v) div M + 1) * M"
    using dividend_less_div_times [of M "mval (mag v)"] by (simp_all add: M_def div_times_less_eq_dividend)
  then have "real (mval (mag v) div M * M) \<le> real (mval (mag v))" "real (mval (mag v)) < real ((mval (mag v) div M + 1) * M)"
    by (simp_all only: of_nat_le_iff of_nat_less_iff)
  moreover have "0 < real M" by (simp add: M_def)
  ultimately show "real (trunc_mag (mag v)) \<le> rval v" "rval v < real (trunc_mag (mag v)) + 1"
    unfolding r trunc_mag_def M_def [symmetric] by (simp_all add: pos_le_divide_eq pos_divide_less_eq algebra_simps)
qed

lemma trig_reals:
  "rval invpio2 = 10680707 / 2 ^ 24" "rval half_f = 1 / 2" "rval pio2_hi = 13176795 / 2 ^ 23" "rval pio2_lo = - 6151831 / 2 ^ 47"
  "is_finite invpio2" "is_finite half_f" "is_finite pio2_hi" "is_finite pio2_lo"
  by (simp_all add: const_eval invpio2_def half_f_def pio2_hi_def pio2_lo_def)

text \<open>The number of quarter turns and its distance from the argument.\<close>

lemma quarter_turns:
  assumes "is_finite x" and "\<not> negative x" and "785 / 1000 \<le> rval x" and "rval x \<le> 2 ^ 15"
  defines "k \<equiv> trunc_mag (mag (fadd (mulsf3 x invpio2) half_f))"
  shows "\<bar>real k - rval x * (10680707 / 2 ^ 24)\<bar> \<le> 1 / 2 + 3 * rval x / 2 ^ 24"
    and "float_to_int (fadd (mulsf3 x invpio2) half_f) = of_nat k"
proof -
  define z where "z = rval x"
  define m v where "m = mulsf3 x invpio2" and "v = fadd m half_f"
  define P where "P = z * (10680707 / 2 ^ 24)"
  have z: "785 / 1000 \<le> z" "z \<le> 2 ^ 15" using assms(3,4) by (simp_all add: z_def)
  have nm: "near P m" unfolding P_def m_def z_def using near_mul [OF assms(1) trig_reals(5)] by (simp add: trig_reals)
  have P: "1 / 4 \<le> P" "P \<le> 32768" using z by (simp_all add: P_def)
  have fm: "is_finite m" using P by (intro near_finite_large [OF nm]) simp
  have em: "\<bar>rval m - P\<bar> \<le> P / 2 ^ 24" using near_error_relative [OF nm fm] P by simp
  have m: "1 / 8 \<le> rval m" "rval m \<le> 40000" using em P unfolding abs_le_iff by simp_all
  have nv: "near (rval m + 1 / 2) v" unfolding v_def using near_add [OF fm trig_reals(6)] by (simp add: trig_reals)
  have fv: "is_finite v" using m by (intro near_finite_large [OF nv]) simp
  have ev: "\<bar>rval v - (rval m + 1 / 2)\<bar> \<le> (rval m + 1 / 2) / 2 ^ 24" using near_error_relative [OF nv fv] m by simp
  have "0 < rval v" using ev m unfolding abs_le_iff by simp
  then have neg: "\<not> negative v" using rval_abs(2) [of v] rval_eq_0 [of v] by auto
  have k: "k = trunc_mag (mag v)" by (simp add: k_def v_def m_def)
  note t = trunc_bounds [OF neg, folded k]
  have "\<bar>real k - P\<bar> \<le> 1 / 2 + 3 * z / 2 ^ 24" using t em ev P m z unfolding abs_le_iff by (simp add: P_def)
  then show "\<bar>real k - rval x * (10680707 / 2 ^ 24)\<bar> \<le> 1 / 2 + 3 * rval x / 2 ^ 24" by (simp only: P_def z_def)
  have "real k < real (2 ^ 32)" using t ev m unfolding abs_le_iff by simp
  then have "k < 2 ^ 32" by (simp only: of_nat_less_iff)
  then have "fixsfsi v = of_nat k" using int_of_float_trunc [of v] neg by (simp add: k)
  then have "float_to_int v = ucast (of_nat k :: u32)" by (simp add: float_to_int_def)
  also have "\<dots> = of_nat k" using \<open>k < 2 ^ 32\<close> by (simp add: unsigned_of_nat take_bit_nat_eq_self)
  finally show "float_to_int (fadd (mulsf3 x invpio2) half_f) = of_nat k" by (simp add: v_def m_def)
qed

lemma reduced_argument:
  assumes "is_finite x" and "785 / 1000 \<le> rval x" and "rval x \<le> 2 ^ 15" and "k < 2 ^ 15"
    and k: "\<bar>real k - rval x * (10680707 / 2 ^ 24)\<bar> \<le> 1 / 2 + 3 * rval x / 2 ^ 24"
  defines "fn \<equiv> int_to_float (of_nat k)"
  defines "y \<equiv> fsub (fsub x (mulsf3 fn pio2_hi)) (mulsf3 fn pio2_lo)"
  shows "is_finite y" and "\<bar>rval y - (rval x - real k * (pi / 2))\<bar> \<le> rval x / 2 ^ 21" and "\<bar>rval y\<bar> \<le> 81 / 100"
proof -
  define z K where "z = rval x" and "K = real k"
  have z: "785 / 1000 \<le> z" "z \<le> 32768" using assms(2,3) by (simp_all add: z_def)
  have K: "\<bar>K - z * (10680707 / 2 ^ 24)\<bar> \<le> 1 / 2 + 3 * z / 2 ^ 24" using k by (simp only: K_def z_def)
  have K0: "K = 0 \<or> 1 \<le> K" "K \<le> 2 * z" "K \<le> 40000" using K z unfolding abs_le_iff by (auto simp: K_def)
  have fn: "is_finite fn" "rval fn = K" using near_nat [OF assms(4)] by (simp_all add: fn_def K_def)
  define A C where "A = K * (13176795 / 2 ^ 23)" and "C = K * (- 6151831 / 2 ^ 47)"
  define p l d where "p = mulsf3 fn pio2_hi" and "l = mulsf3 fn pio2_lo" and "d = fsub x p"
  have np: "near A p" unfolding A_def p_def using near_mul [OF fn(1) trig_reals(7)] by (simp add: fn(2) trig_reals)
  have nl: "near C l" unfolding C_def l_def using near_mul [OF fn(1) trig_reals(8)] by (simp add: fn(2) trig_reals)
  have "0 \<le> K" by (simp add: K_def)
  then have "\<bar>A\<bar> \<le> 2 ^ 100" "\<bar>C\<bar> \<le> 2 ^ 100" using K0 unfolding abs_le_iff by (simp_all add: A_def C_def)
  then have fin: "is_finite p" "is_finite l" using near_finite_large np nl by blast+
  have ep: "\<bar>rval p - A\<bar> \<le> A / 2 ^ 24"
  proof (cases "K = 0")
    case True
    then show ?thesis using near_exact [OF np, of 0] by (simp add: A_def inf_mag_def)
  next
    case False
    then show ?thesis using near_error_relative [OF np fin(1)] K0 by (simp add: A_def)
  qed
  have el: "\<bar>rval l - C\<bar> \<le> (1 / 64) / 2 ^ 25"
    using K0 \<open>0 \<le> K\<close> by (intro near_error_binade [OF nl fin(2)]) (simp_all add: C_def abs_less_iff)
  have zA: "\<bar>z - rval p\<bar> < 1" using ep K z unfolding abs_le_iff abs_less_iff by (simp add: A_def)
  have nd: "near (z - rval p) d" unfolding d_def z_def by (rule near_sub [OF assms(1) fin(1)])
  have fd: "is_finite d" using zA by (intro near_finite_large [OF nd]) simp
  have ed: "\<bar>rval d - (z - rval p)\<bar> \<le> 1 / 2 ^ 25" by (rule near_error_binade [OF nd fd zA]) simp
  have dl: "\<bar>rval d - rval l\<bar> < 1" using ed el ep K z unfolding abs_le_iff abs_less_iff by (simp add: A_def C_def)
  have ny: "near (rval d - rval l) y" unfolding y_def d_def [symmetric] p_def [symmetric] l_def [symmetric] by (rule near_sub [OF fd fin(2)])
  show fy: "is_finite y" using dl by (intro near_finite_large [OF ny]) simp
  have ey: "\<bar>rval y - (rval d - rval l)\<bar> \<le> 1 / 2 ^ 25" by (rule near_error_binade [OF ny fy dl]) simp
  show "\<bar>rval y\<bar> \<le> 81 / 100" using ey ed el ep K z unfolding abs_le_iff by (simp add: A_def C_def)
  define T where "T = K * (pi / 2)"
  have "K * (1570796326 / 10 ^ 9) \<le> T" "T \<le> K * (1570796327 / 10 ^ 9)" unfolding T_def
    using half_pi_bounds by (intro mult_left_mono; simp add: K_def)+
  then have "\<bar>rval y - (z - T)\<bar> \<le> z / 2 ^ 21" using ey ed el ep K z unfolding abs_le_iff by (simp add: A_def C_def)
  then show "\<bar>rval y - (rval x - real k * (pi / 2))\<bar> \<le> rval x / 2 ^ 21" by (simp only: z_def T_def K_def)
qed

section \<open>The functions\<close>

lemma turns_sin_cos:
  "sin (t + real k * (pi / 2)) = (if k mod 4 = 0 then sin t else if k mod 4 = 1 then cos t else if k mod 4 = 2 then - sin t else - cos t)"
  "cos (t + real k * (pi / 2)) = (if k mod 4 = 0 then cos t else if k mod 4 = 1 then - sin t else if k mod 4 = 2 then - cos t else sin t)"
proof (induction k)
  case (Suc k)
  define u where "u = t + real k * (pi / 2)"
  have "t + real (Suc k) * (pi / 2) = u + pi / 2" by (simp add: u_def algebra_simps)
  then have s: "sin (t + real (Suc k) * (pi / 2)) = cos u" "cos (t + real (Suc k) * (pi / 2)) = - sin u" by (simp_all add: sin_add cos_add)
  have "k mod 4 = 0 \<or> k mod 4 = 1 \<or> k mod 4 = 2 \<or> k mod 4 = 3" by linarith
  then show "sin (t + real (Suc k) * (pi / 2)) =
      (if Suc k mod 4 = 0 then sin t else if Suc k mod 4 = 1 then cos t else if Suc k mod 4 = 2 then - sin t else - cos t)"
    "cos (t + real (Suc k) * (pi / 2)) =
      (if Suc k mod 4 = 0 then cos t else if Suc k mod 4 = 1 then - sin t else if Suc k mod 4 = 2 then - cos t else sin t)"
    unfolding s u_def Suc.IH by (auto simp: mod_Suc)
qed simp_all

lemma sin_cos_lipschitz: "\<bar>sin a - sin b\<bar> \<le> \<bar>a - b\<bar>" "\<bar>cos a - cos b\<bar> \<le> \<bar>a - b\<bar>" for a b :: real
proof -
  have s: "\<bar>sin ((a - b) / 2)\<bar> \<le> \<bar>a - b\<bar> / 2" using abs_sin_x_le_abs_x [of "(a - b) / 2"] by (simp add: abs_divide)
  have "\<bar>sin a - sin b\<bar> = 2 * \<bar>sin ((a - b) / 2)\<bar> * \<bar>cos ((a + b) / 2)\<bar>" by (simp add: sin_diff_sin abs_mult)
  also have "\<dots> \<le> 2 * (\<bar>a - b\<bar> / 2) * 1" using s by (intro mult_mono) simp_all
  finally show "\<bar>sin a - sin b\<bar> \<le> \<bar>a - b\<bar>" by simp
  have "\<bar>cos a - cos b\<bar> = 2 * \<bar>sin ((a + b) / 2)\<bar> * \<bar>sin ((b - a) / 2)\<bar>" by (simp add: cos_diff_cos abs_mult)
  also have "(b - a) / 2 = - ((a - b) / 2)" by (simp only: minus_divide_left minus_diff_eq)
  also have "\<bar>sin (- ((a - b) / 2))\<bar> = \<bar>sin ((a - b) / 2)\<bar>" by (simp only: sin_minus abs_minus_cancel)
  also have "2 * \<bar>sin ((a + b) / 2)\<bar> * \<bar>sin ((a - b) / 2)\<bar> \<le> 2 * 1 * (\<bar>a - b\<bar> / 2)" using s by (intro mult_mono) simp_all
  finally show "\<bar>cos a - cos b\<bar> \<le> \<bar>a - b\<bar>" by simp
qed

lemma reduction_error:
  assumes "is_finite x" and "\<not> negative x" and "rval x \<le> 2 ^ 15"
  obtains k y where "rem_pio2f x = (of_nat k, y)" and "k < 2 ^ 15" and "is_finite y" and "\<bar>rval y\<bar> \<le> 81 / 100"
    and "\<bar>rval y - (rval x - real k * (pi / 2))\<bar> \<le> rval x / 2 ^ 21"
proof (cases "x AND 0x7FFFFFFF \<le> 0x3F490FDB")
  case True
  have "rval x = real (mval (mag x)) / scale" using assms(2) by (simp add: rval_def fval_def)
  moreover have "mag x \<le> 0x3F490FDB" using True abs_unat [of x] by (simp add: word_le_nat_alt fp_consts)
  then have "real (mval (mag x)) \<le> real (mval 0x3F490FDB)" by (simp only: of_nat_le_iff mval_le)
  moreover have "real (mval 0x3F490FDB) \<le> 81 / 100 * scale" by (simp add: mval_def scale_def)
  ultimately have "rval x \<le> 81 / 100" "0 \<le> rval x" by (simp_all add: pos_divide_le_eq del: mval_le of_nat_le_iff)
  then show ?thesis using True assms(1) by (intro that [of 0 x]) (simp_all add: rem_pio2f_def)
next
  case False
  have "\<not> mag x \<le> 0x3F490FDB" using False abs_unat [of x] by (simp add: word_le_nat_alt fp_consts)
  then have "real (mval 0x3F490FDB) \<le> real (mval (mag x))" by (simp only: of_nat_le_iff mval_le)
  moreover have "785 / 1000 * scale \<le> real (mval 0x3F490FDB)" by (simp add: mval_def scale_def)
  moreover have "rval x = real (mval (mag x)) / scale" using assms(2) by (simp add: rval_def fval_def)
  ultimately have x: "785 / 1000 \<le> rval x" by (simp add: pos_le_divide_eq del: mval_le of_nat_le_iff)
  define k where "k = trunc_mag (mag (fadd (mulsf3 x invpio2) half_f))"
  note q = quarter_turns [OF assms(1,2) x assms(3), folded k_def]
  have "real k < real (2 ^ 15)" using q(1) assms(3) unfolding abs_le_iff by simp
  then have k: "k < 2 ^ 15" by (simp only: of_nat_less_iff)
  note r = reduced_argument [OF assms(1) x assms(3) k q(1)]
  show ?thesis
  proof (rule that)
    show "rem_pio2f x = (of_nat k, fsub (fsub x (mulsf3 (int_to_float (of_nat k)) pio2_hi)) (mulsf3 (int_to_float (of_nat k)) pio2_lo))"
      using False assms(2) by (simp add: rem_pio2f_def Let_def sign_shift q(2))
  qed (use k r in simp_all)
qed

lemma sincos_error_pos:
  assumes "is_finite x" and "\<not> negative x" and "rval x \<le> 2 ^ 15"
  shows "appr (sinf x) (sin (rval x)) (1 / 2 ^ 17 + rval x / 2 ^ 21)" and "appr (cosf x) (cos (rval x)) (1 / 2 ^ 17 + rval x / 2 ^ 21)"
proof -
  obtain k y where r: "rem_pio2f x = (of_nat k, y)" "k < 2 ^ 15" "is_finite y" "\<bar>rval y\<bar> \<le> 81 / 100"
    "\<bar>rval y - (rval x - real k * (pi / 2))\<bar> \<le> rval x / 2 ^ 21" using reduction_error [OF assms] .
  define t where "t = rval x - real k * (pi / 2)"
  have "appr (kernel_sinf y) (sin t) (1 / 2 ^ 18 + rval x / 2 ^ 21)"
    by (rule appr_shift [OF kernel_error(1) [OF r(3,4)]]) (use r(5) sin_cos_lipschitz(1) [of "rval y" t] in \<open>simp add: t_def\<close>)
  then have s: "appr (kernel_sinf y) (sin t) (1 / 2 ^ 17 + rval x / 2 ^ 21)" by (rule appr_mono) simp
  have c: "appr (kernel_cosf y) (cos t) (1 / 2 ^ 17 + rval x / 2 ^ 21)"
    by (rule appr_shift [OF kernel_error(2) [OF r(3,4)]]) (use r(5) sin_cos_lipschitz(2) [of "rval y" t] in \<open>simp add: t_def\<close>)
  have "rval x = t + real k * (pi / 2)" by (simp add: t_def)
  note x = turns_sin_cos [of t k, folded this]
  have u: "unat (of_nat k AND 3 :: u16) = k mod 4"
    using unat_and_mask [of "of_nat k :: u16" 2] r(2) by (simp add: mask_eq_exp_minus_1 unsigned_of_nat take_bit_nat_eq_self)
  have q: "of_nat k AND 3 = (0 :: u16) \<longleftrightarrow> k mod 4 = 0" "of_nat k AND 3 = (1 :: u16) \<longleftrightarrow> k mod 4 = 1" "of_nat k AND 3 = (2 :: u16) \<longleftrightarrow> k mod 4 = 2"
    unfolding word_unat_eq_iff u by simp_all
  show "appr (sinf x) (sin (rval x)) (1 / 2 ^ 17 + rval x / 2 ^ 21)" "appr (cosf x) (cos (rval x)) (1 / 2 ^ 17 + rval x / 2 ^ 21)"
    unfolding sinf_def cosf_def r(1) Let_def prod.case q x using s c appr_neg [OF s] appr_neg [OF c] by simp_all
qed

text \<open>
  C27. Sine and cosine are accurate: for all arguments up to 32768 in magnitude the result is a finite number, no further from the real
  sine or cosine of the argument than \<open>2\<^sup>-\<^sup>1\<^sup>7\<close> plus the argument divided by \<open>2\<^sup>2\<^sup>1\<close>, with every rounding, the truncated series and the
  inexact reduction counted. The second term is that of the reduction; without it the error would not depend on the argument.
\<close>

theorem sincos_accurate:
  assumes "is_finite x" and "\<bar>rval x\<bar> \<le> 2 ^ 15"
  shows "is_finite (sinf x) \<and> \<bar>rval (sinf x) - sin (rval x)\<bar> \<le> 1 / 2 ^ 17 + \<bar>rval x\<bar> / 2 ^ 21 \<and>
    is_finite (cosf x) \<and> \<bar>rval (cosf x) - cos (rval x)\<bar> \<le> 1 / 2 ^ 17 + \<bar>rval x\<bar> / 2 ^ 21"
proof (cases "negative x")
  case True
  define z where "z = negsf2 x"
  have z: "is_finite z" "\<not> negative z" "rval z = \<bar>rval x\<bar>" "x = negsf2 z"
    using assms(1) True rval_abs(2) [of x] rval_eq_0 [of x] by (auto simp: z_def is_finite_def)
  note e = sincos_error_pos [OF z(1,2)]
  have "appr (sinf z) (sin (rval z)) (1 / 2 ^ 17 + rval z / 2 ^ 21)" "appr (cosf z) (cos (rval z)) (1 / 2 ^ 17 + rval z / 2 ^ 21)"
    using e assms(2) by (simp_all add: z(3))
  moreover have "sinf x = negsf2 (sinf z)" "cosf x = cosf z"
    using sincos_neg [of z] calculation by (auto simp: z(4) same_float_def appr_def is_finite_def is_nan_def)
  moreover have "rval x = - rval z" by (simp add: z(4))
  moreover have "\<bar>rval z\<bar> = rval z" by (simp add: z(3))
  ultimately show ?thesis using appr_neg [of "sinf z" "sin (rval z)"] by (simp add: appr_def)
next
  case False
  then have "rval x = \<bar>rval x\<bar>" using rval_abs(2) [of x] by simp
  then show ?thesis using sincos_error_pos [OF assms(1) False] assms(2) by (simp add: appr_def)
qed

theorem sincos_accurate_witness:
  "is_finite (sinf 0x3F800000) \<and> \<bar>rval (sinf 0x3F800000) - sin 1\<bar> \<le> 1 / 2 ^ 17 + 1 / 2 ^ 21 \<and>
   is_finite (cosf 0x3F800000) \<and> \<bar>rval (cosf 0x3F800000) - cos 1\<bar> \<le> 1 / 2 ^ 17 + 1 / 2 ^ 21"
proof -
  have "is_finite 0x3F800000" "rval 0x3F800000 = 1" by (simp_all add: const_eval)
  then show ?thesis using sincos_accurate [of "0x3F800000"] by simp
qed

end
