(* ===== verification/Libm_Log.thy ===== *)
theory Libm_Log
  imports Libm_Trig_Error
begin

text \<open>
  The logarithms, \<^verbatim>\<open>sf_log.c\<close>, \<^verbatim>\<open>sf_log10.c\<close> and \<^verbatim>\<open>sf_log2.c\<close>, and the result of a division by zero
  (\<^verbatim>\<open>math_errf_divzerof.c\<close>). The argument is split into a power of two and a number near 1, whose logarithm is a polynomial in
  \<open>s = f / (2 + f)\<close>. The natural logarithm is shown to be near the real one for every positive number.
\<close>

section \<open>The functions\<close>

definition math_divzerof :: "bool \<Rightarrow> u32" where
  "math_divzerof sign = divsf3 (if sign then negsf2 one_f else one_f) 0"

definition ln2_hi :: u32 where "ln2_hi = 0x3F317180"
definition ln2_lo :: u32 where "ln2_lo = 0x3717F7D1"
definition Lg1 :: u32 where "Lg1 = 0x3F2AAAAB"
definition Lg2 :: u32 where "Lg2 = 0x3ECCCCCD"
definition Lg3 :: u32 where "Lg3 = 0x3E924925"
definition Lg4 :: u32 where "Lg4 = 0x3E638E29"
definition Lg5 :: u32 where "Lg5 = 0x3E3A3325"
definition Lg6 :: u32 where "Lg6 = 0x3E1CD04F"
definition Lg7 :: u32 where "Lg7 = 0x3E178897"
definition third_f :: u32 where "third_f = 0x3EAAAAAB"

text \<open>The sum of the even and odd terms of the polynomial.\<close>

definition log_poly :: "u32 \<Rightarrow> u32" where
  "log_poly z =
    (let w = mulsf3 z z;
         t1 = mulsf3 w (fadd Lg2 (mulsf3 w (fadd Lg4 (mulsf3 w Lg6))));
         t2 = mulsf3 z (fadd Lg1 (mulsf3 w (fadd Lg3 (mulsf3 w (fadd Lg5 (mulsf3 w Lg7))))))
     in fadd t2 t1)"

text \<open>The branch for \<open>\<bar>f\<bar> < 2\<^sup>-\<^sup>2\<^sup>0\<close>, and the polynomial.\<close>

definition log_tiny :: "int \<Rightarrow> u32 \<Rightarrow> u32" where
  "log_tiny k f =
    (let dk = floatsisf (word_of_int k)
     in if lesf2 f 0 = 0
        then if k = 0 then 0 else fadd (mulsf3 dk ln2_hi) (mulsf3 dk ln2_lo)
        else let R = mulsf3 (mulsf3 f f) (fsub half_f (mulsf3 third_f f))
             in if k = 0 then fsub f R else fsub (mulsf3 dk ln2_hi) (fsub (fsub R (mulsf3 dk ln2_lo)) f))"

definition log_main :: "int \<Rightarrow> u32 \<Rightarrow> u32 \<Rightarrow> u32" where
  "log_main k ix f =
    (let s = divsf3 f (fadd two_f f);
         dk = floatsisf (word_of_int k);
         z = mulsf3 s s;
         i = ix - 0x30A3D0;
         j = 0x35C288 - ix;
         i = i OR j;
         R = log_poly z
     in if sint i > 0
        then let hfsq = mulsf3 (mulsf3 half_f f) f
             in if k = 0 then fsub f (fsub hfsq (mulsf3 s (fadd hfsq R)))
                else fsub (mulsf3 dk ln2_hi) (fsub (fsub hfsq (fadd (mulsf3 s (fadd hfsq R)) (mulsf3 dk ln2_lo))) f)
        else if k = 0 then fsub f (mulsf3 s (fsub f R))
        else fsub (mulsf3 dk ln2_hi) (fsub (fsub (mulsf3 s (fsub f R)) (mulsf3 dk ln2_lo)) f))"

definition logf :: "u32 \<Rightarrow> u32" where
  "logf x =
    (let ix = x
     in if FLT_UWORD_IS_ZERO (ix AND 0x7FFFFFFF) then math_divzerof True
        else if sint ix < 0 then math_invalidf x
        else if \<not> FLT_UWORD_IS_FINITE ix then fadd x x
        else let (k, ix) = (if FLT_UWORD_IS_SUBNORMAL ix then (- 25, mulsf3 x two25) else (0, ix));
                 k = k + (sint ix div 2 ^ 23 - 127);
                 ix = ix AND 0x007FFFFF;
                 i = (ix + 0x4AFB20) AND 0x800000;
                 x = ix OR (i XOR 0x3F800000);
                 k = k + sint i div 2 ^ 23;
                 f = fsub x one_f
             in if 0x007FFFFF AND (15 + ix) < 16 then log_tiny k f else log_main k ix f)"

definition log2_inv :: u32 where "log2_inv = 0x3FB8AA3B"

definition log2f :: "u32 \<Rightarrow> u32" where
  "log2f x = mulsf3 (logf x) log2_inv"

definition ivln10 :: u32 where "ivln10 = 0x3EDE5BD9"
definition log10_2hi :: u32 where "log10_2hi = 0x3E9A2080"
definition log10_2lo :: u32 where "log10_2lo = 0x355427DB"

definition log10f :: "u32 \<Rightarrow> u32" where
  "log10f x =
    (let hx = x
     in if FLT_UWORD_IS_ZERO (hx AND 0x7FFFFFFF) then math_divzerof True
        else if sint hx < 0 then math_invalidf x
        else if \<not> FLT_UWORD_IS_FINITE hx then fadd x x
        else let (k, hx) = (if FLT_UWORD_IS_SUBNORMAL hx then (- 25, mulsf3 x two25) else (0, hx));
                 k = k + (sint hx div 2 ^ 23 - 127);
                 i = (if k < 0 then 1 else 0);
                 hx = (hx AND 0x007FFFFF) OR push_bit 23 (word_of_int (0x7F - i));
                 y = floatsisf (word_of_int (k + i));
                 z = fadd (mulsf3 y log10_2lo) (mulsf3 ivln10 (logf hx))
             in fadd z (mulsf3 y log10_2hi))"

section \<open>The polynomial\<close>

lemma log_consts:
  "appr Lg1 (2 / 3) (1 / 2 ^ 25)" "appr Lg2 (2 / 5) (1 / 2 ^ 25)" "appr Lg3 (2 / 7) (1 / 2 ^ 25)" "appr Lg4 (2 / 9) (1 / 2 ^ 21)"
  "appr Lg5 (2 / 11) (1 / 2 ^ 15)" "appr Lg6 (2 / 13) (1 / 2 ^ 10)" "appr Lg7 (2 / 15) (1 / 2 ^ 6)" "appr two_f 2 0" "appr half_f (1 / 2) 0"
  by (simp_all add: appr_def const_eval Lg1_def Lg2_def Lg3_def Lg4_def Lg5_def Lg6_def Lg7_def two_f_def half_f_def)

lemma log_poly_appr:
  assumes z: "appr z x (1 / 2 ^ 26)" and x: "\<bar>x\<bar> \<le> 33 / 1000"
  shows "appr (log_poly z) (log_series x) (1 / 2 ^ 25)"
proof -
  define y where "y = x * x"
  have y: "\<bar>y\<bar> \<le> 11 / 10000"
    using mult_mono [OF x x] by (simp add: y_def abs_mult)
  have w: "appr (mulsf3 z z) y (1 / 2 ^ 29)" unfolding y_def
    by (rule appr_mul [OF z z x x, where B = "1 / 64"]) simp_all
  have e1: "appr (fadd Lg4 (mulsf3 (mulsf3 z z) Lg6)) (2 / 9 + y * (2 / 13)) (1 / 2 ^ 18)"
    by (rule horner_step [OF log_consts(4) w log_consts(6) y, where Y = "2 / 13" and X = "2 / 9" and B = "1 / 1024" and D = "1 / 2" and h = "1 / 2 ^ 19"])
      simp_all
  have b1: "\<bar>2 / 9 + y * (2 / 13)\<bar> \<le> 1 / 4" by (rule poly_bound [OF _ y, where X = "2 / 9" and Y = "2 / 13"]) simp_all
  have e2: "appr (fadd Lg2 (mulsf3 (mulsf3 z z) (fadd Lg4 (mulsf3 (mulsf3 z z) Lg6)))) (2 / 5 + y * (2 / 9 + y * (2 / 13))) (1 / 2 ^ 23)"
    by (rule horner_step [OF log_consts(2) w e1 y b1, where X = "2 / 5" and B = "1 / 1024" and D = "1 / 2" and h = "1 / 2 ^ 24"]) simp_all
  have b2: "\<bar>2 / 5 + y * (2 / 9 + y * (2 / 13))\<bar> \<le> 41 / 100" by (rule poly_bound [OF _ y b1, where X = "2 / 5"]) simp_all
  have t1: "appr (mulsf3 (mulsf3 z z) (fadd Lg2 (mulsf3 (mulsf3 z z) (fadd Lg4 (mulsf3 (mulsf3 z z) Lg6)))))
      (y * (2 / 5 + y * (2 / 9 + y * (2 / 13)))) (1 / 2 ^ 29)"
    by (rule appr_mul [OF w e2 y b2, where B = "1 / 1024"]) simp_all
  have o1: "appr (fadd Lg5 (mulsf3 (mulsf3 z z) Lg7)) (2 / 11 + y * (2 / 15)) (1 / 2 ^ 13)"
    by (rule horner_step [OF log_consts(5) w log_consts(7) y, where Y = "2 / 15" and X = "2 / 11" and B = "1 / 1024" and D = "1 / 4" and h = "1 / 2 ^ 15"])
      simp_all
  have c1: "\<bar>2 / 11 + y * (2 / 15)\<bar> \<le> 1 / 5" by (rule poly_bound [OF _ y, where X = "2 / 11" and Y = "2 / 15"]) simp_all
  have o2: "appr (fadd Lg3 (mulsf3 (mulsf3 z z) (fadd Lg5 (mulsf3 (mulsf3 z z) Lg7)))) (2 / 7 + y * (2 / 11 + y * (2 / 15))) (1 / 2 ^ 21)"
    by (rule horner_step [OF log_consts(3) w o1 y c1, where X = "2 / 7" and B = "1 / 1024" and D = "1 / 2" and h = "1 / 2 ^ 22"]) simp_all
  have c2: "\<bar>2 / 7 + y * (2 / 11 + y * (2 / 15))\<bar> \<le> 29 / 100" by (rule poly_bound [OF _ y c1, where X = "2 / 7"]) simp_all
  have o3: "appr (fadd Lg1 (mulsf3 (mulsf3 z z) (fadd Lg3 (mulsf3 (mulsf3 z z) (fadd Lg5 (mulsf3 (mulsf3 z z) Lg7))))))
      (2 / 3 + y * (2 / 7 + y * (2 / 11 + y * (2 / 15)))) (1 / 2 ^ 23)"
    by (rule horner_step [OF log_consts(1) w o2 y c2, where X = "2 / 3" and B = "1 / 1024" and D = 1 and h = "1 / 2 ^ 27"]) simp_all
  have c3: "\<bar>2 / 3 + y * (2 / 7 + y * (2 / 11 + y * (2 / 15)))\<bar> \<le> 67 / 100" by (rule poly_bound [OF _ y c2, where X = "2 / 3"]) simp_all
  have t2: "appr (mulsf3 z (fadd Lg1 (mulsf3 (mulsf3 z z) (fadd Lg3 (mulsf3 (mulsf3 z z) (fadd Lg5 (mulsf3 (mulsf3 z z) Lg7)))))))
      (x * (2 / 3 + y * (2 / 7 + y * (2 / 11 + y * (2 / 15))))) (1 / 2 ^ 25 - 1 / 2 ^ 27)"
    by (rule appr_mul [OF z o3 x c3, where B = "1 / 8"]) simp_all
  have eq: "log_series x = x * (2 / 3 + y * (2 / 7 + y * (2 / 11 + y * (2 / 15)))) + y * (2 / 5 + y * (2 / 9 + y * (2 / 13)))"
    by (simp add: log_series_def y_def algebra_simps)
  show ?thesis unfolding log_poly_def Let_def eq
  proof (rule appr_add [OF t2 t1, where B = "1 / 8"])
    have "\<bar>x * (2 / 3 + y * (2 / 7 + y * (2 / 11 + y * (2 / 15))))\<bar> \<le> 33 / 1000 * (67 / 100)" unfolding abs_mult using x c3 by (intro mult_mono) simp_all
    moreover have "\<bar>y * (2 / 5 + y * (2 / 9 + y * (2 / 13)))\<bar> \<le> 11 / 10000 * (41 / 100)" unfolding abs_mult using y b2 by (intro mult_mono) simp_all
    ultimately have "\<bar>x * (2 / 3 + y * (2 / 7 + y * (2 / 11 + y * (2 / 15)))) + y * (2 / 5 + y * (2 / 9 + y * (2 / 13)))\<bar>
        \<le> 33 / 1000 * (67 / 100) + 11 / 10000 * (41 / 100)" by (intro order_trans [OF abs_triangle_ineq] add_mono)
    then show "\<bar>x * (2 / 3 + y * (2 / 7 + y * (2 / 11 + y * (2 / 15)))) + y * (2 / 5 + y * (2 / 9 + y * (2 / 13)))\<bar>
        + (1 / 2 ^ 25 - 1 / 2 ^ 27 + 1 / 2 ^ 29) < 1 / 8" by simp
  qed simp_all
qed

text \<open>The two forms of the logarithm of \<open>1 + f\<close>, as the terms the code adds to the multiple of \<open>ln 2\<close>.\<close>

lemma log_terms:
  fixes f :: u32
  assumes f: "is_finite f" "- 3 / 10 \<le> rval f" "rval f \<le> 42 / 100"
  defines "F \<equiv> rval f"
  defines "S \<equiv> F / (2 + F)"
  defines "s \<equiv> divsf3 f (fadd two_f f)"
  defines "R \<equiv> log_poly (mulsf3 s s)" and "h \<equiv> mulsf3 (mulsf3 half_f f) f"
  shows "\<bar>S\<bar> \<le> 9 / 50"
    and "appr h (F * F / 2) (1 / 2 ^ 26)"
    and "appr (mulsf3 s (fadd h R)) (S * (F * F / 2 + log_series (S * S))) (1 / 2 ^ 26)"
    and "appr (mulsf3 s (fsub f R)) (S * (F - log_series (S * S))) (1 / 2 ^ 25)"
    and "\<bar>S * (F * F / 2 + log_series (S * S))\<bar> \<le> 3 / 100" and "\<bar>S * (F - log_series (S * S))\<bar> \<le> 9 / 100"
    and "\<bar>log_series (S * S)\<bar> \<le> 25 / 1000"
proof -
  have F: "\<bar>F\<bar> \<le> 42 / 100" "- 3 / 10 \<le> F" "F \<le> 42 / 100" using f by (auto simp: F_def abs_le_iff)
  have a: "appr f F 0" unfolding F_def by (rule appr_exact [OF f(1)])
  have d: "appr (fadd two_f f) (2 + F) (1 / 2 ^ 23)" by (rule appr_add [OF log_consts(8) a, where B = 4]) (use F in simp_all)
  show S: "\<bar>S\<bar> \<le> 9 / 50"
  proof -
    have "S \<le> 9 / 50" unfolding S_def using F by (simp add: pos_divide_le_eq)
    moreover have "- (9 / 50) \<le> S"
    proof -
      have "- (9 / 50) * (2 + F) \<le> F" using F(2) by (simp add: distrib_left)
      then show ?thesis unfolding S_def using F(2) by (simp only: pos_le_divide_eq)
    qed
    ultimately show ?thesis by (simp add: abs_le_iff)
  qed
  have s: "appr s S (1 / 2 ^ 25)" unfolding s_def S_def
    by (rule appr_div [OF a d S [unfolded S_def], where c = "16 / 10" and B = "1 / 4"]) (use F in simp_all)
  have x: "\<bar>S * S\<bar> \<le> 33 / 1000" using mult_mono [OF S S] by (simp add: abs_mult)
  have z: "appr (mulsf3 s s) (S * S) (1 / 2 ^ 26)" by (rule appr_mul [OF s s S S, where B = "1 / 16"]) simp_all
  have R: "appr R (log_series (S * S)) (1 / 2 ^ 25)" unfolding R_def by (rule log_poly_appr [OF z x])
  show Rb: "\<bar>log_series (S * S)\<bar> \<le> 25 / 1000"
  proof -
    have "\<bar>2 / 15 :: real\<bar> \<le> 1" by simp
    then have "\<bar>2 / 3 + S * S * (2 / 5 + S * S * (2 / 7 + S * S * (2 / 9 + S * S * (2 / 11 + S * S * (2 / 13 + S * S * (2 / 15))))))\<bar> \<le> 7 / 10"
      using x by (intro poly_bound [where W = "33 / 1000" and Y = 1 and X = "2 / 3"] poly_bound [where W = "33 / 1000" and Y = 1 and X = "2 / 5"]) simp_all
    then have "\<bar>S * S\<bar> * \<bar>2 / 3 + S * S * (2 / 5 + S * S * (2 / 7 + S * S * (2 / 9 + S * S * (2 / 11 + S * S * (2 / 13 + S * S * (2 / 15))))))\<bar>
        \<le> 33 / 1000 * (7 / 10)" using x by (intro mult_mono) simp_all
    then show ?thesis by (simp only: log_series_def abs_mult)
  qed
  have u: "appr (mulsf3 half_f f) (1 / 2 * F) (1 / 2 ^ 27)" by (rule appr_mul [OF log_consts(9) a _ F(1), where B = "1 / 4" and X = "1 / 2"]) simp_all
  have "appr h (1 / 2 * F * F) (1 / 2 ^ 26)" unfolding h_def
    by (rule appr_mul [OF u a _ F(1), where B = "1 / 8" and X = "21 / 100"]) (use F(1) in simp_all)
  then show h: "appr h (F * F / 2) (1 / 2 ^ 26)" by simp
  have Fb: "\<bar>F * F / 2\<bar> \<le> 89 / 1000" using mult_mono [OF F(1) F(1)] by (simp add: abs_mult)
  have q: "appr (fadd h R) (F * F / 2 + log_series (S * S)) (13 / 2 ^ 28)"
    by (rule appr_add [OF h R, where B = "1 / 8"]) (use order_trans [OF abs_triangle_ineq add_mono [OF Fb Rb]] in simp_all)
  have qb: "\<bar>F * F / 2 + log_series (S * S)\<bar> \<le> 114 / 1000" using order_trans [OF abs_triangle_ineq add_mono [OF Fb Rb]] by simp
  show "appr (mulsf3 s (fadd h R)) (S * (F * F / 2 + log_series (S * S))) (1 / 2 ^ 26)"
    by (rule appr_mul [OF s q S qb, where B = "1 / 32"]) simp_all
  show "\<bar>S * (F * F / 2 + log_series (S * S))\<bar> \<le> 3 / 100" using mult_mono [OF S qb] by (simp add: abs_mult)
  have pb: "\<bar>F - log_series (S * S)\<bar> \<le> 445 / 1000" using order_trans [OF abs_triangle_ineq4 add_mono [OF F(1) Rb]] by simp
  have p: "appr (fsub f R) (F - log_series (S * S)) (12 / 2 ^ 28)" by (rule appr_sub [OF a R, where B = "1 / 2"]) (use pb in simp_all)
  show "appr (mulsf3 s (fsub f R)) (S * (F - log_series (S * S))) (1 / 2 ^ 25)"
    by (rule appr_mul [OF s p S pb, where B = "1 / 8"]) simp_all
  show "\<bar>S * (F - log_series (S * S))\<bar> \<le> 9 / 100" using mult_mono [OF S pb] by (simp add: abs_mult)
qed

lemma log_real:
  fixes F :: real
  assumes "- 3 / 10 \<le> F" and "F \<le> 42 / 100"
  defines "S \<equiv> F / (2 + F)"
  assumes S: "\<bar>S\<bar> \<le> 9 / 50"
  shows "F - (F * F / 2 - S * (F * F / 2 + log_series (S * S))) = 2 * S + S * log_series (S * S)"
    and "F - S * (F - log_series (S * S)) = 2 * S + S * log_series (S * S)"
    and "\<bar>2 * S + S * log_series (S * S) - ln (1 + F)\<bar> \<le> 1 / 2 ^ 39"
proof -
  have p: "2 + F \<noteq> 0" "0 < 2 + F" using assms(1) by simp_all
  have S2: "S * F = F - 2 * S" using p by (simp add: S_def field_simps)
  then show "F - S * (F - log_series (S * S)) = 2 * S + S * log_series (S * S)" by (simp add: right_diff_distrib)
  have "S * (F * F / 2) = (S * F) * F / 2" by simp
  also have "\<dots> = F * F / 2 - S * F" unfolding S2 left_diff_distrib mult.assoc S2 by simp
  finally have e: "S * (F * F / 2) = F * F / 2 - S * F" .
  show "F - (F * F / 2 - S * (F * F / 2 + log_series (S * S))) = 2 * S + S * log_series (S * S)"
    unfolding distrib_left e S2 by simp
  have "(1 + S) / (1 - S) = 1 + F"
  proof -
    have "1 + S = (2 + 2 * F) / (2 + F)" "1 - S = 2 / (2 + F)" using p by (simp_all add: S_def field_simps)
    then show ?thesis using p by simp
  qed
  then have "\<bar>2 * S + S * log_series (S * S) - ln (1 + F)\<bar> \<le> 1 / 2 ^ 40"
    using ln_quotient [OF S] by (simp add: power2_eq_square abs_minus_commute)
  then show "\<bar>2 * S + S * log_series (S * S) - ln (1 + F)\<bar> \<le> 1 / 2 ^ 39" by simp
qed

lemma floatsisf_int:
  assumes "\<bar>k\<bar> \<le> 200"
  shows "is_finite (floatsisf (word_of_int k)) \<and> rval (floatsisf (word_of_int k)) = of_int k"
proof -
  have "sint (word_of_int k :: u32) = k" using assms by (simp add: signed_of_int signed_take_bit_int_eq_self)
  from near_of_int [OF this] have n: "near (of_int k) (floatsisf (word_of_int k))" .
  obtain m where "m < inf_mag" "mval m = nat \<bar>k\<bar> * 2 ^ 149" using representable [of "nat \<bar>k\<bar>"] assms by (auto simp: nat_le_iff)
  then show ?thesis using near_exact [OF n, of m] by (simp add: scale_def)
qed

lemma ln2_reals: "rval ln2_hi = 90851 / 2 ^ 17" "rval ln2_lo = 9959377 / 2 ^ 40" "is_finite ln2_hi" "is_finite ln2_lo"
  by (simp_all add: const_eval ln2_hi_def ln2_lo_def)

text \<open>The multiple of \<open>ln 2\<close>: its lower part is a term of the sum, its upper part the last one added.\<close>

lemma log_low_part:
  assumes "\<bar>k\<bar> \<le> 151"
  shows "appr (mulsf3 (floatsisf (word_of_int k)) ln2_lo) (of_int k * (9959377 / 2 ^ 40)) (1 / 2 ^ 31)"
    and "\<bar>of_int k * (9959377 / 2 ^ 40)\<bar> \<le> (15 / 10000 :: real)"
proof -
  have k: "\<bar>real_of_int k\<bar> \<le> 151" using assms by linarith
  have a: "appr (floatsisf (word_of_int k)) (of_int k) 0" "appr ln2_lo (9959377 / 2 ^ 40) 0"
    using floatsisf_int [of k] assms by (simp_all add: appr_def ln2_reals)
  show "appr (mulsf3 (floatsisf (word_of_int k)) ln2_lo) (of_int k * (9959377 / 2 ^ 40)) (1 / 2 ^ 31)"
    by (rule appr_mul [OF a k, where Y = "1 / 100000" and B = "1 / 64"]) simp_all
  show "\<bar>of_int k * (9959377 / 2 ^ 40)\<bar> \<le> (15 / 10000 :: real)" using k by (simp add: abs_mult)
qed

lemma log_error_sum:
  fixes a b c v w k :: real
  assumes "a \<le> b + c" and "v \<le> w + c" and "69 / 100 * k \<le> w + 38 / 100" and "b \<le> v / 2 ^ 24"
    and "c \<le> k / 10 ^ 10 + k * (90851 / 2 ^ 17) / 2 ^ 24 + 1 / 2 ^ 23 + 1 / 2 ^ 39" and "0 \<le> w"
  shows "a \<le> 1 / 2 ^ 22 + w / 2 ^ 22"
  using assms by simp

lemma log_add_multiple:
  assumes k: "k \<noteq> 0" "\<bar>k\<bar> \<le> 151" and i: "appr i (- (L + of_int k * (9959377 / 2 ^ 40))) (1 / 2 ^ 23)"
    and L: "\<bar>L\<bar> \<le> 37 / 100" "\<bar>L - l\<bar> \<le> 1 / 2 ^ 39"
  defines "r \<equiv> fsub (mulsf3 (floatsisf (word_of_int k)) ln2_hi) i"
  shows "appr r (of_int k * ln 2 + l) (1 / 2 ^ 22 + \<bar>of_int k * ln 2 + l\<bar> / 2 ^ 22)"
proof -
  define K where "K = real_of_int k"
  have K: "\<bar>K\<bar> \<le> 151" "1 \<le> \<bar>K\<bar>" using k by (simp_all add: K_def)
  define A a where "A = K * (90851 / 2 ^ 17)" and "a = mulsf3 (floatsisf (word_of_int k)) ln2_hi"
  have na: "near A a" unfolding A_def a_def K_def
    using near_mul [of "floatsisf (word_of_int k)" ln2_hi] floatsisf_int [of k] k by (simp add: ln2_reals)
  have Ab: "\<bar>A\<bar> = \<bar>K\<bar> * (90851 / 2 ^ 17)" by (simp add: A_def abs_mult)
  have fa: "is_finite a" using K by (intro near_finite_large [OF na]) (simp add: Ab)
  have ea: "\<bar>rval a - A\<bar> \<le> \<bar>A\<bar> / 2 ^ 24" using K by (intro near_error_relative [OF na fa]) (simp_all add: Ab)
  have ei: "\<bar>rval i - - (L + K * (9959377 / 2 ^ 40))\<bar> \<le> 1 / 2 ^ 23" "is_finite i" using i by (simp_all add: appr_def K_def)
  define M where "M = K * ln 2"
  have M: "\<bar>A + K * (9959377 / 2 ^ 40) - M\<bar> \<le> \<bar>K\<bar> / 10 ^ 10"
  proof -
    have "A + K * (9959377 / 2 ^ 40) - M = K * (90851 / 2 ^ 17 + 9959377 / 2 ^ 40 - ln 2)" by (simp add: A_def M_def algebra_simps)
    moreover have "\<bar>90851 / 2 ^ 17 + 9959377 / 2 ^ 40 - ln (2 :: real)\<bar> \<le> 1 / 10 ^ 10" using ln_2_bounds unfolding abs_le_iff by simp
    ultimately show ?thesis using mult_left_mono [of "\<bar>90851 / 2 ^ 17 + 9959377 / 2 ^ 40 - ln (2 :: real)\<bar>" "1 / 10 ^ 10" "\<bar>K\<bar>"]
      by (simp only: abs_mult abs_ge_zero) simp
  qed
  have Mb: "69 / 100 * \<bar>K\<bar> \<le> \<bar>M\<bar>" "\<bar>M\<bar> \<le> 70 / 100 * \<bar>K\<bar>"
    using mult_left_mono [OF ln_2_bounds(1), of "\<bar>K\<bar>"] mult_left_mono [OF ln_2_bounds(2), of "\<bar>K\<bar>"] by (simp_all add: M_def abs_mult)
  have nr: "near (rval a - rval i) r" unfolding r_def a_def [symmetric] by (rule near_sub [OF fa ei(2)])
  define V where "V = rval a - rval i"
  have V: "\<bar>V - (M + l)\<bar> \<le> \<bar>K\<bar> / 10 ^ 10 + \<bar>A\<bar> / 2 ^ 24 + 1 / 2 ^ 23 + 1 / 2 ^ 39" using M ea ei(1) L(2) unfolding V_def by linarith
  have lb: "\<bar>l\<bar> \<le> 38 / 100" using L unfolding abs_le_iff by simp
  have Vb: "1 / 10 \<le> \<bar>V\<bar>" "\<bar>V\<bar> \<le> 128" using V lb Mb K by (simp_all add: Ab) linarith+
  have fr: "is_finite r" using Vb by (intro near_finite_large [OF nr [folded V_def]]) simp
  have er: "\<bar>rval r - V\<bar> \<le> \<bar>V\<bar> / 2 ^ 24" using Vb by (intro near_error_relative [OF nr [folded V_def] fr]) simp_all
  have "\<bar>rval r - (M + l)\<bar> \<le> \<bar>rval r - V\<bar> + \<bar>V - (M + l)\<bar>" "\<bar>V\<bar> \<le> \<bar>M + l\<bar> + \<bar>V - (M + l)\<bar>" by linarith+
  moreover have "69 / 100 * \<bar>K\<bar> \<le> \<bar>M + l\<bar> + 38 / 100" using Mb(1) lb by linarith
  ultimately have "\<bar>rval r - (M + l)\<bar> \<le> 1 / 2 ^ 22 + \<bar>M + l\<bar> / 2 ^ 22"
    using er V unfolding Ab by (rule log_error_sum) simp
  then show ?thesis using fr by (simp only: appr_def M_def K_def)
qed

section \<open>The logarithm near 1\<close>

lemma log_main_appr:
  assumes f: "is_finite f" "- 3 / 10 \<le> rval f" "rval f \<le> 42 / 100" and k: "\<bar>k\<bar> \<le> 151"
  shows "appr (log_main k ix f) (of_int k * ln 2 + ln (1 + rval f)) (1 / 2 ^ 22 + \<bar>of_int k * ln 2 + ln (1 + rval f)\<bar> / 2 ^ 22)"
proof -
  define F S where "F = rval f" and "S = F / (2 + F)"
  define L where "L = 2 * S + S * log_series (S * S)"
  define D where "D = real_of_int k * (9959377 / 2 ^ 40)"
  note t = log_terms [OF f, folded F_def, folded S_def]
  note e = log_real [OF f(2,3) [folded F_def], folded S_def, OF t(1), folded L_def]
  have Fb: "\<bar>F\<bar> \<le> 42 / 100" using f by (auto simp: F_def abs_le_iff)
  have Hb: "\<bar>F * F / 2\<bar> \<le> 89 / 1000" using mult_mono [OF Fb Fb] by (simp add: abs_mult)
  have "\<bar>S * log_series (S * S)\<bar> \<le> 9 / 50 * (25 / 1000)" unfolding abs_mult using t(1,7) by (intro mult_mono) simp_all
  then have Lb: "\<bar>L\<bar> \<le> 37 / 100" using t(1) unfolding L_def abs_le_iff by simp
  have a: "appr f F 0" unfolding F_def by (rule appr_exact [OF f(1)])
  define T T' where "T = S * (F * F / 2 + log_series (S * S))" and "T' = S * (F - log_series (S * S))"
  define s where "s = divsf3 f (fadd two_f f)"
  define h R where "h = mulsf3 (mulsf3 half_f f) f" and "R = log_poly (mulsf3 s s)"
  define x x' where "x = mulsf3 s (fadd h R)" and "x' = mulsf3 s (fsub f R)"
  define dl where "dl = mulsf3 (floatsisf (word_of_int k)) ln2_lo"
  note t' = t [folded s_def, folded h_def R_def, folded x_def x'_def, folded T_def T'_def]
  note e' = e(1,2) [folded T_def T'_def]
  note d = log_low_part [OF k, folded dl_def D_def]
  have i1: "appr (fsub (fsub h (fadd x dl)) f) (- (L + D)) (1 / 2 ^ 23)"
  proof -
    have b: "\<bar>T + D\<bar> \<le> 32 / 1000" "\<bar>F * F / 2 - (T + D)\<bar> \<le> 121 / 1000" "\<bar>F * F / 2 - (T + D) - F\<bar> \<le> 541 / 1000"
      using Hb t'(5) d(2) Fb by linarith+
    have "appr (fadd x dl) (T + D) (1 / 2 ^ 25)" by (rule appr_add [OF t'(3) d(1), where B = "1 / 16"]) (use b in simp_all)
    from appr_sub [OF t'(2) this, where B = "1 / 8" and g = "13 / 2 ^ 28"]
    have "appr (fsub h (fadd x dl)) (F * F / 2 - (T + D)) (13 / 2 ^ 28)" using b by simp
    from appr_sub [OF this a, where B = 1 and g = "1 / 2 ^ 23"]
    have "appr (fsub (fsub h (fadd x dl)) f) (F * F / 2 - (T + D) - F) (1 / 2 ^ 23)" using b by simp
    moreover have "F * F / 2 - (T + D) - F = - (L + D)" unfolding e'(1) [symmetric] by simp
    ultimately show ?thesis by simp
  qed
  have i2: "appr (fsub (fsub x' dl) f) (- (L + D)) (1 / 2 ^ 23)"
  proof -
    have b: "\<bar>T' - D\<bar> \<le> 92 / 1000" "\<bar>T' - D - F\<bar> \<le> 512 / 1000" using t'(6) d(2) Fb by linarith+
    have "appr (fsub x' dl) (T' - D) (10 / 2 ^ 28)" by (rule appr_sub [OF t'(4) d(1), where B = "1 / 8"]) (use b in simp_all)
    from appr_sub [OF this a, where B = 1 and g = "1 / 2 ^ 23"]
    have "appr (fsub (fsub x' dl) f) (T' - D - F) (1 / 2 ^ 23)" using b by simp
    moreover have "T' - D - F = - (L + D)" unfolding e'(2) [symmetric] by simp
    ultimately show ?thesis by simp
  qed
  have j1: "appr (fsub f (fsub h x)) L (1 / 2 ^ 23)"
  proof -
    have b: "\<bar>F * F / 2 - T\<bar> \<le> 119 / 1000" "\<bar>F - (F * F / 2 - T)\<bar> \<le> 539 / 1000" using Hb t'(5) Fb by linarith+
    have "appr (fsub h x) (F * F / 2 - T) (9 / 2 ^ 28)" by (rule appr_sub [OF t'(2,3), where B = "1 / 8"]) (use b in simp_all)
    from appr_sub [OF a this, where B = 1 and g = "1 / 2 ^ 23"]
    show ?thesis using b unfolding e'(1) [symmetric] by simp
  qed
  have j2: "appr (fsub f x') L (1 / 2 ^ 23)"
  proof -
    have "\<bar>F - T'\<bar> \<le> 51 / 100" using t'(6) Fb by linarith
    then show ?thesis using appr_sub [OF a t'(4), where B = 1 and g = "1 / 2 ^ 23"] unfolding e'(2) [symmetric] by simp
  qed
  show ?thesis
  proof (cases "k = 0")
    case True
    have "appr y (ln (1 + F)) (1 / 2 ^ 22)" if "appr y L (1 / 2 ^ 23)" for y
      by (rule appr_mono [OF appr_shift [OF that e(3)]]) simp
    then have "appr (log_main k ix f) (ln (1 + F)) (1 / 2 ^ 22)"
      unfolding log_main_def Let_def s_def [symmetric] h_def [symmetric] R_def [symmetric] x_def [symmetric] x'_def [symmetric] using True j1 j2 by simp
    then show ?thesis using True by (auto intro: appr_mono simp: F_def)
  next
    case False
    note m = log_add_multiple [OF False k _ Lb e(3), folded D_def]
    show ?thesis using m [OF i1] m [OF i2] False
      unfolding log_main_def Let_def s_def [symmetric] h_def [symmetric] R_def [symmetric] x_def [symmetric] x'_def [symmetric] dl_def [symmetric]
        F_def [symmetric] by simp
  qed
qed

lemma tiny_square:
  assumes "is_finite f" and "\<bar>rval f\<bar> \<le> 1 / 2 ^ 20"
  shows "appr (mulsf3 (mulsf3 f f) (fsub half_f (mulsf3 third_f f))) 0 (1 / 2 ^ 30)"
proof -
  have a: "appr f 0 (1 / 2 ^ 20)" using assms by (simp add: appr_def)
  have third: "appr third_f (1 / 3) (1 / 2 ^ 25)" by (simp add: appr_def const_eval third_f_def)
  have "appr (mulsf3 f f) (0 * 0) (1 / 2 ^ 34)" by (rule appr_mul [OF a a, where X = 0 and Y = 0 and B = "1 / 1024"]) simp_all
  moreover have "appr (mulsf3 third_f f) (1 / 3 * 0) (1 / 2 ^ 20)"
    by (rule appr_mul [OF third a, where X = "1 / 3" and Y = 0 and B = "1 / 1024"]) simp_all
  then have "appr (fsub half_f (mulsf3 third_f f)) (1 / 2 - 1 / 3 * 0) (1 / 2 ^ 18)" by (rule appr_sub [OF log_consts(9), where B = 1]) simp_all
  ultimately have "appr (mulsf3 (mulsf3 f f) (fsub half_f (mulsf3 third_f f))) (0 * 0 * (1 / 2 - 1 / 3 * 0)) (1 / 2 ^ 30)"
    by (rule appr_mul [where X = 0 and Y = "1 / 2" and B = "1 / 1024"]) simp_all
  then show ?thesis by simp
qed

lemma log_tiny_appr:
  assumes f: "is_finite f" "\<bar>rval f\<bar> \<le> 1 / 2 ^ 20" and k: "\<bar>k\<bar> \<le> 151"
  shows "appr (log_tiny k f) (of_int k * ln 2 + ln (1 + rval f)) (1 / 2 ^ 22 + \<bar>of_int k * ln 2 + ln (1 + rval f)\<bar> / 2 ^ 22)"
proof -
  define F where "F = rval f"
  define dl where "dl = mulsf3 (floatsisf (word_of_int k)) ln2_lo"
  define R where "R = mulsf3 (mulsf3 f f) (fsub half_f (mulsf3 third_f f))"
  note d = log_low_part [OF k, folded dl_def]
  have a: "appr f F 0" and Fb: "\<bar>F\<bar> \<le> 1 / 2 ^ 20" using f by (simp_all add: appr_def F_def)
  have R: "appr R 0 (1 / 2 ^ 30)" unfolding R_def by (rule tiny_square [OF f])
  have "\<bar>F\<bar>\<^sup>2 \<le> (1 / 2 ^ 20)\<^sup>2" using Fb by (rule power_mono) simp
  then have ln: "\<bar>F - ln (1 + F)\<bar> \<le> 1 / 2 ^ 39"
    using abs_ln_one_plus_x_minus_x_bound [of F] Fb by (simp add: power_divide abs_minus_commute)
  have z: "lesf2 f 0 = 0 \<longleftrightarrow> F = 0" by (simp add: F_def rval_eq_0 lesf2_zero)
  show ?thesis
  proof (cases "k = 0")
    case True
    have "appr (fsub f R) (F - 0) (1 / 2 ^ 29)" by (rule appr_sub [OF a R, where B = "1 / 1024"]) (use Fb in simp_all)
    moreover have "appr 0 0 (1 / 2 ^ 29)" by (simp add: appr_def const_eval)
    ultimately have "appr (log_tiny k f) F (1 / 2 ^ 29)" using True by (simp add: log_tiny_def Let_def z R_def)
    from appr_shift [OF this ln] show ?thesis unfolding F_def [symmetric] by (simp add: True) (erule appr_mono, simp)
  next
    case False
    note m = log_add_multiple [OF False k _ _ ln]
    define D where "D = real_of_int k * (9959377 / 2 ^ 40)"
    have b: "\<bar>0 - D\<bar> \<le> 15 / 10000" "\<bar>0 - D - F\<bar> \<le> 16 / 10000" using d(2) [folded D_def] Fb unfolding abs_le_iff by simp_all
    have "appr (negsf2 dl) (- (F + D)) (1 / 2 ^ 23)" if "F = 0" using appr_mono [OF appr_neg [OF d(1)], of "1 / 2 ^ 23"] that by (simp add: D_def)
    moreover have "appr (fsub (fsub R dl) f) (- (F + D)) (1 / 2 ^ 23)"
    proof -
      have "appr (fsub R dl) (0 - D) (1 / 2 ^ 29)" by (rule appr_sub [OF R d(1) [folded D_def], where B = "1 / 64"]) (use b in simp_all)
      from appr_sub [OF this a, where B = "1 / 64" and g = "1 / 2 ^ 23"] have "appr (fsub (fsub R dl) f) (0 - D - F) (1 / 2 ^ 23)" using b by simp
      moreover have "0 - D - F = - (F + D)" by simp
      ultimately show ?thesis by (simp only:)
    qed
    ultimately have i: "appr (if F = 0 then negsf2 dl else fsub (fsub R dl) f) (- (F + D)) (1 / 2 ^ 23)" by simp
    have "log_tiny k f = fsub (mulsf3 (floatsisf (word_of_int k)) ln2_hi) (if F = 0 then negsf2 dl else fsub (fsub R dl) f)"
      using False by (simp add: log_tiny_def Let_def z dl_def R_def fsub_add)
    then show ?thesis using m [folded D_def, OF i] Fb by (simp add: F_def)
  qed
qed

section \<open>Splitting the argument\<close>

lemma insert_fraction:
  fixes w :: u32
  assumes "unat w < 2 ^ 23" and "unat c = e * 2 ^ 23" and "1 \<le> e" and "e \<le> 254"
  shows "is_finite (w OR c)" and "rval (w OR c) = real (2 ^ 23 + unat w) * 2 ^ (e - 1) / scale"
proof -
  have u: "unat (w OR c) = e * 2 ^ 23 + unat w"
    using unat_or_add [of c e 23 w] assms by (simp add: or.commute)
  have "unat (w OR c) < inf_mag" using assms unfolding u inf_mag_def by (simp add: less_mult_imp_div_less)
  then have m: "mag (w OR c) = e * 2 ^ 23 + unat w" "\<not> negative (w OR c)" "mag (w OR c) < inf_mag"
    using mag_small [of "w OR c"] u by (simp_all add: inf_mag_def)
  then show "is_finite (w OR c)" by (simp add: is_finite_def)
  show "rval (w OR c) = real (2 ^ 23 + unat w) * 2 ^ (e - 1) / scale"
    using m(2) mval_normal [OF assms(3,1)] by (simp add: rval_def fval_def m(1))
qed

lemma fraction_unat: "unat (w AND 0x007FFFFF :: u32) = mag w mod 2 ^ 23"
proof -
  have "w AND 0x007FFFFF = w AND mask 23" by (simp add: mask_eq_exp_minus_1)
  then have "unat (w AND 0x007FFFFF) = unat w mod 2 ^ 23" by (simp add: unat_and_mask)
  then show ?thesis unfolding mag_mod using mod_exp_eq [of "unat w" 31 23] by (simp add: min_def)
qed

lemma abs_positive: "\<not> negative x \<Longrightarrow> x AND 0x7FFFFFFF = x"
  using abs_unat [of x] unat_split [of x] by (simp add: word_unat_eq_iff fp_consts)

lemma ln_scaled:
  fixes a :: real
  assumes "0 < a"
  shows "ln (a * 2 ^ n / 2 ^ d) = ln a + (real n - real d) * ln 2"
proof -
  have "ln (a * 2 ^ n / 2 ^ d) = ln a + ln (2 ^ n) - ln (2 ^ d)" using assms by (simp add: ln_mult_pos ln_divide_pos)
  then show ?thesis by (simp add: ln_realpow left_diff_distrib)
qed

lemma log_split:
  fixes w :: u32
  assumes m: "m = mag w mod 2 ^ 23"
  defines "ix \<equiv> w AND 0x007FFFFF"
  defines "i \<equiv> (ix + 0x4AFB20) AND 0x800000"
  defines "f \<equiv> fsub (ix OR (i XOR 0x3F800000)) one_f"
  obtains j :: nat where "j \<le> 1" and "sint i div 2 ^ 23 = int j" and "is_finite f" and "- 3 / 10 \<le> rval f" and "rval f \<le> 42 / 100"
    and "1 + rval f = real (2 ^ 23 + m) / 2 ^ (23 + j)" and "0x007FFFFF AND (15 + ix) < 16 \<Longrightarrow> \<bar>rval f\<bar> \<le> 1 / 2 ^ 20"
proof -
  have m23: "m < 2 ^ 23" by (simp add: m)
  have u: "unat ix = m" by (simp only: ix_def m fraction_unat)
  have s: "unat (ix + 0x4AFB20) = m + 0x4AFB20" using m23 by (simp add: unat_word_ariths u)
  have tiny: "0x007FFFFF AND (15 + ix) < 16 \<longleftrightarrow> (15 + m) mod 2 ^ 23 < 16"
  proof -
    have "0x007FFFFF AND (15 + ix) = (15 + ix) AND mask 23" by (simp add: mask_eq_exp_minus_1 and.commute)
    then have "unat (0x007FFFFF AND (15 + ix)) = (15 + m) mod 2 ^ 23" using m23 by (simp add: unat_and_mask unat_word_ariths u)
    then show ?thesis by (simp add: word_less_nat_alt)
  qed
  define j :: nat where "j = (if m < 0x3504E0 then 0 else 1)"
  have i: "i = (if j = 0 then 0 else 0x800000)"
  proof -
    have "bit (ix + 0x4AFB20) 23 \<longleftrightarrow> odd (unat (ix + 0x4AFB20) div 2 ^ 23)" using bit_iff_odd [of "unat (ix + 0x4AFB20)" 23] by (simp add: bit_unsigned_iff)
    also have "\<dots> \<longleftrightarrow> j = 1"
    proof (cases "m < 0x3504E0")
      case True
      then have "unat (ix + 0x4AFB20) div 2 ^ 23 = 0" by (simp add: s)
      then show ?thesis using True by (simp add: j_def)
    next
      case False
      then have "unat (ix + 0x4AFB20) div 2 ^ 23 = 1" using m23 unfolding s by (intro div_nat_eqI) simp_all
      then show ?thesis using False by (simp add: j_def)
    qed
    finally have "bit (ix + 0x4AFB20) 23 \<longleftrightarrow> j = 1" .
    moreover have "i = (if bit (ix + 0x4AFB20) 23 then 0x800000 else 0)"
    proof -
      define c :: u32 where "c = 0x800000"
      have "c = push_bit 23 1" by (simp add: c_def)
      then have "bit c n \<longleftrightarrow> n = 23" for n by (simp only: bit_push_bit_iff bit_1_iff) auto
      then have "v AND c = (if bit v 23 then c else 0)" for v by (intro bit_word_eqI) (auto simp: bit_and_iff)
      then show ?thesis by (simp only: i_def c_def)
    qed
    ultimately show ?thesis by (simp add: j_def)
  qed
  have c: "unat (i XOR 0x3F800000) = (127 - j) * 2 ^ 23" by (simp add: i j_def)
  have j: "j \<le> 1" by (simp add: j_def)
  note x = insert_fraction [OF _ c, of ix, unfolded u, OF m23]
  have r: "rval (ix OR (i XOR 0x3F800000)) = real (2 ^ 23 + m) / 2 ^ (23 + j)" 
  proof -
    have "j = 0 \<or> j = 1" by (simp add: j_def)
    then show ?thesis using x(2) by (auto simp: scale_def)
  qed
  define F where "F = real (2 ^ 23 + m) / 2 ^ (23 + j) - 1"
  have one: "is_finite one_f" "rval one_f = 1" by (simp_all add: const_eval one_f_def)
  have "is_finite (ix OR (i XOR 0x3F800000))" using x(1) by (simp add: j_def)
  from near_sub [OF this one(1)] have n: "near F f" by (simp add: F_def f_def r one)
  have Fj: "F = (if j = 0 then real m / 2 ^ 23 else - real (2 ^ 23 - m) / 2 ^ 24)" using m23 by (auto simp: F_def j_def field_simps of_nat_diff)
  obtain M where M: "M < inf_mag" "real (mval M) = \<bar>F\<bar> * scale"
  proof (cases "j = 0")
    case True
    obtain M where "M < inf_mag" "mval M = m * 2 ^ 126" using representable_scaled [of m 126] m23 by auto
    then show ?thesis using that [of M] True by (simp add: Fj scale_def)
  next
    case False
    have "2 ^ 23 - m < 2 ^ 24" using m23 by simp
    then obtain M where "M < inf_mag" "mval M = (2 ^ 23 - m) * 2 ^ 125" by (rule representable_scaled [of "2 ^ 23 - m" 125]) simp_all
    then show ?thesis using that [of M] False m23 by (simp add: Fj scale_def abs_divide)
  qed
  note f = near_exact [OF n M(2,1)]
  have "- 3 / 10 \<le> F" "F \<le> 42 / 100" using m23 by (auto simp: Fj j_def of_nat_diff)
  moreover have "\<bar>F\<bar> \<le> 1 / 2 ^ 20" if "(15 + m) mod 2 ^ 23 < 16"
  proof (cases "15 + m < 2 ^ 23")
    case True
    then have "m = 0" using that by simp
    then show ?thesis by (simp add: Fj j_def)
  next
    case False
    then show ?thesis using m23 by (simp add: Fj j_def of_nat_diff)
  qed
  ultimately show ?thesis using f j by (intro that [of j]) (auto simp: i j_def tiny F_def)
qed

lemma log_argument:
  assumes "0 < mag x" and "is_finite x" and "\<not> negative x"
  obtains k w f where "logf x = (if 0x007FFFFF AND (15 + (w AND 0x007FFFFF)) < 16 then log_tiny k f else log_main k (w AND 0x007FFFFF) f)"
    and "\<bar>k\<bar> \<le> 151" and "is_finite f" and "- 3 / 10 \<le> rval f" and "rval f \<le> 42 / 100"
    and "0x007FFFFF AND (15 + (w AND 0x007FFFFF)) < 16 \<Longrightarrow> \<bar>rval f\<bar> \<le> 1 / 2 ^ 20"
    and "ln (rval x) = of_int k * ln 2 + ln (1 + rval f)"
proof -
  obtain w e where o: "scale_operand x = (w, e)" by fastforce
  note sc = scale_operand [OF assms(1) _ o]
  have fin: "mag x < inf_mag" using assms(2) by (simp add: is_finite_def)
  define m where "m = mag w mod 2 ^ 23"
  define ix where "ix = w AND 0x007FFFFF"
  define i where "i = (ix + 0x4AFB20) AND 0x800000"
  define f where "f = fsub (ix OR (i XOR 0x3F800000)) one_f"
  obtain j where j: "j \<le> 1" "sint i div 2 ^ 23 = int j" "is_finite f" "- 3 / 10 \<le> rval f" "rval f \<le> 42 / 100"
    "1 + rval f = real (2 ^ 23 + m) / 2 ^ (23 + j)" "0x007FFFFF AND (15 + ix) < 16 \<Longrightarrow> \<bar>rval f\<bar> \<le> 1 / 2 ^ 20"
    using log_split [OF m_def] unfolding ix_def i_def f_def by blast
  define k where "k = e - 127 + int j"
  have abs: "x AND 0x7FFFFFFF = x" by (rule abs_positive [OF assms(3)])
  have w: "negative w \<longleftrightarrow> False" "sint w div 2 ^ 23 = int (mag w div 2 ^ 23)" using sc(1) [OF fin] assms(3) by (simp_all add: sint_split zdiv_int)
  have "(if FLT_UWORD_IS_SUBNORMAL x then (- 25, mulsf3 x two25) else (0, x)) = (e - int (mag w div 2 ^ 23), w)"
    using o uword_classes(5) [of x] by (auto simp: abs scale_operand_def Let_def)
  moreover have "\<not> FLT_UWORD_IS_ZERO x" "FLT_UWORD_IS_FINITE x" using uword_classes(1,4) [of x] assms by (simp_all add: abs)
  ultimately have l: "logf x = (if 0x007FFFFF AND (15 + ix) < 16 then log_tiny k f else log_main k ix f)"
    using assms(3) w(2) j(2) by (simp add: logf_def Let_def abs sint_sign k_def flip: ix_def i_def f_def)
  have r: "rval x = (1 + rval f) * 2 ^ (nat (e + 24) + j) / 2 ^ 151"
  proof -
    have "real (mval (mag x) * 2 ^ 25) = real ((2 ^ 23 + m) * 2 ^ nat (e + 24))" using sc(4) [OF fin] by (simp only: m_def)
    then have "rval x * 2 ^ 174 = real (2 ^ 23 + m) * 2 ^ nat (e + 24)" using assms(3) by (simp add: rval_def fval_def scale_def)
    also have "real (2 ^ 23 + m) = (1 + rval f) * 2 ^ (23 + j)" by (simp add: j(6))
    finally show ?thesis by (simp add: power_add mult.commute)
  qed
  have "0 < 1 + rval f" using j(4) by simp
  then have "ln (rval x) = ln (1 + rval f) + (real (nat (e + 24) + j) - real 151) * ln 2" unfolding r by (rule ln_scaled)
  moreover have "real (nat (e + 24)) = of_int e + 24" using sc(2) [OF fin] by (simp add: of_nat_nat)
  ultimately have "ln (rval x) = of_int k * ln 2 + ln (1 + rval f)" by (simp add: k_def algebra_simps)
  moreover have "\<bar>k\<bar> \<le> 151" using sc(2,3) [OF fin] j(1) by (auto simp: k_def)
  ultimately show ?thesis using l j(3,4,5,7) by (intro that [of w k f]) (auto simp: ix_def)
qed

lemma logf_error:
  assumes "0 < mag x" and "is_finite x" and "\<not> negative x"
  shows "appr (logf x) (ln (rval x)) (1 / 2 ^ 22 + \<bar>ln (rval x)\<bar> / 2 ^ 22)"
proof -
  obtain k w f where l: "logf x = (if 0x007FFFFF AND (15 + (w AND 0x007FFFFF)) < 16 then log_tiny k f else log_main k (w AND 0x007FFFFF) f)"
    and k: "\<bar>k\<bar> \<le> 151" and f: "is_finite f" "- 3 / 10 \<le> rval f" "rval f \<le> 42 / 100"
    and t: "0x007FFFFF AND (15 + (w AND 0x007FFFFF)) < 16 \<Longrightarrow> \<bar>rval f\<bar> \<le> 1 / 2 ^ 20"
    and ln: "ln (rval x) = of_int k * ln 2 + ln (1 + rval f)"
    using log_argument [OF assms] by blast
  show ?thesis
  proof (cases "0x007FFFFF AND (15 + (w AND 0x007FFFFF)) < 16")
    case True
    then show ?thesis using log_tiny_appr [OF f(1) t [OF True] k] by (simp only: l ln if_True)
  next
    case False
    then show ?thesis using log_main_appr [OF f k, of "w AND 0x007FFFFF"] by (simp only: l ln if_False)
  qed
qed

text \<open>The value of a logarithm at the arguments that have no real logarithm.\<close>

definition log_special :: "u32 \<Rightarrow> u32 \<Rightarrow> bool" where
  "log_special x r \<longleftrightarrow>
    (if is_nan x then is_nan r else if mag x = 0 then r = negsf2 infRep else if negative x then is_nan r else r = x)"

lemma divzero_minus_inf: "math_divzerof True = negsf2 infRep"
proof (rule float_eqI)
  have "mag 0 = 0" "\<not> negative 0" "mag one_f = 127 * 2 ^ 23" "\<not> negative one_f" by (simp_all add: mag_def negative_def one_f_def fp_consts)
  then show "mag (math_divzerof True) = mag (negsf2 infRep)" "negative (math_divzerof True) \<longleftrightarrow> negative (negsf2 infRep)"
    using div_nearest [of "negsf2 one_f" 0]
    by (simp_all add: math_divzerof_def ieee_quotient_def is_nan_def is_finite_def inf_mag_def) (simp_all add: mag_def negative_def fp_consts)
qed

lemma log_special_branches:
  assumes "mag x = 0 \<or> negative x \<or> \<not> is_finite x"
    and "\<not> negative x \<Longrightarrow> mag x \<noteq> 0 \<Longrightarrow> \<not> FLT_UWORD_IS_FINITE x \<Longrightarrow> r = fadd x x"
    and "FLT_UWORD_IS_ZERO (x AND 0x7FFFFFFF) \<Longrightarrow> r = math_divzerof True"
    and "\<not> FLT_UWORD_IS_ZERO (x AND 0x7FFFFFFF) \<Longrightarrow> sint x < 0 \<Longrightarrow> r = math_invalidf x"
  shows "log_special x r"
proof -
  have fin: "FLT_UWORD_IS_FINITE x \<longleftrightarrow> is_finite x" if "\<not> negative x" using uword_classes(1) [of x] abs_positive [OF that] by simp
  have zero: "FLT_UWORD_IS_ZERO (x AND 0x7FFFFFFF) \<longleftrightarrow> mag x = 0" by (rule uword_classes)
  have d: "if is_nan x then is_nan (fadd x x) else fadd x x = x" if "\<not> is_finite x" using nonfinite_double [OF that] .
  have n0: "\<not> (is_nan x \<and> mag x = 0)" by (simp add: is_nan_def)
  show ?thesis using assms fin d n0 math_invalidf_nan [of x] divzero_minus_inf
    by (auto simp: log_special_def zero sint_sign is_nan_def is_finite_def)
qed

lemma logf_special: "mag x = 0 \<or> negative x \<or> \<not> is_finite x \<Longrightarrow> log_special x (logf x)"
  by (rule log_special_branches) (auto simp: logf_def Let_def sint_sign uword_classes)

lemma logf_one: "logf one_f = 0"
  by code_simp

text \<open>
  C11. The natural logarithm is accurate: for every positive finite argument, subnormal ones included, the result is a finite number within
  \<open>(1 + \<bar>ln x\<bar>) 2\<^sup>-\<^sup>2\<^sup>2\<close> of the real logarithm, and the logarithm of 1 is exactly 0. A zero gives minus infinity, a negative argument a pattern that is not a number, as
  does such a pattern itself, and infinity gives infinity.
\<close>

theorem logf_accurate:
  "if is_nan x then is_nan (logf x)
   else if mag x = 0 then logf x = negsf2 infRep
   else if negative x then is_nan (logf x)
   else if mag x = inf_mag then logf x = x
   else if x = one_f then logf x = 0
   else is_finite (logf x) \<and> \<bar>rval (logf x) - ln (rval x)\<bar> \<le> (1 + \<bar>ln (rval x)\<bar>) / 2 ^ 22"
proof -
  have "is_finite (logf x) \<and> \<bar>rval (logf x) - ln (rval x)\<bar> \<le> (1 + \<bar>ln (rval x)\<bar>) / 2 ^ 22" if "0 < mag x" "is_finite x" "\<not> negative x"
    using logf_error [OF that] by (simp add: appr_def add_divide_distrib)
  then show ?thesis using logf_special [of x] logf_one by (auto simp: log_special_def is_nan_def is_finite_def split: if_splits)
qed

end
