(* ===== verification/Libm_Log10.thy ===== *)
theory Libm_Log10
  imports Libm_Log
begin

text \<open>
  The accuracy of the logarithms to the bases 2 and 10, which are computed from the natural logarithm.
\<close>

section \<open>Rounding and constants\<close>

lemma near_error_mixed:
  assumes "near x r" and "\<bar>x\<bar> < 2 ^ 100"
  shows "is_finite r" and "\<bar>rval r - x\<bar> \<le> (1 + \<bar>x\<bar>) / 2 ^ 24"
proof -
  show f: "is_finite r" using assms(2) by (intro near_finite_large [OF assms(1)]) simp
  show "\<bar>rval r - x\<bar> \<le> (1 + \<bar>x\<bar>) / 2 ^ 24"
  proof (cases "1 / 2 ^ 100 \<le> \<bar>x\<bar>")
    case True
    have "\<bar>rval r - x\<bar> \<le> \<bar>x\<bar> / 2 ^ 24" by (rule near_error_relative [OF assms(1) f True assms(2)])
    then show ?thesis by (simp add: add_divide_distrib)
  next
    case False
    then have "\<bar>x\<bar> < 1 / 1024" by simp
    from near_error_binade [OF assms(1) f this] have "\<bar>rval r - x\<bar> \<le> 1 / 2 ^ 24" by simp
    also have "\<dots> \<le> (1 + \<bar>x\<bar>) / 2 ^ 24" by (intro divide_right_mono) simp_all
    finally show ?thesis .
  qed
qed

lemma ln_10_bounds: "23025850929 / 10 ^ 10 \<le> ln (10 :: real)" "ln (10 :: real) \<le> 23025850931 / 10 ^ 10"
proof -
  have "\<bar>ln (5 / 4 :: real) - (2 / 9 + 1 / 9 * log_series ((1 / 9)\<^sup>2))\<bar> \<le> 1 / 2 ^ 40" using ln_quotient [of "1 / 9"] by simp
  moreover have "ln (10 :: real) = 3 * ln 2 + ln (5 / 4)"
  proof -
    have "ln (10 :: real) = ln (2 ^ 3 * (5 / 4))" by simp
    also have "\<dots> = ln (2 ^ 3) + ln (5 / 4)" by (rule ln_mult_pos) simp_all
    also have "ln (2 ^ 3 :: real) = 3 * ln 2" by (simp only: ln_realpow)
    finally show ?thesis .
  qed
  moreover have "22314355130 / 10 ^ 11 + 1 / 2 ^ 40 \<le> 2 / 9 + 1 / 9 * log_series ((1 / 9)\<^sup>2)"
    "2 / 9 + 1 / 9 * log_series ((1 / 9)\<^sup>2) \<le> 22314355132 / 10 ^ 11 - 1 / 2 ^ 40" by (simp_all add: log_series_def power_divide)
  ultimately show "23025850929 / 10 ^ 10 \<le> ln (10 :: real)" "ln (10 :: real) \<le> 23025850931 / 10 ^ 10"
    using ln_2_bounds unfolding abs_le_iff by simp_all
qed

lemma ln_range:
  assumes "0 < mag x" and "is_finite x" and "\<not> negative x"
  shows "\<bar>ln (rval x)\<bar> \<le> 106"
proof -
  obtain k :: int and f where k: "\<bar>k\<bar> \<le> 151" and f: "- 3 / 10 \<le> rval f" "rval f \<le> 42 / 100" and ln: "ln (rval x) = of_int k * ln 2 + ln (1 + rval f)"
    using log_argument [OF assms] by blast
  have "\<bar>rval f\<bar> \<le> 1 / 2" using f by (simp add: abs_le_iff)
  then have "\<bar>ln (1 + rval f) - rval f\<bar> \<le> 2 * (rval f)\<^sup>2" by (rule abs_ln_one_plus_x_minus_x_bound)
  moreover have "(rval f)\<^sup>2 \<le> (1 / 2)\<^sup>2" using \<open>\<bar>rval f\<bar> \<le> 1 / 2\<close> power_mono [of "\<bar>rval f\<bar>" "1 / 2" 2] by simp
  ultimately have "\<bar>ln (1 + rval f)\<bar> \<le> 1" using \<open>\<bar>rval f\<bar> \<le> 1 / 2\<close> by (simp add: power_divide)
  moreover have "\<bar>of_int k * ln (2 :: real)\<bar> \<le> 151 * (695 / 1000)"
  proof -
    have "\<bar>real_of_int k\<bar> \<le> 151" using k by linarith
    then show ?thesis unfolding abs_mult using ln_2_bounds by (intro mult_mono) simp_all
  qed
  ultimately show ?thesis unfolding ln by linarith
qed

section \<open>Base 2\<close>

lemma log2_error_sum:
  fixes a b c d v w t :: real
  assumes "a \<le> b + c + d" and "b \<le> (1 + v) / 2 ^ 24" and "v \<le> w + d + c" and "d \<le> w / 2 ^ 24"
    and "c \<le> (1 / 2 ^ 22 + t / 2 ^ 22) * (14427 / 10000)" and "t \<le> 6932 / 10000 * w" and "0 \<le> w"
  shows "a \<le> (1 + w) / 2 ^ 21"
  using assms by simp

lemma log2f_error:
  assumes "0 < mag x" and "is_finite x" and "\<not> negative x"
  shows "is_finite (log2f x)" and "\<bar>rval (log2f x) - log 2 (rval x)\<bar> \<le> (1 + \<bar>log 2 (rval x)\<bar>) / 2 ^ 21"
proof -
  define L l c W where "L = ln (rval x)" and "l = rval (logf x)" and "c = (12102203 / 2 ^ 23 :: real)" and "W = log 2 (rval x)"
  have e: "is_finite (logf x)" "\<bar>l - L\<bar> \<le> 1 / 2 ^ 22 + \<bar>L\<bar> / 2 ^ 22" using logf_error [OF assms] by (simp_all add: appr_def l_def L_def)
  have c: "is_finite log2_inv" "rval log2_inv = c" by (simp_all add: const_eval log2_inv_def c_def)
  have L: "L = W * ln 2" by (simp add: L_def W_def log_def)
  then have La: "\<bar>L\<bar> = \<bar>W\<bar> * ln 2" by (simp add: abs_mult)
  have "\<bar>W\<bar> * ln 2 \<le> \<bar>W\<bar> * (6932 / 10000)" using ln_2_bounds by (intro mult_left_mono) simp_all
  then have Lb: "\<bar>L\<bar> \<le> 6932 / 10000 * \<bar>W\<bar>" by (simp add: La)
  have c0: "0 \<le> c" "c \<le> 14427 / 10000" by (simp_all add: c_def)
  have Lc: "\<bar>l * c - L * c\<bar> \<le> (1 / 2 ^ 22 + \<bar>L\<bar> / 2 ^ 22) * (14427 / 10000)"
  proof -
    have "l * c - L * c = (l - L) * c" by (simp add: left_diff_distrib)
    then have "\<bar>l * c - L * c\<bar> = \<bar>l - L\<bar> * c" using c0(1) by (simp add: abs_mult)
    also have "\<dots> \<le> (1 / 2 ^ 22 + \<bar>L\<bar> / 2 ^ 22) * (14427 / 10000)" using e(2) c0 by (intro mult_mono) simp_all
    finally show ?thesis .
  qed
  have d: "\<bar>L * c - W\<bar> \<le> \<bar>W\<bar> / 2 ^ 24"
  proof -
    have "L * c - W = W * (ln 2 * c - 1)" by (simp add: L right_diff_distrib)
    moreover have "\<bar>ln 2 * c - 1\<bar> \<le> 1 / 2 ^ 24" using ln_2_bounds by (simp add: c_def abs_le_iff)
    ultimately show ?thesis using mult_left_mono [of "\<bar>ln 2 * c - 1\<bar>" "1 / 2 ^ 24" "\<bar>W\<bar>"] by (simp add: abs_mult)
  qed
  have n: "near (l * c) (log2f x)" using near_mul [OF e(1) c(1)] by (simp add: log2f_def l_def c(2))
  have lc: "\<bar>l * c\<bar> \<le> \<bar>W\<bar> + \<bar>L * c - W\<bar> + \<bar>l * c - L * c\<bar>" by linarith
  have Lr: "\<bar>L\<bar> \<le> 106" unfolding L_def by (rule ln_range [OF assms])
  have "\<bar>W\<bar> * (69 / 100) \<le> \<bar>W\<bar> * ln 2" using ln_2_bounds by (intro mult_left_mono) simp_all
  then have "\<bar>W\<bar> \<le> 200" using Lr by (simp add: La)
  then have "\<bar>l * c\<bar> < 2 ^ 100" using lc d Lc Lr by simp
  note r = near_error_mixed [OF n this]
  show "is_finite (log2f x)" by (rule r(1))
  have "\<bar>rval (log2f x) - W\<bar> \<le> \<bar>rval (log2f x) - l * c\<bar> + \<bar>l * c - L * c\<bar> + \<bar>L * c - W\<bar>" by linarith
  then have "\<bar>rval (log2f x) - W\<bar> \<le> (1 + \<bar>W\<bar>) / 2 ^ 21" using r(2) lc d Lc Lb by (rule log2_error_sum) simp
  then show "\<bar>rval (log2f x) - log 2 (rval x)\<bar> \<le> (1 + \<bar>log 2 (rval x)\<bar>) / 2 ^ 21" by (simp only: W_def)
qed

section \<open>Base 10\<close>

lemma log10_constants:
  "is_finite ivln10" "is_finite log10_2hi" "is_finite log10_2lo" "rval log10_2hi = 78913 / 2 ^ 18" "rval log10_2lo = 13903835 / 2 ^ 44"
  "\<bar>rval ivln10 - 1 / ln 10\<bar> \<le> 1 / 2 ^ 25" "\<bar>78913 / 2 ^ 18 + 13903835 / 2 ^ 44 - ln 2 / ln (10 :: real)\<bar> \<le> 1 / 10 ^ 9"
proof -
  show "is_finite ivln10" "is_finite log10_2hi" "is_finite log10_2lo" "rval log10_2hi = 78913 / 2 ^ 18" "rval log10_2lo = 13903835 / 2 ^ 44"
    by (simp_all add: const_eval ivln10_def log10_2hi_def log10_2lo_def)
  have p: "0 < ln (10 :: real)" by simp
  have "rval ivln10 = 14572505 / 2 ^ 25" by (simp add: const_eval ivln10_def)
  moreover have "1 / ln 10 \<le> (14572506 / 2 ^ 25 :: real)" "(14572504 / 2 ^ 25 :: real) \<le> 1 / ln 10"
    using ln_10_bounds p by (simp_all add: pos_divide_le_eq pos_le_divide_eq)
  ultimately show "\<bar>rval ivln10 - 1 / ln 10\<bar> \<le> 1 / 2 ^ 25" unfolding abs_le_iff by simp
  have "ln 2 / ln 10 \<le> (3010299958 / 10 ^ 10 :: real)" "(3010299955 / 10 ^ 10 :: real) \<le> ln 2 / ln 10"
    using ln_10_bounds ln_2_bounds p by (simp_all add: pos_divide_le_eq pos_le_divide_eq)
  then show "\<bar>78913 / 2 ^ 18 + 13903835 / 2 ^ 44 - ln 2 / ln (10 :: real)\<bar> \<le> 1 / 10 ^ 9" unfolding abs_le_iff by simp
qed

lemma log10_argument:
  assumes "0 < mag x" and "is_finite x" and "\<not> negative x"
  obtains y h where "log10f x = fadd (fadd (mulsf3 (floatsisf (word_of_int y)) log10_2lo) (mulsf3 ivln10 (logf h))) (mulsf3 (floatsisf (word_of_int y)) log10_2hi)"
    and "\<bar>y\<bar> \<le> 151" and "is_finite h" and "1 / 2 \<le> rval h" and "rval h \<le> 2" and "ln (rval x) = of_int y * ln 2 + ln (rval h)"
proof -
  obtain w e where o: "scale_operand x = (w, e)" by fastforce
  note sc = scale_operand [OF assms(1) _ o]
  have fin: "mag x < inf_mag" using assms(2) by (simp add: is_finite_def)
  define m where "m = mag w mod 2 ^ 23"
  define i where "i = (if e - 127 < 0 then 1 else 0 :: nat)"
  define h where "h = (w AND 0x007FFFFF) OR push_bit 23 (word_of_int (0x7F - int i))"
  define y where "y = e - 127 + int i"
  have abs: "x AND 0x7FFFFFFF = x" by (rule abs_positive [OF assms(3)])
  have w: "sint w div 2 ^ 23 = int (mag w div 2 ^ 23)" using sc(1) [OF fin] assms(3) by (simp add: sint_split zdiv_int)
  have "(if FLT_UWORD_IS_SUBNORMAL x then (- 25, mulsf3 x two25) else (0, x)) = (e - int (mag w div 2 ^ 23), w)"
    using o uword_classes(5) [of x] by (auto simp: abs scale_operand_def Let_def)
  moreover have "\<not> FLT_UWORD_IS_ZERO x" "FLT_UWORD_IS_FINITE x" using uword_classes(1,4) [of x] assms by (simp_all add: abs)
  ultimately have l: "log10f x = fadd (fadd (mulsf3 (floatsisf (word_of_int y)) log10_2lo) (mulsf3 ivln10 (logf h))) (mulsf3 (floatsisf (word_of_int y)) log10_2hi)"
    using assms(3) w by (simp add: log10f_def Let_def abs sint_sign h_def y_def i_def)
  have m: "m < 2 ^ 23" "unat (w AND 0x007FFFFF) = m" by (simp_all add: m_def fraction_unat)
  have c: "unat (push_bit 23 (word_of_int (0x7F - int i)) :: u32) = (127 - i) * 2 ^ 23" by (simp add: i_def)
  note x = insert_fraction [OF _ c, of "w AND 0x007FFFFF", unfolded m(2), OF m(1), folded h_def]
  have r: "rval h = real (2 ^ 23 + m) / 2 ^ (23 + i)" using x(2) by (auto simp: i_def scale_def)
  have hb: "1 / 2 \<le> rval h" "rval h \<le> 2" using m(1) unfolding r by (simp_all add: i_def)
  have rx: "rval x = rval h * 2 ^ (nat (e + 24) + i) / 2 ^ 151"
  proof -
    have "real (mval (mag x) * 2 ^ 25) = real ((2 ^ 23 + m) * 2 ^ nat (e + 24))" using sc(4) [OF fin] by (simp only: m_def)
    then have "rval x * 2 ^ 174 = real (2 ^ 23 + m) * 2 ^ nat (e + 24)" using assms(3) by (simp add: rval_def fval_def scale_def)
    also have "real (2 ^ 23 + m) = rval h * 2 ^ (23 + i)" by (simp add: r)
    finally show ?thesis by (simp add: power_add mult.commute)
  qed
  have "ln (rval x) = ln (rval h) + (real (nat (e + 24) + i) - real 151) * ln 2" unfolding rx using hb(1) by (intro ln_scaled) simp
  moreover have "real (nat (e + 24)) = of_int e + 24" using sc(2) [OF fin] by (simp add: of_nat_nat)
  ultimately have "ln (rval x) = of_int y * ln 2 + ln (rval h)" by (simp add: y_def algebra_simps)
  moreover have "\<bar>y\<bar> \<le> 151" using sc(2,3) [OF fin] by (auto simp: y_def i_def)
  moreover have "is_finite h" using x(1) by (simp add: i_def)
  ultimately show ?thesis using l hb by (intro that [of y h])
qed

text \<open>The first sum: the lower part of the multiple of \<open>log10 2\<close> and the logarithm of the reduced argument.\<close>

lemma log10_reduced_sum:
  assumes y: "\<bar>y\<bar> \<le> 151" and h: "is_finite h" "1 / 2 \<le> rval h" "rval h \<le> 2"
  shows "appr (fadd (mulsf3 (floatsisf (word_of_int y)) log10_2lo) (mulsf3 ivln10 (logf h)))
      (of_int y * (13903835 / 2 ^ 44) + 1 / ln 10 * ln (rval h)) (97 / 100 / 2 ^ 22)"
    and "\<bar>1 / ln 10 * ln (rval h)\<bar> \<le> 31 / 100"
proof -
  have Y: "\<bar>real_of_int y\<bar> \<le> 151" using y by linarith
  have ln: "\<bar>ln (rval h)\<bar> \<le> 7 / 10"
  proof -
    have "ln (1 / 2) \<le> ln (rval h)" "ln (rval h) \<le> ln 2" using h by simp_all
    then show ?thesis using ln_2_bounds by (simp add: ln_div abs_le_iff)
  qed
  have "0 < rval h" using h(2) by simp
  then have "\<not> negative h" "0 < mag h" using rval_abs(2) [of h] rval_eq_0 [of h] by auto
  note e = logf_error [OF this(2) h(1) this(1)]
  have "1 / 2 ^ 22 + \<bar>ln (rval h)\<bar> / 2 ^ 22 \<le> 17 / 10 / 2 ^ 22" using ln by (simp add: add_divide_distrib [symmetric])
  then have l: "appr (logf h) (ln (rval h)) (17 / 10 / 2 ^ 22)" by (rule appr_mono [OF e])
  have iv: "\<bar>1 / ln (10 :: real)\<bar> \<le> 435 / 1000" using ln_10_bounds by (simp add: pos_divide_le_eq)
  have c: "appr ivln10 (1 / ln 10) (1 / 2 ^ 25)" "appr log10_2lo (13903835 / 2 ^ 44) 0" using log10_constants by (simp_all add: appr_def)
  have a: "appr (floatsisf (word_of_int y)) (of_int y) 0" using floatsisf_int [of y] y by (simp add: appr_def)
  have lo: "appr (mulsf3 (floatsisf (word_of_int y)) log10_2lo) (of_int y * (13903835 / 2 ^ 44)) (1 / 2 ^ 35)"
    by (rule appr_mul [OF a c(2) Y, where Y = "1 / 10 ^ 6" and B = "1 / 1024"]) simp_all
  have p: "appr (mulsf3 ivln10 (logf h)) (1 / ln 10 * ln (rval h)) (9 / 10 / 2 ^ 22)"
    by (rule appr_mul [OF c(1) l iv ln, where B = "1 / 2"]) simp_all
  have "\<bar>1 / ln 10 * ln (rval h)\<bar> \<le> 435 / 1000 * (7 / 10)" unfolding abs_mult using iv ln by (intro mult_mono) simp_all
  then show b: "\<bar>1 / ln 10 * ln (rval h)\<bar> \<le> 31 / 100" by linarith
  have lob: "\<bar>of_int y * (13903835 / 2 ^ 44)\<bar> \<le> (1 / 1000 :: real)" using Y by (simp add: abs_mult)
  have "\<bar>u + v\<bar> + (1 / 2 ^ 35 + 9 / 10 / 2 ^ 22) < 1 / 2" if "\<bar>u\<bar> \<le> 1 / 1000" "\<bar>v\<bar> \<le> 31 / 100" for u v :: real
    using abs_triangle_ineq [of u v] that by simp
  note s = this [OF lob b]
  show "appr (fadd (mulsf3 (floatsisf (word_of_int y)) log10_2lo) (mulsf3 ivln10 (logf h)))
      (of_int y * (13903835 / 2 ^ 44) + 1 / ln 10 * ln (rval h)) (97 / 100 / 2 ^ 22)"
    by (rule appr_add [OF lo p s]) simp_all
qed

lemma log10_error_sum:
  fixes a b c d v w k :: real
  assumes "a \<le> b + c" and "b \<le> (1 + v) / 2 ^ 24" and "v \<le> w + c" and "0 \<le> w"
    and "c \<le> (1 + k * (78913 / 2 ^ 18)) / 2 ^ 24 + 97 / 100 / 2 ^ 22 + k / 10 ^ 9" and "30 / 100 * k \<le> w + 31 / 100"
  shows "a \<le> (1 + w) / 2 ^ 21"
  using assms by (simp add: field_simps)

lemma log10f_error:
  assumes "0 < mag x" and "is_finite x" and "\<not> negative x"
  shows "is_finite (log10f x)" and "\<bar>rval (log10f x) - log 10 (rval x)\<bar> \<le> (1 + \<bar>log 10 (rval x)\<bar>) / 2 ^ 21"
proof -
  obtain y h where l: "log10f x = fadd (fadd (mulsf3 (floatsisf (word_of_int y)) log10_2lo) (mulsf3 ivln10 (logf h))) (mulsf3 (floatsisf (word_of_int y)) log10_2hi)"
    and y: "\<bar>y\<bar> \<le> 151" and h: "is_finite h" "1 / 2 \<le> rval h" "rval h \<le> 2" and ln: "ln (rval x) = of_int y * ln 2 + ln (rval h)"
    using log10_argument [OF assms] by blast
  define z a where "z = fadd (mulsf3 (floatsisf (word_of_int y)) log10_2lo) (mulsf3 ivln10 (logf h))"
    and "a = mulsf3 (floatsisf (word_of_int y)) log10_2hi"
  define K W P A where "K = real_of_int y" and "W = log 10 (rval x)" and "P = 1 / ln 10 * ln (rval h)" and "A = K * (78913 / 2 ^ 18)"
  have K: "\<bar>K\<bar> \<le> 151" using y by (simp add: K_def)
  have z: "is_finite z" "\<bar>rval z - (K * (13903835 / 2 ^ 44) + P)\<bar> \<le> 97 / 100 / 2 ^ 22" and P: "\<bar>P\<bar> \<le> 31 / 100"
    using log10_reduced_sum [OF y h] by (simp_all add: appr_def z_def K_def P_def)
  have Ab: "\<bar>A\<bar> = \<bar>K\<bar> * (78913 / 2 ^ 18)" by (simp add: A_def abs_mult)
  have na: "near A a" using near_mul [of "floatsisf (word_of_int y)" log10_2hi] floatsisf_int [of y] y log10_constants(2,4)
    by (simp add: a_def A_def K_def)
  have "\<bar>A\<bar> < 2 ^ 100" using K by (simp add: Ab)
  note a = near_error_mixed [OF na this]
  define q where "q = ln 2 / ln (10 :: real)"
  have W: "W = K * q + P" by (simp add: W_def K_def P_def q_def log_def ln add_divide_distrib)
  have q: "\<bar>78913 / 2 ^ 18 + 13903835 / 2 ^ 44 - q\<bar> \<le> 1 / 10 ^ 9" using log10_constants(7) by (simp only: q_def)
  have M: "\<bar>A + K * (13903835 / 2 ^ 44) - K * q\<bar> \<le> \<bar>K\<bar> / 10 ^ 9"
  proof -
    have "A + K * (13903835 / 2 ^ 44) - K * q = K * (78913 / 2 ^ 18 + 13903835 / 2 ^ 44 - q)" by (simp add: A_def algebra_simps)
    then show ?thesis using mult_left_mono [OF q, of "\<bar>K\<bar>"] by (simp only: abs_mult abs_ge_zero) simp
  qed
  define V where "V = rval z + rval a"
  have V: "\<bar>V - W\<bar> \<le> (1 + \<bar>A\<bar>) / 2 ^ 24 + 97 / 100 / 2 ^ 22 + \<bar>K\<bar> / 10 ^ 9" using M a(2) z(2) unfolding V_def W by linarith
  have Kq: "30 / 100 * \<bar>K\<bar> \<le> \<bar>K * q\<bar>" "\<bar>K * q\<bar> \<le> 31 / 100 * \<bar>K\<bar>"
  proof -
    have "30 / 100 \<le> q" "q \<le> 31 / 100" using q unfolding abs_le_iff by simp_all
    then show "30 / 100 * \<bar>K\<bar> \<le> \<bar>K * q\<bar>" "\<bar>K * q\<bar> \<le> 31 / 100 * \<bar>K\<bar>"
      using mult_left_mono [of "30 / 100" q "\<bar>K\<bar>"] mult_left_mono [of q "31 / 100" "\<bar>K\<bar>"] by (simp_all add: abs_mult)
  qed
  have Vs: "\<bar>V\<bar> \<le> \<bar>W\<bar> + \<bar>V - W\<bar>" by linarith
  have Wb: "\<bar>W\<bar> \<le> \<bar>K * q\<bar> + \<bar>P\<bar>" "\<bar>K * q\<bar> \<le> \<bar>W\<bar> + \<bar>P\<bar>" unfolding W by linarith+
  have "\<bar>V\<bar> < 2 ^ 100" using Vs V Wb(1) Kq(2) P K unfolding Ab by (simp add: field_simps)
  moreover have "near V (log10f x)" using near_add [OF z(1) a(1)] by (simp add: V_def l z_def a_def)
  ultimately have r: "is_finite (log10f x)" "\<bar>rval (log10f x) - V\<bar> \<le> (1 + \<bar>V\<bar>) / 2 ^ 24" using near_error_mixed by blast+
  show "is_finite (log10f x)" by (rule r(1))
  have "\<bar>rval (log10f x) - W\<bar> \<le> \<bar>rval (log10f x) - V\<bar> + \<bar>V - W\<bar>" "30 / 100 * \<bar>K\<bar> \<le> \<bar>W\<bar> + 31 / 100" using Kq(1) Wb(2) P by linarith+
  then have "\<bar>rval (log10f x) - W\<bar> \<le> (1 + \<bar>W\<bar>) / 2 ^ 21" using r(2) Vs V unfolding Ab by (intro log10_error_sum [of _ _ _ _ "\<bar>W\<bar>" "\<bar>K\<bar>"]) simp_all
  then show "\<bar>rval (log10f x) - log 10 (rval x)\<bar> \<le> (1 + \<bar>log 10 (rval x)\<bar>) / 2 ^ 21" by (simp only: W_def)
qed

section \<open>The two functions\<close>

lemma log2f_special:
  assumes "mag x = 0 \<or> negative x \<or> \<not> is_finite x"
  shows "log_special x (log2f x)"
proof -
  have n: "is_nan (mulsf3 a log2_inv)" if "is_nan a" for a using mul_nearest [of a log2_inv] that by (simp add: ieee_product_def)
  have i: "mulsf3 a log2_inv = a" if "mag a = inf_mag" for a
  proof (rule float_eqI)
    have "\<not> is_nan log2_inv" "mag log2_inv \<noteq> 0" "\<not> negative log2_inv" by (simp_all add: const_eval is_nan_def log2_inv_def)
    then show "mag (mulsf3 a log2_inv) = mag a" "negative (mulsf3 a log2_inv) \<longleftrightarrow> negative a"
      using mul_nearest [of a log2_inv] that by (simp_all add: ieee_product_def is_nan_def is_finite_def)
  qed
  have "mag (negsf2 infRep) = inf_mag" by simp (simp add: const_eval)
  then have inf: "mulsf3 (negsf2 infRep) log2_inv = negsf2 infRep" by (rule i)
  show ?thesis using logf_special [OF assms] n inf i assms
    by (auto simp: log_special_def log2f_def is_nan_def is_finite_def split: if_splits)
qed

lemma log10f_special: "mag x = 0 \<or> negative x \<or> \<not> is_finite x \<Longrightarrow> log_special x (log10f x)"
  by (rule log_special_branches) (auto simp: log10f_def Let_def sint_sign uword_classes)

lemma log2f_log10f_one: "log2f one_f = 0" "log10f one_f = 0"
proof -
  have m: "mulsf3 0 log2_inv = 0" "mulsf3 0 log10_2lo = 0" "mulsf3 ivln10 0 = 0" "mulsf3 0 log10_2hi = 0" "fadd 0 0 = 0" by code_simp+
  then show "log2f one_f = 0" by (simp add: log2f_def logf_one)
  have y: "floatsisf 0 = 0" by code_simp
  have "log10f one_f = fadd (fadd (mulsf3 (floatsisf 0) log10_2lo) (mulsf3 ivln10 (logf one_f))) (mulsf3 (floatsisf 0) log10_2hi)"
    by (simp add: log10f_def one_f_def FLT_UWORD_IS_ZERO_def FLT_UWORD_IS_FINITE_def FLT_UWORD_IS_SUBNORMAL_def) (simp add: Let_def)
  then show "log10f one_f = 0" by (simp add: m y logf_one)
qed

text \<open>
  C28. The logarithms to the bases 2 and 10 are accurate: for every positive finite argument the result is a finite number within
  \<open>(1 + \<bar>L\<bar>) 2\<^sup>-\<^sup>2\<^sup>1\<close> of the real logarithm \<open>L\<close>, and the logarithms of 1 are exactly 0. A zero gives minus infinity, a negative argument a pattern that is not a
  number, as does such a pattern itself, and infinity gives infinity.
\<close>

theorem log2f_log10f_accurate:
  "if is_nan x then is_nan (log2f x) \<and> is_nan (log10f x)
   else if mag x = 0 then log2f x = negsf2 infRep \<and> log10f x = negsf2 infRep
   else if negative x then is_nan (log2f x) \<and> is_nan (log10f x)
   else if mag x = inf_mag then log2f x = x \<and> log10f x = x
   else if x = one_f then log2f x = 0 \<and> log10f x = 0
   else is_finite (log2f x) \<and> \<bar>rval (log2f x) - log 2 (rval x)\<bar> \<le> (1 + \<bar>log 2 (rval x)\<bar>) / 2 ^ 21 \<and>
        is_finite (log10f x) \<and> \<bar>rval (log10f x) - log 10 (rval x)\<bar> \<le> (1 + \<bar>log 10 (rval x)\<bar>) / 2 ^ 21"
proof (cases "mag x = 0 \<or> negative x \<or> \<not> is_finite x")
  case True
  then show ?thesis using log2f_special [of x] log10f_special [of x] by (auto simp: log_special_def is_nan_def is_finite_def split: if_splits)
next
  case False
  then show ?thesis using log2f_error [of x] log10f_error [of x] log2f_log10f_one by (auto simp: is_nan_def is_finite_def)
qed

end
