(* ===== verification/Libm_Asin.thy ===== *)
theory Libm_Asin
  imports Libm_Sqrt Libm_Atan
begin

text \<open>
  The inverse sine and cosine, \<^verbatim>\<open>sf_asin.c\<close> and \<^verbatim>\<open>sf_acos.c\<close>. Both files define the same coefficients, and their own splitting of
  \<open>\<pi>/2\<close> into two numbers. The root returns an option, so both functions do.
\<close>

section \<open>The functions\<close>

definition pS0 :: u32 where "pS0 = 0x3E2AAAAB"
definition pS1 :: u32 where "pS1 = 0xBEA6B090"
definition pS2 :: u32 where "pS2 = 0x3E4E0AA8"
definition pS3 :: u32 where "pS3 = 0xBD241146"
definition pS4 :: u32 where "pS4 = 0x3A4F7F04"
definition pS5 :: u32 where "pS5 = 0x3811EF08"
definition qS1 :: u32 where "qS1 = 0xC019D139"
definition qS2 :: u32 where "qS2 = 0x4001572D"
definition qS3 :: u32 where "qS3 = 0xBF303361"
definition qS4 :: u32 where "qS4 = 0x3D9DC62E"

definition huge :: u32 where "huge = 0x7149F2CA"
definition asin_pio2_hi :: u32 where "asin_pio2_hi = 0x3FC90FDB"
definition asin_pio2_lo :: u32 where "asin_pio2_lo = 0xB33BBD2E"
definition pio4_hi :: u32 where "pio4_hi = 0x3F490FDB"

definition asin_p :: "u32 \<Rightarrow> u32" where
  "asin_p t = mulsf3 t (fadd pS0 (mulsf3 t (fadd pS1 (mulsf3 t (fadd pS2 (mulsf3 t (fadd pS3 (mulsf3 t (fadd pS4 (mulsf3 t pS5))))))))))"

definition asin_q :: "u32 \<Rightarrow> u32" where
  "asin_q t = fadd one_f (mulsf3 t (fadd qS1 (mulsf3 t (fadd qS2 (mulsf3 t (fadd qS3 (mulsf3 t qS4)))))))"

definition asin_large :: "u32 \<Rightarrow> u32 \<Rightarrow> u32 option" where
  "asin_large ix x =
    (let w = fsub one_f (fabsf x);
         t = mulsf3 w half_f;
         p = asin_p t;
         q = asin_q t
     in case sqrtf CRT_FE_TONEAREST t of
          None \<Rightarrow> None
        | Some s \<Rightarrow>
            Some (if ix \<ge> 0x3F79999A
                  then let w = divsf3 p q
                       in fsub asin_pio2_hi (fsub (mulsf3 two_f (fadd s (mulsf3 s w))) asin_pio2_lo)
                  else let w = s AND 0xFFFFF000;
                           c = divsf3 (fsub t (mulsf3 w w)) (fadd s w);
                           r = divsf3 p q;
                           p = fsub (mulsf3 (mulsf3 two_f s) r) (fsub asin_pio2_lo (mulsf3 two_f c));
                           q = fsub pio4_hi (mulsf3 two_f w)
                       in fsub pio4_hi (fsub p q)))"

definition asinf :: "u32 \<Rightarrow> u32 option" where
  "asinf x =
    (let hx = x;
         ix = hx AND 0x7FFFFFFF;
         large = (case asin_large ix x of None \<Rightarrow> None | Some t \<Rightarrow> Some (if sint hx > 0 then t else negsf2 t))
     in if ix = 0x3F800000 then Some (fadd (mulsf3 x asin_pio2_hi) (mulsf3 x asin_pio2_lo))
        else if ix > 0x3F800000 then Some (math_invalidf x)
        else if ix < 0x3F000000
        then if ix < 0x32000000
             then if gesf2 (fadd huge x) one_f > 0 then Some x else large
             else let t = mulsf3 x x;
                      w = divsf3 (asin_p t) (asin_q t)
                  in Some (fadd x (mulsf3 x w))
        else large)"

definition acos_pi :: u32 where "acos_pi = 0x40490FDA"
definition acos_pio2_hi :: u32 where "acos_pio2_hi = 0x3FC90FDA"
definition acos_pio2_lo :: u32 where "acos_pio2_lo = 0x33A22168"

definition acosf :: "u32 \<Rightarrow> u32 option" where
  "acosf x =
    (let hx = x; ix = hx AND 0x7FFFFFFF
     in if ix = 0x3F800000
        then if sint hx > 0 then Some 0 else Some (fadd acos_pi (mulsf3 two_f acos_pio2_lo))
        else if ix > 0x3F800000 then Some (math_invalidf x)
        else if ix < 0x3F000000
        then if ix \<le> 0x23000000 then Some (fadd acos_pio2_hi acos_pio2_lo)
             else let z = mulsf3 x x;
                      r = divsf3 (asin_p z) (asin_q z)
                  in Some (fsub acos_pio2_hi (fsub x (fsub acos_pio2_lo (mulsf3 x r))))
        else if sint hx < 0
        then let z = mulsf3 (fadd one_f x) half_f;
                 p = asin_p z;
                 q = asin_q z
             in case sqrtf CRT_FE_TONEAREST z of
                  None \<Rightarrow> None
                | Some s \<Rightarrow>
                    let r = divsf3 p q;
                        w = fsub (mulsf3 r s) acos_pio2_lo
                    in Some (fsub acos_pi (mulsf3 two_f (fadd s w)))
        else let z = mulsf3 (fsub one_f x) half_f
             in case sqrtf CRT_FE_TONEAREST z of
                  None \<Rightarrow> None
                | Some s \<Rightarrow>
                    let df = s AND 0xFFFFF000;
                        c = divsf3 (fsub z (mulsf3 df df)) (fadd s df);
                        p = asin_p z;
                        q = asin_q z;
                        r = divsf3 p q;
                        w = fadd (mulsf3 r s) c
                    in Some (mulsf3 two_f (fadd df w)))"

section \<open>Symmetry and special values\<close>

lemma div_cong: "same_float a a' \<Longrightarrow> same_float b b' \<Longrightarrow> same_float (divsf3 a b) (divsf3 a' b')"
  using div_nearest [of a b] div_nearest [of a' b'] by (auto simp: same_float_def ieee_quotient_def)

lemma asin_poly_cong:
  assumes "same_float t t'"
  shows "same_float (asin_p t) (asin_p t')" and "same_float (asin_q t) (asin_q t')"
proof -
  show "same_float (asin_p t) (asin_p t')" unfolding asin_p_def using assms by (intro same_float_cong same_float_refl)
  show "same_float (asin_q t) (asin_q t')" unfolding asin_q_def using assms by (intro same_float_cong same_float_refl)
qed

lemma asin_small_neg:
  assumes "same_float w w'"
  shows "same_value (fadd (negsf2 x) (mulsf3 (negsf2 x) w)) (negsf2 (fadd x (mulsf3 x w')))"
proof (rule same_value_trans)
  have "same_float (mulsf3 (negsf2 x) w) (mulsf3 (negsf2 x) w')" using assms by (intro mul_cong same_float_refl)
  also have "same_float \<dots> (negsf2 (mulsf3 x w'))" by (rule mul_neg)
  finally show "same_float (fadd (negsf2 x) (mulsf3 (negsf2 x) w)) (fadd (negsf2 x) (negsf2 (mulsf3 x w')))"
    by (intro add_cong same_float_refl)
qed (rule fadd_neg_neg)

lemma asin_large_neg: "asin_large ix (negsf2 x) = asin_large ix x"
  by (simp add: asin_large_def fabsf_neg)

lemma asin_large_returns: "\<exists>t. asin_large ix x = Some t"
  using sqrtf_root [of CRT_FE_TONEAREST "mulsf3 (fsub one_f (fabsf x)) half_f"] by (auto simp: asin_large_def Let_def)

text \<open>A sum with the large constant stays large, so that the branch for tiny arguments returns them.\<close>

lemma rounds_to_ge:
  assumes "rounds_to v 0 n" and "mval k \<le> v"
  shows "k \<le> n \<or> n = inf_mag"
proof (rule ccontr)
  assume "\<not> (k \<le> n \<or> n = inf_mag)"
  then have "n < k" "n < inf_mag" using assms(1) by (auto simp: rounds_to_def)
  then have "2 * v \<le> mval n + mval (Suc n)" "mval (Suc n) \<le> mval k" "mval n < mval k" using assms(1) by (auto simp: rounds_to_def)
  then show False using assms(2) by linarith
qed

lemma huge_plus:
  assumes "mag x < 0x32000000"
  shows "gesf2 (fadd huge x) one_f > 0"
proof -
  define v where "v = fval huge + fval x"
  have h: "mag huge = 0x7149F2CA" "\<not> negative huge" "mag one_f = 0x3F800000" "\<not> negative one_f" "mag two_f = 0x40000000"
    by (simp_all add: mag_def negative_def huge_def one_f_def two_f_def fp_consts)
  have "mval (mag x) \<le> mval 0x32000000" using assms by simp
  then have "- int (mval 0x32000000) \<le> fval x" by (simp add: fval_def)
  moreover have "fval huge = int (mval 0x7149F2CA)" by (simp add: fval_def h)
  moreover have "mval 0x40000000 + mval 0x32000000 \<le> mval 0x7149F2CA" by (simp add: mval_def)
  ultimately have v: "int (mval 0x40000000) \<le> v" by (simp add: v_def)
  have f: "is_finite huge" "is_finite x" "\<not> is_nan huge" "\<not> is_nan x" using assms by (simp_all add: is_finite_def is_nan_def inf_mag_def h)
  have "0 < mval 0x40000000" by (simp add: mval_def)
  then have r: "rounds_to (nat v) 0 (mag (fadd huge x))" "\<not> negative (fadd huge x)"
    using fadd_sum [of huge x] f v by (auto simp: ieee_sum_def Let_def simp flip: v_def)
  have "mval 0x40000000 \<le> nat v" using v by simp
  from rounds_to_ge [OF r(1) this] have "0x40000000 \<le> mag (fadd huge x)" by (auto simp: inf_mag_def)
  moreover have "mag (fadd huge x) \<le> inf_mag" using r(1) by (simp add: rounds_to_def)
  ultimately have "fval one_f < fval (fadd huge x)" "\<not> is_nan (fadd huge x)" "\<not> is_nan one_f"
    using r(2) by (simp_all add: fval_def h is_nan_def inf_mag_def)
  then show ?thesis by (simp add: gesf2_value)
qed

lemma asin_consts:
  "fadd (mulsf3 one_f asin_pio2_hi) (mulsf3 one_f asin_pio2_lo) = pi_o_2"
  "fadd (mulsf3 (negsf2 one_f) asin_pio2_hi) (mulsf3 (negsf2 one_f) asin_pio2_lo) = negsf2 pi_o_2"
  "fadd acos_pi (mulsf3 two_f acos_pio2_lo) = pi_f" "fadd acos_pio2_hi acos_pio2_lo = pi_o_2"
proof -
  have n: "negsf2 one_f = 0xBF800000" "negsf2 pi_o_2 = 0xBFC90FDB" by (simp_all add: negsf2_def fp_consts one_f_def pi_o_2_def)
  have m: "mulsf3 one_f asin_pio2_hi = asin_pio2_hi" "mulsf3 one_f asin_pio2_lo = asin_pio2_lo"
    "mulsf3 0xBF800000 asin_pio2_hi = 0xBFC90FDB" "mulsf3 0xBF800000 asin_pio2_lo = 0x333BBD2E" "mulsf3 two_f acos_pio2_lo = 0x34222168"
    by (rule mul_eval; simp add: eval_defs one_f_def asin_pio2_hi_def asin_pio2_lo_def two_f_def acos_pio2_lo_def)+
  show "fadd (mulsf3 one_f asin_pio2_hi) (mulsf3 one_f asin_pio2_lo) = pi_o_2"
    "fadd (mulsf3 (negsf2 one_f) asin_pio2_hi) (mulsf3 (negsf2 one_f) asin_pio2_lo) = negsf2 pi_o_2"
    "fadd acos_pi (mulsf3 two_f acos_pio2_lo) = pi_f" "fadd acos_pio2_hi acos_pio2_lo = pi_o_2"
    unfolding n m
    by ((rule add_eval; simp add: eval_defs asin_pio2_hi_def asin_pio2_lo_def acos_pi_def acos_pio2_hi_def acos_pio2_lo_def pi_f_def pi_o_2_def)+)
qed

lemma unit_pattern: "mag x = 0x3F800000 \<longleftrightarrow> x = with_sign x one_f"
proof -
  have "mag (with_sign x one_f) = 0x3F800000" "negative (with_sign x one_f) \<longleftrightarrow> negative x"
    by (auto simp: with_sign_def mag_def negative_def fp_consts one_f_def negsf2_def)
  then show ?thesis using float_eqI [of x "with_sign x one_f"] by auto
qed

lemma asinf_neg: "\<exists>r r'. asinf x = Some r \<and> asinf (negsf2 x) = Some r' \<and> same_value r' (negsf2 r)"
proof -
  define ix where "ix = x AND 0x7FFFFFFF"
  have n: "unat ix = mag x" using abs_unat [of x] by (simp add: ix_def fp_consts)
  obtain t where t: "asin_large ix x = Some t" "asin_large ix (negsf2 x) = Some t" using asin_large_returns [of ix x] by (auto simp: asin_large_neg)
  note f = asinf_def [of x, unfolded Let_def ix_def [symmetric] t option.case]
    asinf_def [of "negsf2 x", unfolded Let_def abs_word_neg ix_def [symmetric] t option.case]
  consider "ix = 0x3F800000" | "ix > 0x3F800000" | "ix < 0x32000000" | "0x32000000 \<le> ix" "ix < 0x3F000000" | "0x3F000000 \<le> ix" "ix < 0x3F800000"
    by (metis linorder_less_linear linorder_not_less)
  then show ?thesis
  proof cases
    case 1
    then have "mag x = 0x3F800000" using n by simp
    then have "x = one_f \<or> x = negsf2 one_f" unfolding unit_pattern with_sign_def by metis
    then show ?thesis using 1 by (auto simp: f asin_consts same_value_def)
  next
    case 2
    then show ?thesis using math_invalidf_nan by (auto simp: f same_value_def same_float_def)
  next
    case 3
    then have "mag x < 0x32000000" "\<not> 0x3F800000 < ix" "ix \<noteq> 0x3F800000" "ix < 0x3F000000" using n by (auto simp: word_less_nat_alt)
    then show ?thesis using 3 huge_plus [of x] huge_plus [of "negsf2 x"] by (simp add: f same_value_def)
  next
    case 4
    then have "\<not> 0x3F800000 < ix" "ix \<noteq> 0x3F800000" "\<not> ix < 0x32000000" by (auto simp: word_less_nat_alt word_le_nat_alt)
    moreover have "same_float (divsf3 (asin_p (mulsf3 (negsf2 x) (negsf2 x))) (asin_q (mulsf3 (negsf2 x) (negsf2 x))))
        (divsf3 (asin_p (mulsf3 x x)) (asin_q (mulsf3 x x)))" by (intro div_cong asin_poly_cong mul_neg_neg)
    ultimately show ?thesis using 4 asin_small_neg by (simp add: f)
  next
    case 5
    then have "mag x \<noteq> 0" "\<not> 0x3F800000 < ix" "ix \<noteq> 0x3F800000" "\<not> ix < 0x3F000000" using n by (auto simp: word_less_nat_alt word_le_nat_alt)
    then show ?thesis by (simp add: f sint_pos same_value_def)
  qed
qed

text \<open>
  C26. \<^verbatim>\<open>asinf\<close> and \<^verbatim>\<open>acosf\<close> return for all arguments. \<^verbatim>\<open>asinf\<close> is odd, up to the sign of a zero. Outside of [-1, 1] the results are not
  numbers; at the ends of the interval they are the numbers nearest to the multiples of \<open>\<pi>/2\<close>; \<^verbatim>\<open>asinf\<close> returns arguments below
  \<open>2\<^sup>-\<^sup>2\<^sup>7\<close> unchanged and \<^verbatim>\<open>acosf\<close> of arguments up to \<open>2\<^sup>-\<^sup>5\<^sup>7\<close> is the number nearest to \<open>\<pi>/2\<close>.
\<close>

theorem asinf_acosf_correct:
  "\<exists>r r' c. asinf x = Some r \<and> asinf (negsf2 x) = Some r' \<and> acosf x = Some c \<and> same_value r' (negsf2 r) \<and>
    (if 0x3F800000 < mag x then is_nan r \<and> is_nan c
     else if mag x = 0x3F800000 then r = with_sign x pi_o_2 \<and> c = (if negative x then pi_f else 0)
     else (if mag x < 0x32000000 then r = x else True) \<and> (if mag x \<le> 0x23000000 then c = pi_o_2 else True))"
proof -
  define ix where "ix = x AND 0x7FFFFFFF"
  have n: "unat ix = mag x" using abs_unat [of x] by (simp add: ix_def fp_consts)
  note f = asinf_def [of x, unfolded Let_def ix_def [symmetric]] acosf_def [of x, unfolded Let_def ix_def [symmetric]]
  have c: "0x3F800000 < ix \<longleftrightarrow> 0x3F800000 < mag x" "ix = 0x3F800000 \<longleftrightarrow> mag x = 0x3F800000" "ix < 0x32000000 \<longleftrightarrow> mag x < 0x32000000"
    "ix \<le> 0x23000000 \<longleftrightarrow> mag x \<le> 0x23000000" "ix < 0x3F000000 \<longleftrightarrow> mag x < 0x3F000000"
    by (auto simp: word_less_nat_alt word_le_nat_alt word_unat_eq_iff n)
  obtain r r' where r: "asinf x = Some r" "asinf (negsf2 x) = Some r'" "same_value r' (negsf2 r)" using asinf_neg by blast
  have "\<exists>c. acosf x = Some c"
    using sqrtf_root [of CRT_FE_TONEAREST "mulsf3 (fadd one_f x) half_f"] sqrtf_root [of CRT_FE_TONEAREST "mulsf3 (fsub one_f x) half_f"]
    by (auto simp: f)
  then obtain k where k: "acosf x = Some k" by blast
  have "is_nan r \<and> is_nan k" if "0x3F800000 < mag x" using that r(1) k math_invalidf_nan [of x] by (auto simp: f c)
  moreover have "r = with_sign x pi_o_2 \<and> k = (if negative x then pi_f else 0)" if "mag x = 0x3F800000"
  proof -
    have "x = (if negative x then negsf2 one_f else one_f)" using that unfolding unit_pattern with_sign_def .
    then have "fadd (mulsf3 x asin_pio2_hi) (mulsf3 x asin_pio2_lo) = with_sign x pi_o_2"
      using asin_consts(1,2) by (auto simp: with_sign_def split: if_splits)
    then show ?thesis using that r(1) k asin_consts(3) by (auto simp: f c sint_pos)
  qed
  moreover have "r = x" if "mag x < 0x32000000" using that r(1) huge_plus [OF that] by (auto simp: f c)
  moreover have "k = pi_o_2" if "mag x \<le> 0x23000000" using that k asin_consts(4) by (auto simp: f c)
  ultimately show ?thesis using r k by auto
qed

end
