(* ===== verification/Libm_Exp.thy ===== *)
theory Libm_Exp
  imports Libm_Log Libm_Asin
begin

text \<open>
  The exponential function, \<^verbatim>\<open>sf_exp.c\<close>: the argument is reduced by a multiple \<open>k\<close> of \<open>ln 2\<close>, the exponential of the rest is a
  quotient of polynomials, and \<open>k\<close> is added to the exponent field of the result. The results are shown to be near those of the real
  function, overflow and underflow included.
\<close>

section \<open>The function\<close>

definition FLT_UWORD_LOG_MAX :: int where "FLT_UWORD_LOG_MAX = 0x42B17217"
definition FLT_UWORD_LOG_MIN :: u32 where "FLT_UWORD_LOG_MIN = 0x42CFF1B5"

definition halF :: "int \<Rightarrow> u32" where "halF s = (if s = 0 then 0x3F000000 else 0xBF000000)"
definition ln2HI :: "int \<Rightarrow> u32" where "ln2HI s = (if s = 0 then 0x3F317180 else 0xBF317180)"
definition ln2LO :: "int \<Rightarrow> u32" where "ln2LO s = (if s = 0 then 0x3717F7D1 else 0xB717F7D1)"
definition invln2 :: u32 where "invln2 = 0x3FB8AA3B"
definition P1 :: u32 where "P1 = 0x3E2AAAAB"
definition P2 :: u32 where "P2 = 0xBB360B61"
definition P3 :: u32 where "P3 = 0x388AB355"
definition P4 :: u32 where "P4 = 0xB5DDEA0E"
definition P5 :: u32 where "P5 = 0x3331BB4C"
definition twom100 :: u32 where "twom100 = 0x0D800000"

text \<open>The reduction of an argument above half of \<open>ln 2\<close>: the upper and lower part of the rest and the multiple.\<close>

definition exp_reduce :: "u32 \<Rightarrow> u32 \<Rightarrow> int \<Rightarrow> u32 \<times> u32 \<times> int" where
  "exp_reduce x hx xsb =
    (if hx < 0x3F851592 then (fsub x (ln2HI xsb), ln2LO xsb, 1 - xsb - xsb)
     else let k = fixsfsi (fadd (mulsf3 invln2 x) (halF xsb));
              t = floatsisf k
          in (fsub x (mulsf3 t (ln2HI 0)), mulsf3 t (ln2LO 0), sint k))"

definition exp_poly :: "u32 \<Rightarrow> u32" where
  "exp_poly x =
    (let t = mulsf3 x x
     in fsub x (mulsf3 t (fadd P1 (mulsf3 t (fadd P2 (mulsf3 t (fadd P3 (mulsf3 t (fadd P4 (mulsf3 t P5))))))))))"

definition exp_small :: "u32 \<Rightarrow> u32" where
  "exp_small x = (let c = exp_poly x in fsub one_f (fsub (divsf3 (mulsf3 x c) (fsub c two_f)) x))"

definition exp_scaled :: "u32 \<Rightarrow> u32 \<Rightarrow> u32 \<Rightarrow> int \<Rightarrow> u32" where
  "exp_scaled x hi lo k =
    (let c = exp_poly x;
         y = fsub one_f (fsub (fsub lo (divsf3 (mulsf3 x c) (fsub two_f c))) hi);
         hy = y
     in if k \<ge> - 125 then hy + push_bit 23 (word_of_int k)
        else mulsf3 (hy + push_bit 23 (word_of_int (k + 100))) twom100)"

definition expf :: "u32 \<Rightarrow> u32" where
  "expf x =
    (let sx = x; xsb = sint sx div 2 ^ 31 AND 1; hx = sx AND 0x7FFFFFFF
     in if FLT_UWORD_IS_NAN hx then fadd x x
        else if FLT_UWORD_IS_INFINITE hx then (if xsb = 0 then x else 0)
        else if sint sx > FLT_UWORD_LOG_MAX then math_oflowf False
        else if sint sx < 0 \<and> hx > FLT_UWORD_LOG_MIN then math_uflowf False
        else if hx > 0x3EB17218
        then let (hi, lo, k) = exp_reduce x hx xsb; x = fsub hi lo
             in if k = 0 then exp_small x else exp_scaled x hi lo k
        else if hx < 0x34000000 \<and> gesf2 (fadd huge x) one_f > 0 then fadd one_f x
        else exp_small x)"

section \<open>The quotient\<close>

lemma exp_consts:
  "appr P1 (1 / 6) (1 / 2 ^ 27)" "appr P2 (- 1 / 360) (1 / 2 ^ 33)" "appr P3 (1 / 15120) (1 / 2 ^ 36)" "appr P4 0 (1 / 2 ^ 19)" "appr P5 0 (1 / 2 ^ 24)"
  by (simp_all add: appr_def const_eval P1_def P2_def P3_def P4_def P5_def)

lemma exp_poly_appr:
  assumes x: "is_finite x" "\<bar>rval x\<bar> \<le> 36 / 100"
  defines "X \<equiv> rval x"
  shows "appr (exp_poly x) (X - exp_even (X * X)) (1 / 2 ^ 25)"
proof -
  define w where "w = X * X"
  have Xb: "\<bar>X\<bar> \<le> 36 / 100" using x(2) by (simp add: X_def)
  have w: "\<bar>w\<bar> \<le> 13 / 100" using mult_mono [OF Xb Xb] by (simp add: w_def abs_mult)
  have a: "appr x X 0" unfolding X_def by (rule appr_exact [OF x(1)])
  define t where "t = mulsf3 x x"
  have t: "appr t w (1 / 2 ^ 27)" unfolding w_def t_def by (rule appr_mul [OF a a Xb Xb, where B = "1 / 4"]) simp_all
  have p4: "appr (fadd P4 (mulsf3 t P5)) (0 + w * 0) (1 / 2 ^ 18)"
    by (rule horner_step [OF exp_consts(4) t exp_consts(5) w, where X = 0 and Y = 0 and B = "1 / 1024" and D = "1 / 1024" and h = "1 / 2 ^ 25"]) simp_all
  have p3: "appr (fadd P3 (mulsf3 t (fadd P4 (mulsf3 t P5)))) (1 / 15120 + w * (0 + w * 0)) (1 / 2 ^ 20)"
    by (rule horner_step [OF exp_consts(3) t p4 w, where X = "1 / 15120" and Y = 0 and B = "1 / 1024" and D = "1 / 1024" and h = "1 / 2 ^ 20 - 1 / 2 ^ 24"])
      simp_all
  then have p3: "appr (fadd P3 (mulsf3 t (fadd P4 (mulsf3 t P5)))) (1 / 15120) (1 / 2 ^ 20)" by simp
  have p2: "appr (fadd P2 (mulsf3 t (fadd P3 (mulsf3 t (fadd P4 (mulsf3 t P5)))))) (- 1 / 360 + w * (1 / 15120)) (1 / 2 ^ 22)"
    by (rule horner_step [OF exp_consts(2) t p3 w, where X = "1 / 360" and Y = "1 / 15120" and B = "1 / 1024" and D = "1 / 64" and h = "1 / 2 ^ 22 - 1 / 2 ^ 26"])
      simp_all
  have b2: "\<bar>- 1 / 360 + w * (1 / 15120)\<bar> \<le> 1 / 300" by (rule poly_bound [OF _ w, where X = "1 / 360" and Y = "1 / 15120"]) simp_all
  have p1: "appr (fadd P1 (mulsf3 t (fadd P2 (mulsf3 t (fadd P3 (mulsf3 t (fadd P4 (mulsf3 t P5)))))))) (1 / 6 + w * (- 1 / 360 + w * (1 / 15120))) (1 / 2 ^ 24)"
    by (rule horner_step [OF exp_consts(1) t p2 w b2, where X = "1 / 6" and B = "1 / 1024" and D = "1 / 4" and h = "1 / 2 ^ 24 - 1 / 2 ^ 26"])
      simp_all
  have b1: "\<bar>1 / 6 + w * (- 1 / 360 + w * (1 / 15120))\<bar> \<le> 17 / 100" by (rule poly_bound [OF _ w b2, where X = "1 / 6"]) simp_all
  have "appr (mulsf3 t (fadd P1 (mulsf3 t (fadd P2 (mulsf3 t (fadd P3 (mulsf3 t (fadd P4 (mulsf3 t P5))))))))) (exp_even w) (1 / 2 ^ 26)"
    unfolding exp_even_def by (rule appr_mul [OF t p1 w b1, where B = "1 / 32"]) simp_all
  then show ?thesis unfolding exp_poly_def Let_def t_def [symmetric] w_def [symmetric]
  proof (rule appr_sub [OF a, where B = "1 / 2"])
    have "0 \<le> exp_even w" "exp_even w \<le> 22 / 1000" unfolding w_def by (rule exp_even_bounds [OF Xb])+
    then have "\<bar>X - exp_even w\<bar> \<le> 382 / 1000" using Xb by linarith
    then show "\<bar>X - exp_even w\<bar> + (0 + 1 / 2 ^ 26) < 1 / 2" by simp
  qed simp_all
qed

lemma exp_quotient_appr:
  assumes x: "is_finite x" "\<bar>rval x\<bar> \<le> 36 / 100"
  defines "X \<equiv> rval x"
  defines "c \<equiv> exp_poly x"
  obtains G where "\<bar>G\<bar> \<le> 86 / 1000" and "\<bar>1 + X + G - exp X\<bar> \<le> 1 / 2 ^ 29"
    and "appr (divsf3 (mulsf3 x c) (fsub two_f c)) G (1 / 2 ^ 25)" and "appr (divsf3 (mulsf3 x c) (fsub c two_f)) (- G) (1 / 2 ^ 25)"
proof -
  have Xb: "\<bar>X\<bar> \<le> 36 / 100" using x(2) by (simp add: X_def)
  define E C where "E = exp_even (X * X)" and "C = X - E"
  have E: "0 \<le> E" "E \<le> 22 / 1000" unfolding E_def by (rule exp_even_bounds [OF Xb])+
  have C: "\<bar>C\<bar> \<le> 382 / 1000" "C \<le> 36 / 100" using E Xb unfolding C_def by linarith+
  have a: "appr x X 0" unfolding X_def by (rule appr_exact [OF x(1)])
  have c: "appr c C (1 / 2 ^ 25)" unfolding c_def C_def E_def X_def by (rule exp_poly_appr [OF x])
  have xc: "appr (mulsf3 x c) (X * C) (3 / 2 ^ 27)" by (rule appr_mul [OF a c Xb C(1), where B = "1 / 4"]) simp_all
  have XC: "\<bar>X * C\<bar> \<le> 138 / 1000" using mult_mono [OF Xb C(1)] by (simp add: abs_mult)
  define G where "G = X * C / (2 - C)"
  have Gb: "\<bar>G\<bar> \<le> 86 / 1000"
  proof -
    have "\<bar>X * C\<bar> / \<bar>2 - C\<bar> \<le> 138 / 1000 / (164 / 100)" using XC C(2) by (intro frac_le) simp_all
    then show ?thesis by (simp add: G_def abs_divide)
  qed
  have "\<bar>2 - C\<bar> \<le> 2382 / 1000" "\<bar>C - 2\<bar> \<le> 2382 / 1000" using C(1) by linarith+
  then have d: "appr (fsub two_f c) (2 - C) (5 / 2 ^ 25)" "appr (fsub c two_f) (C - 2) (5 / 2 ^ 25)"
    using appr_sub [OF log_consts(8) c, where B = 4 and g = "5 / 2 ^ 25"] appr_sub [OF c log_consts(8), where B = 4 and g = "5 / 2 ^ 25"] by simp_all
  have q: "appr (divsf3 (mulsf3 x c) (fsub two_f c)) G (1 / 2 ^ 25)" unfolding G_def
    by (rule appr_div [OF xc d(1) Gb [unfolded G_def], where c = "16 / 10" and B = "1 / 8"]) (use C in simp_all)
  have n: "X * C / (C - 2) = - G" using minus_divide_right [of "X * C" "2 - C"] by (simp add: G_def)
  have q': "appr (divsf3 (mulsf3 x c) (fsub c two_f)) (X * C / (C - 2)) (1 / 2 ^ 25)"
    by (rule appr_div [OF xc d(2), where c = "16 / 10" and B = "1 / 8" and Q = "86 / 1000"]) (use C Gb n in simp_all)
  have "1 + X + G = (2 + X + E) / (2 - X + E)"
  proof -
    have "2 - C \<noteq> 0" using C(2) by simp
    then have "1 + X + G = ((1 + X) * (2 - C) + X * C) / (2 - C)" by (simp add: G_def field_simps)
    also have "(1 + X) * (2 - C) + X * C = 2 + X + E" by (simp add: C_def algebra_simps)
    also have "2 - C = 2 - X + E" by (simp add: C_def)
    finally show ?thesis .
  qed
  then have "\<bar>1 + X + G - exp X\<bar> \<le> 1 / 2 ^ 29" using exp_quotient [OF Xb] by (simp add: E_def)
  then show ?thesis using that [OF Gb _ q] q' unfolding n by blast
qed

lemma exp_small_appr:
  assumes x: "is_finite x" "\<bar>rval x\<bar> \<le> 36 / 100"
  shows "appr (exp_small x) (exp (rval x)) (15 / 2 ^ 27)"
proof -
  define X c where "X = rval x" and "c = exp_poly x"
  obtain G where G: "\<bar>G\<bar> \<le> 86 / 1000" "\<bar>1 + X + G - exp X\<bar> \<le> 1 / 2 ^ 29" "appr (divsf3 (mulsf3 x c) (fsub c two_f)) (- G) (1 / 2 ^ 25)"
    using exp_quotient_appr [OF x, folded X_def c_def] by metis
  have a: "appr x X 0" unfolding X_def by (rule appr_exact [OF x(1)])
  have b: "\<bar>- G - X\<bar> \<le> 446 / 1000" "\<bar>1 - (- G - X)\<bar> \<le> 1446 / 1000" using G(1) x(2) unfolding X_def by linarith+
  have "appr (fsub (divsf3 (mulsf3 x c) (fsub c two_f)) x) (- G - X) (6 / 2 ^ 27)" by (rule appr_sub [OF G(3) a, where B = "1 / 2"]) (use b in simp_all)
  then have y: "appr (exp_small x) (1 - (- G - X)) (14 / 2 ^ 27)" unfolding exp_small_def Let_def c_def [symmetric]
    by (rule appr_sub [OF trig_consts(7), where B = 2]) (use b in simp_all)
  have "\<bar>1 - (- G - X) - exp X\<bar> \<le> 1 / 2 ^ 29" using G(2) by linarith
  from appr_shift [OF y this] show ?thesis unfolding X_def by (rule appr_mono) simp
qed

lemma exp_scaled_appr:
  assumes hi: "is_finite hi" "\<bar>rval hi\<bar> \<le> 36 / 100" and lo: "is_finite lo" "\<bar>rval lo\<bar> \<le> 15 / 10000"
    and x: "is_finite x" "\<bar>rval x\<bar> \<le> 36 / 100" and r: "\<bar>rval x - (rval hi - rval lo)\<bar> \<le> 2 / 2 ^ 27"
  shows "appr (fsub one_f (fsub (fsub lo (divsf3 (mulsf3 x (exp_poly x)) (fsub two_f (exp_poly x)))) hi)) (exp (rval x)) (17 / 2 ^ 27)"
proof -
  define X c H L where "X = rval x" and "c = exp_poly x" and "H = rval hi" and "L = rval lo"
  obtain G where G: "\<bar>G\<bar> \<le> 86 / 1000" "\<bar>1 + X + G - exp X\<bar> \<le> 1 / 2 ^ 29" "appr (divsf3 (mulsf3 x c) (fsub two_f c)) G (1 / 2 ^ 25)"
    using exp_quotient_appr [OF x, folded X_def c_def] by metis
  have a: "appr hi H 0" "appr lo L 0" unfolding H_def L_def by (rule appr_exact [OF hi(1)] appr_exact [OF lo(1)])+
  have b: "\<bar>L - G\<bar> \<le> 88 / 1000" "\<bar>L - G - H\<bar> \<le> 448 / 1000" "\<bar>1 - (L - G - H)\<bar> \<le> 1448 / 1000"
    using G(1) hi(2) lo(2) unfolding H_def L_def by linarith+
  define q where "q = divsf3 (mulsf3 x c) (fsub two_f c)"
  have "appr (fsub lo q) (L - G) (9 / 2 ^ 28)" unfolding q_def by (rule appr_sub [OF a(2) G(3), where B = "1 / 8"]) (use b in simp_all)
  then have "appr (fsub (fsub lo q) hi) (L - G - H) (13 / 2 ^ 28)" by (rule appr_sub [OF _ a(1), where B = "1 / 2"]) (use b in simp_all)
  then have y: "appr (fsub one_f (fsub (fsub lo q) hi)) (1 - (L - G - H)) (29 / 2 ^ 28)"
    by (rule appr_sub [OF trig_consts(7), where B = 2]) (use b in simp_all)
  have "\<bar>1 - (L - G - H) - exp X\<bar> \<le> 1 / 2 ^ 29 + 2 / 2 ^ 27" using G(2) r unfolding X_def [symmetric] H_def [symmetric] L_def [symmetric] by linarith
  from appr_shift [OF y this] show ?thesis unfolding q_def c_def X_def by (rule appr_mono) simp
qed

lemma exp_shift:
  fixes a b d :: real
  assumes "\<bar>a - b\<bar> \<le> 5 / 2 ^ 27" and "\<bar>b\<bar> \<le> 35 / 100" and "\<bar>y - exp a\<bar> \<le> 17 / 2 ^ 27"
  shows "\<bar>y - exp b\<bar> \<le> exp b / 2 ^ 22"
proof -
  define e where "e = exp b"
  have "1 + b \<le> e" unfolding e_def by (rule exp_ge_add_one_self)
  then have e: "65 / 100 \<le> e" using assms(2) by (simp add: abs_le_iff)
  have "\<bar>exp (a - b) - 1\<bar> \<le> 51 / 10 / 2 ^ 27"
  proof -
    define u v where "u = exp (a - b)" and "v = exp (5 / 2 ^ 27 :: real)"
    have "1 + (a - b) \<le> u" unfolding u_def by (rule exp_ge_add_one_self)
    moreover have "u \<le> v" unfolding u_def v_def exp_le_cancel_iff using assms(1) by (rule order_trans [OF abs_ge_self])
    moreover have "v \<le> 1 + 5 / 2 ^ 27 + (5 / 2 ^ 27)\<^sup>2" unfolding v_def by (rule exp_bound) simp_all
    ultimately show ?thesis using assms(1) unfolding u_def [symmetric] abs_le_iff by (simp add: power_divide)
  qed
  then have "e * \<bar>exp (a - b) - 1\<bar> \<le> e * (51 / 10 / 2 ^ 27)" using e by (intro mult_left_mono) simp_all
  moreover have "exp a = e * exp (a - b)" by (simp add: e_def flip: exp_add)
  then have "exp a - e = e * (exp (a - b) - 1)" by (simp add: right_diff_distrib)
  then have "\<bar>exp a - e\<bar> = e * \<bar>exp (a - b) - 1\<bar>" using e by (simp add: abs_mult)
  ultimately have "\<bar>exp a - e\<bar> \<le> e * (51 / 10 / 2 ^ 27)" by simp
  then have "\<bar>y - e\<bar> \<le> 17 / 2 ^ 27 + e * (51 / 10 / 2 ^ 27)" using assms(3) by linarith
  also have "\<dots> \<le> e / 2 ^ 22" using e by simp
  finally show ?thesis by (simp only: e_def)
qed

section \<open>The reduction of the argument\<close>

lemma exp_rest:
  assumes x: "is_finite x" and k: "\<bar>k\<bar> \<le> 151" and r: "\<bar>rval x - of_int k * ln 2\<bar> \<le> 347 / 1000"
    and A: "is_finite A" "rval A = of_int k * (90851 / 2 ^ 17)" and lo: "appr lo (of_int k * (9959377 / 2 ^ 40)) (1 / 2 ^ 31)"
  defines "hi \<equiv> fsub x A"
  defines "y \<equiv> fsub hi lo"
  shows "is_finite hi" and "\<bar>rval hi\<bar> \<le> 36 / 100" and "\<bar>rval lo\<bar> \<le> 15 / 10000" and "is_finite y" and "\<bar>rval y\<bar> \<le> 36 / 100"
    and "\<bar>rval y - (rval hi - rval lo)\<bar> \<le> 2 / 2 ^ 27" and "\<bar>rval y - (rval x - of_int k * ln 2)\<bar> \<le> 5 / 2 ^ 27"
proof -
  define X K M D where "X = rval x" and "K = real_of_int k" and "M = K * ln 2" and "D = K * (9959377 / 2 ^ 40)"
  have K: "\<bar>K\<bar> \<le> 151" using k by (simp add: K_def)
  have D: "\<bar>D\<bar> \<le> 138 / 100000" using K by (simp add: D_def abs_mult)
  have M: "\<bar>rval A + D - M\<bar> \<le> \<bar>K\<bar> * (2 / 10 ^ 11)"
  proof -
    have "rval A + D - M = K * (90851 / 2 ^ 17 + 9959377 / 2 ^ 40 - ln 2)" by (simp add: A K_def M_def D_def algebra_simps)
    moreover have "\<bar>90851 / 2 ^ 17 + 9959377 / 2 ^ 40 - ln (2 :: real)\<bar> \<le> 2 / 10 ^ 11" using ln_2_bounds unfolding abs_le_iff by simp
    ultimately show ?thesis using mult_left_mono [of "\<bar>90851 / 2 ^ 17 + 9959377 / 2 ^ 40 - ln (2 :: real)\<bar>" "2 / 10 ^ 11" "\<bar>K\<bar>"]
      by (simp only: abs_mult abs_ge_zero)
  qed
  then have M: "\<bar>rval A + D - M\<bar> \<le> 4 / 10 ^ 9" using K by simp
  have r: "\<bar>X - M\<bar> \<le> 347 / 1000" using r by (simp add: X_def M_def K_def)
  have lo': "is_finite lo" "\<bar>rval lo - D\<bar> \<le> 1 / 2 ^ 31" using lo by (simp_all add: appr_def D_def K_def)
  then show l: "\<bar>rval lo\<bar> \<le> 15 / 10000" using D unfolding abs_le_iff by simp
  have nh: "near (X - rval A) hi" unfolding X_def hi_def by (rule near_sub [OF x A(1)])
  have hb: "\<bar>X - rval A\<bar> \<le> 349 / 1000" using r M D unfolding abs_le_iff by simp
  show fh: "is_finite hi" using hb by (intro near_finite [OF nh]) simp
  have eh: "\<bar>rval hi - (X - rval A)\<bar> \<le> 1 / 2 / 2 ^ 25" using hb by (intro near_error_binade [OF nh fh]) simp_all
  show h: "\<bar>rval hi\<bar> \<le> 36 / 100" using eh hb unfolding abs_le_iff by simp
  have ny: "near (rval hi - rval lo) y" unfolding y_def by (rule near_sub [OF fh lo'(1)])
  have yb: "\<bar>rval hi - rval lo\<bar> \<le> 351 / 1000" using eh hb l unfolding abs_le_iff by simp
  show fy: "is_finite y" using yb by (intro near_finite [OF ny]) simp
  have ey: "\<bar>rval y - (rval hi - rval lo)\<bar> \<le> 1 / 2 / 2 ^ 25" using yb by (intro near_error_binade [OF ny fy]) simp_all
  then show "\<bar>rval y - (rval hi - rval lo)\<bar> \<le> 2 / 2 ^ 27" by simp
  show "\<bar>rval y\<bar> \<le> 36 / 100" using ey yb unfolding abs_le_iff by simp
  have "\<bar>rval y - (X - M)\<bar> \<le> 5 / 2 ^ 27" using ey eh lo'(2) M unfolding abs_le_iff by simp
  then show "\<bar>rval y - (rval x - of_int k * ln 2)\<bar> \<le> 5 / 2 ^ 27" by (simp only: X_def M_def K_def)
qed

lemma multiple_exact:
  assumes "\<bar>k\<bar> \<le> 151"
  shows "is_finite (mulsf3 (floatsisf (word_of_int k)) (ln2HI 0)) \<and> rval (mulsf3 (floatsisf (word_of_int k)) (ln2HI 0)) = of_int k * (90851 / 2 ^ 17)"
proof -
  have c: "is_finite (ln2HI 0)" "rval (ln2HI 0) = 90851 / 2 ^ 17" by (simp_all add: const_eval ln2HI_def)
  have n: "near (of_int k * (90851 / 2 ^ 17)) (mulsf3 (floatsisf (word_of_int k)) (ln2HI 0))"
    using near_mul [of "floatsisf (word_of_int k)" "ln2HI 0"] floatsisf_int [of k] assms c by simp
  have "nat \<bar>k\<bar> * 90851 < 2 ^ 24" using assms by simp
  then obtain m where "m < inf_mag" "mval m = nat \<bar>k\<bar> * 90851 * 2 ^ 132" by (rule representable_scaled [of "nat \<bar>k\<bar> * 90851" 132]) simp_all
  then show ?thesis using near_exact [OF n, of m] by (simp add: scale_def abs_mult)
qed

lemma rval_mag_le: "mag x \<le> n \<Longrightarrow> \<bar>rval x\<bar> \<le> real (mval n) / scale"
  unfolding rval_abs by (intro divide_right_mono) (simp_all add: scale_def)

lemma rval_mag_ge: "n \<le> mag x \<Longrightarrow> real (mval n) / scale \<le> \<bar>rval x\<bar>"
  unfolding rval_abs by (intro divide_right_mono) (simp_all add: scale_def)

lemma fix_value:
  assumes "is_finite v" and "\<bar>rval v\<bar> < 2 ^ 30"
  shows "\<bar>of_int (sint (fixsfsi v))\<bar> \<le> \<bar>rval v\<bar>" and "\<bar>rval v\<bar> < \<bar>of_int (sint (fixsfsi v))\<bar> + 1"
    and "negative v \<Longrightarrow> sint (fixsfsi v) \<le> 0" and "\<not> negative v \<Longrightarrow> 0 \<le> sint (fixsfsi v)"
proof -
  define T where "T = trunc_mag (mag v)"
  have t: "real T \<le> \<bar>rval v\<bar>" "\<bar>rval v\<bar> < real T + 1"
  proof -
    define a where "a = v AND absMask"
    have a: "mag a = mag v" "\<not> negative a" by (simp_all add: a_def mag_of_abs)
    then have "rval a = \<bar>rval v\<bar>" by (simp add: rval_abs) (simp add: rval_def fval_def)
    then show "real T \<le> \<bar>rval v\<bar>" "\<bar>rval v\<bar> < real T + 1" using trunc_bounds [OF a(2)] by (simp_all add: T_def a(1))
  qed
  then have "real T < real (2 ^ 30)" using assms(2) by simp
  then have T: "T < 2 ^ 30" by (simp only: of_nat_less_iff)
  then have f: "fixsfsi v = (if negative v then word_of_int (- int T) else word_of_int (int T))" using int_of_float_trunc [of v] by (simp add: T_def)
  have w: "sint (word_of_int n :: u32) = n" if "\<bar>n\<bar> < 2 ^ 30" for n using that by (simp add: signed_of_int signed_take_bit_int_eq_self)
  have "\<bar>- int T\<bar> < 2 ^ 30" "\<bar>int T\<bar> < 2 ^ 30" using T by simp_all
  note w [OF this(1)] w [OF this(2)]
  then have s: "sint (fixsfsi v) = (if negative v then - int T else int T)" by (simp only: f if_distrib [of sint])
  show "\<bar>of_int (sint (fixsfsi v))\<bar> \<le> \<bar>rval v\<bar>" "\<bar>rval v\<bar> < \<bar>of_int (sint (fixsfsi v))\<bar> + 1"
    "negative v \<Longrightarrow> sint (fixsfsi v) \<le> 0" "\<not> negative v \<Longrightarrow> 0 \<le> sint (fixsfsi v)"
    unfolding s using t by auto
qed

lemma exp_multiple:
  fixes x :: u32
  assumes x: "is_finite x" "103 / 100 \<le> \<bar>rval x\<bar>" "\<bar>rval x\<bar> \<le> 104"
  defines "k \<equiv> sint (fixsfsi (fadd (mulsf3 invln2 x) (halF (if negative x then 1 else 0))))"
  shows "\<bar>of_int k - rval x * (12102203 / 2 ^ 23)\<bar> \<le> 1 / 2 + 1 / 2 ^ 16" and "\<bar>k\<bar> \<le> 151"
proof -
  define P where "P = rval x * (12102203 / 2 ^ 23)"
  define m v where "m = mulsf3 invln2 x" and "v = fadd m (halF (if negative x then 1 else 0))"
  have c: "is_finite invln2" "rval invln2 = 12102203 / 2 ^ 23" by (simp_all add: const_eval invln2_def)
  have h: "is_finite (halF s)" "rval (halF s) = (if s = 0 then 1 / 2 else - 1 / 2)" for s by (simp_all add: const_eval halF_def)
  define H where "H = (if negative x then - 1 / 2 else 1 / 2 :: real)"
  have sx: "negative x \<longleftrightarrow> rval x < 0" using rval_abs(2) [of x] x(2) rval_eq_0 [of x] by auto
  have P: "\<bar>P\<bar> \<le> 1501 / 10" "14 / 10 \<le> \<bar>P\<bar>" "P < 0 \<longleftrightarrow> negative x" using x(2,3) by (simp_all add: P_def abs_mult sx mult_less_0_iff)
  have nm: "near P m" using near_mul [OF c(1) x(1)] by (simp add: c(2) P_def m_def mult.commute)
  have fm: "is_finite m" using P by (intro near_finite [OF nm]) simp
  have em: "\<bar>rval m - P\<bar> \<le> 256 / 2 ^ 25" using P by (intro near_error_binade [OF nm fm]) simp_all
  have nv: "near (rval m + H) v" using near_add [OF fm h(1), of "if negative x then 1 else 0"]
    by (cases "negative x") (simp_all add: h(2) v_def H_def)
  have b: "\<bar>rval m + H\<bar> \<le> 151" using em P(1) unfolding abs_le_iff H_def by auto
  have fv: "is_finite v" using b by (intro near_finite [OF nv]) simp
  have ev: "\<bar>rval v - (rval m + H)\<bar> \<le> 256 / 2 ^ 25" using b by (intro near_error_binade [OF nv fv]) simp_all
  have e: "\<bar>rval v - (P + H)\<bar> \<le> 1 / 2 ^ 16" using em ev unfolding abs_le_iff by simp
  have vb: "\<bar>rval v\<bar> < 152" using ev b unfolding abs_le_iff abs_less_iff by simp
  have sv: "negative v \<longleftrightarrow> negative x"
  proof -
    have "rval v < 0 \<longleftrightarrow> negative x" "rval v \<noteq> 0" using e P unfolding H_def abs_le_iff by (auto split: if_splits)
    then show ?thesis using rval_abs(2) [of v] rval_eq_0 [of v] by auto
  qed
  have kk: "k = sint (fixsfsi v)" by (simp add: k_def v_def m_def)
  have t: "\<bar>real_of_int k\<bar> \<le> \<bar>rval v\<bar>" "\<bar>rval v\<bar> < \<bar>real_of_int k\<bar> + 1" "negative v \<Longrightarrow> k \<le> 0" "\<not> negative v \<Longrightarrow> 0 \<le> k"
    using fix_value [OF fv, folded kk] vb by simp_all
  show "\<bar>k\<bar> \<le> 151" using t(1) vb by linarith
  have "rval v < 0 \<longleftrightarrow> negative v" using e P unfolding H_def abs_le_iff sv by (auto split: if_splits)
  then have "\<bar>real_of_int k - P\<bar> \<le> 1 / 2 + 1 / 2 ^ 16"
    using t e unfolding sv H_def by (cases "negative x") (simp_all add: abs_le_iff abs_if split: if_splits)
  then show "\<bar>of_int k - rval x * (12102203 / 2 ^ 23)\<bar> \<le> 1 / 2 + 1 / 2 ^ 16" by (simp only: P_def)
qed

lemma exp_reduce_spec:
  fixes x :: u32
  assumes x: "is_finite x" "0x3EB17218 < mag x" "mag x \<le> (if negative x then 0x42CFF1B5 else 0x42B17217)"
  obtains A lo k where "exp_reduce x (x AND 0x7FFFFFFF) (if negative x then 1 else 0) = (fsub x A, lo, k)"
    and "\<bar>k\<bar> \<le> 151" and "k \<noteq> 0" and "\<bar>rval x - of_int k * ln 2\<bar> \<le> 347 / 1000"
    and "is_finite A" and "rval A = of_int k * (90851 / 2 ^ 17)" and "appr lo (of_int k * (9959377 / 2 ^ 40)) (1 / 2 ^ 31)"
proof -
  define X where "X = rval x"
  define s :: int where "s = (if negative x then 1 else 0)"
  have hx: "unat (x AND 0x7FFFFFFF) = mag x" using abs_unat [of x] by (simp add: fp_consts)
  have sx: "negative x \<longleftrightarrow> X < 0" using rval_abs(2) [of x] x(2) by (simp add: X_def)
  show ?thesis
  proof (cases "mag x < 0x3F851592")
    case True
    define k :: int where "k = 1 - s - s"
    have "\<bar>X\<bar> \<le> real (mval 0x3F851592) / scale" "real (mval 0x3EB17218) / scale \<le> \<bar>X\<bar>"
      unfolding X_def using True x(2) by (intro rval_mag_le rval_mag_ge; simp)+
    then have b: "\<bar>X\<bar> \<le> 10398 / 10000" "3465 / 10000 \<le> \<bar>X\<bar>" by (simp_all add: mval_def scale_def)
    have "6931 / 10000 \<le> ln (2 :: real)" "ln (2 :: real) \<le> 6932 / 10000" using ln_2_bounds by simp_all
    then have "\<bar>X - (if X < 0 then - ln 2 else ln 2)\<bar> \<le> 347 / 1000" using b by (auto simp: abs_if split: if_splits)
    then have "\<bar>X - of_int k * ln 2\<bar> \<le> 347 / 1000" by (cases "X < 0") (simp_all add: k_def s_def sx)
    moreover have "is_finite (ln2HI s)" "rval (ln2HI s) = of_int k * (90851 / 2 ^ 17)" "appr (ln2LO s) (of_int k * (9959377 / 2 ^ 40)) (1 / 2 ^ 31)"
      by (simp_all add: appr_def const_eval ln2HI_def ln2LO_def k_def s_def)
    moreover have "exp_reduce x (x AND 0x7FFFFFFF) s = (fsub x (ln2HI s), ln2LO s, k)" using True hx by (simp add: exp_reduce_def k_def word_less_nat_alt)
    ultimately show ?thesis by (intro that [of "ln2HI s" "ln2LO s" k]) (simp_all add: s_def k_def X_def)
  next
    case False
    define v where "v = fixsfsi (fadd (mulsf3 invln2 x) (halF s))"
    define k where "k = sint v"
    have "\<bar>X\<bar> \<le> real (mval 0x42CFF1B5) / scale" "real (mval 0x3F851592) / scale \<le> \<bar>X\<bar>"
      unfolding X_def using False x(3) by (intro rval_mag_le rval_mag_ge; simp split: if_splits)+
    then have b: "\<bar>X\<bar> \<le> 104" "103 / 100 \<le> \<bar>X\<bar>" by (simp_all add: mval_def scale_def)
    note m = exp_multiple [OF x(1), folded X_def s_def, OF b(2,1), folded v_def, folded k_def]
    have w: "v = word_of_int k" by (simp add: k_def)
    have r: "\<bar>X - of_int k * ln 2\<bar> \<le> 347 / 1000"
    proof -
      define q :: real where "q = 12102203 / 2 ^ 23"
      have "X - of_int k * ln 2 = X * (1 - q * ln 2) - (of_int k - X * q) * ln 2" by (simp add: algebra_simps)
      moreover have "\<bar>X * (1 - q * ln 2)\<bar> \<le> 104 * (1 / 10 ^ 7)"
        unfolding abs_mult using b(1) ln_2_bounds by (intro mult_mono) (simp_all add: q_def abs_le_iff)
      moreover have "\<bar>(of_int k - X * q) * ln 2\<bar> \<le> (1 / 2 + 1 / 2 ^ 16) * (69315 / 100000)"
        unfolding abs_mult using m(1) [folded q_def] ln_2_bounds by (intro mult_mono) simp_all
      ultimately have "\<bar>X - of_int k * ln 2\<bar> \<le> 104 * (1 / 10 ^ 7) + (1 / 2 + 1 / 2 ^ 16) * (69315 / 100000)" by linarith
      then show ?thesis by simp
    qed
    have "k \<noteq> 0" using r b(2) by auto
    moreover have "mulsf3 (floatsisf v) (ln2LO 0) = mulsf3 (floatsisf (word_of_int k)) ln2_lo" by (simp add: w ln2LO_def ln2_lo_def)
    moreover have "exp_reduce x (x AND 0x7FFFFFFF) s = (fsub x (mulsf3 (floatsisf v) (ln2HI 0)), mulsf3 (floatsisf v) (ln2LO 0), k)"
      using False hx by (simp add: exp_reduce_def Let_def k_def v_def word_less_nat_alt)
    ultimately show ?thesis using multiple_exact [OF m(2)] log_low_part(1) [OF m(2)] m(2) r
      by (intro that [of "mulsf3 (floatsisf v) (ln2HI 0)" "mulsf3 (floatsisf v) (ln2LO 0)" k]) (simp_all add: s_def X_def w)
  qed
qed

section \<open>Scaling the result\<close>

lemma exp_ln2_nat: "exp (real n * ln 2) = 2 ^ n"
  by (simp add: exp_of_nat_mult)

lemma add_exponent:
  fixes y :: u32
  assumes y: "\<not> negative y" "1 / 2 \<le> rval y" "rval y < 2" and k: "- 125 \<le> k" "int (mag y) + k * 2 ^ 23 < int inf_mag"
  defines "w \<equiv> y + push_bit 23 (word_of_int k)"
  shows "is_finite w" and "\<not> negative w" and "rval w = rval y * exp (of_int k * ln 2)"
proof -
  have r: "rval z = real (mval (mag z)) / scale" if "\<not> negative z" for z using that by (simp add: rval_def fval_def)
  have m: "126 * 2 ^ 23 \<le> mag y" "mag y < 128 * 2 ^ 23"
  proof -
    have "real (mval (126 * 2 ^ 23)) = 1 / 2 * scale" "real (mval (128 * 2 ^ 23)) = 2 * scale" by (simp_all add: mval_def scale_def)
    then have "real (mval (126 * 2 ^ 23)) \<le> real (mval (mag y))" "real (mval (mag y)) < real (mval (128 * 2 ^ 23))"
      using y(2,3) unfolding r [OF y(1)] by (simp_all add: pos_le_divide_eq pos_divide_less_eq del: mval_le mval_less of_nat_le_iff of_nat_less_iff)
    then show "126 * 2 ^ 23 \<le> mag y" "mag y < 128 * 2 ^ 23" by (simp_all only: of_nat_le_iff of_nat_less_iff mval_le mval_less)
  qed
  define n where "n = nat (int (mag y) + k * 2 ^ 23)"
  have n: "int n = int (mag y) + k * 2 ^ 23" "n < inf_mag" using m k by (simp_all add: n_def nat_less_iff)
  have "y = word_of_int (int (mag y))" using unat_split [of y] y(1) mag_lt [of y] by (simp add: word_unat_eq_iff unat_of_nat)
  then have "w = word_of_int (int (mag y) + k * 2 ^ 23)" unfolding w_def push_bit_eq_mult by simp
  then have "w = of_nat n" by (simp only: n(1) [symmetric] of_int_of_nat_eq)
  then have u: "unat w = n" using n(2) by (simp add: unat_of_nat inf_mag_def)
  then have w: "mag w = n" "\<not> negative w" using mag_small [of w] n(2) by (simp_all add: inf_mag_def)
  then show "is_finite w" "\<not> negative w" using n(2) by (simp_all add: is_finite_def)
  define e f where "e = mag y div 2 ^ 23" and "f = mag y mod 2 ^ 23"
  have e: "126 \<le> e" "mag y = e * 2 ^ 23 + f" "f < 2 ^ 23" using m by (simp_all add: e_def f_def less_eq_div_iff_mult_less_eq)
  define e' where "e' = nat (int e + k)"
  have e': "int e' = int e + k" "1 \<le> e'" using e(1) k(1) by (simp_all add: e'_def)
  have "n = e' * 2 ^ 23 + f"
  proof -
    have "int n = int (e' * 2 ^ 23 + f)" unfolding n(1) e(2) by (simp add: e'(1) algebra_simps)
    then show ?thesis by (simp only: of_nat_eq_iff)
  qed
  then have "mval n = (2 ^ 23 + f) * 2 ^ (e' - 1)" using mval_normal [OF e'(2) e(3)] by simp
  moreover have "mval (mag y) = (2 ^ 23 + f) * 2 ^ (e - 1)" using mval_normal [OF _ e(3), of e] e(1,2) by simp
  moreover have "real (2 ^ (e' - 1)) = real (2 ^ (e - 1)) * exp (of_int k * ln 2)"
  proof -
    have "real (e' - 1) = real (e - 1) + of_int k" using e' e(1) by (simp add: of_nat_diff)
    then have "exp (real (e' - 1) * ln 2) = exp (real (e - 1) * ln 2) * exp (of_int k * ln 2)" by (simp add: distrib_right exp_add)
    then show ?thesis by (simp add: exp_ln2_nat)
  qed
  ultimately show "rval w = rval y * exp (of_int k * ln 2)" unfolding r [OF w(2)] r [OF y(1)] w(1) by simp
qed

lemma exp_scaled_error:
  assumes y: "appr y (exp z) (exp z / 2 ^ 22)" and z: "z = x - of_int k * ln 2" "\<bar>z\<bar> \<le> 347 / 1000"
    and k: "- 150 \<le> k" "k \<le> 128" and x: "x \<le> 11629079 / 2 ^ 17"
  defines "r \<equiv> (if k \<ge> - 125 then y + push_bit 23 (word_of_int k) else mulsf3 (y + push_bit 23 (word_of_int (k + 100))) twom100)"
  shows "is_finite r" and "\<bar>rval r - exp x\<bar> \<le> exp x / 2 ^ 22 + 1 / 2 ^ 150"
proof -
  define e where "e = exp z"
  have e: "65 / 100 \<le> e" "e \<le> 15 / 10"
  proof -
    have "1 + z \<le> e" unfolding e_def by (rule exp_ge_add_one_self)
    then show "65 / 100 \<le> e" using z(2) unfolding abs_le_iff by simp
    have "e \<le> exp (347 / 1000)" using z(2) by (simp add: e_def abs_le_iff)
    also have "\<dots> \<le> 1 + 347 / 1000 + (347 / 1000)\<^sup>2" by (rule exp_bound) simp_all
    finally show "e \<le> 15 / 10" by (simp add: power_divide)
  qed
  have ye: "\<bar>rval y - e\<bar> \<le> e / 2 ^ 22" using y by (simp add: appr_def e_def)
  then have yb: "1 / 2 \<le> rval y" "rval y < 2" using e unfolding abs_le_iff by simp_all
  then have neg: "\<not> negative y" using rval_abs(2) [of y] rval_eq_0 [of y] by auto
  have ex: "exp x = e * exp (of_int k * ln 2)" unfolding e_def z(1) by (simp flip: exp_add)
  have scaled: "\<bar>rval y * exp (of_int k * ln 2) - exp x\<bar> \<le> exp x / 2 ^ 22"
  proof -
    have "rval y * exp (of_int k * ln 2) - exp x = (rval y - e) * exp (of_int k * ln 2)" unfolding ex by (simp add: left_diff_distrib)
    then have "\<bar>rval y * exp (of_int k * ln 2) - exp x\<bar> = \<bar>rval y - e\<bar> * exp (of_int k * ln 2)" by (simp add: abs_mult)
    also have "\<dots> \<le> e / 2 ^ 22 * exp (of_int k * ln 2)" using ye by (intro mult_right_mono) simp_all
    finally show ?thesis by (simp add: ex)
  qed
  have m128: "mag y < 128 * 2 ^ 23"
  proof (rule ccontr)
    assume "\<not> mag y < 128 * 2 ^ 23"
    then have "real (mval (128 * 2 ^ 23)) / scale \<le> \<bar>rval y\<bar>" by (intro rval_mag_ge) simp
    moreover have "real (mval (128 * 2 ^ 23)) / scale = 2" by (simp add: mval_def scale_def)
    ultimately show False using yb by simp
  qed
  have "is_finite r \<and> \<bar>rval r - exp x\<bar> \<le> exp x / 2 ^ 22 + 1 / 2 ^ 150"
  proof (cases "k \<ge> - 125")
    case True
    have "int (mag y) + k * 2 ^ 23 < int inf_mag"
    proof (cases "k = 128")
      case False
      then have "k * 2 ^ 23 \<le> 127 * 2 ^ 23" using k(2) by simp
      then show ?thesis using m128 by (simp add: inf_mag_def)
    next
      case True
      have "z \<le> - (7 / 10 ^ 6)" using x ln_2_bounds unfolding z(1) True by simp
      then have "e \<le> exp (- (7 / 10 ^ 6))" by (simp add: e_def)
      also have "\<dots> = 1 / exp (7 / 10 ^ 6)" by (simp only: exp_minus inverse_eq_divide)
      also have "\<dots> \<le> 1 / (1 + 7 / 10 ^ 6)" by (intro divide_left_mono exp_ge_add_one_self mult_pos_pos) simp_all
      finally have "rval y < 1" using ye e unfolding abs_le_iff by simp
      moreover have "real (mval (127 * 2 ^ 23)) / scale = 1" by (simp add: mval_def scale_def)
      ultimately have "mag y < 127 * 2 ^ 23" using rval_mag_ge [of "127 * 2 ^ 23" y] yb by (cases "mag y < 127 * 2 ^ 23") simp_all
      then show ?thesis using True by (simp add: inf_mag_def)
    qed
    from add_exponent [OF neg yb True this] show ?thesis
      using True scaled by (simp_all add: r_def add_increasing2)
  next
    case False
    define w where "w = y + push_bit 23 (word_of_int (k + 100))"
    have "(k + 100) * 2 ^ 23 \<le> 0 * 2 ^ 23" using False by (intro mult_right_mono) simp_all
    then have "int (mag y) + (k + 100) * 2 ^ 23 < int inf_mag" using m128 by (simp add: inf_mag_def)
    note w = add_exponent [OF neg yb _ this, folded w_def]
    have t: "is_finite twom100" "rval twom100 = exp (- 100 * ln 2)"
    proof -
      show "is_finite twom100" by (simp add: const_eval twom100_def)
      have "exp (- 100 * ln 2) = inverse (2 ^ 100 :: real)" using exp_ln2_nat [of 100] by (simp only: exp_minus mult_minus_left of_nat_numeral)
      then show "rval twom100 = exp (- 100 * ln 2)" by (simp add: const_eval twom100_def)
    qed
    have "rval w * rval twom100 = rval y * exp (of_int k * ln 2)"
      using w(3) k(1) unfolding t(2) by (simp add: algebra_simps flip: exp_add)
    then have n: "near (rval y * exp (of_int k * ln 2)) r" using near_mul [OF w(1) t(1)] k(1) False by (simp add: r_def w_def)
    have b: "\<bar>rval y * exp (of_int k * ln 2)\<bar> * scale < 2 ^ 24 * 2 ^ 0"
    proof -
      have "k \<le> - 126" using False by simp
      then have "real_of_int k \<le> - 126" by linarith
      then have "exp (real_of_int k * ln 2) \<le> exp (- 126 * ln 2)" unfolding exp_le_cancel_iff by (intro mult_right_mono) simp_all
      also have "\<dots> = inverse (2 ^ 126)" using exp_ln2_nat [of 126] by (simp only: exp_minus mult_minus_left of_nat_numeral)
      finally have "rval y * exp (of_int k * ln 2) \<le> rval y * inverse (2 ^ 126)" using yb by (intro mult_left_mono) simp_all
      then have "\<bar>rval y * exp (of_int k * ln 2)\<bar> * scale \<le> rval y * inverse (2 ^ 126) * scale" using yb by (intro mult_right_mono) simp_all
      also have "\<dots> < 2 ^ 24 * 2 ^ 0" using yb by (simp add: scale_def)
      finally show ?thesis .
    qed
    have "\<bar>rval y * exp (of_int k * ln 2)\<bar> \<le> 2 ^ 100"
    proof -
      have "\<bar>rval y * exp (of_int k * ln 2)\<bar> * scale \<le> 2 ^ 100 * scale" using b by (rule order_trans [OF less_imp_le]) (simp add: scale_def)
      then show ?thesis by (rule mult_right_le_imp_le) simp
    qed
    from near_finite_large [OF n this] have f: "is_finite r" .
    have "\<bar>rval r - rval y * exp (of_int k * ln 2)\<bar> * scale \<le> 1 / 2 ^ 150 * scale" using near_error [OF n f b] by (simp add: scale_def)
    then have "\<bar>rval r - rval y * exp (of_int k * ln 2)\<bar> \<le> 1 / 2 ^ 150" by (rule mult_right_le_imp_le) simp
    then show ?thesis using scaled f by linarith
  qed
  then show "is_finite r" "\<bar>rval r - exp x\<bar> \<le> exp x / 2 ^ 22 + 1 / 2 ^ 150" by simp_all
qed

section \<open>The results\<close>

definition exp_near :: "u32 \<Rightarrow> real \<Rightarrow> bool" where
  "exp_near r x \<longleftrightarrow> is_finite r \<and> \<bar>rval r - exp x\<bar> \<le> exp x / 2 ^ 22 + 1 / 2 ^ 150"

lemma exp_large:
  fixes x :: u32
  assumes x: "is_finite x" "0x3EB17218 < mag x" "mag x \<le> (if negative x then 0x42CFF1B5 else 0x42B17217)"
  shows "case exp_reduce x (x AND 0x7FFFFFFF) (if negative x then 1 else 0) of
    (hi, lo, k) \<Rightarrow> k \<noteq> 0 \<and> exp_near (exp_scaled (fsub hi lo) hi lo k) (rval x)"
proof -
  obtain A lo k where r: "exp_reduce x (x AND 0x7FFFFFFF) (if negative x then 1 else 0) = (fsub x A, lo, k)"
    and k: "\<bar>k\<bar> \<le> 151" "k \<noteq> 0" "\<bar>rval x - of_int k * ln 2\<bar> \<le> 347 / 1000"
    and A: "is_finite A" "rval A = of_int k * (90851 / 2 ^ 17)" and lo: "appr lo (of_int k * (9959377 / 2 ^ 40)) (1 / 2 ^ 31)"
    using exp_reduce_spec [OF x] by blast
  define hi y where "hi = fsub x A" and "y = fsub hi lo"
  note e = exp_rest [OF x(1) k(1,3) A lo, folded hi_def, folded y_def]
  define z where "z = rval x - of_int k * ln 2"
  have s: "appr (fsub one_f (fsub (fsub lo (divsf3 (mulsf3 y (exp_poly y)) (fsub two_f (exp_poly y)))) hi)) (exp z) (exp z / 2 ^ 22)"
  proof -
    note y = exp_scaled_appr [OF e(1,2) appr_finite [OF lo] e(3,4,5,6)]
    then show ?thesis using exp_shift [OF e(7)] k(3) by (simp add: appr_def z_def)
  qed
  have b: "rval x \<le> 11629079 / 2 ^ 17" "- (104 :: real) \<le> rval x"
  proof -
    have "\<bar>rval x\<bar> \<le> real (mval 0x42B17217) / scale" if "\<not> negative x" using x(3) that by (intro rval_mag_le) simp
    moreover have "real (mval 0x42B17217) / scale = 11629079 / 2 ^ 17" by (simp add: mval_def scale_def)
    moreover have "rval x \<le> 0" if "negative x" using that by (simp add: rval_def fval_def)
    ultimately show "rval x \<le> 11629079 / 2 ^ 17" by (cases "negative x") (simp_all add: abs_le_iff)
    have "\<bar>rval x\<bar> \<le> real (mval 0x42CFF1B5) / scale" using x(3) by (intro rval_mag_le) (simp split: if_splits)
    moreover have "real (mval 0x42CFF1B5) / scale \<le> 104" by (simp add: mval_def scale_def)
    ultimately show "- (104 :: real) \<le> rval x" by (simp add: abs_le_iff)
  qed
  have kb: "- 150 \<le> k" "k \<le> 128"
  proof -
    define M where "M = real_of_int k * ln 2"
    have u: "M \<le> rval x + 347 / 1000" "rval x - 347 / 1000 \<le> M" using k(3) unfolding abs_le_iff M_def by simp_all
    show "k \<le> 128"
    proof (rule ccontr)
      assume "\<not> k \<le> 128"
      then have "129 \<le> real_of_int k" by linarith
      then have "129 * ln 2 \<le> M" unfolding M_def by (intro mult_right_mono) simp_all
      then show False using u b(1) ln_2_bounds by simp
    qed
    show "- 150 \<le> k"
    proof (rule ccontr)
      assume "\<not> - 150 \<le> k"
      then have "real_of_int k \<le> - 151" by linarith
      then have "M \<le> - 151 * ln 2" unfolding M_def by (intro mult_right_mono) simp_all
      then show False using u b(2) ln_2_bounds by simp
    qed
  qed
  have zb: "\<bar>z\<bar> \<le> 347 / 1000" using k(3) by (simp add: z_def)
  have "exp_near (exp_scaled y hi lo k) (rval x)"
    unfolding exp_near_def exp_scaled_def Let_def using exp_scaled_error [OF s z_def zb kb b(1)] by simp
  then show ?thesis using r k(2) by (simp add: hi_def y_def)
qed

lemma exp_near_appr:
  assumes "appr r (exp x) (15 / 2 ^ 27)" and "\<bar>x\<bar> \<le> 36 / 100"
  shows "exp_near r x"
proof -
  define e where "e = exp x"
  have "1 + x \<le> e" unfolding e_def by (rule exp_ge_add_one_self)
  then have "64 / 100 \<le> e" using assms(2) unfolding abs_le_iff by simp
  then have "\<bar>rval r - e\<bar> \<le> e / 2 ^ 22 + 1 / 2 ^ 150" using assms(1) unfolding appr_def e_def [symmetric] by simp
  then show ?thesis using assms(1) by (simp only: exp_near_def appr_def e_def)
qed

lemma exp_tiny:
  assumes "is_finite x" and "\<bar>rval x\<bar> \<le> 1 / 2 ^ 20"
  shows "exp_near (fadd one_f x) (rval x)"
proof (rule exp_near_appr)
  define X e where "X = rval x" and "e = exp X"
  have X: "\<bar>X\<bar> \<le> 1 / 2 ^ 20" using assms(2) by (simp add: X_def)
  have b: "\<bar>1 + X\<bar> + 0 < 2" using X unfolding abs_less_iff abs_le_iff by simp
  have a: "appr (fadd one_f x) (1 + X) (2 / 2 ^ 25)"
    using appr_add [OF trig_consts(7) appr_exact [OF assms(1)], where B = 2 and g = "2 / 2 ^ 25"] b by (simp add: X_def)
  obtain t where t: "\<bar>t\<bar> \<le> \<bar>X\<bar>" "exp X = (\<Sum>m<2. X ^ m / fact m) + exp t / fact 2 * X ^ 2" using Maclaurin_exp_le [of X 2] by blast
  have "exp t \<le> exp 1" using t(1) X by simp
  also have "\<dots> \<le> 3" by (rule exp_le)
  finally have "\<bar>exp t / 2\<bar> * \<bar>X ^ 2\<bar> \<le> 3 / 2 * (1 / 2 ^ 20) ^ 2" using power_mono [OF X, of 2] by (intro mult_mono) simp_all
  moreover have "1 + X - e = - (exp t / 2 * X ^ 2)" using t(2) by (simp add: e_def lessThan_nat_numeral fact_numeral)
  ultimately have "\<bar>1 + X - e\<bar> \<le> 1 / 2 ^ 27" unfolding abs_mult [symmetric] by (simp add: power_divide)
  from appr_shift [OF a this [unfolded e_def]] show "appr (fadd one_f x) (exp (rval x)) (15 / 2 ^ 27)" unfolding X_def by (rule appr_mono) simp
qed (use assms(2) in simp)

lemma sign_bit_int: "sint x div 2 ^ 31 AND 1 = (if negative x then 1 else 0)" for x :: u32
  using quadrant [of x 0] by (simp add: negative_def)

text \<open>The arguments whose exponential is too large for a number.\<close>

definition exp_big :: "u32 \<Rightarrow> bool" where
  "exp_big x \<longleftrightarrow> \<not> negative x \<and> 0x42B17217 < mag x"

lemma exp_big_value: "2 ^ 128 \<le> exp (rval x) \<longleftrightarrow> exp_big x"
proof -
  have t: "2 ^ 128 \<le> exp (rval x) \<longleftrightarrow> 128 * ln 2 \<le> rval x"
    using exp_ln2_nat [of 128] exp_le_cancel_iff [of "128 * ln 2" "rval x"] by simp
  show ?thesis
  proof (cases "exp_big x")
    case True
    then have "0 \<le> rval x" "real (mval 0x42B17218) / scale \<le> \<bar>rval x\<bar>"
      unfolding exp_big_def by (simp add: rval_def fval_def, intro rval_mag_ge) simp
    then have "128 * ln 2 \<le> rval x" using ln_2_bounds by (simp add: mval_def scale_def)
    then show ?thesis using True t by simp
  next
    case False
    have "rval x \<le> real (mval 0x42B17217) / scale"
    proof (cases "negative x")
      case True
      then have "rval x \<le> 0" by (simp add: rval_def fval_def)
      then show ?thesis by (rule order_trans) (simp add: scale_def)
    next
      case no: False
      then have "mag x \<le> 0x42B17217" using False by (simp add: exp_big_def)
      then show ?thesis using rval_mag_le abs_le_D1 by blast
    qed
    then have "rval x < 128 * ln 2" using ln_2_bounds by (simp add: mval_def scale_def)
    then show ?thesis using False t by simp
  qed
qed

text \<open>The branches of the function, by the magnitude and the sign of the argument.\<close>

lemma expf_branches:
  "expf x =
    (if is_nan x then fadd x x
     else if mag x = inf_mag then (if negative x then 0 else x)
     else if exp_big x then math_oflowf False
     else if negative x \<and> 0x42CFF1B5 < mag x then math_uflowf False
     else if 0x3EB17218 < mag x
     then let (hi, lo, k) = exp_reduce x (x AND 0x7FFFFFFF) (if negative x then 1 else 0); x = fsub hi lo
          in if k = 0 then exp_small x else exp_scaled x hi lo k
     else if mag x < 0x34000000 \<and> gesf2 (fadd huge x) one_f > 0 then fadd one_f x
     else exp_small x)"
proof -
  have hx: "unat (x AND 0x7FFFFFFF) = mag x" using abs_unat [of x] by (simp add: fp_consts)
  have "sint x > FLT_UWORD_LOG_MAX \<longleftrightarrow> exp_big x" using mag_lt [of x] by (simp add: FLT_UWORD_LOG_MAX_def exp_big_def sint_split)
  moreover have "x AND 0x7FFFFFFF > FLT_UWORD_LOG_MIN \<longleftrightarrow> 0x42CFF1B5 < mag x" by (simp add: FLT_UWORD_LOG_MIN_def word_less_nat_alt hx)
  moreover have "x AND 0x7FFFFFFF > 0x3EB17218 \<longleftrightarrow> 0x3EB17218 < mag x" "x AND 0x7FFFFFFF < 0x34000000 \<longleftrightarrow> mag x < 0x34000000"
    by (simp_all add: word_less_nat_alt hx)
  ultimately show ?thesis by (simp add: expf_def [of x, unfolded Let_def uword_classes sign_bit_int sint_sign] Let_def)
qed

lemma exp_underflow:
  assumes "negative x" and "0x42CFF1B5 < mag x"
  shows "exp_near (math_uflowf False) (rval x)"
proof -
  have "real (mval 0x42CFF1B6) / scale \<le> \<bar>rval x\<bar>" using assms(2) by (intro rval_mag_ge) simp
  moreover have "rval x \<le> 0" using assms(1) by (simp add: rval_def fval_def)
  ultimately have "rval x \<le> - 150 * ln 2" using ln_2_bounds by (simp add: mval_def scale_def)
  then have "exp (rval x) \<le> exp (- 150 * ln 2)" by simp
  also have "\<dots> = 1 / 2 ^ 150" using exp_ln2_nat [of 150] by (simp only: exp_minus mult_minus_left of_nat_numeral inverse_eq_divide)
  finally have "exp (rval x) \<le> 1 / 2 ^ 150" .
  moreover have "mag (math_uflowf False) = 0" by (rule uflow_value)
  then have "is_finite (math_uflowf False)" "rval (math_uflowf False) = 0" by (simp_all add: is_finite_def inf_mag_def rval_eq_0)
  ultimately show ?thesis by (simp add: exp_near_def add_increasing)
qed

lemma exp_small_near:
  assumes "is_finite x" and "mag x \<le> 0x3EB17218"
  shows "exp_near (exp_small x) (rval x)"
proof -
  have "\<bar>rval x\<bar> \<le> real (mval 0x3EB17218) / scale" using assms(2) by (rule rval_mag_le)
  then have b: "\<bar>rval x\<bar> \<le> 36 / 100" by (simp add: mval_def scale_def)
  show ?thesis by (rule exp_near_appr [OF exp_small_appr [OF assms(1) b] b])
qed

lemma exp_tiny_near:
  assumes "is_finite x" and "mag x < 0x34000000"
  shows "exp_near (fadd one_f x) (rval x)"
proof (rule exp_tiny [OF assms(1)])
  have "\<bar>rval x\<bar> \<le> real (mval 0x34000000) / scale" using assms(2) by (intro rval_mag_le) simp
  then show "\<bar>rval x\<bar> \<le> 1 / 2 ^ 20" by (simp add: mval_def scale_def)
qed

lemma expf_finite:
  assumes x: "is_finite x" "\<not> exp_big x"
  shows "exp_near (expf x) (rval x)"
proof -
  have c: "\<not> is_nan x" "mag x \<noteq> inf_mag" using x(1) by (simp_all add: is_nan_def is_finite_def)
  note f = expf_branches [of x]
  consider "negative x" "0x42CFF1B5 < mag x" | "0x3EB17218 < mag x" "mag x \<le> (if negative x then 0x42CFF1B5 else 0x42B17217)" | "mag x \<le> 0x3EB17218"
  proof (cases "mag x \<le> 0x3EB17218")
    case False
    moreover have "mag x \<le> 0x42B17217" if "\<not> negative x" using x(2) that by (simp add: exp_big_def)
    ultimately show thesis using that(1,2) by (cases "negative x"; cases "0x42CFF1B5 < mag x") simp_all
  qed
  then show ?thesis
  proof cases
    case 1
    then show ?thesis using exp_underflow [OF 1] c x(2) by (simp add: f)
  next
    case 2
    then show ?thesis using exp_large [OF x(1) 2] c x(2) by (auto simp: f Let_def split: prod.splits if_splits)
  next
    case 3
    then show ?thesis using exp_small_near [OF x(1) 3] exp_tiny_near [OF x(1)] c x(2) by (simp add: f)
  qed
qed

lemma infRep_eqI: "mag r = inf_mag \<Longrightarrow> \<not> negative r \<Longrightarrow> r = infRep"
  by (intro float_eqI) (simp_all add: mag_def negative_def fp_consts inf_mag_def)

lemma expf_zero:
  assumes "mag x = 0"
  shows "expf x = one_f"
proof -
  have "expf 0 = one_f" "expf 0x80000000 = one_f" by code_simp+
  moreover have "x = 0 \<or> x = 0x80000000"
    using float_eqI [of x 0] float_eqI [of x "0x80000000"] assms by (cases "negative x") (simp_all add: mag_def negative_def fp_consts)
  ultimately show ?thesis by auto
qed

text \<open>
  C10. The exponential function is accurate: the result is within \<open>2\<^sup>-\<^sup>2\<^sup>2\<close> of \<open>e\<^sup>x\<close>, relative to it, up to \<open>2\<^sup>-\<^sup>1\<^sup>5\<^sup>0\<close>, half of
  the least positive number. It is infinite exactly for the finite arguments whose exponential is at least \<open>2\<^sup>1\<^sup>2\<^sup>8\<close>. Infinite
  arguments give infinity and 0, a zero of either sign gives exactly 1, and a pattern that is not a number gives one.
\<close>

theorem expf_accurate:
  "if is_nan x then is_nan (expf x)
   else if mag x = inf_mag then expf x = (if negative x then 0 else infRep)
   else if mag x = 0 then expf x = one_f
   else if 2 ^ 128 \<le> exp (rval x) then expf x = infRep
   else is_finite (expf x) \<and> \<bar>rval (expf x) - exp (rval x)\<bar> \<le> exp (rval x) / 2 ^ 22 + 1 / 2 ^ 150"
proof -
  note f = expf_branches [of x]
  consider "is_nan x" | "mag x = inf_mag" | "is_finite x" "exp_big x" | "is_finite x" "\<not> exp_big x" by (force simp: is_nan_def is_finite_def)
  then show ?thesis
  proof cases
    case 1
    then show ?thesis using nonfinite_double [of x] by (simp add: f is_nan_def is_finite_def)
  next
    case 2
    then show ?thesis using infRep_eqI [of x] by (auto simp: f is_nan_def)
  next
    case 3
    have "expf x = infRep" using 3 infRep_eqI [OF oflow_value(1) [of False]] oflow_value(2) [of False] by (simp add: f is_nan_def is_finite_def)
    then show ?thesis using 3 exp_big_value [of x] expf_zero [of x] by (simp add: is_nan_def is_finite_def)
  next
    case 4
    then show ?thesis using expf_finite [OF 4] exp_big_value [of x] expf_zero [of x] by (simp add: exp_near_def is_nan_def is_finite_def)
  qed
qed

end
