(* ===== verification/Spec2Isabelle.thy ===== *)
theory Spec2Isabelle
  imports I64_Builtins Life2x_Main Life2x_Seed Life_Full_Main
    Ball Banner Ball2_Screen Runtime_Lib Queue_Demo Two_Tasks
    Libm_Sqrt Softfloat_Scale Softfloat_Half Libm_Hypot Libm_Log10 Libm_Exp
begin

text \<open>
  \<^bold>\<open>A verification library for the C code of the TMS9900 tool chain.\<close>

  The repository is a port of LLVM to the TMS9900, a 16-bit big-endian processor, with the run-time library that compiled
  programs link (\<^verbatim>\<open>libtms9900\<close>), cartridge programs for the TI-99/4A that run on it (\<^verbatim>\<open>cart_example\<close>) and a FreeRTOS
  demonstration (\<^verbatim>\<open>FreeRTOS\<close>). An \<^verbatim>\<open>int\<close> and a pointer have 16 bits, a \<^verbatim>\<open>long\<close> and a \<^verbatim>\<open>float\<close> 32. The library
  models the C code of these three parts. Integers keep their widths as words; where the values of an \<^verbatim>\<open>int\<close> stay in range
  they are integers, and the invariants show it. Memory and boards are functions from addresses to bytes, global variables are
  records, and a write to a port of the video processor is an element of a trace. A loop that could run forever is a partial
  function, and the theorems state that it returns.

  \<^bold>\<open>Shared material.\<close> \<open>TMS_Prelude\<close>: names for the word types, shifts, masks and casts read as arithmetic
  (\<open>unat_simps\<close>), lengths in bits, byte memories with 16-bit access, folds over index ranges, 16-bit \<^verbatim>\<open>int\<close>.
  \<open>C_Memory\<close>: the 64 KB memory of pointer programs, strings and regions in it.

  \<^bold>\<open>64-bit integers\<close> (\<^verbatim>\<open>builtins/i64\<close>, theory \<open>I64_Builtins\<close>): multiplication, division and remainder of 64-bit
  integers from 32-bit halves. The division first normalises (\<open>udivmoddi4_setup\<close>) and then runs a shift-subtract loop whose
  counter the setup bounds. The theorems give product, quotient and remainder for all operands, signed ones truncated as in C.

  \<^bold>\<open>Software floating point\<close> (\<^verbatim>\<open>builtins/softfloat\<close>): \<open>Float32\<close> has the values of 32-bit patterns as integers in
  units of the least subnormal number and the specification of rounding to nearest, in the locale \<open>float_format\<close> for a
  sequence of values, interpreted for single and half precision. \<open>Softfloat_Convert\<close> models comparisons and conversions,
  \<open>Softfloat_Round\<close> the common steps (normalising, sticky bits), \<open>Softfloat_Add\<close>, \<open>Softfloat_Mul\<close> and \<open>Softfloat_Div\<close>
  the operations, \<open>Softfloat_Half\<close> the half precision conversions, \<open>Softfloat_Scale\<close> the private \<^verbatim>\<open>logb\<close>, \<^verbatim>\<open>scalbn\<close>
  and \<^verbatim>\<open>fmax\<close>. Addition, subtraction, multiplication and, in \<open>Softfloat_Quotient\<close>, division by Newton iteration are proved
  to be those of IEEE-754 in the mode to nearest for all operands, and so is conversion to half precision; conversion from half
  precision is exact except for subnormal numbers, which the code converts wrongly.

  \<^bold>\<open>Mathematical library\<close> (\<^verbatim>\<open>picolibc/libm\<close> as \<^verbatim>\<open>libm/Makefile\<close> builds it, and \<^verbatim>\<open>libm/sincosf_tiny.c\<close>): \<open>Libm_Round\<close>
  (signs, classes, floor, ceiling, integral part), \<open>Libm_Fmod\<close> (remainder), \<open>Libm_Sqrt\<close> (square root), \<open>Libm_Scale\<close>
  (\<^verbatim>\<open>frexpf\<close>, \<^verbatim>\<open>scalbnf\<close>), \<open>Libm_Trig\<close> (sine and cosine), \<open>Libm_Hypot\<close> (hypotenuse), \<open>Libm_Atan\<close> and
  \<open>Libm_Asin\<close> (inverse circular functions), \<open>Libm_Log\<close> (the three logarithms) and \<open>Libm_Exp\<close> (exponential). They call
  the modelled floating point operations and are proved from their IEEE specification, not from their code: exact remainders,
  correctly rounded roots and scalings, and for hypotenuse and inverse functions symmetry, special values and domain errors.
  The library is built without \<^verbatim>\<open>errno\<close>. The rounding mode of \<^verbatim>\<open>sqrtf\<close> is an argument.

  \<^bold>\<open>Accuracy.\<close> Sine, cosine, exponential and logarithms are compared with the real functions. \<open>Float_Interval\<close> reads a
  pattern as a real number (\<open>rval\<close>), states that a result is a nearest number (\<open>near\<close>), and carries enclosures (\<open>encl\<close>)
  and distances to real values (\<open>appr\<close>) through every operation; \<open>Real_Bounds\<close> bounds the real functions by the
  polynomials the code evaluates. \<open>Libm_Trig_Error\<close> bounds the error of sine and cosine for arguments up to \<open>2\<^sup>1\<^sup>5\<close>, where
  the reduction does not overflow; \<open>Libm_Log\<close>, \<open>Libm_Log10\<close> and \<open>Libm_Exp\<close> bound the errors of their functions for all arguments.

  \<^bold>\<open>Run-time functions\<close> (\<^verbatim>\<open>string_utils.c\<close>, \<^verbatim>\<open>minilib.c\<close>, \<^verbatim>\<open>malloc.c\<close>; theory \<open>Runtime_Lib\<close>): string and memory
  functions on \<open>C_Memory\<close>, with termination for strings that end, and the bump allocator, whose blocks are disjoint as long as
  no size wraps; each call succeeds exactly when its size fits.

  \<^bold>\<open>Video display\<close>: \<open>Vdp\<close> is the processor as the programs see it, a state machine over port writes with a 14-bit address;
  its interface is the locale \<open>vdp_device\<close>, \<open>Vdp_Gfx2\<close> the bitmap mode with its pattern and colour tables and
  \<open>Vdp_Text\<close> the character modes. The screen is what these tables show.

  \<^bold>\<open>Game of Life\<close> (\<^verbatim>\<open>life.c\<close>, \<^verbatim>\<open>life2.c\<close>, \<^verbatim>\<open>life2_2x.c\<close>): \<open>Life_Rule\<close> has the rule on cells and the bit-parallel
  rule on 16-bit words, \<open>Life_Tiles\<close> the maps of active tiles. \<open>Life2x\<close> models \<^verbatim>\<open>life2_2x.c\<close>, \<open>Life2x_Step\<close> shows that a
  step over the active rows computes a generation, \<open>Life2x_Draw\<close> that redrawing dirty tiles keeps the screen equal to the
  board, and \<open>Life2x_Main\<close> that both hold in every state the main loop reaches whatever keys are pressed. The seeding
  stores up to 49 bytes past the end of a board, in memory that the linker places there: the layout is a parameter of the
  operations, the stores are done unconditionally, and \<open>Life2x_Seed\<close> shows where they go and what they leave alone when the
  layout is \<open>harmless\<close>, that is, when no board pointer, debug switch or remembered dirty tile lies there. The theorems on
  \<^verbatim>\<open>life2_2x.c\<close> have this hypothesis, which the order of the declarations meets (\<open>source_layout\<close>). \<open>Life_Full\<close>, \<open>Life_Full_Step\<close>, \<open>Life_Full_Seed\<close> and \<open>Life_Full_Main\<close> do
  the same for the full-resolution programs and show that the sliding window of \<^verbatim>\<open>life2.c\<close> equals the plain loop of \<^verbatim>\<open>life.c\<close>.

  \<^bold>\<open>Bouncing balls and banner\<close>: \<open>Ball\<close> (\<^verbatim>\<open>ball.c\<close>) and \<open>Banner\<close> (\<^verbatim>\<open>banner.c\<close>) give the whole screen after every
  frame. \<open>Ball2\<close>, \<open>Ball2_Motion\<close> and \<open>Ball2_Screen\<close> (\<^verbatim>\<open>ball2.c\<close>) keep the ball on the screen with bounded speed,
  show the border counters exactly, and bound the frames until the next hit; the integer square root is correct.

  \<^bold>\<open>FreeRTOS demonstrations\<close> (\<^verbatim>\<open>main_queue.c\<close>, theory \<open>Queue_Demo\<close>): three workers and a manager over a queue and an
  event group. A task is a machine whose steps are the entry into a kernel call, the return from it and the accesses to shared
  variables; any task that can go on may go on next, and the clock may tick between any two steps. The kernel, blocking
  included, is a parameter, its contract the locale \<open>freertos\<close>, interpreted on \<open>list_kernel\<close>. As long as at most \<open>L\<close> ticks of
  a round come while a task can go on, with \<open>6 + 2 L\<close> below the 65535 ticks of a time-out, rounds stay in step, no call
  times out, some task can go on within six ticks and every round ends. \<open>Two_Tasks\<close> (\<^verbatim>\<open>main.c\<close>)
  runs two counting tasks under every schedule and shows that no increment is lost.

  \<^bold>\<open>Parameters\<close>: the FreeRTOS kernel, the contents of the GROM that \<^verbatim>\<open>ball2.c\<close> reads, keys and the frame counter of
  \<^verbatim>\<open>life2_2x.c\<close>, and the memory layout behind its boards.

  \<^bold>\<open>Not modelled\<close>: the LLVM back end, a git submodule; the script \<^verbatim>\<open>llvm2xas99.py\<close> that rewrites assembler text; the
  run-time functions in assembly (\<^verbatim>\<open>mul32.S\<close>, \<^verbatim>\<open>div32.S\<close>, \<^verbatim>\<open>shift32.S\<close>, memory functions);
  powers (\<^verbatim>\<open>powf\<close>, \<^verbatim>\<open>exp2f\<close>), hyperbolic functions and their inverses, which call functions that the library does not
  build, and the tangent with its reduction by many digits of \<open>\<pi>\<close>; the C library of picolibc, which the run-time
  library does not build; start-up assembly inside the C files; tests and benchmarks.
\<close>

end
